(* ===== verification/Brood_Prelude.thy ===== *)
theory Brood_Prelude
  imports Main "HOL-Library.Word" "HOL-Library.Monad_Syntax"
begin

text \<open>
  Shared vocabulary of the development: the machine-integer types of the Rust sources, the
  conventions for panics, the \<open>Vec\<close> operations the sources use with their out-of-range
  behaviour, population counts of bitmaps, and lemmas on packed arrays (the elements selected from
  a list of slots, kept in slot order).

  Convention for Rust panics: an operation that can panic returns an \<open>option\<close>, and \<open>None\<close> is
  the panic (a failed \<open>debug_assert!\<close>, an index out of bounds, \<open>expect\<close> on nothing). Operations
  that report an error value return a sum or a datatype of their own.
\<close>

unbundle bit_operations_syntax

type_synonym u8 = "8 word"
type_synonym u16 = "16 word"
type_synonym u32 = "32 word"
type_synonym u64 = "64 word"

named_theorems vec_simps \<open>facts on the Rust vector operations\<close>
named_theorems pack_simps \<open>facts on packed slot arrays\<close>

section \<open>Rust vectors\<close>

text \<open>\<open>v[i]\<close>, \<open>v[i] = x\<close>, \<open>v.insert(i, x)\<close> and \<open>v.remove(i)\<close>: each panics out of range.\<close>

definition vec_get :: "'a list \<Rightarrow> nat \<Rightarrow> 'a option" where
  "vec_get xs i = (if i < length xs then Some (xs ! i) else None)"

definition vec_set :: "'a list \<Rightarrow> nat \<Rightarrow> 'a \<Rightarrow> 'a list option" where
  "vec_set xs i x = (if i < length xs then Some (xs[i := x]) else None)"

definition vec_insert :: "'a list \<Rightarrow> nat \<Rightarrow> 'a \<Rightarrow> 'a list option" where
  "vec_insert xs i x = (if i \<le> length xs then Some (take i xs @ x # drop i xs) else None)"

definition vec_remove :: "'a list \<Rightarrow> nat \<Rightarrow> 'a list option" where
  "vec_remove xs i = (if i < length xs then Some (take i xs @ drop (Suc i) xs) else None)"

text \<open>\<open>iter().position(p)\<close>: the index of the first element satisfying \<open>p\<close>.\<close>

fun position :: "('a \<Rightarrow> bool) \<Rightarrow> 'a list \<Rightarrow> nat option" where
  "position p [] = None"
| "position p (x # xs) = (if p x then Some 0 else map_option Suc (position p xs))"

lemma vec_get_Some [vec_simps]: "vec_get xs i = Some x \<longleftrightarrow> i < length xs \<and> xs ! i = x"
  by (auto simp: vec_get_def)

lemma position_Some:
  "position p xs = Some i \<Longrightarrow> i < length xs \<and> p (xs ! i) \<and> (\<forall>j < i. \<not> p (xs ! j))"
proof (induction xs arbitrary: i)
  case Nil
  then show ?case by simp
next
  case (Cons x xs)
  then show ?case by (auto simp: less_Suc_eq_0_disj split: if_splits)
qed

lemma position_None: "position p xs = None \<longleftrightarrow> (\<forall>x \<in> set xs. \<not> p x)"
  by (induction xs) auto

lemma position_find: "map_option (\<lambda>i. xs ! i) (position p xs) = find p xs"
  by (induction xs) (auto simp: option.map_comp o_def)

section \<open>Population counts\<close>

definition count_ones :: "'a::len word \<Rightarrow> nat" where
  "count_ones w = length (filter (bit w) [0..<LENGTH('a)])"

lemma count_ones_mask:
  fixes w :: "'a::len word"
  assumes "s \<le> LENGTH('a)"
  shows "count_ones (w AND mask s) = length (filter (bit w) [0..<s])"
proof -
  have split: "[0..<LENGTH('a)] = [0..<s] @ [s..<LENGTH('a)]"
    using assms by (metis le_add_diff_inverse upt_add_eq_append zero_le)
  have low: "filter (bit (w AND mask s)) [0..<s] = filter (bit w) [0..<s]"
    using assms by (intro filter_cong) (auto simp: bit_simps)
  have high: "filter (bit (w AND mask s)) [s..<LENGTH('a)] = []"
    by (auto simp: filter_empty_conv bit_simps)
  show ?thesis
    by (simp add: count_ones_def split low high)
qed

section \<open>Packed arrays\<close>

text \<open>
  \<open>pack f cs\<close> keeps, in order, what \<open>f\<close> selects from the slots \<open>cs\<close>. Writing one slot is a
  replacement, an insertion or a removal at the number of selected slots before it.
\<close>

fun pack :: "('c \<Rightarrow> 'x option) \<Rightarrow> 'c list \<Rightarrow> 'x list" where
  "pack f [] = []"
| "pack f (c # cs) = (case f c of None \<Rightarrow> pack f cs | Some x \<Rightarrow> x # pack f cs)"

lemma pack_append [simp]: "pack f (xs @ ys) = pack f xs @ pack f ys"
  by (induction xs) (auto split: option.splits)

lemma pack_split:
  assumes "s < length cs"
  shows "pack f cs = pack f (take s cs) @ pack f [cs ! s] @ pack f (drop (Suc s) cs)"
  by (metis assms append_Cons append_Nil id_take_nth_drop pack_append)

lemma pack_update_split:
  assumes "s < length cs"
  shows "pack f (cs[s := c]) = pack f (take s cs) @ pack f [c] @ pack f (drop (Suc s) cs)"
  using assms by (simp add: upd_conv_take_nth_drop split: option.split)

lemma pack_nth [pack_simps]:
  assumes "s < length cs" "f (cs ! s) = Some x"
  shows "length (pack f (take s cs)) < length (pack f cs)"
    and "pack f cs ! length (pack f (take s cs)) = x"
  by (simp_all add: pack_split [OF assms(1)] assms(2) nth_append)

lemma pack_replace [pack_simps]:
  assumes "s < length cs" "f (cs ! s) = Some x" "f c = Some y"
  shows "vec_set (pack f cs) (length (pack f (take s cs))) y = Some (pack f (cs[s := c]))"
  using assms pack_nth(1) [of s cs f x]
  by (simp add: vec_set_def pack_split [OF assms(1)] pack_update_split list_update_append)

lemma pack_remove [pack_simps]:
  assumes "s < length cs" "f (cs ! s) = Some x" "f c = None"
  shows "vec_remove (pack f cs) (length (pack f (take s cs))) = Some (pack f (cs[s := c]))"
  using assms by (simp add: vec_remove_def pack_split [OF assms(1)] pack_update_split)

lemma pack_insert [pack_simps]:
  assumes "s < length cs" "f (cs ! s) = None" "f c = Some y"
  shows "vec_insert (pack f cs) (length (pack f (take s cs))) y = Some (pack f (cs[s := c]))"
  using assms by (simp add: vec_insert_def pack_split [OF assms(1)] pack_update_split)

lemma pack_same [pack_simps]:
  assumes "s < length cs" "f (cs ! s) = None" "f c = None"
  shows "pack f (cs[s := c]) = pack f cs"
  using assms by (simp add: pack_split [OF assms(1)] pack_update_split)

lemma length_pack: "length (pack f cs) = length (filter (\<lambda>c. f c \<noteq> None) cs)"
  by (induction cs) (auto split: option.splits)

lemma length_pack_take:
  assumes "s \<le> length cs"
  shows "length (pack f (take s cs)) = length (filter (\<lambda>i. f (cs ! i) \<noteq> None) [0..<s])"
proof -
  have "take s cs = map ((!) cs) [0..<s]"
    using assms by (simp add: list_eq_iff_nth_eq)
  then show ?thesis
    by (simp add: length_pack filter_map o_def)
qed

section \<open>Sets\<close>

lemma subset_replace: "X \<subseteq> A \<union> B \<Longrightarrow> B \<subseteq> insert k C \<Longrightarrow> C \<subseteq> A \<Longrightarrow> X \<subseteq> insert k A"
  by blast

end
