(* ===== verification/Handles.thy ===== *)
theory Handles
  imports Brood_Prelude
begin

text \<open>
  Heap handles (\<open>crates/lisp/src/core/value.rs\<close>, the \<open>handle!\<close> macro). A handle is one 64-bit word:
  two region bits on top, one age bit, a 29-bit generation stamp and a 32-bit slab index. The
  constructors carry the \<open>debug_assert!\<close>s of the source, so they return \<open>None\<close> on an index that
  does not fit its field. The lemmas show that the fields read back what the constructors wrote and
  that handle equality is equality of region, age and index (and, for RUNTIME handles, code
  generation), whatever the generation stamp.
\<close>

type_synonym handle = u64

definition REGION_SHIFT :: nat where "REGION_SHIFT = 62"
definition AGE_SHIFT :: nat where "AGE_SHIFT = 61"
definition GEN_SHIFT :: nat where "GEN_SHIFT = 32"
definition INDEX_MASK :: u64 where "INDEX_MASK = push_bit GEN_SHIFT 1 - 1"
definition GEN_MASK :: u64 where "GEN_MASK = push_bit (AGE_SHIFT - GEN_SHIFT) 1 - 1"
definition AGE_OLD :: u64 where "AGE_OLD = push_bit AGE_SHIFT 1"
definition LOCAL :: u8 where "LOCAL = 0"
definition PRELUDE :: u8 where "PRELUDE = 1"
definition RUNTIME :: u8 where "RUNTIME = 2"
definition REGION_RESERVED :: u8 where "REGION_RESERVED = 3"

definition region :: "handle \<Rightarrow> u8" where
  "region h = ucast (drop_bit REGION_SHIFT h)"

definition index :: "handle \<Rightarrow> nat" where
  "index h = unat (h AND INDEX_MASK)"

definition generation :: "handle \<Rightarrow> u32" where
  "generation h = ucast (drop_bit GEN_SHIFT h AND GEN_MASK)"

definition is_old :: "handle \<Rightarrow> bool" where
  "is_old h \<longleftrightarrow> drop_bit AGE_SHIFT h AND 1 = 1"

definition code_gen :: "handle \<Rightarrow> nat" where
  "code_gen h = unat (drop_bit GEN_SHIFT h AND 1)"

text \<open>The raw words the constructors assemble; \<open>index as u64\<close> keeps the low 64 bits.\<close>

definition local_gen_bits :: "nat \<Rightarrow> u32 \<Rightarrow> handle" where
  "local_gen_bits i g = of_nat i OR push_bit GEN_SHIFT (ucast g AND GEN_MASK)"

definition local_gen :: "nat \<Rightarrow> u32 \<Rightarrow> handle option" where
  "local_gen i g =
     (if i < 2 ^ GEN_SHIFT
      then let h = local_gen_bits i g
           in if region h < REGION_RESERVED then Some h else None
      else None)"

definition local_old_gen :: "nat \<Rightarrow> u32 \<Rightarrow> handle option" where
  "local_old_gen i g =
     (if i < 2 ^ GEN_SHIFT
      then let h = local_gen_bits i g OR AGE_OLD
           in if region h < REGION_RESERVED then Some h else None
      else None)"

definition prelude :: "nat \<Rightarrow> handle option" where
  "prelude i =
     (if i < 2 ^ GEN_SHIFT \<and> PRELUDE < REGION_RESERVED
      then Some (of_nat i OR push_bit REGION_SHIFT (ucast PRELUDE)) else None)"

definition runtime_gen :: "nat \<Rightarrow> nat \<Rightarrow> handle option" where
  "runtime_gen i g =
     (if i < 2 ^ GEN_SHIFT \<and> g < 2 \<and> RUNTIME < REGION_RESERVED
      then Some (of_nat i OR push_bit GEN_SHIFT (of_nat g AND 1)
                 OR push_bit REGION_SHIFT (ucast RUNTIME))
      else None)"

definition canonical :: "handle \<Rightarrow> u64" where
  "canonical h =
     (if region h = RUNTIME
      then h AND NOT (push_bit (GEN_SHIFT + 1) (drop_bit 1 GEN_MASK) OR AGE_OLD)
      else h AND NOT (push_bit GEN_SHIFT GEN_MASK))"

definition handle_eq :: "handle \<Rightarrow> handle \<Rightarrow> bool" where
  "handle_eq a b \<longleftrightarrow> canonical a = canonical b"

section \<open>Reading the fields bit by bit\<close>

lemmas handle_consts = REGION_SHIFT_def AGE_SHIFT_def GEN_SHIFT_def
  LOCAL_def PRELUDE_def RUNTIME_def REGION_RESERVED_def

lemma INDEX_MASK_mask: "INDEX_MASK = mask 32"
  by (simp add: INDEX_MASK_def GEN_SHIFT_def mask_eq_exp_minus_1 push_bit_eq_mult)

lemma GEN_MASK_mask: "GEN_MASK = mask 29"
  by (simp add: GEN_MASK_def AGE_SHIFT_def GEN_SHIFT_def mask_eq_exp_minus_1 push_bit_eq_mult)

lemma bit_GEN_MASK [simp]: "bit GEN_MASK n \<longleftrightarrow> n < 29"
  by (auto simp: GEN_MASK_mask bit_simps)

lemma bit_AGE_OLD [simp]: "bit AGE_OLD n \<longleftrightarrow> n = 61"
  by (simp only: AGE_OLD_def AGE_SHIFT_def bit_push_bit_iff bit_1_iff possible_bit_word) auto

lemma index_take_bit: "index h = unat (take_bit 32 h)"
  by (simp add: index_def INDEX_MASK_mask take_bit_eq_mask)

lemma is_old_bit: "is_old h \<longleftrightarrow> bit h 61"
  by (simp add: is_old_def AGE_SHIFT_def and_one_eq bit_iff_odd_drop_bit odd_iff_mod_2_eq_one)

lemma code_gen_bit: "code_gen h = (if bit h 32 then 1 else 0)"
proof -
  have "drop_bit 32 h AND 1 = (if bit h 32 then 1 else 0)"
    by (rule bit_word_eqI) (auto simp: bit_and_iff bit_1_iff bit_drop_bit_eq intro: gr0I)
  then show ?thesis by (simp add: code_gen_def GEN_SHIFT_def)
qed

lemma region_eq_iff: "region a = region b \<longleftrightarrow> bit a 62 = bit b 62 \<and> bit a 63 = bit b 63"
proof -
  have "region a = region b \<longleftrightarrow> (\<forall>n < 8. bit (region a) n = bit (region b) n)"
    by (auto simp: bit_eq_iff dest: bit_imp_le_length)
  also have "\<dots> \<longleftrightarrow> (\<forall>n < 8. bit a (62 + n) = bit b (62 + n))"
    by (simp add: region_def REGION_SHIFT_def bit_simps)
  also have "\<dots> \<longleftrightarrow> bit a 62 = bit b 62 \<and> bit a 63 = bit b 63"
  proof
    assume "\<forall>n<8. bit a (62 + n) = bit b (62 + n)"
    from this [rule_format, of 0] this [rule_format, of 1]
    show "bit a 62 = bit b 62 \<and> bit a 63 = bit b 63" by simp
  next
    assume *: "bit a 62 = bit b 62 \<and> bit a 63 = bit b 63"
    show "\<forall>n<8. bit a (62 + n) = bit b (62 + n)"
    proof (intro allI impI)
      fix n :: nat
      consider "n = 0" | "n = 1" | "2 \<le> n" by linarith
      then show "bit a (62 + n) = bit b (62 + n)"
        using * by cases (auto dest: bit_imp_le_length)
    qed
  qed
  finally show ?thesis .
qed

lemma region_cases:
  "region h = LOCAL \<longleftrightarrow> \<not> bit h 62 \<and> \<not> bit h 63"
  "region h = PRELUDE \<longleftrightarrow> bit h 62 \<and> \<not> bit h 63"
  "region h = RUNTIME \<longleftrightarrow> \<not> bit h 62 \<and> bit h 63"
proof -
  have "region (0 :: u64) = LOCAL" "region (push_bit 62 1 :: u64) = PRELUDE"
    "region (push_bit 62 2 :: u64) = RUNTIME"
    by (simp_all add: region_def handle_consts)
  then show "region h = LOCAL \<longleftrightarrow> \<not> bit h 62 \<and> \<not> bit h 63"
    "region h = PRELUDE \<longleftrightarrow> bit h 62 \<and> \<not> bit h 63"
    "region h = RUNTIME \<longleftrightarrow> \<not> bit h 62 \<and> bit h 63"
    using region_eq_iff [of h 0] region_eq_iff [of h "push_bit 62 1"]
      region_eq_iff [of h "push_bit 62 2"]
    by (auto simp: bit_simps)
qed

lemma index_eq_iff: "index a = index b \<longleftrightarrow> (\<forall>n < 32. bit a n = bit b n)"
proof -
  have "index a = index b \<longleftrightarrow> take_bit 32 a = take_bit 32 b"
    by (simp add: index_take_bit word_unat_eq_iff)
  also have "\<dots> \<longleftrightarrow> (\<forall>n < 32. bit a n = bit b n)"
  proof
    assume eq: "take_bit 32 a = take_bit 32 b"
    show "\<forall>n < 32. bit a n = bit b n"
      using arg_cong [OF eq, of "\<lambda>w. bit w n" for n] by (auto simp: bit_take_bit_iff)
  next
    assume "\<forall>n < 32. bit a n = bit b n"
    then show "take_bit 32 a = take_bit 32 b"
      by (auto simp: bit_eq_iff bit_take_bit_iff)
  qed
  finally show ?thesis .
qed

lemma bit_of_nat_high:
  assumes "i < 2 ^ 32" "bit (of_nat i :: u64) n"
  shows "n < 32"
proof (rule ccontr)
  assume "\<not> n < 32"
  then have "(2::nat) ^ 32 \<le> 2 ^ n" by (intro power_increasing) simp_all
  with assms(1) have "i div 2 ^ n = 0" by (simp add: div_eq_0_iff)
  moreover have "bit i n" using assms(2) by (simp only: bit_of_nat_iff)
  ultimately show False by (simp add: bit_iff_odd)
qed

lemma take_bit_of_nat_index:
  "i < 2 ^ 32 \<Longrightarrow> unat (take_bit 32 (of_nat i :: u64)) = i"
  by (simp only: unsigned_take_bit_eq unsigned_of_nat)
    (simp add: take_bit_nat_eq_self_iff)

section \<open>What the constructors write\<close>

lemma bit_local_gen_bits:
  assumes "i < 2 ^ 32"
  shows "bit (local_gen_bits i g) n \<longleftrightarrow>
    (if n < 32 then bit (of_nat i :: u64) n else n < 61 \<and> bit g (n - 32))"
  using bit_of_nat_high [OF assms, of n] bit_imp_le_length [of g "n - 32"]
  by (auto simp: local_gen_bits_def GEN_SHIFT_def bit_or_iff bit_push_bit_iff bit_and_iff bit_ucast_iff)

lemma index_of_bits:
  assumes "i < 2 ^ 32" "\<And>n. n < 32 \<Longrightarrow> bit h n = bit (of_nat i :: u64) n"
  shows "index h = i"
proof -
  have "index h = index (of_nat i)"
    using assms(2) by (simp add: index_eq_iff)
  then show ?thesis
    using assms(1) by (simp add: index_take_bit take_bit_of_nat_index)
qed

lemma generation_of_bits:
  assumes "\<And>n. n < 29 \<Longrightarrow> bit h (32 + n) = bit g n"
  shows "generation h = g AND mask 29"
  using assms
  by (auto simp: bit_eq_iff generation_def GEN_SHIFT_def bit_simps)

lemma local_gen_fields:
  assumes "i < 2 ^ 32"
  shows "local_gen i g = Some (local_gen_bits i g)"
    and "region (local_gen_bits i g) = LOCAL"
    and "\<not> is_old (local_gen_bits i g)"
    and "index (local_gen_bits i g) = i"
    and "generation (local_gen_bits i g) = g AND mask 29"
proof -
  show reg: "region (local_gen_bits i g) = LOCAL"
    by (simp add: region_cases bit_local_gen_bits [OF assms])
  show "local_gen i g = Some (local_gen_bits i g)"
    using assms reg by (simp add: local_gen_def handle_consts)
  show "\<not> is_old (local_gen_bits i g)"
    by (simp add: is_old_bit bit_local_gen_bits [OF assms])
  show "index (local_gen_bits i g) = i"
    by (rule index_of_bits [OF assms]) (simp add: bit_local_gen_bits [OF assms])
  show "generation (local_gen_bits i g) = g AND mask 29"
    by (rule generation_of_bits) (simp add: bit_local_gen_bits [OF assms])
qed

lemma local_old_gen_fields:
  assumes "i < 2 ^ 32"
  shows "local_old_gen i g = Some (local_gen_bits i g OR AGE_OLD)"
    and "region (local_gen_bits i g OR AGE_OLD) = LOCAL"
    and "is_old (local_gen_bits i g OR AGE_OLD)"
    and "index (local_gen_bits i g OR AGE_OLD) = i"
    and "generation (local_gen_bits i g OR AGE_OLD) = g AND mask 29"
proof -
  show reg: "region (local_gen_bits i g OR AGE_OLD) = LOCAL"
    by (simp add: region_cases bit_or_iff bit_local_gen_bits [OF assms])
  show "local_old_gen i g = Some (local_gen_bits i g OR AGE_OLD)"
    using assms reg by (simp add: local_old_gen_def handle_consts)
  show "is_old (local_gen_bits i g OR AGE_OLD)"
    by (simp add: is_old_bit bit_or_iff)
  show "index (local_gen_bits i g OR AGE_OLD) = i"
    by (rule index_of_bits [OF assms]) (simp add: bit_or_iff bit_local_gen_bits [OF assms])
  show "generation (local_gen_bits i g OR AGE_OLD) = g AND mask 29"
    by (rule generation_of_bits) (simp add: bit_or_iff bit_local_gen_bits [OF assms])
qed

lemma bit_ucast_region [simp]:
  "bit (ucast PRELUDE :: u64) n \<longleftrightarrow> n = 0" "bit (ucast RUNTIME :: u64) n \<longleftrightarrow> n = 1"
  by (simp_all add: PRELUDE_def RUNTIME_def bit_1_iff) (auto simp: bit_simps numeral_2_eq_2)

lemma prelude_fields:
  assumes "i < 2 ^ 32" "prelude i = Some h"
  shows "region h = PRELUDE" and "index h = i" and "\<not> is_old h"
proof -
  have h: "h = of_nat i OR push_bit 62 (ucast PRELUDE)"
    using assms by (simp add: prelude_def handle_consts split: if_splits)
  have bits: "bit h n \<longleftrightarrow> (if n < 32 then bit (of_nat i :: u64) n else n = 62)" for n
    using bit_of_nat_high [OF assms(1), of n]
    by (auto simp: h bit_or_iff bit_push_bit_iff simp del: of_nat_numeral)
  show "region h = PRELUDE" by (simp add: region_cases bits)
  show "index h = i" by (rule index_of_bits [OF assms(1)]) (simp add: bits)
  show "\<not> is_old h" by (simp add: is_old_bit bits)
qed

lemma runtime_gen_fields:
  assumes "i < 2 ^ 32" "g < 2" "runtime_gen i g = Some h"
  shows "region h = RUNTIME" and "index h = i" and "code_gen h = g" and "\<not> is_old h"
proof -
  have h: "h = of_nat i OR push_bit 32 (of_nat g AND 1) OR push_bit 62 (ucast RUNTIME)"
    using assms by (simp add: runtime_gen_def handle_consts split: if_splits)
  have g: "bit (of_nat g AND 1 :: u64) n \<longleftrightarrow> n = 0 \<and> g = 1" for n
    using assms(2) by (cases "g = 0") (auto simp: less_2_cases_iff bit_1_iff)
  have bits: "bit h n \<longleftrightarrow> (if n < 32 then bit (of_nat i :: u64) n else n = 32 \<and> g = 1 \<or> n = 63)" for n
    using bit_of_nat_high [OF assms(1), of n]
    unfolding h bit_or_iff bit_push_bit_iff g by auto
  show "region h = RUNTIME" by (simp add: region_cases bits)
  show "index h = i" by (rule index_of_bits [OF assms(1)]) (simp add: bits)
  show "\<not> is_old h" by (simp add: is_old_bit bits)
  show "code_gen h = g"
    using assms(2) by (auto simp: code_gen_bit bits less_2_cases_iff)
qed

section \<open>Handle identity\<close>

lemma bit_canonical:
  "bit (canonical h) n \<longleftrightarrow>
     bit h n \<and> (n < 32 \<or> 61 < n \<or> (if region h = RUNTIME then n = 32 else n = 61))"
proof -
  have "bit (NOT (push_bit (GEN_SHIFT + 1) (drop_bit 1 GEN_MASK) OR AGE_OLD)) n \<longleftrightarrow>
      n < 64 \<and> (n < 33 \<or> 61 < n)"
    unfolding bit_not_iff bit_or_iff bit_push_bit_iff bit_drop_bit_eq possible_bit_word
    by (auto simp: GEN_SHIFT_def)
  moreover have "bit (NOT (push_bit GEN_SHIFT GEN_MASK)) n \<longleftrightarrow> n < 64 \<and> (n < 32 \<or> 60 < n)"
    unfolding bit_not_iff bit_push_bit_iff possible_bit_word by (auto simp: GEN_SHIFT_def)
  ultimately show ?thesis
    using bit_imp_le_length [of h n] by (auto simp: canonical_def bit_and_iff not_less_eq less_Suc_eq)
qed

lemma region_canonical: "canonical a = canonical b \<Longrightarrow> region a = region b"
proof -
  assume "canonical a = canonical b"
  then have "bit (canonical a) n = bit (canonical b) n" for n by simp
  from this [of 62] this [of 63] show ?thesis
    by (simp add: bit_canonical region_eq_iff)
qed

text \<open>
  C15: two handles are equal exactly when they address the same object: same region, same slab index,
  and the same age (nursery or old) for LOCAL and PRELUDE handles or the same code generation for
  RUNTIME ones. The generation stamp never matters.
\<close>

theorem handle_eq_iff:
  "handle_eq a b \<longleftrightarrow>
     region a = region b \<and> index a = index b \<and>
     (if region a = RUNTIME then code_gen a = code_gen b else is_old a = is_old b)"
proof
  assume eq: "handle_eq a b"
  then have reg: "region a = region b" by (auto simp: handle_eq_def intro: region_canonical)
  from eq have "bit (canonical a) n = bit (canonical b) n" for n by (simp add: handle_eq_def)
  then have bits: "n < 32 \<or> 61 < n \<or> (if region a = RUNTIME then n = 32 else n = 61) \<Longrightarrow>
      bit a n = bit b n" for n
    using reg by (auto simp: bit_canonical split: if_splits)
  then have "index a = index b" by (simp add: index_eq_iff)
  moreover have "if region a = RUNTIME then code_gen a = code_gen b else is_old a = is_old b"
    using bits [of 32] bits [of 61] by (auto simp: code_gen_bit is_old_bit)
  ultimately show "region a = region b \<and> index a = index b \<and>
     (if region a = RUNTIME then code_gen a = code_gen b else is_old a = is_old b)"
    using reg by simp
next
  assume *: "region a = region b \<and> index a = index b \<and>
     (if region a = RUNTIME then code_gen a = code_gen b else is_old a = is_old b)"
  then have reg: "region a = region b" by simp
  then have top: "bit a 62 = bit b 62" "bit a 63 = bit b 63" by (simp_all add: region_eq_iff)
  from * have low: "\<And>n. n < 32 \<Longrightarrow> bit a n = bit b n"
    and cg: "region b = RUNTIME \<Longrightarrow> bit a 32 = bit b 32"
    and age: "region b \<noteq> RUNTIME \<Longrightarrow> bit a 61 = bit b 61"
    by (auto simp: index_eq_iff code_gen_bit is_old_bit split: if_splits)
  have "bit (canonical a) n = bit (canonical b) n" if n64: "n < 64" for n
  proof -
    consider "n < 32" | "n = 32" | "32 < n" "n < 61" | "n = 61" | "n = 62" | "n = 63"
      using n64 by linarith
    then show ?thesis
      using reg top low cg age by cases (auto simp: bit_canonical)
  qed
  then show "handle_eq a b"
    by (simp add: handle_eq_def bit_eq_iff)
qed

text \<open>
  a LOCAL handle reads back what it was minted with. Every index below \<open>2 ^ 32\<close> is accepted, in
  the nursery and in the old generation, and the handle's region, age, index and (29-bit) generation
  stamp are those given to the constructor; an index that does not fit panics.
\<close>

theorem local_handle_roundtrip:
  "(case local_gen i g of
      Some h \<Rightarrow> i < 2 ^ 32 \<and> region h = LOCAL \<and> \<not> is_old h \<and> index h = i \<and> generation h = g AND mask 29
    | None \<Rightarrow> 2 ^ 32 \<le> i) \<and>
   (case local_old_gen i g of
      Some h \<Rightarrow> i < 2 ^ 32 \<and> region h = LOCAL \<and> is_old h \<and> index h = i \<and> generation h = g AND mask 29
    | None \<Rightarrow> 2 ^ 32 \<le> i)"
proof (cases "i < 2 ^ 32")
  case True
  then show ?thesis using local_gen_fields [of i g] local_old_gen_fields [of i g] by simp
next
  case False
  then show ?thesis by (simp add: local_gen_def local_old_gen_def GEN_SHIFT_def)
qed

end
