(* ===== verification/Champ_Trie.thy ===== *)
theory Champ_Trie
  imports Brood_Prelude
begin

text \<open>
  The abstract CHAMP trie: what the heap of \<open>MapNode\<close>s in \<open>core/heap/map_ops.rs\<close> represents once
  handles, bitmaps and packed arrays are read away. A branch is a list of sixteen cells; a cell is
  empty, an inline entry or a child; a collision leaf holds the entries whose 64 hash bits agree.
  This theory is the specification level: the theory \<open>Champ_Heap\<close> translates the Rust code and
  refines these operations.

  The operations are parameters of the key operations \<open>eq\<close> (\<open>Heap::equal\<close>) and \<open>hv\<close>
  (\<open>Heap::hash_value\<close>). The locale \<open>key_equality\<close> states what a map needs of them: \<open>eq\<close> is
  symmetric and transitive and equal keys hash alike. Reflexivity is not assumed, because a NaN
  float is not equal to itself.
\<close>

datatype 'v trie = Collision "('v \<times> 'v) list" | Branch "'v cell list"
  and 'v cell = Empty | Entry 'v 'v | Child "'v trie"

lemma trie_induct [case_names Collision Branch]:
  assumes "\<And>es. P (Collision es)"
    and "\<And>cs. (\<And>t. Child t \<in> set cs \<Longrightarrow> P t) \<Longrightarrow> P (Branch cs)"
  shows "P t"
proof (rule trie.induct [of P "\<lambda>c. case c of Child t \<Rightarrow> P t | _ \<Rightarrow> True"])
  fix cs assume "\<And>c. c \<in> set cs \<Longrightarrow> case c of Child t \<Rightarrow> P t | _ \<Rightarrow> True"
  then show "P (Branch cs)" by (intro assms(2)) force
qed (simp_all add: assms(1))

abbreviation MAXD :: nat where "MAXD \<equiv> 16"

definition slot :: "u64 \<Rightarrow> nat \<Rightarrow> nat" where
  "slot h d = unat (drop_bit (4 * d) h AND 15)"

lemma slot_less [simp]: "slot h d < 16"
proof -
  have "unat (drop_bit (4 * d) h AND 15) \<le> unat (15 :: u64)"
    by (rule word_and_le1 [THEN word_le_nat_alt [THEN iffD1]])
  then show ?thesis by (simp add: slot_def)
qed

lemma bit_slot: "j < 4 \<Longrightarrow> bit (slot h d) j = bit h (4 * d + j)"
proof -
  assume j: "j < 4"
  have m: "(15 :: u64) = mask 4" by (simp add: mask_eq_exp_minus_1)
  show ?thesis
    unfolding slot_def m using j by (simp add: bit_unsigned_iff bit_simps)
qed

text \<open>Two hashes that agree in every slot are the same hash: 16 levels of 4 bits are all 64 bits.\<close>

lemma slots_determine_hash:
  assumes "\<And>d. d < MAXD \<Longrightarrow> slot h1 d = slot h2 d"
  shows "h1 = h2"
proof (rule bit_word_eqI)
  fix n :: nat
  assume n: "n < LENGTH(64)"
  then have "n div 4 < MAXD" by simp
  then have "bit (slot h1 (n div 4)) (n mod 4) = bit (slot h2 (n div 4)) (n mod 4)"
    using assms by simp
  then show "bit h1 n = bit h2 n"
    by (simp add: bit_slot)
qed

section \<open>Entries and size\<close>

fun cell_entry :: "'v cell \<Rightarrow> ('v \<times> 'v) option" where
  "cell_entry (Entry k v) = Some (k, v)"
| "cell_entry _ = None"

fun cell_child :: "'v cell \<Rightarrow> 'v trie option" where
  "cell_child (Child t) = Some t"
| "cell_child _ = None"

text \<open>The traversal order of \<open>collect_entries_into\<close>: a node's inline entries, then its children.\<close>

fun entries :: "'v trie \<Rightarrow> ('v \<times> 'v) list"
  and deep :: "'v cell \<Rightarrow> ('v \<times> 'v) list" where
  "entries (Collision es) = es"
| "entries (Branch cs) = pack cell_entry cs @ concat (map deep cs)"
| "deep (Child t) = entries t"
| "deep Empty = []"
| "deep (Entry k v) = []"

definition count :: "'v trie \<Rightarrow> nat" where
  "count t = length (entries t)"

definition cell_all :: "'v cell \<Rightarrow> ('v \<times> 'v) list" where
  "cell_all c = pack cell_entry [c] @ deep c"

lemma cell_all_simps [simp]:
  "cell_all Empty = []" "cell_all (Entry k v) = [(k, v)]" "cell_all (Child t) = entries t"
  by (simp_all add: cell_all_def)

lemma set_entries_Branch: "set (entries (Branch cs)) = (\<Union>c \<in> set cs. set (cell_all c))"
  by (induction cs) (auto simp: cell_all_def split: option.splits)

lemma count_Branch: "count (Branch cs) = (\<Sum>c \<leftarrow> cs. length (cell_all c))"
  by (induction cs) (auto simp: count_def cell_all_def split: option.splits)

declare entries.simps(2) [simp del]

lemma count_Collision [simp]: "count (Collision es) = length es"
  by (simp add: count_def)

lemma length_cell_all [simp]: "length (entries t) = count t"
  by (simp add: count_def)

lemma sum_list_update_nat:
  fixes f :: "'c \<Rightarrow> nat"
  assumes "s < length cs"
  shows "(\<Sum>c \<leftarrow> cs[s := c']. f c) + f (cs ! s) = (\<Sum>c \<leftarrow> cs. f c) + f c'"
  using assms
proof (induction cs arbitrary: s)
  case Nil
  then show ?case by simp
next
  case (Cons c cs)
  then show ?case by (cases s) auto
qed

lemma count_update:
  "s < length cs \<Longrightarrow>
   count (Branch (cs[s := c'])) + length (cell_all (cs ! s)) = count (Branch cs) + length (cell_all c')"
  unfolding count_Branch by (rule sum_list_update_nat [where f = "\<lambda>c. length (cell_all c)"])

lemma set_entries_update:
  "s < length cs \<Longrightarrow> set (entries (Branch (cs[s := c]))) \<subseteq> set (entries (Branch cs)) \<union> set (cell_all c)"
  unfolding set_entries_Branch using set_update_subset_insert [of cs s c] by auto

section \<open>Operations\<close>

definition cfind :: "('v \<Rightarrow> 'v \<Rightarrow> bool) \<Rightarrow> ('v \<times> 'v) list \<Rightarrow> 'v \<Rightarrow> 'v option" where
  "cfind eq es k = map_option snd (find (\<lambda>e. eq (fst e) k) es)"

function t_get :: "('v \<Rightarrow> 'v \<Rightarrow> bool) \<Rightarrow> 'v trie \<Rightarrow> 'v \<Rightarrow> u64 \<Rightarrow> nat \<Rightarrow> 'v option" where
  "t_get eq (Collision es) k h d = cfind eq es k"
| "t_get eq (Branch cs) k h d =
     (if d < MAXD then
        (case cs ! slot h d of
           Empty \<Rightarrow> None
         | Entry k' v \<Rightarrow> if eq k' k then Some v else None
         | Child t \<Rightarrow> t_get eq t k h (Suc d))
      else None)"
  by pat_completeness auto
termination by (relation "measure (\<lambda>(eq, t, k, h, d). MAXD - d)") auto

function t_split :: "'v \<times> 'v \<Rightarrow> u64 \<Rightarrow> 'v \<times> 'v \<Rightarrow> u64 \<Rightarrow> nat \<Rightarrow> 'v trie" where
  "t_split e1 h1 e2 h2 d =
     (if d < MAXD then
        (if slot h1 d = slot h2 d
         then Branch ((replicate 16 Empty)[slot h1 d := Child (t_split e1 h1 e2 h2 (Suc d))])
         else Branch ((replicate 16 Empty)[slot h1 d := Entry (fst e1) (snd e1),
                                           slot h2 d := Entry (fst e2) (snd e2)]))
      else Collision [e1, e2])"
  by pat_completeness auto
termination by (relation "measure (\<lambda>(e1, h1, e2, h2, d). MAXD - d)") auto

declare t_split.simps [simp del]

definition c_put :: "('v \<Rightarrow> 'v \<Rightarrow> bool) \<Rightarrow> ('v \<times> 'v) list \<Rightarrow> 'v \<Rightarrow> 'v \<Rightarrow> ('v \<times> 'v) list" where
  "c_put eq es k v =
     (case position (\<lambda>e. eq (fst e) k) es of
        Some i \<Rightarrow> es[i := (fst (es ! i), v)]
      | None \<Rightarrow> es @ [(k, v)])"

function t_assoc :: "('v \<Rightarrow> 'v \<Rightarrow> bool) \<Rightarrow> ('v \<Rightarrow> u64) \<Rightarrow> 'v trie \<Rightarrow> 'v \<Rightarrow> 'v \<Rightarrow> u64 \<Rightarrow> nat \<Rightarrow> 'v trie" where
  "t_assoc eq hv (Collision es) k v h d = Collision (c_put eq es k v)"
| "t_assoc eq hv (Branch cs) k v h d =
     (if d < MAXD then
        (case cs ! slot h d of
           Empty \<Rightarrow> Branch (cs[slot h d := Entry k v])
         | Entry k' v' \<Rightarrow>
             if eq k' k then Branch (cs[slot h d := Entry k' v])
             else Branch (cs[slot h d := Child (t_split (k', v') (hv k') (k, v) h (Suc d))])
         | Child t \<Rightarrow> Branch (cs[slot h d := Child (t_assoc eq hv t k v h (Suc d))]))
      else Branch cs)"
  by pat_completeness auto
termination by (relation "measure (\<lambda>(eq, hv, t, k, v, h, d). MAXD - d)") auto

definition c_del :: "('v \<Rightarrow> 'v \<Rightarrow> bool) \<Rightarrow> ('v \<times> 'v) list \<Rightarrow> 'v \<Rightarrow> ('v \<times> 'v) list" where
  "c_del eq es k =
     (case position (\<lambda>e. eq (fst e) k) es of
        Some i \<Rightarrow> take i es @ drop (Suc i) es
      | None \<Rightarrow> es)"

text \<open>What a branch keeps of a child that lost an entry: nothing, its last entry, or the child.\<close>

fun direct :: "'v trie \<Rightarrow> ('v \<times> 'v) list \<times> 'v trie list" where
  "direct (Collision es) = (es, [])"
| "direct (Branch cs) = (pack cell_entry cs, pack cell_child cs)"

definition shrink :: "'v trie \<Rightarrow> 'v cell" where
  "shrink t = (case direct t of ([(k, v)], []) \<Rightarrow> Entry k v | ([], []) \<Rightarrow> Empty | _ \<Rightarrow> Child t)"

function t_dissoc :: "('v \<Rightarrow> 'v \<Rightarrow> bool) \<Rightarrow> 'v trie \<Rightarrow> 'v \<Rightarrow> u64 \<Rightarrow> nat \<Rightarrow> 'v trie" where
  "t_dissoc eq (Collision es) k h d = Collision (c_del eq es k)"
| "t_dissoc eq (Branch cs) k h d =
     (if d < MAXD then
        (case cs ! slot h d of
           Empty \<Rightarrow> Branch cs
         | Entry k' v' \<Rightarrow> if eq k' k then Branch (cs[slot h d := Empty]) else Branch cs
         | Child t \<Rightarrow>
             let t' = t_dissoc eq t k h (Suc d)
             in if count t' = count t then Branch cs else Branch (cs[slot h d := shrink t']))
      else Branch cs)"
  by pat_completeness auto
termination by (relation "measure (\<lambda>(eq, t, k, h, d). MAXD - d)") auto

definition t_empty :: "'v trie" where
  "t_empty = Branch (replicate 16 Empty)"

section \<open>Well-formedness\<close>

text \<open>
  Every entry sits in the slot its hash selects at that depth, a child holds at least two entries,
  a collision leaf is at depth sixteen and its keys are pairwise unequal.
\<close>

definition cdistinct :: "('v \<Rightarrow> 'v \<Rightarrow> bool) \<Rightarrow> ('v \<times> 'v) list \<Rightarrow> bool" where
  "cdistinct eq es \<longleftrightarrow> sorted_wrt (\<lambda>a b. \<not> eq (fst a) (fst b)) es"

function twf :: "('v \<Rightarrow> 'v \<Rightarrow> bool) \<Rightarrow> ('v \<Rightarrow> u64) \<Rightarrow> nat \<Rightarrow> 'v trie \<Rightarrow> bool" where
  "twf eq hv d (Collision es) \<longleftrightarrow> d = MAXD \<and> cdistinct eq es"
| "twf eq hv d (Branch cs) \<longleftrightarrow>
     (if d < MAXD then
        length cs = 16 \<and>
        (\<forall>s < 16. \<forall>(k, v) \<in> set (cell_all (cs ! s)). slot (hv k) d = s) \<and>
        (\<forall>c \<in> set cs. case c of Child t \<Rightarrow> twf eq hv (Suc d) t \<and> 2 \<le> count t | _ \<Rightarrow> True)
      else False)"
  by pat_completeness auto
termination by (relation "measure (\<lambda>(eq, hv, d, t). MAXD - d)") auto

definition cell_ok :: "('v \<Rightarrow> 'v \<Rightarrow> bool) \<Rightarrow> ('v \<Rightarrow> u64) \<Rightarrow> nat \<Rightarrow> nat \<Rightarrow> 'v cell \<Rightarrow> bool" where
  "cell_ok eq hv d s c \<longleftrightarrow>
     (\<forall>(k, v) \<in> set (cell_all c). slot (hv k) d = s) \<and>
     (case c of Child t \<Rightarrow> twf eq hv (Suc d) t \<and> 2 \<le> count t | _ \<Rightarrow> True)"

lemma cell_ok_simps [simp]:
  "cell_ok eq hv d s Empty"
  "cell_ok eq hv d s (Entry k v) \<longleftrightarrow> slot (hv k) d = s"
  "cell_ok eq hv d s (Child t) \<longleftrightarrow>
     twf eq hv (Suc d) t \<and> 2 \<le> count t \<and> (\<forall>(k, v) \<in> set (entries t). slot (hv k) d = s)"
  by (auto simp: cell_ok_def)

lemma twf_Branch:
  "twf eq hv d (Branch cs) \<longleftrightarrow> d < MAXD \<and> length cs = 16 \<and> (\<forall>s < 16. cell_ok eq hv d s (cs ! s))"
proof -
  let ?P = "\<lambda>c. case c of Child t \<Rightarrow> twf eq hv (Suc d) t \<and> 2 \<le> count t | _ \<Rightarrow> True"
  have "length cs = 16 \<Longrightarrow> (\<forall>c \<in> set cs. ?P c) \<longleftrightarrow> (\<forall>s < 16. ?P (cs ! s))"
    by (simp add: all_set_conv_all_nth)
  then show ?thesis
    by (simp add: cell_ok_def) blast
qed

declare twf.simps(2) [simp del]

lemma twf_Branch_update:
  "twf eq hv d (Branch cs) \<Longrightarrow> cell_ok eq hv d s c \<Longrightarrow> twf eq hv d (Branch (cs[s := c]))"
  by (cases "s < 16") (auto simp: twf_Branch nth_list_update list_update_beyond)

lemma twf_t_empty: "twf eq hv 0 t_empty"
  by (simp add: t_empty_def twf_Branch)

definition c_get :: "('v \<Rightarrow> 'v \<Rightarrow> bool) \<Rightarrow> 'v cell \<Rightarrow> 'v \<Rightarrow> u64 \<Rightarrow> nat \<Rightarrow> 'v option" where
  "c_get eq c k h d =
     (case c of
        Empty \<Rightarrow> None
      | Entry k' v \<Rightarrow> if eq k' k then Some v else None
      | Child t \<Rightarrow> t_get eq t k h (Suc d))"

lemma c_get_simps [simp]:
  "c_get eq Empty k h d = None"
  "c_get eq (Entry k' v) k h d = (if eq k' k then Some v else None)"
  "c_get eq (Child t) k h d = t_get eq t k h (Suc d)"
  by (simp_all add: c_get_def)

lemma t_get_Branch: "d < MAXD \<Longrightarrow> t_get eq (Branch cs) k h d = c_get eq (cs ! slot h d) k h d"
  by (simp add: c_get_def)

declare t_get.simps(2) [simp del]

lemma t_get_update:
  "d < MAXD \<Longrightarrow> s < length cs \<Longrightarrow>
   t_get eq (Branch (cs[s := c])) k h d =
     (if slot h d = s then c_get eq c k h d else t_get eq (Branch cs) k h d)"
  by (simp add: t_get_Branch nth_list_update)

lemma t_get_t_empty: "t_get eq t_empty k h 0 = None"
  by (simp add: t_empty_def t_get_Branch)

lemma count_single:
  "s < 16 \<Longrightarrow> count (Branch ((replicate 16 Empty)[s := c])) = length (cell_all c)"
  using count_update [of s "replicate 16 Empty" c] by (simp add: count_Branch)

lemma count_t_split: "count (t_split e1 h1 e2 h2 d) = 2"
proof (induction e1 h1 e2 h2 d rule: t_split.induct)
  case (1 e1 h1 e2 h2 d)
  show ?case
  proof (cases "d < MAXD \<and> slot h1 d \<noteq> slot h2 d")
    case True
    then show ?thesis
      using count_update [of "slot h2 d" "(replicate 16 Empty)[slot h1 d := Entry (fst e1) (snd e1)]"
          "Entry (fst e2) (snd e2)"]
      by (subst t_split.simps) (simp add: count_single)
  next
    case False
    then show ?thesis
      using 1 by (subst t_split.simps) (auto simp: count_single)
  qed
qed

lemma set_entries_single: "s < 16 \<Longrightarrow> set (entries (Branch ((replicate 16 Empty)[s := c]))) = set (cell_all c)"
  unfolding set_entries_Branch by (auto simp: set_conv_nth nth_list_update split: if_splits)

lemma set_entries_t_split: "set (entries (t_split e1 h1 e2 h2 d)) \<subseteq> {e1, e2}"
proof (induction e1 h1 e2 h2 d rule: t_split.induct)
  case (1 e1 h1 e2 h2 d)
  show ?case
  proof (cases "d < MAXD \<and> slot h1 d \<noteq> slot h2 d")
    case True
    then show ?thesis
      using set_entries_update [of "slot h2 d" "(replicate 16 Empty)[slot h1 d := Entry (fst e1) (snd e1)]"
          "Entry (fst e2) (snd e2)"]
      by (subst t_split.simps) (auto simp: set_entries_single)
  next
    case False
    then show ?thesis
      using 1 by (subst t_split.simps) (auto simp: set_entries_single)
  qed
qed

section \<open>Direct contents of a node\<close>

lemma pack_empty_iff: "pack f cs = [] \<longleftrightarrow> (\<forall>c \<in> set cs. f c = None)"
  by (induction cs) (auto split: option.splits)

lemma count_direct:
  "direct t = (es, ts) \<Longrightarrow> count t = length es + (\<Sum>t \<leftarrow> ts. count t)"
proof (cases t)
  case (Branch cs)
  have "(\<Sum>c \<leftarrow> cs. length (cell_all c)) = length (pack cell_entry cs) + (\<Sum>t \<leftarrow> pack cell_child cs. count t)"
  proof (induction cs)
    case Nil
    then show ?case by simp
  next
    case (Cons c cs)
    then show ?case by (cases c) auto
  qed
  with Branch show "direct t = (es, ts) \<Longrightarrow> ?thesis" by (auto simp: count_Branch)
qed auto

lemma set_direct: "direct t = (es, []) \<Longrightarrow> set (entries t) = set es"
proof (cases t)
  case (Branch cs)
  assume "direct t = (es, [])"
  with Branch have "es = pack cell_entry cs" and no: "\<forall>c \<in> set cs. cell_child c = None"
    by (auto simp: pack_empty_iff)
  have "\<forall>c \<in> set cs. cell_child c = None \<Longrightarrow> (\<Union>c \<in> set cs. set (cell_all c)) = set (pack cell_entry cs)" for cs
  proof (induction cs)
    case Nil
    then show ?case by simp
  next
    case (Cons c cs)
    then show ?case by (cases c) auto
  qed
  with no Branch \<open>es = pack cell_entry cs\<close> show ?thesis by (simp add: set_entries_Branch)
qed auto

lemma shrink_cases:
  obtains (entry) k v where "direct t = ([(k, v)], [])" "shrink t = Entry k v"
    | (none) "direct t = ([], [])" "shrink t = Empty"
    | (keep) "shrink t = Child t" "\<And>k v. direct t \<noteq> ([(k, v)], [])" "direct t \<noteq> ([], [])"
proof -
  obtain es ts where dt: "direct t = (es, ts)" by (cases "direct t")
  show thesis
  proof (cases "ts = [] \<and> length es \<le> 1")
    case True
    then consider "es = []" | e where "es = [e]"
      by (cases es) (auto simp: le_Suc_eq)
    then show thesis
      using True dt entry none by cases (auto simp: shrink_def split: prod.splits)
  next
    case False
    then have "shrink t = Child t"
      by (auto simp: shrink_def dt split: list.splits)
    moreover have "\<And>k v. direct t \<noteq> ([(k, v)], [])" "direct t \<noteq> ([], [])"
      using False dt by auto
    ultimately show thesis by (rule keep)
  qed
qed

section \<open>The map laws\<close>

lemma child_in: "length cs = 16 \<Longrightarrow> cs ! slot h d = Child t \<Longrightarrow> Child t \<in> set cs"
  by (metis nth_mem slot_less)

lemma branch_at:
  assumes "twf eq hv d (Branch cs)"
  shows "d < MAXD" "length cs = 16" "cell_ok eq hv d (slot h d) (cs ! slot h d)"
  using assms by (auto simp: twf_Branch)

locale key_equality =
  fixes eq :: "'v \<Rightarrow> 'v \<Rightarrow> bool" and hv :: "'v \<Rightarrow> u64"
  assumes eq_sym: "eq a b \<Longrightarrow> eq b a"
    and eq_trans: "eq a b \<Longrightarrow> eq b c \<Longrightarrow> eq a c"
    and eq_hash: "eq a b \<Longrightarrow> hv a = hv b"
begin

lemma eq_left: "eq a b \<Longrightarrow> eq a c = eq b c"
  using eq_sym eq_trans by blast

lemma eq_right: "eq a b \<Longrightarrow> eq c a = eq c b"
  using eq_sym eq_trans by blast

subsection \<open>Collision leaves\<close>

lemma cfind_Cons: "cfind eq (e # es) k = (if eq (fst e) k then Some (snd e) else cfind eq es k)"
  by (simp add: cfind_def)

lemma cfind_Nil [simp]: "cfind eq [] k = None"
  by (simp add: cfind_def)

lemma cfind_append: "cfind eq (xs @ ys) k = (case cfind eq xs k of None \<Rightarrow> cfind eq ys k | Some v \<Rightarrow> Some v)"
  by (induction xs) (auto simp: cfind_Cons)

lemma cfind_None: "cfind eq es k = None \<longleftrightarrow> (\<forall>e \<in> set es. \<not> eq (fst e) k)"
  by (induction es) (auto simp: cfind_Cons)

lemma cfind_Some: "cfind eq es k = Some v \<Longrightarrow> \<exists>k'. (k', v) \<in> set es \<and> eq k' k"
proof (induction es)
  case Nil
  then show ?case by simp
next
  case (Cons e es)
  then show ?case by (cases e) (auto simp: cfind_Cons split: if_splits)
qed

lemma c_put_Nil [simp]: "c_put eq [] k v = [(k, v)]"
  by (simp add: c_put_def)

lemma c_put_Cons:
  "c_put eq (e # es) k v = (if eq (fst e) k then (fst e, v) # es else e # c_put eq es k v)"
  by (auto simp: c_put_def split: option.splits)

lemma cfind_c_put: "cfind eq (c_put eq es k v) k' = (if eq k k' then Some v else cfind eq es k')"
proof (induction es)
  case Nil
  then show ?case by (simp add: cfind_Cons)
next
  case (Cons e es)
  then show ?case
    using eq_left [of "fst e" k k'] eq_right [of k k' "fst e"] by (auto simp: c_put_Cons cfind_Cons)
qed

lemma keys_c_put: "fst ` set (c_put eq es k v) \<subseteq> insert k (fst ` set es)"
  by (induction es) (auto simp: c_put_Cons)

lemma cdistinct_c_put: "cdistinct eq es \<Longrightarrow> cdistinct eq (c_put eq es k v)"
proof (induction es)
  case Nil
  then show ?case by (simp add: cdistinct_def)
next
  case (Cons e es)
  have "\<not> eq (fst e) (fst x)" if "x \<in> set (c_put eq es k v)" "\<not> eq (fst e) k" for x
    using that keys_c_put [of es k v] Cons.prems by (force simp: cdistinct_def)
  with Cons show ?case
    by (auto simp: c_put_Cons cdistinct_def)
qed

lemma length_c_put: "length (c_put eq es k v) = length es + (if cfind eq es k = None then 1 else 0)"
  by (induction es) (auto simp: c_put_Cons cfind_Cons)

lemma c_del_Cons: "c_del eq (e # es) k = (if eq (fst e) k then es else e # c_del eq es k)"
  by (auto simp: c_del_def split: option.splits)

lemma c_del_Nil [simp]: "c_del eq [] k = []"
  by (simp add: c_del_def)

lemma set_c_del: "set (c_del eq es k) \<subseteq> set es"
  by (induction es) (auto simp: c_del_Cons)

lemma cdistinct_c_del: "cdistinct eq es \<Longrightarrow> cdistinct eq (c_del eq es k)"
  using set_c_del by (induction es) (fastforce simp: c_del_Cons cdistinct_def)+

lemma cfind_c_del:
  "cdistinct eq es \<Longrightarrow> cfind eq (c_del eq es k) k' = (if eq k k' then None else cfind eq es k')"
proof (induction es)
  case Nil
  then show ?case by simp
next
  case (Cons e es)
  then have IH: "cfind eq (c_del eq es k) k' = (if eq k k' then None else cfind eq es k')"
    and new: "\<forall>x \<in> set es. \<not> eq (fst e) (fst x)"
    by (auto simp: cdistinct_def)
  show ?case
  proof (cases "eq (fst e) k")
    case True
    then have "eq k k' \<Longrightarrow> cfind eq es k' = None"
      using new eq_sym eq_trans unfolding cfind_None by blast
    with True show ?thesis
      by (auto simp: c_del_Cons cfind_Cons dest: eq_left)
  next
    case False
    with IH show ?thesis
      by (auto simp: c_del_Cons cfind_Cons dest: eq_right)
  qed
qed

lemma length_c_del: "length (c_del eq es k) + (if cfind eq es k = None then 0 else 1) = length es"
  by (induction es) (auto simp: c_del_Cons cfind_Cons)

subsection \<open>Splitting a slot\<close>

lemma t_get_blank: "d < MAXD \<Longrightarrow> t_get eq (Branch (replicate 16 Empty)) k h d = None"
  by (simp add: t_get_Branch)

lemma t_get_single:
  "d < MAXD \<Longrightarrow> s < 16 \<Longrightarrow>
   t_get eq (Branch ((replicate 16 Empty)[s := c])) k h d = (if slot h d = s then c_get eq c k h d else None)"
  by (simp add: t_get_update) (simp add: t_get_Branch)

lemma t_get_t_split:
  assumes "\<not> eq k1 k2"
  shows "t_get eq (t_split (k1, v1) (hv k1) (k2, v2) (hv k2) d) k (hv k) d =
    (if eq k1 k then Some v1 else if eq k2 k then Some v2 else None)"
proof (induction "(k1, v1)" "hv k1" "(k2, v2)" "hv k2" d rule: t_split.induct)
  case (1 d)
  show ?case
  proof (cases "d < MAXD")
    case True
    have h: "eq k1 k \<Longrightarrow> slot (hv k) d = slot (hv k1) d" "eq k2 k \<Longrightarrow> slot (hv k) d = slot (hv k2) d"
      by (auto dest: eq_hash)
    have x: "\<not> (eq k1 k \<and> eq k2 k)"
      using assms eq_sym eq_trans by blast
    show ?thesis
    proof (cases "slot (hv k1) d = slot (hv k2) d")
      case same: True
      have IH: "t_get eq (t_split (k1, v1) (hv k1) (k2, v2) (hv k2) (Suc d)) k (hv k) (Suc d) =
          (if eq k1 k then Some v1 else if eq k2 k then Some v2 else None)"
        using 1 True same by simp
      show ?thesis
        using True same h IH by (subst t_split.simps) (simp add: t_get_single)
    next
      case False
      with True h x show ?thesis
        by (subst t_split.simps) (simp add: t_get_update t_get_blank)
    qed
  next
    case False
    then show ?thesis
      by (subst t_split.simps) (simp add: cfind_Cons)
  qed
qed

lemma twf_t_split:
  assumes "\<not> eq k1 k2" "d \<le> MAXD"
  shows "twf eq hv d (t_split (k1, v1) (hv k1) (k2, v2) (hv k2) d)"
  using assms(2)
proof (induction "(k1, v1)" "hv k1" "(k2, v2)" "hv k2" d rule: t_split.induct)
  case (1 d)
  show ?case
  proof (cases "d < MAXD")
    case True
    have e: "twf eq hv d (Branch (replicate 16 Empty))"
      using True by (simp add: twf_Branch)
    show ?thesis
    proof (cases "slot (hv k1) d = slot (hv k2) d")
      case same: True
      have "cell_ok eq hv d (slot (hv k1) d)
        (Child (t_split (k1, v1) (hv k1) (k2, v2) (hv k2) (Suc d)))"
        using 1 True same set_entries_t_split [of "(k1, v1)" "hv k1" "(k2, v2)" "hv k2" "Suc d"]
        by (auto simp: count_t_split)
      with True same show ?thesis
        by (subst t_split.simps) (simp add: twf_Branch_update [OF e])
    next
      case False
      with True show ?thesis
        by (subst t_split.simps) (simp add: twf_Branch_update e)
    qed
  next
    case False
    with 1 assms(1) show ?thesis
      by (subst t_split.simps) (simp add: cdistinct_def)
  qed
qed

subsection \<open>Association\<close>

lemma t_get_t_assoc:
  assumes "twf eq hv d t"
  shows "t_get eq (t_assoc eq hv t k v (hv k) d) k' (hv k') d =
    (if eq k k' then Some v else t_get eq t k' (hv k') d)"
  using assms
proof (induction t arbitrary: d rule: trie_induct)
  case (Collision es)
  then show ?case by (simp add: cfind_c_put)
next
  case (Branch cs)
  then have d: "d < MAXD" and len: "length cs = 16"
    and ok: "cell_ok eq hv d (slot (hv k) d) (cs ! slot (hv k) d)"
    by (auto simp: twf_Branch)
  have h: "eq k k' \<Longrightarrow> slot (hv k') d = slot (hv k) d"
    using eq_hash by simp
  show ?case
  proof (cases "cs ! slot (hv k) d")
    case Empty
    with d len h show ?thesis by (auto simp: t_get_Branch nth_list_update)
  next
    case (Entry k1 v1)
    show ?thesis
    proof (cases "eq k1 k")
      case True
      then have "eq k1 k' = eq k k'" by (rule eq_left)
      with True Entry d len h show ?thesis by (auto simp: t_get_Branch nth_list_update)
    next
      case False
      then have "\<not> (eq k1 k' \<and> eq k k')" using eq_sym eq_trans by blast
      with False Entry d len h show ?thesis
        by (auto simp: t_get_Branch nth_list_update t_get_t_split)
    qed
  next
    case (Child t)
    with len have "Child t \<in> set cs" by (metis nth_mem slot_less)
    with Child d len h ok Branch.IH [of t "Suc d"] show ?thesis
      by (auto simp: t_get_Branch nth_list_update)
  qed
qed

lemma cell_subset: "length cs = 16 \<Longrightarrow> set (cell_all (cs ! slot h d)) \<subseteq> set (entries (Branch cs))"
proof -
  assume "length cs = 16"
  then have "cs ! slot h d \<in> set cs" by simp
  then show ?thesis unfolding set_entries_Branch by (rule UN_upper)
qed

lemma keys_t_assoc:
  assumes "twf eq hv d t"
  shows "fst ` set (entries (t_assoc eq hv t k v (hv k) d)) \<subseteq> insert k (fst ` set (entries t))"
  using assms
proof (induction t arbitrary: d rule: trie_induct)
  case (Collision es)
  then show ?case by (simp add: keys_c_put)
next
  case (Branch cs)
  note at = branch_at(1,2) [OF Branch.prems] branch_at(3) [OF Branch.prems, of "hv k"]
  let ?s = "slot (hv k) d"
  have upd: "fst ` set (entries (Branch (cs[?s := c]))) \<subseteq> fst ` set (entries (Branch cs)) \<union> fst ` set (cell_all c)" for c
    using set_entries_update [of ?s cs c] at(2) by fastforce
  have cell: "set (cell_all (cs ! ?s)) \<subseteq> set (entries (Branch cs))"
    using at(2) by (simp add: cell_subset)
  show ?case
  proof (cases "cs ! ?s")
    case Empty
    with at upd [of "Entry k v"] show ?thesis by auto
  next
    case (Entry k1 v1)
    with cell have k1: "k1 \<in> fst ` set (entries (Branch cs))" by force
    show ?thesis
    proof (cases "eq k1 k")
      case True
      with Entry at k1 upd [of "Entry k1 v"] show ?thesis by auto
    next
      case False
      have "fst ` set (entries (t_split (k1, v1) (hv k1) (k, v) (hv k) (Suc d))) \<subseteq> {k1, k}"
        using set_entries_t_split [of "(k1, v1)" "hv k1" "(k, v)" "hv k" "Suc d"] by auto
      with False Entry at k1 upd [of "Child (t_split (k1, v1) (hv k1) (k, v) (hv k) (Suc d))"]
      show ?thesis by auto
    qed
  next
    case (Child t)
    let ?t = "t_assoc eq hv t k v (hv k) (Suc d)"
    have "fst ` set (entries (Branch (cs[?s := Child ?t]))) \<subseteq>
        fst ` set (entries (Branch cs)) \<union> fst ` set (entries ?t)"
      using upd [of "Child ?t"] by simp
    moreover have "fst ` set (entries ?t) \<subseteq> insert k (fst ` set (entries t))"
      using Branch.IH [OF child_in [OF at(2) Child], of "Suc d"] at(3) Child by simp
    moreover have "fst ` set (entries t) \<subseteq> fst ` set (entries (Branch cs))"
      using cell Child by (intro image_mono) simp
    ultimately have "fst ` set (entries (Branch (cs[?s := Child ?t]))) \<subseteq>
        insert k (fst ` set (entries (Branch cs)))"
      by (rule subset_replace)
    with Child at(1) show ?thesis by simp
  qed
qed

lemma count_t_assoc:
  assumes "twf eq hv d t"
  shows "count (t_assoc eq hv t k v (hv k) d) =
    count t + (if t_get eq t k (hv k) d = None then 1 else 0)"
  using assms
proof (induction t arbitrary: d rule: trie_induct)
  case (Collision es)
  then show ?case by (simp add: length_c_put)
next
  case (Branch cs)
  note at = branch_at(1,2) [OF Branch.prems] branch_at(3) [OF Branch.prems, of "hv k"]
  let ?s = "slot (hv k) d"
  have upd: "count (Branch (cs[?s := c])) + length (cell_all (cs ! ?s)) =
      count (Branch cs) + length (cell_all c)" for c
    using at(2) by (simp add: count_update)
  show ?case
  proof (cases "cs ! ?s")
    case Empty
    with at upd [of "Entry k v"] show ?thesis by (simp add: t_get_Branch)
  next
    case (Entry k1 v1)
    with at upd [of "Entry k1 v"] upd [of "Child (t_split (k1, v1) (hv k1) (k, v) (hv k) (Suc d))"]
    show ?thesis by (simp add: t_get_Branch count_t_split)
  next
    case (Child t)
    with at Branch.IH [OF child_in [OF at(2) Child], of "Suc d"]
      upd [of "Child (t_assoc eq hv t k v (hv k) (Suc d))"]
    show ?thesis by (simp add: t_get_Branch)
  qed
qed

lemma twf_t_assoc:
  assumes "twf eq hv d t"
  shows "twf eq hv d (t_assoc eq hv t k v (hv k) d)"
  using assms
proof (induction t arbitrary: d rule: trie_induct)
  case (Collision es)
  then show ?case by (simp add: cdistinct_c_put)
next
  case (Branch cs)
  note at = branch_at(1,2) [OF Branch.prems] branch_at(3) [OF Branch.prems, of "hv k"]
  note upd = twf_Branch_update [OF Branch.prems, of "slot (hv k) d"]
  show ?case
  proof (cases "cs ! slot (hv k) d")
    case Empty
    with at show ?thesis by (simp add: upd)
  next
    case (Entry k1 v1)
    have "\<not> eq k1 k \<Longrightarrow> cell_ok eq hv d (slot (hv k) d)
        (Child (t_split (k1, v1) (hv k1) (k, v) (hv k) (Suc d)))"
      using Entry at set_entries_t_split [of "(k1, v1)" "hv k1" "(k, v)" "hv k" "Suc d"]
      by (auto simp: twf_t_split count_t_split)
    with Entry at show ?thesis by (simp add: upd)
  next
    case (Child t)
    have wf: "twf eq hv (Suc d) t" and two: "2 \<le> count t"
      and slots: "\<forall>k1 \<in> fst ` set (entries t). slot (hv k1) d = slot (hv k) d"
      using at(3) Child by auto
    have "cell_ok eq hv d (slot (hv k) d) (Child (t_assoc eq hv t k v (hv k) (Suc d)))"
      using wf two slots keys_t_assoc [OF wf, of k v] Branch.IH [OF child_in [OF at(2) Child] wf]
      by (force simp: count_t_assoc)
    with Child at show ?thesis by (simp add: upd)
  qed
qed

subsection \<open>Removal\<close>

text \<open>A trie that lists every entry a lookup can find.\<close>

lemma t_get_in_entries:
  assumes "twf eq hv d t" "t_get eq t k h d = Some v"
  shows "\<exists>k'. (k', v) \<in> set (entries t) \<and> eq k' k"
  using assms
proof (induction t arbitrary: d rule: trie_induct)
  case (Collision es)
  then show ?case by (simp add: cfind_Some)
next
  case (Branch cs)
  note at = branch_at(1,2) [OF Branch.prems(1)] branch_at(3) [OF Branch.prems(1), of h]
  note sub = cell_subset [OF at(2), of h d]
  from Branch.prems(2) at(1) have get: "c_get eq (cs ! slot h d) k h d = Some v"
    by (simp add: t_get_Branch)
  show ?case
  proof (cases "cs ! slot h d")
    case Empty
    with get show ?thesis by simp
  next
    case (Entry k1 v1)
    with get sub show ?thesis by (auto split: if_splits)
  next
    case (Child t)
    with get at Branch.IH [OF child_in [OF at(2) Child], of "Suc d"]
    obtain k' where "(k', v) \<in> set (entries t)" "eq k' k" by auto
    with Child sub show ?thesis by auto
  qed
qed

lemma t_get_singleton:
  assumes "twf eq hv d t" "direct t = ([(k1, v1)], [])"
  shows "t_get eq t k (hv k) d = (if eq k1 k then Some v1 else None)"
proof (cases t)
  case (Collision es)
  with assms show ?thesis by (simp add: cfind_Cons)
next
  case (Branch cs)
  note at = branch_at(1,2) [OF assms(1) [unfolded Branch]]
  have "(k1, v1) \<in> set (pack cell_entry cs)" using assms(2) Branch by simp
  then obtain s where s: "s < 16" "cs ! s = Entry k1 v1"
  proof -
    have "(k1, v1) \<in> set (pack cell_entry cs) \<Longrightarrow> \<exists>c \<in> set cs. c = Entry k1 v1"
    proof (induction cs)
      case Nil
      then show ?case by simp
    next
      case (Cons c cs)
      then show ?case by (cases c) auto
    qed
    with \<open>(k1, v1) \<in> _\<close> at(2) that show thesis by (metis in_set_conv_nth)
  qed
  have slot1: "slot (hv k1) d = s"
    using assms(1) s by (force simp: Branch twf_Branch)
  have hash: "eq k1 k \<Longrightarrow> slot (hv k) d = s"
    using slot1 eq_hash by auto
  have "t_get eq t k (hv k) d = None" if "\<not> eq k1 k"
  proof (rule ccontr)
    assume "t_get eq t k (hv k) d \<noteq> None"
    then obtain v where "t_get eq t k (hv k) d = Some v" by auto
    from t_get_in_entries [OF assms(1) this] set_direct [OF assms(2)] that show False by auto
  qed
  with at s hash show ?thesis by (auto simp: Branch t_get_Branch)
qed

lemma two_le_count:
  assumes "twf eq hv d t" "\<And>k v. direct t \<noteq> ([(k, v)], [])" "direct t \<noteq> ([], [])"
  shows "2 \<le> count t"
proof -
  obtain es ts where dt: "direct t = (es, ts)" by (cases "direct t")
  have two: "2 \<le> count t'" if "t' \<in> set ts" for t'
  proof (cases t)
    case (Branch cs)
    have "t' \<in> set (pack cell_child cs) \<Longrightarrow> Child t' \<in> set cs"
    proof (induction cs)
      case Nil
      then show ?case by simp
    next
      case (Cons c cs)
      then show ?case by (cases c) auto
    qed
    with that dt Branch assms(1) show ?thesis
      by (fastforce simp: twf_Branch in_set_conv_nth)
  qed (use that dt in auto)
  show ?thesis
  proof (cases ts)
    case Nil
    with assms(2,3) dt have "2 \<le> length es"
      by (cases es; cases "tl es") auto
    with count_direct [OF dt] show ?thesis by simp
  next
    case (Cons t' ts')
    with two [of t'] count_direct [OF dt] show ?thesis by simp
  qed
qed

definition removed :: "'v \<Rightarrow> nat \<Rightarrow> 'v trie \<Rightarrow> 'v trie \<Rightarrow> bool" where
  "removed k d t t' \<longleftrightarrow>
     twf eq hv d t' \<and> set (entries t') \<subseteq> set (entries t) \<and>
     count t' + (if t_get eq t k (hv k) d = None then 0 else 1) = count t \<and>
     (\<forall>k'. t_get eq t' k' (hv k') d = (if eq k k' then None else t_get eq t k' (hv k') d))"

lemma t_get_cong:
  assumes "eq k k'" "twf eq hv d t"
  shows "t_get eq t k (hv k) d = t_get eq t k' (hv k') d"
  using assms(2)
proof (induction t arbitrary: d rule: trie_induct)
  case (Collision es)
  show ?case using eq_right [OF assms(1)] by (simp add: cfind_def)
next
  case (Branch cs)
  note at = branch_at(1,2) [OF Branch.prems] branch_at(3) [OF Branch.prems, of "hv k"]
  have h: "hv k' = hv k" using eq_hash [OF assms(1)] by simp
  show ?case
  proof (cases "cs ! slot (hv k) d")
    case (Child t)
    with at h Branch.IH [OF child_in [OF at(2) Child], of "Suc d"] show ?thesis
      by (simp add: t_get_Branch)
  qed (use at h eq_right [OF assms(1)] in \<open>simp_all add: t_get_Branch\<close>)
qed

lemma removed_absent:
  assumes "twf eq hv d t" "t_get eq t k (hv k) d = None"
  shows "removed k d t t"
  using assms t_get_cong [OF _ assms(1), of k] by (auto simp: removed_def)

lemma removed_update:
  assumes wf: "twf eq hv d (Branch cs)"
    and ok: "cell_ok eq hv d (slot (hv k) d) c"
    and sub: "set (cell_all c) \<subseteq> set (cell_all (cs ! slot (hv k) d))"
    and len: "Suc (length (cell_all c)) = length (cell_all (cs ! slot (hv k) d))"
    and get: "\<And>k'. c_get eq c k' (hv k') d =
        (if eq k k' then None else c_get eq (cs ! slot (hv k) d) k' (hv k') d)"
    and found: "t_get eq (Branch cs) k (hv k) d \<noteq> None"
  shows "removed k d (Branch cs) (Branch (cs[slot (hv k) d := c]))"
proof -
  note at = branch_at(1,2) [OF wf]
  let ?s = "slot (hv k) d"
  have "set (entries (Branch (cs[?s := c]))) \<subseteq> set (entries (Branch cs))"
    using set_entries_update [of ?s cs c] cell_subset [OF at(2), of "hv k" d] sub at(2) by auto
  moreover have "Suc (count (Branch (cs[?s := c]))) = count (Branch cs)"
    using count_update [of ?s cs c] at(2) len by simp
  moreover have "t_get eq (Branch (cs[?s := c])) k' (hv k') d =
      (if eq k k' then None else t_get eq (Branch cs) k' (hv k') d)" for k'
    using get at eq_hash [of k k'] by (auto simp: t_get_Branch nth_list_update)
  ultimately show ?thesis
    using twf_Branch_update [OF wf ok] found by (simp add: removed_def)
qed

lemma shrink_removed:
  assumes "removed k (Suc d) t t'" "count t' < count t" "\<forall>(k1, v1) \<in> set (entries t). slot (hv k1) d = s"
  shows "cell_ok eq hv d s (shrink t')"
    and "set (cell_all (shrink t')) \<subseteq> set (entries t)"
    and "Suc (length (cell_all (shrink t'))) = count t"
    and "c_get eq (shrink t') k' (hv k') d = (if eq k k' then None else t_get eq t k' (hv k') (Suc d))"
proof -
  have r: "twf eq hv (Suc d) t'" "set (entries t') \<subseteq> set (entries t)" "Suc (count t') = count t"
    "t_get eq t' k' (hv k') (Suc d) = (if eq k k' then None else t_get eq t k' (hv k') (Suc d))"
    using assms(1,2) by (auto simp: removed_def split: if_splits)
  have "cell_ok eq hv d s (shrink t') \<and> set (cell_all (shrink t')) \<subseteq> set (entries t') \<and>
    length (cell_all (shrink t')) = count t' \<and>
    c_get eq (shrink t') k' (hv k') d = t_get eq t' k' (hv k') (Suc d)"
  proof (cases rule: shrink_cases [of t'])
    case (entry k1 v1)
    with r assms(3) show ?thesis
      using set_direct [OF entry(1)] count_direct [OF entry(1)] t_get_singleton [OF r(1) entry(1)]
      by auto
  next
    case none
    have "t_get eq t' k' (hv k') (Suc d) = None"
      using t_get_in_entries [OF r(1)] set_direct [OF none(1)] by fastforce
    with none show ?thesis
      using count_direct [OF none(1)] by simp
  next
    case keep
    with r assms(3) two_le_count [OF r(1)] show ?thesis by auto
  qed
  with r show "cell_ok eq hv d s (shrink t')" "set (cell_all (shrink t')) \<subseteq> set (entries t)"
    "Suc (length (cell_all (shrink t'))) = count t"
    "c_get eq (shrink t') k' (hv k') d = (if eq k k' then None else t_get eq t k' (hv k') (Suc d))"
    by auto
qed

lemma t_dissoc_removed:
  assumes "twf eq hv d t"
  shows "removed k d t (t_dissoc eq t k (hv k) d)"
  using assms
proof (induction t arbitrary: d rule: trie_induct)
  case (Collision es)
  then show ?case
    by (simp add: removed_def cdistinct_c_del set_c_del length_c_del cfind_c_del)
next
  case (Branch cs)
  note at = branch_at(1,2) [OF Branch.prems] branch_at(3) [OF Branch.prems, of "hv k"]
  note absent = removed_absent [OF Branch.prems, of k]
  show ?case
  proof (cases "cs ! slot (hv k) d")
    case Empty
    with at absent show ?thesis by (simp add: t_get_Branch)
  next
    case (Entry k1 v1)
    show ?thesis
    proof (cases "eq k1 k")
      case True
      with Entry at eq_left [OF True] show ?thesis
        by (simp add: removed_update [OF Branch.prems] t_get_Branch)
    next
      case False
      with Entry at absent show ?thesis by (simp add: t_get_Branch)
    qed
  next
    case (Child t)
    have wf: "twf eq hv (Suc d) t" and slots: "\<forall>(k1, v1) \<in> set (entries t). slot (hv k1) d = slot (hv k) d"
      using at(3) Child by auto
    have IH: "removed k (Suc d) t (t_dissoc eq t k (hv k) (Suc d))"
      by (rule Branch.IH [OF child_in [OF at(2) Child] wf])
    show ?thesis
    proof (cases "count (t_dissoc eq t k (hv k) (Suc d)) = count t")
      case True
      with IH Child at absent show ?thesis
        by (simp add: t_get_Branch removed_def split: if_splits)
    next
      case False
      then have lt: "count (t_dissoc eq t k (hv k) (Suc d)) < count t"
        and found: "t_get eq (Branch cs) k (hv k) d \<noteq> None"
        using IH Child at by (auto simp: removed_def t_get_Branch split: if_splits)
      with False Child at found shrink_removed [OF IH lt slots] show ?thesis
        by (simp add: removed_update [OF Branch.prems] Let_def)
    qed
  qed
qed

end

end
