(* ===== verification/Champ_Heap.thy ===== *)
theory Champ_Heap
  imports Handles Champ_Trie
begin

text \<open>
  The CHAMP map as the Rust code has it: \<open>MapNode\<close>s in the heap's slabs, addressed by handles
  (\<open>core/map_champ.rs\<close>, \<open>core/heap/map_ops.rs\<close>). The operations pass the heap explicitly and return
  \<open>None\<close> where the source panics: an index out of bounds, a stale handle (the epoch tripwire of debug
  builds), a slab past 32-bit indices, a hash slice past the last level. A node's \<open>size\<close> is a wrapping
  \<open>u32\<close>.

  \<open>eq\<close> and \<open>hv\<close> stand for \<open>Heap::equal\<close> and \<open>Heap::hash_value\<close>. The recursive operations descend one
  level per call, and \<open>slot_at\<close> panics past the last level, which is why they terminate.
\<close>

section \<open>Nodes and slots\<close>

record 'v MapNode =
  nsize :: u32
  data_map :: u16
  node_map :: u16
  is_collision :: bool
  data :: "('v \<times> 'v) list"
  children :: "handle list"

definition default_node :: "'v MapNode" where
  "default_node = \<lparr>nsize = 0, data_map = 0, node_map = 0, is_collision = False, data = [], children = []\<rparr>"

definition is_singleton :: "'v MapNode \<Rightarrow> bool" where
  "is_singleton n \<longleftrightarrow> length (data n) = 1 \<and> children n = []"

definition is_empty :: "'v MapNode \<Rightarrow> bool" where
  "is_empty n \<longleftrightarrow> data n = [] \<and> children n = []"

definition BITS_PER_LEVEL :: nat where "BITS_PER_LEVEL = 4"
definition MAX_DEPTH :: nat where "MAX_DEPTH = 64 div BITS_PER_LEVEL"

definition slot_at :: "u64 \<Rightarrow> nat \<Rightarrow> nat option" where
  "slot_at h depth =
     (if depth < MAX_DEPTH then Some (unat (drop_bit (depth * BITS_PER_LEVEL) h AND 15)) else None)"

definition slot_mask :: "nat \<Rightarrow> u16" where
  "slot_mask s = push_bit s 1"

definition rank :: "u16 \<Rightarrow> nat \<Rightarrow> nat" where
  "rank bitmap s = count_ones (bitmap AND (slot_mask s - 1))"

section \<open>The heap's map slabs\<close>

record 'v heap =
  local_maps :: "'v MapNode list"
  old_maps :: "'v MapNode list"
  prelude_maps :: "'v MapNode list"
  runtime_maps :: "nat \<Rightarrow> 'v MapNode list"
  local_epoch :: u32
  old_epoch :: u32

definition epoch_in_gen_width :: "u32 \<Rightarrow> u32" where
  "epoch_in_gen_width e = e AND ucast GEN_MASK"

definition check_epoch_aged :: "'v heap \<Rightarrow> bool \<Rightarrow> u32 \<Rightarrow> bool" where
  "check_epoch_aged h old g \<longleftrightarrow> g = epoch_in_gen_width (if old then old_epoch h else local_epoch h)"

definition map_node :: "'v heap \<Rightarrow> handle \<Rightarrow> 'v MapNode option" where
  "map_node h mid =
     (if region mid = LOCAL \<and> is_old mid
      then if check_epoch_aged h True (generation mid) then vec_get (old_maps h) (index mid) else None
      else if region mid = LOCAL
      then if check_epoch_aged h False (generation mid) then vec_get (local_maps h) (index mid) else None
      else if region mid = PRELUDE then vec_get (prelude_maps h) (index mid)
      else if region mid = RUNTIME then vec_get (runtime_maps h (code_gen mid)) (index mid)
      else None)"

definition alloc_map_node :: "'v heap \<Rightarrow> 'v MapNode \<Rightarrow> ('v heap \<times> handle) option" where
  "alloc_map_node h n = do {
     mid \<leftarrow> local_gen (length (local_maps h)) (local_epoch h);
     Some (h\<lparr>local_maps := local_maps h @ [n]\<rparr>, mid) }"

definition alloc_empty_map :: "'v heap \<Rightarrow> ('v heap \<times> handle) option" where
  "alloc_empty_map h = alloc_map_node h default_node"

definition clone_map_node :: "'v heap \<Rightarrow> handle \<Rightarrow> ('v heap \<times> handle) option" where
  "clone_map_node h mid = do {
     node \<leftarrow> map_node h mid;
     alloc_map_node h \<lparr>nsize = nsize node, data_map = data_map node, node_map = node_map node,
       is_collision = is_collision node, data = data node, children = children node\<rparr> }"

text \<open>\<open>self.local.maps[mid.index()]\<close>, read and written in place.\<close>

definition local_slot :: "'v heap \<Rightarrow> handle \<Rightarrow> 'v MapNode option" where
  "local_slot h mid = vec_get (local_maps h) (index mid)"

definition local_slot_set :: "'v heap \<Rightarrow> handle \<Rightarrow> 'v MapNode \<Rightarrow> 'v heap option" where
  "local_slot_set h mid n = do {
     ms \<leftarrow> vec_set (local_maps h) (index mid) n;
     Some (h\<lparr>local_maps := ms\<rparr>) }"

definition is_owned :: "handle \<Rightarrow> nat option \<Rightarrow> bool" where
  "is_owned mid watermark =
     (case watermark of
        Some w \<Rightarrow> region mid = LOCAL \<and> \<not> is_old mid \<and> w \<le> index mid
      | None \<Rightarrow> False)"

section \<open>Lookup\<close>

lemma slot_at_depth: "slot_at h d = Some s \<Longrightarrow> d < 16"
  by (simp add: slot_at_def MAX_DEPTH_def BITS_PER_LEVEL_def split: if_splits)

function champ_get ::
  "('v \<Rightarrow> 'v \<Rightarrow> bool) \<Rightarrow> 'v heap \<Rightarrow> handle \<Rightarrow> 'v \<Rightarrow> u64 \<Rightarrow> nat \<Rightarrow> 'v option option" where
  "champ_get eq h mid key hash depth = do {
     node \<leftarrow> map_node h mid;
     if is_collision node
     then Some (map_option snd (find (\<lambda>e. eq (fst e) key) (data node)))
     else do {
       slot \<leftarrow> slot_at hash depth;
       let bit = slot_mask slot;
       if data_map node AND bit \<noteq> 0
       then do {
         (k, v) \<leftarrow> vec_get (data node) (rank (data_map node) slot);
         Some (if eq k key then Some v else None) }
       else if node_map node AND bit \<noteq> 0
       then do {
         child \<leftarrow> vec_get (children node) (rank (node_map node) slot);
         champ_get eq h child key hash (depth + 1) }
       else Some None } }"
  by pat_completeness auto
termination
  by (relation "measure (\<lambda>(eq, h, mid, key, hash, depth). 16 - depth)") (auto dest: slot_at_depth)

declare champ_get.simps [simp del]

definition map_get :: "('v \<Rightarrow> 'v \<Rightarrow> bool) \<Rightarrow> ('v \<Rightarrow> u64) \<Rightarrow> 'v heap \<Rightarrow> handle \<Rightarrow> 'v \<Rightarrow> 'v option option" where
  "map_get eq hv h mid key = champ_get eq h mid key (hv key) 0"

section \<open>Association\<close>

function champ_split ::
  "'v heap \<Rightarrow> 'v \<Rightarrow> 'v \<Rightarrow> u64 \<Rightarrow> 'v \<Rightarrow> 'v \<Rightarrow> u64 \<Rightarrow> nat \<Rightarrow> ('v heap \<times> handle) option" where
  "champ_split h k1 v1 h1 k2 v2 h2 depth =
     (if MAX_DEPTH \<le> depth
      then alloc_map_node h \<lparr>nsize = 2, data_map = 0, node_map = 0, is_collision = True,
             data = [(k1, v1), (k2, v2)], children = []\<rparr>
      else do {
        s1 \<leftarrow> slot_at h1 depth;
        s2 \<leftarrow> slot_at h2 depth;
        if s1 = s2
        then do {
          (h', child) \<leftarrow> champ_split h k1 v1 h1 k2 v2 h2 (depth + 1);
          alloc_map_node h' \<lparr>nsize = 2, data_map = 0, node_map = slot_mask s1,
            is_collision = False, data = [], children = [child]\<rparr> }
        else do {
          let (lo_slot, lo_kv, hi_slot, hi_kv) =
            (if s1 < s2 then (s1, (k1, v1), s2, (k2, v2)) else (s2, (k2, v2), s1, (k1, v1)));
          alloc_map_node h \<lparr>nsize = 2, data_map = slot_mask lo_slot OR slot_mask hi_slot,
            node_map = 0, is_collision = False, data = [lo_kv, hi_kv], children = []\<rparr> } })"
  by pat_completeness auto
termination
  by (relation "measure (\<lambda>(h, k1, v1, h1, k2, v2, h2, depth). 16 - depth)") (auto dest: slot_at_depth)

declare champ_split.simps [simp del]

function champ_assoc ::
  "('v \<Rightarrow> 'v \<Rightarrow> bool) \<Rightarrow> ('v \<Rightarrow> u64) \<Rightarrow> 'v heap \<Rightarrow> handle \<Rightarrow> 'v \<Rightarrow> 'v \<Rightarrow> u64 \<Rightarrow> nat \<Rightarrow> nat option
    \<Rightarrow> ('v heap \<times> handle) option" where
  "champ_assoc eq hv h mid key val hash depth watermark = do {
     let owned = is_owned mid watermark;
     node \<leftarrow> map_node h mid;
     if is_collision node
     then (case position (\<lambda>e. eq (fst e) key) (data node) of
         Some i \<Rightarrow> do {
           (k, _) \<leftarrow> vec_get (data node) i;
           new_data \<leftarrow> vec_set (data node) i (k, val);
           if owned
           then do {
             n \<leftarrow> local_slot h mid;
             h' \<leftarrow> local_slot_set h mid (n\<lparr>data := new_data\<rparr>);
             Some (h', mid) }
           else alloc_map_node h \<lparr>nsize = nsize node, data_map = 0, node_map = 0,
             is_collision = True, data = new_data, children = []\<rparr> }
       | None \<Rightarrow>
           if owned
           then do {
             n \<leftarrow> local_slot h mid;
             h' \<leftarrow> local_slot_set h mid (n\<lparr>data := data n @ [(key, val)], nsize := nsize n + 1\<rparr>);
             Some (h', mid) }
           else alloc_map_node h \<lparr>nsize = nsize node + 1, data_map = 0, node_map = 0,
             is_collision = True, data = data node @ [(key, val)], children = []\<rparr>)
     else do {
       slot \<leftarrow> slot_at hash depth;
       let bit = slot_mask slot;
       if data_map node AND bit \<noteq> 0
       then do {
         let i = rank (data_map node) slot;
         (existing_k, existing_v) \<leftarrow> vec_get (data node) i;
         if eq existing_k key
         then do {
           new_data \<leftarrow> vec_set (data node) i (existing_k, val);
           if owned
           then do {
             n \<leftarrow> local_slot h mid;
             h' \<leftarrow> local_slot_set h mid (n\<lparr>data := new_data\<rparr>);
             Some (h', mid) }
           else alloc_map_node h \<lparr>nsize = nsize node, data_map = data_map node,
             node_map = node_map node, is_collision = False, data = new_data,
             children = children node\<rparr> }
         else do {
           (h1, child_id) \<leftarrow>
             champ_split h existing_k existing_v (hv existing_k) key val hash (depth + 1);
           let new_data_map = data_map node XOR bit;
           let new_node_map = node_map node OR bit;
           let child_pos = rank new_node_map slot;
           if owned
           then do {
             n \<leftarrow> local_slot h1 mid;
             new_data \<leftarrow> vec_remove (data n) i;
             new_children \<leftarrow> vec_insert (children n) child_pos child_id;
             h' \<leftarrow> local_slot_set h1 mid (n\<lparr>data := new_data, children := new_children,
               data_map := new_data_map, node_map := new_node_map, nsize := nsize n + 1\<rparr>);
             Some (h', mid) }
           else do {
             node1 \<leftarrow> map_node h1 mid;
             new_data \<leftarrow> vec_remove (data node1) i;
             new_children \<leftarrow> vec_insert (children node1) child_pos child_id;
             alloc_map_node h1 \<lparr>nsize = nsize node1 + 1, data_map = new_data_map,
               node_map = new_node_map, is_collision = False, data = new_data,
               children = new_children\<rparr> } } }
       else if node_map node AND bit \<noteq> 0
       then do {
         let j = rank (node_map node) slot;
         old_child \<leftarrow> vec_get (children node) j;
         old_child_node \<leftarrow> map_node h old_child;
         (h1, new_child) \<leftarrow> champ_assoc eq hv h old_child key val hash (depth + 1) watermark;
         new_child_node \<leftarrow> map_node h1 new_child;
         if owned
         then do {
           n \<leftarrow> local_slot h1 mid;
           new_children \<leftarrow> vec_set (children n) j new_child;
           h' \<leftarrow> local_slot_set h1 mid (n\<lparr>children := new_children,
             nsize := nsize n + nsize new_child_node - nsize old_child_node\<rparr>);
           Some (h', mid) }
         else do {
           node1 \<leftarrow> map_node h1 mid;
           new_children \<leftarrow> vec_set (children node1) j new_child;
           alloc_map_node h1 \<lparr>nsize = nsize node1 + nsize new_child_node - nsize old_child_node,
             data_map = data_map node, node_map = node_map node, is_collision = False,
             data = data node1, children = new_children\<rparr> } }
       else do {
         let new_data_map = data_map node OR bit;
         let new_data_pos = rank new_data_map slot;
         if owned
         then do {
           n \<leftarrow> local_slot h mid;
           new_data \<leftarrow> vec_insert (data n) new_data_pos (key, val);
           h' \<leftarrow> local_slot_set h mid (n\<lparr>data := new_data, data_map := new_data_map,
             nsize := nsize n + 1\<rparr>);
           Some (h', mid) }
         else do {
           new_data \<leftarrow> vec_insert (data node) new_data_pos (key, val);
           alloc_map_node h \<lparr>nsize = nsize node + 1, data_map = new_data_map,
             node_map = node_map node, is_collision = False, data = new_data,
             children = children node\<rparr> } } } }"
  by pat_completeness auto
termination
  by (relation "measure (\<lambda>(eq, hv, h, mid, key, val, hash, depth, watermark). 16 - depth)")
    (auto dest: slot_at_depth)

declare champ_assoc.simps [simp del]

definition map_assoc ::
  "('v \<Rightarrow> 'v \<Rightarrow> bool) \<Rightarrow> ('v \<Rightarrow> u64) \<Rightarrow> 'v heap \<Rightarrow> handle \<Rightarrow> 'v \<Rightarrow> 'v \<Rightarrow> ('v heap \<times> handle) option" where
  "map_assoc eq hv h mid key val = champ_assoc eq hv h mid key val (hv key) 0 None"

section \<open>Removal\<close>

function champ_dissoc ::
  "('v \<Rightarrow> 'v \<Rightarrow> bool) \<Rightarrow> 'v heap \<Rightarrow> handle \<Rightarrow> 'v \<Rightarrow> u64 \<Rightarrow> nat \<Rightarrow> ('v heap \<times> handle) option" where
  "champ_dissoc eq h mid key hash depth = do {
     node \<leftarrow> map_node h mid;
     if is_collision node
     then (case position (\<lambda>e. eq (fst e) key) (data node) of
         None \<Rightarrow> clone_map_node h mid
       | Some i \<Rightarrow> do {
           new_data \<leftarrow> vec_remove (data node) i;
           alloc_map_node h \<lparr>nsize = nsize node - 1, data_map = 0, node_map = 0,
             is_collision = True, data = new_data, children = []\<rparr> })
     else do {
       slot \<leftarrow> slot_at hash depth;
       let bit = slot_mask slot;
       if data_map node AND bit \<noteq> 0
       then do {
         let i = rank (data_map node) slot;
         (k, _) \<leftarrow> vec_get (data node) i;
         if \<not> eq k key then clone_map_node h mid
         else do {
           new_data \<leftarrow> vec_remove (data node) i;
           alloc_map_node h \<lparr>nsize = nsize node - 1, data_map = data_map node XOR bit,
             node_map = node_map node, is_collision = False, data = new_data,
             children = children node\<rparr> } }
       else if node_map node AND bit \<noteq> 0
       then do {
         let j = rank (node_map node) slot;
         old_child \<leftarrow> vec_get (children node) j;
         old_child_node \<leftarrow> map_node h old_child;
         (h1, new_child) \<leftarrow> champ_dissoc eq h old_child key hash (depth + 1);
         new_child_node \<leftarrow> map_node h1 new_child;
         if nsize new_child_node = nsize old_child_node then clone_map_node h1 mid
         else if is_singleton new_child_node
         then do {
           (kk, vv) \<leftarrow> vec_get (data new_child_node) 0;
           node1 \<leftarrow> map_node h1 mid;
           let new_node_map = node_map node XOR bit;
           let new_data_map = data_map node OR bit;
           new_children \<leftarrow> vec_remove (children node1) j;
           new_data \<leftarrow> vec_insert (data node1) (rank new_data_map slot) (kk, vv);
           alloc_map_node h1 \<lparr>nsize = nsize node1 - 1, data_map = new_data_map,
             node_map = new_node_map, is_collision = False, data = new_data,
             children = new_children\<rparr> }
         else if is_empty new_child_node
         then do {
           node1 \<leftarrow> map_node h1 mid;
           let new_node_map = node_map node XOR bit;
           new_children \<leftarrow> vec_remove (children node1) j;
           alloc_map_node h1 \<lparr>nsize = nsize node1 - 1, data_map = data_map node,
             node_map = new_node_map, is_collision = False, data = data node1,
             children = new_children\<rparr> }
         else do {
           node1 \<leftarrow> map_node h1 mid;
           new_children \<leftarrow> vec_set (children node1) j new_child;
           alloc_map_node h1 \<lparr>nsize = nsize node1 - nsize old_child_node + nsize new_child_node,
             data_map = data_map node, node_map = node_map node, is_collision = False,
             data = data node1, children = new_children\<rparr> } }
       else clone_map_node h mid } }"
  by pat_completeness auto
termination
  by (relation "measure (\<lambda>(eq, h, mid, key, hash, depth). 16 - depth)") (auto dest: slot_at_depth)

declare champ_dissoc.simps [simp del]

definition map_dissoc ::
  "('v \<Rightarrow> 'v \<Rightarrow> bool) \<Rightarrow> ('v \<Rightarrow> u64) \<Rightarrow> 'v heap \<Rightarrow> handle \<Rightarrow> 'v \<Rightarrow> ('v heap \<times> handle) option" where
  "map_dissoc eq hv h mid key = champ_dissoc eq h mid key (hv key) 0"

section \<open>Building a map in place\<close>

text \<open>The loop of \<open>map_from_pair_iter\<close> and \<open>map_from_pairs_into\<close>.\<close>

fun assoc_all ::
  "('v \<Rightarrow> 'v \<Rightarrow> bool) \<Rightarrow> ('v \<Rightarrow> u64) \<Rightarrow> 'v heap \<Rightarrow> handle \<Rightarrow> nat option \<Rightarrow> ('v \<times> 'v) list
    \<Rightarrow> ('v heap \<times> handle) option" where
  "assoc_all eq hv h current watermark [] = Some (h, current)"
| "assoc_all eq hv h current watermark ((k, v) # pairs) = do {
     (h', current') \<leftarrow> champ_assoc eq hv h current k v (hv k) 0 watermark;
     assoc_all eq hv h' current' watermark pairs }"

definition map_from_pair_iter ::
  "('v \<Rightarrow> 'v \<Rightarrow> bool) \<Rightarrow> ('v \<Rightarrow> u64) \<Rightarrow> 'v heap \<Rightarrow> ('v \<times> 'v) list \<Rightarrow> ('v heap \<times> handle) option" where
  "map_from_pair_iter eq hv h pairs = do {
     let watermark = Some (length (local_maps h));
     (h', current) \<leftarrow> alloc_empty_map h;
     assoc_all eq hv h' current watermark pairs }"

definition map_from_pairs_into ::
  "('v \<Rightarrow> 'v \<Rightarrow> bool) \<Rightarrow> ('v \<Rightarrow> u64) \<Rightarrow> 'v heap \<Rightarrow> handle \<Rightarrow> ('v \<times> 'v) list \<Rightarrow> ('v heap \<times> handle) option" where
  "map_from_pairs_into eq hv h into pairs =
     assoc_all eq hv h into (Some (length (local_maps h))) pairs"

text \<open>\<open>set_from_elem_iter\<close>: the same build, every element mapped to \<open>true\<close>.\<close>

definition set_from_elem_iter ::
  "('v \<Rightarrow> 'v \<Rightarrow> bool) \<Rightarrow> ('v \<Rightarrow> u64) \<Rightarrow> 'v \<Rightarrow> 'v heap \<Rightarrow> 'v list \<Rightarrow> ('v heap \<times> handle) option" where
  "set_from_elem_iter eq hv true_v h elems = do {
     let watermark = Some (length (local_maps h));
     (h', current) \<leftarrow> alloc_empty_map h;
     assoc_all eq hv h' current watermark (map (\<lambda>e. (e, true_v)) elems) }"

section \<open>Traversal\<close>

text \<open>
  The walks over every entry recurse through child handles with no level to count, so they carry
  fuel; \<open>MAX_DEPTH + 1\<close> levels are enough for any well-formed map (\<open>collect_entries_refines\<close>).
\<close>

fun collect_entries_into ::
  "nat \<Rightarrow> 'v heap \<Rightarrow> handle \<Rightarrow> ('v \<times> 'v) list \<Rightarrow> ('v \<times> 'v) list option"
  and collect_children ::
  "nat \<Rightarrow> 'v heap \<Rightarrow> handle list \<Rightarrow> ('v \<times> 'v) list \<Rightarrow> ('v \<times> 'v) list option" where
  "collect_entries_into 0 h mid out = None"
| "collect_entries_into (Suc fuel) h mid out = do {
     node \<leftarrow> map_node h mid;
     let out' = out @ data node;
     if \<not> is_collision node then collect_children fuel h (children node) out' else Some out' }"
| "collect_children fuel h [] out = Some out"
| "collect_children fuel h (c # cs) out = do {
     out' \<leftarrow> collect_entries_into fuel h c out;
     collect_children fuel h cs out' }"

definition map_entries :: "'v heap \<Rightarrow> handle \<Rightarrow> ('v \<times> 'v) list option" where
  "map_entries h mid = collect_entries_into (MAX_DEPTH + 1) h mid []"

definition set_elems :: "'v heap \<Rightarrow> handle \<Rightarrow> 'v list option" where
  "set_elems h mid = map_option (map fst) (map_entries h mid)"

fun map_first_entry :: "nat \<Rightarrow> 'v heap \<Rightarrow> handle \<Rightarrow> ('v \<times> 'v) option option"
  and first_of_children :: "nat \<Rightarrow> 'v heap \<Rightarrow> handle list \<Rightarrow> ('v \<times> 'v) option option" where
  "map_first_entry 0 h mid = None"
| "map_first_entry (Suc fuel) h mid = do {
     node \<leftarrow> map_node h mid;
     (case data node of
        kv # _ \<Rightarrow> Some (Some kv)
      | [] \<Rightarrow> if \<not> is_collision node then first_of_children fuel h (children node) else Some None) }"
| "first_of_children fuel h [] = Some None"
| "first_of_children fuel h (c # cs) = do {
     r \<leftarrow> map_first_entry fuel h c;
     (case r of Some kv \<Rightarrow> Some (Some kv) | None \<Rightarrow> first_of_children fuel h cs) }"

definition map_size :: "'v heap \<Rightarrow> handle \<Rightarrow> nat option" where
  "map_size h mid = map_option (\<lambda>n. unat (nsize n)) (map_node h mid)"

end
