(* ===== verification/Champ_Refine.thy ===== *)
theory Champ_Refine
  imports Champ_Heap
begin

text \<open>
  The heap operations of \<open>Champ_Heap\<close> refine the abstract trie of \<open>Champ_Trie\<close>. A handle represents a
  trie (\<open>reprF\<close>) when the node it names has the shape of the trie's root and its children represent
  the subtries in slot order. The relation also collects the footprint of a transient build: the
  nursery slots at or above the watermark, each reached once, which are the only slots the build may
  rewrite in place.
\<close>

section \<open>Bitmaps and ranks\<close>

lemma slot_at_slot: "d < MAXD \<Longrightarrow> slot_at h d = Some (slot h d)"
  by (simp add: slot_at_def slot_def MAX_DEPTH_def BITS_PER_LEVEL_def mult.commute)

lemma bit_slot_mask: "s < 16 \<Longrightarrow> bit (slot_mask s) i \<longleftrightarrow> i = s"
  unfolding slot_mask_def bit_push_bit_iff bit_1_iff possible_bit_word by auto

lemma test_slot: "s < 16 \<Longrightarrow> m AND slot_mask s \<noteq> 0 \<longleftrightarrow> bit m s"
proof -
  assume s: "s < 16"
  have "m AND slot_mask s \<noteq> 0 \<longleftrightarrow> (\<exists>i. bit (m AND slot_mask s) i)"
    by (metis bit_0_eq bit_eqI bot_apply bot_bool_def)
  with s show ?thesis by (simp add: bit_and_iff bit_slot_mask)
qed

lemma rank_filter: "s < 16 \<Longrightarrow> rank m s = length (filter (bit m) [0..<s])"
proof -
  assume s: "s < 16"
  have "slot_mask s - 1 = mask s"
    by (simp add: slot_mask_def mask_eq_exp_minus_1 push_bit_eq_mult)
  with s show ?thesis by (simp add: rank_def count_ones_mask)
qed

definition has_bits :: "u16 \<Rightarrow> ('v cell \<Rightarrow> 'x option) \<Rightarrow> 'v cell list \<Rightarrow> bool" where
  "has_bits m f cs \<longleftrightarrow> (\<forall>s < 16. bit m s \<longleftrightarrow> f (cs ! s) \<noteq> None)"

lemma has_bits_at: "has_bits m f cs \<Longrightarrow> s < 16 \<Longrightarrow> m AND slot_mask s \<noteq> 0 \<longleftrightarrow> f (cs ! s) \<noteq> None"
  by (simp add: test_slot has_bits_def)

lemma rank_pack:
  assumes "has_bits m f cs" "length cs = 16" "s < 16"
  shows "rank m s = length (pack f (take s cs))"
proof -
  have "filter (bit m) [0..<s] = filter (\<lambda>i. f (cs ! i) \<noteq> None) [0..<s]"
    using assms by (intro filter_cong) (auto simp: has_bits_def)
  with assms show ?thesis by (simp add: rank_filter length_pack_take)
qed

lemma has_bits_set:
  "has_bits m f cs \<Longrightarrow> length cs = 16 \<Longrightarrow> s < 16 \<Longrightarrow> f c \<noteq> None \<Longrightarrow> has_bits (m OR slot_mask s) f (cs[s := c])"
  by (auto simp: has_bits_def bit_or_iff bit_slot_mask nth_list_update)

lemma has_bits_clear:
  "has_bits m f cs \<Longrightarrow> length cs = 16 \<Longrightarrow> s < 16 \<Longrightarrow> f (cs ! s) \<noteq> None \<Longrightarrow> f c = None \<Longrightarrow>
   has_bits (m XOR slot_mask s) f (cs[s := c])"
  by (auto simp: has_bits_def bit_xor_iff bit_slot_mask nth_list_update)

lemma has_bits_keep:
  "has_bits m f cs \<Longrightarrow> length cs = 16 \<Longrightarrow> s < 16 \<Longrightarrow> (f c = None) = (f (cs ! s) = None) \<Longrightarrow>
   has_bits m f (cs[s := c])"
  by (auto simp: has_bits_def nth_list_update)

lemma rank_set: "s < 16 \<Longrightarrow> rank (m OR slot_mask s) s = rank m s"
  by (auto simp: rank_filter bit_or_iff bit_slot_mask intro!: arg_cong [where f = length] filter_cong)

section \<open>Agreement of heaps\<close>

definition agree :: "nat set \<Rightarrow> 'v heap \<Rightarrow> 'v heap \<Rightarrow> bool" where
  "agree X h h' \<longleftrightarrow>
     length (local_maps h) \<le> length (local_maps h') \<and>
     (\<forall>i < length (local_maps h). i \<notin> X \<longrightarrow> local_maps h' ! i = local_maps h ! i) \<and>
     old_maps h' = old_maps h \<and> prelude_maps h' = prelude_maps h \<and>
     runtime_maps h' = runtime_maps h \<and> local_epoch h' = local_epoch h \<and> old_epoch h' = old_epoch h"

lemma agree_refl [simp]: "agree X h h"
  by (simp add: agree_def)

lemma agree_trans: "agree X h h1 \<Longrightarrow> agree Y h1 h2 \<Longrightarrow> agree (X \<union> Y) h h2"
  by (auto simp: agree_def)

lemma agree_mono: "agree X h h' \<Longrightarrow> X \<subseteq> Y \<Longrightarrow> agree Y h h'"
  by (auto simp: agree_def)

lemma agree_length: "agree X h h' \<Longrightarrow> length (local_maps h) \<le> length (local_maps h')"
  by (simp add: agree_def)

text \<open>Slots past the end of the first heap are free to differ.\<close>

lemma agree_trans_fresh:
  assumes "agree X h h1" "agree Y h1 h2" "Y \<subseteq> X \<union> {length (local_maps h)..}"
  shows "agree X h h2"
proof -
  have "local_maps h2 ! i = local_maps h ! i" if "i < length (local_maps h)" "i \<notin> X" for i
  proof -
    have "i \<notin> Y" "i < length (local_maps h1)"
      using that assms agree_length [OF assms(1)] by auto
    with that assms(1,2) show ?thesis by (simp add: agree_def)
  qed
  with assms(1,2) show ?thesis by (simp add: agree_def)
qed

lemma map_node_agree:
  assumes "agree X h h'" "map_node h mid = Some n"
    "region mid = LOCAL \<Longrightarrow> \<not> is_old mid \<Longrightarrow> index mid \<notin> X"
  shows "map_node h' mid = Some n"
  using assms
  by (auto simp: agree_def map_node_def check_epoch_aged_def vec_get_def split: if_splits)

section \<open>Ownership and representation\<close>

fun ownset :: "nat option \<Rightarrow> nat set" where
  "ownset None = {}"
| "ownset (Some w) = {w..}"

lemma is_owned_iff: "is_owned mid w \<longleftrightarrow> region mid = LOCAL \<and> \<not> is_old mid \<and> index mid \<in> ownset w"
  by (cases w) (auto simp: is_owned_def)

fun shape :: "'v MapNode \<Rightarrow> 'v trie \<Rightarrow> bool" where
  "shape n (Collision es) \<longleftrightarrow>
     is_collision n \<and> data n = es \<and> children n = [] \<and> nsize n = of_nat (length es)"
| "shape n (Branch cs) \<longleftrightarrow>
     \<not> is_collision n \<and> length cs = 16 \<and> data n = pack cell_entry cs \<and>
     has_bits (data_map n) cell_entry cs \<and> has_bits (node_map n) cell_child cs \<and>
     nsize n = of_nat (count (Branch cs))"

inductive reprF :: "nat option \<Rightarrow> 'v heap \<Rightarrow> handle \<Rightarrow> 'v trie \<Rightarrow> nat set \<Rightarrow> bool"
  and reprsF :: "nat option \<Rightarrow> 'v heap \<Rightarrow> handle list \<Rightarrow> 'v trie list \<Rightarrow> nat set \<Rightarrow> bool"
  for w h where
  node: "map_node h mid = Some n \<Longrightarrow> shape n t \<Longrightarrow> reprsF w h (children n) (snd (direct t)) F \<Longrightarrow>
     (is_owned mid w \<Longrightarrow> index mid \<notin> F) \<Longrightarrow> F' = (if is_owned mid w then insert (index mid) F else F) \<Longrightarrow>
     reprF w h mid t F'"
| nil: "reprsF w h [] [] {}"
| cons: "reprF w h mid t F \<Longrightarrow> reprsF w h mids ts G \<Longrightarrow> F \<inter> G = {} \<Longrightarrow> reprsF w h (mid # mids) (t # ts) (F \<union> G)"

inductive_cases reprF_nodeE: "reprF w h mid t F"
inductive_simps reprsF_Nil [simp]: "reprsF w h [] ts F"
inductive_simps reprsF_Nil2 [simp]: "reprsF w h mids [] F"
inductive_simps reprsF_Cons: "reprsF w h (mid # mids) ts F"
inductive_simps reprsF_Cons2: "reprsF w h mids (t # ts) F"

lemma reprF_agree:
  "reprF w h mid t F \<Longrightarrow> agree X h h' \<Longrightarrow> X \<subseteq> ownset w \<Longrightarrow> X \<inter> F = {} \<Longrightarrow> reprF w h' mid t F"
  "reprsF w h mids ts G \<Longrightarrow> agree X h h' \<Longrightarrow> X \<subseteq> ownset w \<Longrightarrow> X \<inter> G = {} \<Longrightarrow> reprsF w h' mids ts G"
proof (induction rule: reprF_reprsF.inducts)
  case (node mid n t F F')
  have "index mid \<notin> X" if "region mid = LOCAL" "\<not> is_old mid"
    using that node by (auto simp: is_owned_iff split: if_splits)
  then have "map_node h' mid = Some n"
    using node(1) node.prems(1) by (blast intro: map_node_agree)
  moreover have "reprsF w h' (children n) (snd (direct t)) F"
    using node by (auto split: if_splits)
  ultimately show ?case
    using node by (intro reprF_reprsF.node) auto
next
  case nil
  show ?case by simp
next
  case (cons mid t F mids ts G)
  then show ?case by (intro reprF_reprsF.cons) auto
qed

lemma map_node_local_bound:
  "map_node h mid = Some n \<Longrightarrow> region mid = LOCAL \<Longrightarrow> \<not> is_old mid \<Longrightarrow>
   index mid < length (local_maps h) \<and> local_maps h ! index mid = n"
  by (auto simp: map_node_def vec_get_def split: if_splits)

lemma reprF_footprint:
  "reprF w h mid t F \<Longrightarrow> F \<subseteq> ownset w \<inter> {..<length (local_maps h)}"
  "reprsF w h mids ts G \<Longrightarrow> G \<subseteq> ownset w \<inter> {..<length (local_maps h)}"
proof (induction rule: reprF_reprsF.inducts)
  case (node mid n t F F')
  then show ?case by (auto simp: is_owned_iff dest: map_node_local_bound)
qed auto

lemma reprF_forget:
  "reprF w h mid t F \<Longrightarrow> reprF None h mid t {}"
  "reprsF w h mids ts G \<Longrightarrow> reprsF None h mids ts {}"
proof (induction rule: reprF_reprsF.inducts)
  case (node mid n t F F')
  then show ?case by (intro reprF_reprsF.node [where F = "{}"]) (auto simp: is_owned_iff)
next
  case (cons mid t F mids ts G)
  then show ?case using reprF_reprsF.cons [of None h mid t "{}" mids ts "{}"] by simp
qed simp

text \<open>Nothing a heap already represents is owned by a build that starts at its end.\<close>

lemma reprF_watermark:
  "reprF None h mid t F \<Longrightarrow> reprF (Some (length (local_maps h))) h mid t {}"
  "reprsF None h mids ts G \<Longrightarrow> reprsF (Some (length (local_maps h))) h mids ts {}"
proof (induction rule: reprF_reprsF.inducts)
  case (node mid n t F F')
  have "\<not> is_owned mid (Some (length (local_maps h)))"
    using map_node_local_bound [OF node(1)] by (auto simp: is_owned_iff)
  with node show ?case by (intro reprF_reprsF.node [where F = "{}"]) auto
next
  case (cons mid t F mids ts G)
  then show ?case
    using reprF_reprsF.cons [of "Some (length (local_maps h))" h mid t "{}" mids ts "{}"] by simp
qed simp

definition repr :: "'v heap \<Rightarrow> handle \<Rightarrow> 'v trie \<Rightarrow> bool" where
  "repr h mid t \<longleftrightarrow> reprF None h mid t {}"

section \<open>Child lists\<close>

lemma reprsF_length: "reprsF w h mids ts G \<Longrightarrow> length mids = length ts"
proof (induction ts arbitrary: mids G)
  case (Cons t ts)
  then show ?case by (auto simp: reprsF_Cons2)
qed simp

lemma reprsF_remove:
  assumes "reprsF w h mids ts F" "j < length ts"
  shows "\<exists>Fj G. F = Fj \<union> G \<and> Fj \<inter> G = {} \<and> reprF w h (mids ! j) (ts ! j) Fj \<and>
    reprsF w h (take j mids @ drop (Suc j) mids) (take j ts @ drop (Suc j) ts) G"
  using assms
proof (induction j arbitrary: mids ts F)
  case 0
  then show ?case by (cases ts) (auto simp: reprsF_Cons2, blast)
next
  case (Suc j)
  from Suc.prems obtain t ts' where ts: "ts = t # ts'" "j < length ts'" by (cases ts) auto
  from Suc.prems(1) obtain mid mids' F1 F2 where m: "mids = mid # mids'" "F = F1 \<union> F2" "F1 \<inter> F2 = {}"
    "reprF w h mid t F1" "reprsF w h mids' ts' F2"
    by (auto simp: ts reprsF_Cons2)
  from Suc.IH [OF m(5) ts(2)] obtain Fj G where r: "F2 = Fj \<union> G" "Fj \<inter> G = {}"
    "reprF w h (mids' ! j) (ts' ! j) Fj"
    "reprsF w h (take j mids' @ drop (Suc j) mids') (take j ts' @ drop (Suc j) ts') G"
    by blast
  have "reprsF w h (take (Suc j) mids @ drop (Suc (Suc j)) mids)
      (take (Suc j) ts @ drop (Suc (Suc j)) ts) (F1 \<union> G)"
  proof -
    have "F1 \<inter> G = {}" using m(3) r(1) by auto
    from reprF_reprsF.cons [OF m(4) r(4) this] show ?thesis by (simp add: m(1) ts(1))
  qed
  moreover have "F = Fj \<union> (F1 \<union> G)" "Fj \<inter> (F1 \<union> G) = {}"
    using m(2,3) r(1,2) by auto
  ultimately show ?case
    using r(3) m(1) ts(1) by (intro exI [of _ Fj] exI [of _ "F1 \<union> G"]) simp
qed

lemma reprsF_insert:
  assumes "reprsF w h mids ts G" "reprF w h mid t F" "F \<inter> G = {}" "j \<le> length ts"
  shows "reprsF w h (take j mids @ mid # drop j mids) (take j ts @ t # drop j ts) (F \<union> G)"
  using assms
proof (induction j arbitrary: mids ts G)
  case 0
  then show ?case by (auto intro: reprF_reprsF.cons)
next
  case (Suc j)
  from Suc.prems obtain t1 ts' where ts: "ts = t1 # ts'" "j \<le> length ts'" by (cases ts) auto
  from Suc.prems(1) obtain mid1 mids' F1 F2 where m: "mids = mid1 # mids'" "G = F1 \<union> F2" "F1 \<inter> F2 = {}"
    "reprF w h mid1 t1 F1" "reprsF w h mids' ts' F2"
    by (auto simp: ts reprsF_Cons2)
  have "reprsF w h (take j mids' @ mid # drop j mids') (take j ts' @ t # drop j ts') (F \<union> F2)"
    using Suc.IH [OF m(5) Suc.prems(2) _ ts(2)] Suc.prems(3) m(2) by blast
  from reprF_reprsF.cons [OF m(4) this] have
    "reprsF w h (mid1 # take j mids' @ mid # drop j mids') (t1 # take j ts' @ t # drop j ts') (F1 \<union> (F \<union> F2))"
    using Suc.prems(3) m(2,3) by blast
  then show ?case by (simp add: m ts Un_left_commute)
qed

text \<open>The child in a slot, taken out of the packed children; and a child put into a free slot.\<close>

lemma child_out:
  assumes "shape n (Branch cs)" "reprsF w h (children n) (pack cell_child cs) F"
    and "s < 16" "cs ! s = Child t" "j = rank (node_map n) s"
  shows "\<exists>c rest Fj G. vec_get (children n) j = Some c \<and> reprF w h c t Fj \<and> F = Fj \<union> G \<and> Fj \<inter> G = {} \<and>
    vec_remove (children n) j = Some rest \<and> reprsF w h rest (pack cell_child (cs[s := Empty])) G \<and>
    (\<forall>c'. vec_set (children n) j c' = vec_insert rest j c')"
proof -
  have j: "j = length (pack cell_child (take s cs))"
    using assms by (simp add: rank_pack)
  have len: "s < length cs" using assms by simp
  have nth: "j < length (pack cell_child cs)" "pack cell_child cs ! j = t"
    using pack_nth [OF len, of cell_child t] assms(4) j by auto
  have rm: "take j (pack cell_child cs) @ drop (Suc j) (pack cell_child cs) = pack cell_child (cs[s := Empty])"
    using pack_remove [OF len, of cell_child t Empty] assms(4) j nth(1)
    by (simp add: vec_remove_def)
  obtain Fj G where r: "F = Fj \<union> G" "Fj \<inter> G = {}" "reprF w h (children n ! j) t Fj"
    "reprsF w h (take j (children n) @ drop (Suc j) (children n)) (pack cell_child (cs[s := Empty])) G"
    using reprsF_remove [OF assms(2) nth(1)] nth(2) rm by auto
  have jl: "j < length (children n)"
    using nth(1) reprsF_length [OF assms(2)] by simp
  have "\<forall>c'. vec_set (children n) j c' =
      vec_insert (take j (children n) @ drop (Suc j) (children n)) j c'"
    using jl by (auto simp: vec_set_def vec_insert_def upd_conv_take_nth_drop)
  with r jl show ?thesis
    by (intro exI [of _ "children n ! j"] exI [of _ "take j (children n) @ drop (Suc j) (children n)"])
      (auto simp: vec_get_def vec_remove_def)
qed

lemma child_in_slot:
  assumes "reprsF w h mids (pack cell_child cs) G" "length cs = 16" "s < 16" "cell_child (cs ! s) = None"
    and "reprF w h c t F" "F \<inter> G = {}" "j = length (pack cell_child (take s cs))"
  shows "\<exists>mids'. vec_insert mids j c = Some mids' \<and> reprsF w h mids' (pack cell_child (cs[s := Child t])) (F \<union> G)"
proof -
  have len: "s < length cs" using assms by simp
  have ins: "vec_insert (pack cell_child cs) j t = Some (pack cell_child (cs[s := Child t]))"
    using pack_insert [of s cs cell_child "Child t" t] len assms(4,7) by simp
  then have j: "j \<le> length (pack cell_child cs)"
    and eq: "take j (pack cell_child cs) @ t # drop j (pack cell_child cs) = pack cell_child (cs[s := Child t])"
    by (auto simp: vec_insert_def split: if_splits)
  show ?thesis
    using reprsF_insert [OF assms(1,5,6) j] reprsF_length [OF assms(1)] j
    by (simp add: eq vec_insert_def)
qed

section \<open>Writing one node\<close>

lemma alloc_map_node_repr:
  assumes "length (local_maps h) < 2 ^ 32" "\<And>w'. w = Some w' \<Longrightarrow> w' \<le> length (local_maps h)"
    and "shape n t" "reprsF w h (children n) (snd (direct t)) G"
  shows "\<exists>h' mid. alloc_map_node h n = Some (h', mid) \<and> map_node h' mid = Some n \<and>
    reprF w h' mid t (if w = None then G else insert (length (local_maps h)) G) \<and>
    agree {} h h' \<and> length (local_maps h') = Suc (length (local_maps h))"
proof -
  let ?mid = "local_gen_bits (length (local_maps h)) (local_epoch h)"
  let ?h = "h\<lparr>local_maps := local_maps h @ [n]\<rparr>"
  note f = local_gen_fields [OF assms(1), of "local_epoch h"]
  have alloc: "alloc_map_node h n = Some (?h, ?mid)"
    by (simp add: alloc_map_node_def f)
  have "ucast GEN_MASK = (mask 29 :: u32)"
    by (simp add: GEN_MASK_mask mask_eq_exp_minus_1)
  then have node: "map_node ?h ?mid = Some n"
    by (simp add: map_node_def f check_epoch_aged_def epoch_in_gen_width_def vec_get_def)
  have ag: "agree {} h ?h" by (simp add: agree_def nth_append)
  have kids: "reprsF w ?h (children n) (snd (direct t)) G"
    by (rule reprF_agree(2) [OF assms(4) ag]) auto
  have own: "is_owned ?mid w \<longleftrightarrow> w \<noteq> None"
    using assms(2) by (cases w) (auto simp: is_owned_iff f)
  have "length (local_maps h) \<notin> G"
    using reprF_footprint(2) [OF assms(4)] by auto
  then have "reprF w ?h ?mid t (if w = None then G else insert (length (local_maps h)) G)"
    using node assms(3) kids own by (intro reprF_reprsF.node [where F = G]) (auto simp: f)
  with alloc node ag show ?thesis by simp
qed

lemma local_slot_set_repr:
  assumes "map_node h mid = Some n0" "is_owned mid w" "shape n t"
    and "reprsF w h (children n) (snd (direct t)) G" "index mid \<notin> G"
  shows "local_slot h mid = Some n0"
    and "\<exists>h'. local_slot_set h mid n = Some h' \<and> map_node h' mid = Some n \<and>
      reprF w h' mid t (insert (index mid) G) \<and> agree {index mid} h h' \<and>
      length (local_maps h') = length (local_maps h)"
proof -
  have loc: "region mid = LOCAL" "\<not> is_old mid" "index mid \<in> ownset w"
    using assms(2) by (auto simp: is_owned_iff)
  note b = map_node_local_bound [OF assms(1) loc(1,2)]
  show "local_slot h mid = Some n0" using b by (simp add: local_slot_def vec_get_def)
  let ?h = "h\<lparr>local_maps := (local_maps h)[index mid := n]\<rparr>"
  have set: "local_slot_set h mid n = Some ?h" using b by (simp add: local_slot_set_def vec_set_def)
  have node: "map_node ?h mid = Some n"
    using assms(1) b loc by (auto simp: map_node_def check_epoch_aged_def vec_get_def split: if_splits)
  have ag: "agree {index mid} h ?h" by (simp add: agree_def nth_list_update)
  have kids: "reprsF w ?h (children n) (snd (direct t)) G"
    using assms(5) loc(3) by (intro reprF_agree(2) [OF assms(4) ag]) auto
  have "reprF w ?h mid t (insert (index mid) G)"
    using node assms kids by (intro reprF_reprsF.node [where F = G]) auto
  with set node ag show "\<exists>h'. local_slot_set h mid n = Some h' \<and> map_node h' mid = Some n \<and>
      reprF w h' mid t (insert (index mid) G) \<and> agree {index mid} h h' \<and>
      length (local_maps h') = length (local_maps h)"
    by simp
qed

section \<open>Lookup\<close>

lemma entry_at:
  assumes "shape n (Branch cs)" "s < 16" "cs ! s = Entry k v"
  shows "data_map n AND slot_mask s \<noteq> 0" "vec_get (data n) (rank (data_map n) s) = Some (k, v)"
  using assms pack_nth [of s cs cell_entry "(k, v)"] has_bits_at [of "data_map n" cell_entry cs s]
    rank_pack [of "data_map n" cell_entry cs s]
  by (simp_all add: vec_get_def)

lemma no_entry_at:
  assumes "shape n (Branch cs)" "s < 16" "cell_entry (cs ! s) = None"
  shows "data_map n AND slot_mask s = 0"
  using assms has_bits_at [of "data_map n" cell_entry cs s] by simp

lemma child_bit:
  assumes "shape n (Branch cs)" "s < 16"
  shows "node_map n AND slot_mask s \<noteq> 0 \<longleftrightarrow> cell_child (cs ! s) \<noteq> None"
  using assms has_bits_at [of "node_map n" cell_child cs s] by simp

lemma champ_get_refines:
  assumes "reprF w h mid t F" "twf eq hv d t"
  shows "champ_get eq h mid key hash d = Some (t_get eq t key hash d)"
  using assms
proof (induction t arbitrary: d mid F rule: trie_induct)
  case (Collision es)
  from Collision.prems(1) show ?case
    by (auto elim!: reprF_nodeE simp: champ_get.simps cfind_def)
next
  case (Branch cs)
  from Branch.prems(1) obtain n G where n: "map_node h mid = Some n" "shape n (Branch cs)"
    "reprsF w h (children n) (pack cell_child cs) G"
    by (auto elim!: reprF_nodeE)
  have d: "d < MAXD" and len: "length cs = 16" using Branch.prems(2) by (auto simp: twf_Branch)
  let ?s = "slot hash d"
  have start: "champ_get eq h mid key hash d = do {
       slot \<leftarrow> Some ?s;
       let bit = slot_mask slot;
       if data_map n AND bit \<noteq> 0
       then do {
         (k, v) \<leftarrow> vec_get (data n) (rank (data_map n) slot);
         Some (if eq k key then Some v else None) }
       else if node_map n AND bit \<noteq> 0
       then do {
         child \<leftarrow> vec_get (children n) (rank (node_map n) slot);
         champ_get eq h child key hash (d + 1) }
       else Some None }"
    using n d by (subst champ_get.simps) (simp add: slot_at_slot)
  show ?case
  proof (cases "cs ! ?s")
    case Empty
    with n d show ?thesis
      using no_entry_at [OF n(2), of ?s] child_bit [OF n(2), of ?s] by (simp add: start t_get_Branch)
  next
    case (Entry k v)
    with d entry_at [OF n(2) _ Entry] show ?thesis by (simp add: start t_get_Branch)
  next
    case (Child t)
    obtain c Fj where c: "vec_get (children n) (rank (node_map n) ?s) = Some c" "reprF w h c t Fj"
      using child_out [OF n(2,3) _ Child refl] by auto
    have wf: "twf eq hv (Suc d) t" using Branch.prems(2) Child
      by (metis cell_ok_simps(3) slot_less twf_Branch)
    have "Child t \<in> set cs" using len Child by (metis nth_mem slot_less)
    with c wf Child d Branch.IH [of t c Fj "Suc d"] show ?thesis
      using no_entry_at [OF n(2), of ?s] child_bit [OF n(2), of ?s] by (simp add: start t_get_Branch)
  qed
qed

section \<open>Association\<close>

definition post :: "nat option \<Rightarrow> 'v heap \<Rightarrow> nat set \<Rightarrow> nat \<Rightarrow> 'v heap \<Rightarrow> handle \<Rightarrow> 'v trie \<Rightarrow> bool" where
  "post w h F b h' mid t \<longleftrightarrow>
     (\<exists>F'. reprF w h' mid t F' \<and> F' \<subseteq> F \<union> {length (local_maps h)..<length (local_maps h')}) \<and>
     agree F h h' \<and> length (local_maps h') \<le> length (local_maps h) + b"

definition room :: "nat option \<Rightarrow> 'v heap \<Rightarrow> nat \<Rightarrow> bool" where
  "room w h b \<longleftrightarrow> length (local_maps h) + b \<le> 2 ^ 32 \<and> (\<forall>w'. w = Some w' \<longrightarrow> w' \<le> length (local_maps h))"

lemma finish_alloc:
  assumes "agree F h h1" "length (local_maps h1) < length (local_maps h) + b" "room w h b"
    and "shape n t" "reprsF w h1 (children n) (snd (direct t)) G"
    and "G \<subseteq> F \<union> {length (local_maps h)..<length (local_maps h1)}"
  shows "\<exists>h' mid. alloc_map_node h1 n = Some (h', mid) \<and> post w h F b h' mid t"
proof -
  have "length (local_maps h1) < 2 ^ 32" "\<And>w'. w = Some w' \<Longrightarrow> w' \<le> length (local_maps h1)"
    using assms(2,3) agree_length [OF assms(1)] by (auto simp: room_def)
  from alloc_map_node_repr [OF this assms(4,5)] obtain h' mid where
    *: "alloc_map_node h1 n = Some (h', mid)"
      "reprF w h' mid t (if w = None then G else insert (length (local_maps h1)) G)"
      "agree {} h1 h'" "length (local_maps h') = Suc (length (local_maps h1))"
    by blast
  have "agree F h h'" by (rule agree_trans_fresh [OF assms(1) *(3)]) simp
  moreover have "(if w = None then G else insert (length (local_maps h1)) G)
      \<subseteq> F \<union> {length (local_maps h)..<length (local_maps h')}"
    using assms(6) *(4) agree_length [OF assms(1)] by auto
  ultimately show ?thesis
    using * assms(2) by (auto simp: post_def)
qed

lemma finish_set:
  assumes "agree F h h1" "length (local_maps h1) \<le> length (local_maps h) + b"
    and "map_node h1 mid = Some n0" "is_owned mid w" "index mid \<in> F" "index mid \<notin> G"
    and "shape n t" "reprsF w h1 (children n) (snd (direct t)) G"
    and "G \<subseteq> F \<union> {length (local_maps h)..<length (local_maps h1)}"
  shows "local_slot h1 mid = Some n0"
    and "\<exists>h'. local_slot_set h1 mid n = Some h' \<and> post w h F b h' mid t"
proof -
  note r = local_slot_set_repr [OF assms(3,4,7,8,6)]
  show "local_slot h1 mid = Some n0" by (rule r(1))
  from r(2) obtain h' where *: "local_slot_set h1 mid n = Some h'"
    "reprF w h' mid t (insert (index mid) G)" "agree {index mid} h1 h'"
    "length (local_maps h') = length (local_maps h1)"
    by blast
  have "agree F h h'" by (rule agree_trans_fresh [OF assms(1) *(3)]) (use assms(5) in auto)
  moreover have "insert (index mid) G \<subseteq> F \<union> {length (local_maps h)..<length (local_maps h')}"
    using assms(5,9) *(4) by auto
  ultimately show "\<exists>h'. local_slot_set h1 mid n = Some h' \<and> post w h F b h' mid t"
    using * assms(2) by (auto simp: post_def)
qed

subsection \<open>Splitting\<close>

lemma pack_blank [simp]: "pack cell_entry (replicate m Empty) = []" "pack cell_child (replicate m Empty) = []"
  by (induction m) auto

lemma pack_one:
  "s < m \<Longrightarrow> pack cell_entry ((replicate m Empty)[s := c]) = pack cell_entry [c]"
  "s < m \<Longrightarrow> pack cell_child ((replicate m Empty)[s := c]) = pack cell_child [c]"
  by (simp_all add: pack_update_split drop_replicate)

lemma pack_two:
  assumes "s1 < s2" "s2 < m"
  shows "pack cell_entry ((replicate m Empty)[s1 := Entry k1 v1, s2 := Entry k2 v2]) = [(k1, v1), (k2, v2)]"
    and "pack cell_child ((replicate m Empty)[s1 := Entry k1 v1, s2 := Entry k2 v2]) = []"
proof -
  have "take s2 ((replicate m Empty)[s1 := Entry k1 v1]) = (replicate s2 Empty)[s1 := Entry k1 v1]"
    using assms by (simp add: take_update_swap min_def)
  moreover have "drop (Suc s2) ((replicate m Empty)[s1 := Entry k1 v1]) = replicate (m - Suc s2) Empty"
    using assms by (simp add: drop_update_cancel drop_replicate)
  ultimately show "pack cell_entry ((replicate m Empty)[s1 := Entry k1 v1, s2 := Entry k2 v2]) = [(k1, v1), (k2, v2)]"
    "pack cell_child ((replicate m Empty)[s1 := Entry k1 v1, s2 := Entry k2 v2]) = []"
    using assms by (simp_all add: pack_update_split pack_one)
qed

lemma has_bits_blank: "f Empty = None \<Longrightarrow> has_bits 0 f (replicate 16 Empty)"
  by (auto simp: has_bits_def)

lemma has_bits_one:
  "s < 16 \<Longrightarrow> f Empty = None \<Longrightarrow> f c \<noteq> None \<Longrightarrow> has_bits (slot_mask s) f ((replicate 16 Empty)[s := c])"
  "s < 16 \<Longrightarrow> f Empty = None \<Longrightarrow> f c = None \<Longrightarrow> has_bits 0 f ((replicate 16 Empty)[s := c])"
  using has_bits_set [OF has_bits_blank, of f s c] has_bits_keep [OF has_bits_blank, of f s c] by auto

lemma champ_split_refines:
  assumes "room w h (17 - d)" "d \<le> MAXD"
  shows "\<exists>h' c. champ_split h k1 v1 h1 k2 v2 h2 d = Some (h', c) \<and>
    post w h {} (17 - d) h' c (t_split (k1, v1) h1 (k2, v2) h2 d)"
  using assms
proof (induction "(k1, v1)" h1 "(k2, v2)" h2 d rule: t_split.induct)
  case (1 h1 h2 d)
  have b: "length (local_maps h) < length (local_maps h) + (17 - d)" using 1 by simp
  note fin = finish_alloc [OF agree_refl b "1.prems"(1), where G = "{}" and F = "{}"]
  consider (coll) "d = MAXD" | (same) "d < MAXD" "slot h1 d = slot h2 d"
    | (diff) "d < MAXD" "slot h1 d \<noteq> slot h2 d"
    using 1 by linarith
  then show ?case
  proof cases
    case coll
    have "\<exists>h' c. alloc_map_node h \<lparr>nsize = 2, data_map = 0, node_map = 0, is_collision = True,
        data = [(k1, v1), (k2, v2)], children = []\<rparr> = Some (h', c) \<and>
        post w h {} (17 - d) h' c (Collision [(k1, v1), (k2, v2)])"
      by (rule fin) simp_all
    with coll show ?thesis
      by (subst champ_split.simps, subst t_split.simps) (simp add: MAX_DEPTH_def BITS_PER_LEVEL_def)
  next
    case diff
    let ?s1 = "slot h1 d" and ?s2 = "slot h2 d"
    let ?cs = "(replicate 16 Empty)[?s1 := Entry k1 v1, ?s2 := Entry k2 v2]"
    have bits: "has_bits (slot_mask ?s1 OR slot_mask ?s2) cell_entry ?cs" "has_bits 0 cell_child ?cs"
    proof -
      show "has_bits (slot_mask ?s1 OR slot_mask ?s2) cell_entry ?cs"
        by (intro has_bits_set has_bits_one) simp_all
      show "has_bits 0 cell_child ?cs"
        using diff(2) by (intro has_bits_keep has_bits_one) simp_all
    qed
    have cnt: "count (Branch ?cs) = 2"
      using count_update [of ?s2 "(replicate 16 Empty)[?s1 := Entry k1 v1]" "Entry k2 v2"]
        count_update [of ?s1 "replicate 16 Empty" "Entry k1 v1"] diff by (simp add: count_Branch)
    have packs: "pack cell_entry ?cs = (if ?s1 < ?s2 then [(k1, v1), (k2, v2)] else [(k2, v2), (k1, v1)])"
      "pack cell_child ?cs = []"
      using pack_two [of ?s1 ?s2 16 k1 v1 k2 v2] pack_two [of ?s2 ?s1 16 k2 v2 k1 v1] diff(2)
        list_update_swap [OF diff(2), of "replicate 16 Empty" "Entry k1 v1" "Entry k2 v2"]
      by (cases "?s1 < ?s2"; simp)+
    show ?thesis
      using diff bits cnt packs
      by (subst champ_split.simps, subst t_split.simps)
        (auto intro!: fin simp: MAX_DEPTH_def BITS_PER_LEVEL_def slot_at_slot or.commute)
  next
    case same
    have room': "room w h (17 - Suc d)" using "1.prems"(1) same by (auto simp: room_def)
    from "1.hyps" [OF same(1,2)] room' same obtain h' c where
      c: "champ_split h k1 v1 h1 k2 v2 h2 (Suc d) = Some (h', c)"
      "post w h {} (17 - Suc d) h' c (t_split (k1, v1) h1 (k2, v2) h2 (Suc d))"
      by auto
    then obtain F where F: "reprF w h' c (t_split (k1, v1) h1 (k2, v2) h2 (Suc d)) F"
      "F \<subseteq> {length (local_maps h)..<length (local_maps h')}" "agree {} h h'"
      "length (local_maps h') \<le> length (local_maps h) + (17 - Suc d)"
      by (auto simp: post_def)
    let ?t = "t_split (k1, v1) h1 (k2, v2) h2 (Suc d)"
    let ?cs = "(replicate 16 Empty)[slot h1 d := Child ?t]"
    have cnt: "count (Branch ?cs) = 2" by (simp add: count_single count_t_split)
    have kids: "reprsF w h' [c] [?t] F"
      using reprF_reprsF.cons [OF F(1) reprF_reprsF.nil] by simp
    have lt: "length (local_maps h') < length (local_maps h) + (17 - d)"
      using F(4) same(1) by simp
    show ?thesis
      using same c(1) kids F(2) cnt has_bits_one [of "slot h1 d" cell_entry "Child ?t"]
        has_bits_one [of "slot h1 d" cell_child "Child ?t"]
      by (subst champ_split.simps, subst t_split.simps)
        (auto intro!: finish_alloc [OF F(3) lt "1.prems"(1)]
          simp: MAX_DEPTH_def BITS_PER_LEVEL_def slot_at_slot pack_one)
  qed
qed

subsection \<open>One slot of a branch node\<close>

text \<open>
  For each change of one slot: the packed-array operation the code performs succeeds, and a node
  with the resulting fields has the shape of the updated branch.
\<close>

lemma of_nat_count:
  assumes "count (Branch cs') + a = count (Branch cs) + b"
  shows "(of_nat (count (Branch cs')) :: u32) = of_nat (count (Branch cs)) + of_nat b - of_nat a"
  using arg_cong [OF assms, of "of_nat :: nat \<Rightarrow> u32"] by (simp add: algebra_simps)

lemma of_nat_update:
  assumes "s < length cs"
  shows "(of_nat (count (Branch (cs[s := c]))) :: u32) =
    of_nat (count (Branch cs)) + of_nat (length (cell_all c)) - of_nat (length (cell_all (cs ! s)))"
  by (rule of_nat_count, rule count_update) (rule assms)

lemma shape_insert_entry:
  assumes "shape n (Branch cs)" "s < 16" "cs ! s = Empty"
  shows "vec_insert (data n) (rank (data_map n OR slot_mask s) s) (k, v) = Some (pack cell_entry (cs[s := Entry k v]))"
    and "pack cell_child (cs[s := Entry k v]) = pack cell_child cs"
    and "\<not> is_collision n' \<Longrightarrow> data n' = pack cell_entry (cs[s := Entry k v]) \<Longrightarrow>
      data_map n' = data_map n OR slot_mask s \<Longrightarrow> node_map n' = node_map n \<Longrightarrow> nsize n' = nsize n + 1 \<Longrightarrow>
      shape n' (Branch (cs[s := Entry k v]))"
  using assms pack_insert [of s cs cell_entry "Entry k v" "(k, v)"] rank_pack [of "data_map n" cell_entry cs s]
    pack_same [of s cs cell_child "Entry k v"] has_bits_set [of "data_map n" cell_entry cs s "Entry k v"]
    has_bits_keep [of "node_map n" cell_child cs s "Entry k v"]
  by (simp_all add: rank_set of_nat_update)

lemma shape_replace_entry:
  assumes "shape n (Branch cs)" "s < 16" "cs ! s = Entry k0 v0"
  shows "vec_set (data n) (rank (data_map n) s) (k, v) = Some (pack cell_entry (cs[s := Entry k v]))"
    and "pack cell_child (cs[s := Entry k v]) = pack cell_child cs"
    and "\<not> is_collision n' \<Longrightarrow> data n' = pack cell_entry (cs[s := Entry k v]) \<Longrightarrow>
      data_map n' = data_map n \<Longrightarrow> node_map n' = node_map n \<Longrightarrow> nsize n' = nsize n \<Longrightarrow>
      shape n' (Branch (cs[s := Entry k v]))"
  using assms pack_replace [of s cs cell_entry "(k0, v0)" "Entry k v" "(k, v)"]
    rank_pack [of "data_map n" cell_entry cs s] pack_same [of s cs cell_child "Entry k v"]
    has_bits_keep [of "data_map n" cell_entry cs s "Entry k v"] has_bits_keep [of "node_map n" cell_child cs s "Entry k v"]
  by (simp_all add: of_nat_update)

lemma shape_remove_entry:
  assumes "shape n (Branch cs)" "s < 16" "cs ! s = Entry k0 v0" "cell_entry c = None"
  shows "vec_remove (data n) (rank (data_map n) s) = Some (pack cell_entry (cs[s := c]))"
    and "c = Empty \<Longrightarrow> pack cell_child (cs[s := c]) = pack cell_child cs"
    and "c = Empty \<Longrightarrow> \<not> is_collision n' \<Longrightarrow> data n' = pack cell_entry (cs[s := c]) \<Longrightarrow>
      data_map n' = data_map n XOR slot_mask s \<Longrightarrow> node_map n' = node_map n \<Longrightarrow> nsize n' = nsize n - 1 \<Longrightarrow>
      shape n' (Branch (cs[s := c]))"
    and "c = Child t \<Longrightarrow> \<not> is_collision n' \<Longrightarrow> data n' = pack cell_entry (cs[s := c]) \<Longrightarrow>
      data_map n' = data_map n XOR slot_mask s \<Longrightarrow> node_map n' = node_map n OR slot_mask s \<Longrightarrow>
      nsize n' = nsize n + of_nat (count t) - 1 \<Longrightarrow> shape n' (Branch (cs[s := c]))"
  using assms pack_remove [of s cs cell_entry "(k0, v0)" c]
    rank_pack [of "data_map n" cell_entry cs s] pack_same [of s cs cell_child c]
    has_bits_clear [of "data_map n" cell_entry cs s c] has_bits_keep [of "node_map n" cell_child cs s c]
    has_bits_set [of "node_map n" cell_child cs s c]
  by (simp_all add: of_nat_update)

lemma shape_replace_child:
  assumes "shape n (Branch cs)" "s < 16" "cs ! s = Child t0"
  shows "pack cell_entry (cs[s := Child t]) = pack cell_entry cs"
    and "\<not> is_collision n' \<Longrightarrow> data n' = data n \<Longrightarrow> data_map n' = data_map n \<Longrightarrow> node_map n' = node_map n \<Longrightarrow>
      nsize n' = nsize n + of_nat (count t) - of_nat (count t0) \<Longrightarrow> shape n' (Branch (cs[s := Child t]))"
  using assms pack_same [of s cs cell_entry "Child t"] has_bits_keep [of "data_map n" cell_entry cs s "Child t"]
    has_bits_keep [of "node_map n" cell_child cs s "Child t"]
  by (simp_all add: of_nat_update)

lemma shape_remove_child:
  assumes "shape n (Branch cs)" "s < 16" "cs ! s = Child t0" "\<not> is_collision n'"
    and "node_map n' = node_map n XOR slot_mask s"
  shows "pack cell_entry (cs[s := Empty]) = pack cell_entry cs"
    and "data n' = data n \<Longrightarrow> data_map n' = data_map n \<Longrightarrow> nsize n' = nsize n - of_nat (count t0) \<Longrightarrow>
      shape n' (Branch (cs[s := Empty]))"
    and "vec_insert (data n) (rank (data_map n OR slot_mask s) s) (k, v) = Some (pack cell_entry (cs[s := Entry k v]))"
    and "data n' = pack cell_entry (cs[s := Entry k v]) \<Longrightarrow> data_map n' = data_map n OR slot_mask s \<Longrightarrow>
      nsize n' = nsize n + 1 - of_nat (count t0) \<Longrightarrow> shape n' (Branch (cs[s := Entry k v]))"
  using assms pack_same [of s cs cell_entry Empty] pack_insert [of s cs cell_entry "Entry k v" "(k, v)"]
    rank_pack [of "data_map n" cell_entry cs s] has_bits_clear [of "node_map n" cell_child cs s Empty]
    has_bits_clear [of "node_map n" cell_child cs s "Entry k v"] has_bits_keep [of "data_map n" cell_entry cs s Empty]
    has_bits_set [of "data_map n" cell_entry cs s "Entry k v"]
  by (simp_all add: rank_set of_nat_update)

end
