(* ===== verification/Champ_Assoc.thy ===== *)
theory Champ_Assoc
  imports Champ_Refine
begin

text \<open>
  \<open>champ_assoc\<close> refines the abstract association: with room for the nodes of one path it never panics,
  the returned handle represents the updated trie, and nothing outside the footprint of the build is
  written. With no watermark the footprint is empty, so every existing map is untouched; with a
  watermark the owned nodes are rewritten in place. The in-place build of \<open>map_from_pair_iter\<close> is
  the fold of the same abstract association.
\<close>

lemma reprF_root:
  assumes "reprF w h mid t F"
  shows "\<exists>n G. map_node h mid = Some n \<and> shape n t \<and> reprsF w h (children n) (snd (direct t)) G \<and>
    (is_owned mid w \<longrightarrow> index mid \<notin> G) \<and> F = (if is_owned mid w then insert (index mid) G else G) \<and> G \<subseteq> ownset w"
  using assms by (elim reprF_nodeE) (blast dest: reprF_footprint(2))

text \<open>
  Rewriting the node a handle names, once the work below it is done: in place when the build owns
  it, in a fresh slot otherwise.
\<close>

lemma rewrite_node:
  assumes node: "map_node h mid = Some n" and F: "F = (if is_owned mid w then insert (index mid) G else G)"
    and G: "G \<subseteq> ownset w" "is_owned mid w \<longrightarrow> index mid \<notin> G"
    and h1: "agree G h h1" "length (local_maps h1) < length (local_maps h) + b" and room: "room w h b"
    and kids: "reprsF w h1 (children n') (snd (direct t')) G'" "G' \<subseteq> G \<union> {length (local_maps h)..<length (local_maps h1)}"
    and shape: "shape n' t'"
  shows "is_owned mid w \<Longrightarrow> \<exists>h'. local_slot_set h1 mid n' = Some h' \<and> post w h F b h' mid t'"
    and "\<exists>h' mid'. alloc_map_node h1 n' = Some (h', mid') \<and> post w h F b h' mid' t'"
proof -
  have F': "agree F h h1" "G' \<subseteq> F \<union> {length (local_maps h)..<length (local_maps h1)}"
    using h1(1) kids(2) F by (auto intro: agree_mono)
  show "\<exists>h' mid'. alloc_map_node h1 n' = Some (h', mid') \<and> post w h F b h' mid' t'"
    by (rule finish_alloc [OF F'(1) h1(2) room shape kids(1) F'(2)])
  assume own: "is_owned mid w"
  have "map_node h1 mid = Some n"
    by (rule map_node_agree [OF h1(1) node]) (use G own in \<open>auto simp: is_owned_iff\<close>)
  moreover have "index mid \<notin> G'" "index mid \<in> F"
    using kids(2) G(2) own F map_node_local_bound [OF node] by (auto simp: is_owned_iff)
  ultimately show "\<exists>h'. local_slot_set h1 mid n' = Some h' \<and> post w h F b h' mid t'"
    using finish_set(2) [OF F'(1) _ _ own _ _ shape kids(1) F'(2)] h1(2) by simp
qed

lemma same_node:
  assumes "map_node h mid = Some n" "G \<subseteq> ownset w" "is_owned mid w \<longrightarrow> index mid \<notin> G" "agree G h h1"
  shows "map_node h1 mid = Some n" and "is_owned mid w \<Longrightarrow> local_slot h1 mid = Some n"
proof -
  show *: "map_node h1 mid = Some n"
    by (rule map_node_agree [OF assms(4,1)]) (use assms in \<open>auto simp: is_owned_iff\<close>)
  show "is_owned mid w \<Longrightarrow> local_slot h1 mid = Some n"
    using map_node_local_bound [OF *] by (auto simp: is_owned_iff local_slot_def vec_get_def)
qed

section \<open>Collision leaves\<close>

lemma champ_assoc_collision:
  assumes "reprF w h mid (Collision es) F" "room w h (Suc b)"
  shows "\<exists>h' mid'. champ_assoc eq hv h mid k v hash d w = Some (h', mid') \<and>
    post w h F (Suc b) h' mid' (Collision (c_put eq es k v))"
proof -
  from reprF_root [OF assms(1)] obtain n G where n: "map_node h mid = Some n" "shape n (Collision es)"
    "reprsF w h (children n) (snd (direct (Collision es))) G" "is_owned mid w \<longrightarrow> index mid \<notin> G"
    "F = (if is_owned mid w then insert (index mid) G else G)" "G \<subseteq> ownset w"
    by blast
  have lt: "length (local_maps h) < length (local_maps h) + Suc b" by simp
  have G: "G = {}" using n(2,3) by auto
  note rw = rewrite_node [OF n(1,5,6,4) agree_refl lt assms(2), where G' = "{}"]
  note slot = same_node(2) [OF n(1,6,4) agree_refl]
  show ?thesis
  proof (cases "position (\<lambda>e. eq (fst e) k) es")
    case None
    with n slot show ?thesis
      using rw [of "n\<lparr>data := es @ [(k, v)], nsize := nsize n + 1\<rparr>" "Collision (c_put eq es k v)"]
        rw(2) [of "\<lparr>nsize = nsize n + 1, data_map = 0, node_map = 0, is_collision = True,
          data = es @ [(k, v)], children = []\<rparr>" "Collision (c_put eq es k v)"]
      by (subst champ_assoc.simps) (auto simp: c_put_def)
  next
    case (Some i)
    with n slot position_Some [OF Some] show ?thesis
      using rw [of "n\<lparr>data := es[i := (fst (es ! i), v)]\<rparr>" "Collision (c_put eq es k v)"]
        rw(2) [of "\<lparr>nsize = nsize n, data_map = 0, node_map = 0, is_collision = True,
          data = es[i := (fst (es ! i), v)], children = []\<rparr>" "Collision (c_put eq es k v)"]
      by (subst champ_assoc.simps) (auto simp: c_put_def vec_get_def vec_set_def split: prod.splits)
  qed
qed

section \<open>Branch nodes\<close>

text \<open>One lemma per kind of cell in the slot the hash selects.\<close>

lemma champ_assoc_empty:
  assumes "reprF w h mid (Branch cs) F" "room w h (Suc b)" "d < MAXD" "cs ! slot hash d = Empty"
  shows "\<exists>h' mid'. champ_assoc eq hv h mid k v hash d w = Some (h', mid') \<and>
    post w h F (Suc b) h' mid' (Branch (cs[slot hash d := Entry k v]))"
proof -
  from reprF_root [OF assms(1)] obtain n G where n: "map_node h mid = Some n" "shape n (Branch cs)"
    "reprsF w h (children n) (pack cell_child cs) G" "is_owned mid w \<longrightarrow> index mid \<notin> G"
    "F = (if is_owned mid w then insert (index mid) G else G)" "G \<subseteq> ownset w"
    by auto
  have lt: "length (local_maps h) < length (local_maps h) + Suc b" by simp
  note rw = rewrite_node [OF n(1,5,6,4) agree_refl lt assms(2), where G' = G]
  note slot = same_node(2) [OF n(1,6,4) agree_refl]
  note sh = shape_insert_entry [OF n(2) slot_less assms(4), where k = k and v = v]
  let ?nd = "pack cell_entry (cs[slot hash d := Entry k v])" and ?dm = "data_map n OR slot_mask (slot hash d)"
  have nc: "\<not> is_collision n" using n(2) by simp
  have bits: "data_map n AND slot_mask (slot hash d) = 0" "node_map n AND slot_mask (slot hash d) = 0"
    using no_entry_at [OF n(2) slot_less, of hash d] child_bit [OF n(2) slot_less, of hash d] assms(4) by auto
  have a: "\<exists>h' mid'. alloc_map_node h \<lparr>nsize = nsize n + 1, data_map = ?dm, node_map = node_map n,
      is_collision = False, data = ?nd, children = children n\<rparr> = Some (h', mid') \<and>
      post w h F (Suc b) h' mid' (Branch (cs[slot hash d := Entry k v]))"
    by (rule rw(2)) (use n(3) in \<open>simp_all add: sh(2) sh(3) del: shape.simps\<close>)
  have b: "is_owned mid w \<Longrightarrow> \<exists>h'. local_slot_set h mid (n\<lparr>data := ?nd, data_map := ?dm, nsize := nsize n + 1\<rparr>) = Some h' \<and>
      post w h F (Suc b) h' mid (Branch (cs[slot hash d := Entry k v]))"
    by (rule rw(1)) (use n(3) nc in \<open>simp_all add: sh(2) sh(3) del: shape.simps\<close>)
  show ?thesis
    using n(1) nc bits a b slot sh(1) assms(3)
    by (subst champ_assoc.simps, cases "is_owned mid w") (auto simp: slot_at_slot Let_def)
qed

lemma champ_assoc_replace:
  assumes "reprF w h mid (Branch cs) F" "room w h (Suc b)" "d < MAXD" "cs ! slot hash d = Entry k0 v0" "eq k0 k"
  shows "\<exists>h' mid'. champ_assoc eq hv h mid k v hash d w = Some (h', mid') \<and>
    post w h F (Suc b) h' mid' (Branch (cs[slot hash d := Entry k0 v]))"
proof -
  from reprF_root [OF assms(1)] obtain n G where n: "map_node h mid = Some n" "shape n (Branch cs)"
    "reprsF w h (children n) (pack cell_child cs) G" "is_owned mid w \<longrightarrow> index mid \<notin> G"
    "F = (if is_owned mid w then insert (index mid) G else G)" "G \<subseteq> ownset w"
    by auto
  have lt: "length (local_maps h) < length (local_maps h) + Suc b" by simp
  note rw = rewrite_node [OF n(1,5,6,4) agree_refl lt assms(2), where G' = G]
  note slot = same_node(2) [OF n(1,6,4) agree_refl]
  note sh = shape_replace_entry [OF n(2) slot_less assms(4), where k = k0 and v = v]
  let ?nd = "pack cell_entry (cs[slot hash d := Entry k0 v])"
  have nc: "\<not> is_collision n" using n(2) by simp
  note e = entry_at [OF n(2) slot_less assms(4)]
  have a: "\<exists>h' mid'. alloc_map_node h \<lparr>nsize = nsize n, data_map = data_map n, node_map = node_map n,
      is_collision = False, data = ?nd, children = children n\<rparr> = Some (h', mid') \<and>
      post w h F (Suc b) h' mid' (Branch (cs[slot hash d := Entry k0 v]))"
    by (rule rw(2)) (use n(3) in \<open>simp_all add: sh(2) sh(3) del: shape.simps\<close>)
  have b: "is_owned mid w \<Longrightarrow> \<exists>h'. local_slot_set h mid (n\<lparr>data := ?nd\<rparr>) = Some h' \<and>
      post w h F (Suc b) h' mid (Branch (cs[slot hash d := Entry k0 v]))"
    by (rule rw(1)) (use n(3) nc in \<open>simp_all add: sh(2) sh(3) del: shape.simps\<close>)
  show ?thesis
    using n(1) nc e a b slot sh(1) assms(3,5)
    by (subst champ_assoc.simps, cases "is_owned mid w") (auto simp: slot_at_slot Let_def)
qed

text \<open>The position of a new child counts the children before the slot.\<close>

lemma rank_new_child:
  assumes "shape n (Branch cs)" "s < 16"
  shows "rank (node_map n OR slot_mask s) s = length (pack cell_child (take s cs))"
  using assms by (simp add: rank_set rank_pack)

lemma champ_assoc_split:
  assumes "reprF w h mid (Branch cs) F" "room w h (Suc (17 - Suc d))" "d < MAXD"
    and "cs ! slot hash d = Entry k0 v0" "\<not> eq k0 k"
  shows "\<exists>h' mid'. champ_assoc eq hv h mid k v hash d w = Some (h', mid') \<and>
    post w h F (Suc (17 - Suc d)) h' mid'
      (Branch (cs[slot hash d := Child (t_split (k0, v0) (hv k0) (k, v) hash (Suc d))]))"
proof -
  from reprF_root [OF assms(1)] obtain n G where n: "map_node h mid = Some n" "shape n (Branch cs)"
    "reprsF w h (children n) (pack cell_child cs) G" "is_owned mid w \<longrightarrow> index mid \<notin> G"
    "F = (if is_owned mid w then insert (index mid) G else G)" "G \<subseteq> ownset w"
    by auto
  let ?s = "slot hash d" and ?t = "t_split (k0, v0) (hv k0) (k, v) hash (Suc d)"
  have "room w h (17 - Suc d)" using assms(2) by (auto simp: room_def)
  from champ_split_refines [OF this] assms(3) obtain h1 c where
    sp: "champ_split h k0 v0 (hv k0) k v hash (Suc d) = Some (h1, c)" "post w h {} (17 - Suc d) h1 c ?t"
    by (metis Suc_leI)
  then obtain F1 where c: "reprF w h1 c ?t F1" "F1 \<subseteq> {length (local_maps h)..<length (local_maps h1)}"
    "agree {} h h1" "length (local_maps h1) \<le> length (local_maps h) + (17 - Suc d)"
    by (auto simp: post_def)
  have ag: "agree G h h1" by (rule agree_mono [OF c(3)]) simp
  have lt: "length (local_maps h1) < length (local_maps h) + Suc (17 - Suc d)" using c(4) by simp
  have dis: "F1 \<inter> G = {}" using reprF_footprint(2) [OF n(3)] c(2) by fastforce
  have kids1: "reprsF w h1 (children n) (pack cell_child cs) G"
    by (rule reprF_agree(2) [OF n(3) c(3)]) auto
  have len: "length cs = 16" and nc: "\<not> is_collision n" using n(2) by auto
  obtain mids where mids: "vec_insert (children n) (rank (node_map n OR slot_mask ?s) ?s) c = Some mids"
    "reprsF w h1 mids (pack cell_child (cs[?s := Child ?t])) (F1 \<union> G)"
    using child_in_slot [OF kids1 len slot_less _ c(1) dis rank_new_child [OF n(2) slot_less], of hash d] assms(4) by auto
  have sub: "F1 \<union> G \<subseteq> G \<union> {length (local_maps h)..<length (local_maps h1)}" using c(2) by auto
  note rw = rewrite_node [OF n(1,5,6,4) ag lt assms(2), where G' = "F1 \<union> G"]
  note same = same_node [OF n(1,6,4) ag]
  note sh = shape_remove_entry [OF n(2) slot_less assms(4), where c = "Child ?t"]
  note e = entry_at [OF n(2) slot_less assms(4)]
  let ?nd = "pack cell_entry (cs[?s := Child ?t])"
  have a: "\<exists>h' mid'. alloc_map_node h1 \<lparr>nsize = nsize n + 1, data_map = data_map n XOR slot_mask ?s,
      node_map = node_map n OR slot_mask ?s, is_collision = False, data = ?nd, children = mids\<rparr> = Some (h', mid') \<and>
      post w h F (Suc (17 - Suc d)) h' mid' (Branch (cs[?s := Child ?t]))"
    by (rule rw(2)) (use mids(2) sub in \<open>simp_all add: sh(4) count_t_split del: shape.simps\<close>)
  have b: "is_owned mid w \<Longrightarrow> \<exists>h'. local_slot_set h1 mid (n\<lparr>data := ?nd, children := mids,
      data_map := data_map n XOR slot_mask ?s, node_map := node_map n OR slot_mask ?s, nsize := nsize n + 1\<rparr>) = Some h' \<and>
      post w h F (Suc (17 - Suc d)) h' mid (Branch (cs[?s := Child ?t]))"
    by (rule rw(1)) (use mids(2) sub nc in \<open>simp_all add: sh(4) count_t_split del: shape.simps\<close>)
  show ?thesis
    using n(1) nc e a b same sh(1) assms(3,5) sp(1) mids(1)
    by (subst champ_assoc.simps, cases "is_owned mid w") (auto simp: slot_at_slot Let_def)
qed

lemma shape_size: "shape n t \<Longrightarrow> nsize n = of_nat (count t)"
  by (cases t) auto

text \<open>
  A child was rewritten: the siblings stay represented, and the node with the new handle in the
  child's position has the shape of the updated branch.
\<close>

lemma replace_child:
  assumes n: "shape n (Branch cs)" "reprsF w h (children n) (pack cell_child cs) G" "s < 16" "cs ! s = Child t0"
    and c: "vec_get (children n) (rank (node_map n) s) = Some c" "reprF w h c t0 Fj" "G = Fj \<union> G0" "Fj \<inter> G0 = {}"
      "vec_remove (children n) (rank (node_map n) s) = Some rest" "reprsF w h rest (pack cell_child (cs[s := Empty])) G0"
      "\<forall>c'. vec_set (children n) (rank (node_map n) s) c' = vec_insert rest (rank (node_map n) s) c'"
    and p: "post w h Fj b h1 c' t"
  shows "\<exists>mids F'. vec_set (children n) (rank (node_map n) s) c' = Some mids \<and>
    reprsF w h1 mids (pack cell_child (cs[s := Child t])) F' \<and>
    F' \<subseteq> G \<union> {length (local_maps h)..<length (local_maps h1)}"
proof -
  from p obtain F1 where F1: "reprF w h1 c' t F1"
    "F1 \<subseteq> Fj \<union> {length (local_maps h)..<length (local_maps h1)}" "agree Fj h h1"
    by (auto simp: post_def)
  have fp: "Fj \<subseteq> ownset w" "G0 \<subseteq> {..<length (local_maps h)}"
    using reprF_footprint(1) [OF c(2)] reprF_footprint(2) [OF c(6)] by auto
  have kids1: "reprsF w h1 rest (pack cell_child (cs[s := Empty])) G0"
    by (rule reprF_agree(2) [OF c(6) F1(3) fp(1) c(4)])
  have dis: "F1 \<inter> G0 = {}" using F1(2) fp(2) c(4) by fastforce
  have pos: "rank (node_map n) s = length (pack cell_child (take s (cs[s := Empty])))"
    using n by (simp add: rank_pack)
  have len: "length (cs[s := Empty]) = 16" "cell_child (cs[s := Empty] ! s) = None" using n by auto
  from child_in_slot [OF kids1 len(1) n(3) len(2) F1(1) dis pos] c(7) obtain mids where
    "vec_set (children n) (rank (node_map n) s) c' = Some mids"
    "reprsF w h1 mids (pack cell_child (cs[s := Child t])) (F1 \<union> G0)"
    by auto
  moreover have "F1 \<union> G0 \<subseteq> G \<union> {length (local_maps h)..<length (local_maps h1)}" using F1(2) c(3) by auto
  ultimately show ?thesis by blast
qed

lemma champ_assoc_child:
  assumes "reprF w h mid (Branch cs) F" "room w h (Suc b)" "d < MAXD" "cs ! slot hash d = Child t0"
    and IH: "\<And>c Fj. reprF w h c t0 Fj \<Longrightarrow>
      \<exists>h1 c'. champ_assoc eq hv h c k v hash (Suc d) w = Some (h1, c') \<and> post w h Fj b h1 c' t"
  shows "\<exists>h' mid'. champ_assoc eq hv h mid k v hash d w = Some (h', mid') \<and>
    post w h F (Suc b) h' mid' (Branch (cs[slot hash d := Child t]))"
proof -
  from reprF_root [OF assms(1)] obtain n G where n: "map_node h mid = Some n" "shape n (Branch cs)"
    "reprsF w h (children n) (pack cell_child cs) G" "is_owned mid w \<longrightarrow> index mid \<notin> G"
    "F = (if is_owned mid w then insert (index mid) G else G)" "G \<subseteq> ownset w"
    by auto
  let ?s = "slot hash d"
  from child_out [OF n(2,3) slot_less assms(4) refl] obtain c rest Fj G0 where
    c: "vec_get (children n) (rank (node_map n) ?s) = Some c" "reprF w h c t0 Fj" "G = Fj \<union> G0" "Fj \<inter> G0 = {}"
      "vec_remove (children n) (rank (node_map n) ?s) = Some rest" "reprsF w h rest (pack cell_child (cs[?s := Empty])) G0"
      "\<forall>c'. vec_set (children n) (rank (node_map n) ?s) c' = vec_insert rest (rank (node_map n) ?s) c'"
    by blast
  from IH [OF c(2)] obtain h1 c' where r: "champ_assoc eq hv h c k v hash (Suc d) w = Some (h1, c')"
    "post w h Fj b h1 c' t" by blast
  from replace_child [OF n(2,3) slot_less assms(4) c r(2)] obtain mids F' where
    mids: "vec_set (children n) (rank (node_map n) ?s) c' = Some mids"
      "reprsF w h1 mids (pack cell_child (cs[?s := Child t])) F'"
      "F' \<subseteq> G \<union> {length (local_maps h)..<length (local_maps h1)}"
    by blast
  obtain oldn newn where old: "map_node h c = Some oldn" "nsize oldn = of_nat (count t0)"
    and new: "map_node h1 c' = Some newn" "nsize newn = of_nat (count t)"
    using reprF_root [OF c(2)] r(2) by (auto simp: post_def shape_size dest!: reprF_root)
  have ag: "agree G h h1" and lt: "length (local_maps h1) < length (local_maps h) + Suc b"
    using r(2) c(3) by (auto simp: post_def intro: agree_mono)
  note rw = rewrite_node [OF n(1,5,6,4) ag lt assms(2), where G' = F']
  note same = same_node [OF n(1,6,4) ag]
  note sh = shape_replace_child [OF n(2) slot_less assms(4), where t = t]
  have bits: "data_map n AND slot_mask ?s = 0" "node_map n AND slot_mask ?s \<noteq> 0"
    using no_entry_at [OF n(2) slot_less, of hash d] child_bit [OF n(2) slot_less, of hash d] assms(4) by auto
  have nc: "\<not> is_collision n" using n(2) by simp
  let ?sz = "nsize n + nsize newn - nsize oldn"
  have a: "\<exists>h' mid'. alloc_map_node h1 \<lparr>nsize = ?sz, data_map = data_map n, node_map = node_map n,
      is_collision = False, data = data n, children = mids\<rparr> = Some (h', mid') \<and>
      post w h F (Suc b) h' mid' (Branch (cs[?s := Child t]))"
    by (rule rw(2)) (use mids in \<open>simp_all add: sh(2) old new del: shape.simps\<close>)
  have b: "is_owned mid w \<Longrightarrow> \<exists>h'. local_slot_set h1 mid (n\<lparr>children := mids, nsize := ?sz\<rparr>) = Some h' \<and>
      post w h F (Suc b) h' mid (Branch (cs[?s := Child t]))"
    by (rule rw(1)) (use mids nc in \<open>simp_all add: sh(2) old new del: shape.simps\<close>)
  show ?thesis
    using n(1) nc bits a b same assms(3) c(1) r(1) old(1) new(1) mids(1)
    by (subst champ_assoc.simps, cases "is_owned mid w") (auto simp: slot_at_slot Let_def)
qed

theorem champ_assoc_refines:
  assumes "reprF w h mid t F" "twf eq hv d t" "room w h (17 - d)"
  shows "\<exists>h' mid'. champ_assoc eq hv h mid k v hash d w = Some (h', mid') \<and>
    post w h F (17 - d) h' mid' (t_assoc eq hv t k v hash d)"
  using assms
proof (induction t arbitrary: d mid F rule: trie_induct)
  case (Collision es)
  then show ?case using champ_assoc_collision [of w h mid es F 0] by simp
next
  case (Branch cs)
  then have d: "d < MAXD" by (simp add: twf_Branch)
  then have b: "17 - d = Suc (17 - Suc d)" by simp
  note pre = Branch.prems(1) Branch.prems(3) [unfolded b] d
  show ?case
  proof (cases "cs ! slot hash d")
    case Empty
    with champ_assoc_empty [OF pre Empty] d show ?thesis by (simp add: b)
  next
    case (Entry k0 v0)
    with champ_assoc_replace [OF pre Entry] champ_assoc_split [OF pre Entry] d show ?thesis
      by (cases "eq k0 k") (simp_all add: b)
  next
    case (Child t)
    then have "twf eq hv (Suc d) t" "Child t \<in> set cs"
      using Branch.prems(2) by (metis cell_ok_simps(3) slot_less twf_Branch, metis nth_mem slot_less twf_Branch Branch.prems(2))
    moreover have "room w h (17 - Suc d)" using Branch.prems(3) by (auto simp: room_def)
    ultimately show ?thesis
      using champ_assoc_child [OF pre Child Branch.IH] Child d by (simp add: b)
  qed
qed

end
