(* ===== verification/Champ_Dissoc.thy ===== *)
theory Champ_Dissoc
  imports Champ_Assoc
begin

text \<open>
  \<open>champ_dissoc\<close> refines the abstract removal. The code never writes an existing node: it clones the
  path, so the footprint is empty and every other map is untouched. Whether a child lost an entry is
  decided by comparing two wrapping 32-bit sizes, which is exact because the sizes differ by at most
  one.
\<close>

lemma post_alloc:
  assumes "agree {} h h1" "length (local_maps h1) < length (local_maps h) + b" "room None h b"
    and "shape n t" "reprsF None h1 (children n) (snd (direct t)) {}"
  shows "\<exists>h' mid. alloc_map_node h1 n = Some (h', mid) \<and> post None h {} b h' mid t"
  by (rule finish_alloc [OF assms]) simp

lemma repr_root:
  assumes "reprF None h mid t {}"
  shows "\<exists>n. map_node h mid = Some n \<and> shape n t \<and> reprsF None h (children n) (snd (direct t)) {}"
  using reprF_root [OF assms] by (auto simp: is_owned_iff)

lemma reprF_None: "reprF None h mid t F \<Longrightarrow> F = {}"
  using reprF_footprint(1) [of None] by auto

lemma shape_direct: "shape n t \<Longrightarrow> reprsF w h (children n) (snd (direct t)) G \<Longrightarrow>
  data n = fst (direct t) \<and> length (children n) = length (snd (direct t))"
  by (cases t) (auto dest: reprsF_length)

lemma clone_post:
  assumes "reprF None h mid t {}" "agree {} h h1" "length (local_maps h1) < length (local_maps h) + b" "room None h b"
  shows "\<exists>h' mid'. clone_map_node h1 mid = Some (h', mid') \<and> post None h {} b h' mid' t"
proof -
  from repr_root [OF assms(1)] obtain n where n: "map_node h mid = Some n" "shape n t"
    "reprsF None h (children n) (snd (direct t)) {}" by blast
  have "map_node h1 mid = Some n" by (rule map_node_agree [OF assms(2) n(1)]) simp
  moreover have "reprsF None h1 (children n) (snd (direct t)) {}"
    by (rule reprF_agree(2) [OF n(3) assms(2)]) auto
  ultimately show ?thesis
    using post_alloc [OF assms(2-4) n(2)] by (cases n) (simp add: clone_map_node_def)
qed

section \<open>One level\<close>

lemma champ_dissoc_collision:
  assumes "reprF None h mid (Collision es) {}" "room None h (Suc b)"
  shows "\<exists>h' mid'. champ_dissoc eq h mid k hash d = Some (h', mid') \<and>
    post None h {} (Suc b) h' mid' (Collision (c_del eq es k))"
proof -
  from repr_root [OF assms(1)] obtain n where n: "map_node h mid = Some n" "shape n (Collision es)" by blast
  have lt: "length (local_maps h) < length (local_maps h) + Suc b" by simp
  show ?thesis
  proof (cases "position (\<lambda>e. eq (fst e) k) es")
    case None
    with n clone_post [OF assms(1) agree_refl lt assms(2)] show ?thesis
      by (subst champ_dissoc.simps) (simp add: c_del_def)
  next
    case (Some i)
    then have i: "i < length es" by (simp add: position_Some)
    have "\<exists>h' mid'. alloc_map_node h \<lparr>nsize = nsize n - 1, data_map = 0, node_map = 0, is_collision = True,
        data = take i es @ drop (Suc i) es, children = []\<rparr> = Some (h', mid') \<and>
        post None h {} (Suc b) h' mid' (Collision (take i es @ drop (Suc i) es))"
      using i n(2) by (intro post_alloc [OF agree_refl lt assms(2)]) (auto simp: of_nat_diff)
    with n Some i show ?thesis
      by (subst champ_dissoc.simps) (simp add: c_del_def vec_remove_def)
  qed
qed

lemma champ_dissoc_absent:
  assumes "reprF None h mid (Branch cs) {}" "room None h (Suc b)" "d < MAXD"
    and "cs ! slot hash d = Empty \<or> (\<exists>k0 v0. cs ! slot hash d = Entry k0 v0 \<and> \<not> eq k0 k)"
  shows "\<exists>h' mid'. champ_dissoc eq h mid k hash d = Some (h', mid') \<and>
    post None h {} (Suc b) h' mid' (Branch cs)"
proof -
  from repr_root [OF assms(1)] obtain n where n: "map_node h mid = Some n" "shape n (Branch cs)" by blast
  have lt: "length (local_maps h) < length (local_maps h) + Suc b" by simp
  have nc: "\<not> is_collision n" using n(2) by simp
  note clone = clone_post [OF assms(1) agree_refl lt assms(2)]
  from assms(4) show ?thesis
  proof
    assume "cs ! slot hash d = Empty"
    with n(1) nc clone assms(3) show ?thesis
      using no_entry_at [OF n(2) slot_less, of hash d] child_bit [OF n(2) slot_less, of hash d]
      by (subst champ_dissoc.simps) (simp add: slot_at_slot)
  next
    assume "\<exists>k0 v0. cs ! slot hash d = Entry k0 v0 \<and> \<not> eq k0 k"
    then obtain k0 v0 where e: "cs ! slot hash d = Entry k0 v0" "\<not> eq k0 k" by blast
    with n(1) nc clone assms(3) entry_at [OF n(2) slot_less e(1)] show ?thesis
      by (subst champ_dissoc.simps) (simp add: slot_at_slot)
  qed
qed

lemma champ_dissoc_entry:
  assumes "reprF None h mid (Branch cs) {}" "room None h (Suc b)" "d < MAXD" "cs ! slot hash d = Entry k0 v0" "eq k0 k"
  shows "\<exists>h' mid'. champ_dissoc eq h mid k hash d = Some (h', mid') \<and>
    post None h {} (Suc b) h' mid' (Branch (cs[slot hash d := Empty]))"
proof -
  from repr_root [OF assms(1)] obtain n where n: "map_node h mid = Some n" "shape n (Branch cs)"
    "reprsF None h (children n) (pack cell_child cs) {}" by auto
  have lt: "length (local_maps h) < length (local_maps h) + Suc b" by simp
  have nc: "\<not> is_collision n" using n(2) by simp
  note sh = shape_remove_entry [OF n(2) slot_less assms(4), where c = Empty]
  have "\<exists>h' mid'. alloc_map_node h \<lparr>nsize = nsize n - 1, data_map = data_map n XOR slot_mask (slot hash d),
      node_map = node_map n, is_collision = False, data = pack cell_entry (cs[slot hash d := Empty]),
      children = children n\<rparr> = Some (h', mid') \<and> post None h {} (Suc b) h' mid' (Branch (cs[slot hash d := Empty]))"
    by (rule post_alloc [OF agree_refl lt assms(2)]) (use n(3) in \<open>simp_all add: sh(2) sh(3) del: shape.simps\<close>)
  with n(1) nc assms(3,5) entry_at [OF n(2) slot_less assms(4)] sh(1) show ?thesis
    by (subst champ_dissoc.simps) (simp add: slot_at_slot)
qed

lemma dissoc_rewrite:
  assumes n: "shape n (Branch cs)" "s < 16" "cs ! s = Child t0" "count t0 = Suc (count t)"
    and rest: "reprsF None h1 rest (pack cell_child (cs[s := Empty])) {}"
    and ag: "agree {} h h1" "length (local_maps h1) < length (local_maps h) + b" "room None h b"
  shows "direct t = ([(kk, vv)], []) \<Longrightarrow>
      \<exists>h' mid'. alloc_map_node h1 \<lparr>nsize = nsize n - 1, data_map = data_map n OR slot_mask s,
        node_map = node_map n XOR slot_mask s, is_collision = False,
        data = pack cell_entry (cs[s := Entry kk vv]), children = rest\<rparr> = Some (h', mid') \<and>
        post None h {} b h' mid' (Branch (cs[s := Entry kk vv]))"
    and "direct t = ([], []) \<Longrightarrow>
      \<exists>h' mid'. alloc_map_node h1 \<lparr>nsize = nsize n - 1, data_map = data_map n,
        node_map = node_map n XOR slot_mask s, is_collision = False, data = data n, children = rest\<rparr> = Some (h', mid') \<and>
        post None h {} b h' mid' (Branch (cs[s := Empty]))"
    and "reprsF None h1 mids (pack cell_child (cs[s := Child t])) {} \<Longrightarrow>
      \<exists>h' mid'. alloc_map_node h1 \<lparr>nsize = nsize n - of_nat (count t0) + of_nat (count t), data_map = data_map n,
        node_map = node_map n, is_collision = False, data = data n, children = mids\<rparr> = Some (h', mid') \<and>
        post None h {} b h' mid' (Branch (cs[s := Child t]))"
proof -
  note alloc = post_alloc [OF ag]
  have len: "length cs = 16" using n(1) by simp
  have same: "pack cell_child (cs[s := Entry kk vv]) = pack cell_child (cs[s := Empty])"
    using n(2) len by (simp add: pack_update_split)
  {
    assume dir: "direct t = ([(kk, vv)], [])"
    then have "count t0 = 2" using count_direct [OF dir] n(4) by simp
    then show "\<exists>h' mid'. alloc_map_node h1 \<lparr>nsize = nsize n - 1, data_map = data_map n OR slot_mask s,
        node_map = node_map n XOR slot_mask s, is_collision = False,
        data = pack cell_entry (cs[s := Entry kk vv]), children = rest\<rparr> = Some (h', mid') \<and>
        post None h {} b h' mid' (Branch (cs[s := Entry kk vv]))"
      by (intro alloc shape_remove_child(4) [OF n(1-3)]) (use rest same in simp_all)
  next
    assume dir: "direct t = ([], [])"
    then have "count t0 = 1" using count_direct [OF dir] n(4) by simp
    then show "\<exists>h' mid'. alloc_map_node h1 \<lparr>nsize = nsize n - 1, data_map = data_map n,
        node_map = node_map n XOR slot_mask s, is_collision = False, data = data n, children = rest\<rparr> = Some (h', mid') \<and>
        post None h {} b h' mid' (Branch (cs[s := Empty]))"
      by (intro alloc shape_remove_child(2) [OF n(1-3)]) (use rest in simp_all)
  next
    assume "reprsF None h1 mids (pack cell_child (cs[s := Child t])) {}"
    then show "\<exists>h' mid'. alloc_map_node h1 \<lparr>nsize = nsize n - of_nat (count t0) + of_nat (count t), data_map = data_map n,
        node_map = node_map n, is_collision = False, data = data n, children = mids\<rparr> = Some (h', mid') \<and>
        post None h {} b h' mid' (Branch (cs[s := Child t]))"
      by (intro alloc shape_replace_child(2) [OF n(1-3)]) simp_all
  }
qed

text \<open>
  The child case, given what the recursive call did: \<open>t\<close> is \<open>t0\<close> with at most one entry less, and
  the branch keeps the child, its last entry, or nothing.
\<close>

lemma champ_dissoc_child:
  assumes "reprF None h mid (Branch cs) {}" "room None h (Suc b)" "d < MAXD" "cs ! slot hash d = Child t0"
    and t: "count t = count t0 \<or> Suc (count t) = count t0"
    and IH: "\<And>c. reprF None h c t0 {} \<Longrightarrow>
      \<exists>h1 c'. champ_dissoc eq h c k hash (Suc d) = Some (h1, c') \<and> post None h {} b h1 c' t"
  shows "\<exists>h' mid'. champ_dissoc eq h mid k hash d = Some (h', mid') \<and>
    post None h {} (Suc b) h' mid' (if count t = count t0 then Branch cs else Branch (cs[slot hash d := shrink t]))"
proof -
  from repr_root [OF assms(1)] obtain n where n: "map_node h mid = Some n" "shape n (Branch cs)"
    "reprsF None h (children n) (pack cell_child cs) {}" by auto
  let ?s = "slot hash d"
  from child_out [OF n(2,3) slot_less assms(4) refl] obtain c rest where
    c: "vec_get (children n) (rank (node_map n) ?s) = Some c" "reprF None h c t0 {}" "{} = {} \<union> ({} :: nat set)"
      "({} :: nat set) \<inter> {} = {}"
      "vec_remove (children n) (rank (node_map n) ?s) = Some rest" "reprsF None h rest (pack cell_child (cs[?s := Empty])) {}"
      "\<forall>c'. vec_set (children n) (rank (node_map n) ?s) c' = vec_insert rest (rank (node_map n) ?s) c'"
    by auto
  from IH [OF c(2)] obtain h1 c' where r: "champ_dissoc eq h c k hash (Suc d) = Some (h1, c')"
    "post None h {} b h1 c' t" by blast
  have ag: "agree {} h h1" and lt: "length (local_maps h1) < length (local_maps h) + Suc b"
    and rc': "reprF None h1 c' t {}"
    using r(2) by (auto simp: post_def dest: reprF_None)
  have node1: "map_node h1 mid = Some n" by (rule map_node_agree [OF ag n(1)]) simp
  obtain oldn where old: "map_node h c = Some oldn" "nsize oldn = of_nat (count t0)"
    using repr_root [OF c(2)] shape_size by blast
  obtain newn where new: "map_node h1 c' = Some newn" "nsize newn = of_nat (count t)"
      "data newn = fst (direct t)" "length (children newn) = length (snd (direct t))"
    using repr_root [OF rc'] shape_direct shape_size by blast
  have nc: "\<not> is_collision n" using n(2) by simp
  have bits: "data_map n AND slot_mask ?s = 0" "node_map n AND slot_mask ?s \<noteq> 0"
    using no_entry_at [OF n(2) slot_less, of hash d] child_bit [OF n(2) slot_less, of hash d] assms(4) by auto
  note step = n(1) nc bits assms(3) c(1) r(1) old(1) new(1) node1
  note alloc = post_alloc [OF ag lt assms(2)]
  have rest1: "reprsF None h1 rest (pack cell_child (cs[?s := Empty])) {}"
    by (rule reprF_agree(2) [OF c(6) ag]) auto
  show ?thesis
  proof (cases "count t = count t0")
    case True
    with step clone_post [OF assms(1) ag lt assms(2)] old(2) new(2) show ?thesis
      by (subst champ_dissoc.simps) (simp add: slot_at_slot)
  next
    case False
    then have cnt: "count t0 = Suc (count t)" using t by simp
    then have ne: "nsize newn \<noteq> nsize oldn" by (simp add: old new)
    note rw = dissoc_rewrite [OF n(2) slot_less assms(4) cnt rest1 ag lt assms(2)]
    note ins = shape_remove_child(3) [OF n(2) slot_less assms(4), of "n\<lparr>node_map := node_map n XOR slot_mask ?s\<rparr>"]
    show ?thesis
    proof (cases t rule: shrink_cases)
      case (entry kk vv)
      with step ne new(3,4) c(5) rw(1) [of kk vv] ins [of kk vv] False show ?thesis
        by (subst champ_dissoc.simps) (simp add: slot_at_slot is_singleton_def vec_get_def Let_def)
    next
      case none
      with step ne new(3,4) c(5) rw(2) False show ?thesis
        by (subst champ_dissoc.simps) (simp add: slot_at_slot is_singleton_def is_empty_def Let_def)
    next
      case keep
      obtain mids where mids: "vec_set (children n) (rank (node_map n) ?s) c' = Some mids"
        "reprsF None h1 mids (pack cell_child (cs[?s := Child t])) {}"
        using replace_child [OF n(2,3) slot_less assms(4) c r(2)] reprF_footprint(2) by fastforce
      have "\<not> is_singleton newn" "\<not> is_empty newn"
        using keep new(3,4) by (auto simp: is_singleton_def is_empty_def length_Suc_conv prod_eq_iff)
      with step ne rw(3) [OF mids(2)] mids(1) keep(1) False old(2) new(2) show ?thesis
        by (subst champ_dissoc.simps) (simp add: slot_at_slot Let_def)
    qed
  qed
qed

section \<open>The whole path\<close>

lemma length_c_del_cases: "length (c_del eq es k) = length es \<or> Suc (length (c_del eq es k)) = length es"
  by (auto simp: c_del_def split: option.splits dest!: position_Some)

lemma length_shrink: "length (cell_all (shrink t)) = count t"
  by (rule shrink_cases [of t]) (simp_all add: count_direct)

lemma count_t_dissoc:
  "twf eq hv d t \<Longrightarrow> count (t_dissoc eq t k h d) = count t \<or> Suc (count (t_dissoc eq t k h d)) = count t"
proof (induction t arbitrary: d rule: trie_induct)
  case (Collision es)
  then show ?case by (simp add: length_c_del_cases)
next
  case (Branch cs)
  note at = branch_at(1,2) [OF Branch.prems]
  note upd = count_update [of "slot h d" cs]
  show ?case
  proof (cases "cs ! slot h d")
    case (Child t)
    have wf: "twf eq hv (Suc d) t" using branch_at(3) [OF Branch.prems, of h] Child by simp
    let ?t' = "t_dissoc eq t k h (Suc d)"
    from Branch.IH [OF child_in [OF at(2) Child] wf] upd [of "shrink ?t'"] Child at show ?thesis
      by (auto simp: Let_def length_shrink)
  qed (use at upd [of Empty] in auto)
qed

lemma champ_dissoc_refines:
  assumes "reprF None h mid t {}" "twf eq hv d t" "room None h (17 - d)"
  shows "\<exists>h' mid'. champ_dissoc eq h mid k (hv k) d = Some (h', mid') \<and>
    post None h {} (17 - d) h' mid' (t_dissoc eq t k (hv k) d)"
  using assms
proof (induction t arbitrary: d mid rule: trie_induct)
  case (Collision es)
  then show ?case using champ_dissoc_collision [of h mid es 0] by simp
next
  case (Branch cs)
  note at = branch_at(1,2) [OF Branch.prems(2)] branch_at(3) [OF Branch.prems(2), of "hv k"]
  have b: "17 - d = Suc (17 - Suc d)" using at(1) by simp
  note pre = Branch.prems(1) Branch.prems(3) [unfolded b] at(1)
  show ?case
  proof (cases "cs ! slot (hv k) d")
    case Empty
    with champ_dissoc_absent [OF pre] at(1) show ?thesis by (simp add: b)
  next
    case (Entry k0 v0)
    with champ_dissoc_absent [OF pre, of "hv k" eq k] champ_dissoc_entry [OF pre Entry, of eq k] at(1)
    show ?thesis by (cases "eq k0 k") (simp_all add: b)
  next
    case (Child t)
    have wf: "twf eq hv (Suc d) t" using at(3) Child by auto
    have room': "room None h (17 - Suc d)" using Branch.prems(3) by (auto simp: room_def)
    note IH = Branch.IH [OF child_in [OF at(2) Child] _ wf room']
    from champ_dissoc_child [OF pre Child count_t_dissoc [OF wf] IH] Child at(1) show ?thesis
      by (simp add: b Let_def split: if_splits)
  qed
qed

end
