(* ===== verification/Champ_Map.thy ===== *)
theory Champ_Map
  imports Champ_Dissoc
begin

text \<open>
  Reading and building maps: lookups, sizes and walks over the entries read off the trie a handle
  represents, the entries of a well-formed trie have pairwise unequal keys, and the in-place builders
  store their pairs one by one.
\<close>

text \<open>The slabs have 32-bit indices: an operation that may allocate \<open>n\<close> nodes needs that much room.\<close>

definition slab_room :: "nat \<Rightarrow> 'v heap \<Rightarrow> bool" where
  "slab_room n h \<longleftrightarrow> length (local_maps h) + n \<le> 2 ^ 32"

lemma repr_agree: "repr h mid t \<Longrightarrow> agree {} h h' \<Longrightarrow> repr h' mid t"
  unfolding repr_def by (rule reprF_agree(1)) auto

lemma map_get_repr: "repr h mid t \<Longrightarrow> twf eq hv 0 t \<Longrightarrow> map_get eq hv h mid k = Some (t_get eq t k (hv k) 0)"
  unfolding repr_def map_get_def by (rule champ_get_refines)

lemma map_size_repr: "repr h mid t \<Longrightarrow> map_size h mid = Some (count t mod 2 ^ 32)"
  unfolding repr_def by (drule repr_root) (auto simp: map_size_def shape_size unsigned_of_nat take_bit_eq_mod)

section \<open>Traversal\<close>

text \<open>Enough fuel: a well-formed trie at depth \<open>d\<close> has at most \<open>MAX_DEPTH - d\<close> levels below its root.\<close>

lemma entries_direct: "entries t = fst (direct t) @ concat (map entries (snd (direct t)))"
proof (cases t)
  case (Branch cs)
  have "concat (map deep cs) = concat (map entries (pack cell_child cs))"
  proof (induction cs)
    case (Cons c cs)
    then show ?case by (cases c) auto
  qed simp
  with Branch show ?thesis by (simp add: entries.simps(2))
qed simp

lemma twf_direct_child: "twf eq hv d t \<Longrightarrow> t' \<in> set (snd (direct t)) \<Longrightarrow> d < MAXD \<and> twf eq hv (Suc d) t'"
proof (cases t)
  case (Branch cs)
  have mem: "t' \<in> set (pack cell_child cs) \<Longrightarrow> Child t' \<in> set cs" for cs :: "'a cell list"
    by (induction cs) (auto split: option.splits elim!: cell_child.elims)
  assume "twf eq hv d t" "t' \<in> set (snd (direct t))"
  with Branch mem [of cs] show ?thesis by (auto simp: twf_Branch in_set_conv_nth)
qed simp

lemma collect_children_refines:
  assumes "\<And>c t out. t \<in> set ts \<Longrightarrow> reprF None h c t {} \<Longrightarrow> collect_entries_into fuel h c out = Some (out @ entries t)"
    and "reprsF None h mids ts F"
  shows "collect_children fuel h mids out = Some (out @ concat (map entries ts))"
  using assms
proof (induction ts arbitrary: mids out F)
  case (Cons t ts)
  from Cons.prems(2) obtain c mids' F1 F2 where m: "mids = c # mids'" "reprF None h c t F1" "reprsF None h mids' ts F2"
    by (auto simp: reprsF_Cons2)
  then have "collect_entries_into fuel h c out = Some (out @ entries t)"
    using Cons.prems(1) [of t c] reprF_None [OF m(2)] by auto
  moreover have "collect_children fuel h mids' out' = Some (out' @ concat (map entries ts))" for out'
    by (rule Cons.IH [OF Cons.prems(1) m(3)]) simp_all
  ultimately show ?case by (simp add: m(1))
qed simp

lemma collect_entries_refines:
  assumes "reprF None h mid t {}" "twf eq hv d t" "d + fuel = 17"
  shows "collect_entries_into fuel h mid out = Some (out @ entries t)"
  using assms
proof (induction fuel arbitrary: mid t d out)
  case 0
  then show ?case by (cases t) (auto simp: twf_Branch)
next
  case (Suc fuel)
  from repr_root [OF Suc.prems(1)] obtain n where n: "map_node h mid = Some n" "shape n t"
    "reprsF None h (children n) (snd (direct t)) {}" by blast
  have "collect_children fuel h (children n) o' = Some (o' @ concat (map entries (snd (direct t))))" for o'
  proof (rule collect_children_refines [OF _ n(3)])
    fix c t' out assume "t' \<in> set (snd (direct t))" "reprF None h c t' {}"
    with twf_direct_child [OF Suc.prems(2)] Suc.prems(3)
    show "collect_entries_into fuel h c out = Some (out @ entries t')"
      by (intro Suc.IH [of c t' "Suc d"]) auto
  qed
  moreover have "is_collision n \<Longrightarrow> snd (direct t) = []" using n(2) by (cases t) auto
  ultimately show ?case
    using n(1) shape_direct [OF n(2,3)] by (simp add: entries_direct [of t] Let_def)
qed

lemma map_entries_repr: "repr h mid t \<Longrightarrow> twf eq hv 0 t \<Longrightarrow> map_entries h mid = Some (entries t)"
  using collect_entries_refines [of h mid t eq hv 0 17 "[]"]
  by (simp add: repr_def map_entries_def MAX_DEPTH_def BITS_PER_LEVEL_def)

fun first_of :: "'a list \<Rightarrow> 'a option" where
  "first_of [] = None"
| "first_of (x # xs) = Some x"

lemma first_of_append: "first_of (xs @ ys) = (case first_of xs of Some x \<Rightarrow> Some x | None \<Rightarrow> first_of ys)"
  by (cases xs) auto

lemma first_of_children_refines:
  assumes "\<And>c t. t \<in> set ts \<Longrightarrow> reprF None h c t {} \<Longrightarrow> map_first_entry fuel h c = Some (first_of (entries t))"
    and "reprsF None h mids ts F"
  shows "first_of_children fuel h mids = Some (first_of (concat (map entries ts)))"
  using assms
proof (induction ts arbitrary: mids F)
  case (Cons t ts)
  from Cons.prems(2) obtain c mids' F1 F2 where m: "mids = c # mids'" "reprF None h c t F1" "reprsF None h mids' ts F2"
    by (auto simp: reprsF_Cons2)
  then have "map_first_entry fuel h c = Some (first_of (entries t))"
    using Cons.prems(1) [of t c] reprF_None [OF m(2)] by auto
  moreover have "first_of_children fuel h mids' = Some (first_of (concat (map entries ts)))"
    by (rule Cons.IH [OF Cons.prems(1) m(3)]) simp_all
  ultimately show ?case by (simp add: m(1) first_of_append split: option.split)
qed simp

lemma map_first_entry_refines:
  assumes "reprF None h mid t {}" "twf eq hv d t" "d + fuel = 17"
  shows "map_first_entry fuel h mid = Some (first_of (entries t))"
  using assms
proof (induction fuel arbitrary: mid t d)
  case 0
  then show ?case by (cases t) (auto simp: twf_Branch)
next
  case (Suc fuel)
  from repr_root [OF Suc.prems(1)] obtain n where n: "map_node h mid = Some n" "shape n t"
    "reprsF None h (children n) (snd (direct t)) {}" by blast
  have "first_of_children fuel h (children n) = Some (first_of (concat (map entries (snd (direct t)))))"
  proof (rule first_of_children_refines [OF _ n(3)])
    fix c t' assume "t' \<in> set (snd (direct t))" "reprF None h c t' {}"
    with twf_direct_child [OF Suc.prems(2)] Suc.prems(3)
    show "map_first_entry fuel h c = Some (first_of (entries t'))"
      by (intro Suc.IH [of c t' "Suc d"]) auto
  qed
  moreover have "is_collision n \<Longrightarrow> snd (direct t) = []" using n(2) by (cases t) auto
  ultimately show ?case
    using n(1) shape_direct [OF n(2,3)]
    by (auto simp: entries_direct [of t] first_of_append split: list.split)
qed

section \<open>The entries of a trie\<close>

context key_equality
begin

definition occ :: "('v \<times> 'v) list \<Rightarrow> 'v \<Rightarrow> nat" where
  "occ es k = length (filter (\<lambda>e. eq (fst e) k) es)"

lemma occ_simps [simp]:
  "occ [] k = 0" "occ (e # es) k = (if eq (fst e) k then 1 else 0) + occ es k" "occ (es @ es') k = occ es k + occ es' k"
  by (simp_all add: occ_def)

lemma occ_0: "occ es k = 0 \<longleftrightarrow> (\<forall>e \<in> set es. \<not> eq (fst e) k)"
  by (induction es) auto

lemma cdistinct_occ: "cdistinct eq es \<longleftrightarrow> (\<forall>k. occ es k \<le> 1)"
proof (induction es)
  case Nil
  then show ?case by (simp add: cdistinct_def)
next
  case (Cons e es)
  have "(\<forall>x \<in> set es. \<not> eq (fst e) (fst x)) \<longleftrightarrow> (\<forall>k. eq (fst e) k \<longrightarrow> occ es k = 0)"
    unfolding occ_0 using eq_sym eq_trans by blast
  then have "cdistinct eq (e # es) \<longleftrightarrow> (\<forall>k. eq (fst e) k \<longrightarrow> occ es k = 0) \<and> (\<forall>k. occ es k \<le> 1)"
    using Cons.IH by (simp add: cdistinct_def)
  also have "\<dots> \<longleftrightarrow> (\<forall>k. occ (e # es) k \<le> 1)" by auto
  finally show ?case .
qed

lemma occ_Branch: "occ (entries (Branch cs)) k = (\<Sum>c \<leftarrow> cs. occ (cell_all c) k)"
  by (induction cs) (auto simp: entries.simps(2) cell_all_def split: option.splits)

lemma occ_slot:
  assumes "twf eq hv d (Branch cs)"
  shows "occ (entries (Branch cs)) k = occ (cell_all (cs ! slot (hv k) d)) k"
proof -
  let ?s = "slot (hv k) d"
  have len: "length cs = 16" using assms by (simp add: twf_Branch)
  have other: "occ (cell_all (cs ! s)) k = 0" if "s < 16" "s \<noteq> ?s" for s
    using assms that eq_hash by (fastforce simp: occ_0 twf_Branch cell_ok_def)
  have "(\<Sum>c \<leftarrow> cs[?s := Empty]. occ (cell_all c) k) = 0"
    using len other by (auto simp: sum_list_eq_0_iff in_set_conv_nth nth_list_update)
  moreover have "(\<Sum>c \<leftarrow> cs[?s := Empty]. occ (cell_all c) k) + occ (cell_all (cs ! ?s)) k = (\<Sum>c \<leftarrow> cs. occ (cell_all c) k)"
    using sum_list_update_nat [of ?s cs "\<lambda>c. occ (cell_all c) k" Empty] len by (simp only: cell_all_simps occ_simps) simp
  ultimately show ?thesis unfolding occ_Branch by linarith
qed

lemma occ_le_1: "twf eq hv d t \<Longrightarrow> occ (entries t) k \<le> 1"
proof (induction t arbitrary: d rule: trie_induct)
  case (Collision es)
  then show ?case by (simp add: cdistinct_occ)
next
  case (Branch cs)
  note at = branch_at(1,2) [OF Branch.prems] branch_at(3) [OF Branch.prems, of "hv k"]
  show ?case
    using Branch.IH [OF child_in [OF at(2)]] at(3)
    by (cases "cs ! slot (hv k) d") (auto simp: occ_slot [OF Branch.prems])
qed

lemma cdistinct_entries: "twf eq hv d t \<Longrightarrow> cdistinct eq (entries t)"
  using occ_le_1 by (simp add: cdistinct_occ)

lemma cfind_member: "cdistinct eq es \<Longrightarrow> (k', v) \<in> set es \<Longrightarrow> eq k' k \<Longrightarrow> cfind eq es k = Some v"
proof (induction es)
  case (Cons e es)
  then show ?case
    using eq_left [of k' k] eq_right [of k' k] by (auto simp: cdistinct_def cfind_Cons)
qed simp

lemma t_get_entry:
  "twf eq hv d t \<Longrightarrow> (k', v) \<in> set (entries t) \<Longrightarrow> eq k' k \<Longrightarrow> t_get eq t k (hv k) d = Some v"
proof (induction t arbitrary: d rule: trie_induct)
  case (Collision es)
  then show ?case by (simp add: cfind_member)
next
  case (Branch cs)
  note at = branch_at(1,2) [OF Branch.prems(1)] branch_at(3) [OF Branch.prems(1), of "hv k"]
  from Branch.prems(2) obtain c where c: "c \<in> set cs" "(k', v) \<in> set (cell_all c)"
    by (auto simp: set_entries_Branch)
  then obtain s where s: "s < 16" "cs ! s = c" using at(2) by (metis in_set_conv_nth)
  with c Branch.prems(1) have "slot (hv k') d = s" by (auto simp: twf_Branch cell_ok_def)
  with c s have "(k', v) \<in> set (cell_all (cs ! slot (hv k) d))" using eq_hash [OF Branch.prems(3)] by simp
  then show ?case
    using Branch.IH [OF child_in [OF at(2)] _ _ Branch.prems(3)] at(1,3) Branch.prems(3)
    by (cases "cs ! slot (hv k) d") (auto simp: t_get_Branch)
qed

lemma t_get_cfind:
  assumes "twf eq hv d t"
  shows "t_get eq t k (hv k) d = cfind eq (entries t) k"
proof (cases "cfind eq (entries t) k")
  case None
  then have "t_get eq t k (hv k) d = None"
    by (metis cfind_None fst_conv not_Some_eq t_get_in_entries [OF assms])
  with None show ?thesis by simp
next
  case (Some v)
  then show ?thesis using cfind_Some [OF Some] t_get_entry [OF assms] by auto
qed

end

section \<open>Building in place\<close>

definition t_assoc_all :: "('v \<Rightarrow> 'v \<Rightarrow> bool) \<Rightarrow> ('v \<Rightarrow> u64) \<Rightarrow> ('v \<times> 'v) list \<Rightarrow> 'v trie \<Rightarrow> 'v trie" where
  "t_assoc_all eq hv = fold (\<lambda>(k, v) t. t_assoc eq hv t k v (hv k) 0)"

text \<open>The value a key has after the pairs are stored in order: the last equal key wins.\<close>

definition last_assoc :: "('v \<Rightarrow> 'v \<Rightarrow> bool) \<Rightarrow> ('v \<times> 'v) list \<Rightarrow> 'v \<Rightarrow> 'v option \<Rightarrow> 'v option" where
  "last_assoc eq pairs k = fold (\<lambda>(k', v) r. if eq k' k then Some v else r) pairs"

lemma post_trans:
  assumes "agree F h h1" "F1 \<subseteq> F \<union> {length (local_maps h)..<length (local_maps h1)}"
    and "length (local_maps h1) \<le> length (local_maps h) + b1" "post w h1 F1 b2 h2 mid t"
  shows "post w h F (b1 + b2) h2 mid t"
proof -
  obtain F2 where F2: "reprF w h2 mid t F2" "F2 \<subseteq> F1 \<union> {length (local_maps h1)..<length (local_maps h2)}"
    "agree F1 h1 h2" "length (local_maps h2) \<le> length (local_maps h1) + b2"
    using assms(4) by (auto simp: post_def)
  have "agree F h h2" by (rule agree_trans_fresh [OF assms(1) F2(3)]) (use assms(2) in auto)
  moreover have "F2 \<subseteq> F \<union> {length (local_maps h)..<length (local_maps h2)}"
    using F2(2) assms(2) agree_length [OF assms(1)] agree_length [OF F2(3)] by fastforce
  ultimately show ?thesis using F2 assms(3) by (auto simp: post_def)
qed

lemma repr_empty_node: "shape default_node t_empty"
  by (simp add: t_empty_def default_node_def has_bits_def count_Branch sum_list_replicate)

text \<open>
  The builder's loop refines the pairs stored one by one, for any invariant of tries that storing one of
  the pairs keeps.
\<close>

lemma assoc_all_refines:
  assumes wf: "\<And>t. P t \<Longrightarrow> twf eq hv 0 t"
    and step: "\<And>t k v. P t \<Longrightarrow> (k, v) \<in> set pairs \<Longrightarrow> P (t_assoc eq hv t k v (hv k) 0)"
    and "reprF w h mid t F" "P t" "room w h (17 * length pairs)"
  shows "\<exists>h' mid'. assoc_all eq hv h mid w pairs = Some (h', mid') \<and>
    post w h F (17 * length pairs) h' mid' (t_assoc_all eq hv pairs t)"
  using assms(2-)
proof (induction pairs arbitrary: h mid t F)
  case Nil
  then show ?case by (auto simp: post_def t_assoc_all_def)
next
  case (Cons e pairs)
  obtain k v where e: "e = (k, v)" by (cases e)
  have "room w h (17 - 0)" using Cons.prems(4) by (auto simp: room_def)
  from champ_assoc_refines [OF Cons.prems(2) wf [OF Cons.prems(3)] this, of k v "hv k"] obtain h1 mid1 where
    r: "champ_assoc eq hv h mid k v (hv k) 0 w = Some (h1, mid1)" "post w h F 17 h1 mid1 (t_assoc eq hv t k v (hv k) 0)"
    by auto
  then obtain F1 where F1: "reprF w h1 mid1 (t_assoc eq hv t k v (hv k) 0) F1"
    "F1 \<subseteq> F \<union> {length (local_maps h)..<length (local_maps h1)}" "agree F h h1"
    "length (local_maps h1) \<le> length (local_maps h) + 17"
    by (auto simp: post_def)
  have "room w h1 (17 * length pairs)"
    using Cons.prems(4) F1(4) agree_length [OF F1(3)] by (auto simp: room_def)
  moreover have "P (t_assoc eq hv t k v (hv k) 0)" using Cons.prems(1,3) e by simp
  ultimately obtain h2 mid2 where
    "assoc_all eq hv h1 mid1 w pairs = Some (h2, mid2)"
    "post w h1 F1 (17 * length pairs) h2 mid2 (t_assoc_all eq hv pairs (t_assoc eq hv t k v (hv k) 0))"
    using Cons.IH [OF _ F1(1)] Cons.prems(1) by (metis list.set_intros(2))
  with post_trans [OF F1(3,2,4) this(2)] r(1) show ?case by (simp add: e t_assoc_all_def)
qed

lemma from_pairs_refines:
  assumes wf: "\<And>t. P t \<Longrightarrow> twf eq hv 0 t"
    and step: "\<And>t k v. P t \<Longrightarrow> (k, v) \<in> set pairs \<Longrightarrow> P (t_assoc eq hv t k v (hv k) 0)"
    and empty: "P t_empty" and space: "slab_room (17 * length pairs + 1) h"
  shows "\<exists>h' mid'. map_from_pair_iter eq hv h pairs = Some (h', mid') \<and>
    post (Some (length (local_maps h))) h {} (1 + 17 * length pairs) h' mid' (t_assoc_all eq hv pairs t_empty)"
proof -
  let ?w = "Some (length (local_maps h))"
  have "length (local_maps h) < 2 ^ 32" using space by (simp add: slab_room_def)
  from alloc_map_node_repr [OF this, of ?w default_node t_empty "{}"] repr_empty_node obtain h0 mid0 where
    a: "alloc_empty_map h = Some (h0, mid0)" "reprF ?w h0 mid0 t_empty {length (local_maps h)}"
      "agree {} h h0" "length (local_maps h0) = Suc (length (local_maps h))"
    by (auto simp: alloc_empty_map_def default_node_def t_empty_def)
  have "room ?w h0 (17 * length pairs)" using space a(4) by (simp add: room_def slab_room_def)
  from assoc_all_refines [OF wf step a(2) empty this] obtain h' mid' where
    r: "assoc_all eq hv h0 mid0 ?w pairs = Some (h', mid')"
      "post ?w h0 {length (local_maps h)} (17 * length pairs) h' mid' (t_assoc_all eq hv pairs t_empty)"
    by blast
  have "post ?w h {} (1 + 17 * length pairs) h' mid' (t_assoc_all eq hv pairs t_empty)"
    by (rule post_trans [OF a(3) _ _ r(2)]) (simp_all add: a(4))
  with r(1) a(1) show ?thesis by (auto simp: map_from_pair_iter_def)
qed

lemma pairs_into_refines:
  assumes wf: "\<And>t. P t \<Longrightarrow> twf eq hv 0 t"
    and step: "\<And>t k v. P t \<Longrightarrow> (k, v) \<in> set pairs \<Longrightarrow> P (t_assoc eq hv t k v (hv k) 0)"
    and into: "repr h mid t" "P t" and space: "slab_room (17 * length pairs) h"
  shows "\<exists>h' mid'. map_from_pairs_into eq hv h mid pairs = Some (h', mid') \<and>
    post (Some (length (local_maps h))) h {} (17 * length pairs) h' mid' (t_assoc_all eq hv pairs t)"
proof -
  have "reprF (Some (length (local_maps h))) h mid t {}" using reprF_watermark(1) into(1) by (simp add: repr_def)
  moreover have "room (Some (length (local_maps h))) h (17 * length pairs)" using space by (simp add: room_def slab_room_def)
  ultimately show ?thesis
    using assoc_all_refines [OF wf step _ into(2)] by (simp add: map_from_pairs_into_def)
qed

end
