(* ===== verification/Champ_Equal.thy ===== *)
theory Champ_Equal
  imports "HOL-Library.Multiset" Champ_Map
begin

text \<open>
  Equality of CHAMP maps (\<open>map_equal\<close> in \<open>core/heap/equality.rs\<close>). The code compares two maps node by
  node and relies on the trie being canonical: maps with the same bindings have the same shape. The
  walk over the nodes is refined to a structural comparison of the tries the handles represent, and the
  structural comparison is shown to decide whether two maps have equal bindings.
\<close>

section \<open>The walk over the nodes\<close>

definition entry_equal :: "('v \<Rightarrow> 'v \<Rightarrow> bool) \<Rightarrow> 'v \<times> 'v \<Rightarrow> 'v \<times> 'v \<Rightarrow> bool" where
  "entry_equal eq e e' \<longleftrightarrow> eq (fst e) (fst e') \<and> eq (snd e) (snd e')"

definition collision_equal :: "('v \<Rightarrow> 'v \<Rightarrow> bool) \<Rightarrow> ('v \<times> 'v) list \<Rightarrow> ('v \<times> 'v) list \<Rightarrow> bool" where
  "collision_equal eq es es' \<longleftrightarrow> length es = length es' \<and> (\<forall>e \<in> set es. \<exists>e' \<in> set es'. entry_equal eq e e')"

fun map_equal :: "('v \<Rightarrow> 'v \<Rightarrow> bool) \<Rightarrow> nat \<Rightarrow> 'v heap \<Rightarrow> handle \<Rightarrow> handle \<Rightarrow> bool option"
  and children_equal :: "('v \<Rightarrow> 'v \<Rightarrow> bool) \<Rightarrow> nat \<Rightarrow> 'v heap \<Rightarrow> (handle \<times> handle) list \<Rightarrow> bool option" where
  "map_equal eq 0 h x y = None"
| "map_equal eq (Suc fuel) h x y = do {
     nx \<leftarrow> map_node h x;
     ny \<leftarrow> map_node h y;
     if nsize nx \<noteq> nsize ny then Some False
     else if is_collision nx \<noteq> is_collision ny then Some False
     else if is_collision nx then Some (collision_equal eq (data nx) (data ny))
     else if data_map nx \<noteq> data_map ny \<or> node_map nx \<noteq> node_map ny then Some False
     else if \<not> list_all (\<lambda>(e, e'). entry_equal eq e e') (zip (data nx) (data ny)) then Some False
     else children_equal eq fuel h (zip (children nx) (children ny)) }"
| "children_equal eq fuel h [] = Some True"
| "children_equal eq fuel h ((c1, c2) # cs) = do {
     b \<leftarrow> map_equal eq fuel h c1 c2;
     if b then children_equal eq fuel h cs else Some False }"

section \<open>Structural equality of tries\<close>

fun t_equal :: "('v \<Rightarrow> 'v \<Rightarrow> bool) \<Rightarrow> 'v trie \<Rightarrow> 'v trie \<Rightarrow> bool"
  and cell_equal :: "('v \<Rightarrow> 'v \<Rightarrow> bool) \<Rightarrow> 'v cell \<Rightarrow> 'v cell \<Rightarrow> bool"
  and cells_equal :: "('v \<Rightarrow> 'v \<Rightarrow> bool) \<Rightarrow> 'v cell list \<Rightarrow> 'v cell list \<Rightarrow> bool" where
  "t_equal eq (Collision es) (Collision es') = collision_equal eq es es'"
| "t_equal eq (Branch cs) (Branch cs') = cells_equal eq cs cs'"
| "t_equal eq _ _ = False"
| "cell_equal eq Empty Empty = True"
| "cell_equal eq (Entry k v) (Entry k' v') = entry_equal eq (k, v) (k', v')"
| "cell_equal eq (Child t) (Child t') = t_equal eq t t'"
| "cell_equal eq _ _ = False"
| "cells_equal eq [] [] = True"
| "cells_equal eq (c # cs) (c' # cs') = (cell_equal eq c c' \<and> cells_equal eq cs cs')"
| "cells_equal eq _ _ = False"

lemma cells_equal_all2: "cells_equal eq cs cs' = list_all2 (cell_equal eq) cs cs'"
  by (induction cs arbitrary: cs') (case_tac cs', auto)+

declare cells_equal.simps [simp del]

lemma cell_equal_cases:
  "cell_equal eq c c' \<longleftrightarrow>
     (c = Empty \<and> c' = Empty) \<or>
     (\<exists>k v k' v'. c = Entry k v \<and> c' = Entry k' v' \<and> eq k k' \<and> eq v v') \<or>
     (\<exists>t t'. c = Child t \<and> c' = Child t' \<and> t_equal eq t t')"
  by (cases c; cases c') (auto simp: entry_equal_def)

lemma t_equal_induct [consumes 1, case_names Collision Branch]:
  assumes "t_equal eq t u"
    and "\<And>es es'. collision_equal eq es es' \<Longrightarrow> P (Collision es) (Collision es')"
    and "\<And>cs cs'. list_all2 (cell_equal eq) cs cs' \<Longrightarrow>
      (\<And>t u. Child t \<in> set cs \<Longrightarrow> Child u \<in> set cs' \<Longrightarrow> t_equal eq t u \<Longrightarrow> P t u) \<Longrightarrow> P (Branch cs) (Branch cs')"
  shows "P t u"
  using assms(1)
proof (induction t arbitrary: u rule: trie_induct)
  case (Collision es)
  then show ?case using assms(2) by (cases u) auto
next
  case (Branch cs)
  then obtain cs' where u: "u = Branch cs'" "list_all2 (cell_equal eq) cs cs'"
    by (cases u) (auto simp: cells_equal_all2)
  then show ?case using assms(3) [OF u(2)] Branch.IH by blast
qed

lemma t_equal_Branch: "t_equal eq (Branch cs) u \<longleftrightarrow> (\<exists>cs'. u = Branch cs' \<and> list_all2 (cell_equal eq) cs cs')"
  by (cases u) (auto simp: cells_equal_all2)

lemma t_equal_Collision: "t_equal eq (Collision es) u \<longleftrightarrow> (\<exists>es'. u = Collision es' \<and> collision_equal eq es es')"
  by (cases u) auto

text \<open>Equal tries have as many entries, so the size check of the code never decides anything.\<close>

lemma cell_equal_length:
  "cell_equal eq c c' \<Longrightarrow> (\<And>t u. c = Child t \<Longrightarrow> c' = Child u \<Longrightarrow> length (entries t) = length (entries u)) \<Longrightarrow>
   length (cell_all c) = length (cell_all c')"
  by (cases c; cases c') (auto simp: cell_all_def)

lemma length_entries_Branch: "length (entries (Branch cs)) = (\<Sum>c \<leftarrow> cs. length (cell_all c))"
  by (induction cs) (auto simp: entries.simps(2) cell_all_def split: option.splits)

lemma t_equal_count: "t_equal eq t u \<Longrightarrow> count t = count u"
proof (induction rule: t_equal_induct)
  case (Collision es es')
  then show ?case by (simp add: collision_equal_def count_def)
next
  case (Branch cs cs')
  have "list_all2 (\<lambda>c c'. length (cell_all c) = length (cell_all c')) cs cs'"
    unfolding list_all2_conv_all_nth
  proof (intro conjI allI impI)
    show "length cs = length cs'" using Branch.hyps by (rule list_all2_lengthD)
    fix i assume i: "i < length cs"
    have c: "cell_equal eq (cs ! i) (cs' ! i)" using Branch.hyps i by (rule list_all2_nthD)
    have mem: "cs ! i \<in> set cs" "cs' ! i \<in> set cs'" using i \<open>length cs = length cs'\<close> by auto
    show "length (cell_all (cs ! i)) = length (cell_all (cs' ! i))"
    proof (rule cell_equal_length [OF c])
      fix t u assume tu: "cs ! i = Child t" "cs' ! i = Child u"
      have "Child t \<in> set cs" "Child u \<in> set cs'" "t_equal eq t u" using mem c unfolding tu by simp_all
      from Branch.IH [OF this] show "length (entries t) = length (entries u)" unfolding count_def .
    qed
  qed
  then have "map (\<lambda>c. length (cell_all c)) cs = map (\<lambda>c. length (cell_all c)) cs'"
    by (simp add: list_all2_conv_all_nth list_eq_iff_nth_eq)
  then show ?case by (simp only: count_def length_entries_Branch)
qed

section \<open>The walk refines the structural comparison\<close>

definition kind :: "'v cell \<Rightarrow> bool \<times> bool" where
  "kind c = (cell_entry c \<noteq> None, cell_child c \<noteq> None)"

lemma kinds_equal:
  "list_all2 (cell_equal eq) cs cs' \<longleftrightarrow> map kind cs = map kind cs' \<and>
     list_all2 (entry_equal eq) (pack cell_entry cs) (pack cell_entry cs') \<and>
     list_all2 (t_equal eq) (pack cell_child cs) (pack cell_child cs')"
proof (induction cs arbitrary: cs')
  case (Cons c cs)
  show ?case
  proof (cases cs')
    case (Cons c' cs'')
    with Cons.IH [of cs''] show ?thesis by (cases c; cases c') (auto simp: kind_def)
  qed simp
qed auto

lemma length_pack_kind:
  assumes "map kind cs = map kind cs'"
  shows "length (pack cell_entry cs) = length (pack cell_entry cs')" "length (pack cell_child cs) = length (pack cell_child cs')"
proof -
  have "length (filter (fst \<circ> kind) cs) = length (filter (fst \<circ> kind) cs')"
    "length (filter (snd \<circ> kind) cs) = length (filter (snd \<circ> kind) cs')"
    using arg_cong [OF assms, of "\<lambda>ks. length (filter fst ks)"] arg_cong [OF assms, of "\<lambda>ks. length (filter snd ks)"]
    by (simp_all add: filter_map)
  then show "length (pack cell_entry cs) = length (pack cell_entry cs')" "length (pack cell_child cs) = length (pack cell_child cs')"
    by (simp_all add: length_pack kind_def o_def)
qed

lemma same_bits:
  assumes "has_bits m cell_entry cs" "has_bits m' cell_entry cs'" "has_bits n cell_child cs" "has_bits n' cell_child cs'"
    and "length cs = 16" "length cs' = 16"
  shows "m = m' \<and> n = n' \<longleftrightarrow> map kind cs = map kind cs'"
proof -
  have word: "a = b \<longleftrightarrow> (\<forall>s < 16. bit a s = bit b s)" for a b :: u16
    by (auto intro: bit_word_eqI)
  have "map kind cs = map kind cs' \<longleftrightarrow> (\<forall>s < 16. kind (cs ! s) = kind (cs' ! s))"
    using assms(5,6) by (simp add: list_eq_iff_nth_eq)
  also have "\<dots> \<longleftrightarrow> (\<forall>s < 16. bit m s = bit m' s \<and> bit n s = bit n' s)"
  proof -
    have "kind (cs ! s) = kind (cs' ! s) \<longleftrightarrow> bit m s = bit m' s \<and> bit n s = bit n' s" if "s < 16" for s
      using assms(1-4) that by (simp add: has_bits_def kind_def)
    then show ?thesis by blast
  qed
  also have "\<dots> \<longleftrightarrow> (\<forall>s < 16. bit m s = bit m' s) \<and> (\<forall>s < 16. bit n s = bit n' s)" by blast
  finally show ?thesis by (simp only: word)
qed

lemma children_equal_refines:
  assumes "\<And>c c' t u. t \<in> set ts \<Longrightarrow> reprF None h c t {} \<Longrightarrow> reprF None h c' u {} \<Longrightarrow>
      map_equal eq fuel h c c' = Some (t_equal eq t u)"
    and "reprsF None h mids ts F" "reprsF None h mids' us G" "length ts = length us"
  shows "children_equal eq fuel h (zip mids mids') = Some (list_all2 (t_equal eq) ts us)"
  using assms
proof (induction ts arbitrary: mids mids' us F G)
  case (Cons t ts)
  then obtain u us' where us: "us = u # us'" "length ts = length us'" by (cases us) auto
  from Cons.prems(2) obtain c rest F1 F2 where m: "mids = c # rest" "reprF None h c t F1" "reprsF None h rest ts F2"
    by (auto simp: reprsF_Cons2)
  from Cons.prems(3) obtain c' rest' G1 G2 where m': "mids' = c' # rest'" "reprF None h c' u G1" "reprsF None h rest' us' G2"
    by (auto simp: us reprsF_Cons2)
  have "map_equal eq fuel h c c' = Some (t_equal eq t u)"
    using Cons.prems(1) [of t c c' u] reprF_None [OF m(2)] reprF_None [OF m'(2)] m(2) m'(2) by auto
  moreover have "children_equal eq fuel h (zip rest rest') = Some (list_all2 (t_equal eq) ts us')"
    by (rule Cons.IH [OF Cons.prems(1) m(3) m'(3) us(2)]) simp_all
  ultimately show ?case by (simp add: m(1) m'(1) us(1))
qed simp

lemma map_equal_refines:
  assumes "reprF None h x t {}" "reprF None h y u {}" "twf eq0 hv d t" "d + fuel = 17"
  shows "map_equal eq fuel h x y = Some (t_equal eq t u)"
  using assms
proof (induction fuel arbitrary: x y t u d)
  case 0
  then show ?case by (cases t) (auto simp: twf_Branch)
next
  case (Suc fuel)
  from repr_root [OF Suc.prems(1)] obtain n where n: "map_node h x = Some n" "shape n t"
    "reprsF None h (children n) (snd (direct t)) {}" by blast
  from repr_root [OF Suc.prems(2)] obtain n' where n': "map_node h y = Some n'" "shape n' u"
    "reprsF None h (children n') (snd (direct u)) {}" by blast
  have size: "nsize n \<noteq> nsize n' \<Longrightarrow> \<not> t_equal eq t u"
    using shape_size [OF n(2)] shape_size [OF n'(2)] t_equal_count [of eq t u] by auto
  show ?case
  proof (cases t)
    case (Collision es)
    with n n' size show ?thesis by (cases u) auto
  next
    case t: (Branch cs)
    show ?thesis
    proof (cases u)
      case (Collision es)
      with t n n' show ?thesis by simp
    next
      case u: (Branch cs')
      have bits: "data_map n = data_map n' \<and> node_map n = node_map n' \<longleftrightarrow> map kind cs = map kind cs'"
        using n(2) n'(2) t u by (intro same_bits) auto
      have rec: "children_equal eq fuel h (zip (children n) (children n')) =
          Some (list_all2 (t_equal eq) (pack cell_child cs) (pack cell_child cs'))" if "map kind cs = map kind cs'"
      proof (rule children_equal_refines [of "pack cell_child cs"])
        fix c c' t' u' assume "t' \<in> set (pack cell_child cs)" "reprF None h c t' {}" "reprF None h c' u' {}"
        with twf_direct_child [OF Suc.prems(3), of t'] Suc.prems(4) t
        show "map_equal eq fuel h c c' = Some (t_equal eq t' u')" by (intro Suc.IH [of c t' c' u' "Suc d"]) auto
      next
        show "length (pack cell_child cs) = length (pack cell_child cs')"
          using that by (rule length_pack_kind(2))
      qed (use n(3) n'(3) t u in auto)
      have len: "map kind cs = map kind cs' \<Longrightarrow> length (pack cell_entry cs) = length (pack cell_entry cs')"
        by (rule length_pack_kind(1))
      have node: "map_equal eq (Suc fuel) h x y =
          (if nsize n \<noteq> nsize n' then Some False
           else if map kind cs \<noteq> map kind cs' then Some False
           else if \<not> list_all (\<lambda>(e, e'). entry_equal eq e e') (zip (pack cell_entry cs) (pack cell_entry cs')) then Some False
           else Some (list_all2 (t_equal eq) (pack cell_child cs) (pack cell_child cs')))"
      proof -
        have sh: "\<not> is_collision n" "\<not> is_collision n'" "data n = pack cell_entry cs" "data n' = pack cell_entry cs'"
          using n(2) n'(2) t u by auto
        show ?thesis
        proof (cases "map kind cs = map kind cs'")
          case True
          with bits have "data_map n = data_map n'" "node_map n = node_map n'" by blast+
          with True show ?thesis unfolding map_equal.simps n(1) n'(1) by (simp add: sh rec)
        next
          case False
          with bits have "data_map n \<noteq> data_map n' \<or> node_map n \<noteq> node_map n'" by blast
          with False show ?thesis unfolding map_equal.simps n(1) n'(1) by (simp add: sh)
        qed
      qed
      have "list_all (\<lambda>(e, e'). entry_equal eq e e') (zip (pack cell_entry cs) (pack cell_entry cs')) =
          list_all2 (entry_equal eq) (pack cell_entry cs) (pack cell_entry cs')" if "map kind cs = map kind cs'"
        using len [OF that] by (simp add: list_all2_iff list_all_iff)
      then show ?thesis
        unfolding node using size by (simp add: t u cells_equal_all2 kinds_equal)
    qed
  qed
qed

section \<open>Canonical form\<close>

text \<open>
  In a collision leaf the code looks for a partner of each entry on the left only. With pairwise unequal
  keys and equally many entries the partners are a bijection, so the comparison is symmetric.
\<close>

lemma cdistinct_nth: "cdistinct eq es \<Longrightarrow> i < j \<Longrightarrow> j < length es \<Longrightarrow> \<not> eq (fst (es ! i)) (fst (es ! j))"
  unfolding cdistinct_def by (rule sorted_wrt_nth_less)

lemma collision_bij:
  assumes ce: "collision_equal eq es es'" and dist: "cdistinct eq es"
    and euclid: "\<And>x y z. x \<in> fst ` set es \<Longrightarrow> y \<in> fst ` set es' \<Longrightarrow> z \<in> fst ` set es \<Longrightarrow> eq x y \<Longrightarrow> eq z y \<Longrightarrow> eq x z"
  obtains f where "bij_betw f {..<length es} {..<length es'}"
    and "\<And>i. i < length es \<Longrightarrow> entry_equal eq (es ! i) (es' ! f i)"
proof -
  let ?n = "length es"
  have len: "length es' = ?n" using ce by (simp add: collision_equal_def)
  have "\<forall>i < ?n. \<exists>j < ?n. entry_equal eq (es ! i) (es' ! j)"
    using ce unfolding collision_equal_def by (metis in_set_conv_nth nth_mem)
  then obtain f where f: "\<And>i. i < ?n \<Longrightarrow> f i < ?n \<and> entry_equal eq (es ! i) (es' ! f i)" by metis
  have "inj_on f {..<?n}"
  proof (rule linorder_inj_onI)
    fix i j assume ij: "i < j" "i \<in> {..<?n}" "j \<in> {..<?n}"
    show "f i \<noteq> f j"
    proof
      assume same: "f i = f j"
      have "eq (fst (es ! i)) (fst (es ! j))"
      proof (rule euclid [of _ "fst (es' ! f i)"])
        show "fst (es ! i) \<in> fst ` set es" "fst (es ! j) \<in> fst ` set es" using ij by simp_all
        show "fst (es' ! f i) \<in> fst ` set es'" using f [of i] ij len by simp
        show "eq (fst (es ! i)) (fst (es' ! f i))" using f [of i] ij by (simp add: entry_equal_def)
        show "eq (fst (es ! j)) (fst (es' ! f i))" using f [of j] ij same by (simp add: entry_equal_def)
      qed
      moreover have "\<not> eq (fst (es ! i)) (fst (es ! j))"
        using dist ij by (intro cdistinct_nth) simp_all
      ultimately show False by blast
    qed
  qed auto
  moreover have "f ` {..<?n} \<subseteq> {..<?n}" using f by auto
  ultimately have "bij_betw f {..<?n} {..<length es'}"
    by (simp add: bij_betw_def len endo_inj_surj)
  with f show thesis using that by blast
qed

text \<open>
  What equality of the elements gives equality of the tries. The laws are asked only of the elements the
  tries hold, so that they can be used inside an induction over values whose maps hold values.
\<close>

lemma set_trie_entries: "set_trie t = fst ` set (entries t) \<union> snd ` set (entries t)"
proof (induction t rule: trie_induct)
  case (Collision es)
  then show ?case by (force simp: prod_set_simps)
next
  case (Branch cs)
  have "set_cell c = fst ` set (cell_all c) \<union> snd ` set (cell_all c)" if "c \<in> set cs" for c
  proof (cases c)
    case (Child t)
    with Branch.IH [of t] that show ?thesis by simp
  qed auto
  then show ?case by (auto simp: set_entries_Branch image_UN)
qed

lemma child_elems: "Child t \<in> set cs \<Longrightarrow> set_trie t \<subseteq> set_trie (Branch cs)"
  by force

lemma collision_elems: "e \<in> set es \<Longrightarrow> fst e \<in> set_trie (Collision es) \<and> snd e \<in> set_trie (Collision es)"
  by (auto simp: set_trie_entries)

definition sym_on :: "'v set \<Rightarrow> ('v \<Rightarrow> 'v \<Rightarrow> bool) \<Rightarrow> bool" where
  "sym_on A eq \<longleftrightarrow> (\<forall>x \<in> A. \<forall>y \<in> A. eq x y \<longrightarrow> eq y x)"

definition trans_on :: "'v set \<Rightarrow> ('v \<Rightarrow> 'v \<Rightarrow> bool) \<Rightarrow> bool" where
  "trans_on A eq \<longleftrightarrow> (\<forall>x \<in> A. \<forall>y \<in> A. \<forall>z \<in> A. eq x y \<longrightarrow> eq y z \<longrightarrow> eq x z)"

lemma sym_on_subset: "sym_on A eq \<Longrightarrow> B \<subseteq> A \<Longrightarrow> sym_on B eq"
  by (auto simp: sym_on_def)

lemma trans_on_subset: "trans_on A eq \<Longrightarrow> B \<subseteq> A \<Longrightarrow> trans_on B eq"
  unfolding trans_on_def by blast

lemma collision_bij_on:
  assumes "collision_equal eq es es'" "cdistinct eq es" "sym_on A eq" "trans_on A eq"
    and "set_trie (Collision es) \<subseteq> A" "set_trie (Collision es') \<subseteq> A"
  obtains f where "bij_betw f {..<length es} {..<length es'}"
    and "\<And>i. i < length es \<Longrightarrow> entry_equal eq (es ! i) (es' ! f i)"
proof (rule collision_bij [OF assms(1,2)])
  fix x y z assume "x \<in> fst ` set es" "y \<in> fst ` set es'" "z \<in> fst ` set es" "eq x y" "eq z y"
  moreover from this have "x \<in> A" "y \<in> A" "z \<in> A" using assms(5,6) by (auto simp: set_trie_entries)
  ultimately show "eq x z" using assms(3,4) unfolding sym_on_def trans_on_def by blast
qed (rule that, assumption+)

lemma entry_equal_sym:
  "entry_equal eq e e' \<Longrightarrow> sym_on A eq \<Longrightarrow> {fst e, snd e, fst e', snd e'} \<subseteq> A \<Longrightarrow> entry_equal eq e' e"
  unfolding entry_equal_def sym_on_def by blast

lemma entry_equal_trans:
  "entry_equal eq e e' \<Longrightarrow> entry_equal eq e' e'' \<Longrightarrow> trans_on A eq \<Longrightarrow> {fst e, snd e, fst e', snd e', fst e'', snd e''} \<subseteq> A \<Longrightarrow>
   entry_equal eq e e''"
  unfolding entry_equal_def trans_on_def by blast

lemma twf_child: "twf eq hv d (Branch cs) \<Longrightarrow> Child t \<in> set cs \<Longrightarrow> twf eq hv (Suc d) t"
  unfolding twf_Branch by (metis cell_ok_simps(3) in_set_conv_nth)

lemma collision_equal_sym:
  assumes "collision_equal eq es es'" "cdistinct eq es" "sym_on A eq" "trans_on A eq"
    and A: "set_trie (Collision es) \<subseteq> A" "set_trie (Collision es') \<subseteq> A"
  shows "collision_equal eq es' es"
proof -
  obtain f where f: "bij_betw f {..<length es} {..<length es'}"
    "\<And>i. i < length es \<Longrightarrow> entry_equal eq (es ! i) (es' ! f i)"
    by (rule collision_bij_on [OF assms]) blast
  have "\<exists>e \<in> set es. entry_equal eq e' e" if e': "e' \<in> set es'" for e'
  proof -
    from e' obtain j where j: "j < length es'" "es' ! j = e'" by (metis in_set_conv_nth)
    then obtain i where i: "i < length es" "f i = j" using f(1) by (metis bij_betw_iff_bijections lessThan_iff)
    have "entry_equal eq e' (es ! i)"
    proof (rule entry_equal_sym [OF _ assms(3)])
      show "entry_equal eq (es ! i) e'" using f(2) i j by auto
      show "{fst (es ! i), snd (es ! i), fst e', snd e'} \<subseteq> A"
        using collision_elems [OF e'] collision_elems [OF nth_mem [OF i(1)]] A by blast
    qed
    then show ?thesis using i(1) by auto
  qed
  then show ?thesis using assms(1) by (auto simp: collision_equal_def)
qed

lemma cell_equal_sym:
  assumes "cell_equal eq c c'" "sym_on A eq" "set_cell c \<subseteq> A" "set_cell c' \<subseteq> A"
    and "\<And>t u. c = Child t \<Longrightarrow> c' = Child u \<Longrightarrow> t_equal eq t u \<Longrightarrow> t_equal eq u t"
  shows "cell_equal eq c' c"
proof (cases c)
  case (Entry k v)
  with assms(1) obtain k' v' where c': "c' = Entry k' v'" "entry_equal eq (k, v) (k', v')" by (cases c') auto
  have "entry_equal eq (k', v') (k, v)"
    by (rule entry_equal_sym [OF c'(2) assms(2)]) (use assms(3,4) Entry c'(1) in simp)
  with Entry c' show ?thesis by simp
next
  case (Child t)
  with assms(1) obtain u where "c' = Child u" "t_equal eq t u" by (cases c') auto
  with Child assms(5) show ?thesis by simp
qed (use assms(1) in \<open>cases c'; simp\<close>)

lemma t_equal_sym:
  "t_equal eq t u \<Longrightarrow> twf eq hv d t \<Longrightarrow> sym_on A eq \<Longrightarrow> trans_on A eq \<Longrightarrow> set_trie t \<subseteq> A \<Longrightarrow> set_trie u \<subseteq> A \<Longrightarrow> t_equal eq u t"
proof (induction arbitrary: d rule: t_equal_induct)
  case (Collision es es')
  then show ?case using collision_equal_sym [of eq es es' A] by simp
next
  case (Branch cs cs')
  have len: "length cs = length cs'" using Branch.hyps by (rule list_all2_lengthD)
  have "cell_equal eq (cs' ! i) (cs ! i)" if i: "i < length cs" for i
  proof (rule cell_equal_sym [OF list_all2_nthD [OF Branch.hyps i] Branch.prems(2)])
    have mem: "cs ! i \<in> set cs" "cs' ! i \<in> set cs'" using i len by auto
    then show "set_cell (cs ! i) \<subseteq> A" "set_cell (cs' ! i) \<subseteq> A" using Branch.prems(4,5) by auto
    fix t u assume tu: "cs ! i = Child t" "cs' ! i = Child u" "t_equal eq t u"
    have c: "Child t \<in> set cs" "Child u \<in> set cs'" using mem unfolding tu(1,2) .
    show "t_equal eq u t"
      by (rule Branch.IH [OF c tu(3) twf_child [OF Branch.prems(1) c(1)] Branch.prems(2,3)])
        (use child_elems [OF c(1)] child_elems [OF c(2)] Branch.prems(4,5) in blast)+
  qed
  with len show ?case by (simp add: cells_equal_all2 list_all2_conv_all_nth)
qed

lemma t_equal_trans:
  "t_equal eq t u \<Longrightarrow> t_equal eq u w \<Longrightarrow> trans_on A eq \<Longrightarrow> set_trie t \<subseteq> A \<Longrightarrow> set_trie u \<subseteq> A \<Longrightarrow> set_trie w \<subseteq> A \<Longrightarrow> t_equal eq t w"
proof (induction arbitrary: w rule: t_equal_induct)
  case (Collision es es')
  from Collision.prems(1) obtain es'' where w: "w = Collision es''" "collision_equal eq es' es''"
    by (auto simp: t_equal_Collision)
  have "\<exists>e'' \<in> set es''. entry_equal eq e e''" if e: "e \<in> set es" for e
  proof -
    from e Collision.hyps obtain e' where e': "e' \<in> set es'" "entry_equal eq e e'" by (auto simp: collision_equal_def)
    with w(2) obtain e'' where e'': "e'' \<in> set es''" "entry_equal eq e' e''" by (auto simp: collision_equal_def)
    have "entry_equal eq e e''"
      by (rule entry_equal_trans [OF e'(2) e''(2) Collision.prems(2)])
        (use collision_elems [OF e] collision_elems [OF e'(1)] collision_elems [OF e''(1)] Collision.prems(3-5) w(1) in blast)
    with e''(1) show ?thesis by blast
  qed
  with Collision.hyps w show ?case by (auto simp: collision_equal_def)
next
  case (Branch cs cs')
  from Branch.prems(1) obtain cs'' where w: "w = Branch cs''" "list_all2 (cell_equal eq) cs' cs''"
    by (auto simp: t_equal_Branch)
  have len: "length cs = length cs'" "length cs' = length cs''"
    using list_all2_lengthD [OF Branch.hyps] list_all2_lengthD [OF w(2)] by simp_all
  have "cell_equal eq (cs ! i) (cs'' ! i)" if i: "i < length cs" for i
  proof -
    have mem: "cs ! i \<in> set cs" "cs' ! i \<in> set cs'" "cs'' ! i \<in> set cs''" using i len by auto
    then have A: "set_cell (cs ! i) \<subseteq> A" "set_cell (cs' ! i) \<subseteq> A" "set_cell (cs'' ! i) \<subseteq> A"
      using Branch.prems(3-5) w(1) by auto
    have c: "cell_equal eq (cs ! i) (cs' ! i)" "cell_equal eq (cs' ! i) (cs'' ! i)"
      using list_all2_nthD [OF Branch.hyps i] list_all2_nthD [OF w(2), of i] i len by simp_all
    show ?thesis
    proof (cases "cs ! i")
      case t: (Child t)
      with c obtain u v where uv: "cs' ! i = Child u" "cs'' ! i = Child v" "t_equal eq t u" "t_equal eq u v"
        by (cases "cs' ! i"; cases "cs'' ! i") auto
      have "t_equal eq t v"
        by (rule Branch.IH [OF _ _ uv(3,4) Branch.prems(2)]) (use mem A t uv in auto)
      with t uv show ?thesis by simp
    next
      case e: (Entry k v)
      with c obtain k' v' k'' v'' where e': "cs' ! i = Entry k' v'" "cs'' ! i = Entry k'' v''"
        "entry_equal eq (k, v) (k', v')" "entry_equal eq (k', v') (k'', v'')"
        by (cases "cs' ! i"; cases "cs'' ! i") auto
      have "entry_equal eq (k, v) (k'', v'')"
        by (rule entry_equal_trans [OF e'(3,4) Branch.prems(2)]) (use A e e' in simp)
      with e e' show ?thesis by simp
    next
      case Empty
      with c show ?thesis by (cases "cs' ! i") simp_all
    qed
  qed
  with len show ?case by (simp add: w(1) cells_equal_all2 list_all2_conv_all_nth)
qed

lemma list_all2_fundef_cong [fundef_cong]:
  "xs = xs' \<Longrightarrow> ys = ys' \<Longrightarrow> (\<And>x y. x \<in> set xs' \<Longrightarrow> y \<in> set ys' \<Longrightarrow> P x y = Q x y) \<Longrightarrow> list_all2 P xs ys = list_all2 Q xs' ys'"
  by (auto simp: list_all2_conv_all_nth)

lemma collision_equal_cong:
  "(\<And>x y. x \<in> set_trie (Collision es) \<Longrightarrow> y \<in> set_trie (Collision es') \<Longrightarrow> f x y = g x y) \<Longrightarrow>
   collision_equal f es es' = collision_equal g es es'"
  unfolding collision_equal_def entry_equal_def
  by (intro conj_cong refl ball_cong bex_cong) (metis collision_elems)+

lemma t_equal_cong:
  "(\<And>x y. x \<in> set_trie t \<Longrightarrow> y \<in> set_trie u \<Longrightarrow> f x y = g x y) \<Longrightarrow> t_equal f t u = t_equal g t u"
proof (induction t arbitrary: u rule: trie_induct)
  case (Collision es)
  then show ?case by (cases u) (auto intro!: collision_equal_cong)
next
  case (Branch cs)
  show ?case
  proof (cases u)
    case u: (Branch cs')
    have "cell_equal f c c' = cell_equal g c c'" if mem: "c \<in> set cs" "c' \<in> set cs'" for c c'
    proof (cases c)
      case c: (Child t)
      show ?thesis
      proof (cases c')
        case (Child t')
        have k: "Child t \<in> set cs" "Child t' \<in> set cs'" using mem c Child by simp_all
        have "t_equal f t t' = t_equal g t t'"
          using Branch.prems child_elems [OF k(1)] child_elems [OF k(2)] u by (intro Branch.IH [OF k(1)]) blast
        then show ?thesis by (simp add: c Child)
      qed (simp_all add: c)
    next
      case (Entry k v)
      have "set_cell c \<subseteq> set_trie (Branch cs)" "set_cell c' \<subseteq> set_trie u" using mem u by auto
      then show ?thesis using Branch.prems Entry by (cases c') (auto simp: entry_equal_def)
    qed (cases c'; simp)
    then show ?thesis unfolding u by (simp add: cells_equal_all2) (rule list_all2_fundef_cong, simp_all)
  qed simp
qed

text \<open>Equal tries hold partnered entries, in some order: any summary of the entries that ignores order agrees.\<close>

lemma mset_nth_image: "mset (map F es) = image_mset (\<lambda>i. F (es ! i)) (mset_set {..<length es})"
proof -
  have "map (\<lambda>i. F (es ! i)) [0..<length es] = map F (map ((!) es) [0..<length es])" by simp
  also have "\<dots> = map F es" by (simp only: map_nth)
  finally have "mset (map F es) = image_mset (\<lambda>i. F (es ! i)) (mset [0..<length es])" by (simp only: mset_map [symmetric])
  also have "mset [0..<length es] = mset_set {..<length es}" by (simp add: atLeast0LessThan)
  finally show ?thesis .
qed

lemma mset_entries_Branch: "mset (entries (Branch cs)) = (\<Sum>c \<leftarrow> cs. mset (cell_all c))"
  by (induction cs) (auto simp: entries.simps(2) cell_all_def split: option.splits)

lemma t_equal_mset:
  "t_equal eq t u \<Longrightarrow> twf eq hv d t \<Longrightarrow> sym_on A eq \<Longrightarrow> trans_on A eq \<Longrightarrow> set_trie t \<subseteq> A \<Longrightarrow> set_trie u \<subseteq> A \<Longrightarrow>
   (\<And>e e'. e \<in> set (entries t) \<Longrightarrow> e' \<in> set (entries u) \<Longrightarrow> entry_equal eq e e' \<Longrightarrow> F e = F e') \<Longrightarrow>
   mset (map F (entries t)) = mset (map F (entries u))"
proof (induction arbitrary: d rule: t_equal_induct)
  case (Collision es es')
  have "cdistinct eq es" using Collision.prems(1) by simp
  from collision_bij_on [OF Collision.hyps this Collision.prems(2-5)] obtain f where
    f: "bij_betw f {..<length es} {..<length es'}" "\<And>i. i < length es \<Longrightarrow> entry_equal eq (es ! i) (es' ! f i)"
    by blast
  have fin: "f i < length es'" if "i < length es" for i using f(1) that by (auto simp: bij_betw_def)
  have "mset_set {..<length es'} = image_mset f (mset_set {..<length es})"
    using f(1) by (simp add: bij_betw_def image_mset_mset_set)
  then have "mset (map F es') = image_mset (\<lambda>i. F (es' ! f i)) (mset_set {..<length es})"
    unfolding mset_nth_image by (simp add: multiset.map_comp o_def)
  also have "\<dots> = image_mset (\<lambda>i. F (es ! i)) (mset_set {..<length es})"
  proof (rule image_mset_cong)
    fix i assume "i \<in># mset_set {..<length es}"
    then have i: "i < length es" by simp
    from Collision.prems(6) [OF _ _ f(2) [OF i]] i fin [OF i] show "F (es' ! f i) = F (es ! i)" by simp
  qed
  finally show ?case unfolding entries.simps(1) mset_nth_image [of F es] by (rule sym)
next
  case (Branch cs cs')
  have len: "length cs = length cs'" using Branch.hyps by (rule list_all2_lengthD)
  have "image_mset F (mset (cell_all (cs ! i))) = image_mset F (mset (cell_all (cs' ! i)))" if i: "i < length cs" for i
  proof -
    have c: "cell_equal eq (cs ! i) (cs' ! i)" using Branch.hyps i by (rule list_all2_nthD)
    have mem: "cs ! i \<in> set cs" "cs' ! i \<in> set cs'" using i len by auto
    have sub: "set (cell_all (cs ! i)) \<subseteq> set (entries (Branch cs))" "set (cell_all (cs' ! i)) \<subseteq> set (entries (Branch cs'))"
      using mem by (auto simp: set_entries_Branch)
    show ?thesis
    proof (cases "cs ! i")
      case t: (Child t)
      with c obtain u where u: "cs' ! i = Child u" "t_equal eq t u" by (cases "cs' ! i") auto
      have k: "Child t \<in> set cs" "Child u \<in> set cs'" using mem t u by simp_all
      have "mset (map F (entries t)) = mset (map F (entries u))"
      proof (rule Branch.IH [OF k u(2) twf_child [OF Branch.prems(1) k(1)] Branch.prems(2,3)])
        show "set_trie t \<subseteq> A" "set_trie u \<subseteq> A"
          using child_elems [OF k(1)] child_elems [OF k(2)] Branch.prems(4,5) by blast+
        have "set (entries t) \<subseteq> set (entries (Branch cs))" "set (entries u) \<subseteq> set (entries (Branch cs'))"
          using sub t u(1) by simp_all
        then show "\<And>e e'. e \<in> set (entries t) \<Longrightarrow> e' \<in> set (entries u) \<Longrightarrow> entry_equal eq e e' \<Longrightarrow> F e = F e'"
          using Branch.prems(6) by blast
      qed
      with t u show ?thesis by simp
    next
      case e: (Entry k v)
      with c obtain k' v' where e': "cs' ! i = Entry k' v'" "entry_equal eq (k, v) (k', v')" by (cases "cs' ! i") auto
      with Branch.prems(6) [of "(k, v)" "(k', v')"] sub e show ?thesis by simp
    next
      case Empty
      with c show ?thesis by (cases "cs' ! i") simp_all
    qed
  qed
  then have "map (\<lambda>c. image_mset F (mset (cell_all c))) cs = map (\<lambda>c. image_mset F (mset (cell_all c))) cs'"
    using len by (simp add: list_eq_iff_nth_eq)
  moreover have "image_mset F (\<Sum>c \<leftarrow> xs. mset (cell_all c)) = (\<Sum>c \<leftarrow> xs. image_mset F (mset (cell_all c)))" for xs
    by (induction xs) simp_all
  ultimately show ?case by (simp only: mset_map mset_entries_Branch)
qed

context key_equality
begin

lemma cell_lookup:
  "cell_ok eq hv d s c \<Longrightarrow> (k, v) \<in> set (cell_all c) \<Longrightarrow> eq k k' \<Longrightarrow> c_get eq c k' (hv k') d = Some v"
  by (cases c) (auto simp: t_get_entry)

lemma cell_lookup_entry:
  "cell_ok eq hv d s c \<Longrightarrow> c_get eq c k (hv k) d = Some v \<Longrightarrow> \<exists>k'. (k', v) \<in> set (cell_all c) \<and> eq k' k"
  by (cases c) (auto split: if_splits dest: t_get_in_entries)

lemma cell_lookup_slot:
  "cell_ok eq hv d s c \<Longrightarrow> c_get eq c k (hv k) d = Some v \<Longrightarrow> slot (hv k) d = s"
proof -
  assume ok: "cell_ok eq hv d s c" and "c_get eq c k (hv k) d = Some v"
  then obtain k' where "(k', v) \<in> set (cell_all c)" "eq k' k" using cell_lookup_entry by blast
  moreover have "slot (hv k') d = s"
    using ok calculation(1) unfolding cell_ok_def by (metis (mono_tags, lifting) case_prodD)
  ultimately show ?thesis using eq_hash [of k' k] by simp
qed

lemma child_two_keys:
  assumes "cell_ok eq hv d s (Child t)"
  shows "\<exists>e \<in> set (entries t). \<exists>e' \<in> set (entries t). \<not> eq (fst e) (fst e')"
proof -
  have two: "2 \<le> length (entries t)" and dist: "cdistinct eq (entries t)"
    using assms cdistinct_entries [of "Suc d" t] unfolding cell_ok_simps count_def by blast+
  have "\<not> eq (fst (entries t ! 0)) (fst (entries t ! 1))" using two by (intro cdistinct_nth [OF dist]) simp_all
  moreover have "entries t ! 0 \<in> set (entries t)" "entries t ! 1 \<in> set (entries t)" using two by (intro nth_mem; simp)+
  ultimately show ?thesis by blast
qed

lemma child_other_key: "cell_ok eq hv d s (Child t) \<Longrightarrow> \<exists>k' v'. (k', v') \<in> set (entries t) \<and> \<not> eq k k'"
  using child_two_keys eq_left by (metis prod.collapse)

lemma child_nonempty: "cell_ok eq hv d s (Child t) \<Longrightarrow> \<exists>k v. (k, v) \<in> set (entries t)"
  using child_two_keys by fastforce

definition same_bindings :: "nat \<Rightarrow> 'v trie \<Rightarrow> 'v trie \<Rightarrow> bool" where
  "same_bindings d t u \<longleftrightarrow> (\<forall>k. rel_option eq (t_get eq t k (hv k) d) (t_get eq u k (hv k) d))"

definition refl_keys :: "('v \<times> 'v) list \<Rightarrow> bool" where
  "refl_keys es \<longleftrightarrow> (\<forall>e \<in> set es. eq (fst e) (fst e))"

lemma cell_complete:
  assumes ok: "cell_ok eq hv d s c" "cell_ok eq hv d s c'"
    and refl: "refl_keys (cell_all c)" "refl_keys (cell_all c')"
    and same: "\<And>k. rel_option eq (c_get eq c k (hv k) d) (c_get eq c' k (hv k) d)"
    and rec: "\<And>t t'. c = Child t \<Longrightarrow> c' = Child t' \<Longrightarrow> t_equal eq t t'"
  shows "cell_equal eq c c'"
proof -
  have left: "\<exists>v'. c_get eq c' k (hv k) d = Some v' \<and> eq v v'" if "(k, v) \<in> set (cell_all c)" for k v
    using same [of k] cell_lookup [OF ok(1) that, of k] refl(1) that
    by (auto simp: refl_keys_def option_rel_Some1)
  have right: "\<exists>v. c_get eq c k (hv k) d = Some v \<and> eq v v'" if "(k, v') \<in> set (cell_all c')" for k v'
    using same [of k] cell_lookup [OF ok(2) that, of k] refl(2) that
    by (auto simp: refl_keys_def option_rel_Some2)
  show ?thesis
  proof (cases c)
    case c: Empty
    have none: "(k, v) \<notin> set (cell_all c')" for k v using right [of k v] c by auto
    show ?thesis
    proof (cases c')
      case Empty
      with c show ?thesis by simp
    next
      case (Entry k v)
      with none [of k v] show ?thesis by simp
    next
      case (Child t)
      with child_nonempty [of d s t] ok(2) none show ?thesis by auto
    qed
  next
    case e: (Entry k v)
    have key: "eq k k' \<and> eq v v'" if "(k', v') \<in> set (cell_all c')" for k' v'
      using right [OF that] e by (auto split: if_splits)
    show ?thesis
    proof (cases c')
      case Empty
      with left [of k v] e show ?thesis by simp
    next
      case (Entry k' v')
      with key e show ?thesis by (simp add: entry_equal_def)
    next
      case (Child t)
      with child_other_key [of d s t k] ok(2) key show ?thesis by auto
    qed
  next
    case c: (Child t)
    show ?thesis
    proof (cases c')
      case Empty
      with left child_nonempty [of d s t] ok(1) c show ?thesis by auto
    next
      case (Entry k v)
      have "eq k k'" if "(k', v') \<in> set (entries t)" for k' v'
        using left [of k' v'] that c Entry by (auto split: if_splits)
      with child_other_key [of d s t k] ok(1) c show ?thesis by blast
    next
      case (Child t')
      with rec c show ?thesis by simp
    qed
  qed
qed

lemma same_bindings_cell:
  assumes wf: "twf eq hv d (Branch cs)" "twf eq hv d (Branch cs')" and same: "same_bindings d (Branch cs) (Branch cs')"
    and s: "s < 16"
  shows "rel_option eq (c_get eq (cs ! s) k (hv k) d) (c_get eq (cs' ! s) k (hv k) d)"
proof (cases "slot (hv k) d = s")
  case True
  with same branch_at(1) [OF wf(1)] show ?thesis by (auto simp: same_bindings_def t_get_Branch)
next
  case False
  have "cell_ok eq hv d s (cs ! s)" "cell_ok eq hv d s (cs' ! s)" using wf s by (auto simp: twf_Branch)
  with False cell_lookup_slot have "c_get eq (cs ! s) k (hv k) d = None" "c_get eq (cs' ! s) k (hv k) d = None"
    by (metis not_Some_eq)+
  then show ?thesis by simp
qed

lemma collision_complete:
  assumes "cdistinct eq es" "cdistinct eq es'" "refl_keys es" "refl_keys es'"
    and same: "\<And>k. rel_option eq (cfind eq es k) (cfind eq es' k)"
  shows "collision_equal eq es es'"
proof -
  have half: "\<exists>e' \<in> set ys. eq (fst e) (fst e') \<and> R (snd e) (snd e')"
    if "cdistinct eq xs" "refl_keys xs" "e \<in> set xs" "\<And>k. rel_option R (cfind eq xs k) (cfind eq ys k)" for xs ys e R
  proof -
    have "cfind eq xs (fst e) = Some (snd e)"
      using that(1-3) by (intro cfind_member [of xs "fst e"]) (auto simp: refl_keys_def)
    with that(4) [of "fst e"] obtain v where "cfind eq ys (fst e) = Some v" "R (snd e) v"
      by (auto simp: option_rel_Some1)
    moreover from this obtain k' where "(k', v) \<in> set ys" "eq k' (fst e)" using cfind_Some by blast
    ultimately show ?thesis using eq_sym [of k' "fst e"] by (intro bexI [of _ "(k', v)"]) simp_all
  qed
  have le: "length xs \<le> length ys"
    if d: "cdistinct eq xs" and h: "\<And>e. e \<in> set xs \<Longrightarrow> \<exists>e' \<in> set ys. eq (fst e) (fst e')" for xs ys :: "('v \<times> 'v) list"
  proof -
    have "\<forall>i < length xs. \<exists>j < length ys. eq (fst (xs ! i)) (fst (ys ! j))"
      using h by (metis in_set_conv_nth nth_mem)
    then obtain f where f: "\<And>i. i < length xs \<Longrightarrow> f i < length ys \<and> eq (fst (xs ! i)) (fst (ys ! f i))" by metis
    have "inj_on f {..<length xs}"
    proof (rule linorder_inj_onI)
      fix i j assume ij: "i < j" "i \<in> {..<length xs}" "j \<in> {..<length xs}"
      have "\<not> eq (fst (xs ! i)) (fst (xs ! j))" using d ij by (intro cdistinct_nth) simp_all
      then show "f i \<noteq> f j" using f [of i] f [of j] ij eq_sym eq_trans by (metis lessThan_iff)
    qed auto
    moreover have "f ` {..<length xs} \<subseteq> {..<length ys}" using f by auto
    ultimately show ?thesis using card_inj_on_le [of f "{..<length xs}" "{..<length ys}"] by simp
  qed
  have "\<exists>e' \<in> set es'. entry_equal eq e e'" if "e \<in> set es" for e
    using half [OF assms(1,3) that same] by (simp add: entry_equal_def)
  moreover have "\<exists>e' \<in> set es. eq (fst e) (fst e')" if "e \<in> set es'" for e
  proof -
    have "rel_option (\<lambda>a b. eq b a) (cfind eq es' k) (cfind eq es k)" for k
      using same [of k] by (cases "cfind eq es k"; cases "cfind eq es' k") auto
    from half [OF assms(2,4) that this] show ?thesis by blast
  qed
  ultimately show ?thesis
    using le [OF assms(1), of es'] le [OF assms(2), of es] by (force simp: collision_equal_def entry_equal_def)
qed

lemma t_equal_complete:
  assumes "twf eq hv d t" "twf eq hv d u" "refl_keys (entries t)" "refl_keys (entries u)" "same_bindings d t u"
  shows "t_equal eq t u"
  using assms
proof (induction t arbitrary: u d rule: trie_induct)
  case (Collision es)
  then obtain es' where u: "u = Collision es'" by (cases u) (auto simp: twf_Branch)
  with Collision.prems show ?case by (auto simp: same_bindings_def intro!: collision_complete)
next
  case (Branch cs)
  then obtain cs' where u: "u = Branch cs'" by (cases u) (auto simp: twf_Branch)
  note wf = Branch.prems(1) Branch.prems(2) [unfolded u]
  have len: "length cs = 16" "length cs' = 16" using wf by (auto simp: twf_Branch)
  have "cell_equal eq (cs ! s) (cs' ! s)" if s: "s < 16" for s
  proof (rule cell_complete)
    show ok: "cell_ok eq hv d s (cs ! s)" "cell_ok eq hv d s (cs' ! s)" using wf s by (auto simp: twf_Branch)
    have mem: "cs ! s \<in> set cs" "cs' ! s \<in> set cs'" using s len by auto
    then show refl: "refl_keys (cell_all (cs ! s))" "refl_keys (cell_all (cs' ! s))"
      using Branch.prems(3,4) by (auto simp: u refl_keys_def set_entries_Branch)
    show same: "rel_option eq (c_get eq (cs ! s) k (hv k) d) (c_get eq (cs' ! s) k (hv k) d)" for k
      by (rule same_bindings_cell [OF wf Branch.prems(5) [unfolded u] s])
    fix t t' assume tt: "cs ! s = Child t" "cs' ! s = Child t'"
    show "t_equal eq t t'"
      by (rule Branch.IH [of t "Suc d"]) (use tt ok refl same mem in \<open>auto simp: same_bindings_def\<close>)
  qed
  with len show ?case by (simp add: u cells_equal_all2 list_all2_conv_all_nth)
qed

lemma collision_lookup:
  assumes "collision_equal eq es es'" "cdistinct eq es" "cdistinct eq es'"
  shows "rel_option eq (cfind eq es k) (cfind eq es' k)"
proof -
  obtain f where f: "bij_betw f {..<length es} {..<length es'}"
    "\<And>i. i < length es \<Longrightarrow> entry_equal eq (es ! i) (es' ! f i)"
    by (rule collision_bij [OF assms(1,2)]) (metis eq_sym eq_trans, blast)
  show ?thesis
  proof (cases "cfind eq es k")
    case None
    have "\<not> eq (fst e') k" if "e' \<in> set es'" for e'
    proof -
      from that obtain j where "j < length es'" "es' ! j = e'" by (metis in_set_conv_nth)
      then obtain i where "i < length es" "f i = j" using f(1) by (metis bij_betw_iff_bijections lessThan_iff)
      then have "eq (fst (es ! i)) (fst e')" "es ! i \<in> set es"
        using f(2) \<open>es' ! j = e'\<close> by (auto simp: entry_equal_def)
      with None show ?thesis using eq_trans by (metis cfind_None)
    qed
    with None show ?thesis by (metis cfind_None option.rel_inject(1))
  next
    case (Some v)
    from cfind_Some [OF Some] obtain k' where k': "(k', v) \<in> set es" "eq k' k" by blast
    with assms(1) obtain e' where "e' \<in> set es'" "entry_equal eq (k', v) e'"
      unfolding collision_equal_def by blast
    then have e': "e' \<in> set es'" "eq k' (fst e')" "eq v (snd e')" by (simp_all add: entry_equal_def)
    have "eq (fst e') k" using eq_trans [OF eq_sym [OF e'(2)] k'(2)] .
    then have "cfind eq es' k = Some (snd e')"
      using e'(1) by (intro cfind_member [OF assms(3), of "fst e'"]) simp_all
    with Some e'(3) show ?thesis by simp
  qed
qed

lemma t_equal_sound: "t_equal eq t u \<Longrightarrow> twf eq hv d t \<Longrightarrow> twf eq hv d u \<Longrightarrow> same_bindings d t u"
proof (induction arbitrary: d rule: t_equal_induct)
  case (Collision es es')
  then show ?case by (simp add: same_bindings_def collision_lookup)
next
  case (Branch cs cs')
  have "rel_option eq (c_get eq (cs ! slot (hv k) d) k (hv k) d) (c_get eq (cs' ! slot (hv k) d) k (hv k) d)" for k
  proof -
    let ?s = "slot (hv k) d"
    have len: "length cs = 16" "length cs' = 16" using Branch.prems by (auto simp: twf_Branch)
    have ok: "cell_ok eq hv d ?s (cs ! ?s)" "cell_ok eq hv d ?s (cs' ! ?s)"
      using Branch.prems by (auto simp: twf_Branch)
    have ce: "cell_equal eq (cs ! ?s) (cs' ! ?s)" using Branch.hyps len by (auto simp: list_all2_conv_all_nth)
    show ?thesis
    proof (cases "cs ! ?s")
      case c: (Child t)
      with ce obtain u where u: "cs' ! ?s = Child u" "t_equal eq t u" by (cases "cs' ! ?s") auto
      have "same_bindings (Suc d) t u"
        using Branch.IH [OF child_in [OF len(1) c] child_in [OF len(2) u(1)] u(2)] ok c u(1) by simp
      then show ?thesis by (simp add: c u(1) same_bindings_def)
    next
      case Empty
      with ce show ?thesis by (cases "cs' ! ?s") auto
    next
      case (Entry k1 v1)
      with ce obtain k2 v2 where "cs' ! ?s = Entry k2 v2" "eq k1 k2" "eq v1 v2"
        by (cases "cs' ! ?s") (auto simp: entry_equal_def)
      then show ?thesis using Entry eq_left by auto
    qed
  qed
  then show ?case
    using Branch.prems(1) by (simp add: same_bindings_def t_get_Branch [OF branch_at(1) [OF Branch.prems(1)]])
qed

end

end
