(* ===== verification/Champ_Keys.thy ===== *)
theory Champ_Keys
  imports Champ_Equal
begin

text \<open>
  Maps whose keys are well-formed. Equality of Brood values is lawful on well-formed values only, and the
  runtime only ever makes those; the interface here asks the laws of the good keys alone. Restricting
  the equality to them gives a lawful equality, and the map operations cannot tell the two apart on a
  map of good keys, so every law of the maps carries over.
\<close>

section \<open>Operations only compare the keys at hand\<close>

definition keys_in :: "('v \<Rightarrow> bool) \<Rightarrow> 'v trie \<Rightarrow> bool" where
  "keys_in good t \<longleftrightarrow> (\<forall>e \<in> set (entries t). good (fst e))"

definition guard :: "('v \<Rightarrow> bool) \<Rightarrow> ('v \<Rightarrow> 'v \<Rightarrow> bool) \<Rightarrow> 'v \<Rightarrow> 'v \<Rightarrow> bool" where
  "guard good eq a b \<longleftrightarrow> good a \<and> good b \<and> eq a b"

lemma keys_in_Collision [simp]: "keys_in good (Collision es) \<longleftrightarrow> (\<forall>e \<in> set es. good (fst e))"
  by (simp add: keys_in_def)

lemma keys_in_cell: "keys_in good (Branch cs) \<Longrightarrow> c \<in> set cs \<Longrightarrow> e \<in> set (cell_all c) \<Longrightarrow> good (fst e)"
  by (auto simp: keys_in_def set_entries_Branch)

lemma keys_in_child: "keys_in good (Branch cs) \<Longrightarrow> Child t \<in> set cs \<Longrightarrow> keys_in good t"
  using keys_in_cell [of good cs "Child t"] by (simp add: keys_in_def)

lemma keys_in_entry: "keys_in good (Branch cs) \<Longrightarrow> Entry k v \<in> set cs \<Longrightarrow> good k"
  using keys_in_cell [of good cs "Entry k v" "(k, v)"] by simp

lemma cell_in: "length cs = 16 \<Longrightarrow> cs ! slot h d = c \<Longrightarrow> c \<in> set cs"
  by (metis nth_mem slot_less)

lemma position_cong: "(\<And>x. x \<in> set xs \<Longrightarrow> p x = q x) \<Longrightarrow> position p xs = position q xs"
  by (induction xs) auto

lemma guard_key: "good k \<Longrightarrow> good a \<Longrightarrow> guard good eq a k = eq a k"
  by (simp add: guard_def)

lemma position_guard:
  "\<forall>e \<in> set es. good (fst e) \<Longrightarrow> good k \<Longrightarrow> position (\<lambda>e. guard good eq (fst e) k) es = position (\<lambda>e. eq (fst e) k) es"
  by (rule position_cong) (simp add: guard_def)

lemma cdistinct_guard: "\<forall>e \<in> set es. good (fst e) \<Longrightarrow> cdistinct (guard good eq) es = cdistinct eq es"
  unfolding cdistinct_def by (induction es) (auto simp: guard_def)

lemma twf_guard: "keys_in good t \<Longrightarrow> twf (guard good eq) hv d t = twf eq hv d t"
proof (induction t arbitrary: d rule: trie_induct)
  case (Collision es)
  then show ?case by (simp add: cdistinct_guard)
next
  case (Branch cs)
  have "cell_ok (guard good eq) hv d s c = cell_ok eq hv d s c" if "c \<in> set cs" for c s
  proof (cases c)
    case (Child t)
    with Branch.IH [of t "Suc d"] keys_in_child [OF Branch.prems, of t] that show ?thesis by simp
  qed simp_all
  then show ?case unfolding twf_Branch by (metis nth_mem)
qed

lemma cfind_guard:
  "\<forall>e \<in> set es. good (fst e) \<Longrightarrow> good k \<Longrightarrow> cfind (guard good eq) es k = cfind eq es k"
  unfolding cfind_def position_find [symmetric] by (simp add: position_guard)

lemma t_get_guard:
  "keys_in good t \<Longrightarrow> twf eq hv d t \<Longrightarrow> good k \<Longrightarrow> t_get (guard good eq) t k h d = t_get eq t k h d"
proof (induction t arbitrary: d rule: trie_induct)
  case (Collision es)
  then show ?case by (simp add: cfind_guard)
next
  case (Branch cs)
  note at = branch_at(1,2) [OF Branch.prems(2)] branch_at(3) [OF Branch.prems(2), of h]
  note mem = cell_in [OF at(2) refl, of h d]
  show ?case
    unfolding t_get_Branch [OF at(1)]
    using Branch.IH [of _ "Suc d"] keys_in_child [OF Branch.prems(1)] keys_in_entry [OF Branch.prems(1)] at(3) mem Branch.prems(3)
    by (cases "cs ! slot h d") (auto simp: guard_key)
qed

lemma c_put_guard:
  "\<forall>e \<in> set es. good (fst e) \<Longrightarrow> good k \<Longrightarrow> c_put (guard good eq) es k v = c_put eq es k v"
  by (simp add: c_put_def position_guard)

lemma c_del_guard:
  "\<forall>e \<in> set es. good (fst e) \<Longrightarrow> good k \<Longrightarrow> c_del (guard good eq) es k = c_del eq es k"
  by (simp add: c_del_def position_guard)

lemma t_assoc_guard:
  "keys_in good t \<Longrightarrow> twf eq hv d t \<Longrightarrow> good k \<Longrightarrow> t_assoc (guard good eq) hv t k v h d = t_assoc eq hv t k v h d"
proof (induction t arbitrary: d rule: trie_induct)
  case (Collision es)
  then show ?case by (simp add: c_put_guard)
next
  case (Branch cs)
  note at = branch_at(1,2) [OF Branch.prems(2)] branch_at(3) [OF Branch.prems(2), of h]
  note mem = cell_in [OF at(2) refl, of h d]
  show ?case
    using Branch.IH [of _ "Suc d"] keys_in_child [OF Branch.prems(1)] keys_in_entry [OF Branch.prems(1)] at mem Branch.prems(3)
    by (cases "cs ! slot h d") (auto simp: guard_key)
qed

lemma t_dissoc_guard:
  "keys_in good t \<Longrightarrow> twf eq hv d t \<Longrightarrow> good k \<Longrightarrow> t_dissoc (guard good eq) t k h d = t_dissoc eq t k h d"
proof (induction t arbitrary: d rule: trie_induct)
  case (Collision es)
  then show ?case by (simp add: c_del_guard)
next
  case (Branch cs)
  note at = branch_at(1,2) [OF Branch.prems(2)] branch_at(3) [OF Branch.prems(2), of h]
  note mem = cell_in [OF at(2) refl, of h d]
  show ?case
    using Branch.IH [of _ "Suc d"] keys_in_child [OF Branch.prems(1)] keys_in_entry [OF Branch.prems(1)] at mem Branch.prems(3)
    by (cases "cs ! slot h d") (auto simp: guard_key Let_def)
qed

lemma t_equal_guard:
  assumes "set_trie t \<subseteq> Collect good" "set_trie u \<subseteq> Collect good"
  shows "t_equal (guard good eq) t u = t_equal eq t u"
  by (rule t_equal_cong) (use assms in \<open>auto simp: guard_def\<close>)

section \<open>The interface\<close>

text \<open>The invariant of a map handle: it represents a well-formed trie of good keys.\<close>

definition key_map :: "('v \<Rightarrow> bool) \<Rightarrow> ('v \<Rightarrow> 'v \<Rightarrow> bool) \<Rightarrow> ('v \<Rightarrow> u64) \<Rightarrow> 'v heap \<Rightarrow> handle \<Rightarrow> bool" where
  "key_map good eq hv h mid \<longleftrightarrow> (\<exists>t. repr h mid t \<and> twf eq hv 0 t \<and> keys_in good t)"

definition keeps_key_maps :: "('v \<Rightarrow> bool) \<Rightarrow> ('v \<Rightarrow> 'v \<Rightarrow> bool) \<Rightarrow> ('v \<Rightarrow> u64) \<Rightarrow> 'v heap \<Rightarrow> 'v heap \<Rightarrow> bool" where
  "keeps_key_maps good eq hv h h' \<longleftrightarrow>
     (\<forall>mid. key_map good eq hv h mid \<longrightarrow>
        key_map good eq hv h' mid \<and> (\<forall>k. map_get eq hv h' mid k = map_get eq hv h mid k) \<and>
        map_entries h' mid = map_entries h mid)"

lemma keeps_key_maps_agree: "agree {} h h' \<Longrightarrow> keeps_key_maps good eq hv h h'"
  unfolding keeps_key_maps_def key_map_def by (metis map_entries_repr map_get_repr repr_agree)

text \<open>The outcome of every operation that returns a map: it represents \<open>t'\<close> and the old maps are kept.\<close>

lemma post_key_map:
  assumes "post w h F b h' mid' t'" "F = {}" "twf eq hv 0 t'" "keys_in good t'"
  shows "key_map good eq hv h' mid' \<and> keeps_key_maps good eq hv h h' \<and> length (local_maps h') \<le> length (local_maps h) + b \<and>
    map_entries h' mid' = Some (entries t') \<and> (\<forall>k. map_get eq hv h' mid' k = Some (t_get eq t' k (hv k) 0))"
proof -
  have "repr h' mid' t'" "agree {} h h'" "length (local_maps h') \<le> length (local_maps h) + b"
    using assms(1,2) by (auto simp: post_def repr_def dest: reprF_forget(1))
  with assms(3,4) show ?thesis
    using keeps_key_maps_agree by (auto simp: key_map_def map_entries_repr map_get_repr)
qed

locale key_laws =
  fixes good :: "'v \<Rightarrow> bool" and eq :: "'v \<Rightarrow> 'v \<Rightarrow> bool" and hv :: "'v \<Rightarrow> u64"
  assumes good_sym: "good a \<Longrightarrow> good b \<Longrightarrow> eq a b \<Longrightarrow> eq b a"
    and good_trans: "good a \<Longrightarrow> good b \<Longrightarrow> good c \<Longrightarrow> eq a b \<Longrightarrow> eq b c \<Longrightarrow> eq a c"
    and good_hash: "good a \<Longrightarrow> good b \<Longrightarrow> eq a b \<Longrightarrow> hv a = hv b"

sublocale key_laws \<subseteq> guarded: key_equality "guard good eq" hv
  by unfold_locales (auto simp: guard_def intro: good_sym good_hash, blast intro: good_trans)

context key_laws
begin

lemma twf_assoc: "keys_in good t \<Longrightarrow> twf eq hv 0 t \<Longrightarrow> good k \<Longrightarrow>
   twf eq hv 0 (t_assoc eq hv t k v (hv k) 0) \<and> keys_in good (t_assoc eq hv t k v (hv k) 0)"
proof -
  assume t: "keys_in good t" "twf eq hv 0 t" and k: "good k"
  have g: "twf (guard good eq) hv 0 t" using t by (simp add: twf_guard)
  have e: "t_assoc (guard good eq) hv t k v (hv k) 0 = t_assoc eq hv t k v (hv k) 0" by (rule t_assoc_guard [OF t k])
  have "keys_in good (t_assoc eq hv t k v (hv k) 0)"
    unfolding keys_in_def
  proof
    fix x assume "x \<in> set (entries (t_assoc eq hv t k v (hv k) 0))"
    then have "fst x \<in> insert k (fst ` set (entries t))" using guarded.keys_t_assoc [OF g, of k v] unfolding e by blast
    then show "good (fst x)" using t(1) k unfolding keys_in_def by (metis imageE insertE)
  qed
  with guarded.twf_t_assoc [OF g, of k v] show ?thesis unfolding e by (simp add: twf_guard)
qed

lemma get_assoc: "keys_in good t \<Longrightarrow> twf eq hv 0 t \<Longrightarrow> good k \<Longrightarrow> good k' \<Longrightarrow>
   t_get eq (t_assoc eq hv t k v (hv k) 0) k' (hv k') 0 = (if eq k k' then Some v else t_get eq t k' (hv k') 0)"
proof -
  assume t: "keys_in good t" "twf eq hv 0 t" and k: "good k" "good k'"
  have g: "twf (guard good eq) hv 0 t" using t by (simp add: twf_guard)
  note a = twf_assoc [OF t k(1), of v]
  have e: "t_assoc (guard good eq) hv t k v (hv k) 0 = t_assoc eq hv t k v (hv k) 0" by (rule t_assoc_guard [OF t k(1)])
  show ?thesis
    using guarded.t_get_t_assoc [OF g, of k v k'] t_get_guard [OF t k(2), of "hv k'"]
      t_get_guard [of good "t_assoc eq hv t k v (hv k) 0" eq hv 0 k' "hv k'"] a k
    unfolding e by (simp add: guard_def)
qed

lemma twf_dissoc: "keys_in good t \<Longrightarrow> twf eq hv 0 t \<Longrightarrow> good k \<Longrightarrow>
   twf eq hv 0 (t_dissoc eq t k (hv k) 0) \<and> keys_in good (t_dissoc eq t k (hv k) 0) \<and>
   (\<forall>k'. good k' \<longrightarrow> t_get eq (t_dissoc eq t k (hv k) 0) k' (hv k') 0 = (if eq k k' then None else t_get eq t k' (hv k') 0))"
proof -
  assume t: "keys_in good t" "twf eq hv 0 t" and k: "good k"
  let ?u = "t_dissoc eq t k (hv k) 0"
  have g: "twf (guard good eq) hv 0 t" using t by (simp add: twf_guard)
  have e: "t_dissoc (guard good eq) t k (hv k) 0 = ?u" by (rule t_dissoc_guard [OF t k])
  have rem: "guarded.removed k 0 t ?u" using guarded.t_dissoc_removed [OF g, of k] unfolding e .
  then have "set (entries ?u) \<subseteq> set (entries t)" by (simp add: guarded.removed_def)
  then have keys: "keys_in good ?u" using t(1) by (auto simp: keys_in_def)
  with rem have wf: "twf eq hv 0 ?u" by (simp add: guarded.removed_def twf_guard)
  have "t_get eq ?u k' (hv k') 0 = (if eq k k' then None else t_get eq t k' (hv k') 0)" if "good k'" for k'
  proof -
    have "t_get (guard good eq) ?u k' (hv k') 0 = (if guard good eq k k' then None else t_get (guard good eq) t k' (hv k') 0)"
      using rem unfolding guarded.removed_def by blast
    then show ?thesis
      unfolding t_get_guard [OF t that] t_get_guard [OF keys wf that] using that k by (simp add: guard_key)
  qed
  with keys wf show ?thesis by blast
qed

lemma twf_assoc_all: "keys_in good t \<Longrightarrow> twf eq hv 0 t \<Longrightarrow> \<forall>e \<in> set pairs. good (fst e) \<Longrightarrow>
   twf eq hv 0 (t_assoc_all eq hv pairs t) \<and> keys_in good (t_assoc_all eq hv pairs t) \<and>
   (\<forall>k. good k \<longrightarrow> t_get eq (t_assoc_all eq hv pairs t) k (hv k) 0 = last_assoc eq pairs k (t_get eq t k (hv k) 0))"
proof (induction pairs arbitrary: t)
  case Nil
  then show ?case by (simp add: t_assoc_all_def last_assoc_def)
next
  case (Cons e pairs)
  obtain k v where e: "e = (k, v)" by (cases e)
  with Cons.prems have k: "good k" by simp
  note a = twf_assoc [OF Cons.prems(1,2) k, of v]
  from Cons.IH [of "t_assoc eq hv t k v (hv k) 0"] a Cons.prems(3) show ?case
    using get_assoc [OF Cons.prems(1,2) k, of _ v] by (simp add: e t_assoc_all_def last_assoc_def)
qed

definition twf_keys :: "'v trie \<Rightarrow> bool" where
  "twf_keys t \<longleftrightarrow> twf eq hv 0 t \<and> keys_in good t"

lemma assoc_law:
  assumes "key_map good eq hv h mid" "slab_room 17 h" "good k"
  shows "\<exists>h' mid'. map_assoc eq hv h mid k v = Some (h', mid') \<and> key_map good eq hv h' mid' \<and> keeps_key_maps good eq hv h h' \<and>
    length (local_maps h') \<le> length (local_maps h) + 17 \<and>
    (\<forall>k'. good k' \<longrightarrow> map_get eq hv h' mid' k' = (if eq k k' then Some (Some v) else map_get eq hv h mid k'))"
proof -
  from assms(1) obtain t where t: "repr h mid t" "twf eq hv 0 t" "keys_in good t" by (auto simp: key_map_def)
  have "room None h (17 - 0)" using assms(2) by (simp add: room_def slab_room_def)
  from champ_assoc_refines [OF t(1) [unfolded repr_def] t(2) this, of k v "hv k"] obtain h' mid' where
    r: "map_assoc eq hv h mid k v = Some (h', mid')" "post None h {} 17 h' mid' (t_assoc eq hv t k v (hv k) 0)"
    by (auto simp: map_assoc_def)
  note a = twf_assoc [OF t(3,2) assms(3), of v]
  show ?thesis
    using post_key_map [OF r(2) refl conjunct1 [OF a] conjunct2 [OF a]] r(1) get_assoc [OF t(3,2) assms(3), of _ v]
      map_get_repr [OF t(1,2)] by auto
qed

lemma dissoc_law:
  assumes "key_map good eq hv h mid" "slab_room 17 h" "good k"
  shows "\<exists>h' mid'. map_dissoc eq hv h mid k = Some (h', mid') \<and> key_map good eq hv h' mid' \<and> keeps_key_maps good eq hv h h' \<and>
    length (local_maps h') \<le> length (local_maps h) + 17 \<and>
    (\<forall>k'. good k' \<longrightarrow> map_get eq hv h' mid' k' = (if eq k k' then Some None else map_get eq hv h mid k'))"
proof -
  from assms(1) obtain t where t: "repr h mid t" "twf eq hv 0 t" "keys_in good t" by (auto simp: key_map_def)
  have "room None h (17 - 0)" using assms(2) by (simp add: room_def slab_room_def)
  from champ_dissoc_refines [OF t(1) [unfolded repr_def] t(2) this, of k] obtain h' mid' where
    r: "map_dissoc eq hv h mid k = Some (h', mid')" "post None h {} 17 h' mid' (t_dissoc eq t k (hv k) 0)"
    by (auto simp: map_dissoc_def)
  note a = twf_dissoc [OF t(3,2) assms(3)]
  show ?thesis
    using post_key_map [OF r(2) refl conjunct1 [OF a] conjunct1 [OF conjunct2 [OF a]]] r(1) a map_get_repr [OF t(1,2)] by auto
qed

lemma entries_law:
  assumes "key_map good eq hv h mid"
  shows "\<exists>es. map_entries h mid = Some es \<and> cdistinct eq es \<and> (\<forall>e \<in> set es. good (fst e)) \<and>
    (\<forall>k. good k \<longrightarrow> map_get eq hv h mid k = Some (cfind eq es k)) \<and>
    map_size h mid = Some (length es mod 2 ^ 32) \<and> map_first_entry (MAX_DEPTH + 1) h mid = Some (first_of es)"
proof -
  from assms obtain t where t: "repr h mid t" "twf eq hv 0 t" "keys_in good t" by (auto simp: key_map_def)
  have g: "twf (guard good eq) hv 0 t" using t by (simp add: twf_guard)
  have keys: "\<forall>e \<in> set (entries t). good (fst e)" using t(3) by (simp add: keys_in_def)
  have "t_get eq t k (hv k) 0 = cfind eq (entries t) k" if "good k" for k
    using guarded.t_get_cfind [OF g, of k] t_get_guard [OF t(3,2) that, of "hv k"] cfind_guard [OF keys that] by simp
  moreover have "cdistinct eq (entries t)" using guarded.cdistinct_entries [OF g] cdistinct_guard [OF keys] by simp
  moreover have "map_first_entry (MAX_DEPTH + 1) h mid = Some (first_of (entries t))"
    using map_first_entry_refines [of h mid t eq hv 0 17] t(1,2) by (simp add: repr_def MAX_DEPTH_def BITS_PER_LEVEL_def)
  ultimately show ?thesis
    using t(1,2) keys by (auto simp: map_entries_repr map_get_repr map_size_repr)
qed

lemma from_pairs_law:
  assumes "slab_room (17 * length pairs + 1) h" "\<forall>e \<in> set pairs. good (fst e)"
  shows "\<exists>h' mid'. map_from_pair_iter eq hv h pairs = Some (h', mid') \<and> key_map good eq hv h' mid' \<and>
    keeps_key_maps good eq hv h h' \<and> length (local_maps h') \<le> length (local_maps h) + 17 * length pairs + 1 \<and>
    (\<forall>k. good k \<longrightarrow> map_get eq hv h' mid' k = Some (last_assoc eq pairs k None))"
proof -
  have k0: "keys_in good t_empty" by (simp add: keys_in_def t_empty_def set_entries_Branch)
  note a = twf_assoc_all [OF k0 twf_t_empty assms(2)]
  have "twf_keys (t_assoc eq hv t k v (hv k) 0)" if "twf_keys t" "(k, v) \<in> set pairs" for t k v
    using twf_assoc [of t k v] that assms(2) by (auto simp: twf_keys_def)
  from from_pairs_refines [of twf_keys, OF _ this _ assms(1)] k0 twf_t_empty obtain h' mid' where
    r: "map_from_pair_iter eq hv h pairs = Some (h', mid')"
      "post (Some (length (local_maps h))) h {} (1 + 17 * length pairs) h' mid' (t_assoc_all eq hv pairs t_empty)"
    by (auto simp: twf_keys_def)
  from post_key_map [OF r(2) refl conjunct1 [OF a] conjunct1 [OF conjunct2 [OF a]]] r(1) a show ?thesis
    by (auto simp: t_get_t_empty)
qed

lemma pairs_into_law:
  assumes "key_map good eq hv h mid" "slab_room (17 * length pairs) h" "\<forall>e \<in> set pairs. good (fst e)"
  shows "\<exists>h' mid'. map_from_pairs_into eq hv h mid pairs = Some (h', mid') \<and> key_map good eq hv h' mid' \<and>
    keeps_key_maps good eq hv h h' \<and> length (local_maps h') \<le> length (local_maps h) + 17 * length pairs \<and>
    (\<forall>k. good k \<longrightarrow> map_get eq hv h' mid' k = map_option (last_assoc eq pairs k) (map_get eq hv h mid k))"
proof -
  from assms(1) obtain t where t: "repr h mid t" "twf eq hv 0 t" "keys_in good t" by (auto simp: key_map_def)
  note a = twf_assoc_all [OF t(3,2) assms(3)]
  have "twf_keys (t_assoc eq hv t k v (hv k) 0)" if "twf_keys t" "(k, v) \<in> set pairs" for t k v
    using twf_assoc [of t k v] that assms(3) by (auto simp: twf_keys_def)
  from pairs_into_refines [of twf_keys, OF _ this t(1) _ assms(2)] t obtain h' mid' where
    r: "map_from_pairs_into eq hv h mid pairs = Some (h', mid')"
      "post (Some (length (local_maps h))) h {} (17 * length pairs) h' mid' (t_assoc_all eq hv pairs t)"
    by (auto simp: twf_keys_def)
  from post_key_map [OF r(2) refl conjunct1 [OF a] conjunct1 [OF conjunct2 [OF a]]] r(1) a show ?thesis
    by (auto simp: map_get_repr [OF t(1,2)])
qed

lemma same_bindings_good:
  assumes g: "twf (guard good eq) hv 0 t" "twf (guard good eq) hv 0 u" and t: "twf eq hv 0 t" "keys_in good t"
    and u: "twf eq hv 0 u" "keys_in good u" and sub: "set_trie t \<subseteq> Collect good" "set_trie u \<subseteq> Collect good"
  shows "guarded.same_bindings 0 t u \<longleftrightarrow>
    (\<forall>k. good k \<longrightarrow> rel_option eq (t_get eq t k (hv k) 0) (t_get eq u k (hv k) 0))"
proof -
  have at: "rel_option (guard good eq) (t_get (guard good eq) t k (hv k) 0) (t_get (guard good eq) u k (hv k) 0) \<longleftrightarrow>
      (good k \<longrightarrow> rel_option eq (t_get eq t k (hv k) 0) (t_get eq u k (hv k) 0))" for k
  proof (cases "good k")
    case True
    have val: "good v" if "t_get (guard good eq) w k (hv k) 0 = Some v" "twf (guard good eq) hv 0 w" "set_trie w \<subseteq> Collect good" for w v
      using guarded.t_get_in_entries [OF that(2,1)] that(3) by (force simp: set_trie_entries)
    show ?thesis
      using True val [OF _ g(1) sub(1)] val [OF _ g(2) sub(2)]
      unfolding t_get_guard [OF t(2,1) True] t_get_guard [OF u(2,1) True]
      by (cases "t_get eq t k (hv k) 0"; cases "t_get eq u k (hv k) 0") (auto simp: guard_def)
  next
    case False
    have "t_get (guard good eq) w k (hv k) 0 = None" if "twf (guard good eq) hv 0 w" for w
      using guarded.t_get_in_entries [OF that, of k "hv k"] False by (cases "t_get (guard good eq) w k (hv k) 0") (auto simp: guard_def)
    with g False show ?thesis by simp
  qed
  show ?thesis unfolding guarded.same_bindings_def by (simp only: at)
qed

lemma equal_law:
  assumes "key_map good eq hv h x" "key_map good eq hv h y"
    and "\<And>mid es e. mid \<in> {x, y} \<Longrightarrow> map_entries h mid = Some es \<Longrightarrow> e \<in> set es \<Longrightarrow> good (snd e) \<and> eq (fst e) (fst e)"
  shows "\<exists>b. map_equal eq (MAX_DEPTH + 1) h x y = Some b \<and>
    (b \<longleftrightarrow> (\<forall>k. good k \<longrightarrow> rel_option (rel_option eq) (map_get eq hv h x k) (map_get eq hv h y k)))"
proof -
  from assms(1,2) obtain t u where t: "repr h x t" "twf eq hv 0 t" "keys_in good t" and u: "repr h y u" "twf eq hv 0 u" "keys_in good u"
    by (auto simp: key_map_def)
  note et = assms(3) [OF _ map_entries_repr [OF t(1,2)]] and eu = assms(3) [OF _ map_entries_repr [OF u(1,2)]]
  have sub: "set_trie t \<subseteq> Collect good" "set_trie u \<subseteq> Collect good"
    using et eu t(3) u(3) by (auto simp: set_trie_entries keys_in_def)
  have refl: "guarded.refl_keys (entries t)" "guarded.refl_keys (entries u)"
    using et eu t(3) u(3) by (auto simp: guarded.refl_keys_def guard_def keys_in_def)
  have g: "twf (guard good eq) hv 0 t" "twf (guard good eq) hv 0 u" using t u by (simp_all add: twf_guard)
  have "map_equal eq (MAX_DEPTH + 1) h x y = Some (t_equal eq t u)"
    using map_equal_refines [of h x t y u eq hv 0 17 eq] t u by (simp add: repr_def MAX_DEPTH_def BITS_PER_LEVEL_def)
  moreover have "t_equal eq t u \<longleftrightarrow> guarded.same_bindings 0 t u"
    using guarded.t_equal_sound [of t u 0] guarded.t_equal_complete [of 0 t u] g refl t_equal_guard [OF sub, of eq] by blast
  moreover have "guarded.same_bindings 0 t u \<longleftrightarrow>
      (\<forall>k. good k \<longrightarrow> rel_option eq (t_get eq t k (hv k) 0) (t_get eq u k (hv k) 0))"
    by (rule same_bindings_good [OF g t(2,3) u(2,3) sub])
  ultimately show ?thesis
    by (simp add: map_get_repr [OF t(1,2)] map_get_repr [OF u(1,2)])
qed

end

end
