(* ===== verification/Interner.thy ===== *)
theory Interner
  imports Brood_Prelude
begin

text \<open>
  The symbol interner of \<open>core/value.rs\<close>: the append-only table of spellings, the table of spelling
  hashes kept in lockstep with it, the map from spelling to id and the counter of qualified names,
  with the two per-thread caches in front of them. A Rust \<open>String\<close> is its UTF-8 bytes. A symbol
  is a 32-bit index into the table of spellings; reading one that is not in the table panics (\<open>None\<close>).
\<close>

type_synonym rstring = "u8 list"
type_synonym symbol = u32

section \<open>Spelling hashes\<close>

text \<open>FNV-1a, nudged away from zero.\<close>

definition hash_step :: "u64 \<Rightarrow> u8 \<Rightarrow> u64" where
  "hash_step h b = (h XOR ucast b) * 0x100000001b3"

definition hash_name :: "rstring \<Rightarrow> u64" where
  "hash_name name =
     (let hash = foldl hash_step 0xcbf29ce484222325 name in if hash = 0 then 1 else hash)"

lemma hash_name_nonzero: "hash_name name \<noteq> 0"
  by (simp add: hash_name_def Let_def)

section \<open>The global tables\<close>

record interner =
  NAMES :: "rstring list"
  NAME_HASHES :: "u64 list"
  IDS :: "rstring \<Rightarrow> symbol option"
  QUALIFIED_NAMES_MINTED :: u64

definition empty_interner :: interner where
  "empty_interner = \<lparr>NAMES = [], NAME_HASHES = [], IDS = (\<lambda>_. None), QUALIFIED_NAMES_MINTED = 0\<rparr>"

text \<open>The byte of the namespace separator, \<open>/\<close>.\<close>

definition is_qualified :: "rstring \<Rightarrow> bool" where
  "is_qualified name \<longleftrightarrow> 0x2F \<in> set name"

definition intern_global :: "interner \<Rightarrow> rstring \<Rightarrow> interner \<times> symbol" where
  "intern_global I name =
     (case IDS I name of
        Some i \<Rightarrow> (I, i)
      | None \<Rightarrow>
          let i = of_nat (length (NAMES I))
          in (\<lparr>NAMES = NAMES I @ [name], NAME_HASHES = NAME_HASHES I @ [hash_name name],
               IDS = (IDS I)(name \<mapsto> i),
               QUALIFIED_NAMES_MINTED = QUALIFIED_NAMES_MINTED I + (if is_qualified name then 1 else 0)\<rparr>, i))"

definition symbol_name :: "interner \<Rightarrow> symbol \<Rightarrow> rstring option" where
  "symbol_name I s = vec_get (NAMES I) (unat s)"

definition symbol_is :: "interner \<Rightarrow> symbol \<Rightarrow> rstring \<Rightarrow> bool option" where
  "symbol_is I s name = map_option (\<lambda>n. n = name) (vec_get (NAMES I) (unat s))"

definition qualified_names_minted :: "interner \<Rightarrow> u64" where
  "qualified_names_minted I = QUALIFIED_NAMES_MINTED I"

section \<open>The per-thread caches\<close>

text \<open>
  The name cache may be gone already when a thread-local destructor interns (\<open>try_with\<close> fails); that
  is \<open>None\<close>. The hash cache is indexed by symbol, zero standing for an entry not cached yet.
\<close>

type_synonym name_cache = "(rstring \<Rightarrow> symbol option) option"
type_synonym hash_cache = "u64 list option"

definition cache_find :: "name_cache \<Rightarrow> rstring \<Rightarrow> symbol option" where
  "cache_find C name = (case C of Some c \<Rightarrow> c name | None \<Rightarrow> None)"

definition intern :: "name_cache \<Rightarrow> interner \<Rightarrow> rstring \<Rightarrow> name_cache \<times> interner \<times> symbol" where
  "intern C I name =
     (case cache_find C name of
        Some i \<Rightarrow> (C, I, i)
      | None \<Rightarrow>
          let (I', i) = intern_global I name
          in (map_option (\<lambda>c. c(name \<mapsto> i)) C, I', i))"

definition intern_existing :: "name_cache \<Rightarrow> interner \<Rightarrow> rstring \<Rightarrow> symbol option" where
  "intern_existing C I name = (case cache_find C name of Some i \<Rightarrow> Some i | None \<Rightarrow> IDS I name)"

definition resize_zero :: "u64 list \<Rightarrow> nat \<Rightarrow> u64 list" where
  "resize_zero c n = (if length c < n then c @ replicate (n - length c) 0 else c)"

definition symbol_hash_slow :: "hash_cache \<Rightarrow> interner \<Rightarrow> symbol \<Rightarrow> hash_cache \<times> u64" where
  "symbol_hash_slow H I s =
     (let idx = unat s;
          h = (if idx < length (NAME_HASHES I) then NAME_HASHES I ! idx else ucast s)
      in (map_option (\<lambda>c. (resize_zero c (idx + 1))[idx := h]) H, h))"

definition symbol_hash :: "hash_cache \<Rightarrow> interner \<Rightarrow> symbol \<Rightarrow> hash_cache \<times> u64" where
  "symbol_hash H I s =
     (let idx = unat s;
          cached = (case H of Some c \<Rightarrow> if idx < length c then Some (c ! idx) else None | None \<Rightarrow> None)
      in case cached of
           Some h \<Rightarrow> if h \<noteq> 0 then (H, h) else symbol_hash_slow H I s
         | None \<Rightarrow> symbol_hash_slow H I s)"

section \<open>Invariant\<close>

definition interner_inv :: "interner \<Rightarrow> bool" where
  "interner_inv I \<longleftrightarrow>
     distinct (NAMES I) \<and> length (NAMES I) \<le> 2 ^ 32 \<and>
     NAME_HASHES I = map hash_name (NAMES I) \<and>
     (\<forall>n i. IDS I n = Some i \<longleftrightarrow> unat i < length (NAMES I) \<and> NAMES I ! unat i = n) \<and>
     QUALIFIED_NAMES_MINTED I = of_nat (length (filter is_qualified (NAMES I)))"

definition cache_inv :: "interner \<Rightarrow> name_cache \<Rightarrow> bool" where
  "cache_inv I C \<longleftrightarrow> (\<forall>n i. cache_find C n = Some i \<longrightarrow> IDS I n = Some i)"

definition grows :: "interner \<Rightarrow> interner \<Rightarrow> bool" where
  "grows I I' \<longleftrightarrow> (\<exists>ns. NAMES I' = NAMES I @ ns)"

lemma grows_refl [simp]: "grows I I"
  by (simp add: grows_def)

lemma grows_trans: "grows I1 I2 \<Longrightarrow> grows I2 I3 \<Longrightarrow> grows I1 I3"
  by (auto simp: grows_def)

lemma interner_inv_empty: "interner_inv empty_interner"
  by (simp add: interner_inv_def empty_interner_def)

lemma unat_of_nat_index: "n < 2 ^ 32 \<Longrightarrow> unat (of_nat n :: u32) = n"
  by (simp add: unsigned_of_nat take_bit_nat_eq_self_iff)

lemma symbol_name_Some: "symbol_name I i = Some n \<longleftrightarrow> unat i < length (NAMES I) \<and> NAMES I ! unat i = n"
  by (simp add: symbol_name_def vec_get_Some)

lemma IDS_symbol_name: "interner_inv I \<Longrightarrow> IDS I n = Some i \<longleftrightarrow> symbol_name I i = Some n"
  by (simp add: interner_inv_def symbol_name_Some)

lemma IDS_None: "interner_inv I \<Longrightarrow> IDS I n = None \<longleftrightarrow> n \<notin> set (NAMES I)"
proof
  assume inv: "interner_inv I" and none: "IDS I n = None"
  show "n \<notin> set (NAMES I)"
  proof
    assume "n \<in> set (NAMES I)"
    then obtain j where j: "j < length (NAMES I)" "NAMES I ! j = n" by (auto simp: in_set_conv_nth)
    then have "unat (of_nat j :: u32) = j" using inv by (intro unat_of_nat_index) (auto simp: interner_inv_def)
    with j inv have "IDS I n = Some (of_nat j)" by (simp add: interner_inv_def)
    with none show False by simp
  qed
next
  assume "interner_inv I" "n \<notin> set (NAMES I)"
  then show "IDS I n = None" by (cases "IDS I n") (auto simp: interner_inv_def)
qed

lemma symbol_name_grows: "grows I I' \<Longrightarrow> symbol_name I i = Some n \<Longrightarrow> symbol_name I' i = Some n"
  by (auto simp: grows_def symbol_name_Some nth_append)

lemma intern_global_inv:
  assumes "interner_inv I" "length (NAMES I) < 2 ^ 32"
  shows "interner_inv (fst (intern_global I name))"
    and "grows I (fst (intern_global I name))"
    and "symbol_name (fst (intern_global I name)) (snd (intern_global I name)) = Some name"
    and "length (NAMES (fst (intern_global I name))) \<le> Suc (length (NAMES I))"
proof -
  have idx: "unat (of_nat (length (NAMES I)) :: u32) = length (NAMES I)"
    using assms(2) by (rule unat_of_nat_index)
  have ids: "of_nat (length (NAMES I)) = i \<longleftrightarrow> unat i = length (NAMES I)" for i :: u32
    using idx by (metis word_unat_eq_iff)
  show "interner_inv (fst (intern_global I name))"
  proof (cases "IDS I name")
    case (Some i)
    with assms(1) show ?thesis by (simp add: intern_global_def)
  next
    case None
    then have new: "name \<notin> set (NAMES I)" using IDS_None [OF assms(1)] by simp
    with None assms show ?thesis
      by (auto simp: intern_global_def interner_inv_def Let_def idx ids nth_append less_Suc_eq)
  qed
  show "grows I (fst (intern_global I name))"
    by (auto simp: intern_global_def grows_def Let_def split: option.split)
  show "symbol_name (fst (intern_global I name)) (snd (intern_global I name)) = Some name"
    using IDS_symbol_name [OF assms(1), of name]
    by (auto simp: intern_global_def Let_def symbol_name_def vec_get_def idx split: option.split)
  show "length (NAMES (fst (intern_global I name))) \<le> Suc (length (NAMES I))"
    by (auto simp: intern_global_def Let_def split: option.split)
qed

section \<open>The caches change nothing\<close>

lemma IDS_grows: "interner_inv I \<Longrightarrow> interner_inv I' \<Longrightarrow> grows I I' \<Longrightarrow> IDS I n = Some i \<Longrightarrow> IDS I' n = Some i"
  by (simp add: IDS_symbol_name symbol_name_grows)

lemma intern_existing_cache: "cache_inv I C \<Longrightarrow> intern_existing C I name = IDS I name"
  by (auto simp: intern_existing_def cache_inv_def split: option.split)

lemma intern_cache:
  assumes "cache_inv I C"
  shows "\<exists>C'. intern C I name = (C', intern_global I name)"
proof (cases "cache_find C name")
  case None
  then show ?thesis by (simp add: intern_def split: prod.split)
next
  case (Some i)
  with assms have "IDS I name = Some i" by (simp add: cache_inv_def)
  with Some show ?thesis by (simp add: intern_def intern_global_def)
qed

lemma intern_cache_inv:
  assumes "interner_inv I" "cache_inv I C" "length (NAMES I) < 2 ^ 32" "intern C I name = (C', I', i)"
  shows "cache_inv I' C'"
proof -
  have I': "I' = fst (intern_global I name)" "i = snd (intern_global I name)"
    using intern_cache [OF assms(2), of name] assms(4) by (metis fst_conv snd_conv)+
  note g = intern_global_inv [OF assms(1,3), of name]
  have old: "cache_find C n = Some j \<Longrightarrow> IDS I' n = Some j" for n j
    using assms(2) IDS_grows [OF assms(1) g(1,2)] by (auto simp: cache_inv_def I')
  have new: "IDS I' name = Some i"
    using IDS_symbol_name [OF g(1)] g(3) by (simp add: I')
  have "C' = C \<or> C' = map_option (\<lambda>c. c(name \<mapsto> i)) C"
    using assms(4) by (auto simp: intern_def split: option.splits prod.splits)
  then show ?thesis
    using old new by (cases C) (auto simp: cache_inv_def cache_find_def split: if_splits)
qed

text \<open>
  C13: interning. In every state the interner can be in, with any coherent per-thread cache, \<open>intern\<close>
  returns an id that reads back as the given spelling, never renames an existing id, returns the
  same id for the same spelling ever after, and keeps the four tables and the cache consistent.
\<close>

theorem intern_roundtrip:
  assumes "interner_inv I" "cache_inv I C" "length (NAMES I) < 2 ^ 32" "intern C I name = (C', I', i)"
  shows "interner_inv I' \<and> cache_inv I' C' \<and>
    (\<forall>j. symbol_name I' j = Some name \<longleftrightarrow> j = i) \<and>
    (\<forall>j n. symbol_name I j = Some n \<longrightarrow> symbol_name I' j = Some n) \<and>
    intern_existing C' I' name = Some i"
proof -
  have I': "I' = fst (intern_global I name)" "i = snd (intern_global I name)"
    using intern_cache [OF assms(2), of name] assms(4) by (metis fst_conv snd_conv)+
  note g = intern_global_inv [OF assms(1,3), of name]
  have inv: "interner_inv I'" and name: "symbol_name I' i = Some name" using g by (simp_all add: I')
  have C': "cache_inv I' C'" by (rule intern_cache_inv [OF assms])
  have ids: "IDS I' name = Some i" using IDS_symbol_name [OF g(1)] g(3) by (simp add: I')
  then have "symbol_name I' j = Some name \<Longrightarrow> j = i" for j
    using IDS_symbol_name [OF inv] by (metis option.inject)
  moreover have "symbol_name I j = Some n \<Longrightarrow> symbol_name I' j = Some n" for j n
    using symbol_name_grows [OF g(2)] by (simp add: I')
  moreover have "intern_existing C' I' name = Some i" by (simp add: intern_existing_cache [OF C'] ids)
  ultimately show ?thesis using inv C' name by blast
qed

lemma intern_roundtrip_witness:
  "\<exists>C' I' i. intern (Some Map.empty) empty_interner [102, 111, 111] = (C', I', i) \<and> interner_inv I' \<and>
    symbol_name I' i = Some [102, 111, 111] \<and> intern_existing C' I' [102, 111, 111] = Some i"
proof -
  obtain C' I' i where e: "intern (Some Map.empty) empty_interner [102, 111, 111] = (C', I', i)"
    by (metis prod_cases3)
  have "cache_inv empty_interner (Some Map.empty)" "length (NAMES empty_interner) < 2 ^ 32"
    by (simp_all add: cache_inv_def cache_find_def empty_interner_def)
  from intern_roundtrip [OF interner_inv_empty this e] show ?thesis using e by auto
qed

section \<open>The spelling hash\<close>

definition hash_cache_inv :: "interner \<Rightarrow> hash_cache \<Rightarrow> bool" where
  "hash_cache_inv I H \<longleftrightarrow>
     (\<forall>c. H = Some c \<longrightarrow>
        (\<forall>i < length c. c ! i \<noteq> 0 \<longrightarrow> i < length (NAMES I) \<and> c ! i = hash_name (NAMES I ! i)))"

lemma nth_resize: "length (resize_zero c n) = max (length c) n"
  "i < length c \<Longrightarrow> resize_zero c n ! i = c ! i"
  "length c \<le> i \<Longrightarrow> i < n \<Longrightarrow> resize_zero c n ! i = 0"
  by (auto simp: resize_zero_def nth_append)

lemma hash_cache_inv_update:
  assumes "hash_cache_inv I (Some c)" "i < length (NAMES I)"
  shows "hash_cache_inv I (Some ((resize_zero c (i + 1))[i := hash_name (NAMES I ! i)]))"
proof -
  have "resize_zero c (Suc i) ! j \<noteq> 0 \<Longrightarrow> j < length (resize_zero c (Suc i)) \<Longrightarrow>
      j < length (NAMES I) \<and> resize_zero c (Suc i) ! j = hash_name (NAMES I ! j)" for j
    using assms(1) nth_resize(2) [of j c "Suc i"] nth_resize(3) [of c j "Suc i"]
    by (cases "j < length c") (auto simp: hash_cache_inv_def nth_resize)
  moreover have "i < length (resize_zero c (Suc i))" by (simp add: nth_resize)
  ultimately show ?thesis
    using assms(2) by (auto simp: hash_cache_inv_def nth_list_update)
qed

text \<open>
  the spelling hash. For an interned symbol \<open>symbol_hash\<close> is the hash of the symbol's spelling,
  whether it is read from the per-thread cache or from the table, and the cache it leaves behind is
  coherent. So symbols hash alike in every process that gives them the same spelling.
\<close>

theorem symbol_hash_spelling:
  assumes "interner_inv I" "hash_cache_inv I H" "symbol_name I s = Some n"
  shows "snd (symbol_hash H I s) = hash_name n \<and> hash_cache_inv I (fst (symbol_hash H I s))"
proof -
  have s: "unat s < length (NAMES I)" "NAMES I ! unat s = n" "NAME_HASHES I = map hash_name (NAMES I)"
    using assms(1,3) by (auto simp: symbol_name_Some interner_inv_def)
  have slow: "symbol_hash_slow H I s =
      (map_option (\<lambda>c. (resize_zero c (unat s + 1))[unat s := hash_name n]) H, hash_name n)"
    using s by (simp add: symbol_hash_slow_def Let_def)
  have inv: "hash_cache_inv I (map_option (\<lambda>c. (resize_zero c (unat s + 1))[unat s := hash_name n]) H)"
  proof (cases H)
    case None
    then show ?thesis by (simp add: hash_cache_inv_def)
  next
    case (Some c)
    with hash_cache_inv_update [of I c "unat s"] assms(2) s(1,2) show ?thesis by simp
  qed
  have "symbol_hash H I s = (H, hash_name n) \<or> symbol_hash H I s = symbol_hash_slow H I s"
  proof (cases H)
    case None
    then show ?thesis by (simp add: symbol_hash_def)
  next
    case (Some c)
    with assms(2) s show ?thesis
      by (cases "unat s < length c \<and> c ! unat s \<noteq> 0") (auto simp: symbol_hash_def hash_cache_inv_def Let_def)
  qed
  then show ?thesis using assms(2) inv by (auto simp: slow)
qed

lemma symbol_hash_spelling_witness:
  "snd (symbol_hash (Some []) (fst (intern_global empty_interner [97])) 0) = hash_name [97]"
proof -
  have "interner_inv (fst (intern_global empty_interner [97]))"
    by (rule intern_global_inv(1)) (simp_all add: interner_inv_empty, simp add: empty_interner_def)
  moreover have "symbol_name (fst (intern_global empty_interner [97])) 0 = Some [97]"
    by (simp add: intern_global_def empty_interner_def symbol_name_def vec_get_def Let_def)
  ultimately show ?thesis
    using symbol_hash_spelling [of "fst (intern_global empty_interner [97])" "Some []" 0 "[97]"]
    by (simp add: hash_cache_inv_def)
qed

text \<open>
  What the thread's cache becomes over a history of questions: each asks the hash of one symbol while
  the interner, which other threads extend, is in some state.
\<close>

definition hash_history :: "(symbol \<times> interner) list \<Rightarrow> hash_cache \<Rightarrow> hash_cache" where
  "hash_history qs H = fold (\<lambda>(t, I) H. fst (symbol_hash H I t)) qs H"

lemma hash_history_simps [simp]:
  "hash_history [] H = H"
  "hash_history ((t, I) # qs) H = hash_history qs (fst (symbol_hash H I t))"
  by (simp_all add: hash_history_def)

text \<open>The slot of a symbol in the cache: 0 when the cache is shorter, which is also its empty value.\<close>

definition cached_hash :: "u64 list \<Rightarrow> symbol \<Rightarrow> u64" where
  "cached_hash c s = (if unat s < length c then c ! unat s else 0)"

lemma symbol_hash_cached:
  "symbol_hash (Some c) I s = (if cached_hash c s \<noteq> 0 then (Some c, cached_hash c s) else symbol_hash_slow (Some c) I s)"
  by (simp add: symbol_hash_def cached_hash_def Let_def)

lemma cached_hash_slow:
  "\<exists>c'. fst (symbol_hash_slow (Some c) I t) = Some c' \<and>
      cached_hash c' s = (if s = t then snd (symbol_hash_slow (Some c) I t) else cached_hash c s)"
proof -
  have "unat t = unat s \<longleftrightarrow> t = s" by (rule word_unat_eq_iff [symmetric])
  then show ?thesis
    by (cases "s = t") (auto simp: symbol_hash_slow_def Let_def cached_hash_def nth_resize nth_list_update)
qed

lemma cached_hash_kept:
  assumes "cached_hash c s \<noteq> 0"
  shows "\<exists>c'. fst (symbol_hash (Some c) I t) = Some c' \<and> cached_hash c' s = cached_hash c s"
  using assms cached_hash_slow [of c I t s] by (cases "s = t") (auto simp: symbol_hash_cached)

lemma cached_hash_history:
  "cached_hash c s \<noteq> 0 \<Longrightarrow> \<exists>c'. hash_history qs (Some c) = Some c' \<and> cached_hash c' s = cached_hash c s"
proof (induction qs arbitrary: c)
  case Nil
  then show ?case by simp
next
  case (Cons q qs)
  obtain t I where q: "q = (t, I)" by (metis prod.exhaust)
  obtain c' where c': "fst (symbol_hash (Some c) I t) = Some c'" "cached_hash c' s = cached_hash c s"
    using cached_hash_kept [OF Cons.prems] by blast
  show ?case using Cons.IH [of c'] Cons.prems by (simp add: q c')
qed

text \<open>
  C14: a limit of the cache. When a thread whose cache has nothing for an id other than 0 asks its hash
  before the id is interned, it is answered the id itself and caches that answer: after any further
  questions, and whatever has been interned meanwhile, the thread keeps answering the id and never the
  hash of the spelling. The id 0 is the exception: its fallback is the value of an empty slot, so it is
  looked up again each time.
\<close>

theorem symbol_hash_stale:
  assumes "cached_hash c s = 0" "length (NAME_HASHES I) \<le> unat s" "symbol_hash (Some c) I s = (H, h)"
  shows "h = ucast s \<and>
    (s \<noteq> 0 \<longrightarrow> (\<forall>qs I'. symbol_hash (hash_history qs H) I' s = (hash_history qs H, ucast s))) \<and>
    (s = 0 \<longrightarrow> (\<forall>I'. symbol_hash H I' s = symbol_hash_slow H I' s))"
proof -
  have slow: "symbol_hash_slow (Some c) I s = (H, h)" using assms(1,3) by (simp add: symbol_hash_cached)
  have h: "h = ucast s" using slow assms(2) by (auto simp: symbol_hash_slow_def Let_def)
  obtain c' where H: "H = Some c'" "cached_hash c' s = ucast s"
    using cached_hash_slow [of c I s s] by (auto simp: slow h)
  have nz: "(ucast s :: u64) = 0 \<longleftrightarrow> s = 0" by transfer (simp add: take_bit_eq_mod)
  have "symbol_hash (hash_history qs H) I' s = (hash_history qs H, ucast s)" if "s \<noteq> 0" for qs I'
    using cached_hash_history [of c' s qs] that by (auto simp: H nz symbol_hash_cached)
  moreover have "symbol_hash H I' s = symbol_hash_slow H I' s" if "s = 0" for I'
    using H that by (simp add: symbol_hash_cached)
  ultimately show ?thesis using h by blast
qed

lemma symbol_hash_stale_witness:
  "\<exists>H. symbol_hash (Some [0, 7]) empty_interner 2 = (H, 2) \<and>
     symbol_hash (hash_history [(1, empty_interner), (5, fst (intern_global empty_interner [97]))] H)
       (fst (intern_global (fst (intern_global (fst (intern_global empty_interner [97])) [98])) [99])) 2 =
     (hash_history [(1, empty_interner), (5, fst (intern_global empty_interner [97]))] H, 2)"
proof -
  obtain H h where e: "symbol_hash (Some [0, 7]) empty_interner 2 = (H, h)" by (metis prod.exhaust)
  have "cached_hash [0, 7] 2 = 0" "length (NAME_HASHES empty_interner) \<le> unat (2 :: u32)" "(2 :: u32) \<noteq> 0"
    by (simp_all add: empty_interner_def cached_hash_def)
  with symbol_hash_stale [OF this(1,2) e] have "h = 2"
    "symbol_hash (hash_history qs H) I' 2 = (hash_history qs H, 2)" for qs I'
    by simp_all
  then show ?thesis using e by blast
qed

end
