(* ===== verification/Values.thy ===== *)
theory Values
  imports Champ_Equal Interner "HOL-Library.Signed_Division"
begin

text \<open>
  Brood values, their equality and their hash (\<open>core/heap/equality.rs\<close>). A \<open>Value\<close> is a tag and a
  handle; here it is the content the handle denotes, so a list is its cells, a map the trie its nodes
  represent. Content has no cell identity: the shortcut that answers \<open>true\<close> for two handles of the
  same cell is left out, and the cache of map hashes with it, neither of which changes an answer on
  values that equal themselves. Floats are their 64 bits.

  Code outside the repository is a parameter of the definitions, the record \<open>env\<close>: the finished
  hash of the bytes written to the standard library's hasher, the decimal normal form and the printed
  forms of big numbers, the identity number of a closure, and which node names are this node's.
\<close>

type_synonym i64 = u64
type_synonym dec = "int \<times> int"

datatype val =
    VNil
  | VBool bool
  | VInt i64
  | VBigInt int
  | VFloat u64
  | VSym symbol
  | VKeyword symbol
  | VStr rstring
  | VRope rstring
  | VPair val val
  | VVector "val list"
  | VRange i64 i64 i64
  | VSeqView handle
  | VMap "val trie"
  | VFn handle
  | VMacro handle
  | VNative handle
  | VRef u64
  | VPid symbol u64
  | VSocket u64
  | VSubprocess u64
  | VTable u64
  | VBytes "u8 list"
  | VDecimal dec
  | VSet "val trie"
  | VRatio int int
  | VFailure "val trie"
  | VRecord symbol "val trie"

record env =
  finish :: "u8 list \<Rightarrow> u64"
  spelling_hash :: "symbol \<Rightarrow> u64"
  is_local :: "symbol \<Rightarrow> bool"
  normalized :: "dec \<Rightarrow> dec"
  dec_string :: "dec \<Rightarrow> rstring"
  bigint_bytes :: "int \<Rightarrow> u8 list"
  ratio_string :: "int \<Rightarrow> int \<Rightarrow> rstring"
  identity :: "u64 \<Rightarrow> u64"

section \<open>Floats\<close>

text \<open>The IEEE equality of doubles on their bits: NaN equals nothing and the two zeros are equal.\<close>

definition is_nan :: "u64 \<Rightarrow> bool" where
  "is_nan f \<longleftrightarrow> (f AND 0x7FFFFFFFFFFFFFFF) > 0x7FF0000000000000"

definition is_zero :: "u64 \<Rightarrow> bool" where
  "is_zero f \<longleftrightarrow> f AND 0x7FFFFFFFFFFFFFFF = 0"

definition float_eq :: "u64 \<Rightarrow> u64 \<Rightarrow> bool" where
  "float_eq x y \<longleftrightarrow> \<not> is_nan x \<and> \<not> is_nan y \<and> (x = y \<or> is_zero x \<and> is_zero y)"

section \<open>Ranges\<close>

definition checked_add :: "i64 \<Rightarrow> i64 \<Rightarrow> i64 option" where
  "checked_add a b =
     (let s = sint a + sint b in if - (2 ^ 63) \<le> s \<and> s < 2 ^ 63 then Some (of_int s) else None)"

definition in_range :: "i64 \<Rightarrow> i64 \<Rightarrow> i64 \<Rightarrow> bool" where
  "in_range i hi step = (if sint step > 0 then sint i < sint hi else sint i > sint hi)"

definition alloc_range :: "i64 \<Rightarrow> i64 \<Rightarrow> i64 \<Rightarrow> val" where
  "alloc_range lo hi step =
     (let empty = (if sint step > 0 then sint lo \<ge> sint hi else sint hi \<ge> sint lo)
      in if empty then VNil else VRange lo hi step)"

definition range_len_exact :: "i64 \<Rightarrow> i64 \<Rightarrow> i64 \<Rightarrow> int" where
  "range_len_exact lo hi step =
     (let span = (if sint step > 0 then sint hi - sint lo else sint lo - sint hi);
          mag = \<bar>sint step\<bar>
      in max ((span + mag - 1) sdiv mag) 0)"

definition range_len :: "i64 \<Rightarrow> i64 \<Rightarrow> i64 \<Rightarrow> int" where
  "range_len lo hi step = min (range_len_exact lo hi step) (2 ^ 63 - 1)"

lemma sint_of_int: "- (2 ^ 63) \<le> s \<Longrightarrow> s < 2 ^ 63 \<Longrightarrow> sint (of_int s :: i64) = s"
  by (simp add: int_word_sint)

lemma checked_add_next:
  assumes "checked_add a b = Some c"
  shows "sint c = sint a + sint b"
proof -
  have "- (2 ^ 63) \<le> sint a + sint b" "sint a + sint b < 2 ^ 63" "c = of_int (sint a + sint b)"
    using assms by (simp_all only: checked_add_def Let_def split: if_splits option.splits) simp_all
  then show ?thesis using sint_of_int [of "sint a + sint b"] by (simp only:)
qed

lemma checked_add_None: "checked_add a b = None \<longleftrightarrow> \<not> (- (2 ^ 63) \<le> sint a + sint b \<and> sint a + sint b < 2 ^ 63)"
  by (simp add: checked_add_def Let_def)

lemma checked_add_plus: "checked_add a b = Some c \<Longrightarrow> c = a + b"
  by (auto simp: checked_add_def Let_def split: if_splits)

lemma sint_eq_iff: "sint (a :: i64) = sint b \<longleftrightarrow> a = b"
  by (metis signed_word_eqI)

lemma sint_nonpos: "step \<noteq> 0 \<Longrightarrow> \<not> 0 < sint (step :: i64) \<Longrightarrow> sint step < 0"
  using sint_eq_iff [of step 0] by auto

lemma sint_range: "- (2 ^ 63) \<le> sint (a :: i64)" "sint (a :: i64) < 2 ^ 63"
  using sint_range_size [of a] by (simp_all add: word_size)

text \<open>The realised elements; the loop ends at the latest when the next step leaves the 64-bit range.\<close>

function range_loop :: "i64 \<Rightarrow> i64 \<Rightarrow> i64 \<Rightarrow> i64 list" where
  "range_loop i hi step =
     (if step \<noteq> 0 \<and> in_range i hi step then
        i # (case checked_add i step of Some n \<Rightarrow> range_loop n hi step | None \<Rightarrow> [])
      else [])"
  by pat_completeness auto
termination
  by (relation "measure (\<lambda>(i, hi, step). nat (if sint step > 0 then sint hi - sint i else sint i - sint hi))")
    (auto simp: in_range_def checked_add_next sint_nonpos split: if_splits)

declare range_loop.simps [simp del]

definition MAX_REALISED_RANGE :: int where "MAX_REALISED_RANGE = 2 ^ 26"

definition range_to_vec :: "i64 \<Rightarrow> i64 \<Rightarrow> i64 \<Rightarrow> val list option" where
  "range_to_vec lo hi step =
     (let n = max (range_len lo hi step) 0
      in if n > MAX_REALISED_RANGE then None else Some (map VInt (range_loop lo hi step)))"

text \<open>
  The list walk compares each element with \<open>equal (Int i) car\<close>, which holds of the integer \<open>i\<close> alone
  (lemmas \<open>equal_simps\<close>).
\<close>

fun range_eq_list :: "i64 \<Rightarrow> i64 \<Rightarrow> i64 \<Rightarrow> val \<Rightarrow> bool" where
  "range_eq_list i hi step VNil = (\<not> in_range i hi step)"
| "range_eq_list i hi step (VPair car cdr) =
     (in_range i hi step \<and> car = VInt i \<and>
       (case checked_add i step of
          Some n \<Rightarrow> range_eq_list n hi step cdr
        | None \<Rightarrow> cdr = VNil))"
| "range_eq_list i hi step _ = False"

definition range_eq_range :: "i64 \<times> i64 \<times> i64 \<Rightarrow> i64 \<times> i64 \<times> i64 \<Rightarrow> bool" where
  "range_eq_range x y = (case (x, y) of ((lo1, hi1, s1), (lo2, hi2, s2)) \<Rightarrow>
     let n1 = range_len_exact lo1 hi1 s1; n2 = range_len_exact lo2 hi2 s2
     in n1 = n2 \<and> (n1 = 0 \<or> lo1 = lo2) \<and> (n1 < 2 \<or> s1 = s2))"

section \<open>Equality\<close>

lemma t_equal_fundef_cong [fundef_cong]:
  "t = t' \<Longrightarrow> u = u' \<Longrightarrow> (\<And>x y. x \<in> set_trie t' \<Longrightarrow> y \<in> set_trie u' \<Longrightarrow> f x y = g x y) \<Longrightarrow> t_equal f t u = t_equal g t' u'"
  using t_equal_cong [of t' u' f g] by blast

lemma size_list_elem: "x \<in> set xs \<Longrightarrow> f x < size_list f xs"
  by (induction xs) auto

lemma size_trie_elem: "\<forall>x \<in> set_trie t. f x < size_trie f t"
proof (induction t rule: trie_induct)
  case (Collision es)
  have "f (fst e) < size_list (size_prod f f) es" "f (snd e) < size_list (size_prod f f) es" if "e \<in> set es" for e
    using size_list_elem [OF that, of "size_prod f f"] by (cases e; simp)+
  then show ?case by (auto simp: set_trie_entries less_SucI)
next
  case (Branch cs)
  have "f x < size_list (size_cell f) cs" if "c \<in> set cs" "x \<in> set_cell c" for c x
  proof -
    have "f x \<le> size_cell f c"
    proof (cases c)
      case (Child t)
      with Branch.IH [of t] that have "f x < size_trie f t" by simp
      with Child show ?thesis by simp
    qed (use that(2) in auto)
    with size_list_elem [OF that(1), of "size_cell f"] show ?thesis by simp
  qed
  then show ?case by (auto intro: less_SucI)
qed

lemma size_elem: "x \<in> set_trie t \<Longrightarrow> size x < Suc (size_trie size t)"
  using size_trie_elem [of t size] by (simp add: less_SucI)

function equal :: "env \<Rightarrow> val \<Rightarrow> val \<Rightarrow> bool" where
  "equal E a b = (case a of
     VNil \<Rightarrow> b = VNil
   | VRange lo hi step \<Rightarrow> (case b of
        VRange lo' hi' step' \<Rightarrow> range_eq_range (lo, hi, step) (lo', hi', step')
      | VPair _ _ \<Rightarrow> range_eq_list lo hi step b
      | _ \<Rightarrow> False)
   | VSeqView x \<Rightarrow> (case b of VSeqView y \<Rightarrow> handle_eq x y | _ \<Rightarrow> False)
   | VBool x \<Rightarrow> b = VBool x
   | VInt x \<Rightarrow> b = VInt x
   | VBigInt x \<Rightarrow> b = VBigInt x
   | VDecimal x \<Rightarrow> (case b of VDecimal y \<Rightarrow> normalized E x = normalized E y | _ \<Rightarrow> False)
   | VRatio n d \<Rightarrow> b = VRatio n d
   | VBytes x \<Rightarrow> b = VBytes x
   | VFloat x \<Rightarrow> (case b of VFloat y \<Rightarrow> float_eq x y | _ \<Rightarrow> False)
   | VSym x \<Rightarrow> b = VSym x
   | VKeyword x \<Rightarrow> b = VKeyword x
   | VStr x \<Rightarrow> b = VStr x
   | VPair a0 a1 \<Rightarrow> (case b of
        VPair b0 b1 \<Rightarrow> equal E a0 b0 \<and> equal E a1 b1
      | VRange lo hi step \<Rightarrow> range_eq_list lo hi step a
      | _ \<Rightarrow> False)
   | VVector xs \<Rightarrow> (case b of VVector ys \<Rightarrow> list_all2 (equal E) xs ys | _ \<Rightarrow> False)
   | VMap x \<Rightarrow> (case b of VMap y \<Rightarrow> t_equal (equal E) x y | _ \<Rightarrow> False)
   | VSet x \<Rightarrow> (case b of VSet y \<Rightarrow> t_equal (equal E) x y | _ \<Rightarrow> False)
   | VFailure x \<Rightarrow> (case b of VFailure y \<Rightarrow> t_equal (equal E) x y | _ \<Rightarrow> False)
   | VRecord i x \<Rightarrow> (case b of VRecord j y \<Rightarrow> i = j \<and> t_equal (equal E) x y | _ \<Rightarrow> False)
   | VFn x \<Rightarrow> (case b of VFn y \<Rightarrow> handle_eq x y | _ \<Rightarrow> False)
   | VMacro x \<Rightarrow> (case b of VMacro y \<Rightarrow> handle_eq x y | _ \<Rightarrow> False)
   | VNative x \<Rightarrow> (case b of VNative y \<Rightarrow> handle_eq x y | _ \<Rightarrow> False)
   | VRef x \<Rightarrow> b = VRef x
   | VPid n1 i1 \<Rightarrow> (case b of
        VPid n2 i2 \<Rightarrow> i1 = i2 \<and> (n1 = n2 \<or> is_local E n1 \<and> is_local E n2) | _ \<Rightarrow> False)
   | VRope x \<Rightarrow> b = VRope x
   | VSocket x \<Rightarrow> b = VSocket x
   | VSubprocess x \<Rightarrow> b = VSubprocess x
   | VTable x \<Rightarrow> b = VTable x)"
  by pat_completeness auto
termination
  by (relation "measure (\<lambda>(E, a, b). size a)") (auto intro: size_elem size_list_elem less_SucI)

declare equal.simps [simp del]

lemma equal_simps [simp]:
  "equal E VNil b = (b = VNil)"
  "equal E (VBool c) b = (b = VBool c)"
  "equal E (VInt n) b = (b = VInt n)"
  "equal E (VBigInt z) b = (b = VBigInt z)"
  "equal E (VRatio p q) b = (b = VRatio p q)"
  "equal E (VBytes bs) b = (b = VBytes bs)"
  "equal E (VSym s) b = (b = VSym s)"
  "equal E (VKeyword s) b = (b = VKeyword s)"
  "equal E (VStr bs) b = (b = VStr bs)"
  "equal E (VRope bs) b = (b = VRope bs)"
  "equal E (VRef r) b = (b = VRef r)"
  "equal E (VSocket r) b = (b = VSocket r)"
  "equal E (VSubprocess r) b = (b = VSubprocess r)"
  "equal E (VTable r) b = (b = VTable r)"
  "equal E (VSeqView x) b = (\<exists>y. b = VSeqView y \<and> handle_eq x y)"
  "equal E (VFn x) b = (\<exists>y. b = VFn y \<and> handle_eq x y)"
  "equal E (VMacro x) b = (\<exists>y. b = VMacro y \<and> handle_eq x y)"
  "equal E (VNative x) b = (\<exists>y. b = VNative y \<and> handle_eq x y)"
  "equal E (VDecimal d) b = (\<exists>d'. b = VDecimal d' \<and> normalized E d = normalized E d')"
  "equal E (VFloat f) b = (\<exists>f'. b = VFloat f' \<and> float_eq f f')"
  "equal E (VPid m i) b = (\<exists>m'. b = VPid m' i \<and> (m = m' \<or> is_local E m \<and> is_local E m'))"
  "equal E (VVector xs) b = (\<exists>ys. b = VVector ys \<and> list_all2 (equal E) xs ys)"
  "equal E (VMap t) b = (\<exists>u. b = VMap u \<and> t_equal (equal E) t u)"
  "equal E (VSet t) b = (\<exists>u. b = VSet u \<and> t_equal (equal E) t u)"
  "equal E (VFailure t) b = (\<exists>u. b = VFailure u \<and> t_equal (equal E) t u)"
  "equal E (VRecord s t) b = (\<exists>u. b = VRecord s u \<and> t_equal (equal E) t u)"
  by (subst equal.simps; cases b; auto; fail)+

lemma equal_VPair:
  "equal E (VPair a0 a1) b = (case b of
     VPair b0 b1 \<Rightarrow> equal E a0 b0 \<and> equal E a1 b1
   | VRange lo hi step \<Rightarrow> range_eq_list lo hi step (VPair a0 a1)
   | _ \<Rightarrow> False)"
  by (subst equal.simps) simp

lemma equal_VRange:
  "equal E (VRange lo hi step) b = (case b of
     VRange lo' hi' step' \<Rightarrow> range_eq_range (lo, hi, step) (lo', hi', step')
   | VPair _ _ \<Rightarrow> range_eq_list lo hi step b
   | _ \<Rightarrow> False)"
  by (subst equal.simps) simp

section \<open>Hashing\<close>

definition mix64 :: "u64 \<Rightarrow> u64" where
  "mix64 z0 =
     (let z1 = (z0 XOR drop_bit 30 z0) * 0xBF58476D1CE4E5B9;
          z2 = (z1 XOR drop_bit 27 z1) * 0x94D049BB133111EB
      in z2 XOR drop_bit 31 z2)"

definition hash_int :: "i64 \<Rightarrow> u64" where
  "hash_int i = mix64 (i XOR 0x9E3779B97F4A7C15)"

text \<open>What \<open>Hash::hash\<close> writes to the hasher for the primitive types, on a little-endian machine.\<close>

definition le_bytes :: "'a::len word \<Rightarrow> u8 list" where
  "le_bytes w = map (\<lambda>i. ucast (drop_bit (8 * i) w)) [0..<LENGTH('a) div 8]"

definition write_slice :: "u8 list \<Rightarrow> u8 list" where
  "write_slice b = le_bytes (of_nat (length b) :: u64) @ b"

definition write_str :: "rstring \<Rightarrow> u8 list" where
  "write_str s = s @ [0xFF]"

definition LIST_HASH_PREFIX :: nat where "LIST_HASH_PREFIX = 256"

definition float_word :: "u64 \<Rightarrow> u64" where
  "float_word f = (if is_nan f then - 1 else if is_zero f then 0 else f)"

definition feed_number :: "env \<Rightarrow> val \<Rightarrow> u8 list" where
  "feed_number E v = (case v of
     VBigInt z \<Rightarrow> 17 # (if z < 0 then 0 else if z = 0 then 1 else 2) # write_slice (bigint_bytes E z)
   | VDecimal d \<Rightarrow> 22 # write_str (dec_string E (normalized E d))
   | VRatio n d \<Rightarrow> 23 # write_str (ratio_string E n d)
   | VFloat f \<Rightarrow> 3 # le_bytes (float_word f)
   | _ \<Rightarrow> [])"

fun range_prefix :: "nat \<Rightarrow> i64 \<Rightarrow> i64 \<Rightarrow> i64 list" where
  "range_prefix 0 i step = []"
| "range_prefix (Suc n) i step = i # range_prefix n (i + step) step"

definition feed_int :: "i64 \<Rightarrow> u8 list" where
  "feed_int i = 2 # le_bytes i"

definition feed_range :: "i64 \<Rightarrow> i64 \<Rightarrow> i64 \<Rightarrow> u8 list" where
  "feed_range lo hi step =
     (let len = range_len_exact lo hi step in
      7 # concat (map feed_int (range_prefix (nat (min len (int LIST_HASH_PREFIX))) lo step)) @
      [0xFF, 0] @ le_bytes (of_int len :: 128 word))"

definition xor_all :: "u64 list \<Rightarrow> u64" where
  "xor_all hs = fold (\<lambda>h acc. acc XOR h) hs 0"

definition entries_acc :: "env \<Rightarrow> (val \<Rightarrow> u8 list) \<Rightarrow> val trie \<Rightarrow> u64" where
  "entries_acc E f t = xor_all (map (\<lambda>e. finish E (f (fst e) @ f (snd e))) (entries t))"

definition keys_acc :: "env \<Rightarrow> (val \<Rightarrow> u8 list) \<Rightarrow> val trie \<Rightarrow> u64" where
  "keys_acc E f t = xor_all (map (\<lambda>e. finish E (f (fst e))) (entries t))"

lemma entries_acc_cong [fundef_cong]:
  "t = t' \<Longrightarrow> (\<And>x. x \<in> set_trie t' \<Longrightarrow> f x = g x) \<Longrightarrow> entries_acc E f t = entries_acc E g t'"
  unfolding entries_acc_def by (auto simp: set_trie_entries intro!: arg_cong [where f = xor_all])

lemma keys_acc_cong [fundef_cong]:
  "t = t' \<Longrightarrow> (\<And>x. x \<in> set_trie t' \<Longrightarrow> f x = g x) \<Longrightarrow> keys_acc E f t = keys_acc E g t'"
  unfolding keys_acc_def by (auto simp: set_trie_entries intro!: arg_cong [where f = xor_all])

function feed :: "env \<Rightarrow> val \<Rightarrow> u8 list" and feed_spine :: "env \<Rightarrow> nat \<Rightarrow> val \<Rightarrow> u8 list" where
  "feed E v = (case v of
     VNil \<Rightarrow> [0]
   | VBool b \<Rightarrow> [1, if b then 1 else 0]
   | VInt i \<Rightarrow> feed_int i
   | VBigInt _ \<Rightarrow> feed_number E v
   | VBytes b \<Rightarrow> 21 # write_slice b
   | VDecimal _ \<Rightarrow> feed_number E v
   | VRatio _ _ \<Rightarrow> feed_number E v
   | VFloat _ \<Rightarrow> feed_number E v
   | VSym s \<Rightarrow> 4 # le_bytes (spelling_hash E s)
   | VKeyword s \<Rightarrow> 5 # le_bytes (spelling_hash E s)
   | VStr s \<Rightarrow> 6 # write_str s
   | VPair _ _ \<Rightarrow> 7 # feed_spine E 0 v
   | VRange lo hi step \<Rightarrow> feed_range lo hi step
   | VSeqView _ \<Rightarrow> [0x5E]
   | VVector xs \<Rightarrow> 8 # le_bytes (of_nat (length xs) :: u64) @ concat (map (feed E) xs)
   | VMap t \<Rightarrow> 9 # le_bytes (of_nat (count t mod 2 ^ 32) :: u64) @ le_bytes (entries_acc E (feed E) t)
   | VFailure t \<Rightarrow> 24 # le_bytes (of_nat (count t) :: u64) @ le_bytes (entries_acc E (feed E) t)
   | VRecord rid t \<Rightarrow> 25 # le_bytes (spelling_hash E rid) @
       le_bytes (of_nat (count t) :: u64) @ le_bytes (entries_acc E (feed E) t)
   | VSet t \<Rightarrow> 18 # le_bytes (of_nat (count t mod 2 ^ 32) :: u64) @ le_bytes (keys_acc E (feed E) t)
   | VFn x \<Rightarrow> 10 # le_bytes (identity E (canonical x))
   | VMacro x \<Rightarrow> 11 # le_bytes (identity E (canonical x))
   | VNative x \<Rightarrow> 12 # le_bytes x
   | VRef r \<Rightarrow> 13 # le_bytes r
   | VPid node i \<Rightarrow> 14 # (if is_local E node then le_bytes (- 1 :: symbol) else le_bytes node) @ le_bytes i
   | VRope s \<Rightarrow> 15 # write_str s
   | VSocket r \<Rightarrow> 16 # le_bytes r
   | VSubprocess r \<Rightarrow> 19 # le_bytes r
   | VTable r \<Rightarrow> 20 # le_bytes r)"
| "feed_spine E n v = (case v of
     VPair car cdr \<Rightarrow>
       (if n < LIST_HASH_PREFIX then feed E car else []) @
       (case cdr of
          VPair _ _ \<Rightarrow> feed_spine E (n + 1) cdr
        | _ \<Rightarrow> 0xFF # feed E cdr @ le_bytes (of_nat (n + 1) :: 128 word))
   | _ \<Rightarrow> [])"
  by pat_completeness auto
termination
  by (relation "measure (\<lambda>x. case x of Inl (E, v) \<Rightarrow> 2 * size v + 1 | Inr (E, n, v) \<Rightarrow> 2 * size v)")
    (auto dest: size_elem size_list_elem [of _ _ size])

declare feed.simps [simp del] feed_spine.simps [simp del]

definition hash_value :: "env \<Rightarrow> val \<Rightarrow> u64" where
  "hash_value E v = (case v of
     VInt i \<Rightarrow> hash_int i
   | VBool b \<Rightarrow> mix64 ((if b then 1 else 0) XOR 0xD1B54A32D192ED03)
   | VNil \<Rightarrow> mix64 0xA0761D6478BD642F
   | VSym s \<Rightarrow> mix64 (spelling_hash E s XOR 0x2F72B4C10E339A57)
   | VKeyword s \<Rightarrow> mix64 (spelling_hash E s XOR 0x8E1B6A93C705D2F1)
   | _ \<Rightarrow> finish E (feed E v))"

section \<open>Well-formed values\<close>

text \<open>
  What the constructors guarantee: a range is not empty and steps; a native is a frozen handle, with no
  epoch stamp; the trie of a map, set, failure or record is well-formed for this equality and hash. One
  condition is not guaranteed but needed: no list may end in a range (see \<open>cons_range_hash\<close>).
\<close>

fun is_range :: "val \<Rightarrow> bool" where
  "is_range (VRange lo hi step) = True"
| "is_range _ = False"

function vwf :: "env \<Rightarrow> val \<Rightarrow> bool" where
  "vwf E v = (case v of
     VPair a d \<Rightarrow> vwf E a \<and> vwf E d \<and> \<not> is_range d
   | VRange lo hi step \<Rightarrow> step \<noteq> 0 \<and> in_range lo hi step
   | VVector xs \<Rightarrow> (\<forall>x \<in> set xs. vwf E x)
   | VMap t \<Rightarrow> (\<forall>x \<in> set_trie t. vwf E x) \<and> twf (equal E) (hash_value E) 0 t
   | VSet t \<Rightarrow> (\<forall>x \<in> set_trie t. vwf E x) \<and> twf (equal E) (hash_value E) 0 t
   | VFailure t \<Rightarrow> (\<forall>x \<in> set_trie t. vwf E x) \<and> twf (equal E) (hash_value E) 0 t
   | VRecord i t \<Rightarrow> (\<forall>x \<in> set_trie t. vwf E x) \<and> twf (equal E) (hash_value E) 0 t
   | VNative h \<Rightarrow> canonical h = h
   | _ \<Rightarrow> True)"
  by pat_completeness auto
termination
  by (relation "measure (\<lambda>(E, v). size v)") (auto dest: size_elem size_list_elem [of _ _ size])

declare vwf.simps [simp del]

end
