(* ===== verification/Value_Laws.thy ===== *)
theory Value_Laws
  imports Values
begin

text \<open>
  The laws of value equality. On well-formed values \<open>equal\<close> is symmetric and transitive and equal values
  have the same hash, so the maps of the heap are maps keyed by it. A range is compared and hashed as
  the list it stands for, and a map by its bindings. Not every value equals itself: a NaN does not.
\<close>

section \<open>Ranges as lists\<close>

lemma ceil_div: "0 < (m :: int) \<Longrightarrow> (s + m - 1) div m = (s - 1) div m + 1"
  using div_add_self2 [of m "s - 1"] by (simp add: algebra_simps)

lemma range_len_exact_pos:
  assumes "step \<noteq> 0" "in_range lo hi step"
  shows "range_len_exact lo hi step =
    (let span = (if sint step > 0 then sint hi - sint lo else sint lo - sint hi) in (span + \<bar>sint step\<bar> - 1) div \<bar>sint step\<bar>)"
    and "1 \<le> range_len_exact lo hi step"
proof -
  let ?span = "if sint step > 0 then sint hi - sint lo else sint lo - sint hi"
  have mag: "0 < \<bar>sint step\<bar>" using assms(1) sint_eq_iff [of step 0] by auto
  have span: "0 < ?span" using assms(2) by (auto simp: in_range_def)
  have one: "1 \<le> (?span + \<bar>sint step\<bar> - 1) div \<bar>sint step\<bar>"
    using mag span unfolding ceil_div [OF mag] by (simp add: pos_imp_zdiv_nonneg_iff)
  have "(?span + \<bar>sint step\<bar> - 1) sdiv \<bar>sint step\<bar> = (?span + \<bar>sint step\<bar> - 1) div \<bar>sint step\<bar>"
    using mag span by (simp add: signed_divide_int_def)
  with one show "range_len_exact lo hi step = (let span = ?span in (span + \<bar>sint step\<bar> - 1) div \<bar>sint step\<bar>)"
    and "1 \<le> range_len_exact lo hi step"
    by (simp_all only: range_len_exact_def Let_def max_def split: if_splits) simp_all
qed

lemma range_len_exact_empty:
  assumes "step \<noteq> 0" "\<not> in_range lo hi step"
  shows "range_len_exact lo hi step = 0"
proof -
  let ?span = "if sint step > 0 then sint hi - sint lo else sint lo - sint hi"
  have mag: "0 < \<bar>sint step\<bar>" using assms(1) sint_eq_iff [of step 0] by auto
  have span: "?span \<le> 0" using assms(2) by (auto simp: in_range_def)
  have "(?span + \<bar>sint step\<bar> - 1) sdiv \<bar>sint step\<bar> \<le> 0"
  proof (cases "0 \<le> ?span + \<bar>sint step\<bar> - 1")
    case True
    with mag span show ?thesis by (simp add: signed_divide_int_def)
  next
    case False
    have "0 \<le> \<bar>?span + \<bar>sint step\<bar> - 1\<bar> div \<bar>sint step\<bar>" using mag by (simp add: pos_imp_zdiv_nonneg_iff)
    with False mag show ?thesis by (simp add: signed_divide_int_def)
  qed
  then show ?thesis by (simp add: range_len_exact_def Let_def)
qed

lemma range_len_exact_next:
  assumes "step \<noteq> 0" "in_range i hi step" "checked_add i step = Some n"
  shows "range_len_exact i hi step = range_len_exact n hi step + 1"
proof -
  let ?span = "\<lambda>x. if sint step > 0 then sint hi - sint x else sint x - sint hi"
  have n: "sint n = sint i + sint step" using assms(3) by (rule checked_add_next)
  have mag: "0 < \<bar>sint step\<bar>" using assms(1) sint_eq_iff [of step 0] by auto
  have span: "?span n = ?span i - \<bar>sint step\<bar>" using n by auto
  have i: "range_len_exact i hi step = (?span i + \<bar>sint step\<bar> - 1) div \<bar>sint step\<bar>"
    using range_len_exact_pos(1) [OF assms(1,2)] by (simp only: Let_def)
  have split: "(?span i + \<bar>sint step\<bar> - 1) div \<bar>sint step\<bar> = (?span n + \<bar>sint step\<bar> - 1) div \<bar>sint step\<bar> + 1"
    using mag div_add_self2 [of "\<bar>sint step\<bar>" "?span n + \<bar>sint step\<bar> - 1"] span by (simp add: algebra_simps)
  show ?thesis
  proof (cases "in_range n hi step")
    case True
    with range_len_exact_pos(1) [OF assms(1) True] i split show ?thesis by (simp only: Let_def)
  next
    case False
    have "?span n \<le> 0" using False by (auto simp: in_range_def)
    moreover have "0 < ?span i" using assms(2) by (auto simp: in_range_def)
    ultimately have "(?span n + \<bar>sint step\<bar> - 1) div \<bar>sint step\<bar> = 0" using span mag by (intro div_pos_pos_trivial) linarith+
    with range_len_exact_empty [OF assms(1) False] i split show ?thesis by simp
  qed
qed

lemma range_len_exact_last:
  assumes "step \<noteq> 0" "in_range i hi step" "checked_add i step = None"
  shows "range_len_exact i hi step = 1"
proof -
  let ?span = "if sint step > 0 then sint hi - sint i else sint i - sint hi"
  have mag: "0 < \<bar>sint step\<bar>" using assms(1) sint_eq_iff [of step 0] by auto
  have span: "0 < ?span" "?span \<le> \<bar>sint step\<bar>"
    using assms(2,3) sint_range [of hi] sint_range [of i] sint_range [of step]
    unfolding checked_add_None in_range_def by (simp_all split: if_splits)
  then have "(?span + \<bar>sint step\<bar> - 1) div \<bar>sint step\<bar> = 1"
    using mag unfolding ceil_div [OF mag] by (simp add: div_pos_pos_trivial)
  with range_len_exact_pos(1) [OF assms(1,2)] show ?thesis by (simp only: Let_def)
qed

lemma range_loop_map:
  "step \<noteq> 0 \<Longrightarrow> range_loop i hi step = map (\<lambda>j. i + of_nat j * step) [0..<nat (range_len_exact i hi step)]"
proof (induction i hi step rule: range_loop.induct)
  case (1 i hi step)
  show ?case
  proof (cases "in_range i hi step")
    case False
    with 1 show ?thesis by (simp add: range_loop.simps [of i] range_len_exact_empty)
  next
    case True
    show ?thesis
    proof (cases "checked_add i step")
      case None
      with True 1 show ?thesis by (simp add: range_loop.simps [of i] range_len_exact_last)
    next
      case (Some n)
      have "nat (range_len_exact i hi step) = Suc (nat (range_len_exact n hi step))"
        using range_len_exact_next [OF 1(2) True Some] by (simp add: range_len_exact_def Let_def nat_add_distrib)
      moreover have "range_loop n hi step = map (\<lambda>j. n + of_nat j * step) [0..<nat (range_len_exact n hi step)]"
        using 1(1) [OF _ Some] 1(2) True by blast
      ultimately show ?thesis
        using True Some 1(2) checked_add_plus [OF Some]
        by (simp add: range_loop.simps [of i] map_upt_Suc algebra_simps del: upt_Suc)
    qed
  qed
qed

lemma length_range_loop: "step \<noteq> 0 \<Longrightarrow> int (length (range_loop lo hi step)) = range_len_exact lo hi step"
  by (simp add: range_loop_map range_len_exact_def Let_def)

lemma range_prefix_map: "range_prefix n i step = map (\<lambda>j. i + of_nat j * step) [0..<n]"
  by (induction n arbitrary: i) (simp_all add: map_upt_Suc algebra_simps del: upt_Suc)

lemma range_prefix_take:
  "step \<noteq> 0 \<Longrightarrow> range_prefix (nat (min (range_len_exact lo hi step) (int m))) lo step = take m (range_loop lo hi step)"
proof -
  assume "step \<noteq> 0"
  moreover have "nat (min (range_len_exact lo hi step) (int m)) = min m (nat (range_len_exact lo hi step))" by linarith
  ultimately show ?thesis by (simp add: range_loop_map range_prefix_map take_map min_def)
qed

lemma range_eq_range_iff:
  assumes "s1 \<noteq> 0" "in_range lo1 hi1 s1" "s2 \<noteq> 0" "in_range lo2 hi2 s2"
  shows "range_eq_range (lo1, hi1, s1) (lo2, hi2, s2) \<longleftrightarrow> range_loop lo1 hi1 s1 = range_loop lo2 hi2 s2"
proof -
  let ?n1 = "range_len_exact lo1 hi1 s1" and ?n2 = "range_len_exact lo2 hi2 s2"
  note n = range_len_exact_pos(2) [OF assms(1,2)] range_len_exact_pos(2) [OF assms(3,4)]
  have at: "range_loop lo1 hi1 s1 ! j = lo1 + of_nat j * s1" if "int j < ?n1" for j
    using that by (subst range_loop_map [OF assms(1)], subst nth_map_upt) simp_all
  have at2: "range_loop lo2 hi2 s2 ! j = lo2 + of_nat j * s2" if "int j < ?n2" for j
    using that by (subst range_loop_map [OF assms(3)], subst nth_map_upt) simp_all
  note len = length_range_loop [OF assms(1), of lo1 hi1] length_range_loop [OF assms(3), of lo2 hi2]
  show ?thesis
  proof
    assume e: "range_eq_range (lo1, hi1, s1) (lo2, hi2, s2)"
    then have nn: "?n1 = ?n2" and lo: "lo1 = lo2" and st: "?n1 < 2 \<or> s1 = s2"
      using n by (auto simp: range_eq_range_def Let_def)
    show "range_loop lo1 hi1 s1 = range_loop lo2 hi2 s2"
    proof (rule nth_equalityI)
      show "length (range_loop lo1 hi1 s1) = length (range_loop lo2 hi2 s2)" using len nn by simp
      fix j assume "j < length (range_loop lo1 hi1 s1)"
      then have j: "int j < ?n1" using len by linarith
      from st show "range_loop lo1 hi1 s1 ! j = range_loop lo2 hi2 s2 ! j"
      proof
        assume "?n1 < 2"
        with j have "j = 0" by linarith
        with at [of 0] at2 [of 0] j nn lo show ?thesis by simp
      qed (use at [of j] at2 [of j] j nn lo in simp)
    qed
  next
    assume e: "range_loop lo1 hi1 s1 = range_loop lo2 hi2 s2"
    with len have nn: "?n1 = ?n2" by simp
    have lo: "lo1 = lo2" using at [of 0] at2 [of 0] n e by simp
    have "s1 = s2" if "\<not> ?n1 < 2" using at [of 1] at2 [of 1] that nn e lo by simp
    with nn lo show "range_eq_range (lo1, hi1, s1) (lo2, hi2, s2)" by (auto simp: range_eq_range_def Let_def)
  qed
qed

section \<open>Lists\<close>

fun islist :: "val \<Rightarrow> bool" where
  "islist (VPair a d) = True"
| "islist (VRange lo hi step) = True"
| "islist _ = False"

fun elems :: "val \<Rightarrow> val list" where
  "elems (VPair a d) = a # elems d"
| "elems (VRange lo hi step) = map VInt (range_loop lo hi step)"
| "elems _ = []"

fun tail :: "val \<Rightarrow> val" where
  "tail (VPair a d) = tail d"
| "tail (VRange lo hi step) = VNil"
| "tail v = v"

lemma not_islist [simp]: "\<not> islist v \<Longrightarrow> elems v = []" "\<not> islist v \<Longrightarrow> tail v = v"
  by (cases v; simp)+

lemma vwf_VPair: "vwf E (VPair a d) \<longleftrightarrow> vwf E a \<and> vwf E d \<and> \<not> is_range d"
  by (subst vwf.simps) simp

lemma vwf_VRange: "vwf E (VRange lo hi step) \<longleftrightarrow> step \<noteq> 0 \<and> in_range lo hi step"
  by (subst vwf.simps) simp

lemma vwf_compound:
  "vwf E (VVector xs) \<longleftrightarrow> (\<forall>x \<in> set xs. vwf E x)"
  "vwf E (VMap t) \<longleftrightarrow> (\<forall>x \<in> set_trie t. vwf E x) \<and> twf (equal E) (hash_value E) 0 t"
  "vwf E (VSet t) \<longleftrightarrow> (\<forall>x \<in> set_trie t. vwf E x) \<and> twf (equal E) (hash_value E) 0 t"
  "vwf E (VFailure t) \<longleftrightarrow> (\<forall>x \<in> set_trie t. vwf E x) \<and> twf (equal E) (hash_value E) 0 t"
  "vwf E (VRecord i t) \<longleftrightarrow> (\<forall>x \<in> set_trie t. vwf E x) \<and> twf (equal E) (hash_value E) 0 t"
  "vwf E (VNative h) \<longleftrightarrow> canonical h = h"
  by (subst vwf.simps; simp; fail)+

lemma tail_not_list: "vwf E v \<Longrightarrow> \<not> islist (tail v)"
proof (induction v)
  case (VPair a d)
  then show ?case by (cases d) (auto simp: vwf_VPair)
qed auto

lemma elems_Nil: "vwf E v \<Longrightarrow> elems v = [] \<longleftrightarrow> \<not> islist v"
  by (cases v) (auto simp: vwf_VRange range_loop.simps)

lemma range_eq_list_iff:
  "step \<noteq> 0 \<Longrightarrow> vwf E v \<Longrightarrow> \<not> is_range v \<Longrightarrow>
   range_eq_list i hi step v \<longleftrightarrow> elems v = map VInt (range_loop i hi step) \<and> tail v = VNil"
proof (induction i hi step v rule: range_eq_list.induct)
  case (2 i hi step car cdr)
  have cdr: "vwf E cdr" "\<not> is_range cdr" using 2 by (simp_all add: vwf_VPair)
  show ?case
  proof (cases "in_range i hi step")
    case True
    show ?thesis
    proof (cases "checked_add i step")
      case None
      have "elems cdr = [] \<and> tail cdr = VNil \<longleftrightarrow> cdr = VNil"
        using elems_Nil [OF cdr(1)] by (cases cdr) auto
      with True None 2(2) show ?thesis by (auto simp: range_loop.simps [of i])
    next
      case (Some n)
      with True 2(1) [OF Some 2(2) cdr] 2(2) show ?thesis by (auto simp: range_loop.simps [of i])
    qed
  next
    case False
    then show ?thesis by (simp add: range_loop.simps [of i])
  qed
qed (auto simp: range_loop.simps)

lemma list_all2_ints: "list_all2 (equal E) (map VInt is) xs \<longleftrightarrow> xs = map VInt is"
  by (induction "is" arbitrary: xs) (auto simp: list_all2_Cons1)

lemma equal_VInt_right: "equal E x (VInt i) \<longleftrightarrow> x = VInt i"
  by (cases x) (auto simp: equal_VPair equal_VRange)

lemma equal_VNil_right: "equal E x VNil \<longleftrightarrow> x = VNil"
  by (cases x) (auto simp: equal_VPair equal_VRange)

lemma list_all2_ints_right: "list_all2 (equal E) xs (map VInt is) \<longleftrightarrow> xs = map VInt is"
  by (induction "is" arbitrary: xs) (auto simp: list_all2_Cons2 equal_VInt_right)

lemma equal_islist: "equal E a b \<Longrightarrow> islist a = islist b"
  by (cases a) (auto simp: equal_VPair equal_VRange split: val.splits)

lemma equal_pairs_atom:
  assumes "\<not> islist d" "vwf E (VPair b e)"
  shows "equal E (VPair a d) (VPair b e) \<longleftrightarrow>
     list_all2 (equal E) (elems (VPair a d)) (elems (VPair b e)) \<and> equal E (tail d) (tail e)"
proof (cases "islist e")
  case True
  then have "\<not> equal E d e" "elems e \<noteq> []"
    using equal_islist [of E d e] elems_Nil [of E e] assms by (auto simp: vwf_VPair)
  with assms(1) show ?thesis by (simp add: equal_VPair)
next
  case False
  with assms(1) show ?thesis by (simp add: equal_VPair)
qed

lemma equal_pairs:
  "vwf E (VPair a d) \<Longrightarrow> vwf E (VPair b e) \<Longrightarrow> equal E (VPair a d) (VPair b e) \<longleftrightarrow>
     list_all2 (equal E) (elems (VPair a d)) (elems (VPair b e)) \<and> equal E (tail d) (tail e)"
proof (induction d arbitrary: a b e)
  case (VPair a' d')
  show ?case
  proof (cases "islist e")
    case True
    then obtain b' e' where e: "e = VPair b' e'" using VPair.prems(2) by (cases e) (auto simp: vwf_VPair)
    have "equal E (VPair a' d') e \<longleftrightarrow> list_all2 (equal E) (elems (VPair a' d')) (elems e) \<and> equal E (tail d') (tail e')"
      using VPair.IH(2) [of a' b' e'] VPair.prems by (simp add: e vwf_VPair)
    then show ?thesis by (simp add: equal_VPair [of E a] e)
  next
    case False
    then show ?thesis using equal_islist [of E "VPair a' d'" e] by (auto simp: equal_VPair [of E a])
  qed
next
  case (VRange lo hi step)
  then show ?case by (simp add: vwf_VPair)
qed (rule equal_pairs_atom; simp)+

lemma equal_lists:
  assumes "vwf E a" "vwf E b" "islist a" "islist b"
  shows "equal E a b \<longleftrightarrow> list_all2 (equal E) (elems a) (elems b) \<and> equal E (tail a) (tail b)"
proof (cases a)
  case a: (VPair a0 a1)
  show ?thesis
  proof (cases b)
    case (VPair b0 b1)
    with equal_pairs [of E a0 a1 b0 b1] assms a show ?thesis by simp
  next
    case (VRange lo hi step)
    with assms range_eq_list_iff [of step E a lo hi] show ?thesis
      by (simp add: a equal_VPair vwf_VRange list_all2_ints_right [of E "a0 # elems a1" "range_loop lo hi step"] equal_VNil_right)
  qed (use assms in auto)
next
  case a: (VRange lo hi step)
  show ?thesis
  proof (cases b)
    case (VPair b0 b1)
    with assms range_eq_list_iff [of step E b lo hi] show ?thesis
      by (auto simp: a equal_VRange vwf_VRange list_all2_ints)
  next
    case (VRange lo' hi' step')
    have "inj VInt" by (simp add: inj_def)
    with VRange assms a range_eq_range_iff [of step lo hi step' lo' hi'] show ?thesis
      by (auto simp: equal_VRange vwf_VRange list_all2_ints inj_map_eq_map)
  qed (use assms in auto)
qed (use assms in auto)

section \<open>What a list feeds the hasher\<close>

lemma feed_scalars [simp]:
  "feed E VNil = [0]" "feed E (VInt n) = feed_int n"
  by (subst feed.simps, simp)+

lemma feed_spine_list:
  "vwf E v \<Longrightarrow> \<not> is_range v \<Longrightarrow> islist v \<Longrightarrow> feed_spine E n v =
     concat (map (feed E) (take (LIST_HASH_PREFIX - n) (elems v))) @ 0xFF # feed E (tail v) @
     le_bytes (of_nat (n + length (elems v)) :: 128 word)"
proof (induction v arbitrary: n)
  case (VPair a d)
  have head: "concat (map (feed E) (take (LIST_HASH_PREFIX - n) (a # xs))) =
      (if n < LIST_HASH_PREFIX then feed E a else []) @ concat (map (feed E) (take (LIST_HASH_PREFIX - Suc n) xs))" for xs
    by (auto simp: take_Cons')
  show ?case
  proof (cases "islist d")
    case True
    then obtain a' d' where d: "d = VPair a' d'" using VPair.prems by (cases d) (auto simp: vwf_VPair)
    have "feed_spine E (Suc n) d = concat (map (feed E) (take (LIST_HASH_PREFIX - Suc n) (elems d))) @ 0xFF # feed E (tail d) @
        le_bytes (of_nat (Suc n + length (elems d)) :: 128 word)"
      using VPair.IH(2) [of "Suc n"] VPair.prems True by (simp add: vwf_VPair)
    moreover have "feed_spine E n (VPair a d) = (if n < LIST_HASH_PREFIX then feed E a else []) @ feed_spine E (Suc n) d"
      by (subst feed_spine.simps) (simp add: d)
    ultimately show ?thesis by (simp add: head)
  next
    case False
    then have "feed_spine E n (VPair a d) = (if n < LIST_HASH_PREFIX then feed E a else []) @
        0xFF # feed E d @ le_bytes (of_nat (n + 1) :: 128 word)"
      by (subst feed_spine.simps) (cases d; simp)
    with False show ?thesis by (simp add: head)
  qed
qed simp_all

lemma feed_list:
  assumes "vwf E v" "islist v"
  shows "feed E v = 7 # concat (map (feed E) (take LIST_HASH_PREFIX (elems v))) @ 0xFF # feed E (tail v) @
     le_bytes (of_nat (length (elems v)) :: 128 word)"
proof (cases v)
  case (VPair a d)
  have "feed E v = 7 # feed_spine E 0 v" by (subst feed.simps) (simp add: VPair)
  with feed_spine_list [of E v 0] assms VPair show ?thesis by simp
next
  case (VRange lo hi step)
  with assms have step: "step \<noteq> 0" by (simp add: vwf_VRange)
  have "feed E v = feed_range lo hi step" by (subst feed.simps) (simp add: VRange)
  moreover have "(of_int (range_len_exact lo hi step) :: 128 word) = of_nat (length (range_loop lo hi step))"
    using length_range_loop [OF step, of lo hi] by (metis of_int_of_nat_eq)
  ultimately show ?thesis
    using range_prefix_take [OF step, of lo hi LIST_HASH_PREFIX]
    by (simp add: VRange feed_range_def Let_def take_map o_def)
qed (use assms in auto)

section \<open>The laws\<close>

definition laws :: "env \<Rightarrow> val set \<Rightarrow> bool" where
  "laws E A \<longleftrightarrow> sym_on A (equal E) \<and> trans_on A (equal E) \<and> (\<forall>x \<in> A. \<forall>y \<in> A. equal E x y \<longrightarrow> feed E x = feed E y)"

lemma lawsD:
  assumes "laws E A"
  shows "x \<in> A \<Longrightarrow> y \<in> A \<Longrightarrow> equal E x y \<Longrightarrow> equal E y x"
    and "x \<in> A \<Longrightarrow> y \<in> A \<Longrightarrow> z \<in> A \<Longrightarrow> equal E x y \<Longrightarrow> equal E y z \<Longrightarrow> equal E x z"
    and "x \<in> A \<Longrightarrow> y \<in> A \<Longrightarrow> equal E x y \<Longrightarrow> feed E x = feed E y"
  using assms unfolding laws_def sym_on_def trans_on_def by blast+

lemma laws_subset: "laws E A \<Longrightarrow> B \<subseteq> A \<Longrightarrow> laws E B"
  unfolding laws_def by (meson subset_eq sym_on_subset trans_on_subset)

definition atoms :: "val set" where
  "atoms = insert VNil (range VInt)"

lemma equal_atom: "x \<in> atoms \<or> y \<in> atoms \<Longrightarrow> equal E x y \<longleftrightarrow> x = y"
  unfolding atoms_def using equal_VInt_right equal_VNil_right by auto

lemma laws_atoms: "laws E A \<Longrightarrow> laws E (A \<union> atoms)"
  unfolding laws_def sym_on_def trans_on_def
  by (intro conjI ballI impI; metis Un_iff equal_atom)

text \<open>The elements of a list are smaller than it, or are the integers of a range.\<close>

lemma elems_small:
  "vwf E v \<Longrightarrow> x \<in> set (elems v) \<Longrightarrow> x \<in> {x. vwf E x \<and> size x < size v} \<union> atoms"
proof (induction v)
  case (VPair a d)
  then show ?case by (cases "x = a") (auto simp: vwf_VPair atoms_def)
qed (auto simp: atoms_def)

lemma tail_small: "vwf E v \<Longrightarrow> islist v \<Longrightarrow> tail v \<in> {x. vwf E x \<and> size x < size v} \<union> atoms"
proof (induction v)
  case (VPair a d)
  then show ?case by (cases "islist d") (auto simp: vwf_VPair atoms_def)
qed (auto simp: atoms_def)

lemma laws_all2:
  assumes "laws E A"
  shows "set xs \<subseteq> A \<Longrightarrow> set ys \<subseteq> A \<Longrightarrow> list_all2 (equal E) xs ys \<Longrightarrow> list_all2 (equal E) ys xs"
    and "set xs \<subseteq> A \<Longrightarrow> set ys \<subseteq> A \<Longrightarrow> set zs \<subseteq> A \<Longrightarrow> list_all2 (equal E) xs ys \<Longrightarrow> list_all2 (equal E) ys zs \<Longrightarrow> list_all2 (equal E) xs zs"
    and "set xs \<subseteq> A \<Longrightarrow> set ys \<subseteq> A \<Longrightarrow> list_all2 (equal E) xs ys \<Longrightarrow> map (feed E) xs = map (feed E) ys"
proof -
  note l = lawsD [OF assms]
  show "set xs \<subseteq> A \<Longrightarrow> set ys \<subseteq> A \<Longrightarrow> list_all2 (equal E) xs ys \<Longrightarrow> list_all2 (equal E) ys xs"
    unfolding list_all2_conv_all_nth by (metis l(1) nth_mem subsetD)
  show "set xs \<subseteq> A \<Longrightarrow> set ys \<subseteq> A \<Longrightarrow> set zs \<subseteq> A \<Longrightarrow> list_all2 (equal E) xs ys \<Longrightarrow> list_all2 (equal E) ys zs \<Longrightarrow> list_all2 (equal E) xs zs"
    unfolding list_all2_conv_all_nth by (metis l(2) nth_mem subsetD)
  show "set xs \<subseteq> A \<Longrightarrow> set ys \<subseteq> A \<Longrightarrow> list_all2 (equal E) xs ys \<Longrightarrow> map (feed E) xs = map (feed E) ys"
    unfolding list_all2_conv_all_nth by (rule nth_equalityI) (simp, metis l(3) length_map nth_map nth_mem subsetD)
qed

lemma xor_all_mset:
  assumes "mset xs = mset ys"
  shows "xor_all xs = xor_all ys"
proof -
  have "fold (\<lambda>h acc. acc XOR h) xs = fold (\<lambda>h acc. acc XOR h) ys"
    by (rule fold_multiset_equiv [OF _ assms]) (simp add: fun_eq_iff xor.assoc xor.commute xor.left_commute)
  then show ?thesis by (simp add: xor_all_def)
qed

lemma laws_trie:
  assumes L: "laws E A" and wf: "twf (equal E) hv 0 t" and sub: "set_trie t \<subseteq> A" "set_trie u \<subseteq> A" and eq: "t_equal (equal E) t u"
  shows "t_equal (equal E) u t" "count t = count u"
    "entries_acc E (feed E) t = entries_acc E (feed E) u" "keys_acc E (feed E) t = keys_acc E (feed E) u"
proof -
  have l: "sym_on A (equal E)" "trans_on A (equal E)" using L by (simp_all add: laws_def)
  show "t_equal (equal E) u t" by (rule t_equal_sym [OF eq wf l sub])
  show "count t = count u" by (rule t_equal_count [OF eq])
  have same: "feed E (fst e) = feed E (fst e') \<and> feed E (snd e) = feed E (snd e')"
    if "e \<in> set (entries t)" "e' \<in> set (entries u)" "entry_equal (equal E) e e'" for e e'
  proof -
    have "{fst e, snd e, fst e', snd e'} \<subseteq> A" using that(1,2) sub by (auto simp: set_trie_entries)
    with that(3) show ?thesis using lawsD(3) [OF L] by (simp add: entry_equal_def)
  qed
  show "entries_acc E (feed E) t = entries_acc E (feed E) u"
    unfolding entries_acc_def by (rule xor_all_mset, rule t_equal_mset [OF eq wf l sub]) (simp add: same)
  show "keys_acc E (feed E) t = keys_acc E (feed E) u"
    unfolding keys_acc_def by (rule xor_all_mset, rule t_equal_mset [OF eq wf l sub]) (simp add: same)
qed

fun subs :: "val \<Rightarrow> val set" where
  "subs (VPair a d) = insert (tail d) (set (elems (VPair a d)))"
| "subs (VRange lo hi step) = insert VNil (set (elems (VRange lo hi step)))"
| "subs (VVector xs) = set xs"
| "subs (VMap t) = set_trie t"
| "subs (VSet t) = set_trie t"
| "subs (VFailure t) = set_trie t"
| "subs (VRecord i t) = set_trie t"
| "subs _ = {}"

lemma subs_list: "islist v \<Longrightarrow> subs v = insert (tail v) (set (elems v))"
  by (cases v) auto

lemma subs_small: "vwf E v \<Longrightarrow> subs v \<subseteq> {x. vwf E x \<and> size x < size v} \<union> atoms"
proof (cases "islist v")
  case True
  assume "vwf E v"
  with elems_small [OF this] tail_small [OF this True] show ?thesis by (auto simp: subs_list [OF True])
next
  case False
  assume "vwf E v"
  with False show ?thesis
    by (cases v) (auto simp: vwf_compound dest: size_elem size_list_elem [of _ _ size])
qed

lemma handle_eq_equiv: "handle_eq x y \<longleftrightarrow> canonical x = canonical y"
  by (simp add: handle_eq_def)

lemma float_eq_sym: "float_eq x y \<Longrightarrow> float_eq y x"
  by (auto simp: float_eq_def)

lemma float_eq_trans: "float_eq x y \<Longrightarrow> float_eq y z \<Longrightarrow> float_eq x z"
  by (auto simp: float_eq_def)

lemma float_eq_word: "float_eq x y \<Longrightarrow> float_word x = float_word y"
  by (auto simp: float_eq_def float_word_def)

lemma equal_sym_step:
  assumes L: "laws E A" "subs a \<subseteq> A" "subs b \<subseteq> A" and wf: "vwf E a" "vwf E b" and eq: "equal E a b"
  shows "equal E b a"
proof (cases "islist a")
  case True
  with eq have b: "islist b" by (simp add: equal_islist)
  have "list_all2 (equal E) (elems a) (elems b)" "equal E (tail a) (tail b)"
    using eq equal_lists [OF wf True b] by auto
  then have "list_all2 (equal E) (elems b) (elems a)" "equal E (tail b) (tail a)"
    using laws_all2(1) [OF L(1)] lawsD(1) [OF L(1)] L(2,3) by (auto simp: subs_list True b)
  then show ?thesis using equal_lists [OF wf(2,1) b True] by simp
next
  case False
  show ?thesis
    using eq False wf L(2,3) laws_all2(1) [OF L(1)]
    by (cases a) (auto simp: handle_eq_equiv vwf_compound intro: float_eq_sym laws_trie(1) [OF L(1)])
qed

lemma equal_trans_step:
  assumes L: "laws E A" "subs a \<subseteq> A" "subs b \<subseteq> A" "subs c \<subseteq> A" and wf: "vwf E a" "vwf E b" "vwf E c"
    and eq: "equal E a b" "equal E b c"
  shows "equal E a c"
proof (cases "islist a")
  case True
  with eq have l: "islist b" "islist c" using equal_islist by blast+
  have "list_all2 (equal E) (elems a) (elems b)" "equal E (tail a) (tail b)"
    "list_all2 (equal E) (elems b) (elems c)" "equal E (tail b) (tail c)"
    using eq equal_lists [OF wf(1,2) True l(1)] equal_lists [OF wf(2,3) l] by auto
  then have "list_all2 (equal E) (elems a) (elems c)" "equal E (tail a) (tail c)"
    using laws_all2(2) [OF L(1), of "elems a" "elems b" "elems c"] lawsD(2) [OF L(1), of "tail a" "tail b" "tail c"] L(2-4)
    by (auto simp: subs_list True l)
  then show ?thesis using equal_lists [OF wf(1,3) True l(2)] by simp
next
  case False
  have tr: "trans_on A (equal E)" using L(1) by (simp add: laws_def)
  have t: "t_equal (equal E) x z"
    if "t_equal (equal E) x y" "t_equal (equal E) y z" "set_trie x \<subseteq> A" "set_trie y \<subseteq> A" "set_trie z \<subseteq> A" for x y z
    by (rule t_equal_trans [OF that(1,2) tr that(3-5)])
  show ?thesis
  proof (cases a)
    case (VVector xs)
    with eq obtain ys zs where v: "b = VVector ys" "c = VVector zs" "list_all2 (equal E) xs ys" "list_all2 (equal E) ys zs"
      by auto
    with laws_all2(2) [OF L(1) _ _ _ v(3,4)] VVector L(2-4) show ?thesis by simp
  next
    case (VMap x)
    with eq obtain y z where v: "b = VMap y" "c = VMap z" "t_equal (equal E) x y" "t_equal (equal E) y z" by auto
    with t [OF v(3,4)] VMap L(2-4) show ?thesis by simp
  next
    case (VSet x)
    with eq obtain y z where v: "b = VSet y" "c = VSet z" "t_equal (equal E) x y" "t_equal (equal E) y z" by auto
    with t [OF v(3,4)] VSet L(2-4) show ?thesis by simp
  next
    case (VFailure x)
    with eq obtain y z where v: "b = VFailure y" "c = VFailure z" "t_equal (equal E) x y" "t_equal (equal E) y z" by auto
    with t [OF v(3,4)] VFailure L(2-4) show ?thesis by simp
  next
    case (VRecord i x)
    with eq obtain y z where v: "b = VRecord i y" "c = VRecord i z" "t_equal (equal E) x y" "t_equal (equal E) y z" by auto
    with t [OF v(3,4)] VRecord L(2-4) show ?thesis by simp
  next
    case (VFloat x)
    with eq obtain y z where "b = VFloat y" "c = VFloat z" "float_eq x y" "float_eq y z" by auto
    with VFloat float_eq_trans [of x y z] show ?thesis by simp
  qed (use eq False in \<open>auto simp: handle_eq_equiv\<close>)
qed

lemma feed_atoms:
  "feed E (VFloat f) = 3 # le_bytes (float_word f)"
  "feed E (VDecimal d) = 22 # write_str (dec_string E (normalized E d))"
  "feed E (VSeqView x) = [0x5E]"
  "feed E (VFn x) = 10 # le_bytes (identity E (canonical x))"
  "feed E (VMacro x) = 11 # le_bytes (identity E (canonical x))"
  "feed E (VNative x) = 12 # le_bytes x"
  "feed E (VPid node i) = 14 # (if is_local E node then le_bytes (- 1 :: symbol) else le_bytes node) @ le_bytes i"
  by (subst feed.simps; simp add: feed_number_def; fail)+

lemma equal_feed_step:
  assumes L: "laws E A" "subs a \<subseteq> A" "subs b \<subseteq> A" and wf: "vwf E a" "vwf E b" and eq: "equal E a b"
  shows "feed E a = feed E b"
proof (cases "islist a")
  case True
  with eq have b: "islist b" by (simp add: equal_islist)
  have e: "list_all2 (equal E) (elems a) (elems b)" "equal E (tail a) (tail b)"
    using eq equal_lists [OF wf True b] by auto
  have "map (feed E) (elems a) = map (feed E) (elems b)" "feed E (tail a) = feed E (tail b)" "length (elems a) = length (elems b)"
    using laws_all2(3) [OF L(1) _ _ e(1)] lawsD(3) [OF L(1) _ _ e(2)] L(2,3) list_all2_lengthD [OF e(1)]
    by (auto simp: subs_list True b)
  then show ?thesis unfolding feed_list [OF wf(1) True] feed_list [OF wf(2) b] by (simp add: take_map [symmetric])
next
  case False
  have t: "count x = count y \<and> entries_acc E (feed E) x = entries_acc E (feed E) y \<and> keys_acc E (feed E) x = keys_acc E (feed E) y"
    if "twf (equal E) (hash_value E) 0 x" "set_trie x \<subseteq> A" "set_trie y \<subseteq> A" "t_equal (equal E) x y" for x y
    using laws_trie(2-4) [OF L(1) that] by simp
  show ?thesis
  proof (cases a)
    case (VVector xs)
    with eq obtain ys where b: "b = VVector ys" "list_all2 (equal E) xs ys" by auto
    with VVector L laws_all2(3) [OF L(1) _ _ b(2)] list_all2_lengthD [OF b(2)] show ?thesis
      by (simp add: feed.simps [of E "VVector xs"] feed.simps [of E "VVector ys"])
  next
    case (VMap t)
    with eq obtain u where b: "b = VMap u" "t_equal (equal E) t u" by auto
    with t [OF _ _ _ b(2)] VMap L(2,3) wf show ?thesis
      by (simp add: feed.simps [of E "VMap t"] feed.simps [of E "VMap u"] vwf_compound)
  next
    case (VSet t)
    with eq obtain u where b: "b = VSet u" "t_equal (equal E) t u" by auto
    with t [OF _ _ _ b(2)] VSet L(2,3) wf show ?thesis
      by (simp add: feed.simps [of E "VSet t"] feed.simps [of E "VSet u"] vwf_compound)
  next
    case (VFailure t)
    with eq obtain u where b: "b = VFailure u" "t_equal (equal E) t u" by auto
    with t [OF _ _ _ b(2)] VFailure L(2,3) wf show ?thesis
      by (simp add: feed.simps [of E "VFailure t"] feed.simps [of E "VFailure u"] vwf_compound)
  next
    case (VRecord i t)
    with eq obtain u where b: "b = VRecord i u" "t_equal (equal E) t u" by auto
    with t [OF _ _ _ b(2)] VRecord L(2,3) wf show ?thesis
      by (simp add: feed.simps [of E "VRecord i t"] feed.simps [of E "VRecord i u"] vwf_compound)
  qed (use eq False wf in \<open>auto simp: feed_atoms handle_eq_equiv float_eq_word vwf_compound\<close>)
qed

lemma laws_size: "laws E {x. vwf E x \<and> size x < n}"
proof (induction n)
  case 0
  then show ?case by (simp add: laws_def sym_on_def trans_on_def)
next
  case (Suc n)
  let ?A = "{x. vwf E x \<and> size x < n} \<union> atoms"
  have L: "laws E ?A" by (rule laws_atoms [OF Suc.IH])
  have sub: "subs v \<subseteq> ?A" if "vwf E v" "size v < Suc n" for v
    using subs_small [OF that(1)] that(2) by auto
  show ?case
    unfolding laws_def sym_on_def trans_on_def
  proof (intro conjI ballI impI)
    fix x y assume xy: "x \<in> {x. vwf E x \<and> size x < Suc n}" "y \<in> {x. vwf E x \<and> size x < Suc n}" "equal E x y"
    note wf = xy(1,2) [simplified, THEN conjunct1] and s = xy(1,2) [simplified, THEN conjunct2]
    show "equal E y x" by (rule equal_sym_step [OF L sub sub]) (use wf s xy(3) in auto)
    show "feed E x = feed E y" by (rule equal_feed_step [OF L sub sub]) (use wf s xy(3) in auto)
    fix z assume z: "z \<in> {x. vwf E x \<and> size x < Suc n}" "equal E y z"
    show "equal E x z" by (rule equal_trans_step [OF L sub sub sub]) (use wf s xy(3) z in auto)
  qed
qed

lemma laws_vwf: "laws E {x. vwf E x}"
  unfolding laws_def sym_on_def trans_on_def
proof (intro conjI ballI impI)
  fix x y assume xy: "x \<in> {x. vwf E x}" "y \<in> {x. vwf E x}" "equal E x y"
  note l = lawsD [OF laws_size [of E "Suc (max (size x) (size y))"]]
  show "equal E y x" by (rule l(1)) (use xy in auto)
  show "feed E x = feed E y" by (rule l(3)) (use xy in auto)
  fix z assume z: "z \<in> {x. vwf E x}" "equal E y z"
  note l = lawsD [OF laws_size [of E "Suc (max (size x) (max (size y) (size z)))"]]
  show "equal E x z" by (rule l(2) [of x y z]) (use xy z in auto)
qed

end
