(* ===== verification/Value_Maps.thy ===== *)
theory Value_Maps
  imports Champ_Keys Value_Laws
begin

text \<open>
  The runtime's maps: the CHAMP operations run with the runtime's own equality and hash. Equal well-formed
  values have the same hash, which makes \<open>equal\<close> and \<open>hash_value\<close> an instance of the interface of
  key equality, and the laws of the maps follow for maps keyed by Brood values.
\<close>

lemma equal_hash_value:
  assumes "vwf E a" "vwf E b" "equal E a b"
  shows "hash_value E a = hash_value E b"
proof -
  have "feed E a = feed E b" using lawsD(3) [OF laws_vwf] assms by simp
  with assms(3) show ?thesis
    by (cases a; cases b) (auto simp: hash_value_def equal_VPair equal_VRange)
qed

interpretation val_keys: key_laws "vwf E" "equal E" "hash_value E" for E
proof unfold_locales
  show "vwf E a \<Longrightarrow> vwf E b \<Longrightarrow> equal E a b \<Longrightarrow> equal E b a" for a b
    using lawsD(1) [OF laws_vwf] by simp
  show "vwf E a \<Longrightarrow> vwf E b \<Longrightarrow> vwf E c \<Longrightarrow> equal E a b \<Longrightarrow> equal E b c \<Longrightarrow> equal E a c" for a b c
    using lawsD(2) [OF laws_vwf, where x = a and y = b and z = c] by simp
  show "vwf E a \<Longrightarrow> vwf E b \<Longrightarrow> equal E a b \<Longrightarrow> hash_value E a = hash_value E b" for a b
    by (rule equal_hash_value)
qed

abbreviation val_map :: "env \<Rightarrow> val heap \<Rightarrow> handle \<Rightarrow> bool" where
  "val_map E \<equiv> key_map (vwf E) (equal E) (hash_value E)"

abbreviation keeps_val_maps :: "env \<Rightarrow> val heap \<Rightarrow> val heap \<Rightarrow> bool" where
  "keeps_val_maps E \<equiv> keeps_key_maps (vwf E) (equal E) (hash_value E)"

section \<open>Equality and hash\<close>

text \<open>
  C1: value equality. On well-formed values \<open>equal\<close> is symmetric and transitive, whatever kinds the
  values are (a range against the list it stands for, maps against maps, nested to any depth), and
  equal values have the same hash.
\<close>

theorem equal_hash_laws:
  assumes "vwf E a" "vwf E b" "vwf E c" "equal E a b"
  shows "equal E b a \<and> (equal E b c \<longrightarrow> equal E a c) \<and> hash_value E a = hash_value E b"
  using assms val_keys.good_sym [of E a b] val_keys.good_trans [of E a b c] val_keys.good_hash [of E a b] by blast

text \<open>An environment and a heap for the witnesses.\<close>

definition sample_env :: env where
  "sample_env = \<lparr>finish = (\<lambda>bs. of_nat (sum_list (map unat bs))), spelling_hash = ucast, is_local = (\<lambda>_. True),
     normalized = (\<lambda>d. d), dec_string = (\<lambda>d. []), bigint_bytes = (\<lambda>z. []), ratio_string = (\<lambda>n d. []), identity = (\<lambda>u. u)\<rparr>"

definition empty_heap :: "val heap" where
  "empty_heap = \<lparr>local_maps = [], old_maps = [], prelude_maps = [], runtime_maps = (\<lambda>_. []), local_epoch = 0, old_epoch = 0\<rparr>"

lemma vwf_scalars [simp]: "vwf E VNil" "vwf E (VInt i)" "vwf E (VBool b)" "vwf E (VKeyword s)" "vwf E (VStr t)"
  by (subst vwf.simps, simp)+

lemma sample_range: "in_range 0 2 1" "range_eq_list 0 2 1 (VPair (VInt 0) (VPair (VInt 1) VNil))"
  by (simp_all add: in_range_def checked_add_def)

lemma equal_hash_laws_witness:
  "equal sample_env (VPair (VInt 0) (VPair (VInt 1) VNil)) (VRange 0 2 1) \<and>
   hash_value sample_env (VRange 0 2 1) = hash_value sample_env (VPair (VInt 0) (VPair (VInt 1) VNil))"
proof -
  let ?l = "VPair (VInt 0) (VPair (VInt 1) VNil)"
  have "vwf sample_env (VRange 0 2 1)" "vwf sample_env ?l" by (simp_all add: vwf_VRange vwf_VPair sample_range)
  moreover have "equal sample_env (VRange 0 2 1) ?l" by (simp only: equal_VRange val.case sample_range)
  ultimately show ?thesis using equal_hash_laws [of sample_env "VRange 0 2 1" ?l ?l] by blast
qed

text \<open>\<open>conses xs d\<close> is what \<open>cons\<close> builds when the values \<open>xs\<close> are put in front of \<open>d\<close>.\<close>

definition conses :: "val list \<Rightarrow> val \<Rightarrow> val" where
  "conses xs d = foldr VPair xs d"

lemma conses_simps [simp]:
  "conses [] d = d"
  "conses (x # xs) d = VPair x (conses xs d)"
  by (simp_all add: conses_def)

lemma conses_append: "conses (xs @ ys) d = conses xs (conses ys d)"
  by (simp add: conses_def)

lemma equal_conses:
  "\<forall>x \<in> set xs. equal E x x \<Longrightarrow> equal E d e \<Longrightarrow> equal E (conses xs d) (conses xs e)"
  by (induction xs) (simp_all add: equal_VPair)

lemma elems_conses: "elems (conses xs VNil) = xs" "tail (conses xs VNil) = VNil" "\<not> is_range (conses xs VNil)"
  by (induction xs) simp_all

lemma vwf_conses: "\<forall>x \<in> set xs. vwf E x \<Longrightarrow> vwf E (conses xs VNil)"
  by (induction xs) (simp_all add: vwf_VPair elems_conses(3))

lemma equal_range_list:
  "step \<noteq> 0 \<Longrightarrow> in_range lo hi step \<Longrightarrow>
   equal E (VRange lo hi step) (conses (map VInt (range_loop lo hi step)) VNil)"
proof -
  assume r: "step \<noteq> 0" "in_range lo hi step"
  let ?l = "conses (map VInt (range_loop lo hi step)) VNil"
  have "range_loop lo hi step \<noteq> []" using r by (subst range_loop.simps) simp
  then obtain a d where l: "?l = VPair a d" by (cases "range_loop lo hi step") simp_all
  have "vwf E ?l" by (rule vwf_conses) (auto simp: vwf_scalars)
  with range_eq_list_iff [of step E ?l lo hi] r have "range_eq_list lo hi step ?l"
    by (simp add: elems_conses del: range_eq_list.simps)
  then show ?thesis by (simp add: l equal_VRange del: range_eq_list.simps)
qed

lemma feed_spine_conses:
  "xs \<noteq> [] \<Longrightarrow> (\<And>a b. d \<noteq> VPair a b) \<Longrightarrow>
   feed_spine E n (conses xs d) = concat (map (feed E) (take (LIST_HASH_PREFIX - n) xs)) @ 0xFF # feed E d @
     le_bytes (of_nat (n + length xs) :: 128 word)"
proof (induction xs arbitrary: n)
  case (Cons x xs)
  have head: "concat (map (feed E) (take (LIST_HASH_PREFIX - n) (x # xs))) =
      (if n < LIST_HASH_PREFIX then feed E x else []) @ concat (map (feed E) (take (LIST_HASH_PREFIX - Suc n) xs))"
    by (auto simp: take_Cons')
  show ?case
  proof (cases xs)
    case Nil
    with Cons.prems(2) show ?thesis by (subst feed_spine.simps, subst head) (simp split: val.split)
  next
    case (Cons y ys)
    with Cons.IH [of "Suc n"] Cons.prems(2) show ?thesis
      by (subst feed_spine.simps, subst head) (simp add: add.commute)
  qed
qed simp

lemma feed_conses:
  "xs \<noteq> [] \<Longrightarrow> (\<And>a b. d \<noteq> VPair a b) \<Longrightarrow>
   feed E (conses xs d) = 7 # concat (map (feed E) (take LIST_HASH_PREFIX xs)) @ 0xFF # feed E d @
     le_bytes (of_nat (length xs) :: 128 word)"
  using feed_spine_conses [of xs d E 0] by (cases xs; subst feed.simps) simp_all

lemma length_le_bytes_128: "length (le_bytes (w :: 128 word)) = 16"
  by (simp add: le_bytes_def)

text \<open>
  C5: the limit of the hash. Any values put in front of a non-empty range, each equal to itself, make a
  list equal to the list of the same values followed by the range's elements, and the two feed the
  hasher different bytes (the first always feeds more of them), whatever the environment: as map keys
  they are equal and, unless the hasher collides, found in different slots.
\<close>

theorem cons_range_hash:
  assumes "xs \<noteq> []" "\<forall>x \<in> set xs. equal E x x" "step \<noteq> 0" "in_range lo hi step"
  shows "equal E (conses xs (VRange lo hi step)) (conses (xs @ map VInt (range_loop lo hi step)) VNil) \<and>
    length (feed E (conses (xs @ map VInt (range_loop lo hi step)) VNil)) < length (feed E (conses xs (VRange lo hi step)))"
proof
  let ?is = "map VInt (range_loop lo hi step)"
  show "equal E (conses xs (VRange lo hi step)) (conses (xs @ ?is) VNil)"
    unfolding conses_append using assms(2) equal_range_list [OF assms(3,4)] by (rule equal_conses)
  have ints: "length (concat (map (feed E \<circ> VInt) is)) = 9 * length is" for "is"
    by (induction "is") (simp_all add: feed_int_def le_bytes_def)
  have "length (feed E (VRange lo hi step)) = 19 + 9 * length (take LIST_HASH_PREFIX (range_loop lo hi step))"
    using assms(3,4) by (subst feed_list) (simp_all add: vwf_VRange take_map ints length_le_bytes_128)
  then show "length (feed E (conses (xs @ ?is) VNil)) < length (feed E (conses xs (VRange lo hi step)))"
    using assms(1) by (simp add: feed_conses take_map ints length_le_bytes_128 LIST_HASH_PREFIX_def)
qed

lemma cons_range_hash_witness:
  "\<forall>E. equal E (conses [VInt 9, VNil] (VRange 0 2 1)) (conses ([VInt 9, VNil] @ map VInt (range_loop 0 2 1)) VNil)"
  using cons_range_hash [of "[VInt 9, VNil]" _ 1 0 2] by (simp add: in_range_def)

section \<open>Maps keyed by values\<close>

text \<open>A one-entry map for the witnesses, built by the code's own builder on an empty heap.\<close>

lemma sample_map: "\<exists>h mid. map_from_pair_iter (equal sample_env) (hash_value sample_env) empty_heap [(VInt 1, VNil)] = Some (h, mid) \<and>
    val_map sample_env h mid \<and> slab_room 100 h \<and>
    map_get (equal sample_env) (hash_value sample_env) h mid (VInt 1) = Some (Some VNil) \<and>
    map_get (equal sample_env) (hash_value sample_env) h mid (VInt 2) = Some None"
proof -
  have room: "slab_room (17 * length [(VInt 1, VNil)] + 1) empty_heap" by (simp add: slab_room_def empty_heap_def)
  have "\<forall>e \<in> set [(VInt 1, VNil)]. vwf sample_env (fst e)" by simp
  from val_keys.from_pairs_law [OF room this] obtain h mid where
    m: "map_from_pair_iter (equal sample_env) (hash_value sample_env) empty_heap [(VInt 1, VNil)] = Some (h, mid)"
      "val_map sample_env h mid" "length (local_maps h) \<le> 18"
      "\<And>k. vwf sample_env k \<Longrightarrow> map_get (equal sample_env) (hash_value sample_env) h mid k =
        Some (last_assoc (equal sample_env) [(VInt 1, VNil)] k None)"
    by (auto simp: empty_heap_def)
  then have "slab_room 100 h" by (simp add: slab_room_def)
  with m(1,2) m(4) [of "VInt 1"] m(4) [of "VInt 2"] show ?thesis by (auto simp: last_assoc_def)
qed

text \<open>
  C2: storing. \<open>map_assoc\<close> of a well-formed key into a map returns a map that binds every key equal to it
  to the value and every other key as before; the map it was given, and every other map of the heap,
  read as before, and at most seventeen nodes are allocated.
\<close>

theorem val_map_assoc:
  assumes "val_map E h mid" "slab_room 17 h" "vwf E k"
  shows "\<exists>h' mid'. map_assoc (equal E) (hash_value E) h mid k v = Some (h', mid') \<and> val_map E h' mid' \<and> keeps_val_maps E h h' \<and>
    length (local_maps h') \<le> length (local_maps h) + 17 \<and>
    (\<forall>k'. vwf E k' \<longrightarrow> map_get (equal E) (hash_value E) h' mid' k' =
       (if equal E k k' then Some (Some v) else map_get (equal E) (hash_value E) h mid k'))"
  by (rule val_keys.assoc_law [OF assms])

lemma val_map_assoc_witness:
  "\<exists>h mid h' mid'. val_map sample_env h mid \<and>
    map_assoc (equal sample_env) (hash_value sample_env) h mid (VInt 2) (VInt 5) = Some (h', mid') \<and>
    map_get (equal sample_env) (hash_value sample_env) h' mid' (VInt 2) = Some (Some (VInt 5)) \<and>
    map_get (equal sample_env) (hash_value sample_env) h' mid' (VInt 1) = Some (Some VNil) \<and>
    map_get (equal sample_env) (hash_value sample_env) h mid (VInt 2) = Some None"
proof -
  from sample_map obtain h mid where m: "val_map sample_env h mid" "slab_room 100 h"
    "map_get (equal sample_env) (hash_value sample_env) h mid (VInt 1) = Some (Some VNil)"
    "map_get (equal sample_env) (hash_value sample_env) h mid (VInt 2) = Some None" by blast
  have "slab_room 17 h" using m(2) by (simp add: slab_room_def)
  from val_map_assoc [OF m(1) this, of "VInt 2" "VInt 5"] m show ?thesis by fastforce
qed

text \<open>
  C3: removing. \<open>map_dissoc\<close> returns a map without the key and with every other key as before, and
  keeps every map the heap held.
\<close>

theorem val_map_dissoc:
  assumes "val_map E h mid" "slab_room 17 h" "vwf E k"
  shows "\<exists>h' mid'. map_dissoc (equal E) (hash_value E) h mid k = Some (h', mid') \<and> val_map E h' mid' \<and> keeps_val_maps E h h' \<and>
    length (local_maps h') \<le> length (local_maps h) + 17 \<and>
    (\<forall>k'. vwf E k' \<longrightarrow> map_get (equal E) (hash_value E) h' mid' k' =
       (if equal E k k' then Some None else map_get (equal E) (hash_value E) h mid k'))"
  by (rule val_keys.dissoc_law [OF assms])

lemma val_map_dissoc_witness:
  "\<exists>h mid h' mid'. val_map sample_env h mid \<and>
    map_get (equal sample_env) (hash_value sample_env) h mid (VInt 1) = Some (Some VNil) \<and>
    map_dissoc (equal sample_env) (hash_value sample_env) h mid (VInt 1) = Some (h', mid') \<and>
    map_get (equal sample_env) (hash_value sample_env) h' mid' (VInt 1) = Some None"
proof -
  from sample_map obtain h mid where m: "val_map sample_env h mid" "slab_room 100 h"
    "map_get (equal sample_env) (hash_value sample_env) h mid (VInt 1) = Some (Some VNil)" by blast
  have "slab_room 17 h" using m(2) by (simp add: slab_room_def)
  from val_map_dissoc [OF m(1) this, of "VInt 1"] m show ?thesis by fastforce
qed

text \<open>
  reading a map whole. The entries of a map have pairwise unequal keys, a lookup is a search of
  them, the size is their number (in 32 bits) and the first entry is the first of them.
\<close>

theorem val_map_entries:
  assumes "val_map E h mid"
  shows "\<exists>es. map_entries h mid = Some es \<and> cdistinct (equal E) es \<and> (\<forall>e \<in> set es. vwf E (fst e)) \<and>
    (\<forall>k. vwf E k \<longrightarrow> map_get (equal E) (hash_value E) h mid k = Some (cfind (equal E) es k)) \<and>
    map_size h mid = Some (length es mod 2 ^ 32) \<and> map_first_entry (MAX_DEPTH + 1) h mid = Some (first_of es)"
  by (rule val_keys.entries_law [OF assms])

lemma val_map_entries_witness:
  "\<exists>h mid es. val_map sample_env h mid \<and> map_entries h mid = Some es \<and> cdistinct (equal sample_env) es \<and>
    cfind (equal sample_env) es (VInt 1) = Some VNil"
proof -
  from sample_map obtain h mid where m: "val_map sample_env h mid"
    "map_get (equal sample_env) (hash_value sample_env) h mid (VInt 1) = Some (Some VNil)" by blast
  from val_map_entries [OF m(1)] m show ?thesis by fastforce
qed

text \<open>
  building in place. The builder of a map from pairs, which mutates the nodes it has itself allocated,
  returns a map in which the last of equal keys wins, and leaves every map the heap held as it was.
\<close>

theorem val_map_from_pairs:
  assumes "slab_room (17 * length pairs + 1) h" "\<forall>e \<in> set pairs. vwf E (fst e)"
  shows "\<exists>h' mid'. map_from_pair_iter (equal E) (hash_value E) h pairs = Some (h', mid') \<and> val_map E h' mid' \<and>
    keeps_val_maps E h h' \<and> length (local_maps h') \<le> length (local_maps h) + 17 * length pairs + 1 \<and>
    (\<forall>k. vwf E k \<longrightarrow> map_get (equal E) (hash_value E) h' mid' k = Some (last_assoc (equal E) pairs k None))"
  by (rule val_keys.from_pairs_law [OF assms])

lemma val_map_from_pairs_witness:
  "\<exists>h mid. map_from_pair_iter (equal sample_env) (hash_value sample_env) empty_heap [(VInt 1, VNil), (VInt 1, VInt 7)] = Some (h, mid) \<and>
    map_get (equal sample_env) (hash_value sample_env) h mid (VInt 1) = Some (Some (VInt 7))"
proof -
  have "slab_room (17 * length [(VInt 1, VNil), (VInt 1, VInt 7)] + 1) empty_heap" by (simp add: slab_room_def empty_heap_def)
  from val_map_from_pairs [OF this, of sample_env] obtain h mid where
    "map_from_pair_iter (equal sample_env) (hash_value sample_env) empty_heap [(VInt 1, VNil), (VInt 1, VInt 7)] = Some (h, mid)"
    "\<And>k. vwf sample_env k \<Longrightarrow> map_get (equal sample_env) (hash_value sample_env) h mid k =
       Some (last_assoc (equal sample_env) [(VInt 1, VNil), (VInt 1, VInt 7)] k None)"
    by auto
  from this(1) this(2) [of "VInt 1"] show ?thesis by (auto simp: last_assoc_def)
qed

text \<open>
  adding pairs to a map, by the same builder started on an existing map: the pairs win over the
  old bindings, and the old map, whose nodes the result shares, is unchanged.
\<close>

theorem val_map_pairs_into:
  assumes "val_map E h mid" "slab_room (17 * length pairs) h" "\<forall>e \<in> set pairs. vwf E (fst e)"
  shows "\<exists>h' mid'. map_from_pairs_into (equal E) (hash_value E) h mid pairs = Some (h', mid') \<and> val_map E h' mid' \<and>
    keeps_val_maps E h h' \<and> length (local_maps h') \<le> length (local_maps h) + 17 * length pairs \<and>
    (\<forall>k. vwf E k \<longrightarrow> map_get (equal E) (hash_value E) h' mid' k =
       map_option (last_assoc (equal E) pairs k) (map_get (equal E) (hash_value E) h mid k))"
  by (rule val_keys.pairs_into_law [OF assms])

lemma val_map_pairs_into_witness:
  "\<exists>h mid h' mid'. val_map sample_env h mid \<and>
    map_from_pairs_into (equal sample_env) (hash_value sample_env) h mid [(VInt 2, VInt 7)] = Some (h', mid') \<and>
    map_get (equal sample_env) (hash_value sample_env) h' mid' (VInt 1) = Some (Some VNil)"
proof -
  from sample_map obtain h mid where m: "val_map sample_env h mid" "slab_room 100 h"
    "map_get (equal sample_env) (hash_value sample_env) h mid (VInt 1) = Some (Some VNil)" by blast
  have "slab_room (17 * length [(VInt 2, VInt 7)]) h" using m(2) by (simp add: slab_room_def)
  from val_map_pairs_into [OF m(1) this] obtain h' mid' where
    "map_from_pairs_into (equal sample_env) (hash_value sample_env) h mid [(VInt 2, VInt 7)] = Some (h', mid')"
    "\<And>k. vwf sample_env k \<Longrightarrow> map_get (equal sample_env) (hash_value sample_env) h' mid' k =
       map_option (last_assoc (equal sample_env) [(VInt 2, VInt 7)] k) (map_get (equal sample_env) (hash_value sample_env) h mid k)"
    by auto
  from this(1) this(2) [of "VInt 1"] m show ?thesis by (auto simp: last_assoc_def)
qed

text \<open>
  C4: the trie is canonical. Comparing two maps node by node, as the code does, decides whether they bind
  the same keys to equal values, on maps of well-formed values whose keys equal themselves.
\<close>

theorem val_map_equal:
  assumes "val_map E h x" "val_map E h y"
    and "\<And>mid es e. mid \<in> {x, y} \<Longrightarrow> map_entries h mid = Some es \<Longrightarrow> e \<in> set es \<Longrightarrow> vwf E (snd e) \<and> equal E (fst e) (fst e)"
  shows "\<exists>b. map_equal (equal E) (MAX_DEPTH + 1) h x y = Some b \<and>
    (b \<longleftrightarrow> (\<forall>k. vwf E k \<longrightarrow> rel_option (rel_option (equal E)) (map_get (equal E) (hash_value E) h x k) (map_get (equal E) (hash_value E) h y k)))"
  by (rule val_keys.equal_law [OF assms])

lemma empty_map_sample: "\<exists>h mid. alloc_empty_map empty_heap = Some (h, mid) \<and> val_map E h mid \<and> map_entries h mid = Some []"
proof -
  have "length (local_maps empty_heap) < 2 ^ 32" by (simp add: empty_heap_def)
  from alloc_map_node_repr [OF this, of None default_node t_empty "{}"] repr_empty_node obtain h mid where
    a: "alloc_empty_map empty_heap = Some (h, mid)" "reprF None h mid t_empty {}"
    by (auto simp: alloc_empty_map_def default_node_def t_empty_def)
  have wf: "twf (equal E) (hash_value E) 0 t_empty" by (rule twf_t_empty)
  have empty: "entries t_empty = ([] :: (val \<times> val) list)" by (simp add: t_empty_def entries.simps(2))
  have "repr h mid t_empty" using a(2) by (simp add: repr_def)
  with wf have "val_map E h mid" "map_entries h mid = Some (entries t_empty)"
    using map_entries_repr [of h mid t_empty "equal E" "hash_value E"] by (auto simp: key_map_def keys_in_def empty)
  with a(1) empty show ?thesis by auto
qed

lemma val_map_equal_witness:
  "\<exists>h mid. val_map sample_env h mid \<and> map_equal (equal sample_env) (MAX_DEPTH + 1) h mid mid = Some True"
proof -
  obtain h mid where m: "val_map sample_env h mid" "map_entries h mid = Some []" using empty_map_sample by blast
  from val_map_equal [OF m(1) m(1)] m(2) obtain b where b: "map_equal (equal sample_env) (MAX_DEPTH + 1) h mid mid = Some b"
    "b \<longleftrightarrow> (\<forall>k. vwf sample_env k \<longrightarrow> rel_option (rel_option (equal sample_env))
      (map_get (equal sample_env) (hash_value sample_env) h mid k) (map_get (equal sample_env) (hash_value sample_env) h mid k))"
    by auto
  have "map_get (equal sample_env) (hash_value sample_env) h mid k = Some None" if "vwf sample_env k" for k
    using val_keys.entries_law [OF m(1)] m(2) that by (auto simp: cfind_def)
  with b m(1) show ?thesis by auto
qed

end
