(* ===== verification/Number_Order.thy ===== *)
theory Number_Order
  imports Complex_Main "HOL-Library.Log_Nat" Values
begin

text \<open>
  How \<open>value_cmp\<close> orders numbers (\<open>core/heap/equality.rs\<close>): integers, big integers, floats, decimals and
  ratios against one another, exactly. The number libraries are exact, so a big integer is an integer,
  a ratio and a decimal the rational numbers they denote, and a comparison of two of them the order of
  the rationals. A ratio against a decimal is the code's own work: it decides by sign, then by bounds
  on the decimal logarithms, and only then converts the decimal.
\<close>

datatype ordering = Less | Equal | Greater

definition cmp :: "'a::linorder \<Rightarrow> 'a \<Rightarrow> ordering" where
  "cmp a b = (if a < b then Less else if a = b then Equal else Greater)"

fun reverse :: "ordering \<Rightarrow> ordering" where
  "reverse Less = Greater"
| "reverse Equal = Equal"
| "reverse Greater = Less"

definition dec_val :: "dec \<Rightarrow> rat" where
  "dec_val d = of_int (fst d) * power_int 10 (- snd d)"

definition ratio_val :: "int \<Rightarrow> int \<Rightarrow> rat" where
  "ratio_val n d = of_int n / of_int d"

section \<open>Floats\<close>

definition is_infinite :: "u64 \<Rightarrow> bool" where
  "is_infinite f \<longleftrightarrow> f AND 0x7FFFFFFFFFFFFFFF = 0x7FF0000000000000"

definition is_negative :: "u64 \<Rightarrow> bool" where
  "is_negative f \<longleftrightarrow> bit f 63"

text \<open>The value of a finite double.\<close>

definition float_val :: "u64 \<Rightarrow> rat" where
  "float_val f =
     (let e = unat (drop_bit 52 f AND 0x7FF);
          m = uint (f AND 0xFFFFFFFFFFFFF);
          v = (if e = 0 then of_int m * power_int 2 (- 1074)
               else of_int (2 ^ 52 + m) * power_int 2 (int e - 1075))
      in if is_negative f then - v else v)"

text \<open>The IEEE order of floats that are not NaN, as \<open>partial_cmp\<close> answers it.\<close>

definition float_cmp :: "u64 \<Rightarrow> u64 \<Rightarrow> ordering" where
  "float_cmp x y =
     (if is_infinite x \<and> is_infinite y then cmp (\<not> is_negative x) (\<not> is_negative y)
      else if is_infinite x then (if is_negative x then Less else Greater)
      else if is_infinite y then (if is_negative y then Greater else Less)
      else cmp (float_val x) (float_val y))"

definition float_total_cmp :: "u64 \<Rightarrow> u64 \<Rightarrow> ordering" where
  "float_total_cmp x y =
     (case (is_nan x, is_nan y) of
        (True, True) \<Rightarrow> Equal
      | (True, False) \<Rightarrow> Greater
      | (False, True) \<Rightarrow> Less
      | (False, False) \<Rightarrow> float_cmp x y)"

text \<open>Exact values against a float.\<close>

definition bigdecimal_cmp_float :: "rat \<Rightarrow> u64 \<Rightarrow> ordering" where
  "bigdecimal_cmp_float b f =
     (if is_nan f then Less
      else if is_infinite f then (if is_negative f then Greater else Less)
      else cmp b (float_val f))"

definition bigint_cmp_float :: "int \<Rightarrow> u64 \<Rightarrow> ordering" where
  "bigint_cmp_float b f = bigdecimal_cmp_float (of_int b) f"

definition ratio_cmp_float :: "rat \<Rightarrow> u64 \<Rightarrow> ordering" where
  "ratio_cmp_float r f =
     (if is_nan f then Equal
      else if is_infinite f then (if is_negative f then Greater else Less)
      else cmp r (float_val f))"

section \<open>A ratio against a decimal\<close>

text \<open>The bit length of the magnitude of a big integer.\<close>

definition bits :: "int \<Rightarrow> nat" where
  "bits x = floorlog 2 (nat \<bar>x\<bar>)"

definition log10_bounds :: "int \<Rightarrow> int \<times> int" where
  "log10_bounds x =
     (let b = int (bits x)
      in (((b - 1) * 30102) sdiv 100000, (b * 30104) sdiv 100000 + 1))"

definition bigdecimal_to_ratio :: "dec \<Rightarrow> rat option" where
  "bigdecimal_to_ratio d =
     (let mantissa = fst d; scale = snd d;
          mag = (if scale = - (2 ^ 63) then 2 ^ 63 - 1 else \<bar>scale\<bar>)
      in if mag < 2 ^ 32 then
           (let pow = 10 ^ nat mag :: int
            in Some (if scale \<ge> 0 then of_int mantissa / of_int pow else of_int (mantissa * pow)))
         else None)"

definition sign :: "int \<Rightarrow> int" where
  "sign x = (if x = 0 then 0 else if x < 0 then - 1 else 1)"

definition ratio_cmp_bigdecimal :: "int \<Rightarrow> int \<Rightarrow> dec \<Rightarrow> ordering" where
  "ratio_cmp_bigdecimal n den d =
     (let m = fst d; scale = snd d; sr = sign n; sd = sign m in
      if sr \<noteq> sd then cmp sr sd
      else if sr = 0 then Equal
      else
        (let (nlo, nhi) = log10_bounds n;
             (dlo, dhi) = log10_bounds den;
             (mlo, mhi) = log10_bounds m;
             rlo = nlo - dhi; rhi = nhi - dlo;
             dec_lo = mlo - scale; dec_hi = mhi - scale;
             mag = (if rlo > dec_hi then Greater
                    else if dec_lo > rhi then Less
                    else (case bigdecimal_to_ratio d of
                       Some x \<Rightarrow> cmp \<bar>ratio_val n den\<bar> \<bar>x\<bar>
                     | None \<Rightarrow> cmp rhi dec_hi))
         in if sr < 0 then reverse mag else mag))"

section \<open>The bounds on the logarithm\<close>

lemma bits_bounds:
  assumes "x \<noteq> 0"
  shows "2 ^ (bits x - 1) \<le> \<bar>x\<bar>" "\<bar>x\<bar> < 2 ^ bits x" "1 \<le> bits x"
proof -
  have pos: "0 < nat \<bar>x\<bar>" using assms by simp
  have "2 ^ (bits x - 1) \<le> nat \<bar>x\<bar>" "nat \<bar>x\<bar> < 2 ^ bits x"
    using floorlog_bounds [of "nat \<bar>x\<bar>" 2] pos by (simp_all add: bits_def)
  then show "2 ^ (bits x - 1) \<le> \<bar>x\<bar>" "\<bar>x\<bar> < 2 ^ bits x"
    by (simp_all add: le_nat_iff nat_less_iff)
  then show "1 \<le> bits x" using assms by (cases "bits x") auto
qed

lemma sdiv_nonneg: "0 \<le> a \<Longrightarrow> 0 < b \<Longrightarrow> a sdiv b = (a :: int) div b"
  by (cases "a = 0") (simp_all add: signed_divide_int_def)

lemma scale_down: "100000 * l \<le> c * 30102 \<Longrightarrow> 0 \<le> c \<Longrightarrow> 196 * l \<le> 59 * (c :: int)"
  by linarith

lemma ten_le_two: "59 * b \<ge> 196 * l \<Longrightarrow> (10 :: int) ^ l \<le> 2 ^ b"
proof -
  assume le: "196 * l \<le> 59 * b"
  have "((10 :: int) ^ l) ^ 59 = (10 ^ 59) ^ l" by (simp only: power_mult [symmetric] mult.commute)
  also have "\<dots> \<le> (2 ^ 196) ^ l" by (rule power_mono) simp_all
  also have "\<dots> = 2 ^ (196 * l)" by (simp only: power_mult)
  also have "\<dots> \<le> 2 ^ (59 * b)" using le by (intro power_increasing) simp_all
  also have "\<dots> = (2 ^ b) ^ 59" by (simp only: power_mult [symmetric] mult.commute)
  finally show ?thesis by (rule power_le_imp_le_base [where n = 58, unfolded Suc_numeral, simplified]) simp_all
qed

lemma two_le_ten: "146 * b \<le> 485 * h \<Longrightarrow> (2 :: int) ^ b \<le> 10 ^ h"
proof -
  assume le: "146 * b \<le> 485 * h"
  have "((2 :: int) ^ b) ^ 146 = 2 ^ (146 * b)" by (simp only: power_mult [symmetric] mult.commute)
  also have "\<dots> \<le> 2 ^ (485 * h)" using le by (intro power_increasing) simp_all
  also have "\<dots> = (2 ^ 485) ^ h" by (simp only: power_mult)
  also have "\<dots> \<le> (10 ^ 146) ^ h" by (rule power_mono) simp_all
  also have "\<dots> = (10 ^ h) ^ 146" by (simp only: power_mult [symmetric] mult.commute)
  finally show ?thesis by (rule power_le_imp_le_base [where n = 145, unfolded Suc_numeral, simplified]) simp_all
qed

lemma log10_bounds_int:
  assumes "x \<noteq> 0" "log10_bounds x = (lo, hi)"
  shows "0 \<le> lo \<and> 0 \<le> hi \<and> 10 ^ nat lo \<le> \<bar>x\<bar> \<and> \<bar>x\<bar> < 10 ^ nat hi"
proof -
  note b = bits_bounds [OF assms(1)]
  let ?b = "int (bits x)"
  have lo: "lo = ((?b - 1) * 30102) div 100000" and hi: "hi = (?b * 30104) div 100000 + 1"
    using assms(2) b(3) by (auto simp: log10_bounds_def Let_def sdiv_nonneg)
  have nn: "0 \<le> lo" "0 \<le> hi" using b(3) by (auto simp: lo hi)
  have "100000 * lo \<le> (?b - 1) * 30102" by (simp add: lo)
  then have "196 * lo \<le> 59 * (?b - 1)" using scale_down [of lo "?b - 1"] b(3) by simp
  then have "int (196 * nat lo) \<le> int (59 * (bits x - 1))" using nn b(3) by (simp add: of_nat_diff)
  then have "196 * nat lo \<le> 59 * (bits x - 1)" by (simp only: of_nat_le_iff)
  then have "(10 :: int) ^ nat lo \<le> 2 ^ (bits x - 1)" by (rule ten_le_two)
  moreover have "?b * 30104 < 100000 * hi" by (simp add: hi)
  then have "146 * bits x \<le> 485 * nat hi" using nn by linarith
  then have "(2 :: int) ^ bits x \<le> 10 ^ nat hi" by (rule two_le_ten)
  ultimately show ?thesis using b(1,2) nn by linarith
qed

text \<open>
  the bounds are true bounds of the decimal logarithm: \<open>10 ^ lo\<close> is at most the magnitude of a nonzero
  integer and \<open>10 ^ hi\<close> exceeds it.
\<close>

theorem log10_bounds_true:
  assumes "x \<noteq> 0" "log10_bounds x = (lo, hi)"
  shows "0 \<le> lo \<and> 0 \<le> hi \<and> 10 ^ nat lo \<le> \<bar>x\<bar> \<and> \<bar>x\<bar> < 10 ^ nat hi"
  by (rule log10_bounds_int [OF assms])

lemma log10_bounds_true_witness: "(10 :: int) ^ 2 \<le> \<bar>- 512\<bar> \<and> log10_bounds (- 512) = (2, 4)"
proof -
  have e: "log10_bounds (- 512) = (2, 4)"
    by (simp add: log10_bounds_def bits_def compute_floorlog Let_def signed_divide_int_def)
  from log10_bounds_true [OF _ e] e show ?thesis by simp
qed

section \<open>The comparison is exact\<close>

lemma power_int_nat: "0 \<le> k \<Longrightarrow> power_int (10 :: rat) k = of_int (10 ^ nat k)"
  by (simp add: power_int_def)

lemma power_int_ten_pos: "0 < power_int (10 :: rat) k"
  by (rule zero_less_power_int) simp

lemma log10_bounds_rat:
  assumes "x \<noteq> 0" "log10_bounds x = (lo, hi)"
  shows "power_int (10 :: rat) lo \<le> of_int \<bar>x\<bar>" "of_int \<bar>x\<bar> < power_int (10 :: rat) hi"
proof -
  note b = log10_bounds_int [OF assms]
  then have "(of_int (10 ^ nat lo) :: rat) \<le> of_int \<bar>x\<bar>" "(of_int \<bar>x\<bar> :: rat) < of_int (10 ^ nat hi)"
    by (simp_all only: of_int_le_iff of_int_less_iff)
  with b show "power_int (10 :: rat) lo \<le> of_int \<bar>x\<bar>" "of_int \<bar>x\<bar> < power_int (10 :: rat) hi"
    by (simp_all only: power_int_nat)
qed

lemma ratio_magnitude:
  assumes "n \<noteq> 0" "0 < den" "log10_bounds n = (nlo, nhi)" "log10_bounds den = (dlo, dhi)"
  shows "power_int 10 (nlo - dhi) < \<bar>ratio_val n den\<bar>" "\<bar>ratio_val n den\<bar> < power_int 10 (nhi - dlo)"
proof -
  note n = log10_bounds_rat [OF assms(1,3)]
  have d: "power_int (10 :: rat) dlo \<le> of_int den" "of_int den < power_int (10 :: rat) dhi"
    using log10_bounds_rat [OF _ assms(4)] assms(2) by simp_all
  have r: "\<bar>ratio_val n den\<bar> = of_int \<bar>n\<bar> / of_int den" using assms(2) by (simp add: ratio_val_def)
  have pos: "0 < power_int (10 :: rat) k" for k by simp
  have den: "(0 :: rat) < of_int den" using assms(2) by simp
  have "power_int (10 :: rat) nlo / power_int 10 dhi < of_int \<bar>n\<bar> / of_int den"
    by (rule frac_less2) (use n d den pos in auto)
  then show "power_int 10 (nlo - dhi) < \<bar>ratio_val n den\<bar>" by (simp add: r power_int_diff)
  have "of_int \<bar>n\<bar> / of_int den < power_int (10 :: rat) nhi / power_int 10 dlo"
    by (rule frac_less) (use n d den pos in auto)
  then show "\<bar>ratio_val n den\<bar> < power_int 10 (nhi - dlo)" by (simp add: r power_int_diff)
qed

lemma dec_magnitude:
  assumes "fst d \<noteq> 0" "log10_bounds (fst d) = (mlo, mhi)"
  shows "power_int 10 (mlo - snd d) \<le> \<bar>dec_val d\<bar>" "\<bar>dec_val d\<bar> < power_int 10 (mhi - snd d)"
proof -
  note m = log10_bounds_rat [OF assms]
  have v: "\<bar>dec_val d\<bar> = of_int \<bar>fst d\<bar> / power_int 10 (snd d)"
    by (simp add: dec_val_def abs_mult power_int_minus_divide)
  have pos: "0 < power_int (10 :: rat) (snd d)" by simp
  show "power_int 10 (mlo - snd d) \<le> \<bar>dec_val d\<bar>" "\<bar>dec_val d\<bar> < power_int 10 (mhi - snd d)"
    using m pos by (simp_all add: v power_int_diff divide_right_mono divide_strict_right_mono)
qed

lemma bigdecimal_to_ratio_None: "bigdecimal_to_ratio d = None \<longleftrightarrow> 2 ^ 32 \<le> \<bar>snd d\<bar>"
  by (auto simp: bigdecimal_to_ratio_def Let_def)

lemma bigdecimal_to_ratio_exact: "bigdecimal_to_ratio d = Some x \<Longrightarrow> x = dec_val d"
proof -
  assume "bigdecimal_to_ratio d = Some x"
  with bigdecimal_to_ratio_None [of d] have assms: "\<bar>snd d\<bar> < 2 ^ 32" by (simp add: linorder_not_le [symmetric])
  have mag: "(if snd d = - (2 ^ 63) then 2 ^ 63 - 1 else \<bar>snd d\<bar>) = \<bar>snd d\<bar>" using assms by auto
  have "bigdecimal_to_ratio d = Some (dec_val d)"
  proof (cases "0 \<le> snd d")
    case True
    then have "dec_val d = of_int (fst d) / of_int (10 ^ nat \<bar>snd d\<bar>)"
      by (simp add: dec_val_def power_int_minus_divide power_int_nat)
    with True assms show ?thesis by (simp add: bigdecimal_to_ratio_def Let_def mag)
  next
    case False
    then have "dec_val d = of_int (fst d * 10 ^ nat \<bar>snd d\<bar>)" by (simp add: dec_val_def power_int_nat)
    with False assms show ?thesis by (simp add: bigdecimal_to_ratio_def Let_def mag)
  qed
  with \<open>bigdecimal_to_ratio d = Some x\<close> show ?thesis by simp
qed

text \<open>
  Where the comparison of a ratio with a decimal is decided: the scale is one \<open>bigdecimal_to_ratio\<close>
  accepts, or none of the three integers has more than \<open>2 ^ 32\<close> bits, so that the magnitudes are apart.
\<close>

definition scale_ok :: "int \<Rightarrow> int \<Rightarrow> dec \<Rightarrow> bool" where
  "scale_ok n den d \<longleftrightarrow> \<bar>snd d\<bar> < 2 ^ 32 \<or> (bits n \<le> 2 ^ 32 \<and> bits den \<le> 2 ^ 32 \<and> bits (fst d) \<le> 2 ^ 32)"

lemma log10_bounds_small:
  assumes "x \<noteq> 0" "log10_bounds x = (lo, hi)" "bits x \<le> 2 ^ 32"
  shows "0 \<le> lo" "0 \<le> hi" "lo < 2 ^ 31" "hi < 2 ^ 31"
proof -
  note b = bits_bounds(3) [OF assms(1)]
  have nn: "0 \<le> lo" "0 \<le> hi" using log10_bounds_int [OF assms(1,2)] by simp_all
  have "int (bits x) \<le> int (2 ^ 32)" using assms(3) by (simp only: of_nat_le_iff)
  then have m: "int (bits x) \<le> 4294967296" by simp
  have "lo = ((int (bits x) - 1) * 30102) div 100000" "hi = (int (bits x) * 30104) div 100000 + 1"
    using assms(2) b by (auto simp: log10_bounds_def Let_def sdiv_nonneg)
  then have d: "100000 * lo \<le> int (bits x) * 30102 - 30102" "100000 * hi - 100000 \<le> int (bits x) * 30104"
    by simp_all
  have "lo < 2147483648" using m d(1) by linarith
  moreover have "hi < 2147483648" using m d(2) by linarith
  ultimately show "0 \<le> lo" "0 \<le> hi" "lo < 2 ^ 31" "hi < 2 ^ 31" using nn by simp_all
qed

lemma power_int_ten_less: "a < b \<Longrightarrow> power_int (10 :: rat) a < power_int 10 b"
  by (rule power_int_strict_increasing) simp_all

lemma sign_ratio: "0 < den \<Longrightarrow> sign n = (if ratio_val n den = 0 then 0 else if ratio_val n den < 0 then - 1 else 1)"
  by (auto simp: sign_def ratio_val_def divide_less_0_iff)

lemma sign_dec: "sign (fst d) = (if dec_val d = 0 then 0 else if dec_val d < 0 then - 1 else 1)"
proof -
  obtain p :: rat where p: "p = power_int 10 (- snd d)" "0 < p" using power_int_ten_pos by blast
  have "dec_val d = of_int (fst d) * p" by (simp add: dec_val_def p(1))
  then show ?thesis using p(2) by (auto simp: sign_def mult_less_0_iff)
qed

lemma cmp_neg: "x < 0 \<Longrightarrow> y < 0 \<Longrightarrow> reverse (cmp \<bar>x\<bar> \<bar>y\<bar>) = cmp x (y :: rat)"
  by (auto simp: cmp_def)

lemma ratio_cmp_decimal:
  assumes "0 < den" "scale_ok n den d"
  shows "ratio_cmp_bigdecimal n den d = cmp (ratio_val n den) (dec_val d)"
proof (cases "sign n = sign (fst d) \<and> sign n \<noteq> 0")
  case False
  then show ?thesis
    using sign_ratio [OF assms(1), of n] sign_dec [of d]
    by (auto simp: ratio_cmp_bigdecimal_def cmp_def Let_def split: if_splits)
next
  case True
  then have nz: "n \<noteq> 0" "fst d \<noteq> 0" by (auto simp: sign_def split: if_splits)
  obtain nlo nhi dlo dhi mlo mhi where l: "log10_bounds n = (nlo, nhi)" "log10_bounds den = (dlo, dhi)"
    "log10_bounds (fst d) = (mlo, mhi)" by (metis prod.exhaust)
  note r = ratio_magnitude [OF nz(1) assms(1) l(1,2)] and v = dec_magnitude [OF nz(2) l(3)]
  let ?mag = "if nlo - dhi > mhi - snd d then Greater else if mlo - snd d > nhi - dlo then Less
    else (case bigdecimal_to_ratio d of Some x \<Rightarrow> cmp \<bar>ratio_val n den\<bar> \<bar>x\<bar> | None \<Rightarrow> cmp (nhi - dlo) (mhi - snd d))"
  have mag: "?mag = cmp \<bar>ratio_val n den\<bar> \<bar>dec_val d\<bar>"
  proof -
    have "\<bar>dec_val d\<bar> < \<bar>ratio_val n den\<bar>" if "nlo - dhi > mhi - snd d"
      using r(1) v(2) power_int_ten_less [of "mhi - snd d" "nlo - dhi"] that by linarith
    moreover have "\<bar>ratio_val n den\<bar> < \<bar>dec_val d\<bar>" if "mlo - snd d > nhi - dlo"
      using r(2) v(1) power_int_ten_less [of "nhi - dlo" "mlo - snd d"] that by linarith
    moreover have "nlo - dhi > mhi - snd d \<or> mlo - snd d > nhi - dlo" if "bigdecimal_to_ratio d = None"
      using that assms log10_bounds_small [OF nz(1) l(1)] log10_bounds_small [OF _ l(2)] log10_bounds_small [OF nz(2) l(3)]
      by (auto simp: bigdecimal_to_ratio_None scale_ok_def abs_if split: if_splits)
    ultimately show ?thesis
      by (cases "bigdecimal_to_ratio d") (auto simp: cmp_def dest: bigdecimal_to_ratio_exact)
  qed
  have res: "ratio_cmp_bigdecimal n den d = (if sign n < 0 then reverse ?mag else ?mag)"
    using True l by (simp add: ratio_cmp_bigdecimal_def Let_def)
  have sgn: "sign n < 0 \<longleftrightarrow> ratio_val n den < 0 \<and> dec_val d < 0" "\<not> sign n < 0 \<longleftrightarrow> 0 < ratio_val n den \<and> 0 < dec_val d"
    using True sign_ratio [OF assms(1), of n] sign_dec [of d] by (auto split: if_splits)
  show ?thesis
  proof (cases "sign n < 0")
    case True
    then have neg: "ratio_val n den < 0" "dec_val d < 0" using sgn(1) by blast+
    show ?thesis unfolding res mag using True cmp_neg [OF neg] by (simp only: if_True)
  next
    case False
    then have pos: "0 < ratio_val n den" "0 < dec_val d" using sgn(2) by blast+
    show ?thesis unfolding res mag using False abs_of_pos [OF pos(1)] abs_of_pos [OF pos(2)] by (simp only: if_False)
  qed
qed

text \<open>
  a ratio against a decimal. The screened comparison answers the order of the two exact values, for
  every ratio with a positive denominator and every decimal, unless the decimal's scale needs more than
  32 bits and one of the integers has more than \<open>2 ^ 32\<close> of them.
\<close>

theorem ratio_cmp_bigdecimal_exact:
  assumes "0 < den" "scale_ok n den d"
  shows "ratio_cmp_bigdecimal n den d = cmp (ratio_val n den) (dec_val d)"
  by (rule ratio_cmp_decimal [OF assms])

lemma ratio_cmp_bigdecimal_exact_witness: "ratio_cmp_bigdecimal 1 2 (1, 40) = Greater"
proof -
  have "dec_val (1, 40) < ratio_val 1 2" by (simp add: dec_val_def ratio_val_def power_int_minus)
  then show ?thesis using ratio_cmp_bigdecimal_exact [of 2 1 "(1, 40)"] by (simp add: cmp_def scale_ok_def)
qed

section \<open>All number kinds\<close>

text \<open>The arms of \<open>value_cmp\<close> for two numbers; \<open>None\<close> when the values are not both numbers.\<close>

definition number_cmp :: "val \<Rightarrow> val \<Rightarrow> ordering option" where
  "number_cmp a b = (case a of
     VInt x \<Rightarrow> (case b of
        VInt y \<Rightarrow> Some (cmp (sint x) (sint y))
      | VBigInt y \<Rightarrow> Some (cmp (sint x) y)
      | VFloat y \<Rightarrow> Some (bigdecimal_cmp_float (of_int (sint x)) y)
      | VDecimal y \<Rightarrow> Some (cmp (of_int (sint x)) (dec_val y))
      | VRatio n d \<Rightarrow> Some (cmp (of_int (sint x)) (ratio_val n d))
      | _ \<Rightarrow> None)
   | VBigInt x \<Rightarrow> (case b of
        VInt y \<Rightarrow> Some (cmp x (sint y))
      | VBigInt y \<Rightarrow> Some (cmp x y)
      | VFloat y \<Rightarrow> Some (bigint_cmp_float x y)
      | VDecimal y \<Rightarrow> Some (cmp (of_int x) (dec_val y))
      | VRatio n d \<Rightarrow> Some (cmp (of_int x) (ratio_val n d))
      | _ \<Rightarrow> None)
   | VFloat x \<Rightarrow> (case b of
        VInt y \<Rightarrow> Some (reverse (bigdecimal_cmp_float (of_int (sint y)) x))
      | VBigInt y \<Rightarrow> Some (reverse (bigint_cmp_float y x))
      | VFloat y \<Rightarrow> Some (float_total_cmp x y)
      | VDecimal y \<Rightarrow> Some (reverse (bigdecimal_cmp_float (dec_val y) x))
      | VRatio n d \<Rightarrow> Some (reverse (ratio_cmp_float (ratio_val n d) x))
      | _ \<Rightarrow> None)
   | VDecimal x \<Rightarrow> (case b of
        VInt y \<Rightarrow> Some (cmp (dec_val x) (of_int (sint y)))
      | VBigInt y \<Rightarrow> Some (cmp (dec_val x) (of_int y))
      | VFloat y \<Rightarrow> Some (bigdecimal_cmp_float (dec_val x) y)
      | VDecimal y \<Rightarrow> Some (cmp (dec_val x) (dec_val y))
      | VRatio n d \<Rightarrow> Some (reverse (ratio_cmp_bigdecimal n d x))
      | _ \<Rightarrow> None)
   | VRatio n d \<Rightarrow> (case b of
        VInt y \<Rightarrow> Some (cmp (ratio_val n d) (of_int (sint y)))
      | VBigInt y \<Rightarrow> Some (cmp (ratio_val n d) (of_int y))
      | VFloat y \<Rightarrow> Some (ratio_cmp_float (ratio_val n d) y)
      | VDecimal y \<Rightarrow> Some (ratio_cmp_bigdecimal n d y)
      | VRatio n' d' \<Rightarrow> Some (cmp (ratio_val n d) (ratio_val n' d'))
      | _ \<Rightarrow> None)
   | _ \<Rightarrow> None)"

text \<open>The number line the comparison should follow: the rationals between the infinities, NaN last.\<close>

datatype xval = NegInf | Fin rat | PosInf | NaN

fun xrank :: "xval \<Rightarrow> nat" where
  "xrank NegInf = 0"
| "xrank (Fin q) = 1"
| "xrank PosInf = 2"
| "xrank NaN = 3"

fun xcmp :: "xval \<Rightarrow> xval \<Rightarrow> ordering" where
  "xcmp (Fin p) (Fin q) = cmp p q"
| "xcmp x y = cmp (xrank x) (xrank y)"

definition float_x :: "u64 \<Rightarrow> xval" where
  "float_x f = (if is_nan f then NaN else if is_infinite f then (if is_negative f then NegInf else PosInf) else Fin (float_val f))"

fun xnum :: "val \<Rightarrow> xval option" where
  "xnum (VInt i) = Some (Fin (of_int (sint i)))"
| "xnum (VBigInt z) = Some (Fin (of_int z))"
| "xnum (VFloat f) = Some (float_x f)"
| "xnum (VDecimal d) = Some (Fin (dec_val d))"
| "xnum (VRatio n d) = Some (Fin (ratio_val n d))"
| "xnum _ = None"

text \<open>What the number types guarantee, and the pairs of a ratio and a decimal whose comparison is decided.\<close>

fun num_ok :: "val \<Rightarrow> bool" where
  "num_ok (VRatio n d) = (0 < d)"
| "num_ok _ = True"

fun pair_ok :: "val \<Rightarrow> val \<Rightarrow> bool" where
  "pair_ok (VRatio n den) (VDecimal d) = scale_ok n den d"
| "pair_ok (VDecimal d) (VRatio n den) = scale_ok n den d"
| "pair_ok _ _ = True"

fun is_ratio :: "val \<Rightarrow> bool" where
  "is_ratio (VRatio n d) = True"
| "is_ratio _ = False"

lemma cmp_reverse: "reverse (cmp a b) = cmp b a"
  by (auto simp: cmp_def)

lemma cmp_of_int: "cmp (of_int a :: rat) (of_int b) = cmp a b"
  by (simp add: cmp_def)

lemma float_cmp_x: "\<not> is_nan x \<Longrightarrow> \<not> is_nan y \<Longrightarrow> float_cmp x y = xcmp (float_x x) (float_x y)"
  by (simp add: float_cmp_def float_x_def cmp_def)

lemma float_total_cmp_x: "float_total_cmp x y = xcmp (float_x x) (float_x y)"
proof (cases "is_nan x \<or> is_nan y")
  case True
  then show ?thesis by (auto simp: float_total_cmp_def float_x_def cmp_def)
next
  case False
  then show ?thesis by (simp add: float_total_cmp_def float_cmp_x)
qed

lemma exact_cmp_float_x:
  "bigdecimal_cmp_float q f = xcmp (Fin q) (float_x f)"
  "\<not> is_nan f \<Longrightarrow> ratio_cmp_float q f = xcmp (Fin q) (float_x f)"
  by (simp_all add: bigdecimal_cmp_float_def ratio_cmp_float_def float_x_def cmp_def)

lemma xcmp_reverse: "reverse (xcmp x y) = xcmp y x"
  by (cases x; cases y) (simp_all add: cmp_reverse)

lemma number_cmp_x:
  assumes "xnum a = Some x" "xnum b = Some y" "num_ok a" "num_ok b" "pair_ok a b"
    and "is_ratio a \<Longrightarrow> y \<noteq> NaN" "is_ratio b \<Longrightarrow> x \<noteq> NaN"
  shows "number_cmp a b = Some (xcmp x y)"
proof -
  have nan: "float_x f \<noteq> NaN \<longleftrightarrow> \<not> is_nan f" for f by (simp add: float_x_def)
  show ?thesis
    using assms
    by (cases a; cases b)
      (auto simp: number_cmp_def bigint_cmp_float_def exact_cmp_float_x float_total_cmp_x xcmp_reverse cmp_of_int nan
        ratio_cmp_decimal cmp_reverse simp del: of_int_sint)
qed

text \<open>
  C16: numbers are compared exactly. Two numbers of any kinds, the denominators of ratios positive,
  compare as the values they denote on the number line, with NaN after everything, with two exceptions:
  a ratio that meets a NaN, and a ratio that meets a decimal whose scale is \<open>2 ^ 32\<close> or more in size when
  the numerator, the denominator or the decimal's digits are an integer of more than \<open>2 ^ 32\<close> bits.
\<close>

theorem number_cmp_exact:
  assumes "xnum a = Some x" "xnum b = Some y" "num_ok a" "num_ok b" "pair_ok a b"
    and "is_ratio a \<Longrightarrow> y \<noteq> NaN" "is_ratio b \<Longrightarrow> x \<noteq> NaN"
  shows "number_cmp a b = Some (xcmp x y)"
  by (rule number_cmp_x [OF assms])

lemma number_cmp_exact_witness:
  "number_cmp (VInt 9007199254740993) (VFloat 0x4340000000000000) = Some Greater"
proof -
  have f: "float_x 0x4340000000000000 = Fin 9007199254740992"
    by (simp add: float_x_def is_nan_def is_infinite_def is_negative_def float_val_def Let_def)
  have "sint (9007199254740993 :: i64) = 9007199254740993" by simp
  then show ?thesis
    using number_cmp_exact [of "VInt 9007199254740993" "Fin 9007199254740993" "VFloat 0x4340000000000000" "Fin 9007199254740992"]
    by (simp add: f cmp_def)
qed

text \<open>
  C17: the exception. Every ratio compares equal to every NaN, in both orders, where every other number
  that is not NaN sorts before it. So the order is not transitive: any two ratios are equal to the NaN
  and still compare as their values with each other.
\<close>

theorem ratio_nan_not_transitive:
  assumes "is_nan f"
  shows "number_cmp (VRatio n d) (VFloat f) = Some Equal \<and>
    number_cmp (VFloat f) (VRatio n d) = Some Equal \<and>
    number_cmp (VRatio n d) (VRatio n' d') = Some (cmp (ratio_val n d) (ratio_val n' d')) \<and>
    (xnum a = Some x \<and> x \<noteq> NaN \<and> \<not> is_ratio a \<longrightarrow>
       number_cmp a (VFloat f) = Some Less \<and> number_cmp (VFloat f) a = Some Greater)"
proof -
  have "number_cmp a (VFloat f) = Some Less \<and> number_cmp (VFloat f) a = Some Greater"
    if a: "xnum a = Some x" "x \<noteq> NaN" "\<not> is_ratio a"
  proof -
    have f: "float_x f = NaN" using assms by (simp add: float_x_def)
    have "num_ok a" "pair_ok a (VFloat f)" "pair_ok (VFloat f) a" using a(3) by (cases a; simp)+
    then have "number_cmp a (VFloat f) = Some (xcmp x NaN)" "number_cmp (VFloat f) a = Some (xcmp NaN x)"
      using number_cmp_x [of a x "VFloat f" NaN] number_cmp_x [of "VFloat f" NaN a x] a by (simp_all add: f)
    with a(2) show ?thesis by (cases x) (simp_all add: cmp_def)
  qed
  then show ?thesis using assms by (simp add: number_cmp_def ratio_cmp_float_def)
qed

lemma ratio_nan_not_transitive_witness:
  "number_cmp (VRatio 1 2) (VFloat 0x7FF8000000000000) = Some Equal \<and>
   number_cmp (VFloat 0x7FF8000000000000) (VRatio 7 2) = Some Equal \<and>
   number_cmp (VRatio 1 2) (VRatio 7 2) = Some Less \<and>
   number_cmp (VInt 1) (VFloat 0x7FF8000000000000) = Some Less"
proof -
  have nan: "is_nan 0x7FF8000000000000" by (simp add: is_nan_def)
  have "cmp (ratio_val 1 2) (ratio_val 7 2) = Less" by (simp add: ratio_val_def cmp_def)
  then show ?thesis
    using ratio_nan_not_transitive [OF nan, of 1 2 7 2 "VInt 1" "Fin 1"]
      ratio_nan_not_transitive [OF nan, of 7 2 1 2 "VInt 1" "Fin 1"] by simp
qed

end
