(* ===== verification/Scanner.thy ===== *)
theory Scanner
  imports Brood_Prelude
begin

text \<open>
  The character stream of the reader (\<open>syntax/scanner.rs\<close>) and the rules for where an atom ends
  (\<open>syntax/atom.rs\<close>). A character is its Unicode scalar value; the scanner's state is the input left from
  its position, which every operation returns. Where in the file that is matters to diagnostics only and
  is the subject of another theory.
\<close>

type_synonym rchar = nat
type_synonym rtext = "rchar list"

abbreviation ch :: "char \<Rightarrow> rchar" where "ch c \<equiv> of_char c"

abbreviation lit :: "string \<Rightarrow> rtext" where "lit s \<equiv> map of_char s"

section \<open>Characters\<close>

text \<open>\<open>char::is_whitespace\<close>, \<open>char::is_control\<close>, \<open>char::to_digit\<close> and \<open>char::from_u32\<close> of the standard library.\<close>

definition is_whitespace :: "rchar \<Rightarrow> bool" where
  "is_whitespace c \<longleftrightarrow> 9 \<le> c \<and> c \<le> 13 \<or> 0x2000 \<le> c \<and> c \<le> 0x200A \<or>
     c \<in> {0x20, 0x85, 0xA0, 0x1680, 0x2028, 0x2029, 0x202F, 0x205F, 0x3000}"

definition is_control :: "rchar \<Rightarrow> bool" where
  "is_control c \<longleftrightarrow> c < 32 \<or> 127 \<le> c \<and> c < 160"

definition is_ascii_digit :: "rchar \<Rightarrow> bool" where
  "is_ascii_digit c \<longleftrightarrow> 48 \<le> c \<and> c \<le> 57"

definition is_ascii_alphabetic :: "rchar \<Rightarrow> bool" where
  "is_ascii_alphabetic c \<longleftrightarrow> 65 \<le> c \<and> c \<le> 90 \<or> 97 \<le> c \<and> c \<le> 122"

definition to_digit :: "nat \<Rightarrow> rchar \<Rightarrow> nat option" where
  "to_digit radix c =
     (let d = (if 48 \<le> c \<and> c \<le> 57 then Some (c - 48) else if 97 \<le> c \<and> c \<le> 122 then Some (c - 87)
           else if 65 \<le> c \<and> c \<le> 90 then Some (c - 55) else None)
      in case d of Some n \<Rightarrow> if n < radix then Some n else None | None \<Rightarrow> None)"

definition from_u32 :: "nat \<Rightarrow> rchar option" where
  "from_u32 n = (if n < 0xD800 \<or> 0xE000 \<le> n \<and> n \<le> 0x10FFFF then Some n else None)"

definition is_trivia_ws :: "rchar \<Rightarrow> bool" where
  "is_trivia_ws c \<longleftrightarrow> is_whitespace c \<or> c = ch CHR '','' \<or> c = 0xFEFF"

definition is_delimiter :: "rchar \<Rightarrow> bool" where
  "is_delimiter c \<longleftrightarrow> is_whitespace c \<or> c = 0xFEFF \<or>
     c \<in> {ch CHR ''('', ch CHR '')'', ch CHR ''['', ch CHR '']'', ch CHR ''{'', ch CHR ''}'', ch CHR 0x22, ch CHR '';'',
       ch CHR 0x27, ch CHR 0x60, ch CHR ''~'', ch CHR '',''}"

section \<open>Walking the input\<close>

text \<open>A comment ends at a line break; the carriage return of a CRLF is not one.\<close>

fun skip_line_comment :: "rtext \<Rightarrow> rtext" where
  "skip_line_comment [] = []"
| "skip_line_comment (c # cs) =
     (if c = 10 \<or> c = 13 \<and> (case cs of [] \<Rightarrow> True | d # _ \<Rightarrow> d \<noteq> 10) then cs else skip_line_comment cs)"

lemma skip_line_comment_le: "length (skip_line_comment cs) \<le> length cs"
  by (induction cs) auto

function skip_trivia :: "rtext \<Rightarrow> rtext" where
  "skip_trivia [] = []"
| "skip_trivia (c # cs) =
     (if is_trivia_ws c then skip_trivia cs
      else if c = ch CHR '';'' then skip_trivia (skip_line_comment (c # cs))
      else c # cs)"
  by pat_completeness auto
termination
proof (relation "measure length")
  fix c :: rchar and cs
  assume "c = ch CHR '';''"
  then have "skip_line_comment (c # cs) = skip_line_comment cs" by simp
  then show "(skip_line_comment (c # cs), c # cs) \<in> measure length"
    using skip_line_comment_le [of cs] by simp
qed auto

definition read_atom :: "rtext \<Rightarrow> rtext \<times> rtext" where
  "read_atom cs = (takeWhile (\<lambda>c. \<not> is_delimiter c) cs, dropWhile (\<lambda>c. \<not> is_delimiter c) cs)"

text \<open>What follows the \<open>.\<close> at the cursor.\<close>

definition is_dot_separator :: "rtext \<Rightarrow> bool" where
  "is_dot_separator after \<longleftrightarrow> (case after of [] \<Rightarrow> True | c # _ \<Rightarrow> is_delimiter c)"

definition shebang_len :: "rtext \<Rightarrow> nat" where
  "shebang_len cs =
     (if take 2 cs \<noteq> lit ''#!'' then 0
      else (case position (\<lambda>c. c = 10 \<or> c = 13) cs of
          None \<Rightarrow> length cs
        | Some i \<Rightarrow> if cs ! i = 13 \<and> i + 1 < length cs \<and> cs ! (i + 1) = 10 then i + 2 else i + 1))"

definition skip_shebang :: "rtext \<Rightarrow> rtext" where
  "skip_shebang src = drop (shebang_len src) src"

section \<open>Bar-quoted names and strings\<close>

datatype bar_scan = BarClosed | BarUnterminated

fun scan_bar_body :: "rtext \<Rightarrow> rtext \<Rightarrow> bar_scan \<times> rtext \<times> rtext" where
  "scan_bar_body out [] = (BarUnterminated, out, [])"
| "scan_bar_body out (c # cs) =
     (if c = ch CHR ''|'' then (BarClosed, out, cs)
      else if c = ch CHR 0x5C then
        (case cs of [] \<Rightarrow> (BarUnterminated, out, []) | d # ds \<Rightarrow> scan_bar_body (out @ [d]) ds)
      else scan_bar_body (out @ [c]) cs)"

text \<open>The escapes after \<open>\x\<close> and \<open>\u\<close>: the character, or nothing, and the input left.\<close>

definition try_hex_escape_x :: "rtext \<Rightarrow> rchar option \<times> rtext" where
  "try_hex_escape_x cs = (case cs of
     c1 # c2 # rest \<Rightarrow>
       (case (to_digit 16 c1, to_digit 16 c2) of
          (Some h1, Some h2) \<Rightarrow> (from_u32 (h1 * 16 + h2), rest)
        | _ \<Rightarrow> (None, cs))
   | _ \<Rightarrow> (None, cs))"

fun hex_digits_loop :: "rtext \<Rightarrow> nat \<Rightarrow> nat \<Rightarrow> rtext \<Rightarrow> rchar option \<times> rtext" where
  "hex_digits_loop saved code digits [] = (None, saved)"
| "hex_digits_loop saved code digits (c # cs) =
     (if c = ch CHR ''}'' \<and> 1 \<le> digits \<and> digits \<le> 6 then (from_u32 code, cs)
      else if digits < 6 then
        (case to_digit 16 c of
           Some h \<Rightarrow> hex_digits_loop saved (code * 16 + h) (digits + 1) cs
         | None \<Rightarrow> (None, saved))
      else (None, saved))"

definition try_hex_escape_u_brace :: "rtext \<Rightarrow> rchar option \<times> rtext" where
  "try_hex_escape_u_brace cs = (case cs of
     c # rest \<Rightarrow> if c = ch CHR ''{'' then hex_digits_loop cs 0 0 rest else (None, cs)
   | [] \<Rightarrow> (None, cs))"

definition decode_escape :: "rchar \<Rightarrow> rchar option" where
  "decode_escape c =
     (if c = ch CHR ''n'' then Some 10 else if c = ch CHR ''t'' then Some 9 else if c = ch CHR ''r'' then Some 13
      else if c = ch CHR ''e'' then Some 27 else if c = ch CHR ''0'' then Some 0
      else if c = ch CHR 0x5C then Some 0x5C else if c = ch CHR 0x22 then Some 0x22
      else if is_ascii_alphabetic c then None else Some c)"

text \<open>A malformed escape is known by the character after its backslash.\<close>

datatype string_scan = Closed | Unterminated | BadEscape rchar

lemma hex_rest_le:
  "length (snd (try_hex_escape_x cs)) \<le> length cs" "length (snd (try_hex_escape_u_brace cs)) \<le> length cs"
proof -
  have l: "length cs \<le> length saved \<Longrightarrow> length (snd (hex_digits_loop saved k n cs)) \<le> length saved" for saved k n cs
    by (induction saved k n cs rule: hex_digits_loop.induct) (auto split: option.split)
  show "length (snd (try_hex_escape_x cs)) \<le> length cs"
    by (auto simp: try_hex_escape_x_def split: list.split option.split)
  show "length (snd (try_hex_escape_u_brace cs)) \<le> length cs"
    using l [of "tl cs" cs 0 0] by (auto simp: try_hex_escape_u_brace_def split: list.split)
qed

definition escape :: "rchar \<Rightarrow> rtext \<Rightarrow> rchar option \<times> rtext" where
  "escape escaped rest =
     (if escaped = ch CHR ''x'' then try_hex_escape_x rest
      else if escaped = ch CHR ''u'' then try_hex_escape_u_brace rest
      else (decode_escape escaped, rest))"

lemma escape_le: "(d, rest') = escape c rest \<Longrightarrow> length rest' \<le> length rest"
  using hex_rest_le [of rest] by (auto simp: escape_def split: if_splits) (metis snd_conv)+

function scan_string_body :: "rchar option \<Rightarrow> rtext \<Rightarrow> rtext \<Rightarrow> string_scan \<times> rtext \<times> rtext" where
  "scan_string_body bad out [] = (Unterminated, out, [])"
| "scan_string_body bad out (c # cs) =
     (if c = ch CHR 0x22 then ((case bad of Some at \<Rightarrow> BadEscape at | None \<Rightarrow> Closed), out, cs)
      else if c = ch CHR 0x5C then
        (case cs of
           [] \<Rightarrow> (Unterminated, out, [])
         | escaped # rest \<Rightarrow>
             (case escape escaped rest of
                (Some d, rest) \<Rightarrow> scan_string_body bad (out @ [d]) rest
              | (None, rest) \<Rightarrow> scan_string_body (case bad of Some at \<Rightarrow> Some at | None \<Rightarrow> Some escaped) out rest))
      else scan_string_body bad (out @ [c]) cs)"
  by pat_completeness auto
termination by (relation "measure (\<lambda>(bad, out, cs). length cs)") (auto dest: escape_le)

declare scan_string_body.simps [simp del] skip_trivia.simps [simp del]

end
