(* ===== verification/Atom.thy ===== *)
theory Atom
  imports Scanner
begin

text \<open>
  What an atom token is (\<open>syntax/atom.rs\<close>). The parsers and printers of big integers, decimals, ratios and
  floats are those of libraries and are the arguments of the model; small integers are parsed here.
\<close>

section \<open>Numbers as text\<close>

text \<open>A float is its bits, as in a value; a ratio its reduced numerator and denominator.\<close>

record 'd library =
  parse_f64 :: "rtext \<Rightarrow> 64 word option"
  f64_text :: "64 word \<Rightarrow> rtext"
  parse_bigint :: "rtext \<Rightarrow> int option"
  parse_decimal :: "rtext \<Rightarrow> 'd option"
  decimal_text :: "'d \<Rightarrow> rtext"
  parse_ratio :: "rtext \<Rightarrow> (int \<times> int) option"

definition in_i64 :: "int \<Rightarrow> bool" where
  "in_i64 n \<longleftrightarrow> - (2 ^ 63) \<le> n \<and> n < 2 ^ 63"

definition digits_value :: "nat \<Rightarrow> rtext \<Rightarrow> nat" where
  "digits_value radix ds = foldl (\<lambda>n c. n * radix + (case to_digit radix c of Some d \<Rightarrow> d | None \<Rightarrow> 0)) 0 ds"

text \<open>The sign of a number token, and the rest of it.\<close>

definition split_sign :: "rtext \<Rightarrow> bool \<times> rtext" where
  "split_sign token = (case token of
     [] \<Rightarrow> (False, [])
   | c # cs \<Rightarrow> if c = ch CHR ''-'' then (True, cs) else if c = ch CHR ''+'' then (False, cs) else (False, token))"

text \<open>\<open>str::parse::<i64>\<close>.\<close>

definition parse_i64 :: "rtext \<Rightarrow> int option" where
  "parse_i64 token = (case split_sign token of (negative, ds) \<Rightarrow>
     (if ds = [] \<or> \<not> list_all is_ascii_digit ds then None
      else (let m = int (digits_value 10 ds); n = (if negative then - m else m) in if in_i64 n then Some n else None)))"

section \<open>Classification\<close>

datatype atom_kind = ANil | ABool bool | AInt int | AFloat "64 word" | AIntOverflow | AKeyword | ASymbol | ADecimal
  | ADecimalInvalid | ARatio | ARatioInvalid | AFloatInvalid | ARadixOverflow | ARadixInvalid | AReservedNumeric

definition F64_INFINITY :: "64 word" where "F64_INFINITY = 0x7FF0000000000000"
definition F64_NEG_INFINITY :: "64 word" where "F64_NEG_INFINITY = 0xFFF0000000000000"
definition F64_NAN :: "64 word" where "F64_NAN = 0x7FF8000000000000"

definition digit_led :: "rtext \<Rightarrow> bool" where
  "digit_led token = (case token of
     [] \<Rightarrow> False
   | c # cs \<Rightarrow> is_ascii_digit c \<or>
       c \<in> {ch CHR ''+'', ch CHR ''-'', ch CHR ''.''} \<and> (case cs of [] \<Rightarrow> False | d # _ \<Rightarrow> is_ascii_digit d))"

text \<open>The walk of a token's characters after the first: numeric so far, a digit seen, a fraction or exponent seen.\<close>

fun shape_loop :: "rchar \<Rightarrow> bool \<Rightarrow> bool \<Rightarrow> bool \<Rightarrow> rtext \<Rightarrow> bool \<times> bool \<times> bool" where
  "shape_loop prev numeric digit frac [] = (numeric, digit, frac)"
| "shape_loop prev numeric digit frac (c # cs) =
     (if is_ascii_digit c then shape_loop c numeric True frac cs
      else if c = ch CHR ''+'' \<or> c = ch CHR ''-'' then
        shape_loop c (if prev \<noteq> ch CHR ''e'' \<and> prev \<noteq> ch CHR ''E'' then False else numeric) digit frac cs
      else if c \<in> {ch CHR ''.'', ch CHR ''e'', ch CHR ''E''} then shape_loop c numeric digit True cs
      else shape_loop c False digit frac cs)"

definition numeric_shape :: "rtext \<Rightarrow> bool \<times> bool" where
  "numeric_shape token = (case token of
     [] \<Rightarrow> (False, False)
   | c # cs \<Rightarrow>
       (let first_ok = (is_ascii_digit c \<or> c \<in> {ch CHR ''-'', ch CHR ''+'', ch CHR ''.''} \<and> cs \<noteq> [])
        in case shape_loop c first_ok (is_ascii_digit c) (c = ch CHR ''.'') cs of
             (numeric, digit, frac) \<Rightarrow> (numeric \<and> digit, frac)))"

definition radix_parts :: "rtext \<Rightarrow> (nat \<times> rtext \<times> bool) option" where
  "radix_parts token = (case split_sign token of (negative, rest) \<Rightarrow>
     (case rest of
        c # d # digits \<Rightarrow>
          (if c \<noteq> ch CHR ''0'' then None
           else if d = ch CHR ''x'' \<or> d = ch CHR ''X'' then Some (16, digits, negative)
           else if d = ch CHR ''b'' \<or> d = ch CHR ''B'' then Some (2, digits, negative)
           else if d = ch CHR ''o'' \<or> d = ch CHR ''O'' then Some (8, digits, negative)
           else None)
      | _ \<Rightarrow> None))"

definition classify_radix :: "rtext \<Rightarrow> atom_kind" where
  "classify_radix token = (case radix_parts token of
     None \<Rightarrow> ARadixInvalid
   | Some (radix, digits, negative) \<Rightarrow>
       (if digits = [] \<or> \<not> list_all (\<lambda>c. to_digit radix c \<noteq> None) digits then ARadixInvalid
        else if digits_value radix digits \<ge> 2 ^ 127 then ARadixOverflow
        else (let m = int (digits_value radix digits); signed = (if negative then - m else m)
          in if in_i64 signed then AInt signed else ARadixOverflow)))"

definition split_once :: "rchar \<Rightarrow> rtext \<Rightarrow> (rtext \<times> rtext) option" where
  "split_once c cs = (if c \<in> set cs then Some (takeWhile (\<lambda>x. x \<noteq> c) cs, tl (dropWhile (\<lambda>x. x \<noteq> c) cs)) else None)"

definition classify_ratio :: "'d library \<Rightarrow> rtext \<Rightarrow> atom_kind" where
  "classify_ratio L token = (case split_once (ch CHR ''/'') token of
     None \<Rightarrow> ARatioInvalid
   | Some (num, den) \<Rightarrow>
       (let num_ok = (parse_bigint L num \<noteq> None);
            den_ok = (den \<noteq> [] \<and> list_all is_ascii_digit den \<and> (case parse_bigint L den of Some d \<Rightarrow> d \<noteq> 0 | None \<Rightarrow> False))
        in if num_ok \<and> den_ok then ARatio else ARatioInvalid))"

definition classify :: "'d library \<Rightarrow> rtext \<Rightarrow> atom_kind" where
  "classify L token =
     (if token = lit ''nil'' then ANil
      else if token = lit ''true'' then ABool True
      else if token = lit ''false'' then ABool False
      else if token = lit ''inf'' then AFloat F64_INFINITY
      else if token = lit ''-inf'' then AFloat F64_NEG_INFINITY
      else if token = lit ''nan'' then AFloat F64_NAN
      else if radix_parts token \<noteq> None then classify_radix token
      else if length token > 1 \<and> last token \<in> {ch CHR ''M'', ch CHR ''m''} \<and> fst (numeric_shape (butlast token)) then
        (if parse_decimal L (butlast token) \<noteq> None then ADecimal else ADecimalInvalid)
      else (case parse_i64 token of
          Some i \<Rightarrow> AInt i
        | None \<Rightarrow>
            (if fst (numeric_shape token) then
               (if \<not> snd (numeric_shape token) then AIntOverflow
                else (case parse_f64 L token of Some f \<Rightarrow> AFloat f | None \<Rightarrow> AFloatInvalid))
             else if length token > 1 \<and> hd token = ch CHR '':'' then AKeyword
             else if digit_led token \<and> ch CHR ''/'' \<in> set token then classify_ratio L token
             else if digit_led token then AReservedNumeric
             else ASymbol)))"

end
