(* ===== verification/Reader.thy ===== *)
theory Reader
  imports Atom
begin

text \<open>
  The reader (\<open>syntax/reader.rs\<close>): text to forms. A form is what the code allocates on the heap, with names
  and strings as their text; a map or set is the list of its entries, from which the heap builds the trie.
  Positions in errors are left out. A loop goes on with what the last form left of the input, so it takes fuel,
  and an error of its own says it ran out.
\<close>

section \<open>Forms and errors\<close>

datatype 'd form = FNil | FBool bool | FInt int | FBigInt int | FFloat "64 word" | FDecimal 'd | FRatio int int
  | FBytes "nat list" | FStr rtext | FSym rtext | FKeyword rtext | FPair "'d form" "'d form" | FVector "'d form list"
  | FMap "('d form \<times> 'd form) list" | FSet "'d form list"

datatype read_error = UnexpectedEnd | UnexpectedClose rchar | TooDeep | UnclosedList | UnclosedAfterDot | UnclosedVector
  | UnclosedMap | UnclosedSet | DotWithoutElement | DotWithoutForm | DotFollowed | DotInLiteral | OddMap
  | UnterminatedString | UnterminatedBytes | UnterminatedBar | MalformedEscape rchar | BytesEscape | ByteTooLarge rchar
  | CharacterLiteral | HashForm "rchar option" | ControlCharacter rchar | MalformedNumber atom_kind | TrailingContent
  | OutOfFuel

text \<open>The errors with the code \<open>INCOMPLETE_INPUT\<close>, on which a REPL asks for more.\<close>

definition incomplete :: "read_error \<Rightarrow> bool" where
  "incomplete e \<longleftrightarrow>
     e \<in> {UnexpectedEnd, UnclosedList, UnclosedAfterDot, UnclosedVector, UnclosedMap, UnclosedSet, UnterminatedString, UnterminatedBytes}"

definition list_with_tail :: "'d form list \<Rightarrow> 'd form \<Rightarrow> 'd form" where
  "list_with_tail items tail = foldr FPair items tail"

definition wrap :: "string \<Rightarrow> 'd form \<Rightarrow> 'd form" where
  "wrap tag form = list_with_tail [FSym (lit tag), form] FNil"

definition alloc_ratio :: "int \<times> int \<Rightarrow> 'd form" where
  "alloc_ratio q = (case q of (n, d) \<Rightarrow> if d = 1 then (if in_i64 n then FInt n else FBigInt n) else FRatio n d)"

definition READER_MAX_DEPTH :: nat where "READER_MAX_DEPTH = 256"

section \<open>Atoms, strings and names\<close>

definition read_bar_symbol :: "bool \<Rightarrow> rtext \<Rightarrow> read_error + 'd form \<times> rtext" where
  "read_bar_symbol keyword cs = (case scan_bar_body [] cs of
     (BarClosed, name, rest) \<Rightarrow> Inr (if keyword then FKeyword name else FSym name, rest)
   | (BarUnterminated, _, _) \<Rightarrow> Inl UnterminatedBar)"

definition read_string :: "rtext \<Rightarrow> read_error + 'd form \<times> rtext" where
  "read_string cs = (case scan_string_body None [] cs of
     (Closed, s, rest) \<Rightarrow> Inr (FStr s, rest)
   | (Unterminated, _, _) \<Rightarrow> Inl UnterminatedString
   | (BadEscape c, _, _) \<Rightarrow> Inl (MalformedEscape c))"

definition read_bytes :: "rtext \<Rightarrow> read_error + 'd form \<times> rtext" where
  "read_bytes cs = (case scan_string_body None [] cs of
     (Closed, body, rest) \<Rightarrow>
       (case find (\<lambda>c. c > 255) body of
          Some c \<Rightarrow> Inl (ByteTooLarge c)
        | None \<Rightarrow> Inr (FBytes body, rest))
   | (Unterminated, _, _) \<Rightarrow> Inl UnterminatedBytes
   | (BadEscape c, _, _) \<Rightarrow> Inl BytesEscape)"

definition read_number :: "'d library \<Rightarrow> rtext \<Rightarrow> read_error + 'd form" where
  "read_number L token = (case classify L token of
     ANil \<Rightarrow> Inr FNil
   | ABool b \<Rightarrow> Inr (FBool b)
   | AInt i \<Rightarrow> Inr (FInt i)
   | AFloat f \<Rightarrow> Inr (FFloat f)
   | AKeyword \<Rightarrow> Inr (FKeyword (tl token))
   | ASymbol \<Rightarrow> Inr (FSym token)
   | AIntOverflow \<Rightarrow> (case parse_bigint L token of Some n \<Rightarrow> Inr (FBigInt n) | None \<Rightarrow> Inl (MalformedNumber AIntOverflow))
   | ADecimal \<Rightarrow> (case parse_decimal L (butlast token) of Some d \<Rightarrow> Inr (FDecimal d) | None \<Rightarrow> Inl (MalformedNumber ADecimal))
   | ARatio \<Rightarrow> (case parse_ratio L token of Some q \<Rightarrow> Inr (alloc_ratio q) | None \<Rightarrow> Inl (MalformedNumber ARatio))
   | ARadixOverflow \<Rightarrow> (case radix_parts token of
         Some (radix, digits, negative) \<Rightarrow>
           Inr (FBigInt (if negative then - int (digits_value radix digits) else int (digits_value radix digits)))
       | None \<Rightarrow> Inl (MalformedNumber ARadixOverflow))
   | k \<Rightarrow> Inl (MalformedNumber k))"

definition read_token :: "'d library \<Rightarrow> rtext \<Rightarrow> read_error + 'd form \<times> rtext" where
  "read_token L cs = (case read_atom cs of (token, rest) \<Rightarrow>
     (case find is_control token of
        Some c \<Rightarrow> Inl (ControlCharacter c)
      | None \<Rightarrow> (case read_number L token of Inl e \<Rightarrow> Inl e | Inr v \<Rightarrow> Inr (v, rest))))"

section \<open>Nested forms\<close>

text \<open>
  Each function takes the reader of the forms one level down, \<open>rf\<close>, and the loops of lists, vectors, sets
  and maps carry what they have collected.
\<close>

type_synonym 'd read_result = "read_error + 'd form \<times> rtext"

definition read_wrapped :: "(rtext \<Rightarrow> 'd read_result) \<Rightarrow> string \<Rightarrow> rtext \<Rightarrow> 'd read_result" where
  "read_wrapped rf tag cs = (case rf cs of Inl e \<Rightarrow> Inl e | Inr (form, rest) \<Rightarrow> Inr (wrap tag form, rest))"

fun read_seq :: "(rtext \<Rightarrow> 'd read_result) \<Rightarrow> nat \<Rightarrow> 'd form list \<Rightarrow> rtext \<Rightarrow> 'd read_result" where
  "read_seq rf 0 items cs = Inl OutOfFuel"
| "read_seq rf (Suc n) items cs = (case skip_trivia cs of
     [] \<Rightarrow> Inl UnclosedList
   | c # rest \<Rightarrow>
       (if c = ch CHR '')'' then Inr (list_with_tail items FNil, rest)
        else if c = ch CHR ''.'' \<and> is_dot_separator rest then
          (if items = [] then Inl DotWithoutElement
           else (case skip_trivia rest of
               [] \<Rightarrow> Inl UnclosedAfterDot
             | c' # rest' \<Rightarrow>
                 (if c' = ch CHR '')'' then Inl DotWithoutForm
                  else (case rf (c' # rest') of
                      Inl e \<Rightarrow> Inl e
                    | Inr (tail, rest) \<Rightarrow> (case skip_trivia rest of
                          [] \<Rightarrow> Inl UnclosedList
                        | c # rest \<Rightarrow>
                            (if c = ch CHR '')'' then Inr (list_with_tail items tail, rest) else Inl DotFollowed))))))
        else (case rf (c # rest) of
            Inl e \<Rightarrow> Inl e
          | Inr (v, rest) \<Rightarrow> read_seq rf n (items @ [v]) rest)))"

fun read_vector :: "(rtext \<Rightarrow> 'd read_result) \<Rightarrow> nat \<Rightarrow> 'd form list \<Rightarrow> rtext \<Rightarrow> 'd read_result" where
  "read_vector rf 0 items cs = Inl OutOfFuel"
| "read_vector rf (Suc n) items cs = (case skip_trivia cs of
     [] \<Rightarrow> Inl UnclosedVector
   | c # rest \<Rightarrow>
       (if c = ch CHR '']'' then Inr (FVector items, rest)
        else if c = ch CHR ''.'' \<and> is_dot_separator rest then Inl DotInLiteral
        else (case rf (c # rest) of
            Inl e \<Rightarrow> Inl e
          | Inr (v, rest) \<Rightarrow> read_vector rf n (items @ [v]) rest)))"

fun read_map :: "(rtext \<Rightarrow> 'd read_result) \<Rightarrow> nat \<Rightarrow> ('d form \<times> 'd form) list \<Rightarrow> rtext \<Rightarrow> 'd read_result" where
  "read_map rf 0 pairs cs = Inl OutOfFuel"
| "read_map rf (Suc n) pairs cs = (case skip_trivia cs of
     [] \<Rightarrow> Inl UnclosedMap
   | c # rest \<Rightarrow>
       (if c = ch CHR ''}'' then Inr (FMap pairs, rest)
        else if c = ch CHR ''.'' \<and> is_dot_separator rest then Inl DotInLiteral
        else (case rf (c # rest) of
            Inl e \<Rightarrow> Inl e
          | Inr (key, rest) \<Rightarrow> (case skip_trivia rest of
                [] \<Rightarrow> Inl OddMap
              | c # rest \<Rightarrow>
                  (if c = ch CHR ''}'' then Inl OddMap
                   else if c = ch CHR ''.'' \<and> is_dot_separator rest then Inl DotInLiteral
                   else (case rf (c # rest) of
                       Inl e \<Rightarrow> Inl e
                     | Inr (v, rest) \<Rightarrow> read_map rf n (pairs @ [(key, v)]) rest))))))"

fun read_set :: "(rtext \<Rightarrow> 'd read_result) \<Rightarrow> nat \<Rightarrow> 'd form list \<Rightarrow> rtext \<Rightarrow> 'd read_result" where
  "read_set rf 0 items cs = Inl OutOfFuel"
| "read_set rf (Suc n) items cs = (case skip_trivia cs of
     [] \<Rightarrow> Inl UnclosedSet
   | c # rest \<Rightarrow>
       (if c = ch CHR ''.'' \<and> is_dot_separator rest then Inl DotInLiteral
        else if c = ch CHR ''}'' then Inr (FSet items, rest)
        else (case rf (c # rest) of
            Inl e \<Rightarrow> Inl e
          | Inr (v, rest) \<Rightarrow> read_set rf n (items @ [v]) rest)))"

definition fuel :: "rtext \<Rightarrow> nat" where
  "fuel cs = length cs + 1"

text \<open>\<open>enter\<close>: the reader one level down, or none at the deepest level.\<close>

definition enter :: "(rtext \<Rightarrow> 'd read_result) option \<Rightarrow> ((rtext \<Rightarrow> 'd read_result) \<Rightarrow> 'd read_result) \<Rightarrow> 'd read_result" where
  "enter deeper f = (case deeper of None \<Rightarrow> Inl TooDeep | Some rf \<Rightarrow> f rf)"

definition read_hash :: "(rtext \<Rightarrow> 'd read_result) option \<Rightarrow> rtext \<Rightarrow> 'd read_result" where
  "read_hash deeper cs =
     (if take 2 cs = [ch CHR ''b'', ch CHR 0x22] then read_bytes (drop 2 cs)
      else (case cs of
          [] \<Rightarrow> Inl (HashForm None)
        | c # rest \<Rightarrow>
            (if c = ch CHR ''{'' then enter deeper (\<lambda>rf. read_set rf (fuel rest) [] rest)
             else Inl (HashForm (Some c)))))"

definition read_dispatch :: "'d library \<Rightarrow> (rtext \<Rightarrow> 'd read_result) option \<Rightarrow> rtext \<Rightarrow> 'd read_result" where
  "read_dispatch L deeper cs = (case skip_trivia cs of
     [] \<Rightarrow> Inl UnexpectedEnd
   | c # rest \<Rightarrow>
       (if c = ch CHR ''('' then enter deeper (\<lambda>rf. read_seq rf (fuel rest) [] rest)
        else if c = ch CHR ''['' then enter deeper (\<lambda>rf. read_vector rf (fuel rest) [] rest)
        else if c \<in> {ch CHR '')'', ch CHR '']'', ch CHR ''}''} then Inl (UnexpectedClose c)
        else if c = ch CHR ''{'' then enter deeper (\<lambda>rf. read_map rf (fuel rest) [] rest)
        else if c = ch CHR 0x27 then enter deeper (\<lambda>rf. read_wrapped rf ''quote'' rest)
        else if c = ch CHR 0x60 then enter deeper (\<lambda>rf. read_wrapped rf ''quasiquote'' rest)
        else if c = ch CHR ''^'' then enter deeper (\<lambda>rf. read_wrapped rf ''%pin'' rest)
        else if c = ch CHR ''~'' then
          enter deeper (\<lambda>rf. if rest \<noteq> [] \<and> hd rest = ch CHR ''@'' then read_wrapped rf ''unquote-splicing'' (tl rest)
            else read_wrapped rf ''unquote'' rest)
        else if c = ch CHR 0x22 then read_string rest
        else if c = ch CHR ''#'' then read_hash deeper rest
        else if c = ch CHR ''|'' then read_bar_symbol False rest
        else if c = ch CHR '':'' \<and> rest \<noteq> [] \<and> hd rest = ch CHR ''|'' then read_bar_symbol True (tl rest)
        else if c = ch CHR 0x5C then Inl CharacterLiteral
        else read_token L (c # rest)))"

text \<open>The first argument after the library is how many levels are left: \<open>READER_MAX_DEPTH\<close> less the parser's depth.\<close>

fun read_form :: "'d library \<Rightarrow> nat \<Rightarrow> rtext \<Rightarrow> 'd read_result" where
  "read_form L 0 cs = read_dispatch L None cs"
| "read_form L (Suc levels) cs = read_dispatch L (Some (read_form L levels)) cs"

section \<open>Reading a source\<close>

definition read_one :: "'d library \<Rightarrow> rtext \<Rightarrow> read_error + 'd form" where
  "read_one L src =
     (let cs = skip_trivia (skip_shebang src) in
      if cs = [] then Inl UnexpectedEnd
      else (case read_form L READER_MAX_DEPTH cs of Inl e \<Rightarrow> Inl e | Inr (v, rest) \<Rightarrow> Inr v))"

definition read_one_complete :: "'d library \<Rightarrow> rtext \<Rightarrow> read_error + 'd form" where
  "read_one_complete L src =
     (let cs = skip_trivia src in
      if cs = [] then Inl UnexpectedEnd
      else (case read_form L READER_MAX_DEPTH cs of
          Inl e \<Rightarrow> Inl e
        | Inr (v, rest) \<Rightarrow> if skip_trivia rest = [] then Inr v else Inl TrailingContent))"

fun read_all_loop :: "'d library \<Rightarrow> nat \<Rightarrow> 'd form list \<Rightarrow> rtext \<Rightarrow> read_error + 'd form list" where
  "read_all_loop L 0 forms cs = Inl OutOfFuel"
| "read_all_loop L (Suc n) forms cs =
     (let cs = skip_trivia cs in
      if cs = [] then Inr forms
      else (case read_form L READER_MAX_DEPTH cs of
          Inl e \<Rightarrow> Inl e
        | Inr (v, rest) \<Rightarrow> read_all_loop L n (forms @ [v]) rest))"

definition read_all :: "'d library \<Rightarrow> rtext \<Rightarrow> read_error + 'd form list" where
  "read_all L src = (let cs = skip_shebang src in read_all_loop L (length cs + 1) [] cs)"

end
