(* ===== verification/Printer.thy ===== *)
theory Printer
  imports Reader Number_Order
begin

text \<open>
  The printer (\<open>syntax/printer.rs\<close>): forms to text, readable or for people. Values that no text denotes
  (functions, pids, records, sockets and the like, which print behind \<open>#\<close>) and lazy ranges are left out.
\<close>

section \<open>Numbers\<close>

fun nat_text :: "nat \<Rightarrow> rtext" where
  "nat_text n = (if n < 10 then [48 + n] else nat_text (n div 10) @ [48 + n mod 10])"

declare nat_text.simps [simp del]

definition int_text :: "int \<Rightarrow> rtext" where
  "int_text n = (if n < 0 then ch CHR ''-'' # nat_text (nat (- n)) else nat_text (nat n))"

text \<open>\<open>{:x}\<close> and \<open>{:02x}\<close>.\<close>

definition hex_char :: "nat \<Rightarrow> rchar" where
  "hex_char d = (if d < 10 then 48 + d else 87 + d)"

fun hex_text :: "nat \<Rightarrow> rtext" where
  "hex_text n = (if n < 16 then [hex_char n] else hex_text (n div 16) @ [hex_char (n mod 16)])"

declare hex_text.simps [simp del]

definition format_float :: "'d library \<Rightarrow> 64 word \<Rightarrow> rtext" where
  "format_float L f =
     (if is_nan f then lit ''nan''
      else if is_infinite f then (if is_negative f then lit ''-inf'' else lit ''inf'')
      else (let s = f64_text L f
        in if ch CHR ''.'' \<in> set s \<or> ch CHR ''e'' \<in> set s \<or> ch CHR ''E'' \<in> set s then s else s @ lit ''.0''))"

section \<open>Strings and names\<close>

definition string_char :: "rchar \<Rightarrow> rtext" where
  "string_char c =
     (if c = 0x22 then [0x5C, 0x22] else if c = 0x5C then [0x5C, 0x5C] else if c = 10 then [0x5C, ch CHR ''n'']
      else if c = 9 then [0x5C, ch CHR ''t''] else if c = 13 then [0x5C, ch CHR ''r'']
      else if c = 27 then [0x5C, ch CHR ''e''] else if c = 0 then [0x5C, ch CHR ''0'']
      else if is_control c then [0x5C, ch CHR ''u'', ch CHR ''{''] @ hex_text c @ [ch CHR ''}''] else [c])"

definition write_string_literal :: "rtext \<Rightarrow> rtext" where
  "write_string_literal s = [0x22] @ concat (map string_char s) @ [0x22]"

definition byte_char :: "nat \<Rightarrow> rtext" where
  "byte_char b =
     (if b = 0x22 then [0x5C, 0x22] else if b = 0x5C then [0x5C, 0x5C] else if b = 10 then [0x5C, ch CHR ''n'']
      else if b = 9 then [0x5C, ch CHR ''t''] else if b = 13 then [0x5C, ch CHR ''r'']
      else if b = 27 then [0x5C, ch CHR ''e''] else if b = 0 then [0x5C, ch CHR ''0'']
      else if 0x20 \<le> b \<and> b \<le> 0x7E then [b] else [0x5C, ch CHR ''x'', hex_char (b div 16), hex_char (b mod 16)])"

definition write_bytes_literal :: "nat list \<Rightarrow> rtext" where
  "write_bytes_literal bs = [ch CHR ''#'', ch CHR ''b'', 0x22] @ concat (map byte_char bs) @ [0x22]"

definition symbol_needs_bars :: "'d library \<Rightarrow> rtext \<Rightarrow> bool \<Rightarrow> bool" where
  "symbol_needs_bars L name keyword \<longleftrightarrow>
     (if name = [] \<or> list_ex (\<lambda>c. is_delimiter c \<or> c = ch CHR ''|'' \<or> c = 0x5C \<or> is_control c) name then True
      else if keyword then False
      else name = lit ''.'' \<or> hd name \<in> {ch CHR ''#'', ch CHR ''^''} \<or> classify L name \<noteq> ASymbol)"

definition write_symbol :: "'d library \<Rightarrow> rtext \<Rightarrow> bool \<Rightarrow> bool \<Rightarrow> rtext" where
  "write_symbol L name readable keyword =
     (if readable \<and> symbol_needs_bars L name keyword then
        [ch CHR ''|''] @ concat (map (\<lambda>c. if c = ch CHR ''|'' \<or> c = 0x5C then [0x5C, c] else [c]) name) @ [ch CHR ''|'']
      else name)"

section \<open>Forms\<close>

definition PRINTER_MAX_DEPTH :: nat where "PRINTER_MAX_DEPTH = READER_MAX_DEPTH + 1"

text \<open>What stands for a form past the cap.\<close>

definition capped :: "bool \<Rightarrow> nat \<Rightarrow> rtext \<Rightarrow> rtext" where
  "capped readable depth text =
     (if depth \<ge> PRINTER_MAX_DEPTH then (if readable then lit ''#<deep>'' else [0x2026]) else text)"

function write_value :: "'d library \<Rightarrow> bool \<Rightarrow> nat \<Rightarrow> 'd form \<Rightarrow> rtext"
and write_tail :: "'d library \<Rightarrow> bool \<Rightarrow> nat \<Rightarrow> 'd form \<Rightarrow> rtext"
and write_items :: "'d library \<Rightarrow> bool \<Rightarrow> nat \<Rightarrow> 'd form list \<Rightarrow> rtext"
and write_entries :: "'d library \<Rightarrow> bool \<Rightarrow> nat \<Rightarrow> ('d form \<times> 'd form) list \<Rightarrow> rtext" where
  "write_value L r d v = capped r d (case v of
     FNil \<Rightarrow> lit ''nil''
   | FBool b \<Rightarrow> if b then lit ''true'' else lit ''false''
   | FInt n \<Rightarrow> int_text n
   | FBigInt n \<Rightarrow> int_text n
   | FDecimal x \<Rightarrow> decimal_text L x @ [ch CHR ''M'']
   | FRatio n m \<Rightarrow> int_text n @ [ch CHR ''/''] @ int_text m
   | FBytes bs \<Rightarrow> write_bytes_literal bs
   | FFloat f \<Rightarrow> format_float L f
   | FSym s \<Rightarrow> write_symbol L s r False
   | FKeyword s \<Rightarrow> ch CHR '':'' # write_symbol L s r True
   | FStr s \<Rightarrow> if r then write_string_literal s else s
   | FPair h t \<Rightarrow> [ch CHR ''(''] @ write_value L r (d + 1) h @ write_tail L r d t
   | FVector xs \<Rightarrow> [ch CHR ''[''] @ write_items L r d xs @ [ch CHR '']'']
   | FMap es \<Rightarrow> [ch CHR ''{''] @ write_entries L r d es @ [ch CHR ''}'']
   | FSet xs \<Rightarrow> [ch CHR ''#'', ch CHR ''{''] @ write_items L r d xs @ [ch CHR ''}''])"
| "write_tail L r d t = (case t of
     FPair h t \<Rightarrow> [ch CHR '' ''] @ write_value L r (d + 1) h @ write_tail L r d t
   | FNil \<Rightarrow> [ch CHR '')'']
   | _ \<Rightarrow> lit '' . '' @ write_value L r (d + 1) t @ [ch CHR '')''])"
| "write_items L r d xs = (case xs of
     [] \<Rightarrow> []
   | x # xs \<Rightarrow> write_value L r (d + 1) x @ (if xs = [] then [] else [ch CHR '' ''] @ write_items L r d xs))"
| "write_entries L r d es = (case es of
     [] \<Rightarrow> []
   | (k, v) # es \<Rightarrow> write_value L r (d + 1) k @ [ch CHR '' ''] @ write_value L r (d + 1) v @
       (if es = [] then [] else lit '', '' @ write_entries L r d es))"
  by pat_completeness auto
termination
  by (relation "measure (\<lambda>x. case x of Inl (Inl (_, _, _, v)) \<Rightarrow> 2 * size v | Inl (Inr (_, _, _, t)) \<Rightarrow> 2 * size t + 1
      | Inr (Inl (_, _, _, xs)) \<Rightarrow> 2 * size_list size xs + 1 | Inr (Inr (_, _, _, es)) \<Rightarrow> 2 * size_list (size_prod size size) es + 1)")
    auto

declare write_value.simps [simp del] write_tail.simps [simp del] write_items.simps [simp del] write_entries.simps [simp del]

definition print :: "'d library \<Rightarrow> 'd form \<Rightarrow> rtext" where
  "print L v = write_value L True 0 v"

definition display :: "'d library \<Rightarrow> 'd form \<Rightarrow> rtext" where
  "display L v = write_value L False 0 v"

end
