(* ===== verification/Read_Tokens.thy ===== *)
theory Read_Tokens
  imports Printer
begin

text \<open>
  What is printed reads back: strings, names, numbers and nested forms, each to the very form that was printed.
\<close>

section \<open>Strings, bytes and bar-quoted names\<close>

lemma to_digit_hex: "d < 16 \<Longrightarrow> to_digit 16 (hex_char d) = Some d"
  by (auto simp: to_digit_def hex_char_def)

lemma hex_text_byte: "n < 256 \<Longrightarrow> hex_text n = (if n < 16 then [hex_char n] else [hex_char (n div 16), hex_char (n mod 16)])"
proof -
  assume "n < 256"
  then have "n div 16 < 16" by presburger
  then show ?thesis by (subst hex_text.simps) (simp add: hex_text.simps [of "n div 16"])
qed

lemma hex_char_brace: "d < 16 \<Longrightarrow> hex_char d \<noteq> 125"
  by (simp add: hex_char_def)

lemma read_u_escape: "n < 160 \<Longrightarrow> try_hex_escape_u_brace (123 # hex_text n @ 125 # rest) = (Some n, rest)"
  by (simp add: try_hex_escape_u_brace_def hex_text_byte to_digit_hex hex_char_brace from_u32_def)

lemma read_x_escape: "n < 256 \<Longrightarrow> try_hex_escape_x (hex_char (n div 16) # hex_char (n mod 16) # rest) = (Some n, rest)"
  by (simp add: try_hex_escape_x_def to_digit_hex from_u32_def)

lemma scan_char:
  "scan_string_body None out (string_char c @ rest) = scan_string_body None (out @ [c]) rest"
  by (auto simp: string_char_def scan_string_body.simps escape_def decode_escape_def is_control_def read_u_escape is_ascii_alphabetic_def)

lemma scan_byte:
  "b < 256 \<Longrightarrow> scan_string_body None out (byte_char b @ rest) = scan_string_body None (out @ [b]) rest"
  by (auto simp: byte_char_def scan_string_body.simps escape_def decode_escape_def read_x_escape is_ascii_alphabetic_def)

lemma scan_string_text:
  "scan_string_body None out (concat (map string_char s) @ 34 # rest) = (Closed, out @ s, rest)"
  by (induction s arbitrary: out) (simp_all add: scan_char, simp add: scan_string_body.simps)

lemma scan_bytes_text:
  "\<forall>b \<in> set bs. b < 256 \<Longrightarrow> scan_string_body None out (concat (map byte_char bs) @ 34 # rest) = (Closed, out @ bs, rest)"
  by (induction bs arbitrary: out) (simp_all add: scan_byte, simp add: scan_string_body.simps)

lemma scan_bar_text:
  "scan_bar_body out (concat (map (\<lambda>c. if c = 124 \<or> c = 92 then [92, c] else [c]) name) @ 124 # rest) = (BarClosed, out @ name, rest)"
  by (induction name arbitrary: out) auto

section \<open>Numbers\<close>

lemma nat_text_digits: "c \<in> set (nat_text n) \<Longrightarrow> is_ascii_digit c"
proof (induction n rule: nat_text.induct)
  case (1 n)
  then show ?case by (subst (asm) (2) nat_text.simps) (auto simp: is_ascii_digit_def split: if_splits)
qed

lemma nat_text_nonempty: "nat_text n \<noteq> []"
  by (subst nat_text.simps) simp

lemma digits_value_snoc: "digits_value r (ds @ [c]) = digits_value r ds * r + (case to_digit r c of Some d \<Rightarrow> d | None \<Rightarrow> 0)"
  by (simp add: digits_value_def)

lemma digits_value_nat: "digits_value 10 (nat_text n) = n"
proof (induction n rule: nat_text.induct)
  case (1 n)
  have d: "d < 10 \<Longrightarrow> to_digit 10 (48 + d) = Some d" for d by (auto simp: to_digit_def)
  show ?case
  proof (cases "n < 10")
    case True
    then show ?thesis using d [of n] by (subst nat_text.simps) (simp add: digits_value_def)
  next
    case False
    then show ?thesis using 1 d [of "n mod 10"] by (subst nat_text.simps) (simp add: digits_value_snoc)
  qed
qed

lemma nat_text_Cons: "\<exists>c cs. nat_text n = c # cs \<and> is_ascii_digit c \<and> (\<forall>x \<in> set cs. is_ascii_digit x)"
  using nat_text_digits [of _ n] nat_text_nonempty [of n] by (cases "nat_text n") auto

lemma digit_not: "is_ascii_digit c \<Longrightarrow> c \<noteq> 43 \<and> c \<noteq> 45 \<and> c \<noteq> 46 \<and> c \<noteq> 47 \<and> c \<noteq> 58 \<and> c \<noteq> 69 \<and> c \<noteq> 77 \<and> c \<noteq> 101 \<and> c \<noteq> 109"
  by (auto simp: is_ascii_digit_def)

lemma sign_nat: "split_sign (nat_text n) = (False, nat_text n)"
  using nat_text_Cons [of n] by (auto simp: split_sign_def dest: digit_not)

lemma sign_int: "split_sign (int_text n) = (n < 0, nat_text (nat \<bar>n\<bar>))"
  by (auto simp: int_text_def sign_nat) (simp add: split_sign_def)

lemma parse_int: "parse_i64 (int_text n) = (if in_i64 n then Some n else None)"
proof -
  have "list_all is_ascii_digit (nat_text m)" for m using nat_text_digits by (auto simp: list_all_iff)
  then show ?thesis by (auto simp: parse_i64_def sign_int nat_text_nonempty digits_value_nat Let_def)
qed

definition numeral_char :: "rchar \<Rightarrow> bool" where
  "numeral_char c \<longleftrightarrow> is_ascii_digit c \<or> c \<in> {43, 45, 46, 101, 69}"

lemma shape_numeric: "fst (shape_loop p n d f cs) \<Longrightarrow> n \<and> (\<forall>c \<in> set cs. numeral_char c)"
proof (induction cs arbitrary: p n d f)
  case (Cons c cs)
  then have "n \<and> (\<forall>c \<in> set cs. numeral_char c)" by (simp split: if_splits) blast+
  moreover have "numeral_char c" using Cons by (force simp: numeral_char_def split: if_splits)
  ultimately show ?case by simp
qed simp

lemma shape_frac: "snd (snd (shape_loop p n d f cs)) \<longleftrightarrow> f \<or> (\<exists>c \<in> set cs. c = 46 \<or> c = 101 \<or> c = 69)"
proof (induction cs arbitrary: p n d f)
  case (Cons c cs)
  then show ?case using digit_not [of c] by (cases "is_ascii_digit c") auto
qed simp

lemma shape_digit: "fst (snd (shape_loop p n d f cs)) \<longleftrightarrow> d \<or> (\<exists>c \<in> set cs. is_ascii_digit c)"
  by (induction cs arbitrary: p n d f) simp_all

lemma numeric_shape_eq:
  "numeric_shape (c # cs) = (let s = shape_loop c (is_ascii_digit c \<or> (c = 45 \<or> c = 43 \<or> c = 46) \<and> cs \<noteq> []) (is_ascii_digit c) (c = 46) cs
     in (fst s \<and> fst (snd s), snd (snd s)))"
  by (simp add: numeric_shape_def Let_def case_prod_unfold)

lemma numeric_chars:
  assumes "fst (numeric_shape t)"
  shows "t \<noteq> []" "\<forall>c \<in> set t. numeral_char c" "snd (numeric_shape t) \<longleftrightarrow> (\<exists>c \<in> set t. c = 46 \<or> c = 101 \<or> c = 69)" "t \<noteq> [46]"
proof -
  show "t \<noteq> []" using assms by (auto simp: numeric_shape_def)
  then obtain c cs where t: "t = c # cs" by (cases t) auto
  let ?s = "shape_loop c (is_ascii_digit c \<or> (c = 45 \<or> c = 43 \<or> c = 46) \<and> cs \<noteq> []) (is_ascii_digit c) (c = 46) cs"
  have f: "fst ?s" "snd (numeric_shape t) = snd (snd ?s)" using assms by (simp_all add: t numeric_shape_eq Let_def)
  from shape_numeric [OF f(1)] have c: "is_ascii_digit c \<or> (c = 45 \<or> c = 43 \<or> c = 46) \<and> cs \<noteq> []" "\<forall>c \<in> set cs. numeral_char c" by auto
  then show "\<forall>c \<in> set t. numeral_char c" "t \<noteq> [46]" by (auto simp: t numeral_char_def dest: digit_not)
  have "c \<noteq> 101 \<and> c \<noteq> 69" using c(1) digit_not [of c] by auto
  then show "snd (numeric_shape t) \<longleftrightarrow> (\<exists>c \<in> set t. c = 46 \<or> c = 101 \<or> c = 69)" unfolding f(2) shape_frac by (auto simp: t)
qed

lemma shape_digits: "\<forall>c \<in> set cs. is_ascii_digit c \<Longrightarrow> shape_loop p n d f cs = (n, d \<or> cs \<noteq> [], f)"
  by (induction p n d f cs rule: shape_loop.induct) auto

lemma shape_int: "numeric_shape (int_text n) = (True, False)"
proof -
  obtain c cs where m: "nat_text (nat \<bar>n\<bar>) = c # cs" "is_ascii_digit c" "\<forall>x \<in> set cs. is_ascii_digit x"
    using nat_text_Cons by blast
  have "int_text n = (if n < 0 then 45 # c # cs else c # cs)" using m(1) by (auto simp: int_text_def)
  then show ?thesis using m(2,3) digit_not [of c] digit_not [of 45] by (auto simp: numeric_shape_eq Let_def shape_digits)
qed

section \<open>How a token classifies\<close>

lemma numeral_not: "numeral_char c \<Longrightarrow> c \<notin> {47, 58, 77, 97, 98, 102, 105, 108, 109, 110, 111, 114, 115, 116, 117, 120, 66, 79, 88}"
  by (auto simp: numeral_char_def is_ascii_digit_def)

lemma not_literal:
  assumes "\<forall>c \<in> set t. numeral_char c \<or> c = 77 \<or> c = 47"
  shows "t \<notin> {lit ''nil'', lit ''true'', lit ''false'', lit ''inf'', lit ''-inf'', lit ''nan''}"
proof
  assume "t \<in> {lit ''nil'', lit ''true'', lit ''false'', lit ''inf'', lit ''-inf'', lit ''nan''}"
  then have "105 \<in> set t \<or> 114 \<in> set t \<or> 97 \<in> set t" by (elim insertE emptyE) simp_all
  then obtain c where c: "c \<in> set t" "c = 105 \<or> c = 114 \<or> c = 97" by blast
  then have "numeral_char c \<or> c = 77 \<or> c = 47" using assms by blast
  then show False using c(2) numeral_not [of c] by (elim disjE) simp_all
qed

lemma no_radix:
  assumes "\<forall>c \<in> set t. numeral_char c \<or> c = 77 \<or> c = 47"
  shows "radix_parts t = None"
proof -
  obtain s ds where s: "split_sign t = (s, ds)" by fastforce
  then have "set ds \<subseteq> set t" by (auto simp: split_sign_def split: list.splits if_splits)
  then have "\<forall>c \<in> set ds. c \<notin> {120, 88, 98, 66, 111, 79}" using assms numeral_not by fastforce
  then show ?thesis using s by (auto simp: radix_parts_def split: list.split)
qed

lemma no_suffix: "\<forall>c \<in> set t. numeral_char c \<or> c = 47 \<Longrightarrow> t \<noteq> [] \<Longrightarrow> last t \<notin> {77, 109}"
  using numeral_not [of 77] numeral_not [of 109] last_in_set [of t] by fastforce

lemma classify_number:
  assumes "\<forall>c \<in> set t. numeral_char c \<or> c = 47" "t \<noteq> []"
  shows "classify L t = (case parse_i64 t of
      Some i \<Rightarrow> AInt i
    | None \<Rightarrow>
        (if fst (numeric_shape t) then
           (if \<not> snd (numeric_shape t) then AIntOverflow
            else (case parse_f64 L t of Some f \<Rightarrow> AFloat f | None \<Rightarrow> AFloatInvalid))
         else if length t > 1 \<and> hd t = 58 then AKeyword
         else if digit_led t \<and> 47 \<in> set t then classify_ratio L t
         else if digit_led t then AReservedNumeric
         else ASymbol))"
proof -
  have "t \<notin> {lit ''nil'', lit ''true'', lit ''false'', lit ''inf'', lit ''-inf'', lit ''nan''}" "radix_parts t = None"
    using assms(1) not_literal [of t] no_radix [of t] by blast+
  moreover have "last t \<notin> {77, 109}" using no_suffix assms by blast
  ultimately show ?thesis unfolding classify_def by (simp split del: if_split cong: if_cong option.case_cong)
qed

lemma int_text_chars: "\<forall>c \<in> set (int_text n). numeral_char c" "int_text n \<noteq> []"
  using nat_text_digits [of _ "nat \<bar>n\<bar>"] nat_text_nonempty by (auto simp: int_text_def numeral_char_def)

lemma classify_int: "in_i64 n \<Longrightarrow> classify L (int_text n) = AInt n" "\<not> in_i64 n \<Longrightarrow> classify L (int_text n) = AIntOverflow"
  using int_text_chars [of n] by (auto simp: classify_number parse_int shape_int)

lemma i64_digits: "parse_i64 t = Some n \<Longrightarrow> c \<in> set t \<Longrightarrow> is_ascii_digit c \<or> c = 43 \<or> c = 45"
  by (auto simp: parse_i64_def split_sign_def list_all_iff split: list.splits if_splits)

lemma classify_float:
  assumes "numeric_shape t = (True, True)" "parse_f64 L t = Some f"
  shows "classify L t = AFloat f"
proof -
  note N = numeric_chars [of t]
  have "parse_i64 t = None"
    using N(3) i64_digits [of t] assms(1) digit_not by (cases "parse_i64 t") (fastforce simp: is_ascii_digit_def)+
  then show ?thesis using N(1,2) assms by (simp add: classify_number)
qed

lemma classify_decimal:
  assumes "fst (numeric_shape t)" "parse_decimal L t = Some x"
  shows "classify L (t @ [77]) = ADecimal"
proof -
  note N = numeric_chars [OF assms(1)]
  have "t @ [77] \<notin> {lit ''nil'', lit ''true'', lit ''false'', lit ''inf'', lit ''-inf'', lit ''nan''}" "radix_parts (t @ [77]) = None"
    using N(2) not_literal [of "t @ [77]"] no_radix [of "t @ [77]"] by (simp_all del: of_char_Char)
  then show ?thesis using N(1) assms unfolding classify_def by simp
qed

lemma split_ratio: "split_once 47 (int_text n @ 47 # ds) = Some (int_text n, ds)"
proof -
  have "47 \<notin> set (int_text n)" using int_text_chars(1) [of n] numeral_not [of 47] by auto
  then have *: "\<forall>c \<in> set (int_text n). c \<noteq> 47" by auto
  then show ?thesis by (simp add: split_once_def takeWhile_append2 dropWhile_append2)
qed

lemma classify_ratio_text:
  assumes "\<And>n. parse_bigint L (int_text n) = Some n" "0 < m"
  shows "classify L (int_text n @ 47 # int_text m) = ARatio"
proof -
  let ?t = "int_text n @ 47 # int_text m"
  have c: "\<forall>c \<in> set ?t. numeral_char c \<or> c = 47" using int_text_chars(1) by auto
  have p: "parse_i64 ?t = None" using i64_digits [of ?t _ 47] digit_not [of 47] by (cases "parse_i64 ?t") auto
  have s: "\<not> fst (numeric_shape ?t)" using numeric_chars(2) [of ?t] numeral_not [of 47] by auto
  have mt: "int_text m = nat_text (nat m)" using assms(2) by (simp add: int_text_def)
  obtain d ds where nt: "nat_text (nat \<bar>n\<bar>) = d # ds" "is_ascii_digit d" using nat_text_Cons by blast
  have led: "digit_led ?t" "hd ?t \<noteq> 58"
    using nt digit_not [OF nt(2)] by (auto simp: digit_led_def int_text_def)
  have "classify_ratio L ?t = ARatio"
    using assms nat_text_digits [of _ "nat m"] int_text_chars(2) [of m] by (simp add: classify_ratio_def split_ratio list_all_iff flip: mt)
  then show ?thesis using c p s led by (simp add: classify_number)
qed

lemma shape_off: "\<not> fst (shape_loop p False d f cs)"
  using shape_numeric [of p False d f cs] by blast

lemma classify_keyword:
  assumes "name \<noteq> []"
  shows "classify L (58 # name) = AKeyword"
proof -
  have n: "\<not> fst (numeric_shape (58 # cs))" for cs by (simp add: numeric_shape_eq Let_def is_ascii_digit_def shape_off)
  have "radix_parts (58 # name) = None" by (cases name) (auto simp: radix_parts_def split_sign_def)
  moreover have "parse_i64 (58 # name) = None" by (simp add: parse_i64_def split_sign_def is_ascii_digit_def)
  moreover have "butlast (58 # name) = 58 # butlast name" using assms by simp
  ultimately show ?thesis using assms n [of name] n [of "butlast name"] by (simp add: classify_def)
qed

section \<open>Tokens and the first character\<close>

definition ends :: "rtext \<Rightarrow> bool" where
  "ends rest \<longleftrightarrow> (case rest of [] \<Rightarrow> True | c # _ \<Rightarrow> is_delimiter c)"

text \<open>A text no loop of the reader takes for a separator or a closer.\<close>

definition opens :: "rtext \<Rightarrow> bool" where
  "opens s \<longleftrightarrow> (case s of [] \<Rightarrow> False | c # cs \<Rightarrow> \<not> is_trivia_ws c \<and> c \<notin> {59, 41, 93, 125} \<and>
     (c = 46 \<longrightarrow> cs \<noteq> [] \<and> \<not> is_delimiter (hd cs)))"

definition bare :: "rtext \<Rightarrow> bool" where
  "bare t \<longleftrightarrow> t \<noteq> [] \<and> (\<forall>c \<in> set t. \<not> is_delimiter c \<and> \<not> is_control c) \<and> t \<noteq> [46] \<and> hd t \<notin> {94, 35, 124, 92} \<and>
     (hd t = 58 \<longrightarrow> tl t = [] \<or> hd (tl t) \<noteq> 124)"

lemma delimiters [simp]:
  "is_delimiter 40" "is_delimiter 41" "is_delimiter 91" "is_delimiter 93" "is_delimiter 123" "is_delimiter 125" "is_delimiter 34"
  "is_delimiter 59" "is_delimiter 39" "is_delimiter 96" "is_delimiter 126" "is_delimiter 44" "is_delimiter 32" "\<not> is_delimiter 124"
  by (simp_all add: is_delimiter_def is_whitespace_def)

lemma trivia_delimiter: "is_trivia_ws c \<Longrightarrow> is_delimiter c"
  by (auto simp: is_trivia_ws_def is_delimiter_def)

lemma opens_skip: "opens s \<Longrightarrow> skip_trivia (s @ rest) = s @ rest"
  by (cases s) (auto simp: opens_def skip_trivia.simps)

lemma opens_append: "opens s \<Longrightarrow> opens (s @ rest)"
  by (auto simp: opens_def split: list.splits)

lemma bare_opens: "bare t \<Longrightarrow> opens t"
proof (cases t)
  case (Cons c cs)
  assume b: "bare t"
  then have "\<not> is_delimiter c" using Cons by (simp add: bare_def)
  then have "\<not> is_trivia_ws c \<and> c \<notin> {59, 41, 93, 125}" using trivia_delimiter by auto
  moreover have "c = 46 \<Longrightarrow> cs \<noteq> [] \<and> \<not> is_delimiter (hd cs)" using b Cons by (cases cs) (auto simp: bare_def)
  ultimately show ?thesis by (simp add: opens_def Cons)
qed (simp add: bare_def)

lemma read_atom_bare: "\<forall>c \<in> set t. \<not> is_delimiter c \<Longrightarrow> ends rest \<Longrightarrow> read_atom (t @ rest) = (t, rest)"
  by (cases rest) (simp_all add: read_atom_def ends_def takeWhile_append2 dropWhile_append2)

lemma read_bare:
  assumes "bare t" "ends rest" "read_number L t = Inr v"
  shows "read_dispatch L deeper (t @ rest) = Inr (v, rest)"
proof -
  obtain c cs where t: "t = c # cs" using assms(1) by (cases t) (auto simp: bare_def)
  have nd: "\<not> is_delimiter c" and c: "c \<notin> {94, 35, 124, 92}" using assms(1) by (simp_all add: bare_def t)
  then have d: "c \<notin> {40, 91, 41, 93, 125, 123, 39, 96, 126, 34}" by auto
  have k: "\<not> (c = 58 \<and> cs @ rest \<noteq> [] \<and> hd (cs @ rest) = 124)"
    using assms(1,2) by (cases cs; cases rest) (auto simp: bare_def t ends_def)
  have s: "skip_trivia (t @ rest) = c # cs @ rest" using opens_skip [OF bare_opens [OF assms(1)], of rest] by (simp add: t)
  have "find is_control t = None" using assms(1) by (simp add: find_None_iff bare_def)
  then have "read_token L (t @ rest) = Inr (v, rest)"
    using assms read_atom_bare [of t rest] by (simp add: read_token_def bare_def)
  then show ?thesis using c d k unfolding read_dispatch_def s by (simp add: t) blast
qed

end
