(* ===== verification/Read_Print.thy ===== *)
theory Read_Print
  imports Read_Tokens
begin

text \<open>
  Printed forms read back: any form of numbers, names, strings, bytes and nested lists, vectors, maps and sets, up
  to the depth the reader takes, is read from its text to the very form that was printed.
\<close>

section \<open>What is asked of the number libraries\<close>

text \<open>Each text they print is one they parse back, and looks like a number: their documented behaviour.\<close>

definition library_ok :: "'d library \<Rightarrow> bool" where
  "library_ok L \<longleftrightarrow>
     (\<forall>f. \<not> is_nan f \<longrightarrow> \<not> is_infinite f \<longrightarrow> parse_f64 L (f64_text L f) = Some f \<and> numeric_shape (f64_text L f) = (True, True)) \<and>
     (\<forall>n. parse_bigint L (int_text n) = Some n) \<and>
     (\<forall>x. parse_decimal L (decimal_text L x) = Some x \<and> fst (numeric_shape (decimal_text L x))) \<and>
     (\<forall>n m. 1 < m \<longrightarrow> coprime n m \<longrightarrow> parse_ratio L (int_text n @ ch CHR ''/'' # int_text m) = Some (n, m))"

section \<open>The forms a text denotes\<close>

text \<open>The first argument is how many levels the reader may still enter. A NaN is the one the reader makes.\<close>

fun readable :: "nat \<Rightarrow> 'd form \<Rightarrow> bool" where
  "readable l (FInt n) \<longleftrightarrow> in_i64 n"
| "readable l (FBigInt n) \<longleftrightarrow> \<not> in_i64 n"
| "readable l (FFloat f) \<longleftrightarrow> (is_nan f \<longrightarrow> f = F64_NAN)"
| "readable l (FRatio n m) \<longleftrightarrow> 1 < m \<and> coprime n m"
| "readable l (FBytes bs) \<longleftrightarrow> (\<forall>b \<in> set bs. b < 256)"
| "readable l (FPair h t) \<longleftrightarrow> 0 < l \<and> readable (l - 1) h \<and>
     (case t of FPair _ _ \<Rightarrow> readable l t | _ \<Rightarrow> readable (l - 1) t)"
| "readable l (FVector xs) \<longleftrightarrow> 0 < l \<and> (\<forall>x \<in> set xs. readable (l - 1) x)"
| "readable l (FSet xs) \<longleftrightarrow> 0 < l \<and> (\<forall>x \<in> set xs. readable (l - 1) x)"
| "readable l (FMap es) \<longleftrightarrow> 0 < l \<and> (\<forall>e \<in> set es. readable (l - 1) (fst e) \<and> readable (l - 1) (snd e))"
| "readable l _ \<longleftrightarrow> True"

section \<open>Atoms\<close>

fun nested :: "'d form \<Rightarrow> bool" where
  "nested (FPair _ _) \<longleftrightarrow> True" | "nested (FVector _) \<longleftrightarrow> True" | "nested (FMap _) \<longleftrightarrow> True" | "nested (FSet _) \<longleftrightarrow> True"
| "nested _ \<longleftrightarrow> False"

lemma numeral_plain:
  assumes "numeral_char c"
  shows "\<not> is_delimiter c \<and> \<not> is_control c \<and> c \<notin> {94, 35, 124, 92, 58}"
proof -
  consider "43 \<le> c" "c \<le> 57" "c \<noteq> 44" | "c = 69" | "c = 101" using assms by (fastforce simp: numeral_char_def is_ascii_digit_def)
  then show ?thesis by cases (simp_all add: is_delimiter_def is_whitespace_def is_control_def)
qed

lemma bare_number:
  assumes "\<forall>c \<in> set t. numeral_char c \<or> c = 77 \<or> c = 47" "t \<noteq> []" "t \<noteq> [46]"
  shows "bare t"
proof -
  have "\<forall>c \<in> set t. \<not> is_delimiter c \<and> \<not> is_control c \<and> c \<notin> {94, 35, 124, 92, 58}"
  proof
    fix c assume "c \<in> set t"
    then consider "numeral_char c" | "c = 77" | "c = 47" using assms(1) by blast
    then show "\<not> is_delimiter c \<and> \<not> is_control c \<and> c \<notin> {94, 35, 124, 92, 58}"
      by cases (use numeral_plain in blast, simp_all add: is_delimiter_def is_whitespace_def is_control_def)
  qed
  moreover have "hd t \<in> set t" using assms(2) by simp
  ultimately show ?thesis using assms(2,3) by (auto simp: bare_def)
qed

lemma int_bare: "bare (int_text n)"
  using int_text_chars [of n] numeric_chars(4) [of "int_text n"] shape_int [of n] by (intro bare_number) auto

lemma read_int: "readable l (FInt n) \<Longrightarrow> read_number L (int_text n) = Inr (FInt n)"
  by (simp add: read_number_def classify_int)

lemma read_bigint: "library_ok L \<Longrightarrow> \<not> in_i64 n \<Longrightarrow> read_number L (int_text n) = Inr (FBigInt n)"
  by (simp add: read_number_def classify_int library_ok_def)

lemma infinity_bits: "is_infinite f \<Longrightarrow> f = (if is_negative f then F64_NEG_INFINITY else F64_INFINITY)"
proof -
  assume i: "is_infinite f"
  have s: "f AND 0x8000000000000000 = (if is_negative f then 0x8000000000000000 else 0)"
  proof -
    have "n < 64 \<Longrightarrow> bit (0x8000000000000000 :: 64 word) n \<longleftrightarrow> n = 63" for n
      using bit_exp_iff [where 'a = "64 word", of 63 n] by simp
    then show ?thesis unfolding is_negative_def by (intro bit_word_eqI) (auto simp: bit_and_iff)
  qed
  have o: "(0x8000000000000000 :: 64 word) OR 0x7FFFFFFFFFFFFFFF = - 1" by simp
  have "f = f AND - 1" by simp
  also have "\<dots> = f AND (0x8000000000000000 OR 0x7FFFFFFFFFFFFFFF)" by (simp only: o)
  also have "\<dots> = (f AND 0x8000000000000000) OR (f AND 0x7FFFFFFFFFFFFFFF)" by (rule word_ao_dist2)
  finally show ?thesis using i s by (simp add: is_infinite_def F64_NEG_INFINITY_def F64_INFINITY_def split: if_splits)
qed

lemma read_float:
  assumes "library_ok L" "is_nan f \<longrightarrow> f = F64_NAN"
  shows "bare (format_float L f)" "read_number L (format_float L f) = Inr (FFloat f)"
proof -
  have "bare (format_float L f) \<and> read_number L (format_float L f) = Inr (FFloat f)"
  proof (cases "is_nan f \<or> is_infinite f")
    case True
    have bare: "bare [110, 97, 110]" "bare [105, 110, 102]" "bare [45, 105, 110, 102]"
      by (simp_all add: bare_def is_delimiter_def is_whitespace_def is_control_def)
    have lits: "read_number L [110, 97, 110] = Inr (FFloat F64_NAN)" "read_number L [105, 110, 102] = Inr (FFloat F64_INFINITY)"
      "read_number L [45, 105, 110, 102] = Inr (FFloat F64_NEG_INFINITY)"
      by (simp_all add: read_number_def classify_def)
    show ?thesis
    proof (cases "is_nan f")
      case True
      then show ?thesis using assms(2) bare lits by (simp add: format_float_def)
    next
      case False
      with True have i: "is_infinite f" by simp
      have f: "format_float L f = (if is_negative f then [45, 105, 110, 102] else [105, 110, 102])"
        using False i by (simp add: format_float_def)
      show ?thesis using infinity_bits [OF i] bare lits unfolding f by (cases "is_negative f") simp_all
    qed
  next
    case False
    let ?t = "f64_text L f"
    have t: "numeric_shape ?t = (True, True)" "parse_f64 L ?t = Some f" using assms(1) False by (simp_all add: library_ok_def)
    then have "format_float L f = ?t" using numeric_chars(3) [of ?t] False by (auto simp: format_float_def Let_def)
    moreover have "bare ?t" using numeric_chars [of ?t] t by (intro bare_number) auto
    ultimately show ?thesis using classify_float [of ?t L f] t by (simp add: read_number_def)
  qed
  then show "bare (format_float L f)" "read_number L (format_float L f) = Inr (FFloat f)" by simp_all
qed

lemma read_decimal:
  assumes "library_ok L"
  shows "bare (decimal_text L x @ [77])" "read_number L (decimal_text L x @ [77]) = Inr (FDecimal x)"
proof -
  let ?t = "decimal_text L x"
  have t: "fst (numeric_shape ?t)" "parse_decimal L ?t = Some x" using assms by (simp_all add: library_ok_def)
  show "bare (?t @ [77])" using numeric_chars [OF t(1)] by (intro bare_number) auto
  show "read_number L (?t @ [77]) = Inr (FDecimal x)" using classify_decimal [OF t] t(2) by (simp add: read_number_def)
qed

lemma read_ratio:
  assumes "library_ok L" "1 < m" "coprime n m"
  shows "bare (int_text n @ 47 # int_text m)" "read_number L (int_text n @ 47 # int_text m) = Inr (FRatio n m)"
proof -
  show "bare (int_text n @ 47 # int_text m)" using int_text_chars [of n] int_text_chars [of m] by (intro bare_number; cases "int_text n") auto
  have "parse_ratio L (int_text n @ 47 # int_text m) = Some (n, m)" "\<And>k. parse_bigint L (int_text k) = Some k"
    using assms by (simp_all add: library_ok_def)
  then show "read_number L (int_text n @ 47 # int_text m) = Inr (FRatio n m)"
    using assms(2) by (simp add: read_number_def classify_ratio_text alloc_ratio_def)
qed

text \<open>A name printed bare is one token; a barred one ends with its bar.\<close>

lemma bare_name:
  assumes "\<not> symbol_needs_bars L name False"
  shows "bare name" "read_number L name = Inr (FSym name)"
  using assms by (auto simp: symbol_needs_bars_def bare_def list_ex_iff read_number_def neq_Nil_conv split: if_splits)

lemma bare_keyword:
  assumes "\<not> symbol_needs_bars L name True"
  shows "bare (58 # name)" "read_number L (58 # name) = Inr (FKeyword name)"
proof -
  have n: "name \<noteq> []" "\<forall>c \<in> set name. \<not> is_delimiter c \<and> c \<noteq> 124 \<and> \<not> is_control c"
    using assms by (auto simp: symbol_needs_bars_def list_ex_iff split: if_splits)
  then have "hd name \<noteq> 124" by (metis hd_in_set)
  then show "bare (58 # name)" using n by (simp add: bare_def is_delimiter_def is_whitespace_def is_control_def)
  show "read_number L (58 # name) = Inr (FKeyword name)" using n(1) by (simp add: read_number_def classify_keyword)
qed

section \<open>One form\<close>

text \<open>A reader reads back a form's text, whatever ends it, and the text opens a form.\<close>

definition reads_back :: "'d library \<Rightarrow> (rtext \<Rightarrow> 'd read_result) \<Rightarrow> nat \<Rightarrow> 'd form \<Rightarrow> bool" where
  "reads_back L rf d x \<longleftrightarrow> opens (write_value L True d x) \<and>
     (\<forall>rest. ends rest \<longrightarrow> rf (write_value L True d x @ rest) = Inr (x, rest))"

lemma capped_shallow: "d \<le> 256 \<Longrightarrow> capped r d s = s"
  by (simp add: capped_def PRINTER_MAX_DEPTH_def READER_MAX_DEPTH_def)

lemma trivia_not [simp]: "\<not> is_trivia_ws 41" "\<not> is_trivia_ws 93" "\<not> is_trivia_ws 125" "\<not> is_trivia_ws 46" "is_trivia_ws 32" "is_trivia_ws 44"
  by (simp_all add: is_trivia_ws_def is_whitespace_def)

lemma skip_opens: "opens s \<Longrightarrow> skip_trivia s = s"
  using opens_skip [of s "[]"] by simp

lemma skip_mark [simp]:
  "skip_trivia (32 # s) = skip_trivia s" "skip_trivia (44 # s) = skip_trivia s" "skip_trivia (41 # s) = 41 # s"
  "skip_trivia (93 # s) = 93 # s" "skip_trivia (125 # s) = 125 # s" "skip_trivia (46 # s) = 46 # s"
  by (simp_all add: skip_trivia.simps)

lemma back_bare:
  assumes "bare (write_value L True d v)" "read_number L (write_value L True d v) = Inr v"
  shows "reads_back L (read_dispatch L deeper) d v"
  using assms bare_opens read_bare by (auto simp: reads_back_def)

lemma back_atom:
  assumes "library_ok L" "\<not> nested v" "readable l v" "d \<le> 256"
  shows "reads_back L (read_dispatch L deeper) d v"
proof (cases v)
  case (FBytes bs)
  have w: "write_value L True d v = 35 # 98 # 34 # concat (map byte_char bs) @ [34]"
    using assms(4) by (simp add: FBytes write_value.simps capped_shallow write_bytes_literal_def)
  have "skip_trivia (35 # s) = 35 # s" for s by (simp add: skip_trivia.simps is_trivia_ws_def is_whitespace_def)
  moreover have "find (\<lambda>c. 255 < c) bs = None" using assms(3) by (force simp: find_None_iff FBytes)
  ultimately show ?thesis using assms(3) scan_bytes_text [of bs "[]"]
    by (auto simp: reads_back_def w [unfolded FBytes] FBytes opens_def is_trivia_ws_def is_whitespace_def read_dispatch_def read_hash_def
        read_bytes_def)
next
  case (FStr s)
  have w: "write_value L True d v = 34 # concat (map string_char s) @ [34]"
    using assms(4) by (simp add: FStr write_value.simps capped_shallow write_string_literal_def)
  have "skip_trivia (34 # s) = 34 # s" for s by (simp add: skip_trivia.simps is_trivia_ws_def is_whitespace_def)
  then show ?thesis using scan_string_text [of "[]" s]
    by (simp add: reads_back_def w [unfolded FStr] FStr opens_def is_trivia_ws_def is_whitespace_def read_dispatch_def read_string_def)
next
  case (FSym s)
  show ?thesis
  proof (cases "symbol_needs_bars L s False")
    case True
    have w: "write_value L True d v = 124 # concat (map (\<lambda>c. if c = 124 \<or> c = 92 then [92, c] else [c]) s) @ [124]"
      using assms(4) True by (simp add: FSym write_value.simps capped_shallow write_symbol_def)
    have "skip_trivia (124 # s) = 124 # s" for s by (simp add: skip_trivia.simps is_trivia_ws_def is_whitespace_def)
    then show ?thesis using scan_bar_text [of "[]" s]
      by (simp add: reads_back_def w [unfolded FSym] FSym opens_def is_trivia_ws_def is_whitespace_def read_dispatch_def read_bar_symbol_def)
  next
    case False
    then have "write_value L True d v = s" using assms(4) by (simp add: FSym write_value.simps capped_shallow write_symbol_def)
    then show ?thesis using bare_name [OF False] by (intro back_bare) (simp_all add: FSym)
  qed
next
  case (FKeyword s)
  show ?thesis
  proof (cases "symbol_needs_bars L s True")
    case True
    have w: "write_value L True d v = 58 # 124 # concat (map (\<lambda>c. if c = 124 \<or> c = 92 then [92, c] else [c]) s) @ [124]"
      using assms(4) True by (simp add: FKeyword write_value.simps capped_shallow write_symbol_def)
    have "skip_trivia (58 # s) = 58 # s" for s by (simp add: skip_trivia.simps is_trivia_ws_def is_whitespace_def)
    then show ?thesis using scan_bar_text [of "[]" s]
      by (simp add: reads_back_def w [unfolded FKeyword] FKeyword opens_def is_trivia_ws_def is_whitespace_def read_dispatch_def read_bar_symbol_def)
  next
    case False
    then have "write_value L True d v = 58 # s" using assms(4) by (simp add: FKeyword write_value.simps capped_shallow write_symbol_def)
    then show ?thesis using bare_keyword [OF False] by (intro back_bare) (simp_all add: FKeyword)
  qed
next
  case FNil
  have "write_value L True d v = [110, 105, 108]" using assms(4) by (simp add: FNil write_value.simps capped_shallow)
  then show ?thesis
    by (intro back_bare) (simp_all add: FNil bare_def is_delimiter_def is_whitespace_def is_control_def read_number_def classify_def)
next
  case (FBool b)
  have "write_value L True d v = (if b then [116, 114, 117, 101] else [102, 97, 108, 115, 101])"
    using assms(4) by (simp add: FBool write_value.simps capped_shallow)
  then show ?thesis
    by (intro back_bare) (simp_all add: FBool bare_def is_delimiter_def is_whitespace_def is_control_def read_number_def classify_def)
next
  case (FInt n)
  then have "write_value L True d v = int_text n" using assms(4) by (simp add: write_value.simps capped_shallow)
  then show ?thesis using int_bare read_int assms(3) by (intro back_bare) (simp_all add: FInt)
next
  case (FBigInt n)
  then have "write_value L True d v = int_text n" using assms(4) by (simp add: write_value.simps capped_shallow)
  then show ?thesis using int_bare read_bigint assms(1,3) by (intro back_bare) (simp_all add: FBigInt)
next
  case (FFloat f)
  then have "write_value L True d v = format_float L f" using assms(4) by (simp add: write_value.simps capped_shallow)
  then show ?thesis using read_float [of L f] assms(1,3) by (intro back_bare) (simp_all add: FFloat)
next
  case (FDecimal x)
  then have "write_value L True d v = decimal_text L x @ [77]" using assms(4) by (simp add: write_value.simps capped_shallow)
  then show ?thesis using read_decimal [OF assms(1), of x] by (intro back_bare) (simp_all add: FDecimal)
next
  case (FRatio n m)
  then have "write_value L True d v = int_text n @ 47 # int_text m" using assms(4) by (simp add: write_value.simps capped_shallow)
  then show ?thesis using read_ratio [OF assms(1), of m n] assms(3) by (intro back_bare) (simp_all add: FRatio)
qed (use assms(2) in simp_all)

section \<open>Loops\<close>

text \<open>The character that opens a form is not one the loops treat specially.\<close>

lemma opens_cases:
  assumes "opens s"
  obtains c cs where "s = c # cs" "c \<notin> {41, 93, 125}" "\<And>rest. skip_trivia (s @ rest) = c # cs @ rest"
    "\<And>rest. \<not> (c = 46 \<and> is_dot_separator (cs @ rest))"
proof -
  obtain c cs where s: "s = c # cs" using assms by (cases s) (auto simp: opens_def)
  have "\<not> (c = 46 \<and> is_dot_separator (cs @ rest))" for rest
    using assms by (cases cs) (auto simp: opens_def s is_dot_separator_def)
  then show ?thesis using that [OF s] assms opens_skip [OF assms] by (auto simp: opens_def s)
qed

lemma ends_mark [simp]: "ends []" "ends (32 # s)" "ends (44 # s)" "ends (41 # s)" "ends (93 # s)" "ends (125 # s)"
  by (simp_all add: ends_def)

lemma items_text:
  "write_items L r d [] = []"
  "write_items L r d (x # xs) = write_value L r (d + 1) x @ (if xs = [] then [] else 32 # write_items L r d xs)"
  by (simp_all add: write_items.simps [of L r d "[]"] write_items.simps [of L r d "x # xs"])

lemma entries_text:
  "write_entries L r d [] = []"
  "write_entries L r d (e # es) = write_value L r (d + 1) (fst e) @ 32 # write_value L r (d + 1) (snd e) @
     (if es = [] then [] else 44 # 32 # write_entries L r d es)"
  by (simp_all add: write_entries.simps [of L r d "[]"] write_entries.simps [of L r d "e # es"] case_prod_unfold)

lemma read_vector_item:
  assumes "reads_back L rf d x" "ends rest"
  shows "read_vector rf (Suc n) items (write_value L True d x @ rest) = read_vector rf n (items @ [x]) rest"
    "read_set rf (Suc n) items (write_value L True d x @ rest) = read_set rf n (items @ [x]) rest"
proof -
  obtain c cs where c: "write_value L True d x = c # cs" "c \<notin> {41, 93, 125}"
    "\<And>rest. skip_trivia (write_value L True d x @ rest) = c # cs @ rest" "\<And>rest. \<not> (c = 46 \<and> is_dot_separator (cs @ rest))"
    using assms(1) opens_cases unfolding reads_back_def by blast
  have "rf (c # cs @ rest) = Inr (x, rest)" using assms c(1) by (simp add: reads_back_def)
  then show "read_vector rf (Suc n) items (write_value L True d x @ rest) = read_vector rf n (items @ [x]) rest"
    "read_set rf (Suc n) items (write_value L True d x @ rest) = read_set rf n (items @ [x]) rest"
    using c(2) c(4) [of rest] by (auto simp: c(3))
qed

lemma read_vector_space: "read_vector rf n items (32 # s) = read_vector rf n items s" "read_set rf n items (32 # s) = read_set rf n items s"
  by (cases n; simp)+

lemma read_items_text:
  assumes "\<forall>x \<in> set xs. reads_back L rf (d + 1) x" "length (write_items L True d xs) < n"
  shows "read_vector rf n items (write_items L True d xs @ 93 # rest) = Inr (FVector (items @ xs), rest) \<and>
    read_set rf n items (write_items L True d xs @ 125 # rest) = Inr (FSet (items @ xs), rest)"
  using assms
proof (induction xs arbitrary: items n)
  case Nil
  then obtain m where "n = Suc m" by (cases n) auto
  then show ?case by (simp add: items_text)
next
  case (Cons x xs)
  obtain m where n: "n = Suc m" using Cons.prems(2) by (cases n) auto
  have r: "reads_back L rf (d + 1) x" using Cons.prems(1) by simp
  then have "write_value L True (d + 1) x \<noteq> []" by (auto simp: reads_back_def opens_def)
  then have "length (write_items L True d xs) < m"
    using Cons.prems(2) by (cases xs; cases "write_value L True (d + 1) x") (auto simp: n items_text)
  then have IH: "read_vector rf m (items @ [x]) (write_items L True d xs @ 93 # rest) = Inr (FVector (items @ x # xs), rest)"
    "read_set rf m (items @ [x]) (write_items L True d xs @ 125 # rest) = Inr (FSet (items @ x # xs), rest)"
    using Cons.IH [of m "items @ [x]"] Cons.prems(1) by simp_all
  show ?case using IH read_vector_item [OF r] by (cases "xs = []") (simp_all add: n items_text read_vector_space)
qed

lemma read_map_entry:
  assumes "reads_back L rf d k" "reads_back L rf d v" "ends rest"
  shows "read_map rf (Suc n) pairs (write_value L True d k @ 32 # write_value L True d v @ rest) = read_map rf n (pairs @ [(k, v)]) rest"
proof -
  obtain c cs where c: "write_value L True d k = c # cs" "c \<notin> {41, 93, 125}"
    "\<And>rest. skip_trivia (write_value L True d k @ rest) = c # cs @ rest" "\<And>rest. \<not> (c = 46 \<and> is_dot_separator (cs @ rest))"
    using assms(1) opens_cases unfolding reads_back_def by blast
  obtain c' cs' where c': "write_value L True d v = c' # cs'" "c' \<notin> {41, 93, 125}"
    "\<And>rest. skip_trivia (write_value L True d v @ rest) = c' # cs' @ rest" "\<And>rest. \<not> (c' = 46 \<and> is_dot_separator (cs' @ rest))"
    using assms(2) opens_cases unfolding reads_back_def by blast
  have "\<And>s. rf (c # cs @ 32 # s) = Inr (k, 32 # s)" using assms(1) c(1) by (simp add: reads_back_def)
  moreover have "rf (c' # cs' @ rest) = Inr (v, rest)" using assms(2,3) c'(1) by (simp add: reads_back_def)
  ultimately show ?thesis using c(2) c(4) [of "32 # write_value L True d v @ rest"] c'(2) c'(4) [of rest] by (auto simp: c(3) c'(3))
qed

lemma read_map_mark: "read_map rf n pairs (44 # 32 # s) = read_map rf n pairs s"
  by (cases n) simp_all

lemma read_entries_text:
  assumes "\<forall>e \<in> set es. reads_back L rf (d + 1) (fst e) \<and> reads_back L rf (d + 1) (snd e)" "length (write_entries L True d es) < n"
  shows "read_map rf n pairs (write_entries L True d es @ 125 # rest) = Inr (FMap (pairs @ es), rest)"
  using assms
proof (induction es arbitrary: pairs n)
  case Nil
  then obtain m where "n = Suc m" by (cases n) auto
  then show ?case by (simp add: entries_text)
next
  case (Cons e es)
  obtain m where n: "n = Suc m" using Cons.prems(2) by (cases n) auto
  have r: "reads_back L rf (d + 1) (fst e)" "reads_back L rf (d + 1) (snd e)" using Cons.prems(1) by simp_all
  have "length (write_entries L True d es) < m" using Cons.prems(2) by (cases es) (auto simp: n entries_text)
  then have "read_map rf m (pairs @ [e]) (write_entries L True d es @ 125 # rest) = Inr (FMap (pairs @ e # es), rest)"
    using Cons.IH [of m "pairs @ [e]"] Cons.prems(1) by simp
  then show ?case using read_map_entry [OF r] by (cases "es = []") (simp_all add: n entries_text read_map_mark)
qed

section \<open>Nested forms\<close>

lemma read_form_eq: "read_form L l = read_dispatch L (case l of 0 \<Rightarrow> None | Suc k \<Rightarrow> Some (read_form L k))"
  by (cases l) (simp_all add: fun_eq_iff)

definition value_reads :: "'d library \<Rightarrow> 'd form \<Rightarrow> bool" where
  "value_reads L v \<longleftrightarrow> (\<forall>l d. readable l v \<longrightarrow> d + l \<le> 256 \<longrightarrow> reads_back L (read_form L l) d v)"

definition tail_ok :: "nat \<Rightarrow> 'd form \<Rightarrow> bool" where
  "tail_ok l t \<longleftrightarrow> (case t of FPair _ _ \<Rightarrow> readable (l + 1) t | _ \<Rightarrow> readable l t)"

definition tail_reads :: "'d library \<Rightarrow> 'd form \<Rightarrow> bool" where
  "tail_reads L t \<longleftrightarrow> (\<forall>l d items n rest. tail_ok l t \<longrightarrow> d + 1 + l \<le> 256 \<longrightarrow> items \<noteq> [] \<longrightarrow>
     length (write_tail L True d t) < n \<longrightarrow>
     read_seq (read_form L l) n items (write_tail L True d t @ rest) = Inr (list_with_tail items t, rest))"

lemma pair_readable: "readable l (FPair h t) \<longleftrightarrow> 0 < l \<and> readable (l - 1) h \<and> tail_ok (l - 1) t"
  by (cases l; cases t) (auto simp: tail_ok_def)

lemma tail_text:
  "write_tail L r d (FPair h t) = 32 # write_value L r (d + 1) h @ write_tail L r d t" "write_tail L r d FNil = [41]"
  "\<not> (\<exists>h t. v = FPair h t) \<Longrightarrow> v \<noteq> FNil \<Longrightarrow> write_tail L r d v = 32 # 46 # 32 # write_value L r (d + 1) v @ [41]"
  by (simp_all add: write_tail.simps [of L r d "FPair h t"] write_tail.simps [of L r d FNil])
    (subst write_tail.simps, simp split: form.split)

lemma tail_ends: "ends (write_tail L r d t @ rest)"
  by (cases t) (simp_all add: tail_text)

lemma read_seq_item:
  assumes "reads_back L rf d x" "ends rest"
  shows "read_seq rf (Suc n) items (write_value L True d x @ rest) = read_seq rf n (items @ [x]) rest"
proof -
  obtain c cs where c: "write_value L True d x = c # cs" "c \<notin> {41, 93, 125}"
    "\<And>rest. skip_trivia (write_value L True d x @ rest) = c # cs @ rest" "\<And>rest. \<not> (c = 46 \<and> is_dot_separator (cs @ rest))"
    using assms(1) opens_cases unfolding reads_back_def by blast
  have "rf (c # cs @ rest) = Inr (x, rest)" using assms c(1) by (simp add: reads_back_def)
  then show ?thesis using c(2) c(4) [of rest] by (auto simp: c(3))
qed

lemma read_seq_space: "read_seq rf n items (32 # s) = read_seq rf n items s"
  by (cases n) simp_all

lemma read_seq_dotted:
  assumes "skip_trivia s = c # cs" "c \<noteq> 41" "rf (c # cs) = Inr (t, 41 # rest)" "items \<noteq> []"
  shows "read_seq rf (Suc n) items (32 # 46 # 32 # s) = Inr (list_with_tail items t, rest)"
proof -
  have "is_dot_separator (32 # s)" by (simp add: is_dot_separator_def is_delimiter_def is_whitespace_def)
  then show ?thesis using assms by simp
qed

lemma tail_reads_atom:
  assumes "value_reads L v" "\<not> (\<exists>h t. v = FPair h t)"
  shows "tail_reads L v"
proof (unfold tail_reads_def, intro allI impI)
  fix l d n and items :: "'a form list" and rest
  assume a: "tail_ok l v" "d + 1 + l \<le> 256" "items \<noteq> []" "length (write_tail L True d v) < n"
  obtain m where n: "n = Suc m" using a(4) by (cases n) auto
  show "read_seq (read_form L l) n items (write_tail L True d v @ rest) = Inr (list_with_tail items v, rest)"
  proof (cases "v = FNil")
    case False
    have "readable l v" using a(1) assms(2) by (cases v) (auto simp: tail_ok_def)
    then have r: "reads_back L (read_form L l) (d + 1) v" using assms(1) a(2) by (simp add: value_reads_def)
    then have "opens (write_value L True (d + 1) v)" by (simp add: reads_back_def)
    from opens_cases [OF this] obtain c cs where c: "write_value L True (d + 1) v = c # cs" "c \<notin> {41, 93, 125}"
      "\<And>rest. skip_trivia (write_value L True (d + 1) v @ rest) = c # cs @ rest" by metis
    have e: "ends (41 # rest)" by (simp add: is_delimiter_def is_whitespace_def)
    have rf: "read_form L l (c # cs @ 41 # rest) = Inr (v, 41 # rest)"
      using r e unfolding reads_back_def c(1) append_Cons by blast
    have c41: "c \<noteq> 41" using c(2) by simp
    have w: "write_tail L True d v @ rest = 32 # 46 # 32 # (write_value L True (d + 1) v @ 41 # rest)"
      unfolding tail_text(3) [OF assms(2) False] by simp
    show ?thesis unfolding w n by (rule read_seq_dotted [where rf = "read_form L l", OF c(3) [of "41 # rest"] c41 rf a(3)])
  qed (simp add: n tail_text)
qed

lemma read_pair_step:
  assumes "value_reads L h" "tail_reads L t" "readable l h" "tail_ok l t" "d + 1 + l \<le> 256"
    "length (write_value L True (d + 1) h @ write_tail L True d t) < n"
  shows "read_seq (read_form L l) n items (write_value L True (d + 1) h @ write_tail L True d t @ rest) =
    Inr (list_with_tail items (FPair h t), rest)"
proof -
  have r: "reads_back L (read_form L l) (d + 1) h" using assms(1,3,5) by (simp add: value_reads_def)
  then have "write_value L True (d + 1) h \<noteq> []" by (auto simp: reads_back_def opens_def)
  then obtain m where m: "n = Suc m" "length (write_tail L True d t) < m"
    using assms(6) by (cases n; cases "write_value L True (d + 1) h") auto
  have "read_seq (read_form L l) m (items @ [h]) (write_tail L True d t @ rest) = Inr (list_with_tail (items @ [h]) t, rest)"
    using assms(2,4,5) m(2) unfolding tail_reads_def by blast
  then show ?thesis unfolding m(1) read_seq_item [OF r tail_ends] by (simp add: list_with_tail_def)
qed

lemma dispatch_open:
  "read_dispatch L (Some rf) (40 # cs) = read_seq rf (length cs + 1) [] cs"
  "read_dispatch L (Some rf) (91 # cs) = read_vector rf (length cs + 1) [] cs"
  "read_dispatch L (Some rf) (123 # cs) = read_map rf (length cs + 1) [] cs"
  "read_dispatch L (Some rf) (35 # 123 # cs) = read_set rf (length cs + 1) [] cs"
  by (simp_all del: read_seq.simps read_vector.simps read_map.simps read_set.simps add: read_dispatch_def read_hash_def
      enter_def fuel_def skip_trivia.simps is_trivia_ws_def is_whitespace_def)

lemma back_open:
  assumes "write_value L True d v = c # body" "c \<in> {40, 91, 123, 35}"
    "\<And>rest. read_dispatch L (Some (read_form L k)) (c # body @ rest) = Inr (v, rest)"
  shows "reads_back L (read_form L (Suc k)) d v"
  using assms by (auto simp: reads_back_def opens_def is_trivia_ws_def is_whitespace_def)

lemma back_pair:
  assumes "value_reads L h" "tail_reads L t"
  shows "value_reads L (FPair h t)" "tail_reads L (FPair h t)"
proof -
  show "value_reads L (FPair h t)"
  proof (unfold value_reads_def, intro allI impI)
    fix l d assume a: "readable l (FPair h t)" "d + l \<le> 256"
    then obtain k where k: "l = Suc k" by (cases l) auto
    have h: "readable k h" "tail_ok k t" using a(1) unfolding pair_readable k by simp_all
    have w: "write_value L True d (FPair h t) = 40 # write_value L True (d + 1) h @ write_tail L True d t"
      using a(2) by (simp add: write_value.simps [of L True d "FPair h t"] capped_shallow)
    show "reads_back L (read_form L l) d (FPair h t)" unfolding k
    proof (rule back_open [OF w])
      fix rest
      have "read_seq (read_form L k) n [] (write_value L True (d + 1) h @ write_tail L True d t @ rest) =
          Inr (list_with_tail [] (FPair h t), rest)" if "length (write_value L True (d + 1) h @ write_tail L True d t) < n" for n
        by (rule read_pair_step [OF assms h _ that]) (use a(2) k in simp)
      then show "read_dispatch L (Some (read_form L k)) (40 # (write_value L True (d + 1) h @ write_tail L True d t) @ rest) =
          Inr (FPair h t, rest)"
        unfolding dispatch_open by (simp add: list_with_tail_def del: read_seq.simps)
    qed simp
  qed
  show "tail_reads L (FPair h t)"
  proof (unfold tail_reads_def, intro allI impI)
    fix l d n and items :: "'a form list" and rest
    assume a: "tail_ok l (FPair h t)" "d + 1 + l \<le> 256" "length (write_tail L True d (FPair h t)) < n"
    from a(1) have "readable (l + 1) (FPair h t)" by (simp add: tail_ok_def del: readable.simps)
    then have "readable l h" "tail_ok l t" unfolding pair_readable by simp_all
    from read_pair_step [OF assms this a(2), of n items rest] a(3)
    show "read_seq (read_form L l) n items (write_tail L True d (FPair h t) @ rest) = Inr (list_with_tail items (FPair h t), rest)"
      by (simp add: tail_text read_seq_space)
  qed
qed

lemma back_items:
  assumes "\<And>x. x \<in> set xs \<Longrightarrow> value_reads L x"
  shows "value_reads L (FVector xs)" "value_reads L (FSet xs)"
proof -
  have r: "\<forall>x \<in> set xs. reads_back L (read_form L k) (d + 1) x" if "\<forall>x \<in> set xs. readable k x" "d + 1 + k \<le> 256" for k d
    using assms that by (simp add: value_reads_def)
  show "value_reads L (FVector xs)"
  proof (unfold value_reads_def, intro allI impI)
    fix l d assume a: "readable l (FVector xs)" "d + l \<le> 256"
    then obtain k where k: "l = Suc k" "\<forall>x \<in> set xs. readable k x" by (cases l) auto
    have w: "write_value L True d (FVector xs) = 91 # write_items L True d xs @ [93]"
      using a(2) by (simp add: write_value.simps [of L True d "FVector xs"] capped_shallow)
    have "\<forall>x \<in> set xs. reads_back L (read_form L k) (d + 1) x" by (rule r) (use k a(2) in auto)
    from read_items_text [OF this, of _ "[]"] show "reads_back L (read_form L l) d (FVector xs)" unfolding k(1)
      by (intro back_open [OF w]) (simp_all add: dispatch_open del: read_vector.simps)
  qed
  show "value_reads L (FSet xs)"
  proof (unfold value_reads_def, intro allI impI)
    fix l d assume a: "readable l (FSet xs)" "d + l \<le> 256"
    then obtain k where k: "l = Suc k" "\<forall>x \<in> set xs. readable k x" by (cases l) auto
    have w: "write_value L True d (FSet xs) = 35 # (123 # write_items L True d xs @ [125])"
      using a(2) by (simp add: write_value.simps [of L True d "FSet xs"] capped_shallow)
    have "\<forall>x \<in> set xs. reads_back L (read_form L k) (d + 1) x" by (rule r) (use k a(2) in auto)
    from read_items_text [OF this, of _ "[]"] show "reads_back L (read_form L l) d (FSet xs)" unfolding k(1)
      by (intro back_open [OF w]) (simp_all add: dispatch_open del: read_set.simps)
  qed
qed

lemma back_entries:
  assumes "\<And>e. e \<in> set es \<Longrightarrow> value_reads L (fst e) \<and> value_reads L (snd e)"
  shows "value_reads L (FMap es)"
proof (unfold value_reads_def, intro allI impI)
  fix l d assume a: "readable l (FMap es)" "d + l \<le> 256"
  then obtain k where k: "l = Suc k" "\<forall>e \<in> set es. readable k (fst e) \<and> readable k (snd e)" by (cases l) auto
  have w: "write_value L True d (FMap es) = 123 # write_entries L True d es @ [125]"
    using a(2) by (simp add: write_value.simps [of L True d "FMap es"] capped_shallow)
  have "\<forall>e \<in> set es. reads_back L (read_form L k) (d + 1) (fst e) \<and> reads_back L (read_form L k) (d + 1) (snd e)"
    using assms k a(2) by (simp add: value_reads_def)
  from read_entries_text [OF this, of _ "[]"] show "reads_back L (read_form L l) d (FMap es)" unfolding k(1)
    by (intro back_open [OF w]) (simp_all add: dispatch_open del: read_map.simps)
qed

lemma atom_reads:
  assumes "library_ok L" "\<not> nested v"
  shows "value_reads L v" "tail_reads L v"
proof -
  show "value_reads L v" using assms back_atom read_form_eq [of L] by (fastforce simp: value_reads_def)
  then show "tail_reads L v" using assms(2) by (intro tail_reads_atom) auto
qed

lemma back_form: "library_ok L \<Longrightarrow> value_reads L v \<and> tail_reads L v"
proof (induction v)
  case (FPair h t)
  then show ?case using back_pair by blast
next
  case (FVector xs)
  then have "value_reads L (FVector xs)" by (intro back_items) blast
  then show ?case using tail_reads_atom by blast
next
  case (FSet xs)
  then have "value_reads L (FSet xs)" by (intro back_items) blast
  then show ?case using tail_reads_atom by blast
next
  case (FMap es)
  then have "value_reads L (FMap es)" by (intro back_entries) (metis fsts.intros prod.exhaust_sel snds.intros)
  then show ?case using tail_reads_atom by blast
qed (simp_all add: atom_reads)

end
