(* ===== verification/Read_Laws.thy ===== *)
theory Read_Laws
  imports Read_Print
begin

text \<open>
  What the reader guarantees: printed forms read back, reading any text ends, an unfinished text is told from
  a wrong one (but where it ends after a key, within bars or at a lone \<open>#\<close>), and a token a digit leads is never a name.
\<close>

section \<open>Reading ends\<close>

text \<open>A result that is not lack of fuel and leaves less than some length of the input.\<close>

definition leaves :: "nat \<Rightarrow> 'd read_result \<Rightarrow> bool" where
  "leaves n r \<longleftrightarrow> (case r of Inl e \<Rightarrow> e \<noteq> OutOfFuel | Inr (v, rest) \<Rightarrow> length rest < n)"

definition shrinks :: "(rtext \<Rightarrow> 'd read_result) \<Rightarrow> bool" where
  "shrinks rf \<longleftrightarrow> (\<forall>cs. leaves (length cs) (rf cs))"

lemma leaves_simps [simp]:
  "leaves n (Inl e) \<longleftrightarrow> e \<noteq> OutOfFuel" "leaves n (Inr (v, rest)) \<longleftrightarrow> length rest < n"
  by (simp_all add: leaves_def)

lemma leaves_mono: "leaves m r \<Longrightarrow> m \<le> n \<Longrightarrow> leaves n r"
  by (auto simp: leaves_def split: sum.splits)

lemma skip_trivia_le: "length (skip_trivia cs) \<le> length cs"
proof (induction cs rule: measure_induct_rule [where f = length])
  case (less cs)
  show ?case
  proof (cases cs)
    case (Cons c rest)
    have "length (skip_trivia rest) \<le> length rest" using less [of rest] by (simp add: Cons)
    moreover have "length (skip_line_comment rest) \<le> length rest" by (rule skip_line_comment_le)
    moreover have "length (skip_trivia (skip_line_comment rest)) \<le> length (skip_line_comment rest)"
      using less [of "skip_line_comment rest"] skip_line_comment_le [of rest] by (simp add: Cons)
    moreover have "skip_line_comment (c # rest) = skip_line_comment rest" if "c = 59" using that by simp
    ultimately show ?thesis unfolding Cons skip_trivia.simps(2) [of c rest] by (cases "is_trivia_ws c"; cases "c = 59") simp_all
  qed (simp add: skip_trivia.simps)
qed

lemma skip_trivia_head: "skip_trivia cs = c # rest \<Longrightarrow> \<not> is_trivia_ws c \<and> c \<noteq> 59"
proof (induction cs rule: measure_induct_rule [where f = length])
  case (less cs)
  show ?case
  proof (cases cs)
    case (Cons d ds)
    have "length ds < length cs" "length (skip_line_comment ds) < length cs" using skip_line_comment_le [of ds] by (simp_all add: Cons)
    note IH = less.IH [OF this(1)] less.IH [OF this(2)]
    have "skip_line_comment (d # ds) = skip_line_comment ds" if "d = 59" using that by simp
    then show ?thesis using IH less.prems unfolding Cons skip_trivia.simps(2) [of d ds]
      by (cases "is_trivia_ws d"; cases "d = 59") (simp_all del: skip_line_comment.simps)
  qed (use less.prems in \<open>simp add: skip_trivia.simps\<close>)
qed

lemma scan_bar_le: "length (snd (snd (scan_bar_body out cs))) \<le> length cs"
proof (induction out cs rule: scan_bar_body.induct)
  case (2 out c cs)
  then show ?case by (cases "c = 124"; cases "c = 92"; cases cs) (simp_all add: le_SucI)
qed simp

lemma scan_string_le: "length (snd (snd (scan_string_body bad out cs))) \<le> length cs"
proof (induction bad out cs rule: scan_string_body.induct)
  case (2 bad out c cs)
  show ?case
  proof (cases "c = 92")
    case True
    show ?thesis
    proof (cases cs)
      case (Cons escaped rest)
      obtain d rest' where e: "escape escaped rest = (d, rest')" by fastforce
      have "length rest' \<le> length rest" using escape_le [OF e [symmetric]] .
      then show ?thesis using 2(1,2) [OF _ _ Cons] e True
        by (cases d) (fastforce simp: Cons scan_string_body.simps)+
    qed (simp add: True scan_string_body.simps)
  next
    case False
    then show ?thesis using 2(3) by (auto simp: scan_string_body.simps)
  qed
qed (simp add: scan_string_body.simps)

lemma shrinksD: "shrinks rf \<Longrightarrow> rf cs = Inl e \<Longrightarrow> e \<noteq> OutOfFuel" "shrinks rf \<Longrightarrow> rf cs = Inr (v, rest) \<Longrightarrow> length rest < length cs"
  unfolding shrinks_def by (metis leaves_simps(1), metis leaves_simps(2))

lemma skipped: "skip_trivia cs = c # rest \<Longrightarrow> length rest < length cs"
  using skip_trivia_le [of cs] by simp

text \<open>Reading one form inside a loop, and going on with what it leaves.\<close>

lemma form_then:
  assumes "shrinks rf" "skip_trivia cs = c # rest" "\<And>v rest'. length rest' < length cs \<Longrightarrow> leaves n (f v rest')"
  shows "leaves n (case rf (c # rest) of Inl e \<Rightarrow> Inl e | Inr (v, rest) \<Rightarrow> f v rest)"
proof (cases "rf (c # rest)")
  case (Inl e)
  then show ?thesis using shrinksD(1) [OF assms(1) Inl] by simp
next
  case (Inr r)
  then obtain v rest' where r: "rf (c # rest) = Inr (v, rest')" by (cases r) auto
  then show ?thesis using assms(3) [of rest' v] shrinksD(2) [OF assms(1) r] skipped [OF assms(2)] by simp
qed

lemma loops_leave:
  assumes "shrinks rf" "length cs < n"
  shows "leaves (length cs + 1) (read_vector rf n items cs)" "leaves (length cs + 1) (read_set rf n items cs)"
    "leaves (length cs + 1) (read_seq rf n items cs)" "leaves (length cs + 1) (read_map rf n pairs cs)"
proof -
  show "leaves (length cs + 1) (read_vector rf n items cs)" using assms(2)
  proof (induction n arbitrary: items cs)
    case (Suc n)
    have go_on: "leaves (length cs + 1) (read_vector rf n (items @ [v]) rest)" if "length rest < length cs" for v rest
      using Suc.IH [of rest "items @ [v]"] Suc.prems that by (auto elim: leaves_mono)
    show ?case
    proof (cases "skip_trivia cs")
      case (Cons c rest)
      show ?thesis using form_then [OF assms(1) Cons go_on] skipped [OF Cons] unfolding read_vector.simps(2) Cons list.case by simp
    qed simp
  qed simp
  show "leaves (length cs + 1) (read_set rf n items cs)" using assms(2)
  proof (induction n arbitrary: items cs)
    case (Suc n)
    have go_on: "leaves (length cs + 1) (read_set rf n (items @ [v]) rest)" if "length rest < length cs" for v rest
      using Suc.IH [of rest "items @ [v]"] Suc.prems that by (auto elim: leaves_mono)
    show ?case
    proof (cases "skip_trivia cs")
      case (Cons c rest)
      show ?thesis using form_then [OF assms(1) Cons go_on] skipped [OF Cons] unfolding read_set.simps(2) Cons list.case by simp
    qed simp
  qed simp
  have close: "leaves (length cs + 1) (case skip_trivia rest of [] \<Rightarrow> Inl UnclosedList
      | c # rest \<Rightarrow> if c = ch CHR '')'' then Inr (list_with_tail items t, rest) else Inl DotFollowed)"
    if "length rest < length cs" for cs :: rtext and rest items and t :: "'a form"
    using that by (cases "skip_trivia rest") (auto dest: skipped)
  have dotted: "leaves (length cs + 1) (case skip_trivia after of [] \<Rightarrow> Inl UnclosedAfterDot
      | c' # rest' \<Rightarrow> if c' = ch CHR '')'' then Inl DotWithoutForm
          else (case rf (c' # rest') of Inl e \<Rightarrow> Inl e
            | Inr (tail, rest) \<Rightarrow> (case skip_trivia rest of [] \<Rightarrow> Inl UnclosedList
                | c # rest \<Rightarrow> if c = ch CHR '')'' then Inr (list_with_tail items tail, rest) else Inl DotFollowed)))"
    if "length after < length cs" for cs after :: rtext and items :: "'a form list"
  proof (cases "skip_trivia after")
    case (Cons c' rest')
    have "leaves (length cs + 1) (case rf (c' # rest') of Inl e \<Rightarrow> Inl e
        | Inr (tail, rest) \<Rightarrow> (case skip_trivia rest of [] \<Rightarrow> Inl UnclosedList
            | c # rest \<Rightarrow> if c = ch CHR '')'' then Inr (list_with_tail items tail, rest) else Inl DotFollowed))"
      by (rule form_then [OF assms(1) Cons]) (rule close, use that in linarith)
    then show ?thesis by (simp add: Cons)
  qed simp
  show "leaves (length cs + 1) (read_seq rf n items cs)" using assms(2)
  proof (induction n arbitrary: items cs)
    case (Suc n)
    have go_on: "leaves (length cs + 1) (read_seq rf n (items @ [v]) rest)" if "length rest < length cs" for v rest
      using Suc.IH [of rest "items @ [v]"] Suc.prems that by (auto elim: leaves_mono)
    show ?case
    proof (cases "skip_trivia cs")
      case (Cons c rest)
      note s = skipped [OF Cons]
      show ?thesis using form_then [OF assms(1) Cons go_on] dotted [OF s] s unfolding read_seq.simps(2) Cons list.case
        by (simp split del: if_split) (simp split: if_split)
    qed simp
  qed simp
  show "leaves (length cs + 1) (read_map rf n pairs cs)" using assms(2)
  proof (induction n arbitrary: pairs cs)
    case (Suc n)
    have go_on: "leaves (length cs + 1) (read_map rf n (pairs @ [(k, v)]) rest)" if "length rest < length cs" for k v rest
      using Suc.IH [of rest "pairs @ [(k, v)]"] Suc.prems that by (auto elim: leaves_mono)
    have entry: "leaves (length cs + 1) (case skip_trivia rest of [] \<Rightarrow> Inl OddMap
        | c # rest \<Rightarrow> (if c = ch CHR ''}'' then Inl OddMap
            else if c = ch CHR ''.'' \<and> is_dot_separator rest then Inl DotInLiteral
            else (case rf (c # rest) of Inl e \<Rightarrow> Inl e | Inr (v, rest) \<Rightarrow> read_map rf n (pairs @ [(key, v)]) rest)))"
      if "length rest < length cs" for key rest
    proof (cases "skip_trivia rest")
      case (Cons c rest')
      have "leaves (length cs + 1) (case rf (c # rest') of Inl e \<Rightarrow> Inl e | Inr (v, rest) \<Rightarrow> read_map rf n (pairs @ [(key, v)]) rest)"
        using form_then [OF assms(1) Cons go_on] that by auto
      then show ?thesis by (simp add: Cons)
    qed simp
    show ?case
    proof (cases "skip_trivia cs")
      case (Cons c rest)
      note s = skipped [OF Cons]
      show ?thesis using form_then [OF assms(1) Cons entry] s unfolding read_map.simps(2) Cons list.case by simp
    qed simp
  qed simp
qed

lemma wrapped_leaves: "shrinks rf \<Longrightarrow> leaves (length cs) (read_wrapped rf tag cs)"
  using shrinksD [of rf cs] by (auto simp: read_wrapped_def split: sum.split)

lemma bar_leaves: "leaves (length cs + 1) (read_bar_symbol k cs)"
  using scan_bar_le [of "[]" cs] by (auto simp: read_bar_symbol_def split: bar_scan.split prod.split)

lemma string_leaves: "leaves (length cs + 1) (read_string cs)" "leaves (length cs + 1) (read_bytes cs)"
  using scan_string_le [of None "[]" cs]
  by (auto simp: read_string_def read_bytes_def split: string_scan.split prod.split option.split)

lemma number_not_fuel: "read_number L t \<noteq> Inl OutOfFuel"
  by (simp add: read_number_def split: atom_kind.split option.split)

lemma token_leaves:
  assumes "\<not> is_delimiter c"
  shows "leaves (length (c # cs)) (read_token L (c # cs))"
proof -
  obtain token rest where t: "read_atom (c # cs) = (token, rest)" by fastforce
  have "length rest < length (c # cs)" using t assms length_dropWhile_le [of "\<lambda>c. \<not> is_delimiter c" cs] by (auto simp: read_atom_def)
  then show ?thesis using number_not_fuel [of L token] by (auto simp: read_token_def t split: option.split sum.split)
qed

lemma enter_leaves:
  assumes "\<And>rf. deeper = Some rf \<Longrightarrow> leaves n (f rf)"
  shows "leaves n (enter deeper f)"
  using assms by (simp add: enter_def split: option.split)

lemma hash_leaves:
  assumes "\<And>rf. deeper = Some rf \<Longrightarrow> shrinks rf"
  shows "leaves (length cs + 1) (read_hash deeper cs)"
proof -
  have "leaves (length cs + 1) (read_bytes (drop 2 cs))" using string_leaves(2) [of "drop 2 cs"] by (rule leaves_mono) simp
  moreover have "leaves (length cs + 1) (enter deeper (\<lambda>rf. read_set rf (fuel rest) [] rest))" if "cs = c # rest" for c rest
  proof (rule enter_leaves)
    fix rf assume "deeper = Some rf"
    from loops_leave(2) [OF assms [OF this], of rest "fuel rest"] have "leaves (length rest + 1) (read_set rf (fuel rest) [] rest)"
      by (simp add: fuel_def del: read_set.simps)
    then show "leaves (length cs + 1) (read_set rf (fuel rest) [] rest)" using that by (elim leaves_mono) simp
  qed
  ultimately show ?thesis by (auto simp: read_hash_def split: list.split)
qed

lemma dispatch_shrinks:
  assumes "\<And>rf. deeper = Some rf \<Longrightarrow> shrinks rf"
  shows "shrinks (read_dispatch L deeper)"
proof (unfold shrinks_def, intro allI)
  fix cs
  show "leaves (length cs) (read_dispatch L deeper cs)"
  proof (cases "skip_trivia cs")
    case (Cons c rest)
    have s: "length rest < length cs" by (rule skipped [OF Cons])
    have up: "leaves (length rest + 1) r \<Longrightarrow> leaves (length cs) r" for r :: "'a read_result" using s by (auto elim: leaves_mono)
    have loops: "leaves (length cs) (enter deeper (\<lambda>rf. read_seq rf (fuel rest) [] rest))"
      "leaves (length cs) (enter deeper (\<lambda>rf. read_vector rf (fuel rest) [] rest))"
      "leaves (length cs) (enter deeper (\<lambda>rf. read_map rf (fuel rest) [] rest))"
      by (intro enter_leaves up loops_leave assms; simp add: fuel_def)+
    have wrapped: "leaves (length cs) (enter deeper (\<lambda>rf. read_wrapped rf tag rest))"
      "leaves (length cs) (enter deeper (\<lambda>rf. if p then read_wrapped rf tag' (tl rest) else read_wrapped rf tag rest))" for tag tag' p
    proof -
      have w: "leaves (length cs) (read_wrapped rf t r)" if "deeper = Some rf" "length r \<le> length rest" for rf t r
        by (rule leaves_mono [OF wrapped_leaves [OF assms [OF that(1)]]]) (use that(2) s in simp)
      show "leaves (length cs) (enter deeper (\<lambda>rf. read_wrapped rf tag rest))" using w by (intro enter_leaves) simp
      show "leaves (length cs) (enter deeper (\<lambda>rf. if p then read_wrapped rf tag' (tl rest) else read_wrapped rf tag rest))"
        using w by (intro enter_leaves) simp
    qed
    have bars: "leaves (length cs) (read_bar_symbol False rest)" "leaves (length cs) (read_bar_symbol True (tl rest))"
      using bar_leaves [of rest False] bar_leaves [of "tl rest" True] s by (auto elim!: leaves_mono)
    have token: "leaves (length cs) (read_token L (c # rest))"
      if "c \<notin> {40, 41, 91, 93, 123, 125, 34, 59, 39, 96, 126, 44}" "\<not> is_trivia_ws c"
    proof -
      have "\<not> is_delimiter c" using that by (auto simp: is_delimiter_def is_trivia_ws_def)
      then show ?thesis using token_leaves [of c rest L] s by (auto elim!: leaves_mono)
    qed
    have c: "\<not> is_trivia_ws c" "c \<noteq> 59" using skip_trivia_head [OF Cons] by simp_all
    then have "c \<noteq> 44" by auto
    then show ?thesis using loops wrapped bars up [OF string_leaves(1)] up [OF hash_leaves [OF assms]] token c
      unfolding read_dispatch_def Cons list.case by simp (use bars in blast)
  qed (simp add: read_dispatch_def)
qed

lemma form_shrinks: "shrinks (read_form L l)"
proof (induction l)
  case 0
  have "read_form L 0 = read_dispatch L None" by (simp add: fun_eq_iff)
  then show ?case using dispatch_shrinks [of None L] by simp
next
  case (Suc l)
  have "read_form L (Suc l) = read_dispatch L (Some (read_form L l))" by (simp add: fun_eq_iff)
  then show ?case using dispatch_shrinks [of "Some (read_form L l)" L] Suc by simp
qed

lemma all_ends: "length cs < n \<Longrightarrow> read_all_loop L n forms cs \<noteq> Inl OutOfFuel"
proof (induction n arbitrary: forms cs)
  case (Suc n)
  show ?case
  proof (cases "skip_trivia cs")
    case (Cons c rest)
    show ?thesis
    proof (cases "read_form L READER_MAX_DEPTH (c # rest)")
      case (Inl e)
      then show ?thesis using shrinksD(1) [OF form_shrinks Inl] by (simp add: Cons)
    next
      case (Inr r)
      then obtain v rest' where r: "read_form L READER_MAX_DEPTH (c # rest) = Inr (v, rest')" by (cases r) auto
      have "length rest' < n" using shrinksD(2) [OF form_shrinks r] skipped [OF Cons] Suc.prems by simp
      then show ?thesis using Suc.IH by (simp add: Cons r)
    qed
  qed simp
qed simp

text \<open>
  C11: reading ends. On any text whatever, a form, a complete form and a whole source are read or refused with the
  input's length of fuel, every form taking at least one character.
\<close>

theorem reader_ends:
  "read_one L src \<noteq> Inl OutOfFuel \<and> read_one_complete L src \<noteq> Inl OutOfFuel \<and> read_all L src \<noteq> Inl OutOfFuel"
proof -
  have f: "read_form L l cs \<noteq> Inl OutOfFuel" for l cs using shrinksD(1) [OF form_shrinks] by blast
  have "read_all L src \<noteq> Inl OutOfFuel" unfolding read_all_def Let_def by (rule all_ends) simp
  then show ?thesis using f by (auto simp: read_one_def read_one_complete_def Let_def split: sum.split)
qed

section \<open>Printed forms read back\<close>

lemma back_skip: "reads_back L rf d v \<Longrightarrow> skip_trivia (write_value L True d v @ rest) = write_value L True d v @ rest \<and> write_value L True d v \<noteq> []"
  using opens_skip by (auto simp: reads_back_def opens_def)

lemma back_no_shebang:
  assumes "reads_back L (read_dispatch L deeper) d v"
  shows "take 2 (write_value L True d v @ 10 # s) \<noteq> [35, 33]"
proof
  let ?w = "write_value L True d v"
  assume t: "take 2 (?w @ 10 # s) = [35, 33]"
  have n: "skip_trivia ?w = ?w" "?w \<noteq> []" using back_skip [OF assms, of "[]"] by simp_all
  have r: "read_dispatch L deeper ?w = Inr (v, [])" using assms unfolding reads_back_def by (metis append_Nil2 ends_mark(1))
  show False
  proof (cases ?w)
    case (Cons c cs)
    then have c: "c = 35" "cs = [] \<or> hd cs = 33" using t by (cases cs; simp)+
    have "read_dispatch L deeper ?w = read_hash deeper cs" using n Cons c(1) by (simp add: read_dispatch_def)
    then show False using r c(2) by (cases cs) (auto simp: read_hash_def)
  qed (use n in simp)
qed

lemma all_newline: "read_all_loop L n forms (10 # s) = read_all_loop L n forms s"
proof -
  have "skip_trivia (10 # s) = skip_trivia s" by (simp add: skip_trivia.simps is_trivia_ws_def is_whitespace_def)
  then show ?thesis by (cases n) simp_all
qed

lemma read_all_lines:
  assumes "\<forall>v \<in> set vs. reads_back L (read_form L READER_MAX_DEPTH) 0 v" "length vs < n"
  shows "read_all_loop L n forms (concat (map (\<lambda>v. print L v @ [10]) vs)) = Inr (forms @ vs)"
  using assms
proof (induction vs arbitrary: n forms)
  case Nil
  then obtain m where "n = Suc m" by (cases n) auto
  then show ?case by (simp add: skip_trivia.simps)
next
  case (Cons v vs)
  obtain m where n: "n = Suc m" using Cons.prems(2) by (cases n) auto
  let ?more = "10 # concat (map (\<lambda>v. print L v @ [10]) vs)"
  have v: "reads_back L (read_form L READER_MAX_DEPTH) 0 v" using Cons.prems(1) by simp
  have "ends ?more" by (simp add: ends_def is_delimiter_def is_whitespace_def)
  then have "read_form L READER_MAX_DEPTH (print L v @ ?more) = Inr (v, ?more)" using v by (simp add: reads_back_def print_def)
  moreover have "skip_trivia (print L v @ ?more) = print L v @ ?more" "print L v \<noteq> []" using back_skip [OF v] by (simp_all add: print_def)
  ultimately show ?case using Cons.IH [of m "forms @ [v]"] Cons.prems by (simp add: n all_newline)
qed

lemma form_reads: "library_ok L \<Longrightarrow> readable READER_MAX_DEPTH w \<Longrightarrow> reads_back L (read_form L READER_MAX_DEPTH) 0 w"
  using back_form unfolding value_reads_def by (metis READER_MAX_DEPTH_def add_0 order_refl)

lemma printed_read:
  assumes "library_ok L" "readable READER_MAX_DEPTH v"
  shows "read_one_complete L (print L v) = Inr v"
proof -
  note r = form_reads [OF assms]
  have "read_form L READER_MAX_DEPTH (print L v) = Inr (v, [])" using r unfolding reads_back_def print_def by (metis append_Nil2 ends_mark(1))
  moreover have "skip_trivia (print L v) = print L v" "print L v \<noteq> []" using back_skip [OF r, of "[]"] by (simp_all add: print_def)
  ultimately show ?thesis by (simp add: read_one_complete_def skip_trivia.simps)
qed

text \<open>
  C9: printed forms read back. What a form of numbers, names, strings, bytes and lists, vectors, maps and sets of
  such forms, nested as deep as the reader goes, is printed as is read as that very form; so is a source with one
  such form a line.
\<close>

theorem read_print:
  assumes "library_ok L" "\<forall>v \<in> set vs. readable READER_MAX_DEPTH v" "readable READER_MAX_DEPTH v"
  shows "read_one_complete L (print L v) = Inr v \<and> read_all L (concat (map (\<lambda>v. print L v @ [10]) vs)) = Inr vs"
proof -
  let ?s = "concat (map (\<lambda>v. print L v @ [10]) vs)"
  have form: "\<forall>w \<in> set vs. reads_back L (read_form L READER_MAX_DEPTH) 0 w" using form_reads [OF assms(1)] assms(2) by blast
  have "take 2 ?s \<noteq> [35, 33]"
  proof (cases vs)
    case (Cons w ws)
    then have "reads_back L (read_form L READER_MAX_DEPTH) 0 w" using form by simp
    then show ?thesis using back_no_shebang [of L _ 0 w] read_form_eq [of L READER_MAX_DEPTH] by (simp add: Cons print_def)
  qed simp
  then have s: "skip_shebang ?s = ?s" by (simp add: skip_shebang_def shebang_len_def)
  have "length vs \<le> length ?s" by (induction vs) simp_all
  then have "read_all L ?s = Inr vs" using read_all_lines [OF form, of "length ?s + 1" "[]"] by (simp add: read_all_def s)
  then show ?thesis using printed_read [OF assms(1,3)] by simp
qed

text \<open>A library that fits: decimals are integers, a float's text its bits as a number and a zero fraction.\<close>

definition int_of_text :: "rtext \<Rightarrow> int" where
  "int_of_text t = (case split_sign t of (negative, ds) \<Rightarrow> if negative then - int (digits_value 10 ds) else int (digits_value 10 ds))"

definition sample_library :: "int library" where
  "sample_library = \<lparr>
     parse_f64 = (\<lambda>t. let f = of_nat (digits_value 10 (take (length t - 2) t)) in if is_nan f then None else Some f), f64_text = (\<lambda>f. nat_text (unat f) @ lit ''.0''),
     parse_bigint = (\<lambda>t. Some (int_of_text t)), parse_decimal = (\<lambda>t. Some (int_of_text t)), decimal_text = int_text,
     parse_ratio = (\<lambda>t. case split_once (ch CHR ''/'') t of None \<Rightarrow> None
       | Some (n, m) \<Rightarrow> if 0 < int_of_text m \<and> coprime (int_of_text n) (int_of_text m) then Some (int_of_text n, int_of_text m) else None)\<rparr>"

lemma int_of_int_text: "int_of_text (int_text n) = n"
  by (simp add: int_of_text_def sign_int digits_value_nat)

lemma shape_fraction: "\<forall>c \<in> set cs. is_ascii_digit c \<Longrightarrow> shape_loop p n d f (cs @ [46, 48]) = (n, True, True)"
  by (induction cs arbitrary: p d f) (simp_all add: is_ascii_digit_def)

lemma sample_library_ok: "library_ok sample_library"
proof -
  have "numeric_shape (nat_text n @ [46, 48]) = (True, True)" for n
    using nat_text_Cons [of n] by (auto simp: numeric_shape_eq Let_def shape_fraction)
  then show ?thesis by (simp add: library_ok_def sample_library_def int_of_int_text digits_value_nat shape_int split_ratio)
qed

lemma read_print_witness:
  "read_one_complete sample_library (print sample_library (FVector [FInt 7, FPair (FSym [97]) (FStr [10])])) =
    Inr (FVector [FInt 7, FPair (FSym [97]) (FStr [10])])"
  using read_print [OF sample_library_ok, of "[]" "FVector [FInt 7, FPair (FSym [97]) (FStr [10])]"]
  by (simp add: READER_MAX_DEPTH_def in_i64_def)

section \<open>Unfinished texts\<close>

text \<open>
  Where a text may end early. A \<open>cut\<close> is what is open at its end, outermost first: a list, vector, set or map with
  what is complete in it, a map at the value of a key, a list after its dot or after the form that follows the
  dot, a form to be quoted. Innermost, the text ends between forms, or within a string, bytes or a name in bars,
  or at a lone \<open>#\<close>.
\<close>

datatype 'd cut = Ends rtext | InString rtext | InBytes rtext | InBar bool rtext | AtHash
  | InList "'d form list" "'d cut" | AfterDot "'d form list" "'d cut" | AfterTail "'d form list" "'d form" rtext
  | InVector "'d form list" "'d cut" | InSet "'d form list" "'d cut"
  | InMap "('d form \<times> 'd form) list" "'d cut" | AtValue "('d form \<times> 'd form) list" "'d form" "'d cut"
  | Quoted rtext "'d cut"

text \<open>A text with a gap after each of its parts, and none at its end when nothing follows.\<close>

fun spaced :: "rtext \<Rightarrow> rtext list \<Rightarrow> rtext \<Rightarrow> rtext" where
  "spaced g [] s = s"
| "spaced g (t # ts) s = t @ (if ts = [] \<and> s = [] then [] else g @ spaced g ts s)"

definition entry_text :: "'d library \<Rightarrow> rtext \<Rightarrow> 'd form \<times> 'd form \<Rightarrow> rtext" where
  "entry_text L g e = print L (fst e) @ g @ print L (snd e)"

fun cut_text :: "'d library \<Rightarrow> rtext \<Rightarrow> 'd cut \<Rightarrow> rtext" where
  "cut_text L g (Ends s) = s"
| "cut_text L g (InString s) = ch CHR 0x22 # s"
| "cut_text L g (InBytes s) = lit ''#b'' @ ch CHR 0x22 # s"
| "cut_text L g (InBar keyword s) = (if keyword then lit '':|'' else lit ''|'') @ s"
| "cut_text L g AtHash = lit ''#''"
| "cut_text L g (InList xs c) = lit ''('' @ spaced g (map (print L) xs) (cut_text L g c)"
| "cut_text L g (AfterDot xs c) = lit ''('' @ spaced g (map (print L) xs) (lit ''.'' @ g @ cut_text L g c)"
| "cut_text L g (AfterTail xs t s) = lit ''('' @ spaced g (map (print L) xs) (lit ''.'' @ g @ print L t @ (if s = [] then [] else g @ s))"
| "cut_text L g (InVector xs c) = lit ''['' @ spaced g (map (print L) xs) (cut_text L g c)"
| "cut_text L g (InSet xs c) = lit ''#{'' @ spaced g (map (print L) xs) (cut_text L g c)"
| "cut_text L g (InMap es c) = lit ''{'' @ spaced g (map (entry_text L g) es) (cut_text L g c)"
| "cut_text L g (AtValue es k c) = lit ''{'' @ spaced g (map (entry_text L g) es @ [print L k]) (cut_text L g c)"
| "cut_text L g (Quoted mark c) = mark @ cut_text L g c"

text \<open>What is refused: the innermost open thing decides, and \<open>e\<close> is what an end right here would be.\<close>

fun cut_error :: "read_error \<Rightarrow> 'd cut \<Rightarrow> read_error" where
  "cut_error e (Ends s) = e"
| "cut_error e (InString s) = UnterminatedString"
| "cut_error e (InBytes s) = UnterminatedBytes"
| "cut_error e (InBar keyword s) = UnterminatedBar"
| "cut_error e AtHash = HashForm None"
| "cut_error e (InList xs c) = cut_error UnclosedList c"
| "cut_error e (AfterDot xs c) = cut_error UnclosedAfterDot c"
| "cut_error e (AfterTail xs t s) = UnclosedList"
| "cut_error e (InVector xs c) = cut_error UnclosedVector c"
| "cut_error e (InSet xs c) = cut_error UnclosedSet c"
| "cut_error e (InMap es c) = cut_error UnclosedMap c"
| "cut_error e (AtValue es k c) = cut_error OddMap c"
| "cut_error e (Quoted mark c) = cut_error UnexpectedEnd c"

text \<open>No closing mark that a backslash does not escape.\<close>

fun unclosed :: "rchar \<Rightarrow> rtext \<Rightarrow> bool" where
  "unclosed q [] \<longleftrightarrow> True"
| "unclosed q (c # cs) \<longleftrightarrow> c \<noteq> q \<and> (if c = ch CHR 0x5C then (case cs of [] \<Rightarrow> True | d # ds \<Rightarrow> unclosed q ds) else unclosed q cs)"

definition quote_marks :: "rtext list" where
  "quote_marks = [[ch CHR 0x27], [ch CHR 0x60], lit ''^'', lit ''~'', lit ''~@'']"

text \<open>The forms in it are readable, and it opens no more than the levels left.\<close>

fun cut_ok :: "nat \<Rightarrow> 'd cut \<Rightarrow> bool" where
  "cut_ok l (Ends s) \<longleftrightarrow> skip_trivia s = []"
| "cut_ok l (InString s) \<longleftrightarrow> unclosed (ch CHR 0x22) s"
| "cut_ok l (InBytes s) \<longleftrightarrow> unclosed (ch CHR 0x22) s"
| "cut_ok l (InBar keyword s) \<longleftrightarrow> unclosed (ch CHR ''|'') s"
| "cut_ok l AtHash \<longleftrightarrow> True"
| "cut_ok l (InList xs c) \<longleftrightarrow> 0 < l \<and> (\<forall>x \<in> set xs. readable (l - 1) x) \<and> cut_ok (l - 1) c"
| "cut_ok l (AfterDot xs c) \<longleftrightarrow> 0 < l \<and> xs \<noteq> [] \<and> (\<forall>x \<in> set xs. readable (l - 1) x) \<and> cut_ok (l - 1) c"
| "cut_ok l (AfterTail xs t s) \<longleftrightarrow> 0 < l \<and> xs \<noteq> [] \<and> (\<forall>x \<in> set xs. readable (l - 1) x) \<and> readable (l - 1) t \<and> skip_trivia s = []"
| "cut_ok l (InVector xs c) \<longleftrightarrow> 0 < l \<and> (\<forall>x \<in> set xs. readable (l - 1) x) \<and> cut_ok (l - 1) c"
| "cut_ok l (InSet xs c) \<longleftrightarrow> 0 < l \<and> (\<forall>x \<in> set xs. readable (l - 1) x) \<and> cut_ok (l - 1) c"
| "cut_ok l (InMap es c) \<longleftrightarrow> 0 < l \<and> (\<forall>e \<in> set es. readable (l - 1) (fst e) \<and> readable (l - 1) (snd e)) \<and> cut_ok (l - 1) c"
| "cut_ok l (AtValue es k c) \<longleftrightarrow> 0 < l \<and> (\<forall>e \<in> set es. readable (l - 1) (fst e) \<and> readable (l - 1) (snd e)) \<and> readable (l - 1) k \<and>
     cut_ok (l - 1) c"
| "cut_ok l (Quoted mark c) \<longleftrightarrow> 0 < l \<and> mark \<in> set quote_marks \<and> cut_ok (l - 1) c"

definition is_gap :: "rtext \<Rightarrow> bool" where
  "is_gap g \<longleftrightarrow> g \<noteq> [] \<and> list_all is_trivia_ws g"

lemma bar_unfinished: "unclosed 124 s \<Longrightarrow> fst (scan_bar_body out s) = BarUnterminated"
  by (induction out s rule: scan_bar_body.induct) (auto split: list.splits if_splits)

lemma hex_mark: "to_digit 16 c = Some h \<Longrightarrow> c \<noteq> 34 \<and> c \<noteq> 92"
  by (auto simp: to_digit_def Let_def split: if_splits)

lemma unclosed_other: "unclosed q (c # cs) \<Longrightarrow> c \<noteq> 92 \<Longrightarrow> unclosed q cs"
  by simp

lemma hex_unclosed: "unclosed 34 cs \<Longrightarrow> unclosed 34 saved \<Longrightarrow> unclosed 34 (snd (hex_digits_loop saved code digits cs))"
proof (induction saved code digits cs rule: hex_digits_loop.induct)
  case (2 saved code digits c cs)
  show ?case
  proof (cases "c = 125 \<and> 1 \<le> digits \<and> digits \<le> 6")
    case True
    then show ?thesis using unclosed_other [OF 2(2)] by (simp del: unclosed.simps)
  next
    case False
    then show ?thesis using 2(1) [OF _ _ _ unclosed_other [OF 2(2)] 2(3)] 2(3) hex_mark [of c]
      by (auto simp del: unclosed.simps split: option.split)
  qed
qed simp

lemma escape_unclosed:
  assumes "unclosed 34 cs"
  shows "unclosed 34 (snd (escape c cs))"
proof -
  have "unclosed 34 (snd (try_hex_escape_x cs))"
  proof (cases "\<exists>c1 c2 rest h1 h2. cs = c1 # c2 # rest \<and> to_digit 16 c1 = Some h1 \<and> to_digit 16 c2 = Some h2")
    case True
    then obtain c1 c2 rest h1 h2 where x: "cs = c1 # c2 # rest" "to_digit 16 c1 = Some h1" "to_digit 16 c2 = Some h2" by blast
    then have "unclosed 34 rest" using assms hex_mark by (simp split: if_splits)
    then show ?thesis by (simp add: try_hex_escape_x_def x)
  next
    case False
    then have "snd (try_hex_escape_x cs) = cs" by (auto simp: try_hex_escape_x_def split: list.split option.split)
    then show ?thesis using assms by simp
  qed
  moreover have "unclosed 34 (snd (try_hex_escape_u_brace cs))"
    using hex_unclosed [OF unclosed_other assms, of 123] assms by (cases cs) (auto simp: try_hex_escape_u_brace_def)
  ultimately show ?thesis using assms by (simp add: escape_def)
qed

lemma string_unfinished: "unclosed 34 s \<Longrightarrow> fst (scan_string_body bad out s) = Unterminated"
proof (induction bad out s rule: scan_string_body.induct)
  case (2 bad out c cs)
  show ?case
  proof (cases "c = 92 \<and> cs \<noteq> []")
    case True
    then obtain escaped rest where cs: "cs = escaped # rest" by (cases cs) auto
    obtain d rest' where e: "escape escaped rest = (d, rest')" by fastforce
    have "unclosed 34 rest" using 2(4) True cs by simp
    then have "unclosed 34 rest'" using escape_unclosed [of rest escaped] e by simp
    then show ?thesis using 2(1,2) [OF _ _ cs e [symmetric]] True cs e
      by (cases d) (simp_all add: scan_string_body.simps)
  qed (use 2(3,4) in \<open>auto simp: scan_string_body.simps split: if_splits\<close>)
qed (simp add: scan_string_body.simps)

text \<open>The input is at its end, or a form opens that reads as an error.\<close>

definition starts :: "rtext \<Rightarrow> bool" where
  "starts s \<longleftrightarrow> (case s of [] \<Rightarrow> False | c # _ \<Rightarrow> c \<in> {34, 35, 39, 40, 58, 91, 94, 96, 123, 124, 126})"

definition stops :: "(rtext \<Rightarrow> 'd read_result) \<Rightarrow> read_error \<Rightarrow> rtext \<Rightarrow> read_error \<Rightarrow> bool" where
  "stops rf e s er \<longleftrightarrow> skip_trivia s = [] \<and> er = e \<or> starts s \<and> rf s = Inl er"

lemma starts_skip: "starts s \<Longrightarrow> skip_trivia s = s"
  by (auto simp: starts_def skip_trivia.simps is_trivia_ws_def is_whitespace_def split: list.splits)

lemma starts_head: "starts s \<Longrightarrow> \<exists>c cs. s = c # cs \<and> c \<notin> {41, 46, 93, 125}"
  by (auto simp: starts_def split: list.splits)

lemma stops_cases:
  assumes "stops rf e s er"
  obtains "skip_trivia s = []" "er = e" | c cs where "skip_trivia s = c # cs" "c \<notin> {41, 46, 93, 125}" "rf (c # cs) = Inl er"
  using assms starts_skip [of s] starts_head [of s] unfolding stops_def by metis

lemma gap_skip:
  assumes "is_gap g"
  shows "skip_trivia (g @ s) = skip_trivia s" "ends (g @ s)"
proof -
  have "list_all is_trivia_ws h \<Longrightarrow> skip_trivia (h @ s) = skip_trivia s" for h by (induction h) (simp_all add: skip_trivia.simps)
  then show "skip_trivia (g @ s) = skip_trivia s" using assms by (simp add: is_gap_def)
  show "ends (g @ s)" using assms by (cases g) (simp_all add: is_gap_def ends_def trivia_delimiter)
qed

lemma gap_loops:
  assumes "is_gap g"
  shows "read_seq rf n xs (g @ s) = read_seq rf n xs s" "read_vector rf n xs (g @ s) = read_vector rf n xs s"
    "read_set rf n xs (g @ s) = read_set rf n xs s" "read_map rf n es (g @ s) = read_map rf n es s"
  by (cases n; simp add: gap_skip [OF assms])+

lemma print_reads:
  assumes "library_ok L" "readable k x" "k \<le> 256"
  shows "reads_back L (read_form L k) 0 x"
  using back_form [OF assms(1)] assms(2,3) by (simp add: value_reads_def)

lemma back_print: "reads_back L rf 0 x \<Longrightarrow> opens (print L x) \<and> print L x \<noteq> [] \<and> (ends rest \<longrightarrow> rf (print L x @ rest) = Inr (x, rest))"
  by (auto simp: reads_back_def print_def opens_def)

lemma stop_loops:
  "stops rf UnclosedList s er \<Longrightarrow> read_seq rf (Suc n) xs s = Inl er" "stops rf UnclosedVector s er \<Longrightarrow> read_vector rf (Suc n) xs s = Inl er"
  "stops rf UnclosedSet s er \<Longrightarrow> read_set rf (Suc n) xs s = Inl er" "stops rf UnclosedMap s er \<Longrightarrow> read_map rf (Suc n) es s = Inl er"
  by (erule stops_cases; simp)+

text \<open>A loop that takes its parts one by one, through the gaps between them, comes to what stops it.\<close>

lemma items_cut:
  assumes "is_gap g" "\<And>n ys s. f n ys (g @ s) = f n ys s"
    and "\<And>n ys x rest. x \<in> set xs \<Longrightarrow> ends rest \<Longrightarrow> f (Suc n) ys (tx x @ rest) = f n (ys @ [x]) rest" "\<And>x. x \<in> set xs \<Longrightarrow> tx x \<noteq> []"
    and "\<And>n. f (Suc n) (ys @ xs) s = Inl e" "length (spaced g (map tx xs) s) < n"
  shows "f n ys (spaced g (map tx xs) s) = Inl e"
  using assms(3-6)
proof (induction xs arbitrary: ys n)
  case Nil
  then show ?case by (cases n) simp_all
next
  case (Cons x xs)
  obtain m where n: "n = Suc m" using Cons.prems(4) by (cases n) auto
  let ?rest = "if xs = [] \<and> s = [] then [] else g @ spaced g (map tx xs) s"
  have "ends ?rest" using gap_skip(2) [OF assms(1)] by simp
  then have step: "f n ys (spaced g (map tx (x # xs)) s) = f m (ys @ [x]) ?rest" using Cons.prems(1) [of x ?rest m ys] by (simp add: n)
  have len: "length ?rest < m" using Cons.prems(2) [of x] Cons.prems(4) by (cases "tx x") (auto simp: n)
  show ?case
  proof (cases "xs = [] \<and> s = []")
    case True
    then show ?thesis using step Cons.prems(3) len by (cases m) simp_all
  next
    case False
    have "f m (ys @ [x]) (spaced g (map tx xs) s) = Inl e"
      by (rule Cons.IH) (use Cons.prems(1-3) len False in auto)
    moreover have "?rest = g @ spaced g (map tx xs) s" using False by auto
    ultimately show ?thesis unfolding step by (simp add: assms(2))
  qed
qed

lemma map_key:
  assumes "reads_back L rf 0 k" "ends rest"
  shows "read_map rf (Suc n) es (print L k @ rest) = (case skip_trivia rest of
    [] \<Rightarrow> Inl OddMap
  | c # rest \<Rightarrow> (if c = 125 then Inl OddMap else if c = 46 \<and> is_dot_separator rest then Inl DotInLiteral
      else (case rf (c # rest) of Inl e \<Rightarrow> Inl e | Inr (v, rest) \<Rightarrow> read_map rf n (es @ [(k, v)]) rest)))"
proof -
  note p = back_print [OF assms(1)]
  from opens_cases [OF p [THEN conjunct1]] obtain c cs where c: "print L k = c # cs" "c \<notin> {41, 93, 125}"
    "skip_trivia (print L k @ rest) = c # cs @ rest" "\<not> (c = 46 \<and> is_dot_separator (cs @ rest))" by metis
  have "rf (c # cs @ rest) = Inr (k, rest)" using p assms(2) c(1) by simp
  then show ?thesis using c(2,4) by (auto simp: c(3) split: list.split)
qed

lemma map_entry:
  assumes "is_gap g" "reads_back L rf 0 (fst e)" "reads_back L rf 0 (snd e)" "ends rest"
  shows "read_map rf (Suc n) es (entry_text L g e @ rest) = read_map rf n (es @ [e]) rest"
proof -
  note p = back_print [OF assms(3)]
  from opens_cases [OF p [THEN conjunct1]] obtain c cs where c: "print L (snd e) = c # cs" "c \<notin> {41, 93, 125}"
    "skip_trivia (print L (snd e) @ rest) = c # cs @ rest" "\<not> (c = 46 \<and> is_dot_separator (cs @ rest))" by metis
  have "rf (c # cs @ rest) = Inr (snd e, rest)" using p assms(4) c(1) by simp
  then show ?thesis using c(2,4) map_key [OF assms(2) gap_skip(2) [OF assms(1)]]
    by (auto simp: entry_text_def gap_skip(1) [OF assms(1)] c(3) simp del: read_map.simps)
qed

lemma stop_value:
  assumes "is_gap g" "reads_back L rf 0 k" "stops rf OddMap s er"
  shows "read_map rf (Suc n) es (print L k @ (if s = [] then [] else g @ s)) = Inl er"
proof -
  have "skip_trivia (if s = [] then [] else g @ s) = skip_trivia s" "ends (if s = [] then [] else g @ s)" using gap_skip [OF assms(1)] by auto
  then show ?thesis using assms(3) by (elim stops_cases) (auto simp: map_key [OF assms(2)] simp del: read_map.simps)
qed

lemma spaced_last: "t \<noteq> [] \<Longrightarrow> spaced g (ts @ [t]) s = spaced g ts (t @ (if s = [] then [] else g @ s))"
  by (induction ts) simp_all

lemma dot_stops:
  assumes "is_gap g" "xs \<noteq> []"
  shows "stops rf UnclosedAfterDot s er \<Longrightarrow> read_seq rf (Suc n) xs (46 # g @ s) = Inl er"
    "reads_back L rf 0 t \<Longrightarrow> skip_trivia s = [] \<Longrightarrow> read_seq rf (Suc n) xs (46 # g @ print L t @ (if s = [] then [] else g @ s)) = Inl UnclosedList"
proof -
  have dot: "is_dot_separator (g @ s)" for s using gap_skip(2) [OF assms(1), of s] by (simp add: is_dot_separator_def ends_def)
  show "stops rf UnclosedAfterDot s er \<Longrightarrow> read_seq rf (Suc n) xs (46 # g @ s) = Inl er"
    using assms(2) dot by (elim stops_cases) (simp_all add: gap_skip(1) [OF assms(1)])
  assume t: "reads_back L rf 0 t" "skip_trivia s = []"
  let ?rest = "if s = [] then [] else g @ s"
  note p = back_print [OF t(1)]
  from opens_cases [OF p [THEN conjunct1]] obtain c cs where c: "print L t = c # cs" "c \<notin> {41, 93, 125}"
    "skip_trivia (print L t @ ?rest) = c # cs @ ?rest" by metis
  have r: "skip_trivia ?rest = []" "ends ?rest" using t(2) gap_skip [OF assms(1)] by auto
  then have "rf (c # cs @ ?rest) = Inr (t, ?rest)" using p c(1) by simp
  then show "read_seq rf (Suc n) xs (46 # g @ print L t @ ?rest) = Inl UnclosedList"
    using assms(2) dot c(2,3) r(1) by (simp add: gap_skip(1) [OF assms(1)])
qed

text \<open>What stops the loop of an open collection is what reading the collection comes to.\<close>

lemma items_stop:
  assumes "is_gap g" "\<forall>x \<in> set xs. reads_back L rf 0 x"
  shows "(\<And>n. read_seq rf (Suc n) xs s = Inl er) \<Longrightarrow> read_dispatch L (Some rf) (40 # spaced g (map (print L) xs) s) = Inl er"
    "(\<And>n. read_vector rf (Suc n) xs s = Inl er) \<Longrightarrow> read_dispatch L (Some rf) (91 # spaced g (map (print L) xs) s) = Inl er"
    "(\<And>n. read_set rf (Suc n) xs s = Inl er) \<Longrightarrow> read_dispatch L (Some rf) (35 # 123 # spaced g (map (print L) xs) s) = Inl er"
proof -
  have p: "\<And>x. x \<in> set xs \<Longrightarrow> print L x \<noteq> []" using assms(2) back_print by blast
  have step: "x \<in> set xs \<Longrightarrow> ends rest \<Longrightarrow> read_seq rf (Suc n) ys (print L x @ rest) = read_seq rf n (ys @ [x]) rest"
    "x \<in> set xs \<Longrightarrow> ends rest \<Longrightarrow> read_vector rf (Suc n) ys (print L x @ rest) = read_vector rf n (ys @ [x]) rest"
    "x \<in> set xs \<Longrightarrow> ends rest \<Longrightarrow> read_set rf (Suc n) ys (print L x @ rest) = read_set rf n (ys @ [x]) rest" for n ys x rest
    using assms(2) read_seq_item [of L rf 0 x rest] read_vector_item [of L rf 0 x rest] unfolding print_def by blast+
  show "(\<And>n. read_seq rf (Suc n) xs s = Inl er) \<Longrightarrow> read_dispatch L (Some rf) (40 # spaced g (map (print L) xs) s) = Inl er"
    unfolding dispatch_open by (rule items_cut [where f = "read_seq rf", OF assms(1) gap_loops(1) [OF assms(1)] step(1) p]) (simp_all del: read_seq.simps)
  show "(\<And>n. read_vector rf (Suc n) xs s = Inl er) \<Longrightarrow> read_dispatch L (Some rf) (91 # spaced g (map (print L) xs) s) = Inl er"
    unfolding dispatch_open by (rule items_cut [where f = "read_vector rf", OF assms(1) gap_loops(2) [OF assms(1)] step(2) p]) (simp_all del: read_vector.simps)
  show "(\<And>n. read_set rf (Suc n) xs s = Inl er) \<Longrightarrow> read_dispatch L (Some rf) (35 # 123 # spaced g (map (print L) xs) s) = Inl er"
    unfolding dispatch_open by (rule items_cut [where f = "read_set rf", OF assms(1) gap_loops(3) [OF assms(1)] step(3) p]) (simp_all del: read_set.simps)
qed

lemma entries_stop:
  assumes "is_gap g" "\<forall>e \<in> set es. reads_back L rf 0 (fst e) \<and> reads_back L rf 0 (snd e)" "\<And>n. read_map rf (Suc n) es s = Inl er"
  shows "read_dispatch L (Some rf) (123 # spaced g (map (entry_text L g) es) s) = Inl er"
proof -
  have "\<And>e. e \<in> set es \<Longrightarrow> entry_text L g e \<noteq> []" using assms(2) back_print by (fastforce simp: entry_text_def)
  moreover have "e \<in> set es \<Longrightarrow> ends rest \<Longrightarrow> read_map rf (Suc n) ys (entry_text L g e @ rest) = read_map rf n (ys @ [e]) rest" for n ys e rest
    using assms(2) map_entry [OF assms(1)] by blast
  ultimately show ?thesis unfolding dispatch_open
    by (intro items_cut [where f = "read_map rf", OF assms(1) gap_loops(4) [OF assms(1)]]) (simp_all add: assms(3) del: read_map.simps)
qed

text \<open>Texts that are cut within an atom.\<close>

lemma atoms_stop:
  "unclosed 34 s \<Longrightarrow> read_dispatch L deeper (34 # s) = Inl UnterminatedString"
  "unclosed 34 s \<Longrightarrow> read_dispatch L deeper (35 # 98 # 34 # s) = Inl UnterminatedBytes"
  "unclosed 124 s \<Longrightarrow> read_dispatch L deeper (124 # s) = Inl UnterminatedBar"
  "unclosed 124 s \<Longrightarrow> read_dispatch L deeper (58 # 124 # s) = Inl UnterminatedBar"
  "read_dispatch L deeper [35] = Inl (HashForm None)"
proof -
  note scanned = string_unfinished [of s None "[]"] bar_unfinished [of s "[]"]
  have skip: "skip_trivia (c # s) = c # s" if "c \<in> {34, 35, 58, 124}" for c s
    using that by (auto simp: skip_trivia.simps is_trivia_ws_def is_whitespace_def)
  show "unclosed 34 s \<Longrightarrow> read_dispatch L deeper (34 # s) = Inl UnterminatedString"
    "unclosed 34 s \<Longrightarrow> read_dispatch L deeper (35 # 98 # 34 # s) = Inl UnterminatedBytes"
    using scanned(1) by (auto simp: read_dispatch_def read_hash_def read_string_def read_bytes_def skip split: prod.split string_scan.split)
  show "unclosed 124 s \<Longrightarrow> read_dispatch L deeper (124 # s) = Inl UnterminatedBar"
    "unclosed 124 s \<Longrightarrow> read_dispatch L deeper (58 # 124 # s) = Inl UnterminatedBar"
    using scanned(2) by (auto simp: read_dispatch_def read_bar_symbol_def skip split: prod.split bar_scan.split)
  show "read_dispatch L deeper [35] = Inl (HashForm None)" by (simp add: read_dispatch_def read_hash_def skip)
qed

lemma quote_stops:
  assumes "mark \<in> set quote_marks" "stops rf UnexpectedEnd s er" "\<And>s. skip_trivia s = [] \<Longrightarrow> rf s = Inl UnexpectedEnd"
  shows "read_dispatch L (Some rf) (mark @ s) = Inl er"
proof -
  have rf: "rf s = Inl er" using assms(2,3) by (auto simp: stops_def)
  have skip: "skip_trivia (c # s) = c # s" if "c \<in> {39, 64, 94, 96, 126}" for c s
    using that by (auto simp: skip_trivia.simps is_trivia_ws_def is_whitespace_def)
  have at: "hd s \<noteq> 64" if "s \<noteq> []"
    using that assms(2) skip [of 64 "tl s"] by (cases s) (auto simp: stops_def starts_def)
  show ?thesis using assms(1) rf at by (auto simp: quote_marks_def read_dispatch_def skip enter_def read_wrapped_def)
qed

text \<open>Reading a cut text stops where it is cut, at any number of levels that hold what is open.\<close>

lemma cut_stops:
  assumes "library_ok L" "is_gap g"
  shows "cut_ok l c \<Longrightarrow> l \<le> 256 \<Longrightarrow> stops (read_form L l) e (cut_text L g c) (cut_error e c)"
proof (induction c arbitrary: l e)
  case (Ends s)
  then show ?case by (simp add: stops_def)
next
  case (InString s)
  then show ?case by (simp add: stops_def starts_def read_form_eq atoms_stop)
next
  case (InBytes s)
  then show ?case by (simp add: stops_def starts_def read_form_eq atoms_stop)
next
  case (InBar keyword s)
  then show ?case by (simp add: stops_def starts_def read_form_eq atoms_stop)
next
  case AtHash
  then show ?case by (simp add: stops_def starts_def read_form_eq atoms_stop)
next
  case (InList xs c)
  then obtain k where k: "l = Suc k" "k \<le> 256" by (cases l) auto
  have "\<forall>x \<in> set xs. reads_back L (read_form L k) 0 x" using InList.prems(1) k print_reads [OF assms(1)] by simp
  note d = items_stop(1) [OF assms(2) this]
  have s: "stops (read_form L k) UnclosedList (cut_text L g c) (cut_error UnclosedList c)" using InList k by simp
  have "read_dispatch L (Some (read_form L k)) (cut_text L g (InList xs c)) = Inl (cut_error UnclosedList c)"
    using d [OF stop_loops(1) [OF s]] by simp
  then show ?case by (simp add: stops_def starts_def k)
next
  case (AfterDot xs c)
  then obtain k where k: "l = Suc k" "k \<le> 256" by (cases l) auto
  have "\<forall>x \<in> set xs. reads_back L (read_form L k) 0 x" using AfterDot.prems(1) k print_reads [OF assms(1)] by simp
  note d = items_stop(1) [OF assms(2) this]
  have s: "stops (read_form L k) UnclosedAfterDot (cut_text L g c) (cut_error UnclosedAfterDot c)" using AfterDot k by simp
  have "read_dispatch L (Some (read_form L k)) (cut_text L g (AfterDot xs c)) = Inl (cut_error UnclosedAfterDot c)"
    using d [OF dot_stops(1) [OF assms(2) _ s]] AfterDot.prems(1) by simp
  then show ?case by (simp add: stops_def starts_def k)
next
  case (AfterTail xs t s)
  then obtain k where k: "l = Suc k" "k \<le> 256" by (cases l) auto
  have "\<forall>x \<in> set xs. reads_back L (read_form L k) 0 x" using AfterTail.prems(1) k print_reads [OF assms(1)] by simp
  note d = items_stop(1) [OF assms(2) this]
  have t: "reads_back L (read_form L k) 0 t" "skip_trivia s = []" "xs \<noteq> []" using AfterTail.prems(1) k print_reads [OF assms(1)] by simp_all
  have "read_dispatch L (Some (read_form L k)) (cut_text L g (AfterTail xs t s)) = Inl UnclosedList"
    using d [OF dot_stops(2) [OF assms(2) t(3,1,2)]] by simp
  then show ?case by (simp add: stops_def starts_def k)
next
  case (InVector xs c)
  then obtain k where k: "l = Suc k" "k \<le> 256" by (cases l) auto
  have "\<forall>x \<in> set xs. reads_back L (read_form L k) 0 x" using InVector.prems(1) k print_reads [OF assms(1)] by simp
  note d = items_stop(2) [OF assms(2) this]
  have s: "stops (read_form L k) UnclosedVector (cut_text L g c) (cut_error UnclosedVector c)" using InVector k by simp
  have "read_dispatch L (Some (read_form L k)) (cut_text L g (InVector xs c)) = Inl (cut_error UnclosedVector c)"
    using d [OF stop_loops(2) [OF s]] by simp
  then show ?case by (simp add: stops_def starts_def k)
next
  case (InSet xs c)
  then obtain k where k: "l = Suc k" "k \<le> 256" by (cases l) auto
  have "\<forall>x \<in> set xs. reads_back L (read_form L k) 0 x" using InSet.prems(1) k print_reads [OF assms(1)] by simp
  note d = items_stop(3) [OF assms(2) this]
  have s: "stops (read_form L k) UnclosedSet (cut_text L g c) (cut_error UnclosedSet c)" using InSet k by simp
  have "read_dispatch L (Some (read_form L k)) (cut_text L g (InSet xs c)) = Inl (cut_error UnclosedSet c)"
    using d [OF stop_loops(3) [OF s]] by simp
  then show ?case by (simp add: stops_def starts_def k)
next
  case (InMap es c)
  then obtain k where k: "l = Suc k" "k \<le> 256" by (cases l) auto
  have "\<forall>e \<in> set es. reads_back L (read_form L k) 0 (fst e) \<and> reads_back L (read_form L k) 0 (snd e)"
    using InMap.prems(1) k print_reads [OF assms(1)] by simp
  note d = entries_stop [OF assms(2) this]
  have s: "stops (read_form L k) UnclosedMap (cut_text L g c) (cut_error UnclosedMap c)" using InMap k by simp
  have "read_dispatch L (Some (read_form L k)) (cut_text L g (InMap es c)) = Inl (cut_error UnclosedMap c)"
    using d [OF stop_loops(4) [OF s]] by simp
  then show ?case by (simp add: stops_def starts_def k)
next
  case (AtValue es key c)
  then obtain k where k: "l = Suc k" "k \<le> 256" by (cases l) auto
  have "\<forall>e \<in> set es. reads_back L (read_form L k) 0 (fst e) \<and> reads_back L (read_form L k) 0 (snd e)"
    using AtValue.prems(1) k print_reads [OF assms(1)] by simp
  note d = entries_stop [OF assms(2) this]
  have key: "reads_back L (read_form L k) 0 key" using AtValue.prems(1) k print_reads [OF assms(1)] by simp
  have s: "stops (read_form L k) OddMap (cut_text L g c) (cut_error OddMap c)" using AtValue k by simp
  have "read_dispatch L (Some (read_form L k)) (cut_text L g (AtValue es key c)) = Inl (cut_error OddMap c)"
    using d [OF stop_value [OF assms(2) key s]] back_print [OF key] by (simp add: spaced_last)
  then show ?case by (simp add: stops_def starts_def k)
next
  case (Quoted mark c)
  then obtain k where k: "l = Suc k" "k \<le> 256" by (cases l) auto
  have "read_form L k s = Inl UnexpectedEnd" if "skip_trivia s = []" for s using that by (simp add: read_form_eq read_dispatch_def)
  moreover have "stops (read_form L k) UnexpectedEnd (cut_text L g c) (cut_error UnexpectedEnd c)" using Quoted k by simp
  moreover have "starts (mark @ s)" for s using Quoted.prems(1) by (auto simp: quote_marks_def starts_def)
  ultimately show ?case using quote_stops [of mark "read_form L k" "cut_text L g c"] Quoted.prems(1) unfolding stops_def [of _ e] by (simp add: k)
qed

lemma cut_incomplete:
  "incomplete e \<or> e = OddMap \<Longrightarrow> incomplete (cut_error e c) \<longleftrightarrow> cut_error e c \<notin> {OddMap, UnterminatedBar, HashForm None}"
proof (induction c arbitrary: e)
  case (Ends s)
  then show ?case by (auto simp: incomplete_def)
qed (simp_all add: incomplete_def)

lemma complete_of_form:
  assumes "skip_trivia s = s" "s \<noteq> []" "read_form L READER_MAX_DEPTH s = Inl e"
  shows "read_one_complete L s = Inl e"
  using assms by (simp add: read_one_complete_def Let_def)

text \<open>
  C12: what a REPL takes for unfinished. A text is read up to where it ends early, however its open collections are
  nested, up to the depth the reader goes, and whatever readable forms are complete in them, printed with any
  one gap of white space and commas between them: the innermost open thing alone decides what it is refused with.
  That error asks for more input when the text ends within a string or bytes, a list (also at its dot and after the form there), a vector, a
  set or a map between entries, after a quoting mark or before any form. It does not when the text ends after a key
  of a map, within a name in bars or at a lone \<open>#\<close>.
\<close>

theorem unfinished_input:
  assumes "library_ok L" "is_gap g" "cut_ok READER_MAX_DEPTH c"
  shows "read_one_complete L (cut_text L g c) = Inl (cut_error UnexpectedEnd c) \<and>
    (incomplete (cut_error UnexpectedEnd c) \<longleftrightarrow> cut_error UnexpectedEnd c \<notin> {OddMap, UnterminatedBar, HashForm None})"
proof -
  have "stops (read_form L READER_MAX_DEPTH) UnexpectedEnd (cut_text L g c) (cut_error UnexpectedEnd c)"
    by (rule cut_stops [OF assms]) (simp add: READER_MAX_DEPTH_def)
  then show ?thesis using complete_of_form [of "cut_text L g c" L] starts_skip [of "cut_text L g c"] starts_head [of "cut_text L g c"]
      cut_incomplete [of UnexpectedEnd c]
    unfolding stops_def by (auto simp: read_one_complete_def incomplete_def)
qed

lemma unfinished_input_witness:
  "read_one_complete sample_library
     (lit ''['' @ print sample_library (FInt 1) @ lit '', ('' @ print sample_library (FKeyword [97]) @ lit '', '' @ [34, 120, 92, 34, 121]) =
     Inl UnterminatedString \<and>
   read_one_complete sample_library (lit ''{'' @ print sample_library (FKeyword [97])) = Inl OddMap"
  using unfinished_input [OF sample_library_ok, of "[44, 32]" "InVector [FInt 1] (InList [FKeyword [97]] (InString [120, 92, 34, 121]))"]
    unfinished_input [OF sample_library_ok, of "[44, 32]" "AtValue [] (FKeyword [97]) (Ends [])"]
  by (simp add: READER_MAX_DEPTH_def is_gap_def in_i64_def skip_trivia.simps)

section \<open>Numbers and names\<close>

text \<open>
  A token a digit leads, after a sign or a point perhaps, is a number or refused: it never reads as a symbol or a
  keyword, and a symbol of that spelling is printed within bars.
\<close>

lemma digit_led_never_name:
  assumes "digit_led t"
  shows "read_number L t \<noteq> Inr (FSym s) \<and> read_number L t \<noteq> Inr (FKeyword s) \<and> symbol_needs_bars L t False"
proof -
  obtain c cs where t: "t = c # cs" "is_ascii_digit c \<or> c = 43 \<or> c = 45 \<or> c = 46" using assms by (auto simp: digit_led_def split: list.splits)
  have radix: "classify_radix t \<notin> {ASymbol, AKeyword}"
    by (simp add: classify_radix_def Let_def split: option.split prod.split)
  have ratio: "classify_ratio L t \<notin> {ASymbol, AKeyword}" by (simp add: classify_ratio_def Let_def split: option.split prod.split)
  have "hd t \<noteq> 58" using t digit_not [of c] by auto
  then have k: "classify L t \<notin> {ASymbol, AKeyword}" using radix ratio assms unfolding classify_def by (simp split: if_split option.split)
  then have "read_number L t \<noteq> Inr (FSym s) \<and> read_number L t \<noteq> Inr (FKeyword s)"
    by (simp add: read_number_def alloc_ratio_def split: atom_kind.split option.split prod.split)
  then show ?thesis using k by (simp add: symbol_needs_bars_def)
qed

end
