(* ===== verification/Read_Forms.thy ===== *)
theory Read_Forms
  imports Read_Laws
begin

text \<open>
  What the reader builds: only forms of their types' ranges, nested no deeper than it allows. These are the forms
  whose text reads back.
\<close>

section \<open>What is asked of the number libraries when reading\<close>

text \<open>
  Besides printing what they parse: decimal digits are parsed as the number they denote, a ratio in lowest terms
  with a positive denominator, and a number's text never as not a number.
\<close>

definition library_reads :: "'d library \<Rightarrow> bool" where
  "library_reads L \<longleftrightarrow> library_ok L \<and>
     (\<forall>t ds negative. split_sign t = (negative, ds) \<longrightarrow> ds \<noteq> [] \<longrightarrow> list_all is_ascii_digit ds \<longrightarrow>
        parse_bigint L t = Some (if negative then - int (digits_value 10 ds) else int (digits_value 10 ds))) \<and>
     (\<forall>t f. fst (numeric_shape t) \<longrightarrow> parse_f64 L t = Some f \<longrightarrow> \<not> is_nan f) \<and>
     (\<forall>t n m. parse_ratio L t = Some (n, m) \<longrightarrow> 0 < m \<and> coprime n m)"

section \<open>Tokens\<close>

lemma shape_whole:
  assumes "fst (shape_loop p True d f cs)" "\<not> snd (snd (shape_loop p True d f cs))" "p \<noteq> 101" "p \<noteq> 69"
  shows "\<forall>c \<in> set cs. is_ascii_digit c"
  using assms
proof (induction cs arbitrary: p d f)
  case (Cons c cs)
  have "is_ascii_digit c"
  proof (rule ccontr)
    assume n: "\<not> is_ascii_digit c"
    show False
    proof (cases "c = 46 \<or> c = 101 \<or> c = 69")
      case True
      then show False using Cons.prems(2) unfolding shape_frac by auto
    next
      case False
      then show False using Cons.prems(1,3,4) n shape_off by (cases "c = 43 \<or> c = 45") auto
    qed
  qed
  then show ?case using Cons.IH [of c True f] Cons.prems digit_not [of c] by simp
qed simp

lemma whole_digits:
  assumes "numeric_shape t = (True, False)" "split_sign t = (negative, ds)"
  shows "ds \<noteq> [] \<and> list_all is_ascii_digit ds"
proof -
  obtain c cs where t: "t = c # cs" using assms(1) by (cases t) (auto simp: numeric_shape_def)
  let ?s = "shape_loop c (is_ascii_digit c \<or> (c = 45 \<or> c = 43 \<or> c = 46) \<and> cs \<noteq> []) (is_ascii_digit c) (c = 46) cs"
  have s: "fst ?s" "\<not> snd (snd ?s)" using assms(1) by (simp_all add: t numeric_shape_eq Let_def)
  have n: "is_ascii_digit c \<or> (c = 45 \<or> c = 43 \<or> c = 46) \<and> cs \<noteq> []" using shape_numeric [OF s(1)] by simp
  have "c \<noteq> 46" using s(2) by (auto simp: shape_frac)
  moreover have "c \<noteq> 101 \<and> c \<noteq> 69" using n digit_not [of c] by auto
  moreover have "\<forall>x \<in> set cs. is_ascii_digit x" using shape_whole [of c _ _ cs] s n \<open>c \<noteq> 101 \<and> c \<noteq> 69\<close> by auto
  ultimately show ?thesis using assms(2) n digit_not [of c] by (auto simp: t split_sign_def list_all_iff split: if_splits)
qed

lemma radix_overflow: "classify_radix t = ARadixOverflow \<Longrightarrow> radix_parts t = Some (r, ds, negative) \<Longrightarrow>
  \<not> in_i64 (if negative then - int (digits_value r ds) else int (digits_value r ds))"
  by (auto simp: classify_radix_def in_i64_def Let_def split: if_splits)

lemma classify_overflow: "classify L t = AIntOverflow \<Longrightarrow> numeric_shape t = (True, False) \<and> parse_i64 t = None"
  by (cases "numeric_shape t") (auto simp: classify_def classify_radix_def classify_ratio_def Let_def split: if_splits option.splits)

lemma radix_kinds: "classify_radix t \<in> {ARadixInvalid, ARadixOverflow} \<or> (\<exists>i. classify_radix t = AInt i \<and> in_i64 i)"
  by (auto simp: classify_radix_def Let_def split: option.split)

lemma ratio_kinds: "classify_ratio L t \<in> {ARatio, ARatioInvalid}"
  by (auto simp: classify_ratio_def Let_def split: option.split)

lemma classify_int_range: "classify L t = AInt i \<Longrightarrow> in_i64 i"
  using radix_kinds [of t] ratio_kinds [of L t]
  by (auto simp: classify_def parse_i64_def Let_def split: if_splits option.splits prod.splits)

lemma classify_radix_only: "classify L t = ARadixOverflow \<Longrightarrow> classify_radix t = ARadixOverflow"
  using ratio_kinds [of L t] by (auto simp: classify_def split: if_splits option.splits)

lemma classify_float_value:
  assumes "library_reads L" "classify L t = AFloat f"
  shows "is_nan f \<longrightarrow> f = F64_NAN"
proof -
  have lits: "\<not> is_nan F64_INFINITY" "\<not> is_nan F64_NEG_INFINITY" by (simp_all add: is_nan_def F64_INFINITY_def F64_NEG_INFINITY_def)
  have "f \<in> {F64_INFINITY, F64_NEG_INFINITY, F64_NAN} \<or> fst (numeric_shape t) \<and> parse_f64 L t = Some f"
    using assms(2) radix_kinds [of t] ratio_kinds [of L t] by (auto simp: classify_def split: if_splits option.splits)
  then show ?thesis using assms(1) lits unfolding library_reads_def by blast
qed

lemma number_readable:
  assumes "library_reads L" "read_number L t = Inr v"
  shows "readable l v \<and> \<not> nested v"
proof -
  have ratio: "readable l (alloc_ratio q) \<and> \<not> nested (alloc_ratio q)" if "parse_ratio L t = Some q" for q
  proof -
    obtain n m where q: "q = (n, m)" by fastforce
    then have "0 < m \<and> coprime n m" using assms(1) that unfolding library_reads_def by blast
    then show ?thesis by (auto simp: q alloc_ratio_def)
  qed
  have big: "\<not> in_i64 n" if "classify L t = AIntOverflow" "parse_bigint L t = Some n" for n
  proof -
    obtain negative ds where s: "split_sign t = (negative, ds)" by fastforce
    have o: "numeric_shape t = (True, False)" "parse_i64 t = None" using classify_overflow [OF that(1)] by simp_all
    have d: "ds \<noteq> []" "list_all is_ascii_digit ds" using whole_digits [OF o(1) s] by simp_all
    have "parse_bigint L t = Some (if negative then - int (digits_value 10 ds) else int (digits_value 10 ds))"
      using assms(1) s d unfolding library_reads_def by blast
    then show ?thesis using o(2) that(2) d by (auto simp: parse_i64_def s Let_def split: if_splits)
  qed
  show ?thesis
  proof (cases "classify L t")
    case (AInt i)
    then show ?thesis using assms(2) classify_int_range [OF AInt] by (auto simp: read_number_def)
  next
    case (AFloat f)
    then show ?thesis using assms(2) classify_float_value [OF assms(1) AFloat] by (auto simp: read_number_def)
  next
    case AIntOverflow
    then show ?thesis using assms(2) big [OF AIntOverflow] by (auto simp: read_number_def split: option.splits)
  next
    case ARatio
    then show ?thesis using assms(2) ratio by (auto simp: read_number_def split: option.splits)
  next
    case ARadixOverflow
    then show ?thesis using assms(2) radix_overflow [OF classify_radix_only [OF ARadixOverflow]]
      by (auto simp: read_number_def split: option.splits prod.splits)
  qed (use assms(2) in \<open>auto simp: read_number_def split: option.splits\<close>)
qed

section \<open>Nested forms\<close>

lemma readable_mono: "readable l v \<Longrightarrow> l \<le> m \<Longrightarrow> readable m v"
proof (induction v arbitrary: l m)
  case (FPair h t)
  have h: "readable (m - 1) h" using FPair.IH(1) [of "l - 1" "m - 1"] FPair.prems by auto
  show ?case
  proof (cases "\<exists>x y. t = FPair x y")
    case True
    then have "readable l t" using FPair.prems(1) by auto
    then have "readable m t" using FPair.IH(2) FPair.prems(2) by blast
    then show ?thesis using h FPair.prems True by auto
  next
    case False
    then have "readable (l - 1) t" using FPair.prems(1) by (cases t) auto
    then have "readable (m - 1) t" using FPair.IH(2) [of "l - 1" "m - 1"] FPair.prems(2) by simp
    then show ?thesis using h FPair.prems False by (cases t) auto
  qed
next
  case (FVector xs)
  have "readable (m - 1) x" if "x \<in> set xs" for x using FVector.IH [OF that, of "l - 1" "m - 1"] FVector.prems that by simp
  then show ?case using FVector.prems by simp
next
  case (FSet xs)
  have "readable (m - 1) x" if "x \<in> set xs" for x using FSet.IH [OF that, of "l - 1" "m - 1"] FSet.prems that by simp
  then show ?case using FSet.prems by simp
next
  case (FMap es)
  have "readable (m - 1) (fst e) \<and> readable (m - 1) (snd e)" if "e \<in> set es" for e
    using FMap.IH(1) [OF that, of "fst e" "l - 1" "m - 1"] FMap.IH(2) [OF that, of "snd e" "l - 1" "m - 1"] FMap.prems that
    by (auto simp: fsts.simps snds.simps)
  then show ?case using FMap.prems by simp
qed auto

lemma list_readable:
  assumes "\<forall>x \<in> set xs. readable l x" "readable l t"
  shows "readable (Suc l) (list_with_tail xs t)"
  using assms
proof (induction xs)
  case Nil
  then show ?case using readable_mono [of l t "Suc l"] by (simp add: list_with_tail_def)
next
  case (Cons x xs)
  have tail: "readable (Suc l) (list_with_tail xs t)" using Cons by simp
  show ?case
  proof (cases xs)
    case Nil
    have "readable (Suc l) t" using readable_mono [OF Cons.prems(2)] by simp
    then show ?thesis using Cons.prems by (cases t) (simp_all add: Nil list_with_tail_def)
  next
    case (Cons y ys)
    then show ?thesis using tail Cons.prems by (simp add: list_with_tail_def)
  qed
qed

lemma loops_readable:
  assumes "\<And>cs v rest. rf cs = Inr (v, rest) \<Longrightarrow> readable l v"
  shows "read_vector rf n items cs = Inr (v, rest) \<Longrightarrow> \<forall>x \<in> set items. readable l x \<Longrightarrow> readable (Suc l) v"
    "read_set rf n items cs = Inr (v, rest) \<Longrightarrow> \<forall>x \<in> set items. readable l x \<Longrightarrow> readable (Suc l) v"
    "read_map rf n pairs cs = Inr (v, rest) \<Longrightarrow> \<forall>e \<in> set pairs. readable l (fst e) \<and> readable l (snd e) \<Longrightarrow> readable (Suc l) v"
    "read_seq rf n items cs = Inr (v, rest) \<Longrightarrow> \<forall>x \<in> set items. readable l x \<Longrightarrow> readable (Suc l) v"
proof -
  have Nil: "readable l FNil" by simp
  show "read_vector rf n items cs = Inr (v, rest) \<Longrightarrow> \<forall>x \<in> set items. readable l x \<Longrightarrow> readable (Suc l) v"
    by (induction n arbitrary: items cs) (auto split: list.splits if_splits sum.splits dest: assms)
  show "read_set rf n items cs = Inr (v, rest) \<Longrightarrow> \<forall>x \<in> set items. readable l x \<Longrightarrow> readable (Suc l) v"
    by (induction n arbitrary: items cs) (auto split: list.splits if_splits sum.splits dest: assms)
  show "read_map rf n pairs cs = Inr (v, rest) \<Longrightarrow> \<forall>e \<in> set pairs. readable l (fst e) \<and> readable l (snd e) \<Longrightarrow> readable (Suc l) v"
  proof (induction n arbitrary: pairs cs)
    case (Suc n)
    from Suc.prems(1) consider "v = FMap pairs"
      | k s k' w s' rest' where "rf s = Inr (k, k')" "rf s' = Inr (w, rest')" "read_map rf n (pairs @ [(k, w)]) rest' = Inr (v, rest)"
      by (auto split: list.splits if_splits sum.splits)
    then show ?case
    proof cases
      case 2
      then show ?thesis using Suc.IH [OF 2(3)] Suc.prems(2) assms by auto
    qed (use Suc.prems(2) in simp)
  qed simp
  show "read_seq rf n items cs = Inr (v, rest) \<Longrightarrow> \<forall>x \<in> set items. readable l x \<Longrightarrow> readable (Suc l) v"
  proof (induction n arbitrary: items cs)
    case (Suc n)
    from Suc.prems(1) consider "v = list_with_tail items FNil" | s t rest' where "rf s = Inr (t, rest')" "v = list_with_tail items t"
      | s x rest' where "rf s = Inr (x, rest')" "read_seq rf n (items @ [x]) rest' = Inr (v, rest)"
      by (auto split: list.splits if_splits sum.splits)
    then show ?case
    proof cases
      case 1
      show ?thesis unfolding 1 by (rule list_readable [OF Suc.prems(2) Nil])
    next
      case 2
      show ?thesis unfolding 2(2) by (rule list_readable [OF Suc.prems(2) assms [OF 2(1)]])
    next
      case 3
      then show ?thesis using Suc.IH [OF 3(2)] Suc.prems(2) assms by auto
    qed
  qed simp
qed

lemma dispatch_cases:
  assumes "read_dispatch L deeper cs = Inr (v, rest)"
  obtains (deeper) rf n s tag where "deeper = Some rf" "read_seq rf n [] s = Inr (v, rest) \<or> read_vector rf n [] s = Inr (v, rest) \<or>
      read_map rf n [] s = Inr (v, rest) \<or> read_set rf n [] s = Inr (v, rest) \<or> read_wrapped rf tag s = Inr (v, rest)"
    | (leaf) s k where "read_string s = Inr (v, rest) \<or> read_bytes s = Inr (v, rest) \<or> read_bar_symbol k s = Inr (v, rest) \<or>
      read_token L s = Inr (v, rest)"
proof (cases "skip_trivia cs")
  case Nil
  then show ?thesis using assms by (simp add: read_dispatch_def)
next
  case (Cons c rest')
  have entered: thesis if "enter deeper f = Inr (v, rest)" "\<And>rf. f rf = Inr (v, rest) \<Longrightarrow>
      read_seq rf n [] s = Inr (v, rest) \<or> read_vector rf n [] s = Inr (v, rest) \<or> read_map rf n [] s = Inr (v, rest) \<or>
      read_set rf n [] s = Inr (v, rest) \<or> read_wrapped rf tag s = Inr (v, rest)" for f n s tag
  proof (cases deeper)
    case (Some rf)
    then have "f rf = Inr (v, rest)" using that(1) by (simp add: enter_def)
    then show ?thesis using deeper [OF Some that(2)] by blast
  qed (use that(1) in \<open>simp add: enter_def\<close>)
  show ?thesis
  proof (cases "c = 35")
    case True
    then have h: "read_hash deeper rest' = Inr (v, rest)" using assms by (simp add: read_dispatch_def Cons)
    show ?thesis
    proof (cases "take 2 rest' = [98, 34]")
      case True
      then have "read_bytes (drop 2 rest') = Inr (v, rest)" using h by (simp add: read_hash_def)
      then show ?thesis using leaf by blast
    next
      case False
      then obtain r where "enter deeper (\<lambda>rf. read_set rf (fuel r) [] r) = Inr (v, rest)"
        using h by (auto simp: read_hash_def split: list.splits if_splits)
      then show ?thesis using entered [of "\<lambda>rf. read_set rf (fuel r) [] r" "fuel r" r] by blast
    qed
  next
    case False
    have splice: "enter deeper (\<lambda>rf. if rest' \<noteq> [] \<and> hd rest' = ch CHR ''@'' then read_wrapped rf ''unquote-splicing'' (tl rest')
        else read_wrapped rf ''unquote'' rest') =
      (if rest' \<noteq> [] \<and> hd rest' = ch CHR ''@'' then enter deeper (\<lambda>rf. read_wrapped rf ''unquote-splicing'' (tl rest'))
       else enter deeper (\<lambda>rf. read_wrapped rf ''unquote'' rest'))" by simp
    from False have "enter deeper (\<lambda>rf. read_seq rf (fuel rest') [] rest') = Inr (v, rest) \<or> enter deeper (\<lambda>rf. read_vector rf (fuel rest') [] rest') = Inr (v, rest) \<or>
      enter deeper (\<lambda>rf. read_map rf (fuel rest') [] rest') = Inr (v, rest) \<or> (\<exists>tag s. enter deeper (\<lambda>rf. read_wrapped rf tag s) = Inr (v, rest)) \<or>
      read_string rest' = Inr (v, rest) \<or> read_bar_symbol False rest' = Inr (v, rest) \<or> read_bar_symbol True (tl rest') = Inr (v, rest) \<or>
      read_token L (c # rest') = Inr (v, rest)"
      using assms unfolding read_dispatch_def Cons list.case splice by (simp split: if_splits; blast)
    then show ?thesis using entered leaf by blast
  qed
qed

lemma wrapped_readable: "(\<And>v rest. rf cs = Inr (v, rest) \<Longrightarrow> readable l v) \<Longrightarrow> read_wrapped rf tag cs = Inr (v, rest) \<Longrightarrow> readable (Suc l) v"
  using list_readable [of "[FSym (lit tag), _]" l FNil] by (auto simp: read_wrapped_def wrap_def split: sum.splits)

lemma leaf_readable:
  assumes "library_reads L"
  shows "read_string s = Inr (v, rest) \<Longrightarrow> readable l v" "read_bytes s = Inr (v, rest) \<Longrightarrow> readable l v"
    "read_bar_symbol k s = Inr (v, rest) \<Longrightarrow> readable l v" "read_token L s = Inr (v, rest) \<Longrightarrow> readable l v"
proof -
  show "read_string s = Inr (v, rest) \<Longrightarrow> readable l v" by (auto simp: read_string_def split: prod.splits string_scan.splits)
  show "read_bytes s = Inr (v, rest) \<Longrightarrow> readable l v"
    by (force simp: read_bytes_def find_None_iff not_less split: prod.splits string_scan.splits option.splits)
  show "read_bar_symbol k s = Inr (v, rest) \<Longrightarrow> readable l v" by (auto simp: read_bar_symbol_def split: prod.splits bar_scan.splits)
  show "read_token L s = Inr (v, rest) \<Longrightarrow> readable l v"
    using number_readable [OF assms] by (auto simp: read_token_def split: prod.splits option.splits sum.splits)
qed

lemma form_readable:
  assumes "library_reads L"
  shows "read_form L l cs = Inr (v, rest) \<Longrightarrow> readable l v"
proof (induction l arbitrary: cs v rest)
  case 0
  then have "read_dispatch L None cs = Inr (v, rest)" by simp
  then show ?case by (cases rule: dispatch_cases) (use leaf_readable [OF assms] in blast)+
next
  case (Suc l)
  then have "read_dispatch L (Some (read_form L l)) cs = Inr (v, rest)" by simp
  then show ?case
  proof (cases rule: dispatch_cases)
    case (deeper rf n s tag)
    then have "rf = read_form L l" by simp
    then have rf: "\<And>cs v rest. rf cs = Inr (v, rest) \<Longrightarrow> readable l v" using Suc.IH by simp
    show ?thesis using deeper(2) loops_readable [OF rf] wrapped_readable [OF rf] by (elim disjE; force)
  next
    case (leaf s k)
    then show ?thesis using leaf_readable [OF assms] by blast
  qed
qed

text \<open>
  C10: what is read has a text. A form that is read holds numbers within their kind's range, ratios in lowest
  terms, bytes below 256 and one not-a-number, nested no deeper than the levels left; so its printed text reads
  back, and printing what was read changes nothing from then on.
\<close>

theorem read_typed:
  assumes "library_reads L" "read_form L l cs = Inr (v, rest)" "read_one_complete L src = Inr w"
  shows "readable l v \<and> read_one_complete L (print L w) = Inr w"
proof -
  have "readable READER_MAX_DEPTH w"
    using assms(3) form_readable [OF assms(1)] by (auto simp: read_one_complete_def Let_def split: if_splits sum.splits)
  moreover have "library_ok L" using assms(1) by (simp add: library_reads_def)
  ultimately have "read_one_complete L (print L w) = Inr w" by (intro printed_read)
  then show ?thesis using form_readable [OF assms(1,2)] by simp
qed

lemma sample_library_reads: "library_reads sample_library"
  using sample_library_ok
  by (simp add: library_reads_def sample_library_def int_of_text_def Let_def split: option.split prod.split)

lemma read_typed_witness:
  "read_one_complete sample_library (print sample_library (FVector [FInt 5])) = Inr (FVector [FInt 5])"
proof -
  have r: "readable READER_MAX_DEPTH (FVector [FInt 5])" by (simp add: READER_MAX_DEPTH_def in_i64_def)
  have "read_form sample_library READER_MAX_DEPTH (print sample_library (FVector [FInt 5])) = Inr (FVector [FInt 5], [])"
    using form_reads [OF sample_library_ok r] unfolding reads_back_def print_def by (metis append_Nil2 ends_mark(1))
  from read_typed [OF sample_library_reads this printed_read [OF sample_library_ok r]] show ?thesis by simp
qed

end
