(* ===== verification/Message.thy ===== *)
theory Message
  imports Interner "HOL-Library.Multiset"
begin

text \<open>
  Messages: the self-contained copies of values that cross heaps and nodes (\<open>process/message.rs\<close>), and
  the read-only walkers over them. A message nests messages in containers and, through a shipped
  closure, in arms, defaults and captured values. The datatype is a parameter of its symbol type:
  \<open>symbol message\<close> is the program's message, \<open>rstring message\<close> the same message with every symbol
  spelled out.

  Floats are their 64 bits, \<open>i64\<close> is its two's complement word, text is its UTF-8 bytes. A shared blob
  (\<open>Arc<SharedBlob>\<close>) is the bytes it holds. \<open>FnShared\<close> keeps its handle; its pin has no content.
\<close>

record pos =
  line :: u32
  col :: u32

datatype 's message =
    MNil
  | MBool bool
  | MInt u64
  | MBigInt rstring
  | MDecimal rstring
  | MRatio rstring
  | MFloat u64
  | MStr rstring
  | MStrShared "u8 list"
  | MBytes "u8 list"
  | MSym 's
  | MKeyword 's
  | MFnShared u64
  | MList "'s message list" "pos option"
  | MDotted "'s message list"
  | MVector "'s message list"
  | MMap "('s message \<times> 's message) list"
  | MFailure "('s message \<times> 's message) list"
  | MRecord 's "('s message \<times> 's message) list"
  | MSet "'s message list"
  | MRef u64
  | MPid 's u64
  | MSocket u64
  | MSubprocess u64
  | MTable u64
  | MClosure "'s closure_msg"
  | MNative 's
and 's closure_msg =
  ClosureMsg (cm_name: "'s option") (cm_arms: "'s closure_arm_msg list") (cm_doc: "rstring option")
    (cm_captured: "('s \<times> 's message) list") (cm_modules: "('s \<times> 's) list") (cm_module: "'s option")
    (cm_shared_arms: "u64 option")
and 's closure_arm_msg =
  ClosureArmMsg (am_params: "'s list") (am_optionals: "('s \<times> 's message) list") (am_rest: "'s option")
    (am_body: "'s message list")

section \<open>Children\<close>

fun flat_pairs :: "('a \<times> 'a) list \<Rightarrow> 'a list" where
  "flat_pairs [] = []"
| "flat_pairs ((k, v) # es) = k # v # flat_pairs es"

lemma set_flat_pairs: "set (flat_pairs es) = fst ` set es \<union> snd ` set es"
  by (induction es rule: flat_pairs.induct) auto

definition arm_children :: "'s closure_arm_msg \<Rightarrow> 's message list" where
  "arm_children arm = map snd (am_optionals arm) @ am_body arm"

definition closure_children :: "'s closure_msg \<Rightarrow> 's message list" where
  "closure_children c = map snd (cm_captured c) @ concat (map arm_children (cm_arms c))"

fun for_each_child :: "'s message \<Rightarrow> 's message list" where
  "for_each_child (MList items p) = items"
| "for_each_child (MDotted items) = items"
| "for_each_child (MVector items) = items"
| "for_each_child (MSet items) = items"
| "for_each_child (MMap entries) = flat_pairs entries"
| "for_each_child (MFailure entries) = flat_pairs entries"
| "for_each_child (MRecord i entries) = flat_pairs entries"
| "for_each_child (MClosure c) = closure_children c"
| "for_each_child _ = []"

fun nests :: "'s message \<Rightarrow> bool" where
  "nests (MList items p) = True"
| "nests (MDotted items) = True"
| "nests (MVector items) = True"
| "nests (MMap entries) = True"
| "nests (MFailure entries) = True"
| "nests (MRecord i entries) = True"
| "nests (MSet items) = True"
| "nests (MClosure c) = True"
| "nests _ = False"

text \<open>A message is bigger than all its children together, which is what the walkers' loops rest on.\<close>

lemma sum_size_list: "(\<Sum>x \<leftarrow> xs. Suc (f x)) \<le> size_list f xs"
  by (induction xs) auto

lemma sum_size_pairs: "(\<Sum>x \<leftarrow> flat_pairs es. Suc (f x)) \<le> size_list (size_prod f f) es"
  by (induction es rule: flat_pairs.induct) auto

lemma sum_size_snd: "(\<Sum>x \<leftarrow> es. Suc (f (snd x))) \<le> size_list (size_prod g f) es"
  by (induction es) auto

lemma sum_size_arm: "(\<Sum>x \<leftarrow> arm_children a. Suc (size x)) \<le> size a"
  using sum_size_snd [where f = size and g = "\<lambda>_. 0" and es = "am_optionals a"] sum_size_list [of size "am_body a"]
  by (cases a) (auto simp: arm_children_def o_def)

lemma sum_size_arms: "(\<Sum>x \<leftarrow> concat (map arm_children as). Suc (size x)) \<le> size_list size as"
proof (induction as)
  case (Cons a as)
  then show ?case using sum_size_arm [of a] by simp
qed simp

lemma sum_size_closure: "(\<Sum>x \<leftarrow> closure_children c. Suc (size x)) \<le> size c"
  using sum_size_snd [where f = size and g = "\<lambda>_. 0" and es = "cm_captured c"] sum_size_arms [of "cm_arms c"]
  by (cases c) (auto simp: closure_children_def o_def)

lemma sum_size_children: "(\<Sum>x \<leftarrow> for_each_child m. Suc (size x)) \<le> size m"
  using sum_size_list [of size] sum_size_pairs [of size] sum_size_closure
  by (cases m) (auto intro: le_SucI)

lemma sum_list_member: "x \<in> set xs \<Longrightarrow> f x \<le> (\<Sum>y \<leftarrow> xs. f y :: nat)"
  by (induction xs) auto

lemma size_child: "c \<in> set (for_each_child m) \<Longrightarrow> size c < size m"
  using sum_size_children [of m] sum_list_member [of c "for_each_child m" "\<lambda>x. Suc (size x)"] by simp

lemma message_induct [case_names children]:
  assumes "\<And>m. (\<And>c. c \<in> set (for_each_child m) \<Longrightarrow> P c) \<Longrightarrow> P m"
  shows "P m"
  by (induction m rule: measure_induct_rule [of size]) (blast intro: assms size_child)

section \<open>Submessages\<close>

text \<open>The specification of a walk: a message and everything nested in it.\<close>

function submessages :: "'s message \<Rightarrow> 's message list" where
  "submessages m = m # concat (map submessages (for_each_child m))"
  by pat_completeness auto
termination by (relation "measure size") (auto simp: size_child)

declare submessages.simps [simp del]

text \<open>The depth of nesting, a leaf being at depth one.\<close>

function mdepth :: "'s message \<Rightarrow> nat" where
  "mdepth m = Suc (foldr max (map mdepth (for_each_child m)) 0)"
  by pat_completeness auto
termination by (relation "measure size") (auto simp: size_child)

declare mdepth.simps [simp del]

lemma foldr_max_ge: "x \<in> set xs \<Longrightarrow> x \<le> foldr max xs (0 :: nat)"
  by (induction xs) auto

lemma mdepth_child: "c \<in> set (for_each_child m) \<Longrightarrow> mdepth c < mdepth m"
  by (subst (2) mdepth.simps) (auto intro: foldr_max_ge simp: less_Suc_eq_le)

section \<open>The worklist walks\<close>

text \<open>
  \<open>while let Some(next) = pending.pop() { ...; next.for_each_child(|child| pending.push(child)) }\<close>:
  the stack's top is the list's head, so the last child pushed is the next one popped.
\<close>

definition pending_size :: "'s message list \<Rightarrow> nat" where
  "pending_size pending = (\<Sum>m \<leftarrow> pending. Suc (size m))"

lemma pending_size_pop:
  "pending_size (rev (for_each_child m) @ pending) < pending_size (m # pending)"
  using sum_size_children [of m] by (simp add: pending_size_def rev_map [symmetric] sum_list_rev)

function drain :: "('a \<Rightarrow> 's message \<Rightarrow> 'a) \<Rightarrow> 'a \<Rightarrow> 's message list \<Rightarrow> 'a" where
  "drain step acc [] = acc"
| "drain step acc (m # pending) = drain step (step acc m) (rev (for_each_child m) @ pending)"
  by pat_completeness auto
termination by (relation "measure (\<lambda>(step, acc, pending). pending_size pending)") (auto intro: pending_size_pop)

definition positioned_lists :: "'s message \<Rightarrow> nat" where
  "positioned_lists message =
     drain (\<lambda>total m. case m of MList items (Some p) \<Rightarrow> if items \<noteq> [] then total + 1 else total | _ \<Rightarrow> total)
       0 [message]"

text \<open>\<open>node_size\<close> is \<open>size_of::<Message>()\<close>, \<open>capacity\<close> the capacity of a string's buffer.\<close>

definition message_bytes :: "nat \<Rightarrow> (rstring \<Rightarrow> nat) \<Rightarrow> 's message \<Rightarrow> nat" where
  "message_bytes node_size capacity message =
     drain (\<lambda>total m. total + node_size +
        (case m of
           MBigInt text \<Rightarrow> capacity text | MDecimal text \<Rightarrow> capacity text | MRatio text \<Rightarrow> capacity text
         | MStr text \<Rightarrow> capacity text
         | MStrShared blob \<Rightarrow> length blob | MBytes blob \<Rightarrow> length blob
         | _ \<Rightarrow> 0))
       0 [message]"

fun is_record :: "'s message \<Rightarrow> bool" where
  "is_record (MRecord i entries) = True"
| "is_record _ = False"

function holds_record_loop :: "'s message list \<Rightarrow> bool" where
  "holds_record_loop [] = False"
| "holds_record_loop (m # work) = (if is_record m then True else holds_record_loop (rev (for_each_child m) @ work))"
  by pat_completeness auto
termination by (relation "measure pending_size") (auto intro: pending_size_pop)

definition holds_record :: "'s message \<Rightarrow> bool" where
  "holds_record m = holds_record_loop [m]"

subsection \<open>What the walks visit\<close>

lemma drain_sum:
  "drain (\<lambda>total m. total + f m) acc pending = acc + (\<Sum>x \<leftarrow> concat (map submessages pending). f x :: nat)"
proof (induction "\<lambda>total m. total + f m" acc pending rule: drain.induct)
  case (2 acc m pending)
  have "(\<Sum>x \<leftarrow> concat (map submessages (rev xs)). f x) = (\<Sum>x \<leftarrow> concat (map submessages xs). f x)" for xs
    by (induction xs) auto
  with 2 show ?case by (simp add: submessages.simps [of m])
qed simp

lemma holds_record_loop_iff: "holds_record_loop work \<longleftrightarrow> (\<exists>x \<in> set (concat (map submessages work)). is_record x)"
proof (induction work rule: holds_record_loop.induct)
  case (2 m work)
  then show ?case by (auto simp: submessages.simps [of m])
qed simp

text \<open>
  the record screen. \<open>holds_record\<close> finds a record exactly when the message is one or nests one at
  any depth, in a container or inside a shipped closure, so a message it passes is one a v10 link can
  carry.
\<close>

theorem holds_record_iff: "holds_record m \<longleftrightarrow> (\<exists>x \<in> set (submessages m). is_record x)"
  by (simp add: holds_record_def holds_record_loop_iff)

text \<open>
  the position count. \<open>positioned_lists\<close> is the number of nested non-empty lists that carry a
  source position.
\<close>

theorem positioned_lists_count:
  "positioned_lists m = length (filter (\<lambda>x. \<exists>i is p. x = MList (i # is) (Some p)) (submessages m))"
proof -
  let ?P = "\<lambda>x. \<exists>i is p. x = MList (i # is) (Some p)"
  have "(\<lambda>total m. case m of MList items (Some p) \<Rightarrow> if items \<noteq> [] then total + 1 else total | _ \<Rightarrow> total) =
      (\<lambda>(total :: nat) m :: 'a message. total + (if ?P m then 1 else 0))"
    by (intro ext) (auto simp: neq_Nil_conv split: message.split option.split)
  moreover have "(\<Sum>x \<leftarrow> xs. if ?P x then 1 else 0) = length (filter ?P xs)" for xs :: "'a message list"
    by (induction xs) auto
  ultimately show ?thesis by (simp add: positioned_lists_def drain_sum)
qed

text \<open>
  the size estimate. \<open>message_bytes\<close> charges every nested message once, closures included: the sum
  over all submessages of a node and the text or blob it holds.
\<close>

theorem message_bytes_sum:
  "message_bytes ns cap m = (\<Sum>x \<leftarrow> submessages m. ns +
     (case x of
        MBigInt text \<Rightarrow> cap text | MDecimal text \<Rightarrow> cap text | MRatio text \<Rightarrow> cap text | MStr text \<Rightarrow> cap text
      | MStrShared blob \<Rightarrow> length blob | MBytes blob \<Rightarrow> length blob | _ \<Rightarrow> 0))"
  unfolding message_bytes_def add.assoc drain_sum by simp

end
