(* ===== verification/Wire_Codec.thy ===== *)
theory Wire_Codec
  imports Message
begin

text \<open>
  The wire codec of the distributed-node protocol, \<open>dist/wire.rs\<close>: messages and frames to bytes and
  back. An encoder returns the bytes it appends; a decoder reads from the front of the buffer and
  threads the interner and the counter of symbols minted from the wire. Errors are values of
  \<open>io_error\<close>; \<open>Panicked\<close> is a Rust panic (the spelling of an id that was never interned).
\<close>

datatype io_error = InvalidData | InvalidInput | UnexpectedEof | Panicked

section \<open>Bytes and text\<close>

definition to_be_bytes :: "'a::len word \<Rightarrow> u8 list" where
  "to_be_bytes w = map (\<lambda>i. ucast (drop_bit (8 * i) w)) (rev [0..<LENGTH('a) div 8])"

definition from_be_bytes :: "u8 list \<Rightarrow> 'a::len word" where
  "from_be_bytes = foldl (\<lambda>acc b. push_bit 8 acc OR ucast b) 0"

text \<open>\<open>String::from_utf8\<close>: the well-formed byte sequences of the Unicode standard.\<close>

definition cont :: "u8 \<Rightarrow> bool" where
  "cont b \<longleftrightarrow> 0x80 \<le> b \<and> b \<le> 0xBF"

fun utf8_valid :: "u8 list \<Rightarrow> bool" where
  "utf8_valid [] = True"
| "utf8_valid (b # bs) =
     (if b < 0x80 then utf8_valid bs
      else if 0xC2 \<le> b \<and> b \<le> 0xDF
      then (case bs of c # cs \<Rightarrow> cont c \<and> utf8_valid cs | _ \<Rightarrow> False)
      else if 0xE0 \<le> b \<and> b \<le> 0xEF
      then (case bs of
              c # d # cs \<Rightarrow>
                cont c \<and> (b = 0xE0 \<longrightarrow> 0xA0 \<le> c) \<and> (b = 0xED \<longrightarrow> c \<le> 0x9F) \<and> cont d \<and> utf8_valid cs
            | _ \<Rightarrow> False)
      else if 0xF0 \<le> b \<and> b \<le> 0xF4
      then (case bs of
              c # d # e # cs \<Rightarrow>
                cont c \<and> (b = 0xF0 \<longrightarrow> 0x90 \<le> c) \<and> (b = 0xF4 \<longrightarrow> c \<le> 0x8F) \<and>
                cont d \<and> cont e \<and> utf8_valid cs
            | _ \<Rightarrow> False)
      else False)"

section \<open>Frames\<close>

datatype 's target = Pid u64 | Name 's

datatype lane = Normal | Priority | Latest rstring

datatype 's frame =
    Hello rstring "u8 list" "u8 list" rstring u64
  | Auth "u8 list"
  | Send "'s target" "'s message" lane
  | Ping
  | Pong
  | Monitor u64 u64 u64
  | MonitorName u64 's u64
  | Demonitor u64 u64
  | Down u64 u64 u64 "'s message"
  | Link u64 u64
  | Unlink u64 u64
  | Exit u64 u64 "'s message" bool
  | Peers "('s \<times> rstring) list"

definition FRAME_HELLO :: u8 where "FRAME_HELLO = 0"
definition FRAME_SEND :: u8 where "FRAME_SEND = 1"
definition FRAME_PING :: u8 where "FRAME_PING = 2"
definition FRAME_PONG :: u8 where "FRAME_PONG = 3"
definition FRAME_MONITOR :: u8 where "FRAME_MONITOR = 4"
definition FRAME_DEMONITOR :: u8 where "FRAME_DEMONITOR = 5"
definition FRAME_AUTH :: u8 where "FRAME_AUTH = 6"
definition FRAME_LINK :: u8 where "FRAME_LINK = 7"
definition FRAME_UNLINK :: u8 where "FRAME_UNLINK = 8"
definition FRAME_EXIT :: u8 where "FRAME_EXIT = 9"
definition FRAME_PEERS :: u8 where "FRAME_PEERS = 10"
definition FRAME_DOWN :: u8 where "FRAME_DOWN = 11"
definition FRAME_MONITOR_NAME :: u8 where "FRAME_MONITOR_NAME = 12"
definition FRAME_SEND_LANE :: u8 where "FRAME_SEND_LANE = 13"
definition TARGET_PID :: u8 where "TARGET_PID = 0"
definition TARGET_NAME :: u8 where "TARGET_NAME = 1"
definition LANE_NORMAL :: u8 where "LANE_NORMAL = 0"
definition LANE_PRIORITY :: u8 where "LANE_PRIORITY = 1"
definition LANE_LATEST :: u8 where "LANE_LATEST = 2"
definition MAX_GOSSIP_PEERS :: nat where "MAX_GOSSIP_PEERS = 4096"
definition NONCE_LEN :: nat where "NONCE_LEN = 32"
definition MAC_LEN :: nat where "MAC_LEN = 32"
definition EPH_PUB_LEN :: nat where "EPH_PUB_LEN = 32"
definition MAX_FRAME :: nat where "MAX_FRAME = 64 * 1024 * 1024"

definition M_NIL :: u8 where "M_NIL = 0"
definition M_FALSE :: u8 where "M_FALSE = 1"
definition M_TRUE :: u8 where "M_TRUE = 2"
definition M_INT :: u8 where "M_INT = 3"
definition M_FLOAT :: u8 where "M_FLOAT = 4"
definition M_STR :: u8 where "M_STR = 5"
definition M_SYM :: u8 where "M_SYM = 6"
definition M_KEYWORD :: u8 where "M_KEYWORD = 7"
definition M_LIST :: u8 where "M_LIST = 8"
definition M_VECTOR :: u8 where "M_VECTOR = 9"
definition M_MAP :: u8 where "M_MAP = 10"
definition M_REF :: u8 where "M_REF = 11"
definition M_PID :: u8 where "M_PID = 12"
definition M_CLOSURE :: u8 where "M_CLOSURE = 13"
definition M_BIGINT :: u8 where "M_BIGINT = 14"
definition M_DECIMAL :: u8 where "M_DECIMAL = 15"
definition M_SET :: u8 where "M_SET = 16"
definition M_RATIO :: u8 where "M_RATIO = 17"
definition M_NATIVE :: u8 where "M_NATIVE = 18"
definition M_BYTES :: u8 where "M_BYTES = 19"
definition M_FAILURE :: u8 where "M_FAILURE = 20"
definition M_DOTTED :: u8 where "M_DOTTED = 21"
definition M_RECORD :: u8 where "M_RECORD = 22"

lemmas frame_tags = FRAME_HELLO_def FRAME_SEND_def FRAME_PING_def FRAME_PONG_def FRAME_MONITOR_def
  FRAME_DEMONITOR_def FRAME_AUTH_def FRAME_LINK_def FRAME_UNLINK_def FRAME_EXIT_def FRAME_PEERS_def
  FRAME_DOWN_def FRAME_MONITOR_NAME_def FRAME_SEND_LANE_def TARGET_PID_def TARGET_NAME_def
  LANE_NORMAL_def LANE_PRIORITY_def LANE_LATEST_def

lemmas message_tags = M_NIL_def M_FALSE_def M_TRUE_def M_INT_def M_FLOAT_def M_STR_def M_SYM_def
  M_KEYWORD_def M_LIST_def M_VECTOR_def M_MAP_def M_REF_def M_PID_def M_CLOSURE_def M_BIGINT_def
  M_DECIMAL_def M_SET_def M_RATIO_def M_NATIVE_def M_BYTES_def M_FAILURE_def M_DOTTED_def M_RECORD_def

section \<open>Encoding\<close>

type_synonym written = "io_error + u8 list"

text \<open>Consecutive writes; the first that fails aborts the encoding.\<close>

fun wcat :: "written list \<Rightarrow> written" where
  "wcat [] = Inr []"
| "wcat (Inl e # ws) = Inl e"
| "wcat (Inr b # ws) = (case wcat ws of Inl e \<Rightarrow> Inl e | Inr bs \<Rightarrow> Inr (b @ bs))"

definition push :: "u8 \<Rightarrow> written" where
  "push b = Inr [b]"

definition put_u32 :: "u32 \<Rightarrow> written" where
  "put_u32 n = Inr (to_be_bytes n)"

definition put_u64 :: "u64 \<Rightarrow> written" where
  "put_u64 n = Inr (to_be_bytes n)"

definition put_raw :: "u8 list \<Rightarrow> written" where
  "put_raw bs = Inr bs"

text \<open>\<open>xs.len() as u32\<close>: the cast wraps.\<close>

definition put_len :: "'a list \<Rightarrow> written" where
  "put_len xs = put_u32 (of_nat (length xs))"

definition put_str :: "rstring \<Rightarrow> written" where
  "put_str s = wcat [put_len s, put_raw s]"

definition put_bytes :: "u8 list \<Rightarrow> written" where
  "put_bytes b = wcat [put_len b, put_raw b]"

definition put_sym :: "interner \<Rightarrow> symbol \<Rightarrow> written" where
  "put_sym I s = (case symbol_name I s of Some n \<Rightarrow> put_str n | None \<Rightarrow> Inl Panicked)"

definition put_opt_sym :: "interner \<Rightarrow> symbol option \<Rightarrow> written" where
  "put_opt_sym I s = (case s of Some s \<Rightarrow> wcat [push 1, put_sym I s] | None \<Rightarrow> push 0)"

definition put_opt_str :: "rstring option \<Rightarrow> written" where
  "put_opt_str s = (case s of Some s \<Rightarrow> wcat [push 1, put_str s] | None \<Rightarrow> push 0)"

definition put_opt_pos :: "pos option \<Rightarrow> written" where
  "put_opt_pos p = (case p of Some p \<Rightarrow> wcat [push 1, put_u32 (line p), put_u32 (col p)] | None \<Rightarrow> push 0)"

lemma size_pair_member:
  "(k, v) \<in> set es \<Longrightarrow> f k \<le> size_list (size_prod f f) es \<and> f v \<le> size_list (size_prod f f) es"
  using size_list_estimation' [of "(k, v)" es "f k" "size_prod f f"]
    size_list_estimation' [of "(k, v)" es "f v" "size_prod f f"] by simp

lemma size_closure_parts:
  "a \<in> set (cm_arms c) \<Longrightarrow> size a < size c"
  "(s, m) \<in> set (cm_captured c) \<Longrightarrow> size m < size c"
  "(s, m) \<in> set (am_optionals a) \<Longrightarrow> size m < size a"
  "m \<in> set (am_body a) \<Longrightarrow> size m < size a"
  using size_list_estimation' [of a "cm_arms c" "size a" size]
    size_list_estimation' [of "(s, m)" "cm_captured c" "size m" "size_prod (\<lambda>_. 0) size"]
    size_list_estimation' [of "(s, m)" "am_optionals a" "size m" "size_prod (\<lambda>_. 0) size"]
    size_list_estimation' [of m "am_body a" "size m" size]
  by (cases c; cases a; simp)+

function encode_msg :: "interner \<Rightarrow> symbol message \<Rightarrow> written"
  and encode_closure :: "interner \<Rightarrow> symbol closure_msg \<Rightarrow> written"
  and encode_arm :: "interner \<Rightarrow> symbol closure_arm_msg \<Rightarrow> written" where
  "encode_msg I m =
     (case m of
        MNil \<Rightarrow> push M_NIL
      | MBool b \<Rightarrow> push (if b then M_TRUE else M_FALSE)
      | MInt n \<Rightarrow> wcat [push M_INT, put_u64 n]
      | MBigInt s \<Rightarrow> wcat [push M_BIGINT, put_str s]
      | MDecimal s \<Rightarrow> wcat [push M_DECIMAL, put_str s]
      | MRatio s \<Rightarrow> wcat [push M_RATIO, put_str s]
      | MFloat f \<Rightarrow> wcat [push M_FLOAT, put_u64 f]
      | MStr s \<Rightarrow> wcat [push M_STR, put_str s]
      | MStrShared blob \<Rightarrow> wcat [push M_STR, if utf8_valid blob then put_str blob else Inl Panicked]
      | MSym s \<Rightarrow> wcat [push M_SYM, put_sym I s]
      | MKeyword s \<Rightarrow> wcat [push M_KEYWORD, put_sym I s]
      | MNative s \<Rightarrow> wcat [push M_NATIVE, put_sym I s]
      | MList items pos \<Rightarrow> wcat ([push M_LIST, put_len items] @ map (encode_msg I) items @ [put_opt_pos pos])
      | MDotted items \<Rightarrow> wcat ([push M_DOTTED, put_len items] @ map (encode_msg I) items)
      | MVector items \<Rightarrow> wcat ([push M_VECTOR, put_len items] @ map (encode_msg I) items)
      | MMap entries \<Rightarrow> wcat ([push M_MAP, put_len entries] @
          map (\<lambda>(k, v). wcat [encode_msg I k, encode_msg I v]) entries)
      | MFailure entries \<Rightarrow> wcat ([push M_FAILURE, put_len entries] @
          map (\<lambda>(k, v). wcat [encode_msg I k, encode_msg I v]) entries)
      | MRecord i entries \<Rightarrow> wcat ([push M_RECORD, put_sym I i, put_len entries] @
          map (\<lambda>(k, v). wcat [encode_msg I k, encode_msg I v]) entries)
      | MSet items \<Rightarrow> wcat ([push M_SET, put_len items] @ map (encode_msg I) items)
      | MRef n \<Rightarrow> wcat [push M_REF, put_u64 n]
      | MPid node n \<Rightarrow> wcat [push M_PID, put_sym I node, put_u64 n]
      | MClosure c \<Rightarrow> wcat [push M_CLOSURE, encode_closure I c]
      | MSocket n \<Rightarrow> Inl InvalidInput
      | MSubprocess n \<Rightarrow> Inl InvalidInput
      | MTable n \<Rightarrow> Inl InvalidInput
      | MFnShared bits \<Rightarrow> Inl InvalidInput
      | MBytes blob \<Rightarrow> wcat [push M_BYTES, put_bytes blob])"
| "encode_closure I c =
     (if cm_shared_arms c \<noteq> None then Inl InvalidInput
      else wcat ([put_opt_sym I (cm_name c), put_len (cm_arms c)] @ map (encode_arm I) (cm_arms c) @
        [put_opt_str (cm_doc c), put_len (cm_modules c)] @
        map (\<lambda>(m, p). wcat [put_sym I m, put_sym I p]) (cm_modules c) @
        [put_len (cm_captured c)] @ map (\<lambda>(s, m). wcat [put_sym I s, encode_msg I m]) (cm_captured c) @
        [put_opt_sym I (cm_module c)]))"
| "encode_arm I arm =
     wcat ([put_len (am_params arm)] @ map (put_sym I) (am_params arm) @
       [put_len (am_optionals arm)] @ map (\<lambda>(s, m). wcat [put_sym I s, encode_msg I m]) (am_optionals arm) @
       [put_opt_sym I (am_rest arm), put_len (am_body arm)] @ map (encode_msg I) (am_body arm))"
  by pat_completeness auto

termination
proof (relation "measure (case_sum (\<lambda>(I, m). size m) (case_sum (\<lambda>(I, c). size c) (\<lambda>(I, a). size a)))",
    goal_cases)
  case 1
  show ?case by simp
qed (auto simp: less_Suc_eq_le intro: size_list_estimation' dest: size_pair_member size_closure_parts)

declare encode_msg.simps [simp del] encode_closure.simps [simp del] encode_arm.simps [simp del]

definition encode_target :: "interner \<Rightarrow> symbol target \<Rightarrow> written" where
  "encode_target I t =
     (case t of
        Pid i \<Rightarrow> wcat [push TARGET_PID, put_u64 i]
      | Name s \<Rightarrow> wcat [push TARGET_NAME, put_sym I s])"

definition encode_lane :: "lane \<Rightarrow> written" where
  "encode_lane l =
     (case l of
        Normal \<Rightarrow> push LANE_NORMAL
      | Priority \<Rightarrow> push LANE_PRIORITY
      | Latest key \<Rightarrow> wcat [push LANE_LATEST, put_str key])"

definition encode_frame :: "interner \<Rightarrow> symbol frame \<Rightarrow> written" where
  "encode_frame I f =
     (case f of
        Hello node nonce eph_pub addr incarnation \<Rightarrow>
          wcat [push FRAME_HELLO, put_str node, put_raw nonce, put_raw eph_pub, put_str addr, put_u64 incarnation]
      | Auth mac \<Rightarrow> wcat [push FRAME_AUTH, put_raw mac]
      | Send target msg lane \<Rightarrow>
          if lane = Normal
          then wcat [push FRAME_SEND, encode_target I target, encode_msg I msg]
          else wcat [push FRAME_SEND_LANE, encode_target I target, encode_msg I msg, encode_lane lane]
      | Ping \<Rightarrow> push FRAME_PING
      | Pong \<Rightarrow> push FRAME_PONG
      | Monitor watcher_pid target mref \<Rightarrow>
          wcat [push FRAME_MONITOR, put_u64 watcher_pid, put_u64 target, put_u64 mref]
      | MonitorName watcher_pid name mref \<Rightarrow>
          wcat [push FRAME_MONITOR_NAME, put_u64 watcher_pid, put_sym I name, put_u64 mref]
      | Demonitor watcher_pid mref \<Rightarrow> wcat [push FRAME_DEMONITOR, put_u64 watcher_pid, put_u64 mref]
      | Down watcher_pid mref target_pid reason \<Rightarrow>
          wcat [push FRAME_DOWN, put_u64 watcher_pid, put_u64 mref, put_u64 target_pid, encode_msg I reason]
      | Link from_pid to_pid \<Rightarrow> wcat [push FRAME_LINK, put_u64 from_pid, put_u64 to_pid]
      | Unlink from_pid to_pid \<Rightarrow> wcat [push FRAME_UNLINK, put_u64 from_pid, put_u64 to_pid]
      | Exit from_pid to_pid reason link \<Rightarrow>
          wcat [push FRAME_EXIT, put_u64 from_pid, put_u64 to_pid, push (if link then 1 else 0), encode_msg I reason]
      | Peers peers \<Rightarrow>
          wcat ([push FRAME_PEERS, put_len peers] @ map (\<lambda>(node, addr). wcat [put_sym I node, put_str addr]) peers))"

definition encode_payload :: "interner \<Rightarrow> symbol frame \<Rightarrow> written" where
  "encode_payload I frame =
     (case encode_frame I frame of
        Inl e \<Rightarrow> Inl e
      | Inr payload \<Rightarrow> if length payload > MAX_FRAME then Inl InvalidData else Inr payload)"

definition len_prefixed :: "u8 list \<Rightarrow> u8 list" where
  "len_prefixed body = to_be_bytes (of_nat (length body) :: u32) @ body"

definition frame_bytes :: "interner \<Rightarrow> symbol frame \<Rightarrow> written" where
  "frame_bytes I frame =
     (case encode_payload I frame of Inl e \<Rightarrow> Inl e | Inr payload \<Rightarrow> Inr (len_prefixed payload))"

section \<open>Decoding\<close>

text \<open>The reader's state: the bytes left, this runtime's interner, the symbols minted from the wire.\<close>

record rd =
  buf :: "u8 list"
  tbl :: interner
  minted :: nat

type_synonym 'a reader = "rd \<Rightarrow> io_error + 'a \<times> rd"

definition ret :: "'a \<Rightarrow> 'a reader" where
  "ret x r = Inr (x, r)"

definition err :: "io_error \<Rightarrow> 'a reader" where
  "err e r = Inl e"

definition rbind :: "'a reader \<Rightarrow> ('a \<Rightarrow> 'b reader) \<Rightarrow> 'b reader" where
  "rbind m f r = (case m r of Inl e \<Rightarrow> Inl e | Inr (x, r') \<Rightarrow> f x r')"

definition read_exact :: "nat \<Rightarrow> u8 list reader" where
  "read_exact n r =
     (if n \<le> length (buf r) then Inr (take n (buf r), r\<lparr>buf := drop n (buf r)\<rparr>) else Inl UnexpectedEof)"

definition remaining :: "rd \<Rightarrow> nat" where
  "remaining r = length (buf r)"

definition PREALLOC_CAP :: nat where "PREALLOC_CAP = 4096"

definition prealloc :: "rd \<Rightarrow> nat \<Rightarrow> nat" where
  "prealloc r n = min (min n (remaining r)) PREALLOC_CAP"

definition get_u8 :: "u8 reader" where
  "get_u8 = rbind (read_exact 1) (\<lambda>b. ret (hd b))"

definition get_u32 :: "u32 reader" where
  "get_u32 = rbind (read_exact 4) (\<lambda>b. ret (from_be_bytes b))"

definition get_u64 :: "u64 reader" where
  "get_u64 = rbind (read_exact 8) (\<lambda>b. ret (from_be_bytes b))"

definition get_len :: "nat reader" where
  "get_len = rbind get_u32 (\<lambda>n. ret (unat n))"

definition get_bytes :: "u8 list reader" where
  "get_bytes = rbind get_len (\<lambda>n r. if n > remaining r then Inl InvalidData else read_exact n r)"

definition get_str :: "rstring reader" where
  "get_str = rbind get_len (\<lambda>n r. if n > remaining r then Inl InvalidData
     else rbind (read_exact n) (\<lambda>b. if utf8_valid b then ret b else err InvalidData) r)"

definition MAX_WIRE_SYMBOLS :: nat where "MAX_WIRE_SYMBOLS = 2 ^ 20"

definition get_sym :: "symbol reader" where
  "get_sym = rbind get_str (\<lambda>name r.
     case intern_existing None (tbl r) name of
       Some i \<Rightarrow> Inr (i, r)
     | None \<Rightarrow>
         if minted r \<ge> MAX_WIRE_SYMBOLS then Inl InvalidData
         else let (_, I', i) = intern None (tbl r) name in Inr (i, r\<lparr>tbl := I', minted := minted r + 1\<rparr>))"

definition get_opt_sym :: "symbol option reader" where
  "get_opt_sym = rbind get_u8 (\<lambda>t.
     if t = 0 then ret None else if t = 1 then rbind get_sym (\<lambda>s. ret (Some s)) else err InvalidData)"

definition get_opt_str :: "rstring option reader" where
  "get_opt_str = rbind get_u8 (\<lambda>t.
     if t = 0 then ret None else if t = 1 then rbind get_str (\<lambda>s. ret (Some s)) else err InvalidData)"

definition get_opt_pos :: "pos option reader" where
  "get_opt_pos = rbind get_u8 (\<lambda>t.
     if t = 0 then ret None
     else if t = 1 then rbind get_u32 (\<lambda>l. rbind get_u32 (\<lambda>c. ret (Some \<lparr>line = l, col = c\<rparr>)))
     else err InvalidData)"

text \<open>\<open>for _ in 0..n\<close> with one push per round.\<close>

fun read_n :: "nat \<Rightarrow> 'a reader \<Rightarrow> 'a list reader" where
  "read_n 0 d = ret []"
| "read_n (Suc n) d = rbind d (\<lambda>x. rbind (read_n n d) (\<lambda>xs. ret (x # xs)))"

definition read_pair :: "'a reader \<Rightarrow> 'b reader \<Rightarrow> ('a \<times> 'b) reader" where
  "read_pair d e = rbind d (\<lambda>x. rbind e (\<lambda>y. ret (x, y)))"

definition read_list :: "'a reader \<Rightarrow> 'a list reader" where
  "read_list d = rbind get_len (\<lambda>n. read_n n d)"

definition MAX_DECODE_DEPTH :: nat where "MAX_DECODE_DEPTH = 2 ^ 20"

text \<open>The body of \<open>decode_closure_at\<close>, given the decoder of the messages nested in the closure.\<close>

definition decode_arm_with :: "symbol message reader \<Rightarrow> symbol closure_arm_msg reader" where
  "decode_arm_with d =
     rbind (read_list get_sym) (\<lambda>params.
     rbind (read_list (read_pair get_sym d)) (\<lambda>optionals.
     rbind get_opt_sym (\<lambda>rest.
     rbind (read_list d) (\<lambda>body.
     ret (ClosureArmMsg params optionals rest body)))))"

definition decode_closure_with :: "symbol message reader \<Rightarrow> symbol closure_msg reader" where
  "decode_closure_with d =
     rbind get_opt_sym (\<lambda>name.
     rbind (read_list (decode_arm_with d)) (\<lambda>arms.
     rbind get_opt_str (\<lambda>doc.
     rbind (read_list (read_pair get_sym get_sym)) (\<lambda>modules.
     rbind (read_list (read_pair get_sym d)) (\<lambda>captured.
     rbind get_opt_sym (\<lambda>module.
     ret (ClosureMsg name arms doc captured modules module None)))))))"

text \<open>
  The match of \<open>decode_msg_at_inner\<close> on the tag byte, given the decoder of the messages one level down.
\<close>

definition decode_tag_with :: "symbol message reader \<Rightarrow> u8 \<Rightarrow> symbol message reader" where
  "decode_tag_with d t =
    (if t = M_NIL then ret MNil
     else if t = M_FALSE then ret (MBool False)
     else if t = M_TRUE then ret (MBool True)
     else if t = M_INT then rbind get_u64 (\<lambda>n. ret (MInt n))
     else if t = M_BIGINT then rbind get_str (\<lambda>s. ret (MBigInt s))
     else if t = M_DECIMAL then rbind get_str (\<lambda>s. ret (MDecimal s))
     else if t = M_RATIO then rbind get_str (\<lambda>s. ret (MRatio s))
     else if t = M_FLOAT then rbind get_u64 (\<lambda>f. ret (MFloat f))
     else if t = M_STR then rbind get_str (\<lambda>s. ret (MStr s))
     else if t = M_SYM then rbind get_sym (\<lambda>s. ret (MSym s))
     else if t = M_KEYWORD then rbind get_sym (\<lambda>s. ret (MKeyword s))
     else if t = M_NATIVE then rbind get_sym (\<lambda>s. ret (MNative s))
     else if t = M_BYTES then rbind get_bytes (\<lambda>b. ret (MBytes b))
     else if t = M_LIST then rbind (read_list d) (\<lambda>items.
       rbind get_opt_pos (\<lambda>p. ret (MList items p)))
     else if t = M_DOTTED then rbind get_len (\<lambda>n.
       if n < 2 then err InvalidData
       else rbind (read_n n d) (\<lambda>items. ret (MDotted items)))
     else if t = M_VECTOR then rbind (read_list d) (\<lambda>items. ret (MVector items))
     else if t = M_MAP then
       rbind (read_list (read_pair d d)) (\<lambda>es. ret (MMap es))
     else if t = M_RECORD then rbind get_sym (\<lambda>i.
       rbind (read_list (read_pair d d)) (\<lambda>es. ret (MRecord i es)))
     else if t = M_FAILURE then
       rbind (read_list (read_pair d d)) (\<lambda>es. ret (MFailure es))
     else if t = M_SET then rbind (read_list d) (\<lambda>items. ret (MSet items))
     else if t = M_REF then rbind get_u64 (\<lambda>n. ret (MRef n))
     else if t = M_PID then rbind get_sym (\<lambda>node. rbind get_u64 (\<lambda>n. ret (MPid node n)))
     else if t = M_CLOSURE then rbind (decode_closure_with d) (\<lambda>c. ret (MClosure c))
     else err InvalidData)"

function decode_msg_at :: "nat \<Rightarrow> symbol message reader" where
  "decode_msg_at depth =
     (if depth \<ge> MAX_DECODE_DEPTH then err InvalidData
      else rbind get_u8 (decode_tag_with (decode_msg_at (depth + 1))))"
  by pat_completeness auto
termination by (relation "measure (\<lambda>depth. MAX_DECODE_DEPTH - depth)") auto

declare decode_msg_at.simps [simp del]

definition decode_closure_at :: "nat \<Rightarrow> symbol closure_msg reader" where
  "decode_closure_at depth = decode_closure_with (decode_msg_at depth)"

definition decode_msg :: "symbol message reader" where
  "decode_msg = decode_msg_at 0"

definition decode_target :: "symbol target reader" where
  "decode_target = rbind get_u8 (\<lambda>t.
     if t = TARGET_PID then rbind get_u64 (\<lambda>i. ret (Pid i))
     else if t = TARGET_NAME then rbind get_sym (\<lambda>s. ret (Name s))
     else err InvalidData)"

definition decode_lane :: "lane reader" where
  "decode_lane = rbind get_u8 (\<lambda>t.
     if t = LANE_NORMAL then ret Normal
     else if t = LANE_PRIORITY then ret Priority
     else if t = LANE_LATEST then rbind get_str (\<lambda>k. ret (Latest k))
     else err InvalidData)"

definition decode_frame_tag :: "u8 \<Rightarrow> symbol frame reader" where
  "decode_frame_tag t =
    (if t = FRAME_HELLO then
       rbind get_str (\<lambda>node. rbind (read_exact NONCE_LEN) (\<lambda>nonce. rbind (read_exact EPH_PUB_LEN) (\<lambda>eph_pub.
       rbind get_str (\<lambda>addr. rbind get_u64 (\<lambda>incarnation. ret (Hello node nonce eph_pub addr incarnation))))))
     else if t = FRAME_AUTH then rbind (read_exact MAC_LEN) (\<lambda>mac. ret (Auth mac))
     else if t = FRAME_SEND then
       rbind decode_target (\<lambda>target. rbind decode_msg (\<lambda>msg. ret (Send target msg Normal)))
     else if t = FRAME_SEND_LANE then
       rbind decode_target (\<lambda>target. rbind decode_msg (\<lambda>msg. rbind decode_lane (\<lambda>lane. ret (Send target msg lane))))
     else if t = FRAME_PING then ret Ping
     else if t = FRAME_PONG then ret Pong
     else if t = FRAME_MONITOR then
       rbind get_u64 (\<lambda>watcher_pid. rbind get_u64 (\<lambda>target. rbind get_u64 (\<lambda>mref. ret (Monitor watcher_pid target mref))))
     else if t = FRAME_MONITOR_NAME then
       rbind get_u64 (\<lambda>watcher_pid. rbind get_sym (\<lambda>name. rbind get_u64 (\<lambda>mref. ret (MonitorName watcher_pid name mref))))
     else if t = FRAME_DEMONITOR then
       rbind get_u64 (\<lambda>watcher_pid. rbind get_u64 (\<lambda>mref. ret (Demonitor watcher_pid mref)))
     else if t = FRAME_DOWN then
       rbind get_u64 (\<lambda>watcher_pid. rbind get_u64 (\<lambda>mref. rbind get_u64 (\<lambda>target_pid.
       rbind decode_msg (\<lambda>reason. ret (Down watcher_pid mref target_pid reason)))))
     else if t = FRAME_LINK then rbind get_u64 (\<lambda>from_pid. rbind get_u64 (\<lambda>to_pid. ret (Link from_pid to_pid)))
     else if t = FRAME_UNLINK then rbind get_u64 (\<lambda>from_pid. rbind get_u64 (\<lambda>to_pid. ret (Unlink from_pid to_pid)))
     else if t = FRAME_EXIT then
       rbind get_u64 (\<lambda>from_pid. rbind get_u64 (\<lambda>to_pid. rbind get_u8 (\<lambda>link.
       rbind decode_msg (\<lambda>reason. ret (Exit from_pid to_pid reason (link \<noteq> 0))))))
     else if t = FRAME_PEERS then rbind get_len (\<lambda>n.
       if n > MAX_GOSSIP_PEERS then err InvalidData
       else rbind (read_n n (read_pair get_sym get_str)) (\<lambda>peers. ret (Peers peers)))
     else err InvalidData)"

definition decode_frame :: "symbol frame reader" where
  "decode_frame = rbind get_u8 decode_frame_tag"

text \<open>
  Reading one frame off a stream: the stream is the reader's buffer, and the payload is decoded from
  a cursor over its own bytes.
\<close>

definition read_frame_capped :: "nat \<Rightarrow> symbol frame reader" where
  "read_frame_capped max_len = rbind get_len (\<lambda>n.
     if n > max_len then err InvalidData
     else rbind (read_exact n) (\<lambda>payload r.
       case decode_frame (r\<lparr>buf := payload\<rparr>) of
         Inl e \<Rightarrow> Inl e
       | Inr (f, r') \<Rightarrow> Inr (f, r'\<lparr>buf := buf r\<rparr>)))"

end
