(* ===== verification/Wire_Roundtrip.thy ===== *)
theory Wire_Roundtrip
  imports Wire_Codec
begin

text \<open>
  What the codec promises: a frame that encodes within the size limit decodes, on any node, to the
  same frame with its symbols re-interned there. \<open>reads d b P c\<close> is the contract of a decoder \<open>d\<close> for
  the bytes \<open>b\<close>: whatever follows them, it consumes exactly \<open>b\<close> and returns a value satisfying \<open>P\<close> in
  the interner it leaves and in every later one, minting at most \<open>c\<close> symbols.
\<close>

section \<open>Big-endian words\<close>

lemma to_be_bytes_32:
  "to_be_bytes (w :: u32) = [ucast (drop_bit 24 w), ucast (drop_bit 16 w), ucast (drop_bit 8 w), ucast w]"
  by (simp add: to_be_bytes_def upt_rec)

lemma to_be_bytes_64:
  "to_be_bytes (w :: u64) = [ucast (drop_bit 56 w), ucast (drop_bit 48 w), ucast (drop_bit 40 w), ucast (drop_bit 32 w),
     ucast (drop_bit 24 w), ucast (drop_bit 16 w), ucast (drop_bit 8 w), ucast w]"
  by (simp add: to_be_bytes_def upt_rec)

lemma from_to_be_32: "from_be_bytes (to_be_bytes (w :: u32)) = w"
proof (rule bit_word_eqI)
  fix n assume "n < LENGTH(32)"
  then consider "n < 8" | "8 \<le> n" "n < 16" | "16 \<le> n" "n < 24" | "24 \<le> n" "n < 32" by fastforce
  then show "bit (from_be_bytes (to_be_bytes w) :: u32) n = bit w n"
    by cases (auto simp: to_be_bytes_32 from_be_bytes_def bit_simps)
qed

lemma from_to_be_64: "from_be_bytes (to_be_bytes (w :: u64)) = w"
proof (rule bit_word_eqI)
  fix n assume "n < LENGTH(64)"
  then consider "n < 8" | "8 \<le> n" "n < 16" | "16 \<le> n" "n < 24" | "24 \<le> n" "n < 32"
    | "32 \<le> n" "n < 40" | "40 \<le> n" "n < 48" | "48 \<le> n" "n < 56" | "56 \<le> n" "n < 64" by fastforce
  then show "bit (from_be_bytes (to_be_bytes w) :: u64) n = bit w n"
    by cases (auto simp: to_be_bytes_64 from_be_bytes_def bit_simps)
qed

lemma length_to_be [simp]: "length (to_be_bytes (w :: u32)) = 4" "length (to_be_bytes (v :: u64)) = 8"
  by (simp_all add: to_be_bytes_def)

lemma to_be_nonempty [simp]: "to_be_bytes (w :: u32) \<noteq> []" "to_be_bytes (v :: u64) \<noteq> []"
  by (simp_all add: to_be_bytes_32 to_be_bytes_64)

section \<open>The contract of a decoder\<close>

definition reads :: "'a reader \<Rightarrow> u8 list \<Rightarrow> (interner \<Rightarrow> 'a \<Rightarrow> bool) \<Rightarrow> nat \<Rightarrow> bool" where
  "reads d b P c \<longleftrightarrow>
     (\<forall>rest I m. interner_inv I \<and> length (NAMES I) + c \<le> 2 ^ 32 \<and> m + c \<le> MAX_WIRE_SYMBOLS \<longrightarrow>
       (\<exists>x I' m'. d \<lparr>buf = b @ rest, tbl = I, minted = m\<rparr> = Inr (x, \<lparr>buf = rest, tbl = I', minted = m'\<rparr>) \<and>
          interner_inv I' \<and> grows I I' \<and> length (NAMES I') \<le> length (NAMES I) + c \<and> m' \<le> m + c \<and>
          (\<forall>I''. grows I' I'' \<longrightarrow> P I'' x)))"

lemma readsE:
  assumes "reads d b P c" "interner_inv I" "length (NAMES I) + c \<le> 2 ^ 32" "m + c \<le> MAX_WIRE_SYMBOLS"
  obtains x I' m' where "d \<lparr>buf = b @ rest, tbl = I, minted = m\<rparr> = Inr (x, \<lparr>buf = rest, tbl = I', minted = m'\<rparr>)"
    "interner_inv I'" "grows I I'" "length (NAMES I') \<le> length (NAMES I) + c" "m' \<le> m + c"
    "\<And>I''. grows I' I'' \<Longrightarrow> P I'' x"
  using assms unfolding reads_def by blast

lemma reads_ret: "(\<And>I. P I x) \<Longrightarrow> reads (ret x) [] P 0"
  by (auto simp: reads_def ret_def intro: grows_refl)

lemma reads_bind:
  assumes "reads d b1 P c1" "\<And>x. (\<exists>I. P I x) \<Longrightarrow> reads (f x) b2 (\<lambda>I y. P I x \<longrightarrow> Q I y) c2"
  shows "reads (rbind d f) (b1 @ b2) Q (c1 + c2)"
  unfolding reads_def
proof (intro allI impI, elim conjE)
  fix rest I m
  assume pre: "interner_inv I" "length (NAMES I) + (c1 + c2) \<le> 2 ^ 32" "m + (c1 + c2) \<le> MAX_WIRE_SYMBOLS"
  obtain x I1 m1 where 1: "d \<lparr>buf = b1 @ b2 @ rest, tbl = I, minted = m\<rparr> = Inr (x, \<lparr>buf = b2 @ rest, tbl = I1, minted = m1\<rparr>)"
    "interner_inv I1" "grows I I1" "length (NAMES I1) \<le> length (NAMES I) + c1" "m1 \<le> m + c1"
    "\<And>I''. grows I1 I'' \<Longrightarrow> P I'' x"
    by (rule readsE [OF assms(1) pre(1), of m "b2 @ rest"]) (use pre in auto)
  have "\<exists>I. P I x" using 1(6) [OF grows_refl] by blast
  from assms(2) [OF this] obtain y I2 m2 where
    2: "f x \<lparr>buf = b2 @ rest, tbl = I1, minted = m1\<rparr> = Inr (y, \<lparr>buf = rest, tbl = I2, minted = m2\<rparr>)"
      "interner_inv I2" "grows I1 I2" "length (NAMES I2) \<le> length (NAMES I1) + c2" "m2 \<le> m1 + c2"
      "\<And>I''. grows I2 I'' \<Longrightarrow> P I'' x \<longrightarrow> Q I'' y"
    by (rule readsE [OF _ 1(2), of _ _ _ c2 m1 rest]) (use pre 1 in auto)
  have Q: "Q I'' y" if "grows I2 I''" for I''
    using 2(6) [OF that] 1(6) [OF grows_trans [OF 2(3) that]] by blast
  show "\<exists>x I' m'. rbind d f \<lparr>buf = (b1 @ b2) @ rest, tbl = I, minted = m\<rparr> = Inr (x, \<lparr>buf = rest, tbl = I', minted = m'\<rparr>) \<and>
      interner_inv I' \<and> grows I I' \<and> length (NAMES I') \<le> length (NAMES I) + (c1 + c2) \<and> m' \<le> m + (c1 + c2) \<and>
      (\<forall>I''. grows I' I'' \<longrightarrow> Q I'' x)"
    using 1 2 Q grows_trans [OF 1(3) 2(3)]
    by (intro exI [of _ y] exI [of _ I2] exI [of _ m2]) (simp add: rbind_def)
qed

lemma reads_bind_eq:
  assumes "reads d b1 (\<lambda>I x. x = v) c1" "reads (f v) b2 Q c2"
  shows "reads (rbind d f) (b1 @ b2) Q (c1 + c2)"
  by (rule reads_bind [OF assms(1)]) (use assms(2) in simp)

lemma reads_weaken:
  assumes "reads d b P c" "c \<le> c'" "\<And>I x. P I x \<Longrightarrow> Q I x"
  shows "reads d b Q c'"
  unfolding reads_def
proof (intro allI impI, elim conjE)
  fix rest I m
  assume pre: "interner_inv I" "length (NAMES I) + c' \<le> 2 ^ 32" "m + c' \<le> MAX_WIRE_SYMBOLS"
  obtain x I' m' where "d \<lparr>buf = b @ rest, tbl = I, minted = m\<rparr> = Inr (x, \<lparr>buf = rest, tbl = I', minted = m'\<rparr>)"
    "interner_inv I'" "grows I I'" "length (NAMES I') \<le> length (NAMES I) + c" "m' \<le> m + c"
    "\<And>I''. grows I' I'' \<Longrightarrow> P I'' x"
    by (rule readsE [OF assms(1) pre(1), of m rest]) (use pre assms(2) in auto)
  with assms(2,3) show "\<exists>x I' m'. d \<lparr>buf = b @ rest, tbl = I, minted = m\<rparr> = Inr (x, \<lparr>buf = rest, tbl = I', minted = m'\<rparr>) \<and>
      interner_inv I' \<and> grows I I' \<and> length (NAMES I') \<le> length (NAMES I) + c' \<and> m' \<le> m + c' \<and>
      (\<forall>I''. grows I' I'' \<longrightarrow> Q I'' x)"
    by (intro exI [of _ x] exI [of _ I'] exI [of _ m']) simp
qed

section \<open>Primitive readers\<close>

lemma reads_pure:
  assumes "\<And>rest I m. d \<lparr>buf = b @ rest, tbl = I, minted = m\<rparr> = Inr (v, \<lparr>buf = rest, tbl = I, minted = m\<rparr>)"
  shows "reads d b (\<lambda>I x. x = v) 0"
  using assms by (auto simp: reads_def)

lemma reads_exact: "length b = n \<Longrightarrow> reads (read_exact n) b (\<lambda>I x. x = b) 0"
  by (rule reads_pure) (simp add: read_exact_def)

lemma reads_u8: "reads get_u8 [t] (\<lambda>I x. x = t) 0"
  by (rule reads_pure) (simp add: get_u8_def rbind_def read_exact_def ret_def)

lemma reads_u32: "reads get_u32 (to_be_bytes n) (\<lambda>I x. x = n) 0"
  by (rule reads_pure) (simp add: get_u32_def rbind_def read_exact_def ret_def from_to_be_32)

lemma reads_u64: "reads get_u64 (to_be_bytes n) (\<lambda>I x. x = n) 0"
  by (rule reads_pure) (simp add: get_u64_def rbind_def read_exact_def ret_def from_to_be_64)

lemma get_len_bytes:
  "n < 2 ^ 32 \<Longrightarrow> get_len \<lparr>buf = to_be_bytes (of_nat n :: u32) @ rest, tbl = I, minted = m\<rparr> =
     Inr (n, \<lparr>buf = rest, tbl = I, minted = m\<rparr>)"
  by (simp add: get_len_def get_u32_def rbind_def read_exact_def ret_def from_to_be_32 unat_of_nat_index)

lemma reads_len: "n < 2 ^ 32 \<Longrightarrow> reads get_len (to_be_bytes (of_nat n :: u32)) (\<lambda>I x. x = n) 0"
  by (rule reads_pure) (rule get_len_bytes)

lemma reads_bytes: "length s < 2 ^ 32 \<Longrightarrow> reads get_bytes (to_be_bytes (of_nat (length s) :: u32) @ s) (\<lambda>I x. x = s) 0"
  by (rule reads_pure) (simp add: get_bytes_def rbind_def get_len_bytes remaining_def read_exact_def)

lemma reads_str:
  "length s < 2 ^ 32 \<Longrightarrow> utf8_valid s \<Longrightarrow>
   reads get_str (to_be_bytes (of_nat (length s) :: u32) @ s) (\<lambda>I x. x = s) 0"
  by (rule reads_pure) (simp add: get_str_def rbind_def get_len_bytes remaining_def read_exact_def ret_def)

section \<open>Symbols\<close>

definition same_name :: "interner \<Rightarrow> interner \<Rightarrow> symbol \<Rightarrow> symbol \<Rightarrow> bool" where
  "same_name I I' s s' \<longleftrightarrow> (\<exists>n. symbol_name I s = Some n \<and> symbol_name I' s' = Some n)"

text \<open>A spelling is a Rust string, so it is valid UTF-8.\<close>

definition names_text :: "interner \<Rightarrow> bool" where
  "names_text I \<longleftrightarrow> (\<forall>n \<in> set (NAMES I). utf8_valid n)"

lemma reads_name:
  assumes "length n < 2 ^ 32" "utf8_valid n"
  shows "reads get_sym (to_be_bytes (of_nat (length n) :: u32) @ n) (\<lambda>I s. symbol_name I s = Some n) 1"
  unfolding reads_def
proof (intro allI impI, elim conjE)
  fix rest I m
  assume pre: "interner_inv I" "length (NAMES I) + 1 \<le> 2 ^ 32" "m + 1 \<le> MAX_WIRE_SYMBOLS"
  have len: "length (NAMES I) < 2 ^ 32" using pre(2) by simp
  let ?r = "\<lparr>buf = (to_be_bytes (of_nat (length n) :: u32) @ n) @ rest, tbl = I, minted = m\<rparr>"
  have str: "get_str ?r = Inr (n, \<lparr>buf = rest, tbl = I, minted = m\<rparr>)"
    using assms by (simp add: get_str_def rbind_def get_len_bytes remaining_def read_exact_def ret_def)
  show "\<exists>x I' m'. get_sym ?r = Inr (x, \<lparr>buf = rest, tbl = I', minted = m'\<rparr>) \<and> interner_inv I' \<and> grows I I' \<and>
      length (NAMES I') \<le> length (NAMES I) + 1 \<and> m' \<le> m + 1 \<and> (\<forall>I''. grows I' I'' \<longrightarrow> symbol_name I'' x = Some n)"
  proof (cases "IDS I n")
    case (Some i)
    then have "symbol_name I i = Some n" using IDS_symbol_name [OF pre(1)] by simp
    with Some pre(1) str symbol_name_grows show ?thesis
      by (intro exI [of _ i] exI [of _ I] exI [of _ m])
        (auto simp: get_sym_def rbind_def intern_existing_def cache_find_def)
  next
    case None
    note g = intern_global_inv [OF pre(1) len, of n]
    from None pre(3) str symbol_name_grows g show ?thesis
      by (intro exI [of _ "snd (intern_global I n)"] exI [of _ "fst (intern_global I n)"] exI [of _ "m + 1"])
        (auto simp: get_sym_def rbind_def intern_existing_def cache_find_def intern_def Let_def split: prod.splits)
  qed
qed

section \<open>Sequences of writes\<close>

text \<open>Below this length every count and length the encoder writes as a \<open>u32\<close> is exact.\<close>

definition word_limit :: nat where
  "word_limit = 2 ^ 32"

lemma wcat_Cons_Inr: "wcat (w # ws) = Inr b \<longleftrightarrow> (\<exists>b1 b2. w = Inr b1 \<and> wcat ws = Inr b2 \<and> b = b1 @ b2)"
  by (cases w) (auto split: sum.splits)

lemma wcat_Nil_Inr [simp]: "wcat [] = Inr b \<longleftrightarrow> b = []"
  by auto

lemma wcat_append_Inr: "wcat (ws @ vs) = Inr b \<longleftrightarrow> (\<exists>b1 b2. wcat ws = Inr b1 \<and> wcat vs = Inr b2 \<and> b = b1 @ b2)"
proof (induction ws arbitrary: b)
  case (Cons w ws)
  show ?case
    by (simp add: wcat_Cons_Inr Cons.IH) (metis append.assoc)
qed simp

declare wcat.simps(2,3) [simp del]

lemma put_Inr [simp]:
  "push t = Inr b \<longleftrightarrow> b = [t]" "put_u32 n = Inr b \<longleftrightarrow> b = to_be_bytes n" "put_u64 k = Inr b \<longleftrightarrow> b = to_be_bytes k"
  "put_raw s = Inr b \<longleftrightarrow> b = s" "put_len xs = Inr b \<longleftrightarrow> b = to_be_bytes (of_nat (length xs) :: u32)"
  by (auto simp: push_def put_u32_def put_u64_def put_raw_def put_len_def)

lemma put_str_Inr [simp]: "put_str s = Inr b \<longleftrightarrow> b = to_be_bytes (of_nat (length s) :: u32) @ s"
  by (auto simp: put_str_def wcat_Cons_Inr)

lemma put_bytes_Inr [simp]: "put_bytes s = Inr b \<longleftrightarrow> b = to_be_bytes (of_nat (length s) :: u32) @ s"
  by (auto simp: put_bytes_def wcat_Cons_Inr)

lemma put_sym_Inr: "put_sym I s = Inr b \<longleftrightarrow>
  (\<exists>n. symbol_name I s = Some n \<and> b = to_be_bytes (of_nat (length n) :: u32) @ n)"
  by (auto simp: put_sym_def split: option.splits)

lemma reads_then:
  assumes "wcat (w # ws) = Inr b" "length b < N"
    and "\<And>b1. w = Inr b1 \<Longrightarrow> length b1 < N \<Longrightarrow> reads d b1 P c1"
    and "\<And>x b2. (\<exists>I. P I x) \<Longrightarrow> wcat ws = Inr b2 \<Longrightarrow> length b2 < N \<Longrightarrow> reads (f x) b2 (\<lambda>I y. P I x \<longrightarrow> Q I y) c2"
  shows "reads (rbind d f) b Q (c1 + c2)"
proof -
  from assms(1) obtain b1 b2 where b: "w = Inr b1" "wcat ws = Inr b2" "b = b1 @ b2" by (auto simp: wcat_Cons_Inr)
  have l: "length b1 < N" "length b2 < N" using assms(2) b(3) by auto
  show ?thesis unfolding b(3)
    by (rule reads_bind [OF assms(3) [OF b(1) l(1)] assms(4) [OF _ b(2) l(2)]])
qed

lemma reads_last:
  assumes "wcat [w] = Inr b" "length b < N" "\<And>b1. w = Inr b1 \<Longrightarrow> length b1 < N \<Longrightarrow> reads d b1 P c"
    and "\<And>x I. P I x \<Longrightarrow> Q I (f x)"
  shows "reads (rbind d (\<lambda>x. ret (f x))) b Q c"
proof -
  have "reads (rbind d (\<lambda>x. ret (f x))) b Q (c + 0)"
    by (rule reads_then [OF assms(1,2,3)]) (auto intro!: reads_ret assms(4))
  then show ?thesis by simp
qed

lemma reads_put_sym:
  assumes "names_text I0" "put_sym I0 s = Inr b" "length b < word_limit"
  shows "reads get_sym b (\<lambda>I x. same_name I0 I s x) 1"
proof -
  from assms(2) obtain n where n: "symbol_name I0 s = Some n" "b = to_be_bytes (of_nat (length n) :: u32) @ n"
    by (auto simp: put_sym_Inr)
  then have "n \<in> set (NAMES I0)" by (auto simp: symbol_name_Some in_set_conv_nth)
  with assms(1,3) n have "length n < 2 ^ 32" "utf8_valid n" by (auto simp: names_text_def word_limit_def)
  then show ?thesis
    unfolding n(2) by (rule reads_weaken [OF reads_name]) (use n(1) in \<open>auto simp: same_name_def\<close>)
qed

lemma reads_put_str: "utf8_valid s \<Longrightarrow> put_str s = Inr b \<Longrightarrow> length b < word_limit \<Longrightarrow> reads get_str b (\<lambda>I x. x = s) 0"
  using reads_str [of s] by (simp add: word_limit_def)

definition opt_cost :: "'a option \<Rightarrow> nat" where
  "opt_cost x = (case x of None \<Rightarrow> 0 | Some _ \<Rightarrow> 1)"

lemma reads_tag:
  assumes "wcat (push t # ws) = Inr b" "length b < N"
    and "\<And>b2. wcat ws = Inr b2 \<Longrightarrow> length b2 < N \<Longrightarrow> reads (f t) b2 Q c"
  shows "reads (rbind get_u8 f) b Q c"
proof -
  have "reads (rbind get_u8 f) b Q (0 + c)"
    by (rule reads_then [OF assms(1,2), where P = "\<lambda>I x. x = t"]) (use assms(3) in \<open>auto intro: reads_u8\<close>)
  then show ?thesis by simp
qed

lemma reads_tag_only:
  assumes "push t = Inr b" "reads (f t) [] Q c"
  shows "reads (rbind get_u8 f) b Q c"
  using reads_bind_eq [where f = f and v = t, OF reads_u8 assms(2)] assms(1) by simp

lemma reads_opt_sym:
  assumes "names_text I0" "put_opt_sym I0 s = Inr b" "length b < word_limit"
  shows "reads get_opt_sym b (\<lambda>I x. rel_option (same_name I0 I) s x) (opt_cost s)"
proof (cases s)
  case None
  with assms(2) show ?thesis
    unfolding get_opt_sym_def by (intro reads_tag_only [where t = 0]) (auto simp: put_opt_sym_def opt_cost_def intro!: reads_ret)
next
  case (Some s')
  then have b: "wcat [push 1, put_sym I0 s'] = Inr b" using assms(2) by (simp add: put_opt_sym_def)
  show ?thesis
    unfolding get_opt_sym_def
    by (rule reads_tag [OF b assms(3)])
      (auto simp: Some opt_cost_def simp del: One_nat_def intro!: reads_last [OF _ _ reads_put_sym [OF assms(1)]])
qed

lemma reads_opt_str:
  assumes "\<And>t. s = Some t \<Longrightarrow> utf8_valid t" "put_opt_str s = Inr b" "length b < word_limit"
  shows "reads get_opt_str b (\<lambda>I x. x = s) 0"
proof (cases s)
  case None
  with assms(2) show ?thesis
    unfolding get_opt_str_def by (intro reads_tag_only [where t = 0]) (auto simp: put_opt_str_def intro!: reads_ret)
next
  case (Some s')
  then have b: "wcat [push 1, put_str s'] = Inr b" using assms(2) by (simp add: put_opt_str_def)
  show ?thesis
    unfolding get_opt_str_def
    by (rule reads_tag [OF b assms(3)])
      (use assms(1) [OF Some] in \<open>auto simp: Some intro!: reads_last [OF _ _ reads_put_str]\<close>)
qed

lemma reads_opt_pos:
  assumes "put_opt_pos p = Inr b"
  shows "reads get_opt_pos b (\<lambda>I x. x = p) 0"
proof (cases p)
  case None
  with assms show ?thesis
    unfolding get_opt_pos_def by (intro reads_tag_only [where t = 0]) (auto simp: put_opt_pos_def intro!: reads_ret)
next
  case (Some q)
  then have "b = [1] @ to_be_bytes (line q) @ to_be_bytes (col q)"
    using assms by (auto simp: put_opt_pos_def wcat_Cons_Inr)
  then show ?thesis
    by (intro reads_pure) (simp add: Some get_opt_pos_def rbind_def get_u8_def get_u32_def read_exact_def ret_def
        from_to_be_32)
qed

section \<open>Lists of items\<close>

lemma reads_n:
  assumes "wcat (map enc xs) = Inr b" "length b < N"
    and "\<And>x bx. x \<in> set xs \<Longrightarrow> enc x = Inr bx \<Longrightarrow> length bx < N \<Longrightarrow> reads d bx (P x) (c x)"
  shows "reads (read_n (length xs) d) b (\<lambda>I ys. list_all2 (\<lambda>x y. P x I y) xs ys) (\<Sum>x \<leftarrow> xs. c x)"
  using assms
proof (induction xs arbitrary: b)
  case Nil
  then show ?case by (auto intro!: reads_ret)
next
  case (Cons x xs)
  have IH: "\<And>b2. wcat (map enc xs) = Inr b2 \<Longrightarrow> length b2 < N \<Longrightarrow>
      reads (read_n (length xs) d) b2 (\<lambda>I ys. list_all2 (\<lambda>x y. P x I y) xs ys) (\<Sum>x \<leftarrow> xs. c x)"
    using Cons.IH Cons.prems(3) by simp
  have rest: "reads (rbind (read_n (length xs) d) (\<lambda>ys. ret (y # ys))) b2
      (\<lambda>I ys. P x I y \<longrightarrow> list_all2 (\<lambda>x y. P x I y) (x # xs) ys) (\<Sum>x \<leftarrow> xs. c x)"
    if "wcat (map enc xs) = Inr b2" "length b2 < N" for y b2
  proof -
    have "reads (rbind (read_n (length xs) d) (\<lambda>ys. ret (y # ys))) (b2 @ [])
        (\<lambda>I ys. P x I y \<longrightarrow> list_all2 (\<lambda>x y. P x I y) (x # xs) ys) ((\<Sum>x \<leftarrow> xs. c x) + 0)"
      by (rule reads_bind [OF IH [OF that]]) (auto intro!: reads_ret)
    then show ?thesis by simp
  qed
  have "wcat (enc x # map enc xs) = Inr b" using Cons.prems(1) by simp
  from reads_then [where P = "P x", OF this Cons.prems(2) Cons.prems(3) [OF _ _] rest] show ?case by simp
qed

lemma length_wcat_items:
  assumes "wcat (map enc xs) = Inr b" "\<And>x bx. x \<in> set xs \<Longrightarrow> enc x = Inr bx \<Longrightarrow> bx \<noteq> []"
  shows "length xs \<le> length b"
  using assms
proof (induction xs arbitrary: b)
  case (Cons x xs)
  then obtain b1 b2 where b: "enc x = Inr b1" "wcat (map enc xs) = Inr b2" "b = b1 @ b2"
    by (auto simp: wcat_Cons_Inr)
  then have "b1 \<noteq> []" "length xs \<le> length b2" using Cons by auto
  then show ?case using b(3) by (cases b1) auto
qed simp

lemma reads_list:
  assumes "wcat (put_len xs # map enc xs) = Inr b" "length b < word_limit"
    and "\<And>x bx. x \<in> set xs \<Longrightarrow> enc x = Inr bx \<Longrightarrow> bx \<noteq> []"
    and "\<And>x bx. x \<in> set xs \<Longrightarrow> enc x = Inr bx \<Longrightarrow> length bx < word_limit \<Longrightarrow> reads d bx (P x) (c x)"
  shows "reads (read_list d) b (\<lambda>I ys. list_all2 (\<lambda>x y. P x I y) xs ys) (\<Sum>x \<leftarrow> xs. c x)"
proof -
  from assms(1) obtain b2 where b: "b = to_be_bytes (of_nat (length xs) :: u32) @ b2" "wcat (map enc xs) = Inr b2"
    by (auto simp: wcat_Cons_Inr)
  have "length xs \<le> length b2" by (rule length_wcat_items [OF b(2) assms(3)])
  then have len: "length xs < 2 ^ 32" "length b2 < word_limit" using assms(2) b(1) by (auto simp: word_limit_def)
  have "reads (read_list d) b (\<lambda>I ys. list_all2 (\<lambda>x y. P x I y) xs ys) (0 + (\<Sum>x \<leftarrow> xs. c x))"
    unfolding read_list_def b(1)
    by (rule reads_bind_eq [OF reads_len [OF len(1)]], rule reads_n [OF b(2) len(2) assms(4)])
  then show ?thesis by simp
qed

lemma reads_pair:
  assumes "wcat [v, w] = Inr b" "length b < N"
    and "\<And>b1. v = Inr b1 \<Longrightarrow> length b1 < N \<Longrightarrow> reads d b1 P c1" "\<And>b1. w = Inr b1 \<Longrightarrow> length b1 < N \<Longrightarrow> reads e b1 Q c2"
  shows "reads (read_pair d e) b (\<lambda>I (x, y). P I x \<and> Q I y) (c1 + c2)"
  unfolding read_pair_def
  by (rule reads_then [OF assms(1,2,3)]) (auto intro!: reads_last [OF _ _ assms(4)])

section \<open>Messages\<close>

text \<open>
  What a message becomes on the wire: a string shared by handle arrives as a plain string. Everything
  else is unchanged.
\<close>

primrec wire_msg :: "'s message \<Rightarrow> 's message"
  and wire_closure :: "'s closure_msg \<Rightarrow> 's closure_msg"
  and wire_arm :: "'s closure_arm_msg \<Rightarrow> 's closure_arm_msg" where
  "wire_msg MNil = MNil"
| "wire_msg (MBool b) = MBool b"
| "wire_msg (MInt n) = MInt n"
| "wire_msg (MBigInt s) = MBigInt s"
| "wire_msg (MDecimal s) = MDecimal s"
| "wire_msg (MRatio s) = MRatio s"
| "wire_msg (MFloat f) = MFloat f"
| "wire_msg (MStr s) = MStr s"
| "wire_msg (MStrShared s) = MStr s"
| "wire_msg (MBytes s) = MBytes s"
| "wire_msg (MSym s) = MSym s"
| "wire_msg (MKeyword s) = MKeyword s"
| "wire_msg (MFnShared h) = MFnShared h"
| "wire_msg (MList items p) = MList (map wire_msg items) p"
| "wire_msg (MDotted items) = MDotted (map wire_msg items)"
| "wire_msg (MVector items) = MVector (map wire_msg items)"
| "wire_msg (MMap es) = MMap (map (map_prod wire_msg wire_msg) es)"
| "wire_msg (MFailure es) = MFailure (map (map_prod wire_msg wire_msg) es)"
| "wire_msg (MRecord i es) = MRecord i (map (map_prod wire_msg wire_msg) es)"
| "wire_msg (MSet items) = MSet (map wire_msg items)"
| "wire_msg (MRef n) = MRef n"
| "wire_msg (MPid node n) = MPid node n"
| "wire_msg (MSocket n) = MSocket n"
| "wire_msg (MSubprocess n) = MSubprocess n"
| "wire_msg (MTable n) = MTable n"
| "wire_msg (MClosure c) = MClosure (wire_closure c)"
| "wire_msg (MNative s) = MNative s"
| "wire_closure (ClosureMsg name arms doc captured modules module shared) =
     ClosureMsg name (map wire_arm arms) doc (map (map_prod id wire_msg) captured) modules module shared"
| "wire_arm (ClosureArmMsg params optionals rest body) =
     ClosureArmMsg params (map (map_prod id wire_msg) optionals) rest (map wire_msg body)"

text \<open>How many symbols a message mentions.\<close>

definition arm_syms :: "'s closure_arm_msg \<Rightarrow> nat" where
  "arm_syms a = length (am_params a) + length (am_optionals a) + opt_cost (am_rest a)"

definition closure_syms :: "'s closure_msg \<Rightarrow> nat" where
  "closure_syms c = opt_cost (cm_name c) + (\<Sum>a \<leftarrow> cm_arms c. arm_syms a) + 2 * length (cm_modules c) +
     length (cm_captured c) + opt_cost (cm_module c)"

fun own_syms :: "'s message \<Rightarrow> nat" where
  "own_syms (MSym s) = 1"
| "own_syms (MKeyword s) = 1"
| "own_syms (MNative s) = 1"
| "own_syms (MRecord i es) = 1"
| "own_syms (MPid node n) = 1"
| "own_syms (MClosure c) = closure_syms c"
| "own_syms _ = 0"

definition msg_syms :: "'s message \<Rightarrow> nat" where
  "msg_syms m = (\<Sum>x \<leftarrow> submessages m. own_syms x)"

text \<open>
  What the Rust types and the serialiser guarantee of a message: text is valid UTF-8, and a dotted list
  has an item and a tail.
\<close>

fun text_ok :: "'s message \<Rightarrow> bool" where
  "text_ok (MBigInt s) = utf8_valid s"
| "text_ok (MDecimal s) = utf8_valid s"
| "text_ok (MRatio s) = utf8_valid s"
| "text_ok (MStr s) = utf8_valid s"
| "text_ok (MDotted items) = (2 \<le> length items)"
| "text_ok (MClosure c) = (\<forall>s. cm_doc c = Some s \<longrightarrow> utf8_valid s)"
| "text_ok _ = True"

definition msg_ok :: "'s message \<Rightarrow> bool" where
  "msg_ok m \<longleftrightarrow> (\<forall>x \<in> set (submessages m). text_ok x)"

lemma msg_ok_child: "msg_ok m \<Longrightarrow> c \<in> set (for_each_child m) \<Longrightarrow> msg_ok c"
  by (auto simp: msg_ok_def submessages.simps [of m])

lemma msg_ok_self: "msg_ok m \<Longrightarrow> text_ok m"
  by (auto simp: msg_ok_def submessages.simps [of m])

lemma msg_syms_eq: "msg_syms m = own_syms m + (\<Sum>c \<leftarrow> for_each_child m. msg_syms c)"
proof -
  have "(\<Sum>x \<leftarrow> concat (map submessages cs). own_syms x) = (\<Sum>c \<leftarrow> cs. msg_syms c)" for cs :: "'a message list"
    by (induction cs) (auto simp: msg_syms_def)
  then show ?thesis by (simp add: msg_syms_def submessages.simps [of m])
qed

lemmas encode_msg_simps =
  encode_msg.simps [where m = MNil, unfolded message.case]
  encode_msg.simps [where m = "MBool b" for b, unfolded message.case]
  encode_msg.simps [where m = "MInt n" for n, unfolded message.case]
  encode_msg.simps [where m = "MBigInt s" for s, unfolded message.case]
  encode_msg.simps [where m = "MDecimal s" for s, unfolded message.case]
  encode_msg.simps [where m = "MRatio s" for s, unfolded message.case]
  encode_msg.simps [where m = "MFloat f" for f, unfolded message.case]
  encode_msg.simps [where m = "MStr s" for s, unfolded message.case]
  encode_msg.simps [where m = "MStrShared s" for s, unfolded message.case]
  encode_msg.simps [where m = "MBytes s" for s, unfolded message.case]
  encode_msg.simps [where m = "MSym s" for s, unfolded message.case]
  encode_msg.simps [where m = "MKeyword s" for s, unfolded message.case]
  encode_msg.simps [where m = "MFnShared h" for h, unfolded message.case]
  encode_msg.simps [where m = "MList items p" for items p, unfolded message.case]
  encode_msg.simps [where m = "MDotted items" for items, unfolded message.case]
  encode_msg.simps [where m = "MVector items" for items, unfolded message.case]
  encode_msg.simps [where m = "MMap es" for es, unfolded message.case]
  encode_msg.simps [where m = "MFailure es" for es, unfolded message.case]
  encode_msg.simps [where m = "MRecord i es" for i es, unfolded message.case]
  encode_msg.simps [where m = "MSet items" for items, unfolded message.case]
  encode_msg.simps [where m = "MRef n" for n, unfolded message.case]
  encode_msg.simps [where m = "MPid node n" for node n, unfolded message.case]
  encode_msg.simps [where m = "MSocket n" for n, unfolded message.case]
  encode_msg.simps [where m = "MSubprocess n" for n, unfolded message.case]
  encode_msg.simps [where m = "MTable n" for n, unfolded message.case]
  encode_msg.simps [where m = "MClosure c" for c, unfolded message.case]
  encode_msg.simps [where m = "MNative s" for s, unfolded message.case]

lemmas msg_syms_nested =
  msg_syms_eq [where m = "MList items p" for items p, unfolded own_syms.simps for_each_child.simps add_0]
  msg_syms_eq [where m = "MDotted items" for items, unfolded own_syms.simps for_each_child.simps add_0]
  msg_syms_eq [where m = "MVector items" for items, unfolded own_syms.simps for_each_child.simps add_0]
  msg_syms_eq [where m = "MSet items" for items, unfolded own_syms.simps for_each_child.simps add_0]
  msg_syms_eq [where m = "MMap es" for es, unfolded own_syms.simps for_each_child.simps add_0]
  msg_syms_eq [where m = "MFailure es" for es, unfolded own_syms.simps for_each_child.simps add_0]
  msg_syms_eq [where m = "MRecord i es" for i es, unfolded own_syms.simps for_each_child.simps]

lemma encode_msg_nonempty: "encode_msg I m = Inr b \<Longrightarrow> b \<noteq> []"
  by (cases m) (auto simp: encode_msg_simps wcat_Cons_Inr split: if_splits)

abbreviation msg_rel :: "interner \<Rightarrow> interner \<Rightarrow> symbol message \<Rightarrow> symbol message \<Rightarrow> bool" where
  "msg_rel I0 I m x \<equiv> rel_message (same_name I0 I) (wire_msg m) x"

text \<open>What the induction gives for a nested message.\<close>

definition reads_msg :: "interner \<Rightarrow> nat \<Rightarrow> symbol message \<Rightarrow> bool" where
  "reads_msg I0 depth m \<longleftrightarrow>
     (\<forall>b. encode_msg I0 m = Inr b \<longrightarrow> length b < word_limit \<longrightarrow>
       reads (decode_msg_at depth) b (\<lambda>I x. msg_rel I0 I m x) (msg_syms m))"

lemma reads_msgD:
  "reads_msg I0 depth m \<Longrightarrow> encode_msg I0 m = Inr b \<Longrightarrow> length b < word_limit \<Longrightarrow>
   reads (decode_msg_at depth) b (\<lambda>I x. msg_rel I0 I m x) (msg_syms m)"
  by (simp add: reads_msg_def)

lemma reads_items:
  assumes "\<And>m. m \<in> set items \<Longrightarrow> reads_msg I0 depth m"
    and "wcat (put_len items # map (encode_msg I0) items) = Inr b" "length b < word_limit"
  shows "reads (read_list (decode_msg_at depth)) b
    (\<lambda>I xs. list_all2 (rel_message (same_name I0 I)) (map wire_msg items) xs) (\<Sum>m \<leftarrow> items. msg_syms m)"
  unfolding list_all2_map1
  by (rule reads_list [OF assms(2,3)]) (use encode_msg_nonempty reads_msgD assms(1) in blast)+

lemma sum_flat_pairs: "(\<Sum>x \<leftarrow> flat_pairs es. f x) = (\<Sum>e \<leftarrow> es. f (fst e) + f (snd e) :: nat)"
  by (induction es rule: flat_pairs.induct) auto

lemma reads_entries:
  assumes "\<And>m. m \<in> set (flat_pairs es) \<Longrightarrow> reads_msg I0 depth m"
    and "wcat (put_len es # map (\<lambda>(k, v). wcat [encode_msg I0 k, encode_msg I0 v]) es) = Inr b" "length b < word_limit"
  shows "reads (read_list (read_pair (decode_msg_at depth) (decode_msg_at depth))) b
    (\<lambda>I xs. list_all2 (rel_prod (rel_message (same_name I0 I)) (rel_message (same_name I0 I)))
       (map (map_prod wire_msg wire_msg) es) xs) (\<Sum>m \<leftarrow> flat_pairs es. msg_syms m)"
proof -
  have mem: "reads_msg I0 depth (fst e) \<and> reads_msg I0 depth (snd e)" if "e \<in> set es" for e
    using assms(1) that by (auto simp: set_flat_pairs)
  have "reads (read_list (read_pair (decode_msg_at depth) (decode_msg_at depth))) b
    (\<lambda>I xs. list_all2 (\<lambda>e (x, y). msg_rel I0 I (fst e) x \<and> msg_rel I0 I (snd e) y) es xs)
    (\<Sum>e \<leftarrow> es. msg_syms (fst e) + msg_syms (snd e))"
  proof (rule reads_list [OF assms(2,3)])
    fix e bx assume "(case e of (k, v) \<Rightarrow> wcat [encode_msg I0 k, encode_msg I0 v]) = Inr bx"
    then show "bx \<noteq> []" using encode_msg_nonempty by (auto simp: wcat_Cons_Inr split: prod.splits)
  next
    fix e bx assume e: "e \<in> set es" "(case e of (k, v) \<Rightarrow> wcat [encode_msg I0 k, encode_msg I0 v]) = Inr bx"
      "length bx < word_limit"
    show "reads (read_pair (decode_msg_at depth) (decode_msg_at depth)) bx
        (\<lambda>I (x, y). msg_rel I0 I (fst e) x \<and> msg_rel I0 I (snd e) y) (msg_syms (fst e) + msg_syms (snd e))"
      by (rule reads_pair [of "encode_msg I0 (fst e)" "encode_msg I0 (snd e)", OF _ e(3)])
        (use e(2) mem [OF e(1)] reads_msgD in \<open>auto split: prod.splits\<close>)
  qed
  then show ?thesis
    by (rule reads_weaken) (auto simp: sum_flat_pairs list_all2_map1 case_prod_beta rel_prod_sel elim!: list_all2_mono)
qed

lemma reads_syms:
  assumes "names_text I0" "wcat (put_len ss # map (put_sym I0) ss) = Inr b" "length b < word_limit"
  shows "reads (read_list get_sym) b (\<lambda>I xs. list_all2 (same_name I0 I) ss xs) (length ss)"
proof -
  have "reads (read_list get_sym) b (\<lambda>I xs. list_all2 (\<lambda>s x. same_name I0 I s x) ss xs) (\<Sum>s \<leftarrow> ss. 1)"
    by (rule reads_list [OF assms(2,3)]) (auto simp: put_sym_Inr simp del: One_nat_def intro: reads_put_sym [OF assms(1)])
  then show ?thesis by (simp add: sum_list_triv)
qed

lemma reads_sym_pairs:
  assumes "names_text I0"
    and "wcat (put_len ss # map (\<lambda>(m, p). wcat [put_sym I0 m, put_sym I0 p]) ss) = Inr b" "length b < word_limit"
  shows "reads (read_list (read_pair get_sym get_sym)) b
    (\<lambda>I xs. list_all2 (rel_prod (same_name I0 I) (same_name I0 I)) ss xs) (2 * length ss)"
proof -
  have "reads (read_list (read_pair get_sym get_sym)) b
    (\<lambda>I xs. list_all2 (\<lambda>e (x, y). same_name I0 I (fst e) x \<and> same_name I0 I (snd e) y) ss xs) (\<Sum>s \<leftarrow> ss. 1 + 1)"
  proof (rule reads_list [OF assms(2,3)])
    fix e bx assume "(case e of (m, p) \<Rightarrow> wcat [put_sym I0 m, put_sym I0 p]) = Inr bx"
    then show "bx \<noteq> []" by (auto simp: wcat_Cons_Inr put_sym_Inr split: prod.splits)
  next
    fix e bx assume e: "(case e of (m, p) \<Rightarrow> wcat [put_sym I0 m, put_sym I0 p]) = Inr bx" "length bx < word_limit"
    show "reads (read_pair get_sym get_sym) bx (\<lambda>I (x, y). same_name I0 I (fst e) x \<and> same_name I0 I (snd e) y) (1 + 1)"
      by (rule reads_pair [of "put_sym I0 (fst e)" "put_sym I0 (snd e)", OF _ e(2)])
        (use e(1) in \<open>auto split: prod.splits simp del: One_nat_def intro: reads_put_sym [OF assms(1)]\<close>)
  qed
  then show ?thesis
    by (rule reads_weaken) (auto simp: sum_list_triv case_prod_beta rel_prod_sel elim!: list_all2_mono)
qed

lemma reads_named:
  assumes "names_text I0" "\<And>m. m \<in> snd ` set es \<Longrightarrow> reads_msg I0 depth m"
    and "wcat (put_len es # map (\<lambda>(s, m). wcat [put_sym I0 s, encode_msg I0 m]) es) = Inr b" "length b < word_limit"
  shows "reads (read_list (read_pair get_sym (decode_msg_at depth))) b
    (\<lambda>I xs. list_all2 (rel_prod (same_name I0 I) (rel_message (same_name I0 I))) (map (map_prod id wire_msg) es) xs)
    (length es + (\<Sum>e \<leftarrow> es. msg_syms (snd e)))"
proof -
  have main: "reads (read_list (read_pair get_sym (decode_msg_at depth))) b
    (\<lambda>I xs. list_all2 (\<lambda>e (x, y). same_name I0 I (fst e) x \<and> msg_rel I0 I (snd e) y) es xs)
    (\<Sum>e \<leftarrow> es. 1 + msg_syms (snd e))"
  proof (rule reads_list [OF assms(3,4)])
    fix e bx assume "(case e of (s, m) \<Rightarrow> wcat [put_sym I0 s, encode_msg I0 m]) = Inr bx"
    then show "bx \<noteq> []" by (auto simp: wcat_Cons_Inr put_sym_Inr split: prod.splits)
  next
    fix e bx assume e: "e \<in> set es" "(case e of (s, m) \<Rightarrow> wcat [put_sym I0 s, encode_msg I0 m]) = Inr bx"
      "length bx < word_limit"
    then have "reads_msg I0 depth (snd e)" using assms(2) by auto
    then show "reads (read_pair get_sym (decode_msg_at depth)) bx
        (\<lambda>I (x, y). same_name I0 I (fst e) x \<and> msg_rel I0 I (snd e) y) (1 + msg_syms (snd e))"
      by (intro reads_pair [of "put_sym I0 (fst e)" "encode_msg I0 (snd e)", OF _ e(3)])
        (use e(2) in \<open>auto split: prod.splits simp del: One_nat_def intro: reads_put_sym [OF assms(1)] reads_msgD\<close>)
  qed
  have "(\<Sum>e \<leftarrow> es. 1 + msg_syms (snd e)) = length es + (\<Sum>e \<leftarrow> es. msg_syms (snd e))"
    by (induction es) auto
  then show ?thesis
    by (intro reads_weaken [OF main]) (auto simp: list_all2_map1 case_prod_beta rel_prod_sel elim!: list_all2_mono)
qed

subsection \<open>Closures\<close>

text \<open>One write of a grouped list: the count and the items, read by one \<open>read_list\<close>.\<close>

lemma wcat_group: "wcat (w # ws @ vs) = wcat (wcat (w # ws) # vs)"
proof -
  have "wcat (ws @ vs) = wcat (wcat ws # vs)" for ws vs :: "written list"
  proof (induction ws)
    case (Cons w ws)
    then show ?case by (cases w; cases "wcat ws"; cases "wcat vs") (auto simp: wcat.simps)
  qed (cases "wcat vs", auto simp: wcat.simps)
  from this [of "w # ws" vs] show ?thesis by simp
qed

lemma reads_arm:
  assumes "names_text I0" "\<And>m. m \<in> set (arm_children a) \<Longrightarrow> reads_msg I0 depth m"
    and "encode_arm I0 a = Inr b" "length b < word_limit"
  shows "reads (decode_arm_with (decode_msg_at depth)) b
    (\<lambda>I x. rel_closure_arm_msg (same_name I0 I) (wire_arm a) x) (arm_syms a + (\<Sum>m \<leftarrow> arm_children a. msg_syms m))"
proof -
  obtain params optionals rest body where a: "a = ClosureArmMsg params optionals rest body" by (cases a)
  have opt: "\<And>m. m \<in> snd ` set optionals \<Longrightarrow> reads_msg I0 depth m" and bod: "\<And>m. m \<in> set body \<Longrightarrow> reads_msg I0 depth m"
    using assms(2) by (auto simp: a arm_children_def)
  have b: "wcat [wcat (put_len params # map (put_sym I0) params),
      wcat (put_len optionals # map (\<lambda>(s, m). wcat [put_sym I0 s, encode_msg I0 m]) optionals),
      put_opt_sym I0 rest, wcat (put_len body # map (encode_msg I0) body)] = Inr b"
    using assms(3) by (simp add: a encode_arm.simps wcat_group wcat_Cons_Inr wcat_append_Inr)
  have "reads (decode_arm_with (decode_msg_at depth)) b
    (\<lambda>I x. rel_closure_arm_msg (same_name I0 I) (wire_arm a) x)
    (length params + ((length optionals + (\<Sum>e \<leftarrow> optionals. msg_syms (snd e))) + (opt_cost rest + (\<Sum>m \<leftarrow> body. msg_syms m))))"
    unfolding decode_arm_with_def
    by (rule reads_then [OF b assms(4) reads_syms [OF assms(1)]], assumption, assumption,
        rule reads_then [OF _ _ reads_named [OF assms(1) opt]], assumption+,
        rule reads_then [OF _ _ reads_opt_sym [OF assms(1)]], assumption+,
        rule reads_last [OF _ _ reads_items [OF bod]], assumption+)
      (auto simp: a)
  then show ?thesis by (rule reads_weaken) (auto simp: a arm_syms_def arm_children_def o_def)
qed

lemma encode_arm_nonempty: "encode_arm I a = Inr b \<Longrightarrow> b \<noteq> []"
  by (auto simp: encode_arm.simps wcat_Cons_Inr)

lemma reads_arms:
  assumes "names_text I0" "\<And>m. m \<in> set (concat (map arm_children as)) \<Longrightarrow> reads_msg I0 depth m"
    and "wcat (put_len as # map (encode_arm I0) as) = Inr b" "length b < word_limit"
  shows "reads (read_list (decode_arm_with (decode_msg_at depth))) b
    (\<lambda>I xs. list_all2 (rel_closure_arm_msg (same_name I0 I)) (map wire_arm as) xs)
    ((\<Sum>a \<leftarrow> as. arm_syms a) + (\<Sum>m \<leftarrow> concat (map arm_children as). msg_syms m))"
proof -
  have "reads (read_list (decode_arm_with (decode_msg_at depth))) b
    (\<lambda>I xs. list_all2 (\<lambda>a x. rel_closure_arm_msg (same_name I0 I) (wire_arm a) x) as xs)
    (\<Sum>a \<leftarrow> as. arm_syms a + (\<Sum>m \<leftarrow> arm_children a. msg_syms m))"
  proof (rule reads_list [OF assms(3,4)])
    fix a bx assume "a \<in> set as" "encode_arm I0 a = Inr bx" "length bx < word_limit"
    then show "reads (decode_arm_with (decode_msg_at depth)) bx
        (\<lambda>I x. rel_closure_arm_msg (same_name I0 I) (wire_arm a) x) (arm_syms a + (\<Sum>m \<leftarrow> arm_children a. msg_syms m))"
      using assms(2) by (intro reads_arm [OF assms(1)]) auto
  qed (rule encode_arm_nonempty)
  moreover have "(\<Sum>a \<leftarrow> as. arm_syms a + (\<Sum>m \<leftarrow> arm_children a. msg_syms m)) =
      (\<Sum>a \<leftarrow> as. arm_syms a) + (\<Sum>m \<leftarrow> concat (map arm_children as). msg_syms m)"
    by (induction as) auto
  ultimately show ?thesis by (simp add: list_all2_map1)
qed

lemma reads_closure:
  assumes "names_text I0" "\<And>m. m \<in> set (closure_children c) \<Longrightarrow> reads_msg I0 depth m"
    and "encode_closure I0 c = Inr b" "length b < word_limit" "\<And>s. cm_doc c = Some s \<Longrightarrow> utf8_valid s"
  shows "reads (decode_closure_with (decode_msg_at depth)) b
    (\<lambda>I x. rel_closure_msg (same_name I0 I) (wire_closure c) x)
    (closure_syms c + (\<Sum>m \<leftarrow> closure_children c. msg_syms m))"
proof -
  obtain name arms doc captured modules module shared where
    c: "c = ClosureMsg name arms doc captured modules module shared" by (cases c)
  have arm: "\<And>m. m \<in> set (concat (map arm_children arms)) \<Longrightarrow> reads_msg I0 depth m"
    and cap: "\<And>m. m \<in> snd ` set captured \<Longrightarrow> reads_msg I0 depth m" and doc: "\<And>s. doc = Some s \<Longrightarrow> utf8_valid s"
    using assms(2,5) by (auto simp: c closure_children_def)
  have sh: "shared = None" using assms(3) by (auto simp: c encode_closure.simps split: if_splits)
  have b: "wcat [put_opt_sym I0 name, wcat (put_len arms # map (encode_arm I0) arms), put_opt_str doc,
      wcat (put_len modules # map (\<lambda>(m, p). wcat [put_sym I0 m, put_sym I0 p]) modules),
      wcat (put_len captured # map (\<lambda>(s, m). wcat [put_sym I0 s, encode_msg I0 m]) captured),
      put_opt_sym I0 module] = Inr b"
    using assms(3) by (simp add: c sh encode_closure.simps wcat_group wcat_Cons_Inr wcat_append_Inr)
  have "reads (decode_closure_with (decode_msg_at depth)) b
    (\<lambda>I x. rel_closure_msg (same_name I0 I) (wire_closure c) x)
    (opt_cost name + (((\<Sum>a \<leftarrow> arms. arm_syms a) + (\<Sum>m \<leftarrow> concat (map arm_children arms). msg_syms m)) +
      (0 + (2 * length modules + ((length captured + (\<Sum>e \<leftarrow> captured. msg_syms (snd e))) + opt_cost module)))))"
    unfolding decode_closure_with_def
    by (rule reads_then [OF b assms(4) reads_opt_sym [OF assms(1)]], assumption, assumption,
        rule reads_then [OF _ _ reads_arms [OF assms(1) arm]], assumption+,
        rule reads_then [OF _ _ reads_opt_str [OF doc]], assumption+,
        rule reads_then [OF _ _ reads_sym_pairs [OF assms(1)]], assumption+,
        rule reads_then [OF _ _ reads_named [OF assms(1) cap]], assumption+,
        rule reads_last [OF _ _ reads_opt_sym [OF assms(1)]], assumption+)
      (auto simp: c sh)
  then show ?thesis by (rule reads_weaken) (auto simp: c closure_syms_def closure_children_def o_def)
qed

subsection \<open>Every message\<close>

lemma reads_map: "reads d b P c \<Longrightarrow> (\<And>I x. P I x \<Longrightarrow> Q I (f x)) \<Longrightarrow> reads (rbind d (\<lambda>x. ret (f x))) b Q c"
  using reads_bind [of d b P c "\<lambda>x. ret (f x)" "[]" Q 0] by (auto intro!: reads_ret)

lemma reads_tagged:
  assumes "depth < MAX_DECODE_DEPTH" "wcat (push t # ws) = Inr b" "length b < word_limit"
    and "\<And>b2. wcat ws = Inr b2 \<Longrightarrow> length b2 < word_limit \<Longrightarrow>
      reads (decode_tag_with (decode_msg_at (Suc depth)) t) b2 Q c"
  shows "reads (decode_msg_at depth) b Q c"
  using assms(1) by (subst decode_msg_at.simps) (simp add: reads_tag [OF assms(2,3), where f = "decode_tag_with d" for d] assms(4))

lemma reads_text:
  assumes "utf8_valid s" "wcat [put_str s] = Inr b" "length b < word_limit"
  shows "reads (decode_tag_with d M_BIGINT) b (\<lambda>I x. rel_message (R I) (MBigInt s) x) 0"
    and "reads (decode_tag_with d M_DECIMAL) b (\<lambda>I x. rel_message (R I) (MDecimal s) x) 0"
    and "reads (decode_tag_with d M_RATIO) b (\<lambda>I x. rel_message (R I) (MRatio s) x) 0"
    and "reads (decode_tag_with d M_STR) b (\<lambda>I x. rel_message (R I) (MStr s) x) 0"
proof -
  have r: "reads get_str b (\<lambda>I x. x = s) 0"
    using assms(2) by (intro reads_put_str [OF assms(1) _ assms(3)]) (simp add: wcat_Cons_Inr)
  show "reads (decode_tag_with d M_BIGINT) b (\<lambda>I x. rel_message (R I) (MBigInt s) x) 0"
    "reads (decode_tag_with d M_DECIMAL) b (\<lambda>I x. rel_message (R I) (MDecimal s) x) 0"
    "reads (decode_tag_with d M_RATIO) b (\<lambda>I x. rel_message (R I) (MRatio s) x) 0"
    "reads (decode_tag_with d M_STR) b (\<lambda>I x. rel_message (R I) (MStr s) x) 0"
    by (auto simp: decode_tag_with_def message_tags intro!: reads_map [OF r])
qed

lemma reads_word:
  assumes "wcat [put_u64 n] = Inr b" "length b < word_limit"
  shows "reads (decode_tag_with d M_INT) b (\<lambda>I x. rel_message (R I) (MInt n) x) 0"
    and "reads (decode_tag_with d M_FLOAT) b (\<lambda>I x. rel_message (R I) (MFloat n) x) 0"
    and "reads (decode_tag_with d M_REF) b (\<lambda>I x. rel_message (R I) (MRef n) x) 0"
proof -
  have r: "reads get_u64 b (\<lambda>I x. x = n) 0" using assms(1) reads_u64 by (simp add: wcat_Cons_Inr)
  show "reads (decode_tag_with d M_INT) b (\<lambda>I x. rel_message (R I) (MInt n) x) 0"
    "reads (decode_tag_with d M_FLOAT) b (\<lambda>I x. rel_message (R I) (MFloat n) x) 0" "reads (decode_tag_with d M_REF) b (\<lambda>I x. rel_message (R I) (MRef n) x) 0"
    by (auto simp: decode_tag_with_def message_tags intro!: reads_map [OF r])
qed

lemma reads_symbol:
  assumes "names_text I0" "wcat [put_sym I0 s] = Inr b" "length b < word_limit"
  shows "reads (decode_tag_with d M_SYM) b (\<lambda>I x. rel_message (same_name I0 I) (MSym s) x) 1"
    and "reads (decode_tag_with d M_KEYWORD) b (\<lambda>I x. rel_message (same_name I0 I) (MKeyword s) x) 1"
    and "reads (decode_tag_with d M_NATIVE) b (\<lambda>I x. rel_message (same_name I0 I) (MNative s) x) 1"
proof -
  have r: "reads get_sym b (\<lambda>I x. same_name I0 I s x) 1"
    using assms(2) by (intro reads_put_sym [OF assms(1) _ assms(3)]) (simp add: wcat_Cons_Inr)
  show "reads (decode_tag_with d M_SYM) b (\<lambda>I x. rel_message (same_name I0 I) (MSym s) x) 1"
    "reads (decode_tag_with d M_KEYWORD) b (\<lambda>I x. rel_message (same_name I0 I) (MKeyword s) x) 1"
    "reads (decode_tag_with d M_NATIVE) b (\<lambda>I x. rel_message (same_name I0 I) (MNative s) x) 1"
    by (auto simp: decode_tag_with_def message_tags simp del: One_nat_def intro!: reads_map [OF r])
qed

lemma reads_others:
  shows "reads (decode_tag_with d M_NIL) [] (\<lambda>I x. rel_message (R I) (MNil) x) 0"
    and "reads (decode_tag_with d (if v then M_TRUE else M_FALSE)) [] (\<lambda>I x. rel_message (R I) (MBool v) x) 0"
    and "wcat [put_bytes s] = Inr b \<Longrightarrow> length b < word_limit \<Longrightarrow> reads (decode_tag_with d M_BYTES) b (\<lambda>I x. rel_message (R I) (MBytes s) x) 0"
    and "names_text I0 \<Longrightarrow> wcat [put_sym I0 node, put_u64 n] = Inr b \<Longrightarrow> length b < word_limit \<Longrightarrow>
      reads (decode_tag_with d M_PID) b (\<lambda>I x. rel_message (same_name I0 I) (MPid node n) x) 1"
proof -
  show "reads (decode_tag_with d M_NIL) [] (\<lambda>I x. rel_message (R I) (MNil) x) 0"
    "reads (decode_tag_with d (if v then M_TRUE else M_FALSE)) [] (\<lambda>I x. rel_message (R I) (MBool v) x) 0"
    by (simp_all add: decode_tag_with_def message_tags reads_ret)
  show "reads (decode_tag_with d M_BYTES) b (\<lambda>I x. rel_message (R I) (MBytes s) x) 0" if "wcat [put_bytes s] = Inr b" "length b < word_limit"
  proof -
    have r: "reads get_bytes b (\<lambda>I x. x = s) 0" using that reads_bytes [of s] by (auto simp: wcat_Cons_Inr word_limit_def)
    show ?thesis by (auto simp: decode_tag_with_def message_tags intro!: reads_map [OF r])
  qed
  show "reads (decode_tag_with d M_PID) b (\<lambda>I x. rel_message (same_name I0 I) (MPid node n) x) 1"
    if "names_text I0" "wcat [put_sym I0 node, put_u64 n] = Inr b" "length b < word_limit"
  proof -
    have "reads (rbind get_sym (\<lambda>node. rbind get_u64 (\<lambda>n. ret (MPid node n)))) b
        (\<lambda>I x. rel_message (same_name I0 I) (MPid node n) x) (1 + 0)"
      by (rule reads_then [OF that(2,3) reads_put_sym [OF that(1)]], assumption+, rule reads_last [where P = "\<lambda>I x. x = n"],
          assumption+) (auto intro: reads_u64)
    then show ?thesis by (simp add: decode_tag_with_def message_tags del: One_nat_def)
  qed
qed

lemma wcat_group1: "wcat (w # ws) = Inr b \<longleftrightarrow> wcat [wcat (w # ws)] = Inr b"
  by (simp add: wcat_Cons_Inr)

lemma reads_containers:
  assumes "\<And>m. m \<in> set items \<Longrightarrow> reads_msg I0 depth m" "length b < word_limit"
  shows "wcat (put_len items # map (encode_msg I0) items @ [put_opt_pos p]) = Inr b \<Longrightarrow>
      reads (decode_tag_with (decode_msg_at depth) M_LIST) b (\<lambda>I x. msg_rel I0 I (MList items p) x) (\<Sum>m \<leftarrow> items. msg_syms m)"
    and "wcat (put_len items # map (encode_msg I0) items) = Inr b \<Longrightarrow>
      reads (decode_tag_with (decode_msg_at depth) M_VECTOR) b (\<lambda>I x. msg_rel I0 I (MVector items) x) (\<Sum>m \<leftarrow> items. msg_syms m)"
    and "wcat (put_len items # map (encode_msg I0) items) = Inr b \<Longrightarrow>
      reads (decode_tag_with (decode_msg_at depth) M_SET) b (\<lambda>I x. msg_rel I0 I (MSet items) x) (\<Sum>m \<leftarrow> items. msg_syms m)"
    and "wcat (put_len items # map (encode_msg I0) items) = Inr b \<Longrightarrow> 2 \<le> length items \<Longrightarrow>
      reads (decode_tag_with (decode_msg_at depth) M_DOTTED) b (\<lambda>I x. msg_rel I0 I (MDotted items) x) (\<Sum>m \<leftarrow> items. msg_syms m)"
proof -
  show "reads (decode_tag_with (decode_msg_at depth) M_LIST) b (\<lambda>I x. msg_rel I0 I (MList items p) x) (\<Sum>m \<leftarrow> items. msg_syms m)"
    if "wcat (put_len items # map (encode_msg I0) items @ [put_opt_pos p]) = Inr b"
  proof -
    have b: "wcat [wcat (put_len items # map (encode_msg I0) items), put_opt_pos p] = Inr b"
      using that by (simp add: wcat_group)
    have "reads (rbind (read_list (decode_msg_at depth)) (\<lambda>items. rbind get_opt_pos (\<lambda>p. ret (MList items p)))) b
        (\<lambda>I x. msg_rel I0 I (MList items p) x) ((\<Sum>m \<leftarrow> items. msg_syms m) + 0)"
      by (rule reads_then [OF b assms(2) reads_items [OF assms(1)]], assumption+,
          rule reads_last [where P = "\<lambda>I x. x = p"], assumption+) (auto intro: reads_opt_pos)
    then show ?thesis by (simp add: decode_tag_with_def message_tags)
  qed
  show "reads (decode_tag_with (decode_msg_at depth) M_VECTOR) b (\<lambda>I x. msg_rel I0 I (MVector items) x) (\<Sum>m \<leftarrow> items. msg_syms m)"
    "reads (decode_tag_with (decode_msg_at depth) M_SET) b (\<lambda>I x. msg_rel I0 I (MSet items) x) (\<Sum>m \<leftarrow> items. msg_syms m)"
    if b: "wcat (put_len items # map (encode_msg I0) items) = Inr b"
    by (auto simp: decode_tag_with_def message_tags intro!: reads_map [OF reads_items [OF assms(1) b assms(2)]])
  show "reads (decode_tag_with (decode_msg_at depth) M_DOTTED) b (\<lambda>I x. msg_rel I0 I (MDotted items) x) (\<Sum>m \<leftarrow> items. msg_syms m)"
    if b: "wcat (put_len items # map (encode_msg I0) items) = Inr b" and two: "2 \<le> length items"
  proof -
    obtain b2 where b2: "wcat (map (encode_msg I0) items) = Inr b2" "b = to_be_bytes (of_nat (length items) :: u32) @ b2"
      using b by (auto simp: wcat_Cons_Inr)
    have len: "length items < 2 ^ 32" "length b2 < word_limit"
      using length_wcat_items [OF b2(1)] encode_msg_nonempty assms(2) b2(2) by (force simp: word_limit_def)+
    have r: "reads (read_n (length items) (decode_msg_at depth)) b2
        (\<lambda>I xs. list_all2 (\<lambda>m x. msg_rel I0 I m x) items xs) (\<Sum>m \<leftarrow> items. msg_syms m)"
      by (rule reads_n [OF b2(1) len(2)]) (use assms(1) reads_msgD in blast)
    have m: "reads (rbind (read_n (length items) (decode_msg_at depth)) (\<lambda>items. ret (MDotted items))) b2
        (\<lambda>I x. msg_rel I0 I (MDotted items) x) (\<Sum>m \<leftarrow> items. msg_syms m)"
      by (rule reads_map [OF r]) (simp add: list_all2_map1)
    have "reads (rbind get_len (\<lambda>n. if n < 2 then err InvalidData
        else rbind (read_n n (decode_msg_at depth)) (\<lambda>items. ret (MDotted items)))) b
        (\<lambda>I x. msg_rel I0 I (MDotted items) x) (0 + (\<Sum>m \<leftarrow> items. msg_syms m))"
      unfolding b2(2) by (rule reads_bind_eq [OF reads_len [OF len(1)]]) (use m two in simp)
    then show ?thesis by (simp add: decode_tag_with_def message_tags)
  qed
qed

lemma reads_maps:
  assumes "\<And>m. m \<in> set (flat_pairs es) \<Longrightarrow> reads_msg I0 depth m" "length b < word_limit"
  shows "wcat (put_len es # map (\<lambda>(k, v). wcat [encode_msg I0 k, encode_msg I0 v]) es) = Inr b \<Longrightarrow>
      reads (decode_tag_with (decode_msg_at depth) M_MAP) b (\<lambda>I x. msg_rel I0 I (MMap es) x) (\<Sum>m \<leftarrow> flat_pairs es. msg_syms m)"
    and "wcat (put_len es # map (\<lambda>(k, v). wcat [encode_msg I0 k, encode_msg I0 v]) es) = Inr b \<Longrightarrow>
      reads (decode_tag_with (decode_msg_at depth) M_FAILURE) b (\<lambda>I x. msg_rel I0 I (MFailure es) x) (\<Sum>m \<leftarrow> flat_pairs es. msg_syms m)"
    and "names_text I0 \<Longrightarrow>
      wcat (put_sym I0 i # put_len es # map (\<lambda>(k, v). wcat [encode_msg I0 k, encode_msg I0 v]) es) = Inr b \<Longrightarrow>
      reads (decode_tag_with (decode_msg_at depth) M_RECORD) b (\<lambda>I x. msg_rel I0 I (MRecord i es) x)
        (1 + (\<Sum>m \<leftarrow> flat_pairs es. msg_syms m))"
proof -
  show "reads (decode_tag_with (decode_msg_at depth) M_MAP) b (\<lambda>I x. msg_rel I0 I (MMap es) x) (\<Sum>m \<leftarrow> flat_pairs es. msg_syms m)"
    "reads (decode_tag_with (decode_msg_at depth) M_FAILURE) b (\<lambda>I x. msg_rel I0 I (MFailure es) x) (\<Sum>m \<leftarrow> flat_pairs es. msg_syms m)"
    if b: "wcat (put_len es # map (\<lambda>(k, v). wcat [encode_msg I0 k, encode_msg I0 v]) es) = Inr b"
    by (auto simp: decode_tag_with_def message_tags intro!: reads_map [OF reads_entries [OF assms(1) b assms(2)]])
  show "reads (decode_tag_with (decode_msg_at depth) M_RECORD) b (\<lambda>I x. msg_rel I0 I (MRecord i es) x)
        (1 + (\<Sum>m \<leftarrow> flat_pairs es. msg_syms m))"
    if I0: "names_text I0" and b: "wcat (put_sym I0 i # put_len es # map (\<lambda>(k, v). wcat [encode_msg I0 k, encode_msg I0 v]) es) = Inr b"
  proof -
    have "reads (rbind get_sym (\<lambda>i. rbind (read_list (read_pair (decode_msg_at depth) (decode_msg_at depth)))
        (\<lambda>es. ret (MRecord i es)))) b (\<lambda>I x. msg_rel I0 I (MRecord i es) x) (1 + (\<Sum>m \<leftarrow> flat_pairs es. msg_syms m))"
      by (rule reads_then [OF b assms(2) reads_put_sym [OF I0]], assumption+,
          rule reads_map [OF reads_entries [OF assms(1)]], assumption+) auto
    then show ?thesis by (simp add: decode_tag_with_def message_tags del: One_nat_def)
  qed
qed

lemma reads_leaf:
  assumes "names_text I0" "text_ok m" "for_each_child m = []" "\<not> nests m" "depth < MAX_DECODE_DEPTH"
    and "encode_msg I0 m = Inr b" "length b < word_limit"
  shows "reads (decode_msg_at depth) b (\<lambda>I x. msg_rel I0 I m x) (own_syms m)"
proof -
  note tag = reads_tagged [OF assms(5) _ assms(7)]
  show ?thesis
  proof (cases m)
    case MNil
    then have "wcat [push M_NIL] = Inr b" using assms(6) by (simp add: encode_msg_simps wcat_Cons_Inr)
    with MNil show ?thesis by (intro tag) (auto intro: reads_others)
  next
    case (MBool v)
    then have "wcat [push (if v then M_TRUE else M_FALSE)] = Inr b" using assms(6) by (simp add: encode_msg_simps wcat_Cons_Inr)
    with MBool reads_others(2) [of "decode_msg_at (Suc depth)" v] show ?thesis by (intro tag) auto
  next
    case (MStrShared s)
    then have "wcat [push M_STR, put_str s] = Inr b" "utf8_valid s"
      using assms(6) by (auto simp: encode_msg_simps wcat_Cons_Inr split: if_splits)
    with MStrShared show ?thesis by (intro tag) (auto intro: reads_text(4))
  qed (use assms in \<open>auto simp: encode_msg_simps simp del: One_nat_def intro!: tag
      intro: reads_others(3,4) reads_text reads_word reads_symbol\<close>)
qed

theorem reads_message:
  assumes "names_text I0" "msg_ok m" "depth + mdepth m \<le> MAX_DECODE_DEPTH"
  shows "reads_msg I0 depth m"
  using assms(2,3)
proof (induction m arbitrary: depth rule: message_induct)
  case (children m)
  have d: "depth < MAX_DECODE_DEPTH" using children.prems(2) by (simp add: mdepth.simps [of m])
  have kids: "reads_msg I0 (Suc depth) c" if "c \<in> set (for_each_child m)" for c
    using children.IH [OF that msg_ok_child [OF children.prems(1) that]] mdepth_child [OF that] children.prems(2) by simp
  have ok: "text_ok m" by (rule msg_ok_self [OF children.prems(1)])
  show ?case
    unfolding reads_msg_def
  proof (intro allI impI)
    fix b assume e: "encode_msg I0 m = Inr b" and len: "length b < word_limit"
    note tag = reads_tagged [OF d _ len]
    show "reads (decode_msg_at depth) b (\<lambda>I x. msg_rel I0 I m x) (msg_syms m)"
    proof (cases "nests m")
      case False
      then have "for_each_child m = []" by (cases m) auto
      with reads_leaf [OF assms(1) ok _ False d e len] show ?thesis by (simp add: msg_syms_eq [of m])
    next
      case True
      then show ?thesis
      proof (cases m)
        case (MClosure c)
        have "reads (decode_tag_with (decode_msg_at (Suc depth)) M_CLOSURE) b2 (\<lambda>I x. msg_rel I0 I (MClosure c) x)
            (closure_syms c + (\<Sum>m \<leftarrow> closure_children c. msg_syms m))"
          if "encode_closure I0 c = Inr b2" "length b2 < word_limit" for b2
          using kids ok MClosure
          by (auto simp: decode_tag_with_def message_tags intro!: reads_map [OF reads_closure [OF assms(1) _ that]])
        moreover have b: "wcat [push M_CLOSURE, encode_closure I0 c] = Inr b" using e MClosure by (simp add: encode_msg_simps)
        ultimately show ?thesis
          unfolding MClosure msg_syms_eq [of "MClosure c"] by (intro tag [OF b]) (simp add: wcat_Cons_Inr)
      qed (use e kids ok assms(1) in \<open>auto simp: encode_msg_simps msg_syms_nested simp del: One_nat_def wire_msg.simps
          intro!: tag intro: reads_containers reads_maps\<close>)
    qed
  qed
qed

end
