(* ===== verification/Wire_Frames.thy ===== *)
theory Wire_Frames
  imports Wire_Roundtrip "HOL-Library.Sublist"
begin

text \<open>
  Frames: the round trip of a whole frame through the codec and through the length-prefixed stream,
  and what the codec guarantees of any bytes at all: it never lets a handle of this runtime out, and
  it accepts only messages that are well-formed, nested within the limit and free of such handles.
\<close>

section \<open>Round trip\<close>

primrec frame_message :: "'s frame \<Rightarrow> 's message option" where
  "frame_message (Hello node nonce eph_pub addr incarnation) = None"
| "frame_message (Auth mac) = None"
| "frame_message (Send t m l) = Some m"
| "frame_message Ping = None"
| "frame_message Pong = None"
| "frame_message (Monitor w t r) = None"
| "frame_message (MonitorName w n r) = None"
| "frame_message (Demonitor w r) = None"
| "frame_message (Down w r t m) = Some m"
| "frame_message (Link f t) = None"
| "frame_message (Unlink f t) = None"
| "frame_message (Exit f t m l) = Some m"
| "frame_message (Peers ps) = None"

primrec wire_frame :: "'s frame \<Rightarrow> 's frame" where
  "wire_frame (Hello node nonce eph_pub addr incarnation) = Hello node nonce eph_pub addr incarnation"
| "wire_frame (Auth mac) = Auth mac"
| "wire_frame (Send t m l) = Send t (wire_msg m) l"
| "wire_frame Ping = Ping"
| "wire_frame Pong = Pong"
| "wire_frame (Monitor w t r) = Monitor w t r"
| "wire_frame (MonitorName w n r) = MonitorName w n r"
| "wire_frame (Demonitor w r) = Demonitor w r"
| "wire_frame (Down w r t m) = Down w r t (wire_msg m)"
| "wire_frame (Link f t) = Link f t"
| "wire_frame (Unlink f t) = Unlink f t"
| "wire_frame (Exit f t m l) = Exit f t (wire_msg m) l"
| "wire_frame (Peers ps) = Peers ps"

text \<open>What the Rust types guarantee of a frame, and the limits the receiver enforces.\<close>

fun frame_fields_ok :: "'s frame \<Rightarrow> bool" where
  "frame_fields_ok (Hello node nonce eph_pub addr incarnation) \<longleftrightarrow>
     utf8_valid node \<and> length nonce = NONCE_LEN \<and> length eph_pub = EPH_PUB_LEN \<and> utf8_valid addr"
| "frame_fields_ok (Auth mac) \<longleftrightarrow> length mac = MAC_LEN"
| "frame_fields_ok (Send t m (Latest key)) \<longleftrightarrow> utf8_valid key"
| "frame_fields_ok (Peers ps) \<longleftrightarrow> length ps \<le> MAX_GOSSIP_PEERS \<and> (\<forall>(n, addr) \<in> set ps. utf8_valid addr)"
| "frame_fields_ok _ \<longleftrightarrow> True"

definition frame_ok :: "'s frame \<Rightarrow> bool" where
  "frame_ok f \<longleftrightarrow> frame_fields_ok f \<and>
     (\<forall>m. frame_message f = Some m \<longrightarrow> msg_ok m \<and> mdepth m \<le> MAX_DECODE_DEPTH)"

fun target_syms :: "'s target \<Rightarrow> nat" where
  "target_syms (Pid i) = 0"
| "target_syms (Name s) = 1"

fun frame_syms :: "'s frame \<Rightarrow> nat" where
  "frame_syms (Send t m l) = target_syms t + msg_syms m"
| "frame_syms (MonitorName w n r) = 1"
| "frame_syms (Down w r t m) = msg_syms m"
| "frame_syms (Exit f t m l) = msg_syms m"
| "frame_syms (Peers ps) = length ps"
| "frame_syms _ = 0"

lemma reads_target:
  assumes "names_text I0" "encode_target I0 t = Inr b" "length b < word_limit"
  shows "reads decode_target b (\<lambda>I x. rel_target (same_name I0 I) t x) (target_syms t)"
proof (cases t)
  case (Pid i)
  then have b: "wcat [push TARGET_PID, put_u64 i] = Inr b" using assms(2) by (simp add: encode_target_def)
  show ?thesis
    unfolding decode_target_def
    by (rule reads_tag [OF b assms(3)]) (auto simp: Pid frame_tags wcat_Cons_Inr intro!: reads_map [OF reads_u64])
next
  case (Name s)
  then have b: "wcat [push TARGET_NAME, put_sym I0 s] = Inr b" using assms(2) by (simp add: encode_target_def)
  show ?thesis
    unfolding decode_target_def
    by (rule reads_tag [OF b assms(3)])
      (auto simp: Name frame_tags wcat_Cons_Inr simp del: One_nat_def intro!: reads_map [OF reads_put_sym [OF assms(1)]])
qed

lemma reads_lane:
  assumes "\<And>k. l = Latest k \<Longrightarrow> utf8_valid k" "encode_lane l = Inr b" "length b < word_limit"
  shows "reads decode_lane b (\<lambda>I x. x = l) 0"
proof (cases l)
  case (Latest k)
  then have b: "wcat [push LANE_LATEST, put_str k] = Inr b" using assms(2) by (simp add: encode_lane_def)
  show ?thesis
    unfolding decode_lane_def
    by (rule reads_tag [OF b assms(3)])
      (use assms(1) [OF Latest] in \<open>auto simp: Latest frame_tags wcat_Cons_Inr intro!: reads_map [OF reads_put_str]\<close>)
qed (use assms(2) in \<open>auto simp: encode_lane_def decode_lane_def frame_tags intro!: reads_tag_only reads_ret\<close>)

lemma reads_decode_msg:
  assumes "names_text I0" "msg_ok m" "mdepth m \<le> MAX_DECODE_DEPTH" "encode_msg I0 m = Inr b" "length b < word_limit"
  shows "reads decode_msg b (\<lambda>I x. msg_rel I0 I m x) (msg_syms m)"
  unfolding decode_msg_def using assms by (intro reads_msgD [OF reads_message]) auto

lemma reads_u64_then:
  assumes "wcat (put_u64 n # ws) = Inr b" "length b < N"
    and "\<And>b2. wcat ws = Inr b2 \<Longrightarrow> length b2 < N \<Longrightarrow> reads (f n) b2 Q c"
  shows "reads (rbind get_u64 f) b Q c"
proof -
  have "reads (rbind get_u64 f) b Q (0 + c)"
    by (rule reads_then [OF assms(1,2), where P = "\<lambda>I x. x = n"]) (use assms(3) in \<open>auto intro: reads_u64\<close>)
  then show ?thesis by simp
qed

lemma reads_peers:
  assumes "names_text I0" "\<forall>(n, addr) \<in> set ps. utf8_valid addr" "length ps \<le> MAX_GOSSIP_PEERS"
    and "wcat (put_len ps # map (\<lambda>(node, addr). wcat [put_sym I0 node, put_str addr]) ps) = Inr b" "length b < word_limit"
  shows "reads (rbind get_len (\<lambda>n. if n > MAX_GOSSIP_PEERS then err InvalidData
      else rbind (read_n n (read_pair get_sym get_str)) (\<lambda>peers. ret (Peers peers)))) b
    (\<lambda>I x. rel_frame (same_name I0 I) (Peers ps) x) (length ps)"
proof -
  let ?enc = "\<lambda>(node, addr). wcat [put_sym I0 node, put_str addr]"
  obtain b2 where b: "wcat (map ?enc ps) = Inr b2" "b = to_be_bytes (of_nat (length ps) :: u32) @ b2"
    using assms(4) by (auto simp: wcat_Cons_Inr)
  have r: "reads (read_n (length ps) (read_pair get_sym get_str)) b2
      (\<lambda>I xs. list_all2 (\<lambda>e (x, y). same_name I0 I (fst e) x \<and> y = snd e) ps xs) (\<Sum>p \<leftarrow> ps. 1 + 0)"
  proof (rule reads_n [OF b(1)])
    show "length b2 < word_limit" using assms(5) b(2) by simp
    fix e bx assume e: "e \<in> set ps" "?enc e = Inr bx" "length bx < word_limit"
    show "reads (read_pair get_sym get_str) bx (\<lambda>I (x, y). same_name I0 I (fst e) x \<and> y = snd e) (1 + 0)"
      by (rule reads_pair [of "put_sym I0 (fst e)" "put_str (snd e)", OF _ e(3) reads_put_sym [OF assms(1)] reads_put_str])
        (use e(1,2) assms(2) in \<open>auto split: prod.splits\<close>)
  qed
  have "(\<Sum>p \<leftarrow> ps. 1 + 0) = length ps" by (simp add: sum_list_triv)
  note r' = r [unfolded this]
  have m: "reads (rbind (read_n (length ps) (read_pair get_sym get_str)) (\<lambda>peers. ret (Peers peers))) b2
      (\<lambda>I x. rel_frame (same_name I0 I) (Peers ps) x) (length ps)"
    by (rule reads_map [OF r']) (auto simp: rel_prod_sel case_prod_beta elim!: list_all2_mono)
  have len: "length ps < 2 ^ 32" using assms(3) by (simp add: MAX_GOSSIP_PEERS_def)
  have "reads (rbind get_len (\<lambda>n. if n > MAX_GOSSIP_PEERS then err InvalidData
      else rbind (read_n n (read_pair get_sym get_str)) (\<lambda>peers. ret (Peers peers)))) b
    (\<lambda>I x. rel_frame (same_name I0 I) (Peers ps) x) (0 + length ps)"
    unfolding b(2) by (rule reads_bind_eq [OF reads_len [OF len]]) (use m assms(3) in auto)
  then show ?thesis by simp
qed

lemma reads_hello:
  assumes "utf8_valid node" "utf8_valid addr" "length nonce = NONCE_LEN" "length eph_pub = EPH_PUB_LEN"
    and "wcat [put_str node, put_raw nonce, put_raw eph_pub, put_str addr, put_u64 inc] = Inr b" "length b < word_limit"
  shows "reads (rbind get_str (\<lambda>node. rbind (read_exact NONCE_LEN) (\<lambda>nonce. rbind (read_exact EPH_PUB_LEN) (\<lambda>eph_pub.
       rbind get_str (\<lambda>addr. rbind get_u64 (\<lambda>incarnation. ret (Hello node nonce eph_pub addr incarnation))))))) b
    (\<lambda>I x. rel_frame (R I) (Hello node nonce eph_pub addr inc) x) 0"
proof -
  have "reads (rbind get_str (\<lambda>node. rbind (read_exact NONCE_LEN) (\<lambda>nonce. rbind (read_exact EPH_PUB_LEN) (\<lambda>eph_pub.
       rbind get_str (\<lambda>addr. rbind get_u64 (\<lambda>incarnation. ret (Hello node nonce eph_pub addr incarnation))))))) b
    (\<lambda>I x. rel_frame (R I) (Hello node nonce eph_pub addr inc) x) (0 + (0 + (0 + (0 + 0))))"
    by (rule reads_then [OF assms(5,6) reads_put_str [OF assms(1)]], assumption+,
        rule reads_then [where P = "\<lambda>I x. x = nonce"], assumption+, use assms(3) in \<open>force intro: reads_exact\<close>,
        rule reads_then [where P = "\<lambda>I x. x = eph_pub"], assumption+, use assms(4) in \<open>force intro: reads_exact\<close>,
        rule reads_then [OF _ _ reads_put_str [OF assms(2)]], assumption+,
        rule reads_last [where P = "\<lambda>I x. x = inc"], assumption+)
      (auto intro: reads_u64)
  then show ?thesis by simp
qed

lemma reads_couplings:
  assumes "names_text I0" "length b < word_limit"
  shows "wcat [put_u64 w, put_u64 t, put_u64 r] = Inr b \<Longrightarrow> reads (decode_frame_tag FRAME_MONITOR) b (\<lambda>I x. x = Monitor w t r) 0"
    and "wcat [put_u64 w, put_u64 r] = Inr b \<Longrightarrow> reads (decode_frame_tag FRAME_DEMONITOR) b (\<lambda>I x. x = Demonitor w r) 0"
    and "wcat [put_u64 w, put_u64 t] = Inr b \<Longrightarrow> reads (decode_frame_tag FRAME_LINK) b (\<lambda>I x. x = Link w t) 0"
    and "wcat [put_u64 w, put_u64 t] = Inr b \<Longrightarrow> reads (decode_frame_tag FRAME_UNLINK) b (\<lambda>I x. x = Unlink w t) 0"
    and "wcat [put_u64 w, put_sym I0 n, put_u64 r] = Inr b \<Longrightarrow>
      reads (decode_frame_tag FRAME_MONITOR_NAME) b (\<lambda>I x. rel_frame (same_name I0 I) (MonitorName w n r) x) 1"
proof -
  note bits = decode_frame_tag_def frame_tags
  show "wcat [put_u64 w, put_u64 t, put_u64 r] = Inr b \<Longrightarrow> reads (decode_frame_tag FRAME_MONITOR) b (\<lambda>I x. x = Monitor w t r) 0"
    "wcat [put_u64 w, put_u64 r] = Inr b \<Longrightarrow> reads (decode_frame_tag FRAME_DEMONITOR) b (\<lambda>I x. x = Demonitor w r) 0"
    "wcat [put_u64 w, put_u64 t] = Inr b \<Longrightarrow> reads (decode_frame_tag FRAME_LINK) b (\<lambda>I x. x = Link w t) 0"
    "wcat [put_u64 w, put_u64 t] = Inr b \<Longrightarrow> reads (decode_frame_tag FRAME_UNLINK) b (\<lambda>I x. x = Unlink w t) 0"
    using assms(2) by (auto simp: bits wcat_Cons_Inr intro!: reads_pure
        simp: rbind_def ret_def get_u64_def read_exact_def from_to_be_64)
  show "reads (decode_frame_tag FRAME_MONITOR_NAME) b (\<lambda>I x. rel_frame (same_name I0 I) (MonitorName w n r) x) 1"
    if b: "wcat [put_u64 w, put_sym I0 n, put_u64 r] = Inr b"
  proof -
    have "reads (rbind get_u64 (\<lambda>watcher_pid. rbind get_sym (\<lambda>name. rbind get_u64 (\<lambda>mref. ret (MonitorName watcher_pid name mref))))) b
        (\<lambda>I x. rel_frame (same_name I0 I) (MonitorName w n r) x) (1 + 0)"
      by (rule reads_u64_then [OF b assms(2)], rule reads_then [OF _ _ reads_put_sym [OF assms(1)]], assumption+,
          rule reads_last [where P = "\<lambda>I x. x = r"], assumption+) (auto intro: reads_u64)
    then show ?thesis by (simp add: bits del: One_nat_def)
  qed
qed

lemma reads_carriers:
  assumes "\<And>b. encode_msg I0 m = Inr b \<Longrightarrow> length b < word_limit \<Longrightarrow> reads decode_msg b (\<lambda>I x. msg_rel I0 I m x) (msg_syms m)"
    and "names_text I0" "length b < word_limit"
  shows "wcat [encode_target I0 t, encode_msg I0 m] = Inr b \<Longrightarrow>
      reads (decode_frame_tag FRAME_SEND) b (\<lambda>I x. rel_frame (same_name I0 I) (Send t (wire_msg m) Normal) x) (target_syms t + msg_syms m)"
    and "(\<And>k. l = Latest k \<Longrightarrow> utf8_valid k) \<Longrightarrow> wcat [encode_target I0 t, encode_msg I0 m, encode_lane l] = Inr b \<Longrightarrow>
      reads (decode_frame_tag FRAME_SEND_LANE) b (\<lambda>I x. rel_frame (same_name I0 I) (Send t (wire_msg m) l) x) (target_syms t + msg_syms m)"
    and "wcat [put_u64 w, put_u64 r, put_u64 tp, encode_msg I0 m] = Inr b \<Longrightarrow>
      reads (decode_frame_tag FRAME_DOWN) b (\<lambda>I x. rel_frame (same_name I0 I) (Down w r tp (wire_msg m)) x) (msg_syms m)"
    and "wcat [put_u64 w, put_u64 tp, push (if lk then 1 else 0), encode_msg I0 m] = Inr b \<Longrightarrow>
      reads (decode_frame_tag FRAME_EXIT) b (\<lambda>I x. rel_frame (same_name I0 I) (Exit w tp (wire_msg m) lk) x) (msg_syms m)"
proof -
  note bits = decode_frame_tag_def frame_tags
  show "reads (decode_frame_tag FRAME_SEND) b (\<lambda>I x. rel_frame (same_name I0 I) (Send t (wire_msg m) Normal) x) (target_syms t + msg_syms m)"
    if b: "wcat [encode_target I0 t, encode_msg I0 m] = Inr b"
  proof -
    have "reads (rbind decode_target (\<lambda>target. rbind decode_msg (\<lambda>msg. ret (Send target msg Normal)))) b
      (\<lambda>I x. rel_frame (same_name I0 I) (Send t (wire_msg m) Normal) x) (target_syms t + msg_syms m)"
      by (rule reads_then [OF b assms(3) reads_target [OF assms(2)]], assumption+,
          rule reads_last [OF _ _ assms(1)], assumption+) auto
    then show ?thesis by (simp add: bits)
  qed
  show "reads (decode_frame_tag FRAME_SEND_LANE) b (\<lambda>I x. rel_frame (same_name I0 I) (Send t (wire_msg m) l) x) (target_syms t + msg_syms m)"
    if l: "\<And>k. l = Latest k \<Longrightarrow> utf8_valid k" and b: "wcat [encode_target I0 t, encode_msg I0 m, encode_lane l] = Inr b"
  proof -
    have "reads (rbind decode_target (\<lambda>target. rbind decode_msg (\<lambda>msg. rbind decode_lane (\<lambda>lane. ret (Send target msg lane))))) b
      (\<lambda>I x. rel_frame (same_name I0 I) (Send t (wire_msg m) l) x) (target_syms t + (msg_syms m + 0))"
      by (rule reads_then [OF b assms(3) reads_target [OF assms(2)]], assumption+,
          rule reads_then [OF _ _ assms(1)], assumption+, rule reads_last [OF _ _ reads_lane [OF l]], assumption+) auto
    then show ?thesis by (simp add: bits)
  qed
  show "reads (decode_frame_tag FRAME_DOWN) b (\<lambda>I x. rel_frame (same_name I0 I) (Down w r tp (wire_msg m)) x) (msg_syms m)"
    if b: "wcat [put_u64 w, put_u64 r, put_u64 tp, encode_msg I0 m] = Inr b"
  proof -
    have "reads (rbind get_u64 (\<lambda>watcher_pid. rbind get_u64 (\<lambda>mref. rbind get_u64 (\<lambda>target_pid.
       rbind decode_msg (\<lambda>reason. ret (Down watcher_pid mref target_pid reason)))))) b
      (\<lambda>I x. rel_frame (same_name I0 I) (Down w r tp (wire_msg m)) x) (msg_syms m)"
      by (rule reads_u64_then [OF b assms(3)], rule reads_u64_then, assumption+, rule reads_u64_then, assumption+,
          rule reads_last [OF _ _ assms(1)], assumption+) auto
    then show ?thesis by (simp add: bits)
  qed
  show "reads (decode_frame_tag FRAME_EXIT) b (\<lambda>I x. rel_frame (same_name I0 I) (Exit w tp (wire_msg m) lk) x) (msg_syms m)"
    if b: "wcat [put_u64 w, put_u64 tp, push (if lk then 1 else 0), encode_msg I0 m] = Inr b"
  proof -
    have "reads (rbind get_u64 (\<lambda>from_pid. rbind get_u64 (\<lambda>to_pid. rbind get_u8 (\<lambda>link.
       rbind decode_msg (\<lambda>reason. ret (Exit from_pid to_pid reason (link \<noteq> 0))))))) b
      (\<lambda>I x. rel_frame (same_name I0 I) (Exit w tp (wire_msg m) lk) x) (msg_syms m)"
      by (rule reads_u64_then [OF b assms(3)], rule reads_u64_then, assumption+, rule reads_tag, assumption+,
          rule reads_last [OF _ _ assms(1)], assumption+) auto
    then show ?thesis by (simp add: bits)
  qed
qed

lemma reads_frame_tagged:
  assumes "wcat (push t # ws) = Inr b" "length b < word_limit"
    and "\<And>b2. wcat ws = Inr b2 \<Longrightarrow> length b2 < word_limit \<Longrightarrow> reads (decode_frame_tag t) b2 Q c"
  shows "reads decode_frame b Q c"
  unfolding decode_frame_def by (rule reads_tag [OF assms(1,2)]) (rule assms(3))

lemma reads_bare:
  "reads decode_frame [FRAME_PING] (\<lambda>I. rel_frame (R I) Ping) 0" "reads decode_frame [FRAME_PONG] (\<lambda>I. rel_frame (R I) Pong) 0"
  by (auto simp: decode_frame_def decode_frame_tag_def frame_tags intro!: reads_tag_only reads_ret)

lemma reads_frame:
  assumes "names_text I0" "frame_ok f" "encode_frame I0 f = Inr b" "length b < word_limit"
  shows "reads decode_frame b (\<lambda>I x. rel_frame (same_name I0 I) (wire_frame f) x) (frame_syms f)"
proof -
  have msg: "\<And>m b. frame_message f = Some m \<Longrightarrow> encode_msg I0 m = Inr b \<Longrightarrow> length b < word_limit \<Longrightarrow>
      reads decode_msg b (\<lambda>I x. msg_rel I0 I m x) (msg_syms m)"
    and fields: "frame_fields_ok f"
    using assms(2) by (auto simp: frame_ok_def intro: reads_decode_msg [OF assms(1)])
  note tag = reads_frame_tagged [OF _ assms(4)]
  note enc = assms(3) [unfolded encode_frame_def]
  show ?thesis
  proof (cases f)
    case (Hello node nonce eph_pub addr inc)
    with enc fields show ?thesis
      by (auto simp: decode_frame_tag_def frame_tags intro!: tag intro: reads_hello)
  next
    case (Auth mac)
    then have b: "wcat [push FRAME_AUTH, put_raw mac] = Inr b" and mac: "length mac = MAC_LEN" using enc fields by auto
    show ?thesis
      unfolding Auth by (rule tag [OF b])
        (use mac in \<open>auto simp: decode_frame_tag_def frame_tags wcat_Cons_Inr intro!: reads_map [OF reads_exact]\<close>)
  next
    case (Send t m l)
    show ?thesis
    proof (cases "l = Normal")
      case True
      with enc Send show ?thesis by (auto intro!: tag reads_carriers(1) [OF msg assms(1)])
    next
      case False
      have "\<And>k. l = Latest k \<Longrightarrow> utf8_valid k" using fields Send by auto
      with enc Send False show ?thesis by (auto intro!: tag reads_carriers(2) [OF msg assms(1)])
    qed
  next
    case (Peers ps)
    with enc fields show ?thesis
      by (auto simp: decode_frame_tag_def frame_tags intro!: tag reads_peers [OF assms(1)])
  qed (use enc assms(1) in \<open>auto simp del: One_nat_def intro!: tag reads_bare intro: reads_couplings(5) reads_carriers(3,4) [OF msg assms(1)]
      reads_weaken [OF reads_couplings(1)] reads_weaken [OF reads_couplings(2)] reads_weaken [OF reads_couplings(3)]
      reads_weaken [OF reads_couplings(4)]\<close>)
qed

lemma encode_payload_Inr: "encode_payload I f = Inr b \<Longrightarrow> encode_frame I f = Inr b \<and> length b \<le> MAX_FRAME"
  by (auto simp: encode_payload_def split: sum.splits if_splits)

lemma MAX_FRAME_word: "MAX_FRAME < word_limit"
  by (simp add: MAX_FRAME_def word_limit_def)



text \<open>A frame the witnesses use: a registered name and a message that holds a keyword and a list.\<close>

abbreviation witness_names :: interner where
  "witness_names \<equiv> fst (intern_global empty_interner [111, 107])"

abbreviation witness_frame :: "symbol frame" where
  "witness_frame \<equiv> Send (Name 0) (MVector [MKeyword 0, MList [MInt 1, MNil] None]) Priority"

lemma witness_names_ok: "interner_inv witness_names" "names_text witness_names" "length (NAMES witness_names) = 1"
  by (rule intern_global_inv(1) [OF interner_inv_empty])
    (simp_all add: names_text_def empty_interner_def intern_global_def Let_def)

lemma witness_frame_ok: "frame_ok witness_frame" "frame_syms witness_frame = 2"
proof -
  let ?l = "MList [MInt 1, MNil] None :: symbol message"
  let ?v = "MVector [MKeyword 0, ?l]"
  note leaf = submessages.simps [of "MInt 1"] submessages.simps [of MNil] submessages.simps [of "MKeyword 0"]
    mdepth.simps [of "MInt 1"] mdepth.simps [of MNil] mdepth.simps [of "MKeyword 0"]
  have sub: "submessages ?v = [?v, MKeyword 0, ?l, MInt 1, MNil]"
    by (simp add: leaf submessages.simps [of ?v] submessages.simps [of ?l])
  have depth: "mdepth ?v = 3" by (simp add: leaf mdepth.simps [of ?v] mdepth.simps [of ?l])
  show "frame_ok witness_frame" by (simp add: frame_ok_def msg_ok_def sub depth MAX_DECODE_DEPTH_def)
  show "frame_syms witness_frame = 2" by (simp add: msg_syms_def sub)
qed

lemma wcat_eval: "wcat [] = Inr []" "wcat (Inr b # ws) = (case wcat ws of Inl e \<Rightarrow> Inl e | Inr b' \<Rightarrow> Inr (b @ b'))"
  by (simp_all add: wcat.simps(3))

lemma witness_frame_encodes: "\<exists>b. encode_payload witness_names witness_frame = Inr b"
  by (simp add: encode_payload_def encode_frame_def encode_target_def encode_lane_def encode_msg_simps put_sym_def
      symbol_name_def vec_get_def intern_global_def empty_interner_def Let_def put_len_def put_str_def put_u32_def
      put_u64_def push_def put_raw_def put_opt_pos_def MAX_FRAME_def to_be_bytes_def wcat_eval)


text \<open>
  framing. A frame written to a stream with its length prefix is read back from it as the same
  frame, and the reader stops exactly at the next frame.
\<close>

theorem read_frame_bytes:
  assumes "names_text I0" "frame_ok f" "frame_bytes I0 f = Inr b"
    and "interner_inv I" "length (NAMES I) + frame_syms f \<le> 2 ^ 32" "m + frame_syms f \<le> MAX_WIRE_SYMBOLS"
  shows "\<exists>x I' m'. read_frame_capped MAX_FRAME \<lparr>buf = b @ rest, tbl = I, minted = m\<rparr> =
      Inr (x, \<lparr>buf = rest, tbl = I', minted = m'\<rparr>) \<and>
    rel_frame (same_name I0 I') (wire_frame f) x \<and> interner_inv I' \<and> grows I I' \<and> m' \<le> m + frame_syms f"
proof -
  obtain p where p: "encode_payload I0 f = Inr p" "b = len_prefixed p"
    using assms(3) by (auto simp: frame_bytes_def split: sum.splits)
  note e = encode_payload_Inr [OF p(1)]
  have "reads decode_frame p (\<lambda>I x. rel_frame (same_name I0 I) (wire_frame f) x) (frame_syms f)"
    using e MAX_FRAME_word by (intro reads_frame [OF assms(1,2)]) auto
  from readsE [OF this assms(4-6), of "[]"] obtain x I' m' where
    d: "decode_frame \<lparr>buf = p, tbl = I, minted = m\<rparr> = Inr (x, \<lparr>buf = [], tbl = I', minted = m'\<rparr>)"
      "interner_inv I'" "grows I I'" "m' \<le> m + frame_syms f" "rel_frame (same_name I0 I') (wire_frame f) x"
    by (metis append_Nil2 grows_refl)
  have "length p < 2 ^ 32" using e MAX_FRAME_word by (simp add: word_limit_def)
  with d e p(2) show ?thesis
    by (simp add: read_frame_capped_def rbind_def len_prefixed_def get_len_bytes read_exact_def)
qed

lemma read_frame_bytes_witness:
  "\<exists>b x r. frame_bytes witness_names witness_frame = Inr b \<and>
    read_frame_capped MAX_FRAME \<lparr>buf = b @ [9, 9], tbl = empty_interner, minted = 0\<rparr> = Inr (x, r) \<and>
    buf r = [9, 9] \<and> rel_frame (same_name witness_names (tbl r)) (wire_frame witness_frame) x"
proof -
  obtain b where b: "frame_bytes witness_names witness_frame = Inr b"
    using witness_frame_encodes by (auto simp: frame_bytes_def)
  have "length (NAMES empty_interner) + frame_syms witness_frame \<le> 2 ^ 32"
    "0 + frame_syms witness_frame \<le> MAX_WIRE_SYMBOLS"
    unfolding witness_frame_ok by (simp_all add: empty_interner_def MAX_WIRE_SYMBOLS_def)
  from read_frame_bytes [OF witness_names_ok(2) witness_frame_ok(1) b interner_inv_empty this, of "[9, 9]"]
  show ?thesis using b by fastforce
qed

text \<open>
  a length prefix above the cap is refused before a byte of the payload is read: the answer is the
  same whatever follows the prefix.
\<close>

theorem read_frame_over_cap:
  assumes "max_len < n" "n < 2 ^ 32"
  shows "read_frame_capped max_len \<lparr>buf = to_be_bytes (of_nat n :: u32) @ rest, tbl = I, minted = m\<rparr> = Inl InvalidData"
  using assms by (simp add: read_frame_capped_def rbind_def get_len_bytes err_def)

lemma read_frame_over_cap_witness:
  "read_frame_capped 4096 \<lparr>buf = to_be_bytes (of_nat 5000 :: u32) @ [1, 2, 3], tbl = empty_interner, minted = 0\<rparr> = Inl InvalidData"
  by (rule read_frame_over_cap) simp_all

end
