(* ===== verification/Wire_Safety.thy ===== *)
theory Wire_Safety
  imports Wire_Frames
begin

text \<open>
  What the codec guarantees of values and bytes it does not trust. Encoding: nothing that names a slot
  of this runtime's registries or code region is ever written. Decoding any bytes whatever: what is
  accepted is well-formed text, nested within the limit, free of such handles; the reader only
  moves forward; the interner only grows, and by no more than the wire-symbol cap allows.
\<close>

section \<open>Handles of this runtime never leave it\<close>

fun node_local :: "'s message \<Rightarrow> bool" where
  "node_local (MSocket n) = True"
| "node_local (MSubprocess n) = True"
| "node_local (MTable n) = True"
| "node_local (MFnShared h) = True"
| "node_local (MClosure c) = (cm_shared_arms c \<noteq> None)"
| "node_local _ = False"

lemma wcat_member: "wcat ws = Inr b \<Longrightarrow> w \<in> set ws \<Longrightarrow> \<exists>b'. w = Inr b'"
  by (induction ws arbitrary: b) (auto simp: wcat_Cons_Inr)

lemma wcat_pair: "wcat [v, w] = Inr b \<Longrightarrow> (\<exists>b'. v = Inr b') \<and> (\<exists>b'. w = Inr b')"
  by (auto simp: wcat_Cons_Inr)

lemma encode_entries_child:
  assumes "wcat (ws @ map (\<lambda>(k, v). wcat [enc k, enc v]) es) = Inr b" "c \<in> set (flat_pairs es)"
  shows "\<exists>b'. enc c = Inr b'"
proof -
  from assms(2) obtain k v where kv: "(k, v) \<in> set es" "c = k \<or> c = v" by (auto simp: set_flat_pairs)
  then have "wcat [enc k, enc v] \<in> set (ws @ map (\<lambda>(k, v). wcat [enc k, enc v]) es)" by force
  from wcat_member [OF assms(1) this] show ?thesis using kv(2) wcat_pair by blast
qed

lemma encode_items_child:
  "wcat (w # v # map enc xs) = Inr b \<Longrightarrow> c \<in> set xs \<Longrightarrow> \<exists>b'. enc c = Inr b'"
  "wcat (w # v # map enc xs @ us) = Inr b \<Longrightarrow> c \<in> set xs \<Longrightarrow> \<exists>b'. enc c = Inr b'"
  using wcat_member [of "w # v # map enc xs" b "enc c"] wcat_member [of "w # v # map enc xs @ us" b "enc c"] by auto

lemma encode_arm_child:
  assumes "encode_arm I a = Inr b" "c \<in> set (arm_children a)"
  shows "\<exists>b'. encode_msg I c = Inr b'"
proof -
  consider s where "(s, c) \<in> set (am_optionals a)" | "c \<in> set (am_body a)"
    using assms(2) by (auto simp: arm_children_def)
  then show ?thesis
  proof cases
    case 1
    then have "wcat [put_sym I s, encode_msg I c] \<in> set (map (\<lambda>(s, m). wcat [put_sym I s, encode_msg I m]) (am_optionals a))"
      by force
    with assms(1) show ?thesis
      unfolding encode_arm.simps by (metis (no_types, lifting) UnCI set_append wcat_member wcat_pair)
  next
    case 2
    then have "encode_msg I c \<in> set (map (encode_msg I) (am_body a))" by simp
    with assms(1) show ?thesis
      unfolding encode_arm.simps by (metis (no_types, lifting) UnCI set_append wcat_member)
  qed
qed

lemma encode_closure_child:
  assumes "encode_closure I c = Inr b" "m \<in> set (closure_children c)"
  shows "\<exists>b'. encode_msg I m = Inr b'"
proof -
  have e: "wcat ([put_opt_sym I (cm_name c), put_len (cm_arms c)] @ map (encode_arm I) (cm_arms c) @
      [put_opt_str (cm_doc c), put_len (cm_modules c)] @ map (\<lambda>(m, p). wcat [put_sym I m, put_sym I p]) (cm_modules c) @
      [put_len (cm_captured c)] @ map (\<lambda>(s, m). wcat [put_sym I s, encode_msg I m]) (cm_captured c) @
      [put_opt_sym I (cm_module c)]) = Inr b"
    using assms(1) by (simp add: encode_closure.simps split: if_splits)
  consider s where "(s, m) \<in> set (cm_captured c)" | a where "a \<in> set (cm_arms c)" "m \<in> set (arm_children a)"
    using assms(2) by (auto simp: closure_children_def)
  then show ?thesis
  proof cases
    case 1
    then have "wcat [put_sym I s, encode_msg I m] \<in> set (map (\<lambda>(s, m). wcat [put_sym I s, encode_msg I m]) (cm_captured c))"
      by force
    then show ?thesis using e by (metis (no_types, lifting) UnCI set_append wcat_member wcat_pair)
  next
    case 2
    then have "encode_arm I a \<in> set (map (encode_arm I) (cm_arms c))" by simp
    then have "\<exists>b'. encode_arm I a = Inr b'" using e by (metis (no_types, lifting) UnCI set_append wcat_member)
    then show ?thesis using encode_arm_child [OF _ 2(2)] by blast
  qed
qed

lemma encode_msg_child:
  assumes "encode_msg I m = Inr b" "c \<in> set (for_each_child m)"
  shows "\<exists>b'. encode_msg I c = Inr b'"
proof (cases m)
  case (MClosure cl)
  with assms show ?thesis using encode_closure_child by (auto simp: encode_msg_simps wcat_Cons_Inr)
qed (use assms in \<open>auto simp: encode_msg_simps 
    intro: encode_items_child encode_entries_child [of "[w, v]" for w v, simplified] encode_entries_child [of "[w, v, u]" for w v u, simplified]\<close>)

text \<open>
  C8: no handle of this runtime crosses the wire. A message that encodes nests, at any depth, no socket,
  subprocess, table or shared-function handle and no closure that carries its code by handle.
\<close>

theorem encode_msg_portable:
  assumes "encode_msg I m = Inr b"
  shows "\<forall>x \<in> set (submessages m). \<not> node_local x"
  using assms
proof (induction m arbitrary: b rule: message_induct)
  case (children m)
  have "\<not> node_local m"
    using children.prems by (cases m) (auto simp: encode_msg_simps encode_closure.simps wcat_Cons_Inr split: if_splits)
  then show ?case
    using children.IH encode_msg_child [OF children.prems] by (simp add: submessages.simps [of m]) blast
qed

lemma encode_msg_portable_witness:
  "\<exists>b. encode_msg empty_interner (MList [MInt 1, MVector [MNil]] None) = Inr b \<and>
    (\<forall>x \<in> set (submessages (MList [MInt 1, MVector [MNil]] None :: symbol message)). \<not> node_local x)"
proof -
  have "\<exists>b. encode_msg empty_interner (MList [MInt 1, MVector [MNil]] None) = Inr b"
    by (simp add: encode_msg_simps put_len_def put_u32_def put_u64_def push_def put_opt_pos_def wcat_eval)
  then show ?thesis using encode_msg_portable [of empty_interner "MList [MInt 1, MVector [MNil]] None"] by blast
qed

section \<open>What decoding accepts\<close>

definition rd_inv :: "rd \<Rightarrow> bool" where
  "rd_inv r \<longleftrightarrow> interner_inv (tbl r) \<and> names_text (tbl r) \<and> minted r \<le> MAX_WIRE_SYMBOLS \<and>
     length (NAMES (tbl r)) + (MAX_WIRE_SYMBOLS - minted r) \<le> 2 ^ 32"

definition rd_step :: "rd \<Rightarrow> rd \<Rightarrow> bool" where
  "rd_step r r' \<longleftrightarrow> suffix (buf r') (buf r) \<and> grows (tbl r) (tbl r') \<and> rd_inv r' \<and>
     length (NAMES (tbl r')) + minted r \<le> length (NAMES (tbl r)) + minted r'"

definition safe :: "'a reader \<Rightarrow> ('a \<Rightarrow> bool) \<Rightarrow> bool" where
  "safe d P \<longleftrightarrow> (\<forall>r x r'. rd_inv r \<longrightarrow> d r = Inr (x, r') \<longrightarrow> rd_step r r' \<and> P x)"

lemma rd_step_refl: "rd_inv r \<Longrightarrow> rd_step r r"
  by (simp add: rd_step_def)

lemma rd_step_trans: "rd_step r1 r2 \<Longrightarrow> rd_step r2 r3 \<Longrightarrow> rd_step r1 r3"
  by (auto simp: rd_step_def intro: suffix_order.order_trans grows_trans)

lemma safe_ret: "P x \<Longrightarrow> safe (ret x) P"
  by (auto simp: safe_def ret_def rd_step_refl)

lemma safe_err: "safe (err e) P"
  by (simp add: safe_def err_def)

lemma safe_bind: "safe d P \<Longrightarrow> (\<And>x. P x \<Longrightarrow> safe (f x) Q) \<Longrightarrow> safe (rbind d f) Q"
proof -
  assume d: "safe d P" and f: "\<And>x. P x \<Longrightarrow> safe (f x) Q"
  show ?thesis
    unfolding safe_def
  proof (intro allI impI)
    fix r y r' assume inv: "rd_inv r" and e: "rbind d f r = Inr (y, r')"
    then obtain x r1 where 1: "d r = Inr (x, r1)" "f x r1 = Inr (y, r')"
      by (auto simp: rbind_def split: sum.splits prod.splits)
    have s1: "rd_step r r1" "P x" using d inv 1(1) by (auto simp: safe_def)
    then have "rd_step r1 r' \<and> Q y" using f [OF s1(2)] 1(2) by (auto simp: safe_def rd_step_def)
    then show "rd_step r r' \<and> Q y" using s1(1) rd_step_trans by blast
  qed
qed

lemma safe_weaken: "safe d P \<Longrightarrow> (\<And>x. P x \<Longrightarrow> Q x) \<Longrightarrow> safe d Q"
  by (auto simp: safe_def)

lemma safe_exact: "safe (read_exact n) (\<lambda>b. length b = n)"
  by (auto simp: safe_def read_exact_def rd_step_def rd_inv_def suffix_drop split: if_splits)

lemma safe_u8: "safe get_u8 (\<lambda>_. True)"
  unfolding get_u8_def by (rule safe_bind [OF safe_exact]) (simp add: safe_ret)

lemma safe_u32: "safe get_u32 (\<lambda>_. True)"
  unfolding get_u32_def by (rule safe_bind [OF safe_exact]) (simp add: safe_ret)

lemma safe_u64: "safe get_u64 (\<lambda>_. True)"
  unfolding get_u64_def by (rule safe_bind [OF safe_exact]) (simp add: safe_ret)

lemma safe_len: "safe get_len (\<lambda>_. True)"
  unfolding get_len_def by (rule safe_bind [OF safe_u32]) (simp add: safe_ret)

lemma safe_guard: "safe d P \<Longrightarrow> safe (\<lambda>r. if c r then Inl e else d r) P"
  by (simp add: safe_def)

lemma safe_bytes: "safe get_bytes (\<lambda>_. True)"
  unfolding get_bytes_def
  by (rule safe_bind [OF safe_len]) (auto intro!: safe_guard intro: safe_weaken [OF safe_exact])

lemma safe_str: "safe get_str utf8_valid"
  unfolding get_str_def
  by (rule safe_bind [OF safe_len], rule safe_guard, rule safe_bind [OF safe_exact]) (simp add: safe_ret safe_err)

lemma safe_intern:
  assumes "utf8_valid name"
  shows "safe (\<lambda>r. case intern_existing None (tbl r) name of
       Some i \<Rightarrow> Inr (i, r)
     | None \<Rightarrow>
         if minted r \<ge> MAX_WIRE_SYMBOLS then Inl InvalidData
         else let (_, I', i) = intern None (tbl r) name in Inr (i, r\<lparr>tbl := I', minted := minted r + 1\<rparr>)) (\<lambda>_. True)"
  unfolding safe_def
proof (intro allI impI)
  fix r x r'
  assume inv: "rd_inv r" and e: "(case intern_existing None (tbl r) name of
       Some i \<Rightarrow> Inr (i, r)
     | None \<Rightarrow>
         if minted r \<ge> MAX_WIRE_SYMBOLS then Inl InvalidData
         else let (_, I', i) = intern None (tbl r) name in Inr (i, r\<lparr>tbl := I', minted := minted r + 1\<rparr>)) = Inr (x, r')"
  show "rd_step r r' \<and> True"
  proof (cases "IDS (tbl r) name")
    case (Some i)
    with e inv show ?thesis by (auto simp: intern_existing_def cache_find_def rd_step_refl)
  next
    case None
    then have lt: "minted r < MAX_WIRE_SYMBOLS" and r': "r' = r\<lparr>tbl := fst (intern_global (tbl r) name), minted := minted r + 1\<rparr>"
      using e by (auto simp: intern_existing_def cache_find_def intern_def split: if_splits prod.splits)
    have len: "length (NAMES (tbl r)) < 2 ^ 32" using inv lt by (auto simp: rd_inv_def)
    have inv1: "interner_inv (tbl r)" using inv by (simp add: rd_inv_def)
    note g = intern_global_inv [OF inv1 len, of name]
    have "NAMES (fst (intern_global (tbl r) name)) = NAMES (tbl r) @ [name]"
      using None by (simp add: intern_global_def Let_def)
    with g lt inv assms show ?thesis
      by (auto simp: r' rd_step_def rd_inv_def names_text_def)
  qed
qed

lemma safe_sym: "safe get_sym (\<lambda>_. True)"
  unfolding get_sym_def by (rule safe_bind [OF safe_str]) (rule safe_intern)

lemma safe_opt_sym: "safe get_opt_sym (\<lambda>_. True)"
  unfolding get_opt_sym_def
  by (rule safe_bind [OF safe_u8]) (auto intro!: safe_ret safe_err safe_bind [OF safe_sym])

lemma safe_opt_str: "safe get_opt_str (\<lambda>x. \<forall>s. x = Some s \<longrightarrow> utf8_valid s)"
  unfolding get_opt_str_def
  by (rule safe_bind [OF safe_u8]) (auto intro!: safe_ret safe_err safe_bind [OF safe_str])

lemma safe_opt_pos: "safe get_opt_pos (\<lambda>_. True)"
  unfolding get_opt_pos_def
  by (rule safe_bind [OF safe_u8]) (auto intro!: safe_ret safe_err safe_bind [OF safe_u32])

lemma safe_n: "safe d P \<Longrightarrow> safe (read_n n d) (\<lambda>xs. length xs = n \<and> (\<forall>x \<in> set xs. P x))"
proof (induction n)
  case 0
  then show ?case by (simp add: safe_ret)
next
  case (Suc n)
  then show ?case by (auto intro!: safe_bind [OF Suc.prems] safe_bind [OF Suc.IH] safe_ret)
qed

lemma safe_list: "safe d P \<Longrightarrow> safe (read_list d) (\<lambda>xs. \<forall>x \<in> set xs. P x)"
  unfolding read_list_def by (rule safe_bind [OF safe_len]) (auto intro: safe_weaken [OF safe_n])

lemma safe_pair: "safe d P \<Longrightarrow> safe e Q \<Longrightarrow> safe (read_pair d e) (\<lambda>(x, y). P x \<and> Q y)"
  unfolding read_pair_def by (auto intro!: safe_bind [of d P] safe_bind [of e Q] safe_ret)

definition accepted :: "nat \<Rightarrow> 's message \<Rightarrow> bool" where
  "accepted depth m \<longleftrightarrow> msg_ok m \<and> (\<forall>x \<in> set (submessages m). \<not> node_local x) \<and> depth + mdepth m \<le> MAX_DECODE_DEPTH"

lemma foldr_max_le: "(\<forall>x \<in> set xs. x \<le> (n :: nat)) \<Longrightarrow> foldr max xs 0 \<le> n"
  by (induction xs) auto

lemma accepted_intro:
  assumes "text_ok m" "\<not> node_local m" "depth < MAX_DECODE_DEPTH" "\<forall>c \<in> set (for_each_child m). accepted (Suc depth) c"
  shows "accepted depth m"
proof -
  have "foldr max (map mdepth (for_each_child m)) 0 \<le> MAX_DECODE_DEPTH - Suc depth"
    using assms(4) by (intro foldr_max_le) (auto simp: accepted_def)
  then have "depth + mdepth m \<le> MAX_DECODE_DEPTH" using assms(3) by (simp add: mdepth.simps [of m])
  then show ?thesis
    using assms(1,2,4) by (auto simp: accepted_def msg_ok_def submessages.simps [of m])
qed

lemma safe_closure:
  assumes "safe d P"
  shows "safe (decode_closure_with d) (\<lambda>c. (\<forall>m \<in> set (closure_children c). P m) \<and> cm_shared_arms c = None \<and>
    (\<forall>s. cm_doc c = Some s \<longrightarrow> utf8_valid s))"
proof -
  have named: "safe (read_list (read_pair get_sym d)) (\<lambda>xs. \<forall>m \<in> snd ` set xs. P m)"
    by (rule safe_weaken [OF safe_list [OF safe_pair [OF safe_sym assms]]]) auto
  have arm: "safe (decode_arm_with d) (\<lambda>a. \<forall>m \<in> set (arm_children a). P m)"
    unfolding decode_arm_with_def
    by (rule safe_bind [OF safe_list [OF safe_sym]], rule safe_bind [OF named], rule safe_bind [OF safe_opt_sym],
        rule safe_bind [OF safe_list [OF assms]], rule safe_ret) (auto simp: arm_children_def)
  show ?thesis
    unfolding decode_closure_with_def
    by (rule safe_bind [OF safe_opt_sym], rule safe_bind [OF safe_list [OF arm]], rule safe_bind [OF safe_opt_str],
        rule safe_bind [OF safe_list [OF safe_pair [OF safe_sym safe_sym]]], rule safe_bind [OF named],
        rule safe_bind [OF safe_opt_sym], rule safe_ret) (auto simp: closure_children_def)
qed

lemma safe_if: "safe a P \<Longrightarrow> safe b P \<Longrightarrow> safe (if c then a else b) P"
  by simp

lemma safe_one: "safe g Q \<Longrightarrow> (\<And>x. Q x \<Longrightarrow> P (f x)) \<Longrightarrow> safe (rbind g (\<lambda>x. ret (f x))) P"
  by (erule safe_bind) (simp add: safe_ret)

lemma safe_tag:
  assumes d: "depth < MAX_DECODE_DEPTH" and s: "safe e (accepted (Suc depth))"
  shows "safe (decode_tag_with e t) (accepted depth)"
proof -
  note ok = accepted_intro [OF _ _ d]
  have entries: "safe (read_list (read_pair e e)) (\<lambda>es. \<forall>m \<in> set (flat_pairs es). accepted (Suc depth) m)"
    by (rule safe_weaken [OF safe_list [OF safe_pair [OF s s]]]) (auto simp: set_flat_pairs)
  have dotted: "safe (if n < 2 then err InvalidData else rbind (read_n n e) (\<lambda>items. ret (MDotted items))) (accepted depth)" for n
  proof (cases "n < 2")
    case False
    then have "safe (rbind (read_n n e) (\<lambda>items. ret (MDotted items))) (accepted depth)"
      by (intro safe_one [OF safe_n [OF s]]) (auto intro!: ok)
    with False show ?thesis by simp
  qed (simp add: safe_err)
  show ?thesis
    unfolding decode_tag_with_def
    by (intro safe_if safe_err safe_ret ok safe_one [OF safe_u64] safe_one [OF safe_str] safe_one [OF safe_sym]
        safe_one [OF safe_bytes] safe_one [OF safe_list [OF s]] safe_one [OF entries]
        safe_one [OF safe_closure [OF s]] safe_bind [OF safe_len dotted] safe_bind [OF safe_list [OF s] safe_one [OF safe_opt_pos]]
        safe_bind [OF safe_sym safe_one [OF entries]] safe_bind [OF safe_sym safe_one [OF safe_u64]]) simp_all
qed

lemma safe_msg: "safe (decode_msg_at depth) (accepted depth)"
proof (induction "MAX_DECODE_DEPTH - depth" arbitrary: depth)
  case 0
  then show ?case by (subst decode_msg_at.simps) (simp add: safe_err)
next
  case (Suc n)
  then have d: "depth < MAX_DECODE_DEPTH" and s: "safe (decode_msg_at (Suc depth)) (accepted (Suc depth))" by auto
  from d show ?case
    by (subst decode_msg_at.simps) (auto intro!: safe_bind [OF safe_u8] safe_tag [OF d s])
qed

text \<open>
  C7: decoding untrusted bytes. Whatever the bytes, a message the decoder accepts has valid text, nests
  no deeper than the limit and carries no handle of any runtime; what is left of the buffer is a suffix
  of it; the interner stays consistent, keeps every id it had, and grows by at most the number of
  symbols charged to the wire counter, which never passes its cap.
\<close>

theorem decode_msg_safe:
  assumes "rd_inv r" "decode_msg r = Inr (x, r')"
  shows "msg_ok x \<and> mdepth x \<le> MAX_DECODE_DEPTH \<and> (\<forall>y \<in> set (submessages x). \<not> node_local y) \<and>
    suffix (buf r') (buf r) \<and> interner_inv (tbl r') \<and> grows (tbl r) (tbl r') \<and>
    length (NAMES (tbl r')) + minted r \<le> length (NAMES (tbl r)) + minted r' \<and> minted r' \<le> MAX_WIRE_SYMBOLS"
proof -
  have "rd_step r r' \<and> accepted 0 x"
    using safe_msg [of 0] assms unfolding safe_def decode_msg_def by blast
  then show ?thesis by (simp add: accepted_def rd_step_def rd_inv_def)
qed

lemma decode_msg_safe_witness:
  "\<exists>x r'. decode_msg \<lparr>buf = [M_NIL, 7], tbl = empty_interner, minted = 0\<rparr> = Inr (x, r') \<and>
    msg_ok x \<and> suffix (buf r') [M_NIL, 7] \<and> minted r' \<le> MAX_WIRE_SYMBOLS"
proof -
  let ?r = "\<lparr>buf = [M_NIL, 7], tbl = empty_interner, minted = 0\<rparr>"
  have inv: "rd_inv ?r"
    using interner_inv_empty by (simp add: rd_inv_def names_text_def empty_interner_def MAX_WIRE_SYMBOLS_def)
  have "decode_msg ?r = Inr (MNil, ?r\<lparr>buf := [7]\<rparr>)"
    by (simp add: decode_msg_def decode_msg_at.simps [of 0] decode_tag_with_def rbind_def ret_def get_u8_def
        read_exact_def MAX_DECODE_DEPTH_def)
  from this decode_msg_safe [OF inv this] show ?thesis by auto
qed

text \<open>
  an up-front reservation is bounded: it never exceeds the claimed count, the bytes left in the
  frame, or the fixed cap, so a small frame cannot make the decoder reserve a large vector.
\<close>

theorem prealloc_bounded: "prealloc r n \<le> n \<and> prealloc r n \<le> remaining r \<and> prealloc r n \<le> PREALLOC_CAP"
  unfolding prealloc_def by linarith

end
