(* ===== verification/Interrupt.thy ===== *)
theory Interrupt
  imports Message
begin

text \<open>
  Interrupting a running process (\<open>process/interrupt.rs\<close>). A process opens windows, one inside another,
  in which it is willing to be stopped. A request from elsewhere, or the ceiling of an open window,
  raises an interrupt for one window; it stays raised until that window closes. The flags are the word
  another thread reads and changes by compare-exchange; each exchange is one step here. The clock, in
  microseconds, is an argument of the operations that read it.
\<close>

definition OPEN :: u8 where "OPEN = 1"
definition PENDING :: u8 where "PENDING = 2"
definition DEADLINE :: u8 where "DEADLINE = 4"
definition RAISED :: u8 where "RAISED = 8"
definition BY_CEILING :: u8 where "BY_CEILING = 16"

definition has :: "u8 \<Rightarrow> u8 \<Rightarrow> bool" where
  "has f b \<longleftrightarrow> f AND b \<noteq> 0"

record windows =
  opened_us :: u64
  deadline_us :: u64
  deadline_window :: u32
  raised_window :: u32
  ceilings :: "u64 option list"

record interrupt =
  flags :: u8
  wins :: "windows option"

definition no_windows :: windows where
  "no_windows = \<lparr>opened_us = 0, deadline_us = 0, deadline_window = 0, raised_window = 0, ceilings = []\<rparr>"

definition fresh_interrupt :: interrupt where
  "fresh_interrupt = \<lparr>flags = 0, wins = None\<rparr>"

definition saturating_add :: "u64 \<Rightarrow> u64 \<Rightarrow> u64" where
  "saturating_add a b = (if unat a + unat b < 2 ^ 64 then a + b else - 1)"

definition saturating_mul :: "u64 \<Rightarrow> u64 \<Rightarrow> u64" where
  "saturating_mul a b = (if unat a * unat b < 2 ^ 64 then a * b else - 1)"

definition saturating_sub :: "u64 \<Rightarrow> u64 \<Rightarrow> u64" where
  "saturating_sub a b = (if b \<le> a then a - b else 0)"

section \<open>The operations\<close>

text \<open>The earliest ceiling and its position, counted from \<open>i\<close>; the outermost on a tie.\<close>

fun earliest :: "nat \<Rightarrow> u64 option list \<Rightarrow> (u64 \<times> nat) option" where
  "earliest i [] = None"
| "earliest i (None # cs) = earliest (Suc i) cs"
| "earliest i (Some a # cs) =
     (case earliest (Suc i) cs of
        Some (b, j) \<Rightarrow> if a \<le> b then Some (a, i) else Some (b, j)
      | None \<Rightarrow> Some (a, i))"

definition arm_deadline :: "windows \<Rightarrow> windows \<times> u8" where
  "arm_deadline w =
     (case earliest 0 (ceilings w) of
        Some (at, index) \<Rightarrow> (w\<lparr>deadline_us := at, deadline_window := of_nat index + 1\<rparr>, DEADLINE)
      | None \<Rightarrow> (w, 0))"

definition open_window :: "u64 \<Rightarrow> u64 option \<Rightarrow> interrupt \<Rightarrow> u32 \<times> interrupt" where
  "open_window now ceiling_ms I =
     (let state = (case wins I of Some w \<Rightarrow> w | None \<Rightarrow> no_windows);
          ceiling = map_option (\<lambda>ms. saturating_add now (saturating_mul ms 1000)) ceiling_ms;
          state = state\<lparr>ceilings := ceilings state @ [ceiling]\<rparr>;
          depth = of_nat (length (ceilings state)) :: u32;
          (state, deadline) = arm_deadline state
      in if depth = 1 then
           (depth, I\<lparr>wins := Some (state\<lparr>opened_us := now\<rparr>), flags := OPEN OR deadline\<rparr>)
         else if deadline \<noteq> 0 then (depth, I\<lparr>wins := Some state, flags := flags I OR DEADLINE\<rparr>)
         else (depth, I\<lparr>wins := Some state\<rparr>))"

definition close_window :: "u32 \<Rightarrow> interrupt \<Rightarrow> interrupt" where
  "close_window depth I =
     (case wins I of
        None \<Rightarrow> I
      | Some state \<Rightarrow>
          (let state = state\<lparr>ceilings := take (unat depth - 1) (ceilings state)\<rparr>
           in if ceilings state = [] then I\<lparr>wins := Some state, flags := 0\<rparr>
              else
                (let (state, deadline) = arm_deadline state;
                     consumed = (raised_window state \<ge> depth);
                     next = (flags I AND NOT DEADLINE) OR deadline;
                     next = (if consumed then next AND NOT (RAISED OR BY_CEILING) else next)
                 in I\<lparr>wins := Some state, flags := next\<rparr>)))"

definition open_for_us :: "u64 \<Rightarrow> interrupt \<Rightarrow> u64 option" where
  "open_for_us now I =
     (if \<not> has (flags I) OPEN then None
      else map_option (\<lambda>state. saturating_sub now (opened_us state)) (wins I))"

definition request :: "u64 \<Rightarrow> u64 \<Rightarrow> interrupt \<Rightarrow> bool \<times> interrupt" where
  "request now busy_us I =
     (if \<not> has (flags I) OPEN then (False, I)
      else if has (flags I) RAISED then (True, I)
      else (case wins I of
          None \<Rightarrow> (False, I)
        | Some state \<Rightarrow>
            if busy_us > 0 \<and> saturating_sub now (opened_us state) < busy_us then (False, I)
            else (True, I\<lparr>flags := flags I OR PENDING\<rparr>)))"

definition due :: "u64 \<Rightarrow> interrupt \<Rightarrow> bool" where
  "due now I \<longleftrightarrow>
     has (flags I) (PENDING OR DEADLINE OR RAISED) \<and>
     (has (flags I) (PENDING OR RAISED) \<or>
      (case wins I of Some state \<Rightarrow> now \<ge> deadline_us state | None \<Rightarrow> False))"

definition take_interrupt :: "u64 \<Rightarrow> interrupt \<Rightarrow> bool option \<times> interrupt" where
  "take_interrupt now I =
     (if \<not> has (flags I) (PENDING OR DEADLINE OR RAISED) then (None, I)
      else if has (flags I) RAISED then (Some (has (flags I) BY_CEILING), I)
      else (case wins I of
          None \<Rightarrow> (None, I)
        | Some state \<Rightarrow>
            (let by_ceiling = (\<not> has (flags I) PENDING)
             in if by_ceiling \<and> now < deadline_us state then (None, I)
                else
                  (let window = (if by_ceiling then deadline_window state else of_nat (length (ceilings state)));
                       raised = (flags I AND DEADLINE) OR OPEN OR RAISED OR (if by_ceiling then BY_CEILING else 0)
                   in (Some by_ceiling, I\<lparr>wins := Some (state\<lparr>raised_window := window\<rparr>), flags := raised\<rparr>)))))"

definition raised_for :: "u32 \<Rightarrow> interrupt \<Rightarrow> bool" where
  "raised_for depth I \<longleftrightarrow>
     has (flags I) RAISED \<and> (case wins I of Some state \<Rightarrow> raised_window state = depth | None \<Rightarrow> False)"

section \<open>The quit key\<close>

datatype quit_atom = QKeyword symbol | QStr rstring | QInt u64
datatype quit_pattern = QAtom quit_atom | QPrefix "quit_atom list"
datatype origin = FromHere | FromPeer symbol bool

record quit_key =
  key :: quit_pattern
  busy_us :: u64
  from_node :: "symbol option"

fun atom_matches :: "quit_atom \<Rightarrow> symbol message \<Rightarrow> bool" where
  "atom_matches (QKeyword a) (MKeyword b) = (a = b)"
| "atom_matches (QStr a) (MStr b) = (a = b)"
| "atom_matches (QInt a) (MInt b) = (a = b)"
| "atom_matches _ _ = False"

definition admits :: "quit_key \<Rightarrow> origin \<Rightarrow> bool" where
  "admits q origin = (case (origin, from_node q) of
     (FromHere, _) \<Rightarrow> True
   | (FromPeer node guest, Some from) \<Rightarrow> node = from
   | (FromPeer node guest, None) \<Rightarrow> \<not> guest)"

definition quit_matches :: "quit_key \<Rightarrow> symbol message \<Rightarrow> bool \<Rightarrow> bool" where
  "quit_matches q msg priority = (case key q of
     QAtom atom \<Rightarrow> priority \<and> atom_matches atom msg
   | QPrefix atoms \<Rightarrow> (case msg of
        MVector items \<Rightarrow> length items \<ge> length atoms \<and> list_all (\<lambda>(atom, item). atom_matches atom item) (zip atoms items)
      | _ \<Rightarrow> False))"

section \<open>The flags\<close>

named_theorems flag_simps \<open>the flags of an interrupt as bits\<close>

lemma has_bits [flag_simps]:
  "has f OPEN = bit f 0"
  "has f PENDING = bit f 1"
  "has f DEADLINE = bit f 2"
  "has f RAISED = bit f 3"
  "has f BY_CEILING = bit f 4"
  using and_exp_eq_0_iff_not_bit [of f 0] and_exp_eq_0_iff_not_bit [of f 1] and_exp_eq_0_iff_not_bit [of f 2]
    and_exp_eq_0_iff_not_bit [of f 3] and_exp_eq_0_iff_not_bit [of f 4]
  by (simp_all add: has_def OPEN_def PENDING_def DEADLINE_def RAISED_def BY_CEILING_def)

lemma has_or [flag_simps]: "has f (a OR b) \<longleftrightarrow> has f a \<or> has f b"
  by (simp add: has_def bit.conj_disj_distrib or_eq_0_iff)

lemma bit_one_flag: "k < 8 \<Longrightarrow> bit (2 ^ k :: u8) n \<longleftrightarrow> n = k"
  by (auto simp: bit_exp_iff)

lemma flag_bit [flag_simps]:
  "bit OPEN n = (n = 0)" "bit PENDING n = (n = 1)" "bit DEADLINE n = (n = 2)"
  "bit RAISED n = (n = 3)" "bit BY_CEILING n = (n = 4)"
  using bit_one_flag [of 0] bit_one_flag [of 1] bit_one_flag [of 2] bit_one_flag [of 3] bit_one_flag [of 4]
  by (simp_all add: OPEN_def PENDING_def DEADLINE_def RAISED_def BY_CEILING_def)

lemma DEADLINE_not_0 [simp]: "DEADLINE \<noteq> 0"
  by (simp add: DEADLINE_def)

section \<open>What every interleaving keeps\<close>

text \<open>A window is open exactly when \<open>OPEN\<close> is set, and the other flags say what the window state holds.\<close>

definition depth_of :: "interrupt \<Rightarrow> nat" where
  "depth_of I = (case wins I of None \<Rightarrow> 0 | Some w \<Rightarrow> length (ceilings w))"

definition armed :: "interrupt \<Rightarrow> windows \<Rightarrow> bool" where
  "armed I w \<longleftrightarrow> (case earliest 0 (ceilings w) of
     None \<Rightarrow> \<not> has (flags I) DEADLINE
   | Some (at, i) \<Rightarrow> has (flags I) DEADLINE \<and> deadline_us w = at \<and> unat (deadline_window w) = Suc i)"

definition intr_inv :: "interrupt \<Rightarrow> bool" where
  "intr_inv I \<longleftrightarrow> depth_of I < 2 ^ 32 \<and>
     (if depth_of I = 0 then flags I = 0
      else has (flags I) OPEN \<and> (\<forall>w. wins I = Some w \<longrightarrow> armed I w \<and>
        (has (flags I) RAISED \<longrightarrow> \<not> has (flags I) PENDING \<and> 0 < raised_window w \<and> unat (raised_window w) \<le> length (ceilings w))) \<and>
        (has (flags I) BY_CEILING \<longrightarrow> has (flags I) RAISED))"

lemma earliest_None: "earliest i cs = None \<longleftrightarrow> (\<forall>c \<in> set cs. c = None)"
  by (induction i cs rule: earliest.induct) (auto split: option.splits if_splits)

lemma earliest_bound: "earliest i cs = Some (a, j) \<Longrightarrow> i \<le> j \<and> j < i + length cs"
proof (induction i cs arbitrary: a j rule: earliest.induct)
  case (3 i c cs)
  show ?case
  proof (cases "earliest (Suc i) cs")
    case (Some q)
    then obtain b k where q: "earliest (Suc i) cs = Some (b, k)" by (cases q) auto
    then show ?thesis using "3.IH" [OF q] "3.prems" by (auto split: if_splits)
  qed (use "3.prems" in auto)
next
  case (2 i cs)
  then show ?case using "2.IH" [of a j] by simp
qed simp

text \<open>The armed ceiling passes no later than any other.\<close>

lemma earliest_least: "earliest i cs = Some (a, j) \<Longrightarrow> Some b \<in> set cs \<Longrightarrow> a \<le> b"
proof (induction i cs arbitrary: a j rule: earliest.induct)
  case (3 i c cs)
  show ?case
  proof (cases "earliest (Suc i) cs")
    case None
    moreover from None have "\<forall>x \<in> set cs. x = None" by (simp only: earliest_None)
    ultimately have "a = c" "\<forall>x \<in> set cs. x = None" using "3.prems" by simp_all
    then show ?thesis using "3.prems" by auto
  next
    case (Some q)
    then obtain d k where q: "earliest (Suc i) cs = Some (d, k)" by (cases q) auto
    then show ?thesis using "3.IH" [OF q] "3.prems" by (auto split: if_splits)
  qed
qed auto

lemma arm_deadline_fields [simp]:
  "ceilings (fst (arm_deadline w)) = ceilings w"
  "raised_window (fst (arm_deadline w)) = raised_window w"
  "opened_us (fst (arm_deadline w)) = opened_us w"
  by (simp_all add: arm_deadline_def split: option.split)

lemma arm_deadline_flag: "snd (arm_deadline w) = (if earliest 0 (ceilings w) = None then 0 else DEADLINE)"
  by (auto simp: arm_deadline_def split: option.split)

lemma arm_deadline_window:
  assumes "earliest 0 (ceilings w) = Some (at, i)" "length (ceilings w) < 2 ^ 32"
  shows "deadline_us (fst (arm_deadline w)) = at" "unat (deadline_window (fst (arm_deadline w))) = Suc i"
proof -
  have "i < length (ceilings w)" using earliest_bound [OF assms(1)] by simp
  then have "unat (of_nat (Suc i) :: u32) = Suc i"
    using assms(2) by (simp add: unat_of_nat take_bit_nat_eq_self_iff del: of_nat_Suc)
  then have "unat (of_nat i + 1 :: u32) = Suc i" by (simp add: add.commute)
  then show "deadline_us (fst (arm_deadline w)) = at" "unat (deadline_window (fst (arm_deadline w))) = Suc i"
    using assms(1) by (simp_all add: arm_deadline_def)
qed

lemma armed_arm:
  assumes "length (ceilings w) < 2 ^ 32" "has (flags I) DEADLINE \<longleftrightarrow> earliest 0 (ceilings w) \<noteq> None"
  shows "armed I (fst (arm_deadline w))"
  using assms arm_deadline_window [OF _ assms(1)] by (auto simp: armed_def split: option.split)

text \<open>The step of any thread: the owner opens, closes and raises; any other requests.\<close>

inductive istep :: "interrupt \<Rightarrow> interrupt \<Rightarrow> bool" where
  opened: "depth_of I + 1 < 2 ^ 32 \<Longrightarrow> istep I (snd (open_window now c I))"
| closed: "istep I (close_window d I)"
| requested: "istep I (snd (request now b I))"
| taken: "istep I (snd (take_interrupt now I))"

lemma inv_Some:
  assumes "intr_inv I" "0 < depth_of I"
  obtains w where "wins I = Some w" "ceilings w \<noteq> []" "length (ceilings w) < 2 ^ 32" "has (flags I) OPEN" "armed I w"
    "has (flags I) RAISED \<Longrightarrow> \<not> has (flags I) PENDING \<and> 0 < raised_window w \<and> unat (raised_window w) \<le> length (ceilings w)"
    "has (flags I) BY_CEILING \<Longrightarrow> has (flags I) RAISED"
  using assms by (cases "wins I") (auto simp: intr_inv_def depth_of_def)

lemma inv_closed: "intr_inv I \<Longrightarrow> depth_of I = 0 \<Longrightarrow> flags I = 0"
  by (simp add: intr_inv_def)

lemma has_0 [simp]: "\<not> has 0 b"
  by (simp add: has_def)

lemma inv_I:
  assumes "wins I = Some w" "ceilings w \<noteq> []" "length (ceilings w) < 2 ^ 32" "has (flags I) OPEN" "armed I w"
    "has (flags I) RAISED \<Longrightarrow> \<not> has (flags I) PENDING \<and> 0 < raised_window w \<and> unat (raised_window w) \<le> length (ceilings w)"
    "has (flags I) BY_CEILING \<Longrightarrow> has (flags I) RAISED"
  shows "intr_inv I"
  using assms by (auto simp: intr_inv_def depth_of_def)

lemma armed_cong:
  "ceilings w' = ceilings w \<Longrightarrow> deadline_us w' = deadline_us w \<Longrightarrow> deadline_window w' = deadline_window w \<Longrightarrow>
   has (flags I') DEADLINE = has (flags I) DEADLINE \<Longrightarrow> armed I' w' = armed I w"
  by (simp add: armed_def split: option.split)

lemma inv_request: "intr_inv I \<Longrightarrow> intr_inv (snd (request now b I))"
proof (cases "depth_of I = 0")
  case True
  assume "intr_inv I"
  with True show ?thesis by (simp add: request_def inv_closed)
next
  case False
  assume inv: "intr_inv I"
  from False have pos: "0 < depth_of I" by simp
  obtain w where w: "wins I = Some w" "ceilings w \<noteq> []" "length (ceilings w) < 2 ^ 32" "has (flags I) OPEN" "armed I w"
    "has (flags I) BY_CEILING \<Longrightarrow> has (flags I) RAISED"
    using inv_Some [OF inv pos] by metis
  show ?thesis
  proof (cases "has (flags I) RAISED \<or> b > 0 \<and> saturating_sub now (opened_us w) < b")
    case True
    then show ?thesis using inv w(1,4) by (auto simp: request_def)
  next
    case raised: False
    have "intr_inv (I\<lparr>flags := flags I OR PENDING\<rparr>)"
    proof (rule inv_I)
      show "armed (I\<lparr>flags := flags I OR PENDING\<rparr>) w"
        using w(5) by (subst armed_cong [where I = I and w = w]) (auto simp: flag_simps bit_simps)
    qed (use w raised in \<open>auto simp: flag_simps bit_simps\<close>)
    then show ?thesis using raised w(1,4) by (auto simp: request_def)
  qed
qed

lemma inv_take: "intr_inv I \<Longrightarrow> intr_inv (snd (take_interrupt now I))"
proof (cases "depth_of I = 0")
  case True
  assume "intr_inv I"
  with True show ?thesis by (simp add: take_interrupt_def inv_closed)
next
  case False
  assume inv: "intr_inv I"
  from False have pos: "0 < depth_of I" by simp
  obtain w where w: "wins I = Some w" "ceilings w \<noteq> []" "length (ceilings w) < 2 ^ 32" "has (flags I) OPEN" "armed I w"
    "has (flags I) BY_CEILING \<Longrightarrow> has (flags I) RAISED"
    using inv_Some [OF inv pos] by metis
  define by_ceiling where "by_ceiling = (\<not> has (flags I) PENDING)"
  show ?thesis
  proof (cases "\<not> has (flags I) (PENDING OR DEADLINE OR RAISED) \<or> has (flags I) RAISED \<or> by_ceiling \<and> now < deadline_us w")
    case True
    then show ?thesis using inv w(1) by (auto simp: take_interrupt_def by_ceiling_def Let_def)
  next
    case raises: False
    define win where "win = (if by_ceiling then deadline_window w else of_nat (length (ceilings w)))"
    define raised where "raised = (flags I AND DEADLINE) OR OPEN OR RAISED OR (if by_ceiling then BY_CEILING else 0)"
    have win: "0 < win \<and> unat win \<le> length (ceilings w)"
    proof (cases by_ceiling)
      case True
      with raises have "has (flags I) DEADLINE" by (auto simp: has_or by_ceiling_def)
      with w(5) obtain at i where e: "earliest 0 (ceilings w) = Some (at, i)" "unat (deadline_window w) = Suc i"
        by (auto simp: armed_def split: option.splits)
      then show ?thesis using earliest_bound [OF e(1)] True by (auto simp: win_def word_less_nat_alt)
    next
      case False
      then show ?thesis using w(2,3)
        by (simp add: win_def word_less_nat_alt unat_of_nat take_bit_nat_eq_self_iff)
    qed
    have "intr_inv (I\<lparr>wins := Some (w\<lparr>raised_window := win\<rparr>), flags := raised\<rparr>)" (is "intr_inv ?J")
    proof (rule inv_I)
      show "armed ?J (w\<lparr>raised_window := win\<rparr>)"
        using w(5) by (subst armed_cong [where I = I and w = w]) (auto simp: raised_def flag_simps bit_simps)
    qed (use w win in \<open>auto simp: raised_def flag_simps bit_simps\<close>)
    then show ?thesis using raises w(1)
      by (auto simp: take_interrupt_def Let_def by_ceiling_def win_def raised_def)
  qed
qed

lemma inv_open:
  assumes inv: "intr_inv I" and room: "depth_of I + 1 < 2 ^ 32"
  shows "intr_inv (snd (open_window now c I))" "wins I = Some w \<Longrightarrow>
    \<exists>w'. wins (snd (open_window now c I)) = Some w' \<and> raised_window w' = raised_window w"
proof -
  define st where "st = (case wins I of Some w \<Rightarrow> w | None \<Rightarrow> no_windows)"
  define cs where "cs = ceilings st @ [map_option (\<lambda>ms. saturating_add now (saturating_mul ms 1000)) c]"
  define a where "a = fst (arm_deadline (st\<lparr>ceilings := cs\<rparr>))"
  have d: "depth_of I = length (ceilings st)"
    by (simp add: depth_of_def st_def no_windows_def split: option.split)
  have len: "length cs < 2 ^ 32" using room d by (simp add: cs_def)
  have unat: "unat (of_nat (length cs) :: u32) = length cs"
    using len by (simp add: unat_of_nat take_bit_nat_eq_self_iff)
  have "(of_nat (length (ceilings st)) :: u32) = 0 \<longleftrightarrow> length (ceilings st) = 0"
    using room d by (simp add: word_unat_eq_iff unat_of_nat take_bit_nat_eq_self_iff)
  then have one: "(of_nat (length (ceilings st)) :: u32) = 0 \<longleftrightarrow> depth_of I = 0"
    using d by simp
  have res: "open_window now c I = (of_nat (length cs),
      if depth_of I = 0 then I\<lparr>wins := Some (a\<lparr>opened_us := now\<rparr>), flags := OPEN OR snd (arm_deadline (st\<lparr>ceilings := cs\<rparr>))\<rparr>
      else if earliest 0 cs \<noteq> None then I\<lparr>wins := Some a, flags := flags I OR DEADLINE\<rparr>
      else I\<lparr>wins := Some a\<rparr>)"
    using one by (auto simp: open_window_def Let_def st_def [symmetric] cs_def [symmetric] a_def arm_deadline_flag split_beta)
  have a: "ceilings a = cs" "raised_window a = raised_window st" by (simp_all add: a_def)
  show "\<exists>w'. wins (snd (open_window now c I)) = Some w' \<and> raised_window w' = raised_window w" if "wins I = Some w"
    using that a by (auto simp: res st_def)
  have arm: "armed J a" if "has (flags J) DEADLINE \<longleftrightarrow> earliest 0 cs \<noteq> None" for J
    unfolding a_def by (rule armed_arm) (use that len in simp_all)
  show "intr_inv (snd (open_window now c I))"
  proof (cases "depth_of I = 0")
    case True
    let ?J = "I\<lparr>wins := Some (a\<lparr>opened_us := now\<rparr>), flags := OPEN OR snd (arm_deadline (st\<lparr>ceilings := cs\<rparr>))\<rparr>"
    have "intr_inv ?J"
    proof (rule inv_I)
      have "armed ?J a" by (rule arm) (simp add: arm_deadline_flag flag_simps bit_simps)
      then show "armed ?J (a\<lparr>opened_us := now\<rparr>)" by (subst armed_cong [where I = ?J and w = a]) simp_all
    qed (use a len in \<open>auto simp: cs_def arm_deadline_flag flag_simps bit_simps split: if_splits\<close>)
    then show ?thesis by (simp add: res True)
  next
    case False
    then obtain w where w: "wins I = Some w" "has (flags I) OPEN" "armed I w"
      "has (flags I) RAISED \<Longrightarrow> \<not> has (flags I) PENDING \<and> 0 < raised_window w \<and> unat (raised_window w) \<le> length (ceilings w)"
      "has (flags I) BY_CEILING \<Longrightarrow> has (flags I) RAISED"
      using inv_Some [OF inv] by (metis not_gr0)
    have "st = w" using w(1) by (simp add: st_def)
    have none: "\<not> has (flags I) DEADLINE" if "earliest 0 cs = None"
    proof -
      have "earliest 0 (ceilings w) = None" using that by (simp add: earliest_None cs_def \<open>st = w\<close>)
      then show ?thesis using w(3) by (simp add: armed_def)
    qed
    define J where "J = (if earliest 0 cs \<noteq> None then I\<lparr>wins := Some a, flags := flags I OR DEADLINE\<rparr> else I\<lparr>wins := Some a\<rparr>)"
    have fl: "has (flags J) DEADLINE \<longleftrightarrow> earliest 0 cs \<noteq> None" "has (flags J) OPEN" "has (flags J) RAISED = has (flags I) RAISED"
      "has (flags J) PENDING = has (flags I) PENDING" "has (flags J) BY_CEILING = has (flags I) BY_CEILING"
      using none w(2) by (cases "earliest 0 cs"; auto simp: J_def flag_simps bit_simps)+
    have "intr_inv J"
    proof (rule inv_I)
      show "wins J = Some a" by (simp add: J_def)
      show "armed J a" by (rule arm) (simp add: fl)
    qed (use w fl a len \<open>st = w\<close> in \<open>auto simp: cs_def\<close>)
    then show ?thesis using False by (simp add: res J_def)
  qed
qed

lemma inv_close:
  assumes inv: "intr_inv I"
  shows "intr_inv (close_window d I)" and "depth_of I = 0 \<Longrightarrow> flags (close_window d I) = 0"
    and "0 < d \<Longrightarrow> unat d \<le> depth_of I \<Longrightarrow> raised_for v (close_window d I) \<longleftrightarrow> raised_for v I \<and> v < d"
proof -
  have "intr_inv (close_window d I) \<and> (depth_of I = 0 \<longrightarrow> flags (close_window d I) = 0) \<and>
    (0 < d \<longrightarrow> unat d \<le> depth_of I \<longrightarrow> (raised_for v (close_window d I) \<longleftrightarrow> raised_for v I \<and> v < d))"
  proof (cases "depth_of I = 0")
    case True
    then show ?thesis using inv inv_closed [OF inv True]
      by (auto simp: close_window_def depth_of_def intr_inv_def raised_for_def word_less_nat_alt Let_def split: option.splits)
  next
    case False
    then obtain w where w: "wins I = Some w" "ceilings w \<noteq> []" "length (ceilings w) < 2 ^ 32" "has (flags I) OPEN" "armed I w"
      "has (flags I) RAISED \<Longrightarrow> \<not> has (flags I) PENDING \<and> 0 < raised_window w \<and> unat (raised_window w) \<le> length (ceilings w)"
      "has (flags I) BY_CEILING \<Longrightarrow> has (flags I) RAISED"
      using inv_Some [OF inv] by (metis not_gr0)
    define st where "st = w\<lparr>ceilings := take (unat d - 1) (ceilings w)\<rparr>"
    show ?thesis
    proof (cases "ceilings st = []")
      case True
      then have eq: "close_window d I = I\<lparr>wins := Some st, flags := 0\<rparr>"
        by (simp add: close_window_def w(1) st_def Let_def)
      have "v < d \<Longrightarrow> 0 < d \<Longrightarrow> raised_for v I \<Longrightarrow> False"
      proof -
        assume "v < d" "0 < d" and r: "raised_for v I"
        then have "unat v < unat d" "unat d \<le> 1"
          using True w(2) by (auto simp: st_def word_less_nat_alt)
        then have "v = 0" by (metis less_one order_less_le_trans unat_eq_zero)
        then show False using r w(1,6) by (auto simp: raised_for_def)
      qed
      then show ?thesis using False True by (auto simp: eq intr_inv_def depth_of_def raised_for_def)
    next
      case nonempty: False
      define a where "a = fst (arm_deadline st)"
      define next1 where "next1 = (flags I AND NOT DEADLINE) OR snd (arm_deadline st)"
      define next2 where "next2 = (if raised_window w \<ge> d then next1 AND NOT (RAISED OR BY_CEILING) else next1)"
      have eq: "close_window d I = I\<lparr>wins := Some a, flags := next2\<rparr>"
        using nonempty
        by (simp add: close_window_def w(1) st_def [symmetric] Let_def a_def next2_def next1_def split_beta)
          (simp add: st_def)
      have f: "ceilings a = take (unat d - 1) (ceilings w)" "raised_window a = raised_window w"
        by (simp_all add: a_def st_def)
      have fl: "has next2 OPEN" "has next2 PENDING = has (flags I) PENDING"
        "has next2 DEADLINE \<longleftrightarrow> earliest 0 (ceilings st) \<noteq> None"
        "has next2 RAISED \<longleftrightarrow> has (flags I) RAISED \<and> raised_window w < d"
        "has next2 BY_CEILING \<longleftrightarrow> has (flags I) BY_CEILING \<and> raised_window w < d"
        using w(4) by (auto simp: next2_def next1_def arm_deadline_flag flag_simps bit_simps not_le)
      have len: "length (ceilings st) < 2 ^ 32" using w(3) by (simp add: st_def)
      have "intr_inv (close_window d I)"
      proof (rule inv_I)
        show "wins (close_window d I) = Some a" by (simp add: eq)
        show "armed (close_window d I) a" unfolding a_def by (rule armed_arm) (use fl len in \<open>simp_all add: eq\<close>)
        show "ceilings a \<noteq> []" using nonempty by (simp add: a_def)
        show "length (ceilings a) < 2 ^ 32" using w(3) by (simp add: f)
        show "has (flags (close_window d I)) OPEN" "has (flags (close_window d I)) BY_CEILING \<Longrightarrow> has (flags (close_window d I)) RAISED"
          using fl w(7) by (auto simp: eq)
        assume r: "has (flags (close_window d I)) RAISED"
        then have "has (flags I) RAISED" "raised_window w < d" using fl by (auto simp: eq)
        then show "\<not> has (flags (close_window d I)) PENDING \<and> 0 < raised_window a \<and> unat (raised_window a) \<le> length (ceilings a)"
          using w(6) fl by (auto simp: eq f word_less_nat_alt)
      qed
      then show ?thesis using False w(1) by (auto simp: eq raised_for_def fl f)
    qed
  qed
  then show "intr_inv (close_window d I)" and "depth_of I = 0 \<Longrightarrow> flags (close_window d I) = 0"
    and "0 < d \<Longrightarrow> unat d \<le> depth_of I \<Longrightarrow> raised_for v (close_window d I) \<longleftrightarrow> raised_for v I \<and> v < d"
    by blast+
qed

lemma inv_istep: "istep I J \<Longrightarrow> intr_inv I \<Longrightarrow> intr_inv J"
  by (induction rule: istep.induct) (auto intro: inv_open(1) inv_close(1) inv_request inv_take)

lemma inv_fresh: "intr_inv fresh_interrupt"
  by (simp add: intr_inv_def fresh_interrupt_def depth_of_def)

lemma inv_reachable: "istep\<^sup>*\<^sup>* fresh_interrupt I \<Longrightarrow> intr_inv I"
  by (induction rule: rtranclp_induct) (auto intro: inv_istep inv_fresh)

lemma reach_open: "istep\<^sup>*\<^sup>* F I \<Longrightarrow> depth_of I + 1 < 2 ^ 32 \<Longrightarrow> istep\<^sup>*\<^sup>* F (snd (open_window now c I))"
  by (rule rtranclp.rtrancl_into_rtrancl) (auto intro: istep.opened)

lemma reach_request: "istep\<^sup>*\<^sup>* F I \<Longrightarrow> istep\<^sup>*\<^sup>* F (snd (request now b I))"
  by (rule rtranclp.rtrancl_into_rtrancl) (auto intro: istep.requested)

lemma reach_one: "istep\<^sup>*\<^sup>* fresh_interrupt (snd (open_window now c fresh_interrupt))"
  by (rule reach_open) (simp_all add: fresh_interrupt_def depth_of_def)

text \<open>The steps that leave window \<open>w\<close> open.\<close>

inductive inside :: "u32 \<Rightarrow> interrupt \<Rightarrow> interrupt \<Rightarrow> bool" for w where
  inside_opened: "depth_of I + 1 < 2 ^ 32 \<Longrightarrow> inside w I (snd (open_window now c I))"
| inside_closed: "w < d \<Longrightarrow> unat d \<le> depth_of I \<Longrightarrow> inside w I (close_window d I)"
| inside_requested: "inside w I (snd (request now b I))"
| inside_taken: "inside w I (snd (take_interrupt now I))"

lemma inside_istep: "inside w I J \<Longrightarrow> istep I J"
  by (induction rule: inside.induct) (auto intro: istep.intros)

definition raised_as :: "u32 \<Rightarrow> bool \<Rightarrow> interrupt \<Rightarrow> bool" where
  "raised_as w b I \<longleftrightarrow> raised_for w I \<and> (has (flags I) BY_CEILING \<longleftrightarrow> b)"

lemma raised_as_step:
  assumes "inside w I J" "intr_inv I" "raised_as w b I"
  shows "raised_as w b J"
  using assms
proof (induction rule: inside.induct)
  case (inside_opened I now c)
  then obtain x where x: "wins I = Some x" "has (flags I) RAISED" "raised_window x = w"
    by (auto simp: raised_as_def raised_for_def split: option.splits)
  have "depth_of I \<noteq> 0" using inside_opened x by (auto dest: inv_closed)
  then have "x \<noteq> no_windows" "length (ceilings x) \<noteq> 0" using x by (auto simp: depth_of_def no_windows_def)
  moreover have "(of_nat (length (ceilings x)) :: u32) \<noteq> 0"
    using inside_opened.hyps \<open>length (ceilings x) \<noteq> 0\<close> x(1)
    by (simp add: depth_of_def word_unat_eq_iff unat_of_nat take_bit_nat_eq_self_iff)
  ultimately show ?case using inside_opened.prems x
    by (auto simp: raised_as_def raised_for_def open_window_def Let_def split_beta flag_simps bit_simps)
next
  case (inside_closed d I)
  then have d: "0 < d" by (metis word_gt_0 word_not_simps(1))
  obtain x where x: "wins I = Some x" "raised_window x = w"
    using inside_closed.prems by (auto simp: raised_as_def raised_for_def split: option.splits)
  have "raised_for w (close_window d I)" using inside_closed inv_close(3) d by (auto simp: raised_as_def)
  moreover have "has (flags (close_window d I)) BY_CEILING = has (flags I) BY_CEILING"
  proof -
    have ne: "flags (close_window d I) \<noteq> 0" using \<open>raised_for w (close_window d I)\<close> by (auto simp: raised_for_def)
    then show ?thesis using x inside_closed.hyps(1)
      by (auto simp: close_window_def Let_def split_beta arm_deadline_flag flag_simps bit_simps)
  qed
  ultimately show ?case using inside_closed.prems by (simp add: raised_as_def)
next
  case (inside_requested I now c)
  then show ?case by (auto simp: raised_as_def raised_for_def request_def split: option.splits)
next
  case (inside_taken I now)
  then show ?case by (auto simp: raised_as_def raised_for_def take_interrupt_def split: option.splits)
qed

lemma raised_as_steps:
  "(inside w)\<^sup>*\<^sup>* I J \<Longrightarrow> intr_inv I \<Longrightarrow> raised_as w b I \<Longrightarrow> raised_as w b J \<and> intr_inv J"
  by (induction rule: rtranclp_induct) (auto intro: raised_as_step inv_istep inside_istep)

lemma raised_as_take: "raised_as w b I \<Longrightarrow> fst (take_interrupt now I) = Some b \<and> due now I"
  by (auto simp: raised_as_def raised_for_def take_interrupt_def due_def has_or)

lemma take_raises:
  assumes "intr_inv I" "take_interrupt now I = (Some b, I')"
  shows "\<exists>w. raised_as w b I' \<and> 0 < w \<and> unat w \<le> depth_of I'"
proof -
  have inv: "intr_inv I'" using inv_take [OF assms(1), of now] assms(2) by simp
  have r: "has (flags I') RAISED" "has (flags I') BY_CEILING = b"
    using assms(2) by (auto simp: take_interrupt_def Let_def flag_simps bit_simps split: if_splits option.splits)
  then have "0 < depth_of I'" using inv by (auto dest: inv_closed)
  then obtain w where w: "wins I' = Some w"
    "has (flags I') RAISED \<Longrightarrow> \<not> has (flags I') PENDING \<and> 0 < raised_window w \<and> unat (raised_window w) \<le> length (ceilings w)"
    using inv_Some [OF inv] by metis
  then show ?thesis using r by (auto simp: raised_as_def raised_for_def depth_of_def)
qed

section \<open>What a process can rely on\<close>

text \<open>
  C24: However the owner opens, closes and checks and however other threads request, the interrupt state
  stays consistent: the flags are clear exactly when no window is open, a ceiling is armed exactly when
  an open window has one, it is the earliest of them and belongs to the window recorded, and a raised
  interrupt is for exactly one of the open windows.
\<close>

theorem interrupt_consistent:
  assumes "istep\<^sup>*\<^sup>* fresh_interrupt I"
  shows "(flags I = 0 \<longleftrightarrow> depth_of I = 0) \<and>
    (\<forall>w. wins I = Some w \<longrightarrow> depth_of I \<noteq> 0 \<longrightarrow>
      (has (flags I) DEADLINE \<longleftrightarrow> (\<exists>c \<in> set (ceilings w). c \<noteq> None)) \<and>
      (has (flags I) DEADLINE \<longrightarrow> (\<forall>c. Some c \<in> set (ceilings w) \<longrightarrow> deadline_us w \<le> c)) \<and>
      (has (flags I) RAISED \<longrightarrow> (\<exists>!d. raised_for d I) \<and> (\<forall>d. raised_for d I \<longrightarrow> 0 < d \<and> unat d \<le> depth_of I)))"
proof -
  have inv: "intr_inv I" using assms by (rule inv_reachable)
  show ?thesis
  proof (cases "depth_of I = 0")
    case True
    then show ?thesis using inv_closed [OF inv] by simp
  next
    case False
    then obtain w where w: "wins I = Some w" "has (flags I) OPEN" "armed I w"
      "has (flags I) RAISED \<Longrightarrow> \<not> has (flags I) PENDING \<and> 0 < raised_window w \<and> unat (raised_window w) \<le> length (ceilings w)"
      using inv_Some [OF inv] by (metis not_gr0)
    have "flags I \<noteq> 0" using w(2) by auto
    moreover have "has (flags I) DEADLINE \<longleftrightarrow> (\<exists>c \<in> set (ceilings w). c \<noteq> None)"
      using w(3) earliest_None [of 0 "ceilings w"] by (auto simp: armed_def split: option.splits)
    moreover have "deadline_us w \<le> c" if "has (flags I) DEADLINE" "Some c \<in> set (ceilings w)" for c
      using w(3) that earliest_least [of 0 "ceilings w"] by (auto simp: armed_def split: option.splits)
    ultimately show ?thesis using w False by (auto simp: raised_for_def depth_of_def)
  qed
qed

lemma interrupt_consistent_witness:
  "let I = snd (open_window 7 (Some 2) (snd (open_window 5 None fresh_interrupt))) in
   has (flags I) DEADLINE \<and> depth_of I = 2 \<and> flags I \<noteq> 0"
proof -
  let ?I1 = "snd (open_window 5 None fresh_interrupt)"
  let ?I2 = "snd (open_window 7 (Some 2) ?I1)"
  have "depth_of fresh_interrupt = 0" "depth_of ?I1 = 1" "depth_of ?I2 = 2"
    by (simp_all add: fresh_interrupt_def depth_of_def open_window_def no_windows_def arm_deadline_def)
  moreover from this have "istep\<^sup>*\<^sup>* fresh_interrupt ?I2" by (intro reach_open reach_one) simp
  moreover have "has (flags ?I2) DEADLINE"
    by (simp add: fresh_interrupt_def open_window_def no_windows_def arm_deadline_def flag_simps bit_simps)
  ultimately show ?thesis using interrupt_consistent [of ?I2] by (simp add: Let_def)
qed

text \<open>
  An interrupt, once raised, is for one open window \<open>w\<close>, and whatever is opened, requested, raised or
  closed inside \<open>w\<close> afterwards, every later check of the process raises it again.
\<close>

theorem interrupt_sticky:
  assumes "istep\<^sup>*\<^sup>* fresh_interrupt I" "take_interrupt now I = (Some b, I')"
  shows "\<exists>w. 0 < w \<and> unat w \<le> depth_of I' \<and> raised_for w I' \<and>
    (\<forall>J t. (inside w)\<^sup>*\<^sup>* I' J \<longrightarrow> raised_for w J \<and> fst (take_interrupt t J) = Some b \<and> due t J)"
proof -
  have inv: "intr_inv I" using assms(1) by (rule inv_reachable)
  from take_raises [OF inv assms(2)] obtain w where w: "raised_as w b I'" "0 < w" "unat w \<le> depth_of I'" by blast
  have "intr_inv I'" using inv_take [OF inv, of now] assms(2) by simp
  then have "raised_for w J \<and> fst (take_interrupt t J) = Some b \<and> due t J" if "(inside w)\<^sup>*\<^sup>* I' J" for J t
    using raised_as_steps [OF that] raised_as_take [of w b J] w(1) by (simp add: raised_as_def)
  then show ?thesis using w by (auto simp: raised_as_def)
qed

lemma interrupt_sticky_witness:
  "let I = snd (request 6 0 (snd (open_window 5 None fresh_interrupt))); I' = snd (take_interrupt 9 I) in
   \<exists>w. raised_for w I' \<and> fst (take_interrupt 10 I') = Some False"
proof -
  let ?I1 = "snd (open_window 5 None fresh_interrupt)"
  let ?I2 = "snd (request 6 0 ?I1)"
  have "istep\<^sup>*\<^sup>* fresh_interrupt ?I2" by (intro reach_request reach_one)
  moreover have "take_interrupt 9 ?I2 = (Some False, snd (take_interrupt 9 ?I2))"
    by (simp add: fresh_interrupt_def open_window_def no_windows_def arm_deadline_def request_def take_interrupt_def
        has_or flag_simps bit_simps Let_def)
  ultimately show ?thesis using interrupt_sticky [of ?I2 9 False "snd (take_interrupt 9 ?I2)"] by (auto simp: Let_def)
qed

text \<open>
  Closing window \<open>d\<close> ends an interrupt raised for it or for a window inside it, and leaves one raised for
  an outer window standing; a window that is closed is answered by no other.
\<close>

theorem interrupt_ends:
  assumes "istep\<^sup>*\<^sup>* fresh_interrupt I" "0 < d" "unat d \<le> depth_of I"
  shows "raised_for v (close_window d I) \<longleftrightarrow> raised_for v I \<and> v < d"
  using inv_close(3) [OF inv_reachable [OF assms(1)] assms(2, 3)] .

lemma interrupt_ends_witness:
  "\<not> raised_for 1 (close_window 1 (snd (open_window 5 None fresh_interrupt)))"
proof -
  let ?I = "snd (open_window 5 None fresh_interrupt)"
  have "istep\<^sup>*\<^sup>* fresh_interrupt ?I" by (rule reach_one)
  moreover have "depth_of ?I = 1"
    by (simp add: fresh_interrupt_def depth_of_def open_window_def no_windows_def arm_deadline_def)
  ultimately show ?thesis using interrupt_ends [of ?I 1 1] by simp
qed

text \<open>The steps that keep a window open and do not check: the owner's opens and closes, and requests.\<close>

inductive kept_open :: "interrupt \<Rightarrow> interrupt \<Rightarrow> bool" where
  kept_opened: "depth_of I + 1 < 2 ^ 32 \<Longrightarrow> kept_open I (snd (open_window now c I))"
| kept_closed: "depth_of (close_window d I) \<noteq> 0 \<Longrightarrow> kept_open I (close_window d I)"
| kept_requested: "kept_open I (snd (request now b I))"

definition awaits :: "interrupt \<Rightarrow> bool" where
  "awaits I \<longleftrightarrow> has (flags I) PENDING \<and> \<not> has (flags I) RAISED \<and> depth_of I \<noteq> 0"

lemma awaits_step:
  assumes "kept_open I J" "awaits I"
  shows "awaits J"
  using assms
proof (induction rule: kept_open.induct)
  case (kept_opened I now c)
  then obtain x where x: "wins I = Some x" "length (ceilings x) \<noteq> 0"
    by (auto simp: awaits_def depth_of_def split: option.splits)
  have "(of_nat (length (ceilings x)) :: u32) \<noteq> 0"
    using kept_opened.hyps x by (simp add: depth_of_def word_unat_eq_iff unat_of_nat take_bit_nat_eq_self_iff)
  then show ?case using kept_opened.prems x
    by (auto simp: awaits_def depth_of_def open_window_def Let_def split_beta flag_simps bit_simps)
next
  case (kept_closed d I)
  then obtain x where x: "wins I = Some x" by (auto simp: awaits_def depth_of_def split: option.splits)
  have "take (unat d - 1) (ceilings x) \<noteq> []"
    using kept_closed.hyps x by (auto simp: depth_of_def close_window_def Let_def)
  then show ?case using kept_closed x
    by (auto simp: awaits_def close_window_def Let_def split_beta arm_deadline_flag flag_simps bit_simps)
next
  case (kept_requested I now b)
  then show ?case
    by (auto simp: awaits_def depth_of_def request_def flag_simps bit_simps split: option.splits)
qed

lemma awaits_steps: "kept_open\<^sup>*\<^sup>* I J \<Longrightarrow> awaits I \<Longrightarrow> awaits J"
  by (induction rule: rtranclp_induct) (auto intro: awaits_step)

lemma awaits_take:
  "awaits I \<Longrightarrow> fst (take_interrupt t I) = Some False \<and> raised_for (of_nat (depth_of I)) (snd (take_interrupt t I))"
  by (auto simp: awaits_def take_interrupt_def depth_of_def raised_for_def has_or Let_def flag_simps bit_simps split: option.splits)

lemma closed_last: "depth_of (close_window d I) = 0 \<Longrightarrow> depth_of I \<noteq> 0 \<Longrightarrow> fst (take_interrupt t (close_window d I)) = None"
proof -
  assume d: "depth_of (close_window d I) = 0" "depth_of I \<noteq> 0"
  then obtain x where x: "wins I = Some x" by (auto simp: depth_of_def split: option.splits)
  have "length (take (unat d - 1) (ceilings x)) = 0"
    using d(1) by (auto simp: x close_window_def depth_of_def Let_def split_beta split: if_splits)
  then have "take (unat d - 1) (ceilings x) = []" by (simp only: length_0_conv)
  then have "flags (close_window d I) = 0" by (simp add: x close_window_def Let_def del: take_eq_Nil take_eq_Nil2)
  then show ?thesis by (simp add: take_interrupt_def)
qed

text \<open>
  C25: A request that does not land, because no window is open or the window has not been open long enough,
  changes nothing. One that lands is answered by the process's next check, whatever windows are opened and
  closed and whatever else is requested before it, as long as a window stays open: the check raises a
  requested interrupt, for the window that is then innermost; closing the last window before the check drops
  the request. One that lands while an interrupt is already raised changes nothing either, and every check is
  answered while the window raised for stays open.
\<close>

theorem request_answered:
  assumes "istep\<^sup>*\<^sup>* fresh_interrupt I" "request now busy I = (landed, I')"
  shows "if \<not> landed then I' = I
    else if has (flags I) RAISED then I' = I \<and>
      (\<exists>w b. raised_for w I \<and> (\<forall>J t. (inside w)\<^sup>*\<^sup>* I J \<longrightarrow> fst (take_interrupt t J) = Some b))
    else (\<forall>J t. kept_open\<^sup>*\<^sup>* I' J \<longrightarrow>
      fst (take_interrupt t J) = Some False \<and> raised_for (of_nat (depth_of J)) (snd (take_interrupt t J)) \<and>
      (\<forall>d. depth_of (close_window d J) = 0 \<longrightarrow> fst (take_interrupt t (close_window d J)) = None))"
proof -
  have inv: "intr_inv I" using assms(1) by (rule inv_reachable)
  have same: "\<not> landed \<or> has (flags I) RAISED \<Longrightarrow> I' = I"
    using assms(2) by (auto simp: request_def split: if_splits option.splits)
  have open_I: "depth_of I \<noteq> 0" if "has (flags I) OPEN" using inv_closed [OF inv] that by (metis has_0)
  have "\<exists>w b. raised_for w I \<and> (\<forall>J t. (inside w)\<^sup>*\<^sup>* I J \<longrightarrow> fst (take_interrupt t J) = Some b)" if r: "has (flags I) RAISED"
  proof -
    have "0 < depth_of I" using inv_closed [OF inv] r by (metis has_0 not_gr0)
    from inv_Some [OF inv this] obtain x where "wins I = Some x" by metis
    with r have w: "raised_as (raised_window x) (has (flags I) BY_CEILING) I" by (simp add: raised_as_def raised_for_def)
    have "fst (take_interrupt t J) = Some (has (flags I) BY_CEILING)" if "(inside (raised_window x))\<^sup>*\<^sup>* I J" for J t
      using raised_as_steps [OF that inv w] raised_as_take by blast
    moreover have "raised_for (raised_window x) I" using w by (simp add: raised_as_def)
    ultimately show ?thesis by blast
  qed
  note already = this
  show ?thesis
  proof (cases "landed \<and> \<not> has (flags I) RAISED")
    case True
    then have "awaits I'"
      using assms(2) open_I
      by (auto simp: awaits_def depth_of_def request_def flag_simps bit_simps split: if_splits option.splits)
    then have "awaits J" if "kept_open\<^sup>*\<^sup>* I' J" for J using awaits_steps [OF that] by blast
    then show ?thesis using True awaits_take closed_last by (simp add: awaits_def)
  next
    case False
    then show ?thesis using same already by auto
  qed
qed

lemma request_answered_witness:
  "let I = snd (open_window 5 None fresh_interrupt); J = close_window 2 (snd (open_window 7 None (snd (request 6 0 I)))) in
   fst (take_interrupt 9 J) = Some False \<and> fst (take_interrupt 9 (close_window 1 J)) = None"
proof -
  let ?I = "snd (open_window 5 None fresh_interrupt)" let ?R = "snd (request 6 0 ?I)"
  let ?O = "snd (open_window 7 None ?R)" let ?J = "close_window 2 ?O"
  have r: "request 6 0 ?I = (True, ?R)" "\<not> has (flags ?I) RAISED"
    by (simp_all add: fresh_interrupt_def open_window_def no_windows_def arm_deadline_def request_def flag_simps bit_simps Let_def)
  have d: "depth_of ?R = 1" "depth_of ?J = 1" "depth_of (close_window 1 ?J) = 0"
    by (simp_all add: fresh_interrupt_def open_window_def no_windows_def arm_deadline_def request_def close_window_def depth_of_def
        flag_simps bit_simps Let_def)
  have "kept_open ?R ?O" using d(1) by (intro kept_open.kept_opened) simp
  moreover have "kept_open ?O ?J" using d(2) by (intro kept_open.kept_closed) simp
  ultimately have "kept_open\<^sup>*\<^sup>* ?R ?J" by (meson converse_rtranclp_into_rtranclp r_into_rtranclp)
  with request_answered [OF reach_one r(1)] r(2) d(3) show ?thesis by (simp add: Let_def)
qed

end
