(* ===== verification/Mailbox.thy ===== *)
theory Mailbox
  imports Interrupt Values Wire_Codec
begin

text \<open>
  A process's mailbox (\<open>process/mailbox.rs\<close>): the queue with its lanes, the arrival numbers that order it,
  the deactivated reply aliases, the pending exit, the queue bound, and delivery. Everything here runs
  under the mailbox lock, so an operation is one step. A waiting process is its id; the arrival counter
  is a natural number (a mailbox would need \<open>2 ^ 64\<close> arrivals to wrap it). The causal trace of the
  debugger build is left out.
\<close>

datatype payload = PWire "symbol message" | PLocal u32 "symbol option"

text \<open>A message's share of its source's flow-control budget: the source and the cost.\<close>

record delivery_credit =
  source :: nat
  cost :: nat

record envelope =
  msg :: payload
  seq :: nat
  credit :: "delivery_credit option"
  in_lane :: lane

definition DEAD_ALIAS_CAP :: nat where "DEAD_ALIAS_CAP = 8"

record alias_ids =
  ids :: "u64 list"
  alias_len :: nat

type_synonym dead_aliases = "alias_ids option"

record mailbox_state =
  queue :: "envelope list"
  next_seq :: nat
  kill :: "symbol message option"
  kill_hard :: bool
  waiter :: "nat option"
  scanned :: nat
  recv_deadline :: "u64 option"
  dead_aliases :: dead_aliases
  cv_waiters :: u32
  wake_pending :: bool
  priority_queued :: nat
  latest_queued :: "(rstring \<Rightarrow> nat option) option"
  quit_key :: "quit_key option"

definition new_state :: mailbox_state where
  "new_state = \<lparr>queue = [], next_seq = 0, kill = None, kill_hard = False, waiter = None, scanned = 0,
     recv_deadline = None, dead_aliases = None, cv_waiters = 0, wake_pending = False, priority_queued = 0,
     latest_queued = None, quit_key = None\<rparr>"

definition plain :: "symbol message \<Rightarrow> envelope" where
  "plain m = \<lparr>msg = PWire m, seq = 0, credit = None, in_lane = Normal\<rparr>"

section \<open>The queue\<close>

text \<open>
  The standard library's \<open>partition_point\<close>: the number of leading elements that satisfy the predicate,
  when those that do all come first.
\<close>

definition partition_point :: "('a \<Rightarrow> bool) \<Rightarrow> 'a list \<Rightarrow> nat" where
  "partition_point p xs = length (takeWhile p xs)"

definition note_queued :: "envelope \<Rightarrow> mailbox_state \<Rightarrow> mailbox_state" where
  "note_queued env st = (case in_lane env of
     Normal \<Rightarrow> st
   | Priority \<Rightarrow> st\<lparr>priority_queued := priority_queued st + 1\<rparr>
   | Latest k \<Rightarrow> st\<lparr>latest_queued := Some ((case latest_queued st of Some m \<Rightarrow> m | None \<Rightarrow> (\<lambda>_. None))(k := Some (seq env)))\<rparr>)"

definition note_unqueued :: "envelope \<Rightarrow> mailbox_state \<Rightarrow> mailbox_state" where
  "note_unqueued env st = (case in_lane env of
     Normal \<Rightarrow> st
   | Priority \<Rightarrow> st\<lparr>priority_queued := priority_queued st - 1\<rparr>
   | Latest k \<Rightarrow> (case latest_queued st of
        Some ix \<Rightarrow> if ix k = Some (seq env) then st\<lparr>latest_queued := Some (ix(k := None))\<rparr> else st
      | None \<Rightarrow> st))"

definition remove_at :: "nat \<Rightarrow> mailbox_state \<Rightarrow> (envelope \<times> mailbox_state) option" where
  "remove_at i st = do {
     env \<leftarrow> vec_get (queue st) i;
     q \<leftarrow> vec_remove (queue st) i;
     Some (env, note_unqueued env (st\<lparr>queue := q\<rparr>)) }"

definition insert_at :: "nat \<Rightarrow> envelope \<Rightarrow> mailbox_state \<Rightarrow> mailbox_state option" where
  "insert_at i env st = do {
     let st = note_queued env st;
     q \<leftarrow> vec_insert (queue st) i env;
     Some (st\<lparr>queue := q\<rparr>) }"

definition clear_queue :: "mailbox_state \<Rightarrow> mailbox_state" where
  "clear_queue st = st\<lparr>queue := [], priority_queued := 0, latest_queued := None\<rparr>"

definition latest_seq :: "rstring \<Rightarrow> mailbox_state \<Rightarrow> nat option" where
  "latest_seq k st = (case latest_queued st of Some ix \<Rightarrow> ix k | None \<Rightarrow> None)"

definition holds_latest :: "rstring \<Rightarrow> mailbox_state \<Rightarrow> bool" where
  "holds_latest k st \<longleftrightarrow> latest_seq k st \<noteq> None"

definition drop_superseded :: "rstring \<Rightarrow> mailbox_state \<Rightarrow> mailbox_state" where
  "drop_superseded k st = (case latest_seq k st of
     None \<Rightarrow> st
   | Some s \<Rightarrow>
       (let i = partition_point (\<lambda>e. seq e < s) (queue st)
        in if i < length (queue st) \<and> seq (queue st ! i) = s then
             (let st = (case remove_at i st of Some (env, st) \<Rightarrow> st | None \<Rightarrow> st)
              in if i < scanned st then st\<lparr>scanned := scanned st - 1\<rparr> else st)
           else st))"

definition push :: "envelope \<Rightarrow> mailbox_state \<Rightarrow> mailbox_state" where
  "push env st =
     (let env = env\<lparr>seq := next_seq st\<rparr>;
          st = st\<lparr>next_seq := next_seq st + 1\<rparr>;
          st = (case in_lane env of Latest k \<Rightarrow> drop_superseded k st | _ \<Rightarrow> st);
          st = note_queued env st
      in st\<lparr>queue := queue st @ [env]\<rparr>)"

text \<open>Putting a scanned candidate back: the index it lands at, and \<open>None\<close> for a panic.\<close>

definition reinsert_at_seq :: "nat \<Rightarrow> envelope \<Rightarrow> mailbox_state \<Rightarrow> (nat \<times> mailbox_state) option" where
  "reinsert_at_seq i m st =
     (let s = seq m; len = length (queue st);
          unshifted = (i \<le> len \<and> (i = 0 \<or> seq (queue st ! (i - 1)) < s) \<and> (i = len \<or> seq (queue st ! i) > s));
          idx = (if unshifted then i else partition_point (\<lambda>e. seq e < s) (queue st))
      in do {
        st \<leftarrow> insert_at idx m st;
        (if idx = 0 \<or> seq (queue st ! (idx - 1)) < s then Some () else None);
        (if idx + 1 = length (queue st) \<or> seq (queue st ! (idx + 1)) > s then Some () else None);
        Some (idx, st) })"

definition reinsert_candidate :: "nat \<Rightarrow> envelope \<Rightarrow> mailbox_state \<Rightarrow> (nat \<times> mailbox_state) option" where
  "reinsert_candidate i m st =
     (if (case in_lane m of Latest k \<Rightarrow> holds_latest k st | _ \<Rightarrow> False)
      then Some (partition_point (\<lambda>e. seq e < seq m) (queue st), st)
      else reinsert_at_seq i m st)"

section \<open>Taking a priority message\<close>

text \<open>\<open>withdrawn\<close> says which sources have taken their undelivered messages back.\<close>

definition is_withdrawn :: "(nat \<Rightarrow> bool) \<Rightarrow> envelope \<Rightarrow> bool" where
  "is_withdrawn withdrawn env = (case credit env of Some c \<Rightarrow> withdrawn (source c) | None \<Rightarrow> False)"

lemma remove_at_length: "remove_at i st = Some (env, st') \<Longrightarrow> length (queue st) = Suc (length (queue st'))"
  by (auto simp: remove_at_def vec_get_def vec_remove_def note_unqueued_def split: if_splits lane.splits option.splits)

function take_priority_loop :: "(nat \<Rightarrow> bool) \<Rightarrow> nat \<Rightarrow> mailbox_state \<Rightarrow> envelope option \<times> mailbox_state" where
  "take_priority_loop withdrawn i st =
     (if i < length (queue st) then
        (if in_lane (queue st ! i) \<noteq> Priority then take_priority_loop withdrawn (i + 1) st
         else (case remove_at i st of
            None \<Rightarrow> (None, st)
          | Some (env, st') \<Rightarrow>
              (let st'' = (if i < scanned st' then st'\<lparr>scanned := scanned st' - 1\<rparr> else st')
               in if is_withdrawn withdrawn env then take_priority_loop withdrawn i st'' else (Some env, st''))))
      else (None, st))"
  by pat_completeness auto
termination
  by (relation "measure (\<lambda>(w, i, st). length (queue st) - i)")
    (auto dest!: remove_at_length split: if_splits)

declare take_priority_loop.simps [simp del]

definition take_priority :: "(nat \<Rightarrow> bool) \<Rightarrow> mailbox_state \<Rightarrow> envelope option \<times> mailbox_state" where
  "take_priority withdrawn st =
     (if priority_queued st = 0 then (None, st) else take_priority_loop withdrawn 0 st)"

section \<open>Deactivated reply aliases\<close>

definition copy_within :: "'a list \<Rightarrow> nat \<Rightarrow> nat \<Rightarrow> nat \<Rightarrow> 'a list" where
  "copy_within xs a b d = take d xs @ take (b - a) (drop a xs) @ drop (d + (b - a)) xs"

definition alias_insert :: "u64 \<Rightarrow> dead_aliases \<Rightarrow> dead_aliases" where
  "alias_insert i d =
     (let ds = (case d of Some s \<Rightarrow> s | None \<Rightarrow> \<lparr>ids = replicate DEAD_ALIAS_CAP 0, alias_len = 0\<rparr>)
      in if i \<in> set (take (alias_len ds) (ids ds)) then Some ds
         else
           (let ds = (if alias_len ds = DEAD_ALIAS_CAP
                 then ds\<lparr>ids := copy_within (ids ds) 1 DEAD_ALIAS_CAP 0, alias_len := alias_len ds - 1\<rparr>
                 else ds)
            in Some (ds\<lparr>ids := (ids ds)[alias_len ds := i], alias_len := alias_len ds + 1\<rparr>)))"

definition alias_take :: "u64 \<Rightarrow> dead_aliases \<Rightarrow> bool \<times> dead_aliases" where
  "alias_take i d = (case d of
     None \<Rightarrow> (False, d)
   | Some ds \<Rightarrow> (case position (\<lambda>x. x = i) (take (alias_len ds) (ids ds)) of
        None \<Rightarrow> (False, d)
      | Some p \<Rightarrow>
          (let ds = ds\<lparr>ids := copy_within (ids ds) (p + 1) (alias_len ds) p, alias_len := alias_len ds - 1\<rparr>
           in (True, if alias_len ds = 0 then None else Some ds))))"

text \<open>The ref a message is addressed to: the second element of a keyword-led vector.\<close>

definition message_alias :: "symbol message \<Rightarrow> u64 option" where
  "message_alias m = (case m of
     MVector (MKeyword _ # MRef i # _) \<Rightarrow> Some i
   | _ \<Rightarrow> None)"

definition value_alias :: "val \<Rightarrow> u64 option" where
  "value_alias v = (case v of
     VVector (VKeyword _ # VRef i # _) \<Rightarrow> Some i
   | _ \<Rightarrow> None)"

definition leading_keyword :: "val \<Rightarrow> symbol option" where
  "leading_keyword v = (case v of
     VVector (VKeyword k # _) \<Rightarrow> Some k
   | _ \<Rightarrow> None)"

section \<open>The mailbox record\<close>

definition ST_RUNNABLE :: u8 where "ST_RUNNABLE = 0"
definition ST_RUNNING :: u8 where "ST_RUNNING = 1"
definition ST_WAITING :: u8 where "ST_WAITING = 2"

record mailbox =
  runtime_tag :: u64
  state :: mailbox_state
  status :: u8
  kill_pending :: bool
  trap_exit :: bool
  max_mailbox :: nat
  overflow_hit :: nat
  took_priority :: bool
  timer_gen :: u64
  parent :: u64
  intr :: interrupt

definition new_mailbox :: mailbox where
  "new_mailbox = \<lparr>runtime_tag = 0, state = new_state, status = ST_RUNNING, kill_pending = False, trap_exit = False,
     max_mailbox = 0, overflow_hit = 0, took_priority = False, timer_gen = 0, parent = 0, intr = fresh_interrupt\<rparr>"

text \<open>The number of waiting processes is kept beside the statuses; it is the second component.\<close>

definition set_status :: "u8 \<Rightarrow> mailbox \<times> nat \<Rightarrow> mailbox \<times> nat" where
  "set_status new mp = (case mp of (mb, parked) \<Rightarrow>
     if status mb = new then (mb, parked)
     else
       (let old = status mb; mb = mb\<lparr>status := new\<rparr>
        in (case (old = ST_WAITING, new = ST_WAITING) of
             (False, True) \<Rightarrow> (mb, parked + 1)
           | (True, False) \<Rightarrow> (mb, parked - 1)
           | _ \<Rightarrow> (mb, parked))))"

definition clear_parked :: "mailbox \<times> nat \<Rightarrow> mailbox \<times> nat" where
  "clear_parked mp = (if status (fst mp) = ST_WAITING then set_status ST_RUNNABLE mp else mp)"

definition request_kill :: "symbol message \<Rightarrow> bool \<Rightarrow> mailbox \<Rightarrow> mailbox" where
  "request_kill reason hard mb =
     (let st = state mb;
          latched_hard = (kill st \<noteq> None \<and> kill_hard st);
          st = (if latched_hard then st else st\<lparr>kill := Some reason, kill_hard := hard\<rparr>)
      in mb\<lparr>state := st, kill_pending := True\<rparr>)"

definition pending_hard_kill :: "mailbox \<Rightarrow> bool" where
  "pending_hard_kill mb \<longleftrightarrow> kill_pending mb \<and> kill (state mb) \<noteq> None \<and> kill_hard (state mb)"

definition take_kill :: "mailbox_state \<Rightarrow> symbol message option \<times> mailbox_state" where
  "take_kill st = (kill st, st\<lparr>kill := None\<rparr>)"

definition OVERFLOW_LATCHED :: nat where "OVERFLOW_LATCHED = 2 ^ 64 - 1"

definition note_mailbox_bound :: "nat \<Rightarrow> mailbox \<Rightarrow> mailbox" where
  "note_mailbox_bound queue_len mb =
     (let limit = max_mailbox mb
      in if limit \<noteq> 0 \<and> queue_len > limit \<and> overflow_hit mb = 0 then mb\<lparr>overflow_hit := queue_len\<rparr> else mb)"

definition overflow_pending :: "mailbox \<Rightarrow> bool" where
  "overflow_pending mb \<longleftrightarrow> overflow_hit mb \<noteq> 0 \<and> overflow_hit mb \<noteq> OVERFLOW_LATCHED"

definition take_overflow_hit :: "mailbox \<Rightarrow> (nat \<times> nat) option \<times> mailbox" where
  "take_overflow_hit mb =
     (let v = overflow_hit mb
      in if v = 0 \<or> v = OVERFLOW_LATCHED then (None, mb)
         else (Some (v, max_mailbox mb), mb\<lparr>overflow_hit := OVERFLOW_LATCHED\<rparr>))"

definition set_max_mailbox :: "nat option \<Rightarrow> mailbox \<Rightarrow> nat option \<times> mailbox" where
  "set_max_mailbox limit mb =
     (let mb = mb\<lparr>overflow_hit := 0\<rparr>; prev = max_mailbox mb;
          mb = mb\<lparr>max_mailbox := (case limit of Some n \<Rightarrow> n | None \<Rightarrow> 0)\<rparr>
      in (if prev \<noteq> 0 then Some prev else None, mb))"

section \<open>Delivery and waking\<close>

text \<open>What a wake signals: the parked process to run again, and whether a thread is blocked.\<close>

record wake =
  parked_process :: "nat option"
  cv_waiter :: bool

definition wake_with :: "nat option \<Rightarrow> mailbox_state \<Rightarrow> wake \<times> mailbox_state" where
  "wake_with parked st =
     (let st = st\<lparr>wake_pending := True\<rparr> in (\<lparr>parked_process = parked, cv_waiter = (cv_waiters st > 0)\<rparr>, st))"

definition take_wake :: "mailbox_state \<Rightarrow> wake \<times> mailbox_state" where
  "take_wake st = wake_with (waiter st) (st\<lparr>waiter := None\<rparr>)"

definition alias_dropped :: "envelope \<Rightarrow> mailbox_state \<Rightarrow> bool \<times> mailbox_state" where
  "alias_dropped env st = (case msg env of
     PLocal _ _ \<Rightarrow> (False, st)
   | PWire m \<Rightarrow>
       (if dead_aliases st = None then (False, st)
        else (case message_alias m of
            None \<Rightarrow> (False, st)
          | Some i \<Rightarrow> (case alias_take i (dead_aliases st) of (hit, d) \<Rightarrow> (hit, st\<lparr>dead_aliases := d\<rparr>)))))"

definition quit_hits :: "origin \<Rightarrow> envelope \<Rightarrow> mailbox \<Rightarrow> u64 option" where
  "quit_hits origin env mb = (case (quit_key (state mb), msg env) of
     (Some quit, PWire m) \<Rightarrow>
       (if quit_matches quit m (in_lane env = Priority) \<and> admits quit origin \<and> status mb \<noteq> ST_WAITING
        then Some (busy_us quit) else None)
   | _ \<Rightarrow> None)"

definition push_and_wake :: "u64 \<Rightarrow> origin \<Rightarrow> envelope \<Rightarrow> mailbox \<Rightarrow> wake option \<times> mailbox" where
  "push_and_wake now origin env mb =
     (let (dropped, st) = alias_dropped env (state mb)
      in if dropped then (None, mb\<lparr>state := st\<rparr>)
         else
           (let mb = mb\<lparr>state := st\<rparr>;
                mb = (case quit_hits origin env mb of
                   Some busy \<Rightarrow> mb\<lparr>intr := snd (request now busy (intr mb))\<rparr>
                 | None \<Rightarrow> mb);
                mb = mb\<lparr>state := push env (state mb)\<rparr>;
                mb = note_mailbox_bound (length (queue (state mb))) mb;
                (wake, st) = take_wake (state mb)
            in (Some wake, mb\<lparr>state := st\<rparr>)))"

definition deactivate_alias :: "u64 \<Rightarrow> mailbox \<Rightarrow> mailbox" where
  "deactivate_alias ref_id mb =
     mb\<lparr>state := (state mb)\<lparr>dead_aliases := alias_insert ref_id (dead_aliases (state mb))\<rparr>\<rparr>"

definition interrupt_process :: "u64 \<Rightarrow> mailbox \<Rightarrow> bool \<times> mailbox" where
  "interrupt_process now mb =
     (if status mb = ST_WAITING then (False, mb)
      else (case request now 0 (intr mb) of (landed, I) \<Rightarrow> (landed, mb\<lparr>intr := I\<rparr>)))"

definition interrupt_busy :: "u64 \<Rightarrow> mailbox \<Rightarrow> bool option" where
  "interrupt_busy now mb = (case open_for_us now (intr mb) of
     None \<Rightarrow> None
   | Some open_us \<Rightarrow> Some (open_us \<ge> (case quit_key (state mb) of Some quit \<Rightarrow> busy_us quit | None \<Rightarrow> 300000)))"

definition wake_for_timeout :: "u64 \<Rightarrow> mailbox \<Rightarrow> wake option \<times> mailbox" where
  "wake_for_timeout gen mb =
     (if timer_gen mb \<noteq> gen then (None, mb)
      else (case take_wake (state mb) of (wake, st) \<Rightarrow> (Some wake, mb\<lparr>state := st\<rparr>)))"

text \<open>The registry finds a mailbox by pid; delivery to a pid that is gone does nothing.\<close>

type_synonym registry = "u64 \<Rightarrow> mailbox option"

definition deliver_envelope :: "u64 \<Rightarrow> origin \<Rightarrow> u64 \<Rightarrow> envelope \<Rightarrow> registry \<Rightarrow> wake option \<times> registry" where
  "deliver_envelope now origin pid env reg = (case reg pid of
     Some mb \<Rightarrow> (case push_and_wake now origin env mb of (wake, mb') \<Rightarrow> (wake, reg(pid \<mapsto> mb')))
   | None \<Rightarrow> (None, reg))"

definition deliver_in_lane :: "u64 \<Rightarrow> origin \<Rightarrow> u64 \<Rightarrow> symbol message \<Rightarrow> lane \<Rightarrow> registry \<Rightarrow> wake option \<times> registry" where
  "deliver_in_lane now origin pid m l reg = deliver_envelope now origin pid ((plain m)\<lparr>in_lane := l\<rparr>) reg"

definition deliver_credited :: "u64 \<Rightarrow> origin \<Rightarrow> u64 \<Rightarrow> symbol message \<Rightarrow> delivery_credit \<Rightarrow> registry \<Rightarrow> wake option \<times> registry" where
  "deliver_credited now origin pid m c reg = deliver_envelope now origin pid ((plain m)\<lparr>credit := Some c\<rparr>) reg"

end
