(* ===== verification/Mailbox_Laws.thy ===== *)
theory Mailbox_Laws
  imports Mailbox
begin

text \<open>
  The laws of the mailbox queue: it stays strictly ordered by arrival, the count of priority messages and
  the index of latest messages describe it exactly, whatever sequence of operations runs; and what a
  delivery, a supersession, a pending exit and a breached bound mean for the receiver.
\<close>

section \<open>Ordered queues\<close>

definition by_seq :: "envelope list \<Rightarrow> bool" where
  "by_seq q \<longleftrightarrow> sorted_wrt (<) (map seq q)"

lemma by_seq_Cons: "by_seq (e # q) \<longleftrightarrow> (\<forall>x \<in> set q. seq e < seq x) \<and> by_seq q"
  by (auto simp: by_seq_def)

lemma by_seq_append: "by_seq (p @ q) \<longleftrightarrow> by_seq p \<and> by_seq q \<and> (\<forall>x \<in> set p. \<forall>y \<in> set q. seq x < seq y)"
  by (auto simp: by_seq_def sorted_wrt_append)

lemma by_seq_filter: "by_seq q \<Longrightarrow> by_seq (filter p q)"
  by (simp add: by_seq_def sorted_wrt_map sorted_wrt_filter)

lemma by_seq_nth: "by_seq q \<Longrightarrow> i < j \<Longrightarrow> j < length q \<Longrightarrow> seq (q ! i) < seq (q ! j)"
  using sorted_wrt_nth_less [of "(<)" "map seq q" i j] by (simp add: by_seq_def)

lemma by_seq_nth_iff: "by_seq q \<Longrightarrow> i < length q \<Longrightarrow> j < length q \<Longrightarrow> seq (q ! i) < seq (q ! j) \<longleftrightarrow> i < j"
  by (metis by_seq_nth nat_neq_iff order_less_asym)

lemma by_seq_inj: "by_seq q \<Longrightarrow> x \<in> set q \<Longrightarrow> y \<in> set q \<Longrightarrow> seq x = seq y \<Longrightarrow> x = y"
  by (metis by_seq_nth in_set_conv_nth less_irrefl nat_neq_iff)

lemma by_seq_remove:
  assumes "by_seq q" "i < length q"
  shows "take i q @ drop (Suc i) q = filter (\<lambda>e. seq e \<noteq> seq (q ! i)) q"
proof -
  have q: "by_seq (take i q @ q ! i # drop (Suc i) q)" using assms by (simp add: id_take_nth_drop [symmetric])
  then have "filter (\<lambda>e. seq e \<noteq> seq (q ! i)) (take i q) = take i q"
    "filter (\<lambda>e. seq e \<noteq> seq (q ! i)) (drop (Suc i) q) = drop (Suc i) q"
    by (auto simp: by_seq_append by_seq_Cons intro!: filter_True)
  then have "filter (\<lambda>e. seq e \<noteq> seq (q ! i)) (take i q @ q ! i # drop (Suc i) q) = take i q @ drop (Suc i) q"
    by simp
  then show ?thesis using assms(2) by (simp add: id_take_nth_drop [symmetric])
qed

lemma takeWhile_by_seq: "by_seq q \<Longrightarrow> takeWhile (\<lambda>e. seq e < s) q = filter (\<lambda>e. seq e < s) q"
proof (induction q)
  case (Cons e q)
  then have "\<not> seq e < s \<Longrightarrow> filter (\<lambda>e. seq e < s) q = []"
    by (auto simp: by_seq_Cons filter_empty_conv)
  then show ?case using Cons by (auto simp: by_seq_Cons)
qed simp

lemma dropWhile_by_seq: "by_seq q \<Longrightarrow> dropWhile (\<lambda>e. seq e < s) q = filter (\<lambda>e. s \<le> seq e) q"
proof (induction q)
  case (Cons e q)
  then have "\<not> seq e < s \<Longrightarrow> filter (\<lambda>e. s \<le> seq e) q = q"
    by (auto simp: by_seq_Cons filter_id_conv)
  then show ?case using Cons by (auto simp: by_seq_Cons not_less)
qed simp

lemma partition_point_nth:
  assumes "by_seq q" "j < length q"
  shows "j < partition_point (\<lambda>e. seq e < s) q \<longleftrightarrow> seq (q ! j) < s"
proof
  assume "j < partition_point (\<lambda>e. seq e < s) q"
  then show "seq (q ! j) < s" using takeWhile_nth [of j "\<lambda>e. seq e < s" q] nth_mem [of j "takeWhile (\<lambda>e. seq e < s) q"]
    by (auto simp: partition_point_def dest: set_takeWhileD)
next
  assume lt: "seq (q ! j) < s"
  show "j < partition_point (\<lambda>e. seq e < s) q"
  proof (rule ccontr)
    assume not: "\<not> j < partition_point (\<lambda>e. seq e < s) q"
    let ?p = "partition_point (\<lambda>e. seq e < s) q"
    have "?p < length q" using not assms(2) by simp
    then have "\<not> seq (q ! ?p) < s" using nth_length_takeWhile [of "\<lambda>e. seq e < s" q] by (simp add: partition_point_def)
    moreover have "seq (q ! ?p) \<le> seq (q ! j)" using by_seq_nth [OF assms(1), of ?p j] not assms(2)
      by (cases "?p = j") auto
    ultimately show False using lt by simp
  qed
qed

lemma partition_point_le: "partition_point p q \<le> length q"
  by (simp add: partition_point_def length_takeWhile_le)

lemma partition_point_unique:
  assumes "by_seq q" "i \<le> length q" "\<forall>j < i. seq (q ! j) < s" "\<forall>j < length q. i \<le> j \<longrightarrow> \<not> seq (q ! j) < s"
  shows "partition_point (\<lambda>e. seq e < s) q = i"
proof (rule antisym)
  let ?p = "partition_point (\<lambda>e. seq e < s) q"
  show "?p \<le> i"
  proof (rule ccontr)
    assume "\<not> ?p \<le> i"
    then have "i < ?p" "i < length q" using partition_point_le [of "\<lambda>e. seq e < s" q] by linarith+
    then show False using partition_point_nth [OF assms(1)] assms(4) by auto
  qed
  show "i \<le> ?p"
  proof (rule ccontr)
    assume "\<not> i \<le> ?p"
    then have "?p < i" "?p < length q" using assms(2) by linarith+
    then show False using partition_point_nth [OF assms(1), of ?p s] assms(3) by auto
  qed
qed

text \<open>The position of a queued arrival number is found by the binary search.\<close>

lemma partition_point_find:
  assumes "by_seq q" "i < length q"
  shows "partition_point (\<lambda>e. seq e < seq (q ! i)) q = i"
  using assms by (intro partition_point_unique) (auto simp: by_seq_nth_iff)

section \<open>The bookkeeping is exact\<close>

definition count_priority :: "envelope list \<Rightarrow> nat" where
  "count_priority q = length (filter (\<lambda>e. in_lane e = Priority) q)"

definition mb_inv :: "mailbox_state \<Rightarrow> bool" where
  "mb_inv st \<longleftrightarrow> by_seq (queue st) \<and> (\<forall>e \<in> set (queue st). seq e < next_seq st) \<and>
     priority_queued st = count_priority (queue st) \<and>
     (\<forall>k s. latest_seq k st = Some s \<longleftrightarrow> (\<exists>e \<in> set (queue st). in_lane e = Latest k \<and> seq e = s))"

lemma mb_invD:
  assumes "mb_inv st"
  shows "by_seq (queue st)" "e \<in> set (queue st) \<Longrightarrow> seq e < next_seq st"
    "priority_queued st = count_priority (queue st)"
    "latest_seq k st = Some s \<longleftrightarrow> (\<exists>e \<in> set (queue st). in_lane e = Latest k \<and> seq e = s)"
  using assms unfolding mb_inv_def by blast+

lemma mb_inv_new: "mb_inv new_state"
  by (simp add: mb_inv_def new_state_def by_seq_def count_priority_def latest_seq_def)

text \<open>The fields outside the queue and its bookkeeping.\<close>

lemma note_fields [simp]:
  "queue (note_queued env st) = queue st" "next_seq (note_queued env st) = next_seq st" "scanned (note_queued env st) = scanned st"
  "queue (note_unqueued env st) = queue st" "next_seq (note_unqueued env st) = next_seq st" "scanned (note_unqueued env st) = scanned st"
  by (auto simp: note_queued_def note_unqueued_def split: lane.splits option.splits)

lemma note_queued_priority [simp]: "priority_queued (note_queued env st) = priority_queued st + (if in_lane env = Priority then 1 else 0)"
  by (auto simp: note_queued_def split: lane.splits)

lemma note_unqueued_priority [simp]: "priority_queued (note_unqueued env st) = priority_queued st - (if in_lane env = Priority then 1 else 0)"
  by (auto simp: note_unqueued_def split: lane.splits option.splits)

lemma latest_seq_fields [simp]:
  "latest_seq k (st\<lparr>queue := q\<rparr>) = latest_seq k st" "latest_seq k (st\<lparr>next_seq := n\<rparr>) = latest_seq k st"
  "latest_seq k (st\<lparr>scanned := n\<rparr>) = latest_seq k st"
  by (simp_all add: latest_seq_def)

lemma latest_seq_queued: "latest_seq k (note_queued env st) = (if in_lane env = Latest k then Some (seq env) else latest_seq k st)"
  by (auto simp: note_queued_def latest_seq_def split: lane.splits option.splits)

lemma latest_seq_unqueued: "latest_seq k (note_unqueued env st) =
  (if in_lane env = Latest k \<and> latest_seq k st = Some (seq env) then None else latest_seq k st)"
  by (auto simp: note_unqueued_def latest_seq_def split: lane.splits option.splits)

lemma count_priority_simps [simp]:
  "count_priority [] = 0"
  "count_priority (e # q) = (if in_lane e = Priority then 1 else 0) + count_priority q"
  "count_priority (p @ q) = count_priority p + count_priority q"
  by (simp_all add: count_priority_def)

lemma count_priority_pos: "e \<in> set q \<Longrightarrow> in_lane e = Priority \<Longrightarrow> 0 < count_priority q"
  by (auto simp: count_priority_def filter_empty_conv)

text \<open>At most one latest message per key is queued.\<close>

lemma latest_unique:
  assumes "mb_inv st" "e \<in> set (queue st)" "e' \<in> set (queue st)" "in_lane e = Latest k" "in_lane e' = Latest k"
  shows "e = e'"
  using mb_invD(4) [OF assms(1), of k "seq e"] mb_invD(4) [OF assms(1), of k "seq e'"] assms(2-)
    by_seq_inj [OF mb_invD(1) [OF assms(1)], of e e'] by auto

lemma remove_at_eq:
  assumes "mb_inv st" "i < length (queue st)"
  shows "\<exists>st'. remove_at i st = Some (queue st ! i, st') \<and> mb_inv st' \<and>
    queue st' = filter (\<lambda>e. seq e \<noteq> seq (queue st ! i)) (queue st) \<and> next_seq st' = next_seq st \<and> scanned st' = scanned st"
proof -
  let ?q = "queue st" and ?e = "queue st ! i"
  let ?q' = "take i ?q @ drop (Suc i) ?q"
  let ?st' = "note_unqueued ?e (st\<lparr>queue := ?q'\<rparr>)"
  note I = mb_invD [OF assms(1)]
  have e: "?e \<in> set ?q" using assms(2) by simp
  have q: "?q = take i ?q @ ?e # drop (Suc i) ?q" using assms(2) by (simp add: id_take_nth_drop [symmetric])
  have f: "?q' = filter (\<lambda>e. seq e \<noteq> seq ?e) ?q" by (rule by_seq_remove [OF I(1) assms(2)])
  have "count_priority ?q = count_priority (take i ?q @ ?e # drop (Suc i) ?q)" using q by simp
  then have c: "count_priority ?q = (if in_lane ?e = Priority then 1 else 0) + count_priority ?q'" by simp
  have "mb_inv ?st'"
    unfolding mb_inv_def
  proof (intro conjI allI ballI)
    show "by_seq (queue ?st')" using by_seq_filter [OF I(1)] f by simp
    show "priority_queued ?st' = count_priority (queue ?st')" using c I(3) by simp
    fix x assume "x \<in> set (queue ?st')"
    then show "seq x < next_seq ?st'" using I(2) f by auto
  next
    fix k s
    have x: "x \<in> set ?q' \<longleftrightarrow> x \<in> set ?q \<and> x \<noteq> ?e" for x
      using by_seq_inj [OF I(1) _ e] f by auto
    show "latest_seq k ?st' = Some s \<longleftrightarrow> (\<exists>e \<in> set (queue ?st'). in_lane e = Latest k \<and> seq e = s)"
    proof (cases "in_lane ?e = Latest k")
      case True
      then have "latest_seq k st = Some (seq ?e)" using I(4) e by blast
      then show ?thesis using True x latest_unique [OF assms(1) _ e _ True]
        by (auto simp: latest_seq_unqueued)
    next
      case False
      then show ?thesis using x I(4) [of k s] by (auto simp: latest_seq_unqueued)
    qed
  qed
  moreover have "remove_at i st = Some (?e, ?st')"
    using assms(2) by (simp add: remove_at_def vec_get_def vec_remove_def)
  ultimately show ?thesis using f by simp
qed

lemma remove_at_Some:
  assumes "mb_inv st" "remove_at i st = Some (e, st')"
  shows "i < length (queue st)" "e = queue st ! i" "mb_inv st'"
    "queue st' = filter (\<lambda>x. seq x \<noteq> seq e) (queue st)" "next_seq st' = next_seq st" "scanned st' = scanned st"
proof -
  show i: "i < length (queue st)" using assms(2) by (auto simp: remove_at_def vec_get_def split: if_splits)
  show "e = queue st ! i" "mb_inv st'" "queue st' = filter (\<lambda>x. seq x \<noteq> seq e) (queue st)"
    "next_seq st' = next_seq st" "scanned st' = scanned st"
    using remove_at_eq [OF assms(1) i] assms(2) by auto
qed

text \<open>Putting a message at its place in the order.\<close>

lemma insert_at_eq:
  assumes "mb_inv st" "\<forall>x \<in> set (queue st). seq x \<noteq> seq e" "seq e < next_seq st"
    "\<And>k. in_lane e = Latest k \<Longrightarrow> \<not> holds_latest k st"
  defines "i \<equiv> partition_point (\<lambda>x. seq x < seq e) (queue st)"
  shows "\<exists>st'. insert_at i e st = Some st' \<and> mb_inv st' \<and> next_seq st' = next_seq st \<and> scanned st' = scanned st \<and>
    queue st' = filter (\<lambda>x. seq x < seq e) (queue st) @ e # filter (\<lambda>x. seq e \<le> seq x) (queue st)"
proof -
  let ?q = "queue st"
  let ?q' = "filter (\<lambda>x. seq x < seq e) ?q @ e # filter (\<lambda>x. seq e \<le> seq x) ?q"
  let ?st' = "(note_queued e st)\<lparr>queue := ?q'\<rparr>"
  note I = mb_invD [OF assms(1)]
  have "take i ?q @ e # drop i ?q = takeWhile (\<lambda>x. seq x < seq e) ?q @ e # dropWhile (\<lambda>x. seq x < seq e) ?q"
    by (simp add: i_def partition_point_def takeWhile_eq_take [symmetric] dropWhile_eq_drop [symmetric])
  also have "\<dots> = ?q'" by (simp add: takeWhile_by_seq [OF I(1)] dropWhile_by_seq [OF I(1)])
  finally have ins: "insert_at i e st = Some ?st'"
    using partition_point_le [of _ ?q] by (simp add: insert_at_def vec_insert_def i_def)
  have set: "set ?q' = insert e (set ?q)" by auto
  have c: "count_priority q = count_priority (filter (\<lambda>x. seq x < seq e) q) + count_priority (filter (\<lambda>x. seq e \<le> seq x) q)" for q
    by (induction q) (auto simp: not_le not_less)
  have "mb_inv ?st'"
    unfolding mb_inv_def
  proof (intro conjI allI ballI)
    have "\<forall>x \<in> set ?q. seq e \<le> seq x \<longrightarrow> seq e < seq x" using assms(2) by (metis le_less)
    then show "by_seq (queue ?st')" using by_seq_filter [OF I(1)]
      by (auto simp: by_seq_append by_seq_Cons)
    show "priority_queued ?st' = count_priority (queue ?st')" using c [of ?q] I(3) by simp
    fix x assume "x \<in> set (queue ?st')"
    then show "seq x < next_seq ?st'" using I(2) assms(3) by auto
  next
    fix k s
    show "latest_seq k ?st' = Some s \<longleftrightarrow> (\<exists>e \<in> set (queue ?st'). in_lane e = Latest k \<and> seq e = s)"
    proof (cases "in_lane e = Latest k")
      case True
      then have "\<forall>x \<in> set ?q. in_lane x \<noteq> Latest k" using assms(4) I(4) by (auto simp: holds_latest_def)
      then show ?thesis using True by (auto simp: latest_seq_queued)
    next
      case False
      then show ?thesis using I(4) [of k s] by (auto simp: latest_seq_queued)
    qed
  qed
  then show ?thesis using ins by simp
qed

section \<open>The operations keep the order\<close>

text \<open>
  What any thread may do to a mailbox while its lock is free: the order and the bookkeeping hold, and every
  message in it was there before or arrived since.
\<close>

definition touched :: "mailbox_state \<Rightarrow> mailbox_state \<Rightarrow> bool" where
  "touched st st' \<longleftrightarrow> mb_inv st' \<and> next_seq st \<le> next_seq st' \<and>
     (\<forall>e \<in> set (queue st'). e \<in> set (queue st) \<or> next_seq st \<le> seq e)"

lemma touched_refl: "mb_inv st \<Longrightarrow> touched st st"
  by (simp add: touched_def)

lemma touched_trans: "touched st st' \<Longrightarrow> touched st' st'' \<Longrightarrow> touched st st''"
  unfolding touched_def by (meson order_trans)

lemma touched_remove: "mb_inv st \<Longrightarrow> remove_at i st = Some (e, st') \<Longrightarrow> touched st st'"
  using remove_at_Some [of st i e st'] by (auto simp: touched_def)

lemma mb_inv_scanned [simp]: "mb_inv (st\<lparr>scanned := n\<rparr>) = mb_inv st"
  by (simp add: mb_inv_def)

lemma touched_scanned [simp]: "touched st (st'\<lparr>scanned := n\<rparr>) = touched st st'"
  by (simp add: touched_def)

lemma drop_superseded_eq:
  assumes "mb_inv st"
  shows "mb_inv (drop_superseded k st)"
    "queue (drop_superseded k st) = filter (\<lambda>e. in_lane e \<noteq> Latest k) (queue st)"
    "next_seq (drop_superseded k st) = next_seq st"
    "latest_seq k (drop_superseded k st) = None"
    "scanned st \<le> length (queue st) \<Longrightarrow> scanned (drop_superseded k st) \<le> length (queue (drop_superseded k st)) \<and>
      drop (scanned (drop_superseded k st)) (queue (drop_superseded k st)) = filter (\<lambda>e. in_lane e \<noteq> Latest k) (drop (scanned st) (queue st))"
proof -
  note I = mb_invD [OF assms]
  have "mb_inv (drop_superseded k st) \<and> queue (drop_superseded k st) = filter (\<lambda>e. in_lane e \<noteq> Latest k) (queue st) \<and>
    next_seq (drop_superseded k st) = next_seq st \<and> latest_seq k (drop_superseded k st) = None \<and>
    (scanned st \<le> length (queue st) \<longrightarrow> scanned (drop_superseded k st) \<le> length (queue (drop_superseded k st)) \<and>
      drop (scanned (drop_superseded k st)) (queue (drop_superseded k st)) = filter (\<lambda>e. in_lane e \<noteq> Latest k) (drop (scanned st) (queue st)))"
  proof (cases "latest_seq k st")
    case None
    then have none: "\<forall>e \<in> set (queue st). in_lane e \<noteq> Latest k" using I(4) [of k] by auto
    then have "filter (\<lambda>e. in_lane e \<noteq> Latest k) (drop (scanned st) (queue st)) = drop (scanned st) (queue st)"
      by (auto intro!: filter_True dest: in_set_dropD)
    then show ?thesis using None none assms by (simp add: drop_superseded_def)
  next
    case (Some s)
    then obtain e where e: "e \<in> set (queue st)" "in_lane e = Latest k" "seq e = s" using I(4) by blast
    then obtain i where i: "i < length (queue st)" "queue st ! i = e" by (auto simp: in_set_conv_nth)
    have pp: "partition_point (\<lambda>e. seq e < s) (queue st) = i"
      using partition_point_find [OF I(1) i(1)] i(2) e(3) by simp
    obtain st' where st': "remove_at i st = Some (e, st')" "mb_inv st'" "queue st' = filter (\<lambda>x. seq x \<noteq> seq e) (queue st)"
      "next_seq st' = next_seq st" "scanned st' = scanned st"
      using remove_at_eq [OF assms i(1)] i(2) by auto
    let ?n = "if i < scanned st then scanned st - 1 else scanned st"
    have d: "drop_superseded k st = st'\<lparr>scanned := ?n\<rparr>"
      using i e(3) st' by (auto simp: drop_superseded_def Some pp)
    have same: "seq x = seq e \<longleftrightarrow> in_lane x = Latest k" if "x \<in> set (queue st)" for x
      using that by_seq_inj [OF I(1) that e(1)] latest_unique [OF assms that e(1) _ e(2)] e(2) by blast
    then have q: "queue st' = filter (\<lambda>e. in_lane e \<noteq> Latest k) (queue st)"
      unfolding st'(3) by (intro filter_cong) auto
    have "latest_seq k st' = None" using mb_invD(4) [OF st'(2), of k] q by (cases "latest_seq k st'") auto
    moreover have "?n \<le> length (queue st') \<and> drop ?n (queue st') = filter (\<lambda>e. in_lane e \<noteq> Latest k) (drop (scanned st) (queue st))"
      if le: "scanned st \<le> length (queue st)"
    proof -
      have td: "queue st' = take i (queue st) @ drop (Suc i) (queue st)"
        using by_seq_remove [OF I(1) i(1)] i(2) st'(3) by simp
      have other: "in_lane x \<noteq> Latest k" if mem: "x \<in> set (drop n (queue st))" and after: "\<not> n \<le> i" for n x
      proof
        assume "in_lane x = Latest k"
        then have "x = e" using latest_unique [OF assms _ e(1) _ e(2)] mem by (auto dest: in_set_dropD)
        moreover obtain j where "j < length (drop n (queue st))" "drop n (queue st) ! j = x"
          using mem unfolding in_set_conv_nth by blast
        then have "n + j < length (queue st)" "x = queue st ! (n + j)" by auto
        ultimately show False using by_seq_nth [OF I(1), of i "n + j"] i after by auto
      qed
      show ?thesis
      proof (cases "i < scanned st")
        case True
        then have "drop (scanned st - 1) (queue st') = drop (scanned st) (queue st)"
          using i(1) by (simp add: td)
        then show ?thesis using True le i(1) other [of _ "scanned st"] by (auto simp: td intro!: filter_True [symmetric])
      next
        case False
        then have "filter (\<lambda>e. in_lane e \<noteq> Latest k) (queue st) =
          filter (\<lambda>e. in_lane e \<noteq> Latest k) (take (scanned st) (queue st)) @ filter (\<lambda>e. in_lane e \<noteq> Latest k) (drop (scanned st) (queue st))"
          by (metis append_take_drop_id filter_append)
        moreover have "filter (\<lambda>e. in_lane e \<noteq> Latest k) (take (scanned st) (queue st)) = take (scanned st) (queue st)"
        proof (rule filter_True, rule ballI, rule notI)
          fix x assume "x \<in> set (take (scanned st) (queue st))" and lane: "in_lane x = Latest k"
          then obtain j where j: "j < scanned st" "j < length (queue st)" "x = queue st ! j" by (auto simp: in_set_conv_nth)
          then have "x = e" using latest_unique [OF assms _ e(1) lane e(2)] by simp
          then show False using by_seq_nth [OF I(1), of j i] False i j by auto
        qed
        ultimately show ?thesis using False le i(1) by (simp add: q)
      qed
    qed
    ultimately show ?thesis using st' q d by simp
  qed
  then show "mb_inv (drop_superseded k st)"
    "queue (drop_superseded k st) = filter (\<lambda>e. in_lane e \<noteq> Latest k) (queue st)"
    "next_seq (drop_superseded k st) = next_seq st"
    "latest_seq k (drop_superseded k st) = None"
    "scanned st \<le> length (queue st) \<Longrightarrow> scanned (drop_superseded k st) \<le> length (queue (drop_superseded k st)) \<and>
      drop (scanned (drop_superseded k st)) (queue (drop_superseded k st)) = filter (\<lambda>e. in_lane e \<noteq> Latest k) (drop (scanned st) (queue st))"
    by blast+
qed

definition supersedes :: "envelope \<Rightarrow> envelope \<Rightarrow> bool" where
  "supersedes env e \<longleftrightarrow> (case in_lane env of Latest k \<Rightarrow> in_lane e = Latest k | _ \<Rightarrow> False)"

lemma push_eq:
  assumes "mb_inv st"
  shows "mb_inv (push env st)"
    "queue (push env st) = filter (\<lambda>e. \<not> supersedes env e) (queue st) @ [env\<lparr>seq := next_seq st\<rparr>]"
    "next_seq (push env st) = Suc (next_seq st)"
    "scanned st \<le> length (queue st) \<Longrightarrow> scanned (push env st) < length (queue (push env st)) \<and>
      drop (scanned (push env st)) (queue (push env st)) =
        filter (\<lambda>e. \<not> supersedes env e) (drop (scanned st) (queue st)) @ [env\<lparr>seq := next_seq st\<rparr>]"
proof -
  let ?env = "env\<lparr>seq := next_seq st\<rparr>"
  define st1 where "st1 = st\<lparr>next_seq := next_seq st + 1\<rparr>"
  define st2 where "st2 = (case in_lane env of Latest k \<Rightarrow> drop_superseded k st1 | _ \<Rightarrow> st1)"
  have "by_seq (queue st)" "\<forall>e \<in> set (queue st). seq e < next_seq st" using mb_invD [OF assms] by blast+
  then have inv1: "mb_inv st1" using assms by (auto simp: mb_inv_def st1_def less_Suc_eq)
  have inv2: "mb_inv st2" using inv1 drop_superseded_eq(1) [OF inv1] by (simp add: st2_def split: lane.split)
  have q2: "queue st2 = filter (\<lambda>e. \<not> supersedes env e) (queue st)"
    using drop_superseded_eq(2) [OF inv1] by (simp add: st2_def supersedes_def st1_def split: lane.split)
  have n2: "next_seq st2 = Suc (next_seq st)"
    using drop_superseded_eq(3) [OF inv1] by (simp add: st2_def st1_def split: lane.split)
  have none: "latest_seq k st2 = None" if "in_lane env = Latest k" for k
    using drop_superseded_eq(4) [OF inv1] that by (simp add: st2_def)
  have gate: "scanned st2 \<le> length (queue st2) \<and> drop (scanned st2) (queue st2) = filter (\<lambda>e. \<not> supersedes env e) (drop (scanned st) (queue st))"
    if "scanned st \<le> length (queue st)"
    using drop_superseded_eq(5) [OF inv1] that by (simp add: st2_def supersedes_def st1_def split: lane.split)
  have p: "push env st = (note_queued ?env st2)\<lparr>queue := queue st2 @ [?env]\<rparr>"
    unfolding push_def Let_def st2_def st1_def by simp
  have old: "seq e < next_seq st" if "e \<in> set (queue st2)" for e
    using that mb_invD(2) [OF assms] q2 by auto
  show "mb_inv (push env st)"
    unfolding p mb_inv_def
  proof (intro conjI allI ballI)
    fix k s
    show "latest_seq k ((note_queued ?env st2)\<lparr>queue := queue st2 @ [?env]\<rparr>) = Some s \<longleftrightarrow>
      (\<exists>e \<in> set (queue ((note_queued ?env st2)\<lparr>queue := queue st2 @ [?env]\<rparr>)). in_lane e = Latest k \<and> seq e = s)"
    proof (cases "in_lane env = Latest k")
      case True
      have "in_lane e \<noteq> Latest k" if "e \<in> set (queue st2)" for e
        using that none [OF True] mb_invD(4) [OF inv2, of k "seq e"] by auto
      then show ?thesis using True by (auto simp: latest_seq_queued)
    next
      case False
      then show ?thesis using mb_invD(4) [OF inv2, of k s] by (auto simp: latest_seq_queued)
    qed
  next
    show "by_seq (queue ((note_queued ?env st2)\<lparr>queue := queue st2 @ [?env]\<rparr>))"
      using mb_invD(1) [OF inv2] old by (simp add: by_seq_append) (simp add: by_seq_def)
    show "priority_queued ((note_queued ?env st2)\<lparr>queue := queue st2 @ [?env]\<rparr>) =
      count_priority (queue ((note_queued ?env st2)\<lparr>queue := queue st2 @ [?env]\<rparr>))"
      using mb_invD(3) [OF inv2] by simp
    fix e assume "e \<in> set (queue ((note_queued ?env st2)\<lparr>queue := queue st2 @ [?env]\<rparr>))"
    then have "e \<in> set (queue st2) \<or> e = ?env" by auto
    then show "seq e < next_seq ((note_queued ?env st2)\<lparr>queue := queue st2 @ [?env]\<rparr>)"
      using old [of e] n2 by auto
  qed
  show "queue (push env st) = filter (\<lambda>e. \<not> supersedes env e) (queue st) @ [?env]" "next_seq (push env st) = Suc (next_seq st)"
    using n2 q2 by (simp_all add: p)
  show "scanned (push env st) < length (queue (push env st)) \<and>
      drop (scanned (push env st)) (queue (push env st)) =
        filter (\<lambda>e. \<not> supersedes env e) (drop (scanned st) (queue st)) @ [?env]"
    if "scanned st \<le> length (queue st)"
    using gate [OF that] by (simp add: p)
qed

lemma touched_push: "mb_inv st \<Longrightarrow> touched st (push env st)"
  using push_eq [of st env] by (auto simp: touched_def)

lemma mb_inv_clear: "mb_inv st \<Longrightarrow> mb_inv (clear_queue st)"
  by (simp add: mb_inv_def clear_queue_def by_seq_def latest_seq_def)

lemma touched_clear: "mb_inv st \<Longrightarrow> touched st (clear_queue st)"
  by (simp add: touched_def mb_inv_clear) (simp add: clear_queue_def)

lemma find_skip: "\<forall>x \<in> set xs. \<not> p x \<Longrightarrow> find p (xs @ ys) = find p ys"
  by (induction xs) auto

lemma take_priority_loop_eq:
  assumes "mb_inv st" "\<forall>e \<in> set (take i (queue st)). in_lane e \<noteq> Priority" "take_priority_loop withdrawn i st = (r, st')"
  shows "r = find (\<lambda>e. in_lane e = Priority \<and> \<not> is_withdrawn withdrawn e) (queue st) \<and> mb_inv st' \<and> next_seq st' = next_seq st \<and>
    queue st' = filter (\<lambda>e. in_lane e = Priority \<longrightarrow> (case r of Some p \<Rightarrow> seq p < seq e | None \<Rightarrow> False)) (queue st)"
  using assms
proof (induction withdrawn i st arbitrary: r st' rule: take_priority_loop.induct)
  case (1 withdrawn i st)
  let ?q = "queue st" and ?P = "\<lambda>e. in_lane e = Priority \<and> \<not> is_withdrawn withdrawn e"
  note I = mb_invD [OF "1.prems"(1)]
  have split: "?q = take i ?q @ drop i ?q" by simp
  have find_take: "find ?P (take i ?q @ ys) = find ?P ys" for ys
    by (rule find_skip) (use "1.prems"(2) in auto)
  show ?case
  proof (cases "i < length ?q")
    case False
    then have "take i ?q = ?q" by simp
    then have "\<forall>e \<in> set ?q. in_lane e \<noteq> Priority" using "1.prems"(2) by simp
    moreover have "r = None" "st' = st" using False "1.prems"(3) by (simp_all add: take_priority_loop.simps [of _ i])
    ultimately show ?thesis using "1.prems"(1) by (auto simp: find_None_iff2 intro!: filter_True [symmetric])
  next
    case True
    then have dq: "drop i ?q = ?q ! i # drop (Suc i) ?q" by (simp add: Cons_nth_drop_Suc)
    show ?thesis
    proof (cases "in_lane (?q ! i) = Priority")
      case False
      have "take_priority_loop withdrawn (i + 1) st = (r, st')"
        using "1.prems"(3) True False by (subst (asm) take_priority_loop.simps) simp
      moreover have "\<forall>e \<in> set (take (i + 1) ?q). in_lane e \<noteq> Priority"
        using "1.prems"(2) False True by (simp add: take_Suc_conv_app_nth)
      ultimately show ?thesis using "1.IH"(1) [OF True False "1.prems"(1)] by blast
    next
      case prio: True
      obtain st1 where st1: "remove_at i st = Some (?q ! i, st1)" "mb_inv st1"
        "queue st1 = filter (\<lambda>e. seq e \<noteq> seq (?q ! i)) ?q" "next_seq st1 = next_seq st"
        using remove_at_eq [OF "1.prems"(1) True] by auto
      define st2 where "st2 = (if i < scanned st1 then st1\<lparr>scanned := scanned st1 - 1\<rparr> else st1)"
      have st2: "mb_inv st2" "queue st2 = queue st1" "next_seq st2 = next_seq st" using st1 by (simp_all add: st2_def)
      have q1: "queue st1 = take i ?q @ drop (Suc i) ?q" using by_seq_remove [OF I(1) True] st1(3) by simp
      have before: "seq x < seq (?q ! i)" if "x \<in> set (take i ?q)" for x
        using that by_seq_nth [OF I(1), of _ i] True by (auto simp: in_set_conv_nth)
      have after: "seq (?q ! i) < seq x" if "x \<in> set (drop (Suc i) ?q)" for x
      proof -
        have "by_seq (take i ?q @ ?q ! i # drop (Suc i) ?q)" using I(1) dq by (metis append_take_drop_id)
        then show ?thesis using that by (auto simp: by_seq_append by_seq_Cons)
      qed
      show ?thesis
      proof (cases "is_withdrawn withdrawn (?q ! i)")
        case False
        then have r: "r = Some (?q ! i)" "st' = st2"
          using "1.prems"(3) True prio st1(1) by (simp_all add: take_priority_loop.simps [of _ i] st2_def Let_def split: if_splits)
        have "find ?P ?q = find ?P (take i ?q @ ?q ! i # drop (Suc i) ?q)" using dq by (metis append_take_drop_id)
        then have "find ?P ?q = Some (?q ! i)" using find_take [of "?q ! i # drop (Suc i) ?q"] prio False by simp
        moreover have "filter (\<lambda>e. in_lane e = Priority \<longrightarrow> seq (?q ! i) < seq e) ?q = take i ?q @ drop (Suc i) ?q"
        proof -
          have "filter (\<lambda>e. in_lane e = Priority \<longrightarrow> seq (?q ! i) < seq e) (take i ?q @ ?q ! i # drop (Suc i) ?q) = take i ?q @ drop (Suc i) ?q"
            using "1.prems"(2) prio after by (auto intro!: filter_True simp: filter_append)
          then show ?thesis using dq by (metis append_take_drop_id)
        qed
        ultimately show ?thesis using r st2 q1 by simp
      next
        case wd: True
        have a: "take_priority_loop withdrawn i st2 = (r, st')"
          using "1.prems"(3) True prio st1(1) wd by (subst (asm) take_priority_loop.simps) (simp add: st2_def Let_def)
        have b: "\<forall>e \<in> set (take i (queue st2)). in_lane e \<noteq> Priority"
          using "1.prems"(2) st2(2) q1 True by simp
        have IH: "r = find ?P (queue st2) \<and> mb_inv st' \<and> next_seq st' = next_seq st2 \<and>
          queue st' = filter (\<lambda>e. in_lane e = Priority \<longrightarrow> (case r of Some p \<Rightarrow> seq p < seq e | None \<Rightarrow> False)) (queue st2)"
          by (rule "1.IH"(2) [OF True _ st1(1) refl st2_def wd st2(1) b a]) (simp add: prio)
        have "find ?P ?q = find ?P (take i ?q @ ?q ! i # drop (Suc i) ?q)" using dq by (metis append_take_drop_id)
        then have "find ?P (queue st2) = find ?P ?q"
          using find_take [of "drop (Suc i) ?q"] find_take [of "?q ! i # drop (Suc i) ?q"] wd st2(2) q1 by simp
        moreover have "filter (\<lambda>e. in_lane e = Priority \<longrightarrow> (case r of Some p \<Rightarrow> seq p < seq e | None \<Rightarrow> False)) (queue st2) =
          filter (\<lambda>e. in_lane e = Priority \<longrightarrow> (case r of Some p \<Rightarrow> seq p < seq e | None \<Rightarrow> False)) ?q"
        proof -
          have "\<not> (case r of Some p \<Rightarrow> seq p < seq (?q ! i) | None \<Rightarrow> False)"
          proof (cases r)
            case (Some p)
            then have "find ?P (drop (Suc i) ?q) = Some p"
              using IH find_take [of "drop (Suc i) ?q"] st2(2) q1 by simp
            then have "p \<in> set (drop (Suc i) ?q)" by (metis find_Some_iff nth_mem)
            then show ?thesis using after Some by fastforce
          qed simp
          moreover have "filter F ?q = filter F (take i ?q) @ filter F (drop i ?q)" for F
            by (metis append_take_drop_id filter_append)
          ultimately show ?thesis using prio dq by (simp only: st2(2) q1 filter_append filter.simps if_False simp_thms)
        qed
        ultimately show ?thesis using IH st2(3) by simp
      qed
    qed
  qed
qed

lemma touched_take_priority:
  assumes "mb_inv st"
  shows "touched st (snd (take_priority withdrawn st))"
proof (cases "priority_queued st = 0")
  case True
  then show ?thesis using assms by (simp add: take_priority_def touched_refl)
next
  case False
  obtain r st' where l: "take_priority_loop withdrawn 0 st = (r, st')" by fastforce
  have "mb_inv st' \<and> next_seq st' = next_seq st \<and> set (queue st') \<subseteq> set (queue st)"
    using take_priority_loop_eq [OF assms _ l] by auto
  then show ?thesis using False l by (auto simp: take_priority_def touched_def)
qed

text \<open>A candidate taken out of the queue goes back to the place its arrival number gives it.\<close>

lemma reinsert_candidate_eq:
  assumes "mb_inv st" "\<forall>x \<in> set (queue st). seq x \<noteq> seq m" "seq m < next_seq st"
  shows "\<exists>j st'. reinsert_candidate i m st = Some (j, st') \<and> mb_inv st' \<and> next_seq st' = next_seq st \<and>
    (if \<exists>k. in_lane m = Latest k \<and> holds_latest k st then st' = st
     else queue st' = filter (\<lambda>x. seq x < seq m) (queue st) @ m # filter (\<lambda>x. seq m \<le> seq x) (queue st) \<and>
       j < length (queue st') \<and> queue st' ! j = m)"
proof (cases "\<exists>k. in_lane m = Latest k \<and> holds_latest k st")
  case True
  then show ?thesis using assms(1) by (auto simp: reinsert_candidate_def)
next
  case False
  let ?q = "queue st"
  let ?pp = "partition_point (\<lambda>x. seq x < seq m) ?q"
  let ?unshifted = "i \<le> length ?q \<and> (i = 0 \<or> seq (?q ! (i - 1)) < seq m) \<and> (i = length ?q \<or> seq (?q ! i) > seq m)"
  note I = mb_invD [OF assms(1)]
  have same: "?pp = i" if u: ?unshifted
  proof (rule partition_point_unique [OF I(1)])
    show "i \<le> length ?q" using u by simp
    show "\<forall>j < i. seq (?q ! j) < seq m"
    proof (intro allI impI)
      fix j assume "j < i"
      then have i: "seq (?q ! (i - 1)) < seq m" "i - 1 < length ?q" "j < i - 1 \<or> j = i - 1" using u by auto
      from i(3) show "seq (?q ! j) < seq m"
      proof
        assume "j < i - 1"
        from by_seq_nth [OF I(1) this i(2)] i(1) show ?thesis by (rule order.strict_trans)
      qed (use i(1) in simp)
    qed
    show "\<forall>j < length ?q. i \<le> j \<longrightarrow> \<not> seq (?q ! j) < seq m"
    proof (intro allI impI)
      fix j assume "j < length ?q" "i \<le> j"
      then show "\<not> seq (?q ! j) < seq m" using u by_seq_nth [OF I(1), of i j] by (cases "i = j") auto
    qed
  qed
  obtain st' where st': "insert_at ?pp m st = Some st'" "mb_inv st'" "next_seq st' = next_seq st"
    "queue st' = filter (\<lambda>x. seq x < seq m) ?q @ m # filter (\<lambda>x. seq m \<le> seq x) ?q"
    using insert_at_eq [OF assms(1-3)] False by (metis)
  have len: "length (filter (\<lambda>x. seq x < seq m) ?q) = ?pp"
    by (simp add: partition_point_def takeWhile_by_seq [OF I(1)])
  have at: "?pp < length (queue st')" "queue st' ! ?pp = m"
    unfolding st'(4) using len by (simp_all add: nth_append)
  note nth = by_seq_nth [OF mb_invD(1) [OF st'(2)]]
  have "?pp = 0 \<or> seq (queue st' ! (?pp - 1)) < seq m"
    using nth [of "?pp - 1" ?pp] at by (cases "?pp = 0") auto
  moreover have "?pp + 1 = length (queue st') \<or> seq (queue st' ! (?pp + 1)) > seq m"
    using nth [of ?pp "?pp + 1"] at by (cases "?pp + 1 < length (queue st')") auto
  ultimately have "reinsert_at_seq i m st = Some (?pp, st')"
    using same st'(1) by (auto simp: reinsert_at_seq_def Let_def)
  moreover have "reinsert_candidate i m st = reinsert_at_seq i m st"
    using False by (auto simp: reinsert_candidate_def split: lane.splits)
  ultimately show ?thesis using st' at False by auto
qed

end
