(* ===== verification/Delivery.thy ===== *)
theory Delivery
  imports Mailbox_Laws
begin

text \<open>
  What senders and receivers may rely on (\<open>process/mailbox.rs\<close>): every interleaving of deliveries, scans and
  priority takes keeps the queue ordered; a parked receiver never misses an arrival; a deactivated reply
  alias swallows one reply; a hard exit cannot be undone; a breached bound is raised once.
\<close>

section \<open>Interleavings\<close>

text \<open>
  The steps of all threads on one mailbox. The second component is the candidate the owner's scan has out
  of the queue while its matcher runs. The last rule is any change to the other fields.
\<close>

inductive qstep :: "mailbox_state \<times> envelope option \<Rightarrow> mailbox_state \<times> envelope option \<Rightarrow> bool" where
  pushed: "qstep (st, c) (push env st, c)"
| removed: "remove_at i st = Some (e, st') \<Longrightarrow> qstep (st, c) (st', c)"
| popped: "remove_at i st = Some (e, st') \<Longrightarrow> qstep (st, None) (st', Some e)"
| put_back: "reinsert_candidate i m st = Some (j, st') \<Longrightarrow> qstep (st, Some m) (st', None)"
| consumed: "qstep (st, Some m) (st, None)"
| cleared: "qstep (st, c) (clear_queue st, c)"
| priority_taken: "qstep (st, c) (snd (take_priority withdrawn st), c)"
| elsewhere: "queue st' = queue st \<Longrightarrow> next_seq st' = next_seq st \<Longrightarrow> priority_queued st' = priority_queued st \<Longrightarrow>
    latest_queued st' = latest_queued st \<Longrightarrow> qstep (st, c) (st', c)"

definition q_inv :: "mailbox_state \<times> envelope option \<Rightarrow> bool" where
  "q_inv sc \<longleftrightarrow> mb_inv (fst sc) \<and> (case snd sc of None \<Rightarrow> True
     | Some m \<Rightarrow> seq m < next_seq (fst sc) \<and> (\<forall>x \<in> set (queue (fst sc)). seq x \<noteq> seq m))"

lemma q_inv_touched: "q_inv (st, c) \<Longrightarrow> touched st st' \<Longrightarrow> q_inv (st', c)"
  by (cases c) (fastforce simp: q_inv_def touched_def)+

lemma q_inv_step: "qstep s s' \<Longrightarrow> q_inv s \<Longrightarrow> q_inv s'"
proof (induction rule: qstep.induct)
  case (pushed st c env)
  then show ?case by (rule q_inv_touched) (use pushed in \<open>simp add: q_inv_def touched_push\<close>)
next
  case (removed i st e st' c)
  from removed(2) show ?case
    by (rule q_inv_touched) (use removed in \<open>auto simp: q_inv_def intro: touched_remove\<close>)
next
  case (popped i st e st')
  then have inv: "mb_inv st" by (simp add: q_inv_def)
  note r = remove_at_Some [OF inv popped(1)]
  have "e \<in> set (queue st)" using r(1,2) by simp
  then show ?case using r mb_invD(2) [OF inv] by (auto simp: q_inv_def)
next
  case (put_back i m st j st')
  then show ?case using reinsert_candidate_eq [of st m i] by (auto simp: q_inv_def)
next
  case (consumed st m)
  then show ?case by (simp add: q_inv_def)
next
  case (cleared st c)
  then show ?case by (rule q_inv_touched) (use cleared in \<open>simp add: q_inv_def touched_clear\<close>)
next
  case (priority_taken st c withdrawn)
  then show ?case by (rule q_inv_touched) (use priority_taken in \<open>simp add: q_inv_def touched_take_priority\<close>)
next
  case (elsewhere st' st c)
  have "mb_inv st' = mb_inv st" using elsewhere.hyps by (simp add: mb_inv_def latest_seq_def)
  then show ?case using elsewhere by (cases c) (simp_all add: q_inv_def)
qed

lemma q_inv_reachable: "qstep\<^sup>*\<^sup>* (new_state, None) s \<Longrightarrow> q_inv s"
proof (induction rule: rtranclp_induct)
  case base
  show ?case by (simp add: q_inv_def mb_inv_new)
next
  case (step s s')
  then show ?case by (blast intro: q_inv_step)
qed

text \<open>
  C21: Whatever deliveries, removals, priority takes, pops and re-inserts interleave, the queue stays
  strictly ordered by arrival, the count of priority messages is the number queued, the index of latest
  messages names exactly the queued ones, of which there is at most one per key, and putting a candidate
  back never panics.
\<close>

theorem mailbox_ordered:
  assumes "qstep\<^sup>*\<^sup>* (new_state, None) (st, c)"
  shows "sorted_wrt (<) (map seq (queue st)) \<and>
    priority_queued st = length (filter (\<lambda>e. in_lane e = Priority) (queue st)) \<and>
    (\<forall>k s. latest_seq k st = Some s \<longleftrightarrow> (\<exists>e \<in> set (queue st). in_lane e = Latest k \<and> seq e = s)) \<and>
    (\<forall>k. length (filter (\<lambda>e. in_lane e = Latest k) (queue st)) \<le> 1) \<and>
    (\<forall>m i. c = Some m \<longrightarrow> reinsert_candidate i m st \<noteq> None)"
proof -
  have inv: "mb_inv st" using q_inv_reachable [OF assms] by (simp add: q_inv_def)
  have "length (filter (\<lambda>e. in_lane e = Latest k) (queue st)) \<le> 1" for k
  proof (rule ccontr)
    let ?f = "filter (\<lambda>e. in_lane e = Latest k) (queue st)"
    assume "\<not> length ?f \<le> 1"
    then obtain a b rest where f: "?f = a # b # rest" by (cases ?f rule: list.exhaust; cases "tl ?f") auto
    then have "a \<in> set ?f" "b \<in> set ?f" by simp_all
    then have "a = b" using latest_unique [OF inv, of a b k] by simp
    moreover have "by_seq ?f" using by_seq_filter [OF mb_invD(1) [OF inv]] .
    ultimately show False using f by (simp add: by_seq_Cons)
  qed
  moreover have "reinsert_candidate i m st \<noteq> None" if "c = Some m" for m i
    using q_inv_reachable [OF assms] that reinsert_candidate_eq [OF inv, of m i] by (auto simp: q_inv_def)
  ultimately show ?thesis using mb_invD [OF inv] by (auto simp: by_seq_def count_priority_def)
qed

lemma mailbox_ordered_witness:
  "let st = push ((plain MNil)\<lparr>in_lane := Latest [1]\<rparr>) (push ((plain MNil)\<lparr>in_lane := Latest [1]\<rparr>) new_state) in
   length (filter (\<lambda>e. in_lane e = Latest [1]) (queue st)) \<le> 1 \<and> queue st \<noteq> []"
proof -
  let ?e = "(plain MNil)\<lparr>in_lane := Latest [1]\<rparr>"
  have "qstep\<^sup>*\<^sup>* (new_state, None) (push ?e (push ?e new_state), None)"
    by (rule rtranclp.rtrancl_into_rtrancl [OF r_into_rtranclp]) (rule pushed)+
  moreover have "queue (push ?e (push ?e new_state)) \<noteq> []" by (simp add: push_def Let_def)
  ultimately show ?thesis using mailbox_ordered [of "push ?e (push ?e new_state)" None] by (simp add: Let_def)
qed

section \<open>A parked receiver\<close>

definition arrivals :: "envelope list \<Rightarrow> mailbox_state \<Rightarrow> mailbox_state" where
  "arrivals envs st = fold push envs st"

lemma arrivals_gate:
  assumes "mb_inv st" "scanned st \<le> length (queue st)"
  shows "mb_inv (arrivals envs st) \<and> scanned (arrivals envs st) \<le> length (queue (arrivals envs st)) \<and>
    next_seq st \<le> next_seq (arrivals envs st) \<and>
    (envs \<noteq> [] \<longrightarrow> scanned (arrivals envs st) < length (queue (arrivals envs st)) \<and>
      last (queue (arrivals envs st)) = (last envs)\<lparr>seq := next_seq st + length envs - 1\<rparr>) \<and>
    (\<forall>e \<in> set (take (scanned (arrivals envs st)) (queue (arrivals envs st))). e \<in> set (take (scanned st) (queue st))) \<and>
    next_seq (arrivals envs st) = next_seq st + length envs"
  using assms
proof (induction envs rule: rev_induct)
  case Nil
  then show ?case by (simp add: arrivals_def)
next
  case (snoc env envs)
  define st1 where "st1 = arrivals envs st"
  have IH: "mb_inv st1" "scanned st1 \<le> length (queue st1)" "next_seq st1 = next_seq st + length envs"
    "\<forall>e \<in> set (take (scanned st1) (queue st1)). e \<in> set (take (scanned st) (queue st))"
    using snoc by (simp_all add: st1_def)
  have step: "arrivals (envs @ [env]) st = push env st1" by (simp add: arrivals_def st1_def)
  note p = push_eq [OF IH(1), of env]
  let ?n = "scanned (push env st1)" and ?q = "queue (push env st1)"
  have "take ?n ?q = filter (\<lambda>e. \<not> supersedes env e) (take (scanned st1) (queue st1))"
  proof -
    have "take ?n ?q @ drop ?n ?q = filter (\<lambda>e. \<not> supersedes env e) (take (scanned st1) (queue st1)) @
        filter (\<lambda>e. \<not> supersedes env e) (drop (scanned st1) (queue st1)) @ [env\<lparr>seq := next_seq st1\<rparr>]"
      using p(2) by (metis append.assoc append_take_drop_id filter_append)
    then show ?thesis using p(4) [OF IH(2)] by auto
  qed
  then show ?case unfolding step using p IH by auto
qed

text \<open>
  C22: A receiver that parks has scanned its whole queue. Whatever arrives afterwards, superseding messages
  it scanned or not, leaves a message past the scanned count, the newest arrival last, and nothing it has
  not scanned below that count: the gate that wakes it stays open.
\<close>

theorem parked_receiver_wakes:
  assumes "qstep\<^sup>*\<^sup>* (new_state, None) (st, c)" "scanned st = length (queue st)" "envs \<noteq> []"
  shows "scanned (arrivals envs st) < length (queue (arrivals envs st)) \<and>
    last (queue (arrivals envs st)) = (last envs)\<lparr>seq := next_seq st + length envs - 1\<rparr> \<and>
    (\<forall>e \<in> set (take (scanned (arrivals envs st)) (queue (arrivals envs st))). e \<in> set (queue st))"
proof -
  have "mb_inv st" using q_inv_reachable [OF assms(1)] by (simp add: q_inv_def)
  then show ?thesis using arrivals_gate [of st envs] assms(2,3) by simp
qed

lemma parked_receiver_wakes_witness:
  "scanned (arrivals [plain MNil] new_state) < length (queue (arrivals [plain MNil] new_state))"
  using parked_receiver_wakes [of new_state None "[plain MNil]"] by (simp add: new_state_def)

section \<open>Reply aliases\<close>

text \<open>The abstract set: the deactivated refs, oldest first.\<close>

definition alias_list :: "dead_aliases \<Rightarrow> u64 list" where
  "alias_list d = (case d of None \<Rightarrow> [] | Some s \<Rightarrow> take (alias_len s) (ids s))"

definition alias_inv :: "dead_aliases \<Rightarrow> bool" where
  "alias_inv d \<longleftrightarrow> (case d of None \<Rightarrow> True
     | Some s \<Rightarrow> length (ids s) = DEAD_ALIAS_CAP \<and> 0 < alias_len s \<and> alias_len s \<le> DEAD_ALIAS_CAP) \<and> distinct (alias_list d)"

lemma length_copy_within:
  assumes "a \<le> b" "b \<le> length xs" "d + (b - a) \<le> length xs"
  shows "length (copy_within xs a b d) = length xs"
proof -
  have "length (take d xs) = d" "length (take (b - a) (drop a xs)) = b - a" using assms by (simp_all add: min_absorb2)
  then show ?thesis using assms(3) unfolding copy_within_def by (simp only: length_append length_drop)
qed

lemma alias_insert_eq:
  assumes "alias_inv d"
  shows "alias_inv (alias_insert i d) \<and> alias_list (alias_insert i d) =
    (if i \<in> set (alias_list d) then alias_list d
     else if length (alias_list d) = DEAD_ALIAS_CAP then tl (alias_list d) @ [i] else alias_list d @ [i])"
proof (cases d)
  case None
  then show ?thesis by (auto simp: alias_insert_def alias_list_def alias_inv_def DEAD_ALIAS_CAP_def take_Suc numeral_eq_Suc)
next
  case (Some s)
  have len: "length (ids s) = DEAD_ALIAS_CAP" "0 < alias_len s" "alias_len s \<le> DEAD_ALIAS_CAP" "distinct (take (alias_len s) (ids s))"
    using assms Some by (auto simp: alias_inv_def alias_list_def)
  consider "i \<in> set (take (alias_len s) (ids s))" | "i \<notin> set (take (alias_len s) (ids s))" "alias_len s = DEAD_ALIAS_CAP"
    | "i \<notin> set (take (alias_len s) (ids s))" "alias_len s < DEAD_ALIAS_CAP"
    using len(3) by linarith
  then show ?thesis
  proof cases
    case 1
    then show ?thesis using Some assms by (simp add: alias_insert_def alias_list_def Let_def)
  next
    case 2
    define s' where "s' = s\<lparr>ids := (copy_within (ids s) 1 DEAD_ALIAS_CAP 0)[alias_len s - 1 := i], alias_len := alias_len s\<rparr>"
    have "alias_insert i d = Some s'" using Some 2 len by (simp add: alias_insert_def s'_def Let_def DEAD_ALIAS_CAP_def)
    moreover have "take (alias_len s') (ids s') = tl (ids s) @ [i]"
    proof -
      have "copy_within (ids s) 1 DEAD_ALIAS_CAP 0 = tl (ids s) @ drop (DEAD_ALIAS_CAP - 1) (ids s)"
        using len(1) by (simp add: copy_within_def drop_Suc)
      moreover have "length (drop (DEAD_ALIAS_CAP - 1) (ids s)) = 1" using len(1) by (simp add: DEAD_ALIAS_CAP_def)
      then obtain x where "drop (DEAD_ALIAS_CAP - 1) (ids s) = [x]" by (metis One_nat_def length_0_conv length_Suc_conv)
      ultimately show ?thesis using 2 len by (simp add: s'_def list_update_append)
    qed
    moreover have "length (ids s') = DEAD_ALIAS_CAP"
      using len(1) by (simp add: s'_def length_copy_within DEAD_ALIAS_CAP_def)
    ultimately show ?thesis using Some 2 len
      by (cases "ids s") (auto simp: alias_list_def alias_inv_def s'_def DEAD_ALIAS_CAP_def)
  next
    case 3
    define s' where "s' = s\<lparr>ids := (ids s)[alias_len s := i], alias_len := alias_len s + 1\<rparr>"
    have "alias_insert i d = Some s'" using Some 3 by (simp add: alias_insert_def s'_def Let_def)
    moreover have "take (alias_len s') (ids s') = take (alias_len s) (ids s) @ [i]"
      using 3 len(1) by (simp add: s'_def take_Suc_conv_app_nth)
    ultimately show ?thesis using Some 3 len by (auto simp: alias_list_def alias_inv_def s'_def)
  qed
qed

lemma position_remove1:
  "position (\<lambda>x. x = i) xs = Some p \<Longrightarrow> remove1 i xs = take p xs @ drop (Suc p) xs"
  by (induction xs arbitrary: p) (auto split: if_splits)

lemma alias_take_eq:
  assumes "alias_inv d"
  shows "fst (alias_take i d) = (i \<in> set (alias_list d)) \<and> alias_inv (snd (alias_take i d)) \<and>
    alias_list (snd (alias_take i d)) = remove1 i (alias_list d)"
proof (cases d)
  case None
  then show ?thesis by (simp add: alias_take_def alias_list_def alias_inv_def)
next
  case (Some s)
  have len: "length (ids s) = DEAD_ALIAS_CAP" "0 < alias_len s" "alias_len s \<le> DEAD_ALIAS_CAP" "distinct (take (alias_len s) (ids s))"
    using assms Some by (auto simp: alias_inv_def alias_list_def)
  let ?xs = "take (alias_len s) (ids s)"
  show ?thesis
  proof (cases "position (\<lambda>x. x = i) ?xs")
    case None
    then have "i \<notin> set ?xs" by (auto simp: position_None)
    then show ?thesis using Some None assms by (simp add: alias_take_def alias_list_def remove1_idem)
  next
    case (Some p)
    have p: "p < alias_len s" "i \<in> set ?xs" using position_Some [OF Some] len by (auto simp: in_set_conv_nth)
    define s' where "s' = s\<lparr>ids := copy_within (ids s) (p + 1) (alias_len s) p, alias_len := alias_len s - 1\<rparr>"
    have t: "alias_take i d = (True, if alias_len s' = 0 then None else Some s')"
      using Some \<open>d = Some s\<close> by (simp add: alias_take_def s'_def Let_def)
    have "take (alias_len s') (ids s') = take p ?xs @ drop (Suc p) ?xs"
    proof -
      have "p = alias_len s - 1 \<or> p < alias_len s - 1" using p(1) by linarith
      then show ?thesis using p len by (auto simp: s'_def copy_within_def min_def drop_take)
    qed
    then have l: "take (alias_len s') (ids s') = remove1 i ?xs" using position_remove1 [OF Some] by simp
    have "length (ids s') = DEAD_ALIAS_CAP" using p len by (simp add: s'_def length_copy_within)
    moreover have "alias_len s' = 0 \<Longrightarrow> remove1 i ?xs = []" using l by simp
    ultimately show ?thesis using t l p len \<open>d = Some s\<close>
      by (auto simp: alias_list_def alias_inv_def s'_def)
  qed
qed

datatype alias_op = Deactivate u64 | Reply u64

fun run_aliases :: "alias_op list \<Rightarrow> dead_aliases \<Rightarrow> bool list \<times> dead_aliases" where
  "run_aliases [] d = ([], d)"
| "run_aliases (Deactivate i # ops) d = run_aliases ops (alias_insert i d)"
| "run_aliases (Reply i # ops) d =
     (let (hit, d) = alias_take i d; (hits, d) = run_aliases ops d in (hit # hits, d))"

text \<open>The specification: a list of at most \<open>DEAD_ALIAS_CAP\<close> refs, where a new one evicts the oldest.\<close>

fun spec_aliases :: "alias_op list \<Rightarrow> u64 list \<Rightarrow> bool list \<times> u64 list" where
  "spec_aliases [] L = ([], L)"
| "spec_aliases (Deactivate i # ops) L = spec_aliases ops
     (if i \<in> set L then L else if length L = DEAD_ALIAS_CAP then tl L @ [i] else L @ [i])"
| "spec_aliases (Reply i # ops) L = (let (hits, L') = spec_aliases ops (remove1 i L) in ((i \<in> set L) # hits, L'))"

lemma run_aliases_spec:
  "alias_inv d \<Longrightarrow> run_aliases ops d = (hits, d') \<Longrightarrow> spec_aliases ops (alias_list d) = (hits, alias_list d') \<and> alias_inv d'"
proof (induction ops arbitrary: d hits d')
  case (Cons op ops)
  show ?case
  proof (cases op)
    case (Deactivate i)
    then show ?thesis using Cons.IH [of "alias_insert i d"] Cons.prems alias_insert_eq [OF Cons.prems(1), of i] by simp
  next
    case (Reply i)
    obtain hit d1 where t: "alias_take i d = (hit, d1)" by fastforce
    obtain hits1 where r: "run_aliases ops d1 = (hits1, d')" "hits = hit # hits1"
      using Cons.prems(2) Reply t by (auto split: prod.splits)
    have "hit = (i \<in> set (alias_list d))" "alias_inv d1" "alias_list d1 = remove1 i (alias_list d)"
      using alias_take_eq [OF Cons.prems(1), of i] t by auto
    then show ?thesis using Cons.IH [OF _ r(1)] Reply r(2) by simp
  qed
qed simp

text \<open>
  C23: The fixed array of deactivated reply aliases, shifted in place, behaves as a bounded queue of refs:
  every reply is swallowed exactly when its ref is among those deactivated, not yet replied to and not
  evicted by eight newer ones.
\<close>

theorem dead_aliases_refine:
  assumes "run_aliases ops None = (hits, d)"
  shows "spec_aliases ops [] = (hits, alias_list d)"
  using run_aliases_spec [of None ops hits d] assms by (simp add: alias_inv_def alias_list_def)

lemma dead_aliases_refine_witness:
  "spec_aliases [Deactivate 4, Reply 4, Reply 4] [] = ([True, False], [])"
  using dead_aliases_refine [of "[Deactivate 4, Reply 4, Reply 4]" "[True, False]" None]
  by (simp add: alias_insert_def alias_take_def copy_within_def DEAD_ALIAS_CAP_def alias_list_def Let_def numeral_eq_Suc)

lemma alias_dropped_eq:
  "alias_inv (dead_aliases st) \<Longrightarrow> alias_dropped env st = (hit, st') \<Longrightarrow>
   hit = (\<exists>m i. msg env = PWire m \<and> message_alias m = Some i \<and> i \<in> set (alias_list (dead_aliases st))) \<and>
   (\<exists>d. st' = st\<lparr>dead_aliases := d\<rparr> \<and> alias_inv d \<and>
      (\<forall>m i. msg env = PWire m \<longrightarrow> message_alias m = Some i \<longrightarrow> alias_list d = remove1 i (alias_list (dead_aliases st))))"
proof -
  assume inv: "alias_inv (dead_aliases st)" and r: "alias_dropped env st = (hit, st')"
  have same: ?thesis if "st' = st" "\<not> hit" "\<And>m i. msg env = PWire m \<Longrightarrow> message_alias m = Some i \<Longrightarrow> alias_list (dead_aliases st) = []"
    using that inv by (intro conjI exI [of _ "dead_aliases st"]) auto
  show ?thesis
  proof (cases "msg env")
    case (PLocal s t)
    then show ?thesis using r by (intro same) (auto simp: alias_dropped_def)
  next
    case (PWire m)
    show ?thesis
    proof (cases "message_alias m")
      case None
      then show ?thesis using PWire r by (intro same) (auto simp: alias_dropped_def split: if_splits)
    next
      case (Some i)
      show ?thesis
      proof (cases "dead_aliases st = None")
        case True
        then show ?thesis using PWire Some r by (intro same) (auto simp: alias_dropped_def alias_list_def)
      next
        case False
        then show ?thesis using PWire Some r alias_take_eq [OF inv, of i]
          by (auto simp: alias_dropped_def split: prod.splits)
      qed
    qed
  qed
qed

lemma push_aliases [simp]: "dead_aliases (push env st) = dead_aliases st"
  by (auto simp: push_def Let_def drop_superseded_def note_queued_def remove_at_def note_unqueued_def
      split: lane.splits option.splits bind_splits)

lemma push_and_wake_eq:
  assumes "alias_dropped env (state mb) = (hit, st)"
  shows "push_and_wake now origin env mb =
    (if hit then (None, mb\<lparr>state := st\<rparr>)
     else (Some \<lparr>parked_process = waiter (push env st), cv_waiter = (cv_waiters (push env st) > 0)\<rparr>,
       snd (push_and_wake now origin env mb))) \<and>
    (\<not> hit \<longrightarrow> state (snd (push_and_wake now origin env mb)) = (push env st)\<lparr>waiter := None, wake_pending := True\<rparr>)"
proof -
  have bound: "state (note_mailbox_bound n x) = state x" for n x by (simp add: note_mailbox_bound_def Let_def)
  show ?thesis
    using assms
    by (auto simp: push_and_wake_def Let_def take_wake_def wake_with_def bound split: option.split prod.splits)
qed

text \<open>
  After a ref is deactivated, the first message addressed to it is swallowed: it does not enter the
  queue and wakes nobody. The next message carrying the same ref is queued like any other.
\<close>

theorem alias_swallows_one_reply:
  assumes "alias_inv (dead_aliases (state mb))" "msg env = PWire m" "message_alias m = Some i"
  defines "mb1 \<equiv> deactivate_alias i mb"
  shows "\<exists>mb2. push_and_wake now origin env mb1 = (None, mb2) \<and> queue (state mb2) = queue (state mb) \<and>
    (\<exists>w mb3. push_and_wake now origin env mb2 = (Some w, mb3) \<and>
      last (queue (state mb3)) = env\<lparr>seq := next_seq (state mb)\<rparr>)"
proof -
  let ?st = "state mb"
  have inv1: "alias_inv (dead_aliases (state mb1))" and mem: "i \<in> set (alias_list (dead_aliases (state mb1)))"
    using alias_insert_eq [OF assms(1), of i] by (auto simp: mb1_def deactivate_alias_def)
  have q1: "queue (state mb1) = queue ?st" "next_seq (state mb1) = next_seq ?st"
    by (simp_all add: mb1_def deactivate_alias_def)
  obtain hit st2 where d: "alias_dropped env (state mb1) = (hit, st2)" by fastforce
  from alias_dropped_eq [OF inv1 d] mem assms(2,3) obtain dd where
    hit: "hit" "st2 = (state mb1)\<lparr>dead_aliases := dd\<rparr>" "alias_inv dd" "alias_list dd = remove1 i (alias_list (dead_aliases (state mb1)))"
    by auto
  define mb2 where "mb2 = mb1\<lparr>state := st2\<rparr>"
  have p1: "push_and_wake now origin env mb1 = (None, mb2)" using push_and_wake_eq [OF d] hit(1) by (simp add: mb2_def)
  have "distinct (alias_list (dead_aliases (state mb1)))" using inv1 by (simp add: alias_inv_def)
  then have gone: "i \<notin> set (alias_list (dead_aliases st2))" using hit by simp
  obtain hit' st3 where d': "alias_dropped env (state mb2) = (hit', st3)" by fastforce
  have "\<not> hit' \<and> (\<exists>d. st3 = st2\<lparr>dead_aliases := d\<rparr>)"
    using alias_dropped_eq [OF _ d'] hit gone assms(2,3) by (auto simp: mb2_def)
  then obtain d3 where st3: "\<not> hit'" "st3 = st2\<lparr>dead_aliases := d3\<rparr>" by blast
  have "queue (state (snd (push_and_wake now origin env mb2))) = queue (push env st3)"
    using push_and_wake_eq [OF d', of now origin] st3(1) by simp
  moreover have "last (queue (push env st3)) = env\<lparr>seq := next_seq st3\<rparr>" by (simp add: push_def Let_def)
  moreover have "next_seq st3 = next_seq ?st" using st3 hit q1 by simp
  moreover have "fst (push_and_wake now origin env mb2) \<noteq> None"
    using push_and_wake_eq [OF d', of now origin] st3(1) by (metis fst_conv option.distinct(1))
  ultimately have "\<exists>w mb3. push_and_wake now origin env mb2 = (Some w, mb3) \<and> last (queue (state mb3)) = env\<lparr>seq := next_seq ?st\<rparr>"
    by (cases "push_and_wake now origin env mb2") auto
  then show ?thesis using p1 hit q1 by (auto simp: mb2_def)
qed

lemma alias_swallows_one_reply_witness:
  "let env = plain (MVector [MKeyword 3, MRef 9]) in
   \<exists>mb2. push_and_wake 0 FromHere env (deactivate_alias 9 new_mailbox) = (None, mb2)"
proof -
  have "alias_inv (dead_aliases (state new_mailbox))"
    by (simp add: new_mailbox_def new_state_def alias_inv_def alias_list_def)
  then show ?thesis
    using alias_swallows_one_reply [of new_mailbox "plain (MVector [MKeyword 3, MRef 9])" _ 9 0 FromHere]
    by (auto simp: plain_def message_alias_def Let_def)
qed

section \<open>Delivery\<close>

text \<open>
  A delivered message is queued last, after whatever it supersedes is dropped, and takes the parked
  receiver out of the mailbox to be run again; nobody is left parked with a message pending.
\<close>

theorem delivery_wakes:
  assumes "qstep\<^sup>*\<^sup>* (new_state, None) (state mb, c)" "alias_inv (dead_aliases (state mb))"
    "push_and_wake now origin env mb = (Some w, mb')"
  shows "queue (state mb') = filter (\<lambda>e. \<not> supersedes env e) (queue (state mb)) @ [env\<lparr>seq := next_seq (state mb)\<rparr>] \<and>
    parked_process w = waiter (state mb) \<and> waiter (state mb') = None \<and> wake_pending (state mb') \<and>
    (cv_waiter w \<longleftrightarrow> 0 < cv_waiters (state mb))"
proof -
  obtain hit st where d: "alias_dropped env (state mb) = (hit, st)" by fastforce
  have hit: "\<not> hit" using push_and_wake_eq [OF d, of now origin] assms(3) by (cases hit) auto
  from alias_dropped_eq [OF assms(2) d] obtain dd where st: "st = (state mb)\<lparr>dead_aliases := dd\<rparr>" by blast
  have "mb_inv (state mb)" using q_inv_reachable [OF assms(1)] by (simp add: q_inv_def)
  then have inv: "mb_inv st" by (simp add: st mb_inv_def latest_seq_def)
  have other: "waiter (push env st) = waiter st" "cv_waiters (push env st) = cv_waiters st"
    by (auto simp: push_def Let_def drop_superseded_def note_queued_def remove_at_def note_unqueued_def
        split: lane.splits option.splits bind_splits)
  show ?thesis
    using push_and_wake_eq [OF d, of now origin] assms(3) hit push_eq(2) [OF inv, of env] other by (simp add: st)
qed

lemma delivery_wakes_witness:
  "waiter (state (snd (push_and_wake 0 FromHere (plain MNil) (new_mailbox\<lparr>state := new_state\<lparr>waiter := Some 7\<rparr>\<rparr>)))) = None"
proof -
  let ?mb = "new_mailbox\<lparr>state := new_state\<lparr>waiter := Some 7\<rparr>\<rparr>"
  have "qstep\<^sup>*\<^sup>* (new_state, None) (state ?mb, None)" by (rule r_into_rtranclp, rule elsewhere) simp_all
  moreover have "alias_inv (dead_aliases (state ?mb))" by (simp add: new_state_def alias_inv_def alias_list_def)
  moreover have "push_and_wake 0 FromHere (plain MNil) ?mb =
    (Some \<lparr>parked_process = Some 7, cv_waiter = False\<rparr>, snd (push_and_wake 0 FromHere (plain MNil) ?mb))"
    by (simp add: push_and_wake_def Let_def alias_dropped_def plain_def new_state_def take_wake_def wake_with_def
        new_mailbox_def quit_hits_def push_def note_queued_def note_mailbox_bound_def)
  ultimately show ?thesis using delivery_wakes by blast
qed

section \<open>Pending exits\<close>

lemma request_kill_hard:
  "kill (state mb) = Some r \<Longrightarrow> kill_hard (state mb) \<Longrightarrow>
   fold (\<lambda>(r, h). request_kill r h) reqs (mb\<lparr>kill_pending := True\<rparr>) = mb\<lparr>kill_pending := True\<rparr>"
  by (induction reqs) (auto simp: request_kill_def Let_def)

lemma kill_pending_noop: "kill_pending mb \<Longrightarrow> mb\<lparr>kill_pending := True\<rparr> = mb"
  by simp

lemma request_kills:
  assumes "\<not> (kill (state mb) \<noteq> None \<and> kill_hard (state mb))" "reqs \<noteq> []"
  defines "mb' \<equiv> fold (\<lambda>(r, h). request_kill r h) reqs mb"
  shows "kill (state mb') = Some (case find snd reqs of Some (r, h) \<Rightarrow> r | None \<Rightarrow> fst (last reqs)) \<and>
    pending_hard_kill mb' = (\<exists>(r, h) \<in> set reqs. h)"
  using assms(1,2) unfolding mb'_def
proof (induction reqs arbitrary: mb)
  case (Cons q reqs)
  obtain r h where q: "q = (r, h)" by fastforce
  define mb1 where "mb1 = request_kill r h mb"
  have k: "kill (state mb1) = Some r" "kill_hard (state mb1) = h" "kill_pending mb1"
    using Cons.prems(1) by (auto simp: mb1_def request_kill_def Let_def)
  have step: "fold (\<lambda>(r, h). request_kill r h) (q # reqs) mb = fold (\<lambda>(r, h). request_kill r h) reqs mb1"
    by (simp add: q mb1_def)
  show ?case
  proof (cases h)
    case True
    then have "fold (\<lambda>(r, h). request_kill r h) reqs mb1 = mb1"
      using request_kill_hard [of mb1 r reqs] k by (simp add: kill_pending_noop)
    then show ?thesis using k True unfolding step by (simp add: q pending_hard_kill_def)
  next
    case False
    show ?thesis
    proof (cases "reqs = []")
      case True
      then show ?thesis using k False unfolding step by (simp add: q pending_hard_kill_def)
    next
      case ne: False
      have "\<not> (kill (state mb1) \<noteq> None \<and> kill_hard (state mb1))" using k False by simp
      from Cons.IH [OF this ne] show ?thesis using False ne unfolding step by (simp add: q split: option.split)
    qed
  qed
qed simp

text \<open>
  Of several exit requests racing for one process the first hard one wins and its reason is the one
  the process dies with; a later request, soft or hard, cannot undo it. With none hard the last reason
  stands and nothing hard is pending.
\<close>

theorem first_hard_exit_wins:
  assumes "kill (state mb) = None" "reqs \<noteq> []"
  shows "let mb' = fold (\<lambda>(r, h). request_kill r h) reqs mb in
    kill (state mb') = Some (case find snd reqs of Some (r, h) \<Rightarrow> r | None \<Rightarrow> fst (last reqs)) \<and>
    pending_hard_kill mb' = (\<exists>(r, h) \<in> set reqs. h)"
  using request_kills [of mb reqs] assms by (simp add: Let_def)

lemma first_hard_exit_wins_witness:
  "kill (state (request_kill (MKeyword 2) False (request_kill (MKeyword 1) True new_mailbox))) = Some (MKeyword 1)"
  using first_hard_exit_wins [of new_mailbox "[(MKeyword 1, True), (MKeyword 2, False)]"]
  by (simp add: new_mailbox_def new_state_def Let_def)

section \<open>The queue bound\<close>

definition deliveries :: "u64 \<Rightarrow> origin \<Rightarrow> envelope list \<Rightarrow> mailbox \<Rightarrow> mailbox" where
  "deliveries now origin envs mb = fold (\<lambda>e mb. snd (push_and_wake now origin e mb)) envs mb"

lemma push_and_wake_latched:
  "overflow_hit mb \<noteq> 0 \<Longrightarrow> overflow_hit (snd (push_and_wake now origin env mb)) = overflow_hit mb"
  by (auto simp: push_and_wake_def Let_def note_mailbox_bound_def split: prod.splits option.splits)

lemma deliveries_latched: "overflow_hit mb \<noteq> 0 \<Longrightarrow> overflow_hit (deliveries now origin envs mb) = overflow_hit mb"
  unfolding deliveries_def by (induction envs arbitrary: mb) (simp_all add: push_and_wake_latched)

text \<open>
  A breach of the queue bound is raised once: after the receiver takes it, no delivery raises it again,
  until the bound is set anew; then the first delivery that leaves more messages than the bound arms it
  with that length.
\<close>

theorem bound_raised_once:
  assumes "take_overflow_hit mb = (Some hit, mb1)" "n \<noteq> 0"
    "push_and_wake now origin env (snd (set_max_mailbox (Some n) mb1)) = (Some w, mb3)"
    "length (queue (state mb3)) < OVERFLOW_LATCHED"
  shows "fst (take_overflow_hit (deliveries now origin envs mb1)) = None \<and>
    fst (take_overflow_hit mb3) =
      (if n < length (queue (state mb3)) then Some (length (queue (state mb3)), n) else None)"
proof
  have "overflow_hit mb1 = OVERFLOW_LATCHED"
    using assms(1) by (auto simp: take_overflow_hit_def Let_def split: if_splits)
  moreover have "OVERFLOW_LATCHED \<noteq> 0" by (simp add: OVERFLOW_LATCHED_def)
  ultimately have "overflow_hit (deliveries now origin envs mb1) = OVERFLOW_LATCHED"
    using deliveries_latched [of mb1 now origin envs] by simp
  then show "fst (take_overflow_hit (deliveries now origin envs mb1)) = None" by (simp add: take_overflow_hit_def)
  show "fst (take_overflow_hit mb3) =
      (if n < length (queue (state mb3)) then Some (length (queue (state mb3)), n) else None)"
    using assms(2-)
    by (auto simp: push_and_wake_def set_max_mailbox_def Let_def note_mailbox_bound_def take_overflow_hit_def
        take_wake_def wake_with_def split: prod.splits option.splits if_splits)
qed

lemma bound_raised_once_witness:
  "fst (take_overflow_hit (deliveries 0 FromHere [plain MNil] (snd (take_overflow_hit (new_mailbox\<lparr>overflow_hit := 3\<rparr>))))) = None"
proof -
  let ?mb = "new_mailbox\<lparr>overflow_hit := 3\<rparr>"
  let ?mb1 = "snd (take_overflow_hit ?mb)"
  let ?p = "push_and_wake 0 FromHere (plain MNil) (snd (set_max_mailbox (Some 5) ?mb1))"
  have "take_overflow_hit ?mb = (Some (3, 0), ?mb1)"
    by (simp add: take_overflow_hit_def new_mailbox_def OVERFLOW_LATCHED_def)
  moreover have "?p = (Some \<lparr>parked_process = None, cv_waiter = False\<rparr>, snd ?p) \<and> length (queue (state (snd ?p))) = 1"
    by (simp add: push_and_wake_def Let_def alias_dropped_def plain_def new_state_def take_wake_def wake_with_def
        new_mailbox_def quit_hits_def push_def note_queued_def note_mailbox_bound_def set_max_mailbox_def
        take_overflow_hit_def OVERFLOW_LATCHED_def)
  moreover have "(1 :: nat) < OVERFLOW_LATCHED" by (simp add: OVERFLOW_LATCHED_def)
  ultimately show ?thesis using bound_raised_once [of ?mb "(3, 0)" ?mb1 5 0 FromHere "plain MNil" _ "snd ?p"] by auto
qed

section \<open>Priority messages and waiting processes\<close>

text \<open>
  Taking a priority message answers the oldest queued one that its source has not taken back, removes
  it and the withdrawn ones before it, and leaves every other message where it is, ordinary ones included.
\<close>

theorem take_priority_oldest:
  assumes "qstep\<^sup>*\<^sup>* (new_state, None) (st, c)" "take_priority withdrawn st = (r, st')"
  shows "r = find (\<lambda>e. in_lane e = Priority \<and> \<not> is_withdrawn withdrawn e) (queue st) \<and>
    queue st' = filter (\<lambda>e. in_lane e = Priority \<longrightarrow> (case r of Some p \<Rightarrow> seq p < seq e | None \<Rightarrow> False)) (queue st)"
proof -
  have inv: "mb_inv st" using q_inv_reachable [OF assms(1)] by (simp add: q_inv_def)
  show ?thesis
  proof (cases "priority_queued st = 0")
    case True
    then have "\<forall>e \<in> set (queue st). in_lane e \<noteq> Priority"
      using mb_invD(3) [OF inv] count_priority_pos by fastforce
    then show ?thesis using assms(2) True by (auto simp: take_priority_def find_None_iff2 intro!: filter_True [symmetric])
  next
    case False
    then show ?thesis using assms(2) take_priority_loop_eq [OF inv, of 0 withdrawn r st'] by (simp add: take_priority_def)
  qed
qed

lemma take_priority_oldest_witness:
  "let st = push ((plain (MInt 2))\<lparr>in_lane := Priority\<rparr>) (push (plain MNil) new_state); (r, st') = take_priority (\<lambda>_. False) st in
   r = find (\<lambda>e. in_lane e = Priority \<and> \<not> is_withdrawn (\<lambda>_. False) e) (queue st)"
proof -
  let ?st = "push ((plain (MInt 2))\<lparr>in_lane := Priority\<rparr>) (push (plain MNil) new_state)"
  have "qstep\<^sup>*\<^sup>* (new_state, None) (?st, None)"
    by (rule rtranclp.rtrancl_into_rtrancl [OF r_into_rtranclp]) (rule pushed)+
  then show ?thesis using take_priority_oldest by (simp add: Let_def split: prod.split)
qed

definition waiting :: "mailbox list \<Rightarrow> nat" where
  "waiting ms = length (filter (\<lambda>m. status m = ST_WAITING) ms)"

text \<open>
  The running count of waiting processes is exact: every change of one process's status keeps it equal
  to the number of mailboxes whose status is waiting, and so does retiring a process killed while parked.
\<close>

theorem parked_count_exact:
  assumes "i < length ms" "parked = waiting ms"
  shows "(let (mb, n) = set_status new (ms ! i, parked) in n = waiting (ms[i := mb]) \<and> status mb = new) \<and>
    (let (mb, n) = clear_parked (ms ! i, parked) in n = waiting (ms[i := mb]) \<and> status mb \<noteq> ST_WAITING)"
proof -
  have split: "ms = take i ms @ ms ! i # drop (Suc i) ms" using assms(1) by (simp add: id_take_nth_drop [symmetric])
  have w: "waiting (ms[i := m]) = waiting (take i ms) + (if status m = ST_WAITING then 1 else 0) + waiting (drop (Suc i) ms)" for m
    using assms(1) by (simp add: upd_conv_take_nth_drop waiting_def)
  have "waiting ms = waiting (ms[i := ms ! i])" by simp
  then have p: "parked = waiting (take i ms) + (if status (ms ! i) = ST_WAITING then 1 else 0) + waiting (drop (Suc i) ms)"
    using w [of "ms ! i"] assms(2) by simp
  have "ST_RUNNABLE \<noteq> ST_WAITING" by (simp add: ST_RUNNABLE_def ST_WAITING_def)
  then show ?thesis using p by (auto simp: set_status_def clear_parked_def w Let_def)
qed

lemma parked_count_exact_witness:
  "waiting [fst (set_status ST_WAITING (new_mailbox, 0))] = snd (set_status ST_WAITING (new_mailbox, 0))"
  using parked_count_exact [of 0 "[new_mailbox]" 0 ST_WAITING]
  by (simp add: waiting_def new_mailbox_def ST_RUNNING_def ST_WAITING_def split_beta Let_def)

end
