(* ===== verification/Receive.thy ===== *)
theory Receive
  imports Delivery
begin

text \<open>
  The selective receive (\<open>process/mailbox.rs\<close>): a scan of the mailbox for the first message a clause
  matches. The matcher runs with the mailbox lock free, so while it runs senders push, messages are
  superseded, and a clause guard may itself receive; the scan finds its place again by arrival number.

  The matcher, and what other threads do between two holds of the lock, are parameters: state
  transformers on the mailbox and on a world of any type. \<open>None\<close> is a panic, or fuel used up.
\<close>

section \<open>Message size and tags\<close>

text \<open>How much of a rebuild budget is left after a message (\<open>process/message.rs\<close>); negative when it is too big.\<close>

function fits_walk :: "'s message \<Rightarrow> int \<Rightarrow> int" and fits_items :: "'s message list \<Rightarrow> int \<Rightarrow> int"
  and fits_pairs :: "('s message \<times> 's message) list \<Rightarrow> int \<Rightarrow> int" where
  "fits_walk m left =
     (if left < 0 then left
      else (case m of
          MList items p \<Rightarrow> fits_items items (left - 1)
        | MDotted items \<Rightarrow> fits_items items (left - 1)
        | MVector items \<Rightarrow> fits_items items (left - 1)
        | MSet items \<Rightarrow> fits_items items (left - 1)
        | MMap es \<Rightarrow> fits_pairs es (left - 1)
        | MFailure es \<Rightarrow> fits_pairs es (left - 1)
        | MRecord i es \<Rightarrow> fits_pairs es (left - 1)
        | MStr s \<Rightarrow> left - 1 - int (length s div 1024)
        | MClosure c \<Rightarrow> - 1
        | _ \<Rightarrow> left - 1))"
| "fits_items [] left = left"
| "fits_items (m # ms) left = (let left = fits_walk m left in if left < 0 then left else fits_items ms left)"
| "fits_pairs [] left = left"
| "fits_pairs ((k, v) # es) left =
     (let left = fits_walk v (fits_walk k left) in if left < 0 then left else fits_pairs es left)"
  by pat_completeness auto
termination
  by (relation "measure (\<lambda>x. case x of Inl (m, l) \<Rightarrow> size m | Inr (Inl (ms, l)) \<Rightarrow> size_list size ms
    | Inr (Inr (es, l)) \<Rightarrow> size_list (size_prod size size) es)") auto

declare fits_walk.simps [simp del]

definition message_fits :: "'s message \<Rightarrow> int \<Rightarrow> bool" where
  "message_fits m budget \<longleftrightarrow> fits_walk m budget \<ge> 0"

definition MAX_RECEIVE_TAGS :: nat where "MAX_RECEIVE_TAGS = 8"

fun keywords_of :: "val list \<Rightarrow> symbol list option" where
  "keywords_of [] = Some []"
| "keywords_of (VKeyword k # vs) = map_option ((#) k) (keywords_of vs)"
| "keywords_of (v # vs) = None"

definition collect_receive_tags :: "val \<Rightarrow> symbol list" where
  "collect_receive_tags tags = (case tags of
     VVector items \<Rightarrow>
       (if items = [] \<or> length items > MAX_RECEIVE_TAGS then []
        else (case keywords_of items of Some ks \<Rightarrow> ks | None \<Rightarrow> []))
   | _ \<Rightarrow> [])"

definition tag_rejects :: "symbol list \<Rightarrow> symbol message \<Rightarrow> bool" where
  "tag_rejects tagset m \<longleftrightarrow> tagset \<noteq> [] \<and> (case m of MVector (MKeyword k # _) \<Rightarrow> k \<notin> set tagset | _ \<Rightarrow> False)"

definition payload_rejected :: "symbol list \<Rightarrow> payload \<Rightarrow> bool" where
  "payload_rejected tagset p = (case p of
     PWire m \<Rightarrow> tag_rejects tagset m
   | PLocal _ tag \<Rightarrow> tagset \<noteq> [] \<and> (case tag of Some k \<Rightarrow> k \<notin> set tagset | None \<Rightarrow> False))"

section \<open>The scan\<close>

record ('a, 'e, 'w) receiver =
  matcher :: "payload \<Rightarrow> 'w \<Rightarrow> mailbox_state \<Rightarrow> ('e + 'a option) \<times> 'w \<times> mailbox_state"
  between :: "'w \<Rightarrow> mailbox_state \<Rightarrow> 'w \<times> mailbox_state"
  withdrawn_in :: "'w \<Rightarrow> nat \<Rightarrow> bool"
  recv_mark :: "nat option"
  recv_tags :: "symbol list"
  budget :: int

record cursor =
  pos_ix :: nat
  prev_seq :: "nat option"
  optimistic :: bool
  ntags :: "symbol list option"

datatype ('a, 'e) answer = NoMatch | Matched 'a "envelope option" | Failed 'e

definition reanchor :: "cursor \<Rightarrow> mailbox_state \<Rightarrow> nat" where
  "reanchor cur st = (case prev_seq cur of
     None \<Rightarrow> pos_ix cur
   | Some ps \<Rightarrow>
       (let i = pos_ix cur;
            anchored = (i > 0 \<and> i \<le> length (queue st) \<and> seq (queue st ! (i - 1)) = ps)
        in if anchored then i else partition_point (\<lambda>e. seq e \<le> ps) (queue st)))"

text \<open>Past the rejected messages, dropping the withdrawn ones; \<open>None\<close> when the queue ends first.\<close>

function skip_rejected :: "(nat \<Rightarrow> bool) \<Rightarrow> symbol list \<Rightarrow> nat \<Rightarrow> bool \<Rightarrow> mailbox_state \<Rightarrow> (nat \<times> bool) option \<times> mailbox_state" where
  "skip_rejected withdrawn tagset i skipped st =
     (if i \<ge> length (queue st) then (None, st\<lparr>scanned := length (queue st)\<rparr>)
      else if is_withdrawn withdrawn (queue st ! i) then
        (case remove_at i st of
           Some (env, st') \<Rightarrow> skip_rejected withdrawn tagset i skipped st'
         | None \<Rightarrow> (None, st))
      else if payload_rejected tagset (msg (queue st ! i)) then skip_rejected withdrawn tagset (i + 1) True st
      else (Some (i, skipped), st))"
  by pat_completeness auto
termination
  by (relation "measure (\<lambda>(w, t, i, s, st). length (queue st) - i)") (auto dest!: remove_at_length)

declare skip_rejected.simps [simp del]

definition find_candidate :: "('a, 'e, 'w) receiver \<Rightarrow> 'w \<Rightarrow> cursor \<Rightarrow> mailbox_state \<Rightarrow> cursor option \<times> mailbox_state" where
  "find_candidate E w cur st =
     (let i = reanchor cur st; opt = optimistic cur
      in if i \<ge> length (queue st) then (None, st\<lparr>scanned := length (queue st)\<rparr>)
         else
           (let (i, opt) = (case recv_mark E of
                Some m \<Rightarrow>
                  (if seq (queue st ! i) < m then
                     (let lo = partition_point (\<lambda>e. seq e < m) (queue st) in if lo > i then (lo, False) else (i, opt))
                   else (i, opt))
              | None \<Rightarrow> (i, opt))
            in if i \<ge> length (queue st) then (None, st\<lparr>scanned := length (queue st)\<rparr>)
               else
                 (let tags = (if length (queue st) > 1 \<and> ntags cur = None then Some (recv_tags E) else ntags cur);
                      tagset = (case tags of Some ts \<Rightarrow> ts | None \<Rightarrow> [])
                  in case skip_rejected (withdrawn_in E w) tagset i False st of
                       (None, st) \<Rightarrow> (None, st)
                     | (Some (i, skipped), st) \<Rightarrow>
                         (Some (cur\<lparr>pos_ix := i, optimistic := opt \<and> \<not> skipped, ntags := tags\<rparr>), st))))"

definition too_big :: "int \<Rightarrow> envelope \<Rightarrow> bool" where
  "too_big limit env = (case msg env of PWire m \<Rightarrow> \<not> message_fits m limit | PLocal _ _ \<Rightarrow> False)"

definition is_latest :: "envelope \<Rightarrow> bool" where
  "is_latest env = (case in_lane env of Latest k \<Rightarrow> True | _ \<Rightarrow> False)"

definition superseded_now :: "envelope \<Rightarrow> mailbox_state \<Rightarrow> bool" where
  "superseded_now env st = (case in_lane env of Latest k \<Rightarrow> holds_latest k st | _ \<Rightarrow> False)"

text \<open>Removing a matched message that was left in the queue: by its arrival number, never by the index.\<close>

definition remove_by_seq :: "nat \<Rightarrow> nat \<Rightarrow> mailbox_state \<Rightarrow> (envelope \<times> mailbox_state) option" where
  "remove_by_seq i s st =
     (let at = (\<lambda>j. j < length (queue st) \<and> seq (queue st ! j) = s);
          j = (if at i then i else partition_point (\<lambda>e. seq e < s) (queue st))
      in if at j then remove_at j st else None)"

definition scan_step :: "('a, 'e, 'w) receiver \<Rightarrow> cursor \<Rightarrow> 'w \<Rightarrow> mailbox_state \<Rightarrow>
    (('a, 'e) answer option \<times> cursor \<times> 'w \<times> mailbox_state) option" where
  "scan_step E cur w0 st0 =
     (case between E w0 st0 of (w, st) \<Rightarrow>
      (case find_candidate E w cur st of
         (None, st) \<Rightarrow> Some (Some NoMatch, cur, w, st)
       | (Some cur, st) \<Rightarrow>
          (let i = pos_ix cur; cand = queue st ! i; cand_seq = seq cand
           in case (if optimistic cur \<or> too_big (budget E) cand
                    then map_option (\<lambda>(m, st). (Some m, st)) (remove_at i st) else Some (None, st)) of
                None \<Rightarrow> None
              | Some (popped, st) \<Rightarrow>
                 (case matcher E (msg cand) w st of (answer, w, st) \<Rightarrow>
                  (case answer of
                     Inl e \<Rightarrow>
                       (case popped of
                          Some m \<Rightarrow> map_option (\<lambda>(j, st). (Some (Failed e), cur, w, st)) (reinsert_candidate i m st)
                        | None \<Rightarrow> Some (Some (Failed e), cur, w, st))
                   | Inr (Some a) \<Rightarrow>
                       (case popped of
                          Some env \<Rightarrow>
                            (if superseded_now env st then Some (None, cur\<lparr>prev_seq := Some cand_seq\<rparr>, w, st)
                             else Some (Some (Matched a (Some env)), cur, w, st))
                        | None \<Rightarrow>
                            (case remove_by_seq i cand_seq st of
                               Some (env, st) \<Rightarrow> Some (Some (Matched a (Some env)), cur, w, st)
                             | None \<Rightarrow>
                                 if is_latest cand then Some (None, cur\<lparr>prev_seq := Some cand_seq\<rparr>, w, st)
                                 else Some (Some (Matched a None), cur, w, st)))
                   | Inr None \<Rightarrow>
                       (case popped of
                          Some m \<Rightarrow> map_option (\<lambda>(j, st). (None, cur\<lparr>pos_ix := j + 1, prev_seq := Some cand_seq, optimistic := False\<rparr>, w, st))
                            (reinsert_candidate i m st)
                        | None \<Rightarrow> Some (None, cur\<lparr>pos_ix := i + 1, prev_seq := Some cand_seq\<rparr>, w, st)))))))"

fun scan_loop :: "nat \<Rightarrow> ('a, 'e, 'w) receiver \<Rightarrow> cursor \<Rightarrow> 'w \<Rightarrow> mailbox_state \<Rightarrow> (('a, 'e) answer \<times> 'w \<times> mailbox_state) option" where
  "scan_loop 0 E cur w st = None"
| "scan_loop (Suc fuel) E cur w st = (case scan_step E cur w st of
     None \<Rightarrow> None
   | Some (Some answer, cur, w, st) \<Rightarrow> Some (answer, w, st)
   | Some (None, cur, w, st) \<Rightarrow> scan_loop fuel E cur w st)"

definition scan_mailbox :: "nat \<Rightarrow> ('a, 'e, 'w) receiver \<Rightarrow> nat \<Rightarrow> 'w \<Rightarrow> mailbox_state \<Rightarrow> (('a, 'e) answer \<times> 'w \<times> mailbox_state) option" where
  "scan_mailbox fuel E i w st = scan_loop fuel E \<lparr>pos_ix = i, prev_seq = None, optimistic = True, ntags = None\<rparr> w st"

text \<open>What the consume path records: whether the message came on the priority lane.\<close>

definition note_taken :: "envelope option \<Rightarrow> mailbox \<Rightarrow> mailbox" where
  "note_taken env mb = (case env of
     Some e \<Rightarrow> (if in_lane e = Priority then mb\<lparr>took_priority := True\<rparr> else mb)
   | None \<Rightarrow> mb)"

section \<open>After a scan that found nothing\<close>

text \<open>
  The deadline is the time left. A process that can be suspended is marked waiting, and its timer gets a
  new generation; any other thread waits on the mailbox from index \<open>i\<close> on.
\<close>

datatype after_scan = ReturnNil | Suspend "u64 option" | Block

definition after_no_match :: "nat option \<Rightarrow> bool \<Rightarrow> bool \<Rightarrow> mailbox \<times> nat \<Rightarrow> after_scan \<times> mailbox \<times> nat" where
  "after_no_match deadline in_capture top_level mp =
     (if deadline = Some 0 then (ReturnNil, mp)
      else if in_capture \<and> top_level then
        (case set_status ST_WAITING mp of (mb, parked) \<Rightarrow>
           (case deadline of
              Some d \<Rightarrow> let generation = timer_gen mb + 1 in (Suspend (Some generation), mb\<lparr>timer_gen := generation\<rparr>, parked)
            | None \<Rightarrow> (Suspend None, mb, parked)))
      else (Block, mp))"

text \<open>Whether the thread really waits.\<close>

definition begin_wait :: "nat \<Rightarrow> bool \<Rightarrow> nat option \<Rightarrow> mailbox \<times> nat \<Rightarrow> bool \<times> mailbox \<times> nat" where
  "begin_wait i in_capture deadline mp =
     (if length (queue (state (fst mp))) > i then (False, mp)
      else if in_capture \<and> kill_pending (fst mp) then (False, mp)
      else (case set_status ST_WAITING mp of (mb, parked) \<Rightarrow>
        let st = state mb
        in if wake_pending st then (False, mb\<lparr>state := st\<lparr>wake_pending := False\<rparr>\<rparr>, parked)
           else if deadline = Some 0 then (False, mb, parked)
           else (True, mb\<lparr>state := st\<lparr>cv_waiters := cv_waiters st + 1\<rparr>\<rparr>, parked)))"

definition end_wait :: "mailbox \<times> nat \<Rightarrow> mailbox \<times> nat" where
  "end_wait mp = (case mp of (mb, parked) \<Rightarrow>
     (mb\<lparr>state := (state mb)\<lparr>cv_waiters := cv_waiters (state mb) - 1, wake_pending := False\<rparr>\<rparr>, parked))"

datatype after_wait = KillSignal | MailboxLimit nat nat | Rescan

definition after_wait :: "bool \<Rightarrow> mailbox \<times> nat \<Rightarrow> after_wait \<times> mailbox \<times> nat" where
  "after_wait in_capture mp = (case set_status ST_RUNNING mp of (mb, parked) \<Rightarrow>
     if in_capture \<and> kill_pending mb then (KillSignal, mb, parked)
     else (case take_overflow_hit mb of
        (Some (len, limit), mb) \<Rightarrow> (MailboxLimit len limit, mb, parked)
      | (None, mb) \<Rightarrow> (Rescan, mb, parked)))"

section \<open>Scanning until answered\<close>

text \<open>
  One turn of the wait as the other threads make it: the time left of the deadline at the turn, what they do
  between the scan and the wait, and what they do while the thread is asleep.
\<close>

record nap =
  time_left :: "nat option"
  before :: "mailbox \<times> nat \<Rightarrow> mailbox \<times> nat"
  asleep :: "mailbox \<times> nat \<Rightarrow> mailbox \<times> nat"

definition wait_for_message :: "nat \<Rightarrow> bool \<Rightarrow> nap \<Rightarrow> mailbox \<times> nat \<Rightarrow> mailbox \<times> nat" where
  "wait_for_message i in_capture n mp = (case begin_wait i in_capture (time_left n) (before n mp) of
     (True, mp) \<Rightarrow> end_wait (asleep n mp)
   | (False, mp) \<Rightarrow> mp)"

text \<open>
  The index the scan leaves behind when nothing matched: where it began, when the queue it first found under
  the lock ended there, and otherwise the end of the queue, which is what it records as \<open>scanned\<close>.
\<close>

definition scan_index :: "('a, 'e, 'w) receiver \<Rightarrow> nat \<Rightarrow> 'w \<Rightarrow> mailbox_state \<Rightarrow> mailbox_state \<Rightarrow> nat" where
  "scan_index E i w st st' = (if length (queue (snd (between E w st))) \<le> i then i else scanned st')"

datatype ('a, 'e) ended = Answered 'a "envelope option" | Raises 'e | TimedOut | Suspended "u64 option"
  | Killed | OverLimit nat nat | Rescanning nat

text \<open>
  The scan-and-wait loop, one turn for each nap; when the naps are used up, the thread is about to scan
  again from the index the answer holds.
\<close>

fun scan_until_answered :: "nat \<Rightarrow> ('a, 'e, 'w) receiver \<Rightarrow> bool \<Rightarrow> bool \<Rightarrow> nap list \<Rightarrow> nat \<Rightarrow> 'w \<Rightarrow> mailbox \<times> nat \<Rightarrow>
    (('a, 'e) ended \<times> 'w \<times> mailbox \<times> nat) option" where
  "scan_until_answered fuel E in_capture top_level [] i w mp = Some (Rescanning i, w, mp)"
| "scan_until_answered fuel E in_capture top_level (n # naps) i w (mb, parked) =
     (case scan_mailbox fuel E i w (state mb) of
        None \<Rightarrow> None
      | Some (Matched a env, w, st) \<Rightarrow> Some (Answered a env, w, note_taken env (mb\<lparr>state := st\<rparr>), parked)
      | Some (Failed e, w, st) \<Rightarrow> Some (Raises e, w, mb\<lparr>state := st\<rparr>, parked)
      | Some (NoMatch, w', st) \<Rightarrow>
          (let i = scan_index E i w (state mb) st
           in case after_no_match (time_left n) in_capture top_level (mb\<lparr>state := st\<rparr>, parked) of
                (ReturnNil, mp) \<Rightarrow> Some (TimedOut, w', mp)
              | (Suspend gn, mp) \<Rightarrow> Some (Suspended gn, w', mp)
              | (Block, mp) \<Rightarrow>
                  (case after_wait in_capture (wait_for_message i in_capture n mp) of
                     (KillSignal, mp) \<Rightarrow> Some (Killed, w', mp)
                   | (MailboxLimit len limit, mp) \<Rightarrow> Some (OverLimit len limit, w', mp)
                   | (Rescan, mp) \<Rightarrow> scan_until_answered fuel E in_capture top_level naps i w' mp)))"

end
