(* ===== verification/Receive_Laws.thy ===== *)
theory Receive_Laws
  imports Receive
begin

text \<open>
  What a selective receive promises whatever happens while its matcher runs: it leaves no message behind
  that it should have taken, it takes them in order of arrival, it loses none, and it ends.
\<close>

section \<open>Places in the queue\<close>

text \<open>A message the receive may pass over: older than its mark, of no clause's tag, or declined by the matcher.\<close>

definition unwanted :: "('a, 'e, 'w) receiver \<Rightarrow> envelope \<Rightarrow> bool" where
  "unwanted E e \<longleftrightarrow> (\<exists>m. recv_mark E = Some m \<and> seq e < m) \<or> payload_rejected (recv_tags E) (msg e) \<or>
     (\<exists>w st w' st'. matcher E (msg e) w st = (Inr None, w', st'))"

text \<open>The matcher and the other threads only do what any thread may do to a mailbox.\<close>

definition fair :: "('a, 'e, 'w) receiver \<Rightarrow> bool" where
  "fair E \<longleftrightarrow> (\<forall>p w st a w' st'. mb_inv st \<longrightarrow> matcher E p w st = (a, w', st') \<longrightarrow> touched st st') \<and>
     (\<forall>w st w' st'. mb_inv st \<longrightarrow> between E w st = (w', st') \<longrightarrow> touched st st')"

definition cursor_ok :: "('a, 'e, 'w) receiver \<Rightarrow> cursor \<Rightarrow> mailbox_state \<Rightarrow> bool" where
  "cursor_ok E cur st \<longleftrightarrow>
     (case prev_seq cur of
        None \<Rightarrow> pos_ix cur = 0
      | Some ps \<Rightarrow> ps < next_seq st \<and> (\<forall>e \<in> set (queue st). seq e \<le> ps \<longrightarrow> unwanted E e)) \<and>
     (\<forall>ts. ntags cur = Some ts \<longrightarrow> ts = recv_tags E)"

lemma touched_inv: "touched st st' \<Longrightarrow> mb_inv st'"
  by (simp add: touched_def)

lemma cursor_ok_touched: "cursor_ok E cur st \<Longrightarrow> touched st st' \<Longrightarrow> cursor_ok E cur st'"
  by (auto simp: cursor_ok_def touched_def split: option.splits)

lemma partition_le_nth:
  "by_seq q \<Longrightarrow> j < length q \<Longrightarrow> j < partition_point (\<lambda>e. seq e \<le> ps) q \<longleftrightarrow> seq (q ! j) \<le> ps"
  using partition_point_nth [of q j "Suc ps"] by (simp add: less_Suc_eq_le)

text \<open>Where the scan goes on: everything before is settled, everything after comes later than the last candidate.\<close>

definition place :: "('a, 'e, 'w) receiver \<Rightarrow> nat option \<Rightarrow> nat \<Rightarrow> mailbox_state \<Rightarrow> bool" where
  "place E prev i st \<longleftrightarrow> (\<forall>j < i. j < length (queue st) \<longrightarrow> unwanted E (queue st ! j)) \<and>
     (\<forall>j ps. i \<le> j \<longrightarrow> j < length (queue st) \<longrightarrow> prev = Some ps \<longrightarrow> ps < seq (queue st ! j))"

lemma place_reanchor:
  assumes "mb_inv st" "cursor_ok E cur st"
  shows "place E (prev_seq cur) (reanchor cur st) st"
proof (cases "prev_seq cur")
  case None
  then show ?thesis using assms(2) by (simp add: place_def reanchor_def cursor_ok_def)
next
  case (Some ps)
  note o = mb_invD(1) [OF assms(1)]
  have old: "unwanted E e" if "e \<in> set (queue st)" "seq e \<le> ps" for e
    using assms(2) Some that by (simp add: cursor_ok_def)
  show ?thesis
  proof (cases "pos_ix cur > 0 \<and> pos_ix cur \<le> length (queue st) \<and> seq (queue st ! (pos_ix cur - 1)) = ps")
    case True
    let ?i = "pos_ix cur"
    have r: "reanchor cur st = ?i" using True Some by (simp add: reanchor_def)
    have "seq (queue st ! j) \<le> ps" if "j < ?i" for j
    proof (cases "j = ?i - 1")
      case False
      then have "seq (queue st ! j) < seq (queue st ! (?i - 1))" using True that by (intro by_seq_nth [OF o]) auto
      then show ?thesis using True by simp
    qed (use True in simp)
    moreover have "ps < seq (queue st ! j)" if "?i \<le> j" "j < length (queue st)" for j
      using True that by_seq_nth [OF o, of "?i - 1" j] by auto
    ultimately show ?thesis using r Some old by (auto simp: place_def)
  next
    case False
    then have r: "reanchor cur st = partition_point (\<lambda>e. seq e \<le> ps) (queue st)"
      using Some by (auto simp: reanchor_def Let_def)
    then show ?thesis using Some old partition_le_nth [OF o] by (auto simp: place_def not_less [symmetric])
  qed
qed

text \<open>Skipping to the mark.\<close>

lemma place_mark:
  assumes "mb_inv st" "place E prev i st" "recv_mark E = Some m" "i < length (queue st)" "seq (queue st ! i) < m"
  shows "place E prev (partition_point (\<lambda>e. seq e < m) (queue st)) st" "i < partition_point (\<lambda>e. seq e < m) (queue st)"
proof -
  note p = partition_point_nth [OF mb_invD(1) [OF assms(1)]]
  show i: "i < partition_point (\<lambda>e. seq e < m) (queue st)" using p assms(4,5) by blast
  show "place E prev (partition_point (\<lambda>e. seq e < m) (queue st)) st"
    using assms(2) p i unfolding place_def by (auto simp: unwanted_def assms(3))
qed

lemma place_end: "place E prev i st \<Longrightarrow> length (queue st) \<le> i \<Longrightarrow> e \<in> set (queue st) \<Longrightarrow> unwanted E e"
  by (auto simp: place_def in_set_conv_nth)

definition settled :: "('a, 'e, 'w) receiver \<Rightarrow> mailbox_state \<Rightarrow> bool" where
  "settled E st \<longleftrightarrow> scanned st = length (queue st) \<and> (\<forall>e \<in> set (queue st). unwanted E e)"

lemma place_remove:
  assumes "mb_inv st" "place E prev i st" "remove_at i st = Some (env, st')"
  shows "place E prev i st'"
proof -
  note r = remove_at_Some [OF assms(1,3)]
  have q: "queue st' = take i (queue st) @ drop (Suc i) (queue st)"
    using r(2,4) by_seq_remove [OF mb_invD(1) [OF assms(1)] r(1)] by simp
  have "queue st' ! j = queue st ! j" if "j < i" for j using that r(1) by (simp add: q nth_append)
  moreover have "queue st' ! j = queue st ! Suc j" if "i \<le> j" "j < length (queue st')" for j
    using that r(1) by (simp add: q nth_append min_def)
  moreover have "length (queue st) = Suc (length (queue st'))" using remove_at_length [OF assms(3)] .
  moreover have "unwanted E (queue st ! j)" if "j < i" "j < length (queue st)" for j
    using assms(2) that by (simp add: place_def)
  moreover have "ps < seq (queue st ! Suc j)" if "i \<le> j" "Suc j < length (queue st)" "prev = Some ps" for j ps
    using assms(2) that by (simp add: place_def)
  ultimately show ?thesis unfolding place_def by auto
qed

lemma skip_rejected_ok:
  assumes "mb_inv st" "place E prev i st" "tagset = [] \<or> tagset = recv_tags E"
    "skip_rejected withdrawn tagset i skipped st = (r, st')"
  shows "touched st st' \<and> (case r of None \<Rightarrow> settled E st' | Some (k, b) \<Rightarrow> k < length (queue st') \<and> place E prev k st')"
  using assms
proof (induction withdrawn tagset i skipped st arbitrary: r st' rule: skip_rejected.induct)
  case (1 withdrawn tagset i skipped st)
  show ?case
  proof (cases "length (queue st) \<le> i")
    case True
    then have "r = None" "st' = st\<lparr>scanned := length (queue st)\<rparr>"
      using "1.prems"(4) by (simp_all add: skip_rejected.simps [of _ _ i])
    then show ?thesis using "1.prems"(1) place_end [OF "1.prems"(2) True] by (simp add: touched_refl settled_def)
  next
    case in_queue: False
    then have lt: "i < length (queue st)" by simp
    show ?thesis
    proof (cases "is_withdrawn withdrawn (queue st ! i)")
      case True
      obtain st1 where st1: "remove_at i st = Some (queue st ! i, st1)"
        using remove_at_eq [OF "1.prems"(1) lt] by blast
      have inv1: "mb_inv st1" and t1: "touched st st1"
        using remove_at_Some(3) [OF "1.prems"(1) st1] touched_remove [OF "1.prems"(1) st1] by auto
      have "skip_rejected withdrawn tagset i skipped st1 = (r, st')"
        using "1.prems"(4) in_queue True st1 by (subst (asm) skip_rejected.simps) simp
      from "1.IH"(1) [OF in_queue True st1 refl inv1 place_remove [OF "1.prems"(1,2) st1] "1.prems"(3) this] t1
      show ?thesis using touched_trans by blast
    next
      case kept: False
      show ?thesis
      proof (cases "payload_rejected tagset (msg (queue st ! i))")
        case True
        then have "tagset = recv_tags E" using "1.prems"(3) 
          by (auto simp: payload_rejected_def tag_rejects_def split: payload.splits)
        then have "unwanted E (queue st ! i)" using True by (simp add: unwanted_def)
        then have "place E prev (i + 1) st" using "1.prems"(2) by (auto simp: place_def less_Suc_eq)
        moreover have "skip_rejected withdrawn tagset (i + 1) True st = (r, st')"
          using "1.prems"(4) in_queue kept True by (subst (asm) skip_rejected.simps) simp
        ultimately show ?thesis using "1.IH"(2) [OF in_queue kept True "1.prems"(1) _ "1.prems"(3)] by blast
      next
        case False
        then have "r = Some (i, skipped)" "st' = st"
          using "1.prems"(4) in_queue kept by (simp_all add: skip_rejected.simps [of _ _ i])
        then show ?thesis using "1.prems"(1,2) lt by (simp add: touched_refl)
      qed
    qed
  qed
qed

lemma find_candidate_ok:
  assumes "mb_inv st" "cursor_ok E cur st" "find_candidate E w cur st = (r, st')"
  shows "touched st st' \<and> (case r of None \<Rightarrow> settled E st'
    | Some cur' \<Rightarrow> pos_ix cur' < length (queue st') \<and> place E (prev_seq cur) (pos_ix cur') st' \<and>
        prev_seq cur' = prev_seq cur \<and> (\<forall>ts. ntags cur' = Some ts \<longrightarrow> ts = recv_tags E))"
proof -
  define i where "i = reanchor cur st"
  have pi: "place E (prev_seq cur) i st" unfolding i_def by (rule place_reanchor [OF assms(1,2)])
  show ?thesis
  proof (cases "length (queue st) \<le> i")
    case True
    then have "r = None" "st' = st\<lparr>scanned := length (queue st)\<rparr>"
      using assms(3) by (simp_all add: find_candidate_def i_def Let_def)
    then show ?thesis using assms(1) place_end [OF pi True] by (simp add: touched_refl settled_def)
  next
    case lt: False
    define k where "k = (case recv_mark E of Some m \<Rightarrow>
        (if seq (queue st ! i) < m then
           (let lo = partition_point (\<lambda>e. seq e < m) (queue st) in if lo > i then (lo, False) else (i, optimistic cur))
         else (i, optimistic cur))
      | None \<Rightarrow> (i, optimistic cur))"
    have pk: "place E (prev_seq cur) (fst k) st"
      using pi place_mark [OF assms(1) pi] lt by (auto simp: k_def Let_def split: option.split)
    define tags where "tags = (if length (queue st) > 1 \<and> ntags cur = None then Some (recv_tags E) else ntags cur)"
    define tagset where "tagset = (case tags of Some ts \<Rightarrow> ts | None \<Rightarrow> [])"
    have tg: "\<forall>ts. tags = Some ts \<longrightarrow> ts = recv_tags E" using assms(2) by (simp add: tags_def cursor_ok_def)
    then have ts: "tagset = [] \<or> tagset = recv_tags E" by (auto simp: tagset_def split: option.split)
    have eq: "find_candidate E w cur st =
      (if length (queue st) \<le> fst k then (None, st\<lparr>scanned := length (queue st)\<rparr>)
       else (case skip_rejected (withdrawn_in E w) tagset (fst k) False st of
           (None, st) \<Rightarrow> (None, st)
         | (Some (i, skipped), st) \<Rightarrow> (Some (cur\<lparr>pos_ix := i, optimistic := snd k \<and> \<not> skipped, ntags := tags\<rparr>), st)))"
      using lt unfolding find_candidate_def Let_def i_def [symmetric] k_def [unfolded Let_def, symmetric]
        tags_def [symmetric] tagset_def [symmetric]
      by (simp add: split_beta)
    show ?thesis
    proof (cases "length (queue st) \<le> fst k")
      case True
      then have "r = None" "st' = st\<lparr>scanned := length (queue st)\<rparr>" using assms(3) eq by simp_all
      then show ?thesis using assms(1) place_end [OF pk True] by (simp add: touched_refl settled_def)
    next
      case False
      obtain sr st1 where sk: "skip_rejected (withdrawn_in E w) tagset (fst k) False st = (sr, st1)" by fastforce
      note ok = skip_rejected_ok [OF assms(1) pk ts sk]
      show ?thesis
      proof (cases sr)
        case None
        then show ?thesis using ok assms(3) False sk by (simp add: eq)
      next
        case (Some kb)
        then obtain n b where "sr = Some (n, b)" by (cases kb) auto
        then show ?thesis using ok assms(3) False sk tg by (auto simp: eq)
      qed
    qed
  qed
qed

text \<open>A message taken out of the queue meets no message of its arrival number there again.\<close>

lemma popped_out:
  assumes "mb_inv st" "remove_at i st = Some (m, st1)" "touched st1 st2"
  shows "m \<in> set (queue st)" "\<forall>x \<in> set (queue st2). seq x \<noteq> seq m" "seq m < next_seq st2"
    "x \<in> set (queue st2) \<Longrightarrow> seq x < seq m \<Longrightarrow> x \<in> set (queue st)"
proof -
  note r = remove_at_Some [OF assms(1,2)]
  show m: "m \<in> set (queue st)" using r(1,2) by simp
  then have lt: "seq m < next_seq st1" using mb_invD(2) [OF assms(1) m] r(5) by simp
  then show "\<forall>x \<in> set (queue st2). seq x \<noteq> seq m" using assms(3) r(4) by (fastforce simp: touched_def)
  show "seq m < next_seq st2" using lt assms(3) by (simp add: touched_def)
  show "x \<in> set (queue st)" if "x \<in> set (queue st2)" "seq x < seq m"
    using that assms(3) r(4) lt by (fastforce simp: touched_def)
qed

lemma remove_by_seq_eq:
  assumes "mb_inv st"
  shows "remove_by_seq i s st = None \<longleftrightarrow> (\<forall>x \<in> set (queue st). seq x \<noteq> s)"
    "remove_by_seq i s st = Some (env, st') \<Longrightarrow> env \<in> set (queue st) \<and> seq env = s \<and> touched st st' \<and>
      queue st' = filter (\<lambda>x. seq x \<noteq> s) (queue st)"
proof -
  let ?at = "\<lambda>j. j < length (queue st) \<and> seq (queue st ! j) = s"
  define j where "j = (if ?at i then i else partition_point (\<lambda>e. seq e < s) (queue st))"
  have r: "remove_by_seq i s st = (if ?at j then remove_at j st else None)"
    by (simp add: remove_by_seq_def Let_def j_def)
  have find: "?at j" if "x \<in> set (queue st)" "seq x = s" for x
    using that partition_point_find [OF mb_invD(1) [OF assms]] by (fastforce simp: in_set_conv_nth j_def)
  have some: "remove_at j st \<noteq> None" if "?at j" using remove_at_eq [OF assms, of j] that by auto
  show "remove_by_seq i s st = None \<longleftrightarrow> (\<forall>x \<in> set (queue st). seq x \<noteq> s)"
  proof
    assume "remove_by_seq i s st = None"
    then have "\<not> ?at j" using some unfolding r by (metis (no_types, lifting))
    then show "\<forall>x \<in> set (queue st). seq x \<noteq> s" using find by blast
  next
    assume "\<forall>x \<in> set (queue st). seq x \<noteq> s"
    then have "\<not> ?at j" by auto
    then show "remove_by_seq i s st = None" unfolding r by auto
  qed
  assume "remove_by_seq i s st = Some (env, st')"
  then have "?at j" and ra: "remove_at j st = Some (env, st')" unfolding r by (simp_all split: if_splits)
  then show "env \<in> set (queue st) \<and> seq env = s \<and> touched st st' \<and> queue st' = filter (\<lambda>x. seq x \<noteq> s) (queue st)"
    using remove_at_Some [OF assms ra] touched_remove [OF assms ra] by simp
qed

section \<open>One step of the scan\<close>

text \<open>What a step of the scan from \<open>st\<close> may end in.\<close>

definition step_ok :: "('a, 'e, 'w) receiver \<Rightarrow> cursor \<Rightarrow> mailbox_state \<Rightarrow> ('a, 'e) answer option \<Rightarrow> cursor \<Rightarrow> mailbox_state \<Rightarrow> bool" where
  "step_ok E cur st out cur' st' \<longleftrightarrow> touched st st' \<and>
     (case out of
        None \<Rightarrow> cursor_ok E cur' st' \<and> (\<exists>s. prev_seq cur' = Some s \<and> (\<forall>ps. prev_seq cur = Some ps \<longrightarrow> ps < s))
      | Some NoMatch \<Rightarrow> settled E st'
      | Some (Matched a (Some e)) \<Rightarrow>
          (\<exists>w st. fst (matcher E (msg e) w st) = Inr (Some a)) \<and>
          (\<forall>x \<in> set (queue st'). seq x \<noteq> seq e \<and> (seq x < seq e \<longrightarrow> unwanted E x)) \<and> \<not> superseded_now e st'
      | _ \<Rightarrow> True)"

text \<open>The candidate of a step: it is queued, everything before it is settled, it comes after the last one.\<close>

definition at_candidate :: "('a, 'e, 'w) receiver \<Rightarrow> cursor \<Rightarrow> cursor \<Rightarrow> mailbox_state \<Rightarrow> bool" where
  "at_candidate E cur c st \<longleftrightarrow> mb_inv st \<and> pos_ix c < length (queue st) \<and>
     (\<forall>x \<in> set (queue st). seq x < seq (queue st ! pos_ix c) \<longrightarrow> unwanted E x) \<and>
     (\<forall>ps. prev_seq cur = Some ps \<longrightarrow> ps < seq (queue st ! pos_ix c)) \<and>
     (\<forall>ts. ntags c = Some ts \<longrightarrow> ts = recv_tags E)"

lemma at_candidateI:
  assumes "mb_inv st" "cursor_ok E cur st" "find_candidate E w cur st = (Some c, st')"
  shows "at_candidate E cur c st' \<and> touched st st'"
proof -
  note f = find_candidate_ok [OF assms]
  then have inv: "mb_inv st'" and p: "place E (prev_seq cur) (pos_ix c) st'" by (simp_all add: touched_def)
  have "unwanted E x" if "x \<in> set (queue st')" "seq x < seq (queue st' ! pos_ix c)" for x
    using that p f by (auto simp: in_set_conv_nth place_def by_seq_nth_iff [OF mb_invD(1) [OF inv]])
  then show ?thesis using f p inv by (auto simp: at_candidate_def place_def)
qed

text \<open>After the matcher ran on the candidate, what is queued before it is still settled.\<close>

lemma settled_before:
  assumes "at_candidate E cur c st" "touched st st'" "x \<in> set (queue st')" "seq x < seq (queue st ! pos_ix c)"
  shows "unwanted E x"
proof -
  have "seq (queue st ! pos_ix c) < next_seq st"
    using assms(1) mb_invD(2) [of st "queue st ! pos_ix c"] by (simp add: at_candidate_def)
  then have "x \<in> set (queue st)" using assms(2-) by (fastforce simp: touched_def)
  then show ?thesis using assms(1,4) by (simp add: at_candidate_def)
qed

lemma cursor_after:
  assumes "at_candidate E cur c st" "touched st st'"
    "\<And>x. x \<in> set (queue st') \<Longrightarrow> seq x = seq (queue st ! pos_ix c) \<Longrightarrow> unwanted E x"
    "prev_seq c' = Some (seq (queue st ! pos_ix c))" "ntags c' = ntags c"
  shows "step_ok E cur st None c' st'"
proof -
  have "seq (queue st ! pos_ix c) < next_seq st"
    using assms(1) mb_invD(2) [of st "queue st ! pos_ix c"] by (simp add: at_candidate_def)
  moreover have "unwanted E x" if "x \<in> set (queue st')" "seq x \<le> seq (queue st ! pos_ix c)" for x
    using that settled_before [OF assms(1,2)] assms(3) by (cases "seq x = seq (queue st ! pos_ix c)") auto
  ultimately show ?thesis using assms by (auto simp: step_ok_def cursor_ok_def touched_def at_candidate_def)
qed

lemma step_ok_trans: "touched st0 st \<Longrightarrow> step_ok E cur st out cur' st' \<Longrightarrow> step_ok E cur st0 out cur' st'"
  unfolding step_ok_def using touched_trans by blast

lemma reinsert_touched:
  assumes "mb_inv st" "remove_at i st = Some (m, st1)" "touched st1 st2"
  shows "\<exists>j st'. reinsert_candidate i m st2 = Some (j, st') \<and> touched st st' \<and>
    (\<forall>x \<in> set (queue st'). seq x = seq m \<longrightarrow> x = m)"
proof -
  note out = popped_out [OF assms]
  have inv2: "mb_inv st2" using assms(3) by (rule touched_inv)
  from reinsert_candidate_eq [OF inv2 out(2,3), of i] obtain j st' where r:
    "reinsert_candidate i m st2 = Some (j, st')" "mb_inv st'" "next_seq st' = next_seq st2"
    "set (queue st') \<subseteq> insert m (set (queue st2))"
    by (auto split: if_splits) fastforce
  have "touched st st2" using touched_trans [OF touched_remove [OF assms(1,2)] assms(3)] .
  then have "touched st st'" using r out(1) by (auto simp: touched_def)
  then show ?thesis using r out(2) by blast
qed

lemma scan_step_popped:
  assumes "fair E" "at_candidate E cur c st" "optimistic c \<or> too_big (budget E) (queue st ! pos_ix c)"
    "find_candidate E w cur st0 = (Some c, st)" "between E w0 s0 = (w, st0)"
  shows "\<exists>out cur' w' st'. scan_step E cur w0 s0 = Some (out, cur', w', st') \<and> step_ok E cur st out cur' st'"
proof -
  let ?i = "pos_ix c" and ?m = "queue st ! pos_ix c"
  have inv: "mb_inv st" "?i < length (queue st)" using assms(2) by (simp_all add: at_candidate_def)
  obtain st1 where rem: "remove_at ?i st = Some (?m, st1)" "mb_inv st1" using remove_at_eq [OF inv] by blast
  obtain ans w' st2 where mt: "matcher E (msg ?m) w st1 = (ans, w', st2)" by (metis prod_cases3)
  then have t2: "touched st1 st2" using assms(1) rem(2) by (auto simp: fair_def)
  have t: "touched st st2" using touched_trans [OF touched_remove [OF inv(1) rem(1)] t2] .
  obtain j st3 where re: "reinsert_candidate ?i ?m st2 = Some (j, st3)" "touched st st3"
    "\<forall>x \<in> set (queue st3). seq x = seq ?m \<longrightarrow> x = ?m"
    using reinsert_touched [OF inv(1) rem(1) t2] by blast
  note out = popped_out [OF inv(1) rem(1) t2]
  note eqs = scan_step_def assms(3,4,5) Let_def rem(1) mt re(1)
  consider e where "ans = Inl e" | a where "ans = Inr (Some a)" "superseded_now ?m st2"
    | a where "ans = Inr (Some a)" "\<not> superseded_now ?m st2" | "ans = Inr None"
    by (metis old.sum.exhaust option.exhaust)
  then show ?thesis
  proof cases
    case 1
    then show ?thesis using assms(3) re(2) by (simp add: eqs step_ok_def)
  next
    case (2 a)
    have "step_ok E cur st None (c\<lparr>prev_seq := Some (seq ?m)\<rparr>) st2"
      by (rule cursor_after [OF assms(2) t]) (use out(2) in auto)
    then show ?thesis using assms(3) 2 by (simp add: eqs)
  next
    case (3 a)
    have "fst (matcher E (msg ?m) w st1) = Inr (Some a)" using mt 3 by simp
    then have "step_ok E cur st (Some (Matched a (Some ?m))) c st2"
      using t out(2) settled_before [OF assms(2) t] 3(2) by (auto simp: step_ok_def)
    then show ?thesis using assms(3) 3 by (simp add: eqs)
  next
    case 4
    have "unwanted E ?m" using mt 4 by (auto simp: unwanted_def)
    then have "step_ok E cur st None (c\<lparr>pos_ix := j + 1, prev_seq := Some (seq ?m), optimistic := False\<rparr>) st3"
      by (intro cursor_after [OF assms(2) re(2)]) (use re(3) in auto)
    then show ?thesis using assms(3) 4 by (simp add: eqs)
  qed
qed

lemma scan_step_peeked:
  assumes "fair E" "at_candidate E cur c st" "\<not> (optimistic c \<or> too_big (budget E) (queue st ! pos_ix c))"
    "find_candidate E w cur st0 = (Some c, st)" "between E w0 s0 = (w, st0)"
  shows "\<exists>out cur' w' st'. scan_step E cur w0 s0 = Some (out, cur', w', st') \<and> step_ok E cur st out cur' st'"
proof -
  let ?i = "pos_ix c" and ?m = "queue st ! pos_ix c"
  have inv: "mb_inv st" "?m \<in> set (queue st)" using assms(2) by (simp_all add: at_candidate_def)
  obtain ans w' st2 where mt: "matcher E (msg ?m) w st = (ans, w', st2)" by (metis prod_cases3)
  then have t: "touched st st2" using assms(1) inv(1) by (auto simp: fair_def)
  then have inv2: "mb_inv st2" by (rule touched_inv)
  have old: "x \<in> set (queue st)" if "x \<in> set (queue st2)" "seq x \<le> seq ?m" for x
    using that t mb_invD(2) [OF inv] by (fastforce simp: touched_def)
  have same: "x = ?m" if "x \<in> set (queue st2)" "seq x = seq ?m" for x
    using that old by_seq_inj [OF mb_invD(1) [OF inv(1)] _ inv(2)] by simp
  note eqs = scan_step_def assms(4,5) Let_def mt
  consider e where "ans = Inl e" | "ans = Inr None"
    | a where "ans = Inr (Some a)" "remove_by_seq ?i (seq ?m) st2 = None"
    | a env st3 where "ans = Inr (Some a)" "remove_by_seq ?i (seq ?m) st2 = Some (env, st3)"
    by (metis old.sum.exhaust option.exhaust prod.exhaust)
  then show ?thesis
  proof cases
    case 1
    then show ?thesis using assms(3) t by (simp add: eqs step_ok_def)
  next
    case 2
    have "unwanted E ?m" using mt 2 by (auto simp: unwanted_def)
    then have "step_ok E cur st None (c\<lparr>pos_ix := ?i + 1, prev_seq := Some (seq ?m)\<rparr>) st2"
      by (intro cursor_after [OF assms(2) t]) (use same in auto)
    then show ?thesis using assms(3) 2 by (simp add: eqs)
  next
    case (3 a)
    then have gone: "\<forall>x \<in> set (queue st2). seq x \<noteq> seq ?m" using remove_by_seq_eq(1) [OF inv2] by simp
    have "step_ok E cur st None (c\<lparr>prev_seq := Some (seq ?m)\<rparr>) st2"
      by (rule cursor_after [OF assms(2) t]) (use gone in auto)
    moreover have "step_ok E cur st (Some (Matched a None)) c st2" using t by (simp add: step_ok_def)
    ultimately show ?thesis using assms(3) 3 by (simp add: eqs)
  next
    case (4 a env st3)
    note r = remove_by_seq_eq(2) [OF inv2 4(2)]
    then have env: "env = ?m" using same by blast
    have t3: "touched st st3" using r touched_trans [OF t] by blast
    have "fst (matcher E (msg ?m) w st) = Inr (Some a)" using mt 4(1) by simp
    moreover have "\<not> superseded_now ?m st3"
    proof
      assume "superseded_now ?m st3"
      then obtain k where k: "in_lane ?m = Latest k" "holds_latest k st3" by (auto simp: superseded_now_def split: lane.splits)
      then obtain x where "x \<in> set (queue st3)" "in_lane x = Latest k"
        using mb_invD(4) [OF touched_inv [OF t3], of k] by (auto simp: holds_latest_def)
      moreover have "?m \<in> set (queue st2)" "\<forall>x \<in> set (queue st3). x \<in> set (queue st2) \<and> seq x \<noteq> seq ?m" using r env by auto
      ultimately show False using latest_unique [OF inv2, of x ?m k] k(1) by auto
    qed
    moreover have "seq x \<noteq> seq ?m \<and> (seq x < seq ?m \<longrightarrow> unwanted E x)" if "x \<in> set (queue st3)" for x
      using that r settled_before [OF assms(2) t3] by auto
    ultimately have "step_ok E cur st (Some (Matched a (Some ?m))) c st3"
      using t3 by (auto simp: step_ok_def)
    then show ?thesis using assms(3) 4 env by (simp add: eqs)
  qed
qed

lemma scan_step_ok:
  assumes "fair E" "mb_inv st" "cursor_ok E cur st"
  shows "\<exists>out cur' w' st'. scan_step E cur w st = Some (out, cur', w', st') \<and> step_ok E cur st out cur' st'"
proof -
  obtain w1 st1 where b: "between E w st = (w1, st1)" by fastforce
  have t1: "touched st st1" using assms(1,2) b by (auto simp: fair_def)
  have c1: "mb_inv st1" "cursor_ok E cur st1" using touched_inv [OF t1] cursor_ok_touched [OF assms(3) t1] by auto
  obtain r st2 where f: "find_candidate E w1 cur st1 = (r, st2)" by fastforce
  show ?thesis
  proof (cases r)
    case None
    then have "touched st st2" "settled E st2" using find_candidate_ok [OF c1 f] touched_trans [OF t1] by auto
    then show ?thesis using b f None by (simp add: scan_step_def step_ok_def)
  next
    case (Some c)
    then have f: "find_candidate E w1 cur st1 = (Some c, st2)" using f by simp
    note a = at_candidateI [OF c1 f]
    then have t: "touched st st2" using touched_trans [OF t1] by blast
    have "\<exists>out cur' w' st'. scan_step E cur w st = Some (out, cur', w', st') \<and> step_ok E cur st2 out cur' st'"
      using scan_step_popped [OF assms(1) conjunct1 [OF a] _ f b] scan_step_peeked [OF assms(1) conjunct1 [OF a] _ f b] by blast
    then show ?thesis using step_ok_trans [OF t] by blast
  qed
qed

section \<open>The whole scan\<close>

lemma scan_loop_ok:
  assumes "fair E" "mb_inv st" "cursor_ok E cur st" "scan_loop fuel E cur w st = Some (ans, w', st')"
  shows "step_ok E c st (Some ans) c' st'"
  using assms
proof (induction fuel arbitrary: cur w st)
  case (Suc fuel)
  obtain out cur1 w1 st1 where s: "scan_step E cur w st = Some (out, cur1, w1, st1)" "step_ok E cur st out cur1 st1"
    using scan_step_ok [OF Suc.prems(1-3)] by blast
  have t: "touched st st1" using s(2) by (simp add: step_ok_def)
  show ?case
  proof (cases out)
    case None
    then have "step_ok E c st1 (Some ans) c' st'"
      using Suc.IH [OF Suc.prems(1) touched_inv [OF t], of cur1 w1] Suc.prems(4) s by (simp add: step_ok_def)
    then show ?thesis by (rule step_ok_trans [OF t])
  next
    case (Some a)
    then have "a = ans" "st1 = st'" using Suc.prems(4) s(1) by simp_all
    then show ?thesis using s(2) Some by (simp add: step_ok_def)
  qed
qed simp

lemma cursor_start: "cursor_ok E \<lparr>pos_ix = 0, prev_seq = None, optimistic = True, ntags = None\<rparr> st"
  by (simp add: cursor_ok_def)

lemma scan_mailbox_ok:
  "fair E \<Longrightarrow> mb_inv st \<Longrightarrow> scan_mailbox fuel E 0 w st = Some (ans, w', st') \<Longrightarrow> step_ok E c st (Some ans) c' st'"
  unfolding scan_mailbox_def by (rule scan_loop_ok [OF _ _ cursor_start])

text \<open>A nested receive is itself something a thread may do to the mailbox.\<close>

lemma touched_scan: "fair E \<Longrightarrow> mb_inv st \<Longrightarrow> scan_mailbox fuel E 0 w st = Some (ans, w', st') \<Longrightarrow> touched st st'"
  using scan_mailbox_ok by (fastforce simp: step_ok_def)

section \<open>Termination\<close>

lemma remove_at_next: "remove_at i st = Some (e, st') \<Longrightarrow> next_seq st' = next_seq st"
  by (auto simp: remove_at_def split: bind_splits)

lemma skip_rejected_next: "skip_rejected withdrawn tagset i skipped st = (r, st') \<Longrightarrow> next_seq st' = next_seq st"
proof (induction withdrawn tagset i skipped st arbitrary: r st' rule: skip_rejected.induct)
  case (1 withdrawn tagset i skipped st)
  show ?case
    by (use "1.prems" in \<open>subst (asm) skip_rejected.simps\<close>)
      (use "1.IH" in \<open>fastforce split: if_splits option.splits prod.splits dest: remove_at_next\<close>)
qed

lemma find_candidate_next: "find_candidate E w cur st = (r, st') \<Longrightarrow> next_seq st' = next_seq st"
  by (auto simp: find_candidate_def Let_def split: if_splits option.splits prod.splits dest!: skip_rejected_next)

lemma reinsert_next: "reinsert_candidate i m st = Some (j, st') \<Longrightarrow> next_seq st' = next_seq st"
  by (auto simp: reinsert_candidate_def reinsert_at_seq_def insert_at_def Let_def split: if_splits bind_splits lane.splits)

lemma remove_by_seq_next: "remove_by_seq i s st = Some (e, st') \<Longrightarrow> next_seq st' = next_seq st"
  by (auto simp: remove_by_seq_def Let_def split: if_splits dest: remove_at_next)

text \<open>No more than \<open>N\<close> messages ever arrive.\<close>

definition arrivals_within :: "nat \<Rightarrow> ('a, 'e, 'w) receiver \<Rightarrow> bool" where
  "arrivals_within N E \<longleftrightarrow>
     (\<forall>p w st a w' st'. matcher E p w st = (a, w', st') \<longrightarrow> next_seq st \<le> N \<longrightarrow> next_seq st' \<le> N) \<and>
     (\<forall>w st w' st'. between E w st = (w', st') \<longrightarrow> next_seq st \<le> N \<longrightarrow> next_seq st' \<le> N)"

lemma scan_step_within:
  assumes "arrivals_within N E" "next_seq st \<le> N" "scan_step E cur w st = Some (out, cur', w', st')"
  shows "next_seq st' \<le> N"
proof -
  obtain w1 st1 where b: "between E w st = (w1, st1)" by fastforce
  obtain r st2 where f: "find_candidate E w1 cur st1 = (r, st2)" by fastforce
  have n2: "next_seq st2 \<le> N" using assms(1,2) b find_candidate_next [OF f] by (auto simp: arrivals_within_def)
  show ?thesis
  proof (cases r)
    case None
    then show ?thesis using assms(3) b f n2 by (simp add: scan_step_def)
  next
    case (Some c)
    let ?pop = "if optimistic c \<or> too_big (budget E) (queue st2 ! pos_ix c)
      then map_option (\<lambda>(m, st). (Some m, st)) (remove_at (pos_ix c) st2) else Some (None, st2)"
    obtain popped st3 where p: "?pop = Some (popped, st3)" using assms(3) b f Some by (cases ?pop) (auto simp: scan_step_def Let_def)
    then have n3: "next_seq st3 \<le> N" using n2 by (auto split: if_splits dest: remove_at_next)
    obtain a w4 st4 where m: "matcher E (msg (queue st2 ! pos_ix c)) w1 st3 = (a, w4, st4)" by (metis prod_cases3)
    then have "next_seq st4 \<le> N" using assms(1) n3 by (auto simp: arrivals_within_def)
    then show ?thesis using assms(3) b f Some m
      by (auto simp: scan_step_def Let_def p dest!: reinsert_next remove_by_seq_next split: sum.splits option.splits if_splits)
  qed
qed

definition level :: "cursor \<Rightarrow> nat" where
  "level cur = (case prev_seq cur of None \<Rightarrow> 0 | Some s \<Rightarrow> Suc s)"

lemma scan_loop_ends:
  assumes "fair E" "arrivals_within N E" "mb_inv st" "cursor_ok E cur st" "next_seq st \<le> N" "N + 1 \<le> fuel + level cur" "0 < fuel"
  shows "scan_loop fuel E cur w st \<noteq> None"
  using assms
proof (induction fuel arbitrary: cur w st)
  case (Suc fuel)
  obtain out cur1 w1 st1 where s: "scan_step E cur w st = Some (out, cur1, w1, st1)" "step_ok E cur st out cur1 st1"
    using scan_step_ok [OF Suc.prems(1,3,4)] by blast
  show ?case
  proof (cases out)
    case None
    then have c1: "cursor_ok E cur1 st1" "touched st st1" using s(2) by (simp_all add: step_ok_def)
    obtain n where n: "prev_seq cur1 = Some n" "\<forall>ps. prev_seq cur = Some ps \<longrightarrow> ps < n" using s(2) None by (auto simp: step_ok_def)
    have n1: "next_seq st1 \<le> N" by (rule scan_step_within [OF Suc.prems(2,5) s(1)])
    have "n < N" using n1 c1(1) n(1) by (simp add: cursor_ok_def)
    have "level cur < level cur1" using n by (auto simp: level_def split: option.split)
    then have "N + 1 \<le> fuel + level cur1" using Suc.prems(6) by simp
    moreover have "level cur1 \<le> N" using \<open>n < N\<close> n(1) by (simp add: level_def)
    ultimately show ?thesis using Suc.IH [OF Suc.prems(1,2) touched_inv [OF c1(2)] c1(1) n1] None s(1) by simp
  next
    case (Some a)
    then show ?thesis using s(1) by simp
  qed
qed simp

end
