(* ===== verification/Selective_Receive.thy ===== *)
theory Selective_Receive
  imports Receive_Laws
begin

text \<open>
  What a process may rely on when it receives (\<open>process/mailbox.rs\<close>): nothing matchable is left behind, messages
  are taken in order of arrival whatever runs meanwhile, the scan ends, and with nobody else at the
  mailbox it is a search for the first wanted message.
\<close>

section \<open>A scan nobody disturbs\<close>

lemma by_seq_split: "by_seq q \<Longrightarrow> m \<in> set q \<Longrightarrow> filter (\<lambda>x. seq x < seq m) q @ m # filter (\<lambda>x. seq m < seq x) q = q"
proof (induction q)
  case (Cons e q)
  have *: "\<forall>x \<in> set q. seq e < seq x" "by_seq q" using Cons.prems(1) by (simp_all add: by_seq_Cons)
  show ?case
  proof (cases "m = e")
    case True
    then have "filter (\<lambda>x. seq x < seq m) q = []" "filter (\<lambda>x. seq m < seq x) q = q"
      using * by (auto simp: filter_empty_conv filter_id_conv)
    then show ?thesis using True by simp
  next
    case False
    then have m: "m \<in> set q" using Cons.prems(2) by simp
    then have "seq e < seq m" using * by blast
    then show ?thesis using Cons.IH [OF *(2) m] by simp
  qed
qed simp

text \<open>The matcher is a function of the message, and neither it nor another thread touches the mailbox.\<close>

definition quiet :: "('a, 'e, 'w) receiver \<Rightarrow> (payload \<Rightarrow> 'a option) \<Rightarrow> bool" where
  "quiet E f \<longleftrightarrow> matcher E = (\<lambda>p w st. (Inr (f p), w, st)) \<and> between E = Pair \<and> withdrawn_in E = (\<lambda>w n. False)"

definition quiet_receiver :: "(payload \<Rightarrow> 'a option) \<Rightarrow> nat option \<Rightarrow> symbol list \<Rightarrow> ('a, 'e, 'w) receiver" where
  "quiet_receiver f mark tags = \<lparr>matcher = (\<lambda>p w st. (Inr (f p), w, st)), between = Pair,
     withdrawn_in = (\<lambda>w n. False), recv_mark = mark, recv_tags = tags, budget = 65536\<rparr>"

lemma quiet_fair: "quiet E f \<Longrightarrow> fair E"
  by (auto simp: quiet_def fair_def touched_refl)

lemma quiet_fair_receiver: "fair (quiet_receiver f mark tags)"
  by (rule quiet_fair) (simp add: quiet_def quiet_receiver_def)

lemma skip_rejected_quiet:
  "skip_rejected (\<lambda>n. False) tagset i skipped st = (r, st') \<Longrightarrow> queue st' = queue st \<and> (r \<noteq> None \<longrightarrow> st' = st)"
proof (induction "\<lambda>n::nat. False" tagset i skipped st arbitrary: r st' rule: skip_rejected.induct)
  case (1 tagset i skipped st)
  have w: "\<not> is_withdrawn (\<lambda>n. False) e" for e by (simp add: is_withdrawn_def split: option.split)
  show ?case
    by (use "1.prems" in \<open>subst (asm) skip_rejected.simps\<close>)
      (use "1.hyps"(2) w in \<open>auto split: if_splits\<close>)
qed

lemma find_candidate_quiet:
  assumes "withdrawn_in E = (\<lambda>w n. False)" "find_candidate E w cur st = (r, st')"
  shows "queue st' = queue st \<and> (r \<noteq> None \<longrightarrow> st' = st)"
  using assms by (auto simp: find_candidate_def Let_def split: if_splits option.splits prod.splits dest!: skip_rejected_quiet)

lemma skip_rejected_in: "skip_rejected wd tagset i skipped st = (Some (k, b), st') \<Longrightarrow> k < length (queue st')"
proof (induction wd tagset i skipped st rule: skip_rejected.induct)
  case (1 wd tagset i skipped st)
  show ?case
    by (use "1.prems" in \<open>subst (asm) skip_rejected.simps\<close>)
      (use "1.IH" in \<open>auto split: if_splits option.splits prod.splits\<close>)
qed

lemma find_candidate_in: "find_candidate E w cur st = (Some c, st') \<Longrightarrow> pos_ix c < length (queue st')"
  by (auto simp: find_candidate_def Let_def split: if_splits option.splits prod.splits dest!: skip_rejected_in)

lemma skip_rejected_from:
  "skip_rejected (\<lambda>n. False) tagset i skipped st = (Some (k, b), st') \<Longrightarrow> i \<le> k"
proof (induction "\<lambda>n::nat. False" tagset i skipped st rule: skip_rejected.induct)
  case (1 tagset i skipped st)
  have w: "\<not> is_withdrawn (\<lambda>n. False) e" for e by (simp add: is_withdrawn_def split: option.split)
  show ?case
    by (use "1.prems" in \<open>subst (asm) skip_rejected.simps\<close>)
      (use "1.hyps"(2) w in \<open>auto split: if_splits\<close>)
qed

lemma find_candidate_marked:
  assumes "withdrawn_in E = (\<lambda>w n. False)" "mb_inv st" "find_candidate E w cur st = (Some c, st')" "recv_mark E = Some m"
  shows "m \<le> seq (queue st ! pos_ix c)"
proof -
  have in_q: "pos_ix c < length (queue st)"
    using find_candidate_in [OF assms(3)] find_candidate_quiet [OF assms(1,3)] by simp
  define i where "i = reanchor cur st"
  have "\<exists>k \<le> pos_ix c. m \<le> seq (queue st ! k)"
  proof (cases "seq (queue st ! i) < m")
    case True
    let ?lo = "partition_point (\<lambda>e. seq e < m) (queue st)"
    note p = partition_point_nth [OF mb_invD(1) [OF assms(2)]]
    have "i < length (queue st)" using assms(3) by (auto simp: find_candidate_def Let_def i_def split: if_splits)
    then have "i < ?lo" using True p by blast
    then have "?lo \<le> pos_ix c" "?lo < length (queue st)" using assms True
      by (auto simp: find_candidate_def Let_def i_def split: if_splits option.splits prod.splits dest!: skip_rejected_from)
    then show ?thesis using p [of ?lo m] by (intro exI [of _ ?lo]) auto
  next
    case False
    then have "i \<le> pos_ix c" using assms
      by (auto simp: find_candidate_def Let_def i_def split: if_splits option.splits prod.splits dest!: skip_rejected_from)
    then show ?thesis using False by (intro exI [of _ i]) auto
  qed
  then obtain k where "k \<le> pos_ix c" "m \<le> seq (queue st ! k)" by blast
  then show ?thesis using by_seq_nth [OF mb_invD(1) [OF assms(2)], of k "pos_ix c"] in_q by (cases "k = pos_ix c") auto
qed

lemma quiet_put_back:
  assumes "mb_inv st" "remove_at i st = Some (m, st1)"
  shows "\<not> superseded_now m st1" "\<exists>j st'. reinsert_candidate k m st1 = Some (j, st') \<and> queue st' = queue st"
proof -
  note r = remove_at_Some [OF assms]
  note inv1 = r(3)
  have out: "\<forall>x \<in> set (queue st1). seq x \<noteq> seq m" using r(4) by simp
  have m: "m \<in> set (queue st)" using r(1,2) by simp
  have no: "\<not> holds_latest k st1" if "in_lane m = Latest k" for k
  proof
    assume "holds_latest k st1"
    then obtain x where x: "x \<in> set (queue st1)" "in_lane x = Latest k"
      using mb_invD(4) [OF inv1, of k] by (auto simp: holds_latest_def)
    have "x \<in> set (queue st)" using x(1) by (simp add: r(4))
    from latest_unique [OF assms(1) this m x(2) that] show False using out x(1) by blast
  qed
  then show "\<not> superseded_now m st1" by (simp add: superseded_now_def split: lane.split)
  have lt: "seq m < next_seq st1" using mb_invD(2) [OF assms(1) m] r(5) by simp
  have f: "filter (\<lambda>x. seq x < seq m) (queue st1) = filter (\<lambda>x. seq x < seq m) (queue st)"
    "filter (\<lambda>x. seq m \<le> seq x) (queue st1) = filter (\<lambda>x. seq m < seq x) (queue st)"
    by (simp_all only: r(4) filter_filter) (rule filter_cong [OF refl], linarith)+
  have "filter (\<lambda>x. seq x < seq m) (queue st1) @ m # filter (\<lambda>x. seq m \<le> seq x) (queue st1) = queue st"
    using by_seq_split [OF mb_invD(1) [OF assms(1)] m] f by simp
  then show "\<exists>j st'. reinsert_candidate k m st1 = Some (j, st') \<and> queue st' = queue st"
    using reinsert_candidate_eq [OF inv1 out lt, of k] no by (metis (no_types, lifting))
qed

lemma quiet_step:
  assumes "quiet E f" "mb_inv st" "scan_step E cur w st = Some (out, cur', w', st')"
  shows "w' = w \<and> (case out of
      Some (Matched a None) \<Rightarrow> False
    | Some (Failed e) \<Rightarrow> False
    | Some (Matched a (Some e)) \<Rightarrow> e \<in> set (queue st) \<and> queue st' = filter (\<lambda>x. seq x \<noteq> seq e) (queue st) \<and>
        (\<forall>m. recv_mark E = Some m \<longrightarrow> m \<le> seq e)
    | _ \<Rightarrow> queue st' = queue st)"
proof -
  have q: "matcher E = (\<lambda>p w st. (Inr (f p), w, st))" "between E = Pair" "withdrawn_in E = (\<lambda>w n. False)"
    using assms(1) by (simp_all add: quiet_def)
  obtain r st1 where fc: "find_candidate E w cur st = (r, st1)" by fastforce
  note fq = find_candidate_quiet [OF q(3) fc]
  show ?thesis
  proof (cases r)
    case None
    then show ?thesis using assms(3) fc fq by (auto simp: scan_step_def q)
  next
    case (Some c)
    then have [simp]: "st1 = st" using fq by simp
    let ?i = "pos_ix c" let ?m = "queue st ! pos_ix c"
    have mk: "n \<le> seq ?m" if "recv_mark E = Some n" for n
      using find_candidate_marked [OF q(3) assms(2) _ that, of w cur c st1] fc Some by simp
    show ?thesis
    proof (cases "optimistic c \<or> too_big (budget E) ?m")
      case True
      then obtain m st2 where rm: "remove_at ?i st = Some (m, st2)"
        using assms(3) fc Some by (cases "remove_at ?i st") (auto simp: scan_step_def q Let_def)
      note R = remove_at_Some [OF assms(2) rm] and P = quiet_put_back [OF assms(2) rm]
      obtain j st3 where re: "reinsert_candidate ?i m st2 = Some (j, st3)" "queue st3 = queue st" using P(2) by blast
      show ?thesis using assms(3) fc Some True rm re P(1) R(1,2,4) mk
        by (cases "f (msg ?m)") (auto simp: scan_step_def q Let_def)
    next
      case False
      note eqs = scan_step_def q Let_def fc Some False
      show ?thesis
      proof (cases "f (msg ?m)")
        case None
        then show ?thesis using assms(3) by (auto simp: eqs)
      next
        case f: (Some a)
        show ?thesis
        proof (cases "remove_by_seq ?i (seq ?m) st")
          case None
          have "?i < length (queue st)"
            using find_candidate_in [of E w cur st c st1] fc \<open>r = Some c\<close> by simp
          then have "?m \<in> set (queue st)" by simp
          then show ?thesis using None remove_by_seq_eq(1) [OF assms(2)] by auto
        next
          case (Some p)
          then obtain e st2 where rs: "remove_by_seq ?i (seq ?m) st = Some (e, st2)" by (cases p) auto
          show ?thesis using assms(3) f rs remove_by_seq_eq(2) [OF assms(2) rs] mk by (auto simp: eqs \<open>r = Some c\<close>)
        qed
      qed
    qed
  qed
qed

text \<open>The message a receive wants: not older than its mark, and matched.\<close>

definition wants :: "(payload \<Rightarrow> 'a option) \<Rightarrow> nat option \<Rightarrow> envelope \<Rightarrow> bool" where
  "wants f mark e \<longleftrightarrow> (\<forall>m. mark = Some m \<longrightarrow> m \<le> seq e) \<and> f (msg e) \<noteq> None"

lemma quiet_unwanted:
  assumes "quiet E f" "\<forall>p. payload_rejected (recv_tags E) p \<longrightarrow> f p = None"
  shows "unwanted E e \<longleftrightarrow> \<not> wants f (recv_mark E) e"
  using assms by (auto simp: unwanted_def wants_def quiet_def not_le)

lemma quiet_loop:
  assumes "quiet E f" "mb_inv st" "cursor_ok E cur st" "scan_loop fuel E cur w st = Some (ans, w', st')"
  shows "w' = w \<and> (case ans of
      Matched a None \<Rightarrow> False
    | Failed e \<Rightarrow> False
    | Matched a (Some e) \<Rightarrow> e \<in> set (queue st) \<and> queue st' = filter (\<lambda>x. seq x \<noteq> seq e) (queue st) \<and>
        (\<forall>m. recv_mark E = Some m \<longrightarrow> m \<le> seq e)
    | NoMatch \<Rightarrow> queue st' = queue st)"
  using assms
proof (induction fuel arbitrary: cur w st)
  case (Suc fuel)
  obtain out cur1 w1 st1 where s: "scan_step E cur w st = Some (out, cur1, w1, st1)" "step_ok E cur st out cur1 st1"
    using scan_step_ok [OF quiet_fair [OF Suc.prems(1)] Suc.prems(2,3)] by blast
  note q = quiet_step [OF Suc.prems(1,2) s(1)]
  show ?case
  proof (cases out)
    case None
    then have "mb_inv st1" "cursor_ok E cur1 st1" using s(2) by (simp_all add: step_ok_def touched_def)
    from Suc.IH [OF Suc.prems(1) this, of w1] Suc.prems(4) s(1) None q show ?thesis
      by (auto split: answer.splits option.splits)
  next
    case (Some a)
    then show ?thesis using Suc.prems(4) s(1) q by (auto split: answer.splits option.splits)
  qed
qed simp

lemma find_by_seq: "by_seq q \<Longrightarrow> e \<in> set q \<Longrightarrow> P e \<Longrightarrow> \<forall>x \<in> set q. seq x < seq e \<longrightarrow> \<not> P x \<Longrightarrow> find P q = Some e"
proof (induction q)
  case (Cons x q)
  then show ?case by (cases "x = e") (auto simp: by_seq_Cons)
qed simp

lemma reachable_inv: "qstep\<^sup>*\<^sup>* (new_state, None) (st, c) \<Longrightarrow> mb_inv st"
  using q_inv_reachable [of "(st, c)"] by (simp add: q_inv_def)

section \<open>What a receive promises\<close>

text \<open>
  C18: Whatever the matcher does to the mailbox and whatever other threads do meanwhile, a receive that
  finds nothing has looked at every queued message, and each is one it may pass over; a receive that takes
  a message was given it by the matcher, has removed it, leaves behind no earlier message that it wanted,
  and never hands over a message superseded by a newer one of its key.
\<close>

theorem receive_selects:
  assumes "fair E" "qstep\<^sup>*\<^sup>* (new_state, None) (st, c)" "scan_mailbox fuel E 0 w st = Some (ans, w', st')"
  shows "case ans of
      NoMatch \<Rightarrow> scanned st' = length (queue st') \<and> (\<forall>e \<in> set (queue st'). unwanted E e)
    | Matched a (Some e) \<Rightarrow>
        (\<exists>w st. fst (matcher E (msg e) w st) = Inr (Some a)) \<and> \<not> superseded_now e st' \<and>
        (\<forall>x \<in> set (queue st'). seq x \<noteq> seq e \<and> (seq x < seq e \<longrightarrow> unwanted E x))
    | _ \<Rightarrow> True"
  using scan_mailbox_ok [OF assms(1) reachable_inv [OF assms(2)] assms(3)]
  by (auto simp: step_ok_def settled_def split: answer.splits option.splits)

text \<open>A receiver for \<open>[k ...]\<close> vectors, on a mailbox of a number and such a vector.\<close>

definition tag_matcher :: "symbol \<Rightarrow> payload \<Rightarrow> unit option" where
  "tag_matcher k p = (case p of PWire (MVector (MKeyword k' # ms)) \<Rightarrow> (if k' = k then Some () else None) | _ \<Rightarrow> None)"

definition tagged :: "symbol \<Rightarrow> envelope" where
  "tagged k = plain (MVector [MKeyword k, MInt 7])"

definition taken_seq :: "((unit, unit) answer \<times> unit \<times> mailbox_state) option \<Rightarrow> nat option" where
  "taken_seq r = (case r of Some (Matched a (Some e), w, st) \<Rightarrow> Some (seq e) | _ \<Rightarrow> None)"

abbreviation two_tags :: mailbox_state where
  "two_tags \<equiv> push (tagged 5) (push (tagged 4) new_state)"

abbreviation tag_receiver :: "(unit, unit, unit) receiver" where
  "tag_receiver \<equiv> quiet_receiver (tag_matcher 5) None [5]"

lemma two_tags_reachable: "qstep\<^sup>*\<^sup>* (new_state, None) (two_tags, None)"
  by (meson pushed rtranclp.rtrancl_refl rtranclp.rtrancl_into_rtrancl)

lemma receive_selects_witness:
  "case scan_mailbox 4 tag_receiver 0 () two_tags of
     Some (Matched a (Some e), w', st') \<Rightarrow> seq e = 1 \<and> \<not> superseded_now e st' | _ \<Rightarrow> False"
proof -
  have t: "taken_seq (scan_mailbox 4 tag_receiver 0 () two_tags) = Some 1" by code_simp
  then obtain a e w' st' where r: "scan_mailbox 4 tag_receiver 0 () two_tags = Some (Matched a (Some e), w', st')"
    by (auto simp: taken_seq_def split: option.splits answer.splits)
  then have "seq e = 1" using t by (simp add: taken_seq_def)
  then show ?thesis using receive_selects [OF quiet_fair_receiver two_tags_reachable r] r by simp
qed

text \<open>
  C20: A receive ends: if no more than \<open>N\<close> messages ever arrive, \<open>N + 1\<close> candidates are enough, and the
  scan never panics, however the matcher and other threads change the mailbox meanwhile.
\<close>

theorem receive_ends:
  assumes "fair E" "arrivals_within N E" "qstep\<^sup>*\<^sup>* (new_state, None) (st, c)" "next_seq st \<le> N" "N + 1 \<le> fuel"
  shows "\<exists>ans w' st'. scan_mailbox fuel E 0 w st = Some (ans, w', st')"
proof -
  have "scan_mailbox fuel E 0 w st \<noteq> None"
    unfolding scan_mailbox_def
    by (rule scan_loop_ends [OF assms(1,2) reachable_inv [OF assms(3)] cursor_start assms(4)]) (use assms(5) in simp_all)
  then show ?thesis by auto
qed

lemma quiet_within: "quiet E f \<Longrightarrow> arrivals_within N E"
  by (auto simp: quiet_def arrivals_within_def)

lemma quiet_receiver_quiet: "quiet (quiet_receiver f mark tags) f"
  by (simp add: quiet_def quiet_receiver_def)

lemma receive_ends_witness: "\<exists>ans w' st'. scan_mailbox 3 tag_receiver 0 () two_tags = Some (ans, w', st')"
  by (rule receive_ends [where N = 2, OF quiet_fair_receiver quiet_within [OF quiet_receiver_quiet] two_tags_reachable])
    (code_simp, simp)

lemma quiet_search:
  assumes "quiet E f" "\<forall>p. payload_rejected (recv_tags E) p \<longrightarrow> f p = None" "mb_inv st" "next_seq st + 1 \<le> fuel"
  shows "\<exists>st'. case find (wants f (recv_mark E)) (queue st) of
      None \<Rightarrow> scan_mailbox fuel E 0 w st = Some (NoMatch, w, st') \<and> queue st' = queue st
    | Some e \<Rightarrow> scan_mailbox fuel E 0 w st = Some (Matched (the (f (msg e))) (Some e), w, st') \<and>
        queue st' = filter (\<lambda>x. seq x \<noteq> seq e) (queue st)"
proof -
  note inv = assms(3)
  have "scan_mailbox fuel E 0 w st \<noteq> None"
    unfolding scan_mailbox_def
    by (rule scan_loop_ends [OF quiet_fair [OF assms(1)] quiet_within [OF assms(1)] inv cursor_start order_refl])
      (use assms(4) in simp_all)
  then obtain ans w' st' where r: "scan_mailbox fuel E 0 w st = Some (ans, w', st')" by auto
  note ok = scan_mailbox_ok [OF quiet_fair [OF assms(1)] inv r]
  note q = quiet_loop [OF assms(1) inv cursor_start r [unfolded scan_mailbox_def]]
  note u = quiet_unwanted [OF assms(1,2)]
  show ?thesis
  proof (cases ans)
    case NoMatch
    then have "find (wants f (recv_mark E)) (queue st) = None"
      using ok q u by (auto simp: step_ok_def settled_def find_None_iff)
    then show ?thesis using r q NoMatch by auto
  next
    case (Matched a me)
    then obtain e where e: "me = Some e" "e \<in> set (queue st)" "queue st' = filter (\<lambda>x. seq x \<noteq> seq e) (queue st)" "w' = w"
      "\<forall>m. recv_mark E = Some m \<longrightarrow> m \<le> seq e"
      using q by (auto split: option.splits)
    have a: "f (msg e) = Some a" using ok Matched e(1) assms(1) by (auto simp: step_ok_def quiet_def)
    have "wants f (recv_mark E) e \<and> (\<forall>x \<in> set (queue st). seq x < seq e \<longrightarrow> \<not> wants f (recv_mark E) x)"
      using ok Matched e u a by (auto simp: step_ok_def wants_def)
    then have "find (wants f (recv_mark E)) (queue st) = Some e"
      using find_by_seq [OF mb_invD(1) [OF inv] e(2)] by blast
    then show ?thesis using r Matched e a by auto
  next
    case (Failed e)
    then show ?thesis using q by simp
  qed
qed

text \<open>
  C19: With nobody else at the mailbox and a matcher that is a function of the message, the receive, with
  its optimistic pop, re-inserts, tag filter, mark and re-anchoring, is a search: it takes the first
  message of the queue that the receive wants and leaves the others as they are, or leaves the queue alone.
\<close>

theorem receive_is_a_search:
  assumes "quiet E f" "\<forall>p. payload_rejected (recv_tags E) p \<longrightarrow> f p = None" "qstep\<^sup>*\<^sup>* (new_state, None) (st, c)"
  shows "\<exists>st'. case find (wants f (recv_mark E)) (queue st) of
      None \<Rightarrow> scan_mailbox (next_seq st + 1) E 0 w st = Some (NoMatch, w, st') \<and> queue st' = queue st
    | Some e \<Rightarrow> scan_mailbox (next_seq st + 1) E 0 w st = Some (Matched (the (f (msg e))) (Some e), w, st') \<and>
        queue st' = filter (\<lambda>x. seq x \<noteq> seq e) (queue st)"
  by (rule quiet_search [OF assms(1,2) reachable_inv [OF assms(3)]]) simp

definition found :: "((unit, unit) answer \<times> unit \<times> mailbox_state) option \<Rightarrow> mailbox_state \<Rightarrow> bool" where
  "found r st0 = (case r of Some (Matched a (Some e), w, st) \<Rightarrow> queue st = filter (\<lambda>x. seq x \<noteq> 1) (queue st0) | _ \<Rightarrow> False)"

lemma receive_is_a_search_witness: "found (scan_mailbox 3 tag_receiver 0 () two_tags) two_tags"
proof -
  have m: "recv_tags tag_receiver = [5]" "recv_mark tag_receiver = None" by (simp_all add: quiet_receiver_def)
  have r: "\<forall>p. payload_rejected (recv_tags tag_receiver) p \<longrightarrow> tag_matcher 5 p = None"
    unfolding m by (auto simp: payload_rejected_def tag_rejects_def tag_matcher_def split: payload.splits message.splits list.splits)
  have q: "queue two_tags = [(tagged 4)\<lparr>seq := 0\<rparr>, (tagged 5)\<lparr>seq := 1\<rparr>]" "next_seq two_tags = 2"
    by (simp_all add: push_def tagged_def plain_def new_state_def note_queued_def)
  have "find (wants (tag_matcher 5) None) (queue two_tags) = Some ((tagged 5)\<lparr>seq := 1\<rparr>)"
    unfolding q by (simp add: wants_def tag_matcher_def tagged_def plain_def)
  then show ?thesis
    using receive_is_a_search [OF quiet_receiver_quiet r two_tags_reachable, of "()"] unfolding m q(2)
    by (auto simp: found_def)
qed

section \<open>A receive that blocks its thread\<close>

text \<open>What a scan leaves alone besides the queue.\<close>

definition rest :: "mailbox_state \<Rightarrow> nat \<times> symbol message option \<times> bool \<times> dead_aliases \<times> u32 \<times> bool" where
  "rest st = (next_seq st, kill st, kill_hard st, dead_aliases st, cv_waiters st, wake_pending st)"

lemma rest_notes [simp]:
  "rest (note_queued e st) = rest st" "rest (note_unqueued e st) = rest st" "rest (st\<lparr>scanned := n\<rparr>) = rest st"
  "rest (st\<lparr>queue := q\<rparr>) = rest st"
  by (simp_all add: rest_def note_queued_def note_unqueued_def split: lane.split option.split)

lemma rest_remove: "remove_at i st = Some (e, st') \<Longrightarrow> rest st' = rest st"
  by (auto simp: remove_at_def split: bind_splits)

lemma rest_reinsert: "reinsert_candidate i m st = Some (j, st') \<Longrightarrow> rest st' = rest st"
  by (auto simp: reinsert_candidate_def reinsert_at_seq_def insert_at_def Let_def split: if_splits bind_splits lane.splits)

lemma rest_remove_by_seq: "remove_by_seq i s st = Some (e, st') \<Longrightarrow> rest st' = rest st"
  by (auto simp: remove_by_seq_def Let_def split: if_splits dest: rest_remove)

lemma rest_skip: "skip_rejected wd ts i b st = (r, st') \<Longrightarrow> rest st' = rest st"
proof (induction wd ts i b st rule: skip_rejected.induct)
  case (1 wd ts i b st)
  show ?case
    by (use "1.prems" in \<open>subst (asm) skip_rejected.simps\<close>)
      (use "1.IH" in \<open>auto split: if_splits option.splits prod.splits dest: rest_remove\<close>)
qed

lemma rest_find: "find_candidate E w cur st = (r, st') \<Longrightarrow> rest st' = rest st"
  by (auto simp: find_candidate_def Let_def split: if_splits option.splits prod.splits dest: rest_skip)

lemma rest_step:
  assumes "quiet E f" "scan_step E cur w st = Some (out, cur', w', st')"
  shows "rest st' = rest st"
proof -
  have q: "matcher E = (\<lambda>p w st. (Inr (f p), w, st))" "between E = Pair" using assms(1) by (simp_all add: quiet_def)
  obtain r st1 where fc: "find_candidate E w cur st = (r, st1)" by fastforce
  note r1 = rest_find [OF fc]
  show ?thesis
  proof (cases r)
    case None
    then show ?thesis using assms(2) fc r1 by (simp add: scan_step_def q)
  next
    case (Some c)
    let ?i = "pos_ix c" let ?m = "queue st1 ! ?i"
    show ?thesis
    proof (cases "optimistic c \<or> too_big (budget E) ?m")
      case True
      then obtain m st2 where rm: "remove_at ?i st1 = Some (m, st2)"
        using assms(2) fc Some by (cases "remove_at ?i st1") (auto simp: scan_step_def q Let_def)
      then have "rest st2 = rest st" using rest_remove [OF rm] r1 by simp
      then show ?thesis using assms(2) fc Some True rm
        by (cases "f (msg ?m)") (auto simp: scan_step_def q Let_def dest: rest_reinsert split: if_splits)
    next
      case False
      then show ?thesis using assms(2) fc Some r1
        by (cases "f (msg ?m)") (auto simp: scan_step_def q Let_def dest: rest_remove_by_seq split: option.splits if_splits)
    qed
  qed
qed

lemma rest_loop: "quiet E f \<Longrightarrow> scan_loop fuel E cur w st = Some (ans, w', st') \<Longrightarrow> rest st' = rest st"
proof (induction fuel arbitrary: cur w st)
  case (Suc fuel)
  then obtain out cur1 w1 st1 where s: "scan_step E cur w st = Some (out, cur1, w1, st1)"
    by (auto split: option.splits)
  note r = rest_step [OF Suc.prems(1) s]
  show ?case
  proof (cases out)
    case None
    then show ?thesis using Suc.IH [OF Suc.prems(1), of cur1 w1 st1] Suc.prems(2) s r by simp
  next
    case (Some a)
    then show ?thesis using Suc.prems(2) s r by simp
  qed
qed simp

text \<open>A scan from the front that declines everything, and a scan from the end.\<close>

lemma quiet_declines:
  assumes "quiet E f" "\<forall>p. payload_rejected (recv_tags E) p \<longrightarrow> f p = None" "mb_inv st" "next_seq st + 1 \<le> fuel"
    "find (wants f (recv_mark E)) (queue st) = None"
  shows "\<exists>st'. scan_mailbox fuel E 0 w st = Some (NoMatch, w, st') \<and> queue st' = queue st \<and> rest st' = rest st \<and> mb_inv st' \<and>
    scanned st' = length (queue st)"
proof -
  obtain st' where s: "scan_mailbox fuel E 0 w st = Some (NoMatch, w, st')" "queue st' = queue st"
    using quiet_search [OF assms(1-4), of w] assms(5) by auto
  have "rest st' = rest st" using rest_loop [OF assms(1) s(1) [unfolded scan_mailbox_def]] .
  moreover have "mb_inv st'" "scanned st' = length (queue st')"
    using scan_mailbox_ok [OF quiet_fair [OF assms(1)] assms(3) s(1)] by (auto simp: step_ok_def touched_def settled_def)
  ultimately show ?thesis using s by auto
qed

lemma scan_past_end:
  assumes "quiet E f" "length (queue st) \<le> i" "0 < fuel"
  shows "scan_mailbox fuel E i w st = Some (NoMatch, w, st\<lparr>scanned := length (queue st)\<rparr>)"
  using assms by (cases fuel) (simp_all add: scan_mailbox_def scan_step_def quiet_def find_candidate_def reanchor_def)

section \<open>Messages that replace a queued one\<close>

lemma push_latest:
  assumes "mb_inv st" "in_lane env = Latest k" "holds_latest k st"
  shows "length (queue (push env st)) = length (queue st)" "holds_latest j (push env st) = holds_latest j st"
proof -
  have held: "mb_inv s \<Longrightarrow> holds_latest j s \<longleftrightarrow> (\<exists>e \<in> set (queue s). in_lane e = Latest j)" for s j
    using mb_invD(4) [of s j] by (auto simp: holds_latest_def)
  note p = push_eq [OF assms(1), of env]
  obtain e where e: "e \<in> set (queue st)" "in_lane e = Latest k" using held [OF assms(1)] assms(3) by auto
  have d: "distinct (queue st)"
    using mb_invD(1) [OF assms(1)] by (simp add: by_seq_def strict_sorted_iff distinct_map)
  have "filter (\<lambda>x. \<not> supersedes env x) (queue st) = filter (\<lambda>x. x \<noteq> e) (queue st)"
    using latest_unique [OF assms(1) _ e(1) _ e(2)] e(2) by (intro filter_cong) (auto simp: supersedes_def assms(2))
  then have q: "queue (push env st) = filter (\<lambda>x. x \<noteq> e) (queue st) @ [env\<lparr>seq := next_seq st\<rparr>]" using p(2) by simp
  have "filter (\<lambda>x. x \<noteq> e) (queue st) = remove1 e (queue st)" using d by (simp add: distinct_remove1_removeAll removeAll_filter_not_eq neq_commute)
  then show "length (queue (push env st)) = length (queue st)"
    using e(1) by (simp add: q length_remove1) (metis One_nat_def Suc_pred length_pos_if_in_set)
  show "holds_latest j (push env st) = holds_latest j st"
    unfolding held [OF p(1)] held [OF assms(1)] q using e assms(2) by auto
qed

text \<open>A message that no reply alias takes and that replaces a queued one.\<close>

definition replaces :: "envelope \<Rightarrow> mailbox_state \<Rightarrow> bool" where
  "replaces env st \<longleftrightarrow> (\<exists>k. in_lane env = Latest k \<and> holds_latest k st) \<and> (\<forall>s. alias_dropped env s = (False, s))"

definition within_bound :: "mailbox \<Rightarrow> bool" where
  "within_bound mb \<longleftrightarrow> overflow_hit mb = 0 \<and> (max_mailbox mb = 0 \<or> length (queue (state mb)) \<le> max_mailbox mb)"

lemma arrivals_cong:
  "mb_inv s \<Longrightarrow> mb_inv s' \<Longrightarrow> queue s = queue s' \<Longrightarrow> next_seq s = next_seq s' \<Longrightarrow>
   queue (arrivals envs s) = queue (arrivals envs s') \<and> next_seq (arrivals envs s) = next_seq (arrivals envs s')"
  unfolding arrivals_def by (induction envs arbitrary: s s') (simp_all add: push_eq)

lemma waking_fields [simp]:
  "mb_inv (st\<lparr>waiter := a, wake_pending := b\<rparr>) = mb_inv st"
  "holds_latest k (st\<lparr>waiter := a, wake_pending := b\<rparr>) = holds_latest k st"
  by (simp_all add: mb_inv_def holds_latest_def latest_seq_def)

lemma push_and_wake_fields:
  fixes now :: u64 and origin :: origin
  assumes "alias_dropped env (state mb) = (False, state mb)"
  defines "mb' \<equiv> snd (push_and_wake now origin env mb)"
  shows "state mb' = (push env (state mb))\<lparr>waiter := None, wake_pending := True\<rparr>" "kill_pending mb' = kill_pending mb"
    "length (queue (push env (state mb))) = length (queue (state mb)) \<Longrightarrow> within_bound mb \<Longrightarrow> within_bound mb'"
proof -
  show s: "state mb' = (push env (state mb))\<lparr>waiter := None, wake_pending := True\<rparr>"
    using push_and_wake_eq [OF assms(1)] by (simp add: mb'_def)
  show "kill_pending mb' = kill_pending mb"
    using assms(1) by (simp add: mb'_def push_and_wake_def Let_def note_mailbox_bound_def split: prod.splits option.split)
  assume l: "length (queue (push env (state mb))) = length (queue (state mb))" "within_bound mb"
  then have "overflow_hit mb' = 0 \<and> max_mailbox mb' = max_mailbox mb"
    using assms(1) by (auto simp: within_bound_def mb'_def push_and_wake_def Let_def note_mailbox_bound_def split: prod.splits option.split)
  then show "within_bound mb'" using l by (simp add: within_bound_def s)
qed

lemma deliveries_replace:
  fixes now :: u64 and origin :: origin
  assumes "mb_inv (state mb)" "within_bound mb" "\<forall>env \<in> set envs. replaces env (state mb)"
  defines "mb' \<equiv> deliveries now origin envs mb"
  shows "mb_inv (state mb') \<and> queue (state mb') = queue (arrivals envs (state mb)) \<and>
    next_seq (state mb') = next_seq (arrivals envs (state mb)) \<and> length (queue (state mb')) = length (queue (state mb)) \<and>
    (\<forall>k. holds_latest k (state mb') = holds_latest k (state mb)) \<and> within_bound mb' \<and> kill_pending mb' = kill_pending mb"
  unfolding mb'_def using assms(1-3)
proof (induction envs arbitrary: mb)
  case Nil
  then show ?case by (simp add: deliveries_def arrivals_def)
next
  case (Cons env envs)
  let ?mb = "snd (push_and_wake now origin env mb)"
  from Cons.prems(3) obtain k where k: "in_lane env = Latest k" "holds_latest k (state mb)" "alias_dropped env (state mb) = (False, state mb)"
    by (auto simp: replaces_def)
  note l = push_latest [OF Cons.prems(1) k(1,2)] and f = push_and_wake_fields [OF k(3), of now origin]
  note p = push_eq [OF Cons.prems(1), of env]
  have inv: "mb_inv (state ?mb)" by (simp add: f(1) p(1))
  have held: "holds_latest j (state ?mb) = holds_latest j (state mb)" for j by (simp add: f(1) l(2))
  have "\<forall>env \<in> set envs. replaces env (state ?mb)" using Cons.prems(3) by (simp add: replaces_def held)
  note ih = Cons.IH [OF inv f(3) [OF l(1) Cons.prems(2)] this]
  have "queue (arrivals envs (state ?mb)) = queue (arrivals envs (push env (state mb))) \<and>
      next_seq (arrivals envs (state ?mb)) = next_seq (arrivals envs (push env (state mb)))"
    by (rule arrivals_cong [OF inv p(1)]) (simp_all add: f(1))
  moreover have "deliveries now origin (env # envs) mb = deliveries now origin envs ?mb" by (simp add: deliveries_def)
  moreover have "arrivals (env # envs) (state mb) = arrivals envs (push env (state mb))" by (simp add: arrivals_def)
  moreover have "length (queue (state ?mb)) = length (queue (state mb))" by (simp add: f(1) l(1))
  ultimately show ?case using ih f(2) by (auto simp: held)
qed

text \<open>A nap in which the messages \<open>envs\<close> are delivered, with no deadline.\<close>

definition delivering :: "u64 \<Rightarrow> origin \<Rightarrow> envelope list \<Rightarrow> nap" where
  "delivering now origin envs =
     \<lparr>time_left = None, before = (\<lambda>mp. mp), asleep = (\<lambda>(mb, parked). (deliveries now origin envs mb, parked))\<rparr>"

lemma set_status_fields:
  "state (fst (set_status s mp)) = state (fst mp)" "kill_pending (fst (set_status s mp)) = kill_pending (fst mp)"
  "overflow_hit (fst (set_status s mp)) = overflow_hit (fst mp)" "max_mailbox (fst (set_status s mp)) = max_mailbox (fst mp)"
  by (auto simp: set_status_def Let_def split: prod.splits bool.split)

lemma wait_replace:
  assumes "mb_inv (state mb)" "within_bound mb" "\<forall>env \<in> set envs. replaces env (state mb)" "\<not> kill_pending mb"
    "\<not> wake_pending (state mb)" "length (queue (state mb)) \<le> i"
  shows "fst (begin_wait i in_capture None (mb, parked)) \<and>
    (\<exists>mb' parked'. after_wait in_capture (wait_for_message i in_capture (delivering now origin envs) (mb, parked)) = (Rescan, mb', parked') \<and>
      mb_inv (state mb') \<and> within_bound mb' \<and> \<not> kill_pending mb' \<and> \<not> wake_pending (state mb') \<and>
      queue (state mb') = queue (arrivals envs (state mb)) \<and> next_seq (state mb') = next_seq (arrivals envs (state mb)) \<and>
      length (queue (state mb')) = length (queue (state mb)) \<and> (\<forall>k. holds_latest k (state mb') = holds_latest k (state mb)))"
proof -
  obtain mb1 p1 where w: "set_status ST_WAITING (mb, parked) = (mb1, p1)" by fastforce
  let ?mb2 = "mb1\<lparr>state := (state mb1)\<lparr>cv_waiters := cv_waiters (state mb1) + 1\<rparr>\<rparr>"
  have mb1: "state mb1 = state mb" "kill_pending mb1 = kill_pending mb" "overflow_hit mb1 = overflow_hit mb" "max_mailbox mb1 = max_mailbox mb"
    using set_status_fields [of ST_WAITING "(mb, parked)"] by (simp_all add: w)
  have b: "begin_wait i in_capture None (mb, parked) = (True, ?mb2, p1)"
    using assms(4-6) mb1 by (simp add: begin_wait_def w Let_def)
  have cv [simp]: "mb_inv (st\<lparr>cv_waiters := n\<rparr>) = mb_inv st" "holds_latest k (st\<lparr>cv_waiters := n\<rparr>) = holds_latest k st"
    "mb_inv (st\<lparr>cv_waiters := n, wake_pending := b\<rparr>) = mb_inv st"
    "holds_latest k (st\<lparr>cv_waiters := n, wake_pending := b\<rparr>) = holds_latest k st" for st n k b
    by (simp_all add: mb_inv_def holds_latest_def latest_seq_def)
  let ?mb3 = "deliveries now origin envs ?mb2"
  have inv2: "mb_inv (state ?mb2)" "within_bound ?mb2" "\<forall>env \<in> set envs. replaces env (state ?mb2)"
    using assms(1-3) mb1 by (simp_all add: within_bound_def replaces_def)
  note d = deliveries_replace [OF inv2, of now origin]
  have a: "queue (arrivals envs (state ?mb2)) = queue (arrivals envs (state mb)) \<and> next_seq (arrivals envs (state ?mb2)) = next_seq (arrivals envs (state mb))"
    by (rule arrivals_cong [OF inv2(1) assms(1)]) (simp_all add: mb1)
  let ?mb4 = "?mb3\<lparr>state := (state ?mb3)\<lparr>cv_waiters := cv_waiters (state ?mb3) - 1, wake_pending := False\<rparr>\<rparr>"
  have e: "wait_for_message i in_capture (delivering now origin envs) (mb, parked) = (?mb4, p1)"
    by (simp add: wait_for_message_def delivering_def b end_wait_def)
  obtain mb5 p5 where r: "set_status ST_RUNNING (?mb4, p1) = (mb5, p5)" by fastforce
  have mb5: "state mb5 = state ?mb4" "kill_pending mb5 = kill_pending ?mb4" "overflow_hit mb5 = overflow_hit ?mb4" "max_mailbox mb5 = max_mailbox ?mb4"
    using set_status_fields [of ST_RUNNING "(?mb4, p1)"] by (simp_all add: r)
  have "\<not> kill_pending mb5" "overflow_hit mb5 = 0" using d assms(4) mb1 by (simp_all add: mb5 within_bound_def)
  then have "after_wait in_capture (wait_for_message i in_capture (delivering now origin envs) (mb, parked)) = (Rescan, mb5, p5)"
    by (simp add: e after_wait_def r take_overflow_hit_def)
  moreover have "within_bound ?mb3" using d by blast
  then have "within_bound mb5" by (simp add: mb5 within_bound_def)
  ultimately show ?thesis using b d a \<open>\<not> kill_pending mb5\<close> by (auto simp: mb5 mb1)
qed

lemma holds_latest_cong: "mb_inv s \<Longrightarrow> mb_inv s' \<Longrightarrow> queue s = queue s' \<Longrightarrow> holds_latest k s = holds_latest k s'"
  using mb_invD(4) [of s k] mb_invD(4) [of s' k] by (auto simp: holds_latest_def)

text \<open>One turn of the loop: a scan that declines everything, and a wait in which messages are replaced.\<close>

definition asleep_at :: "nat \<Rightarrow> mailbox_state \<Rightarrow> mailbox \<Rightarrow> bool" where
  "asleep_at n st mb \<longleftrightarrow> mb_inv (state mb) \<and> within_bound mb \<and> \<not> kill_pending mb \<and> \<not> wake_pending (state mb) \<and>
     length (queue (state mb)) = n \<and> (\<forall>k. holds_latest k (state mb) = holds_latest k st)"

lemma turn_replace:
  assumes "scan_mailbox fuel E i w (state mb) = Some (NoMatch, w, st)" "mb_inv st" "queue st = queue (state mb)" "rest st = rest (state mb)"
    "scan_index E i w (state mb) st = n" "asleep_at n st0 mb" "\<forall>env \<in> set envs. replaces env st0" "\<not> (in_capture \<and> top_level)"
  shows "\<exists>mb' parked'. (\<forall>naps. scan_until_answered fuel E in_capture top_level (delivering now origin envs # naps) i w (mb, parked) =
      scan_until_answered fuel E in_capture top_level naps n w (mb', parked')) \<and> asleep_at n st0 mb' \<and>
    queue (state mb') = queue (arrivals envs (state mb)) \<and> next_seq (state mb') = next_seq (arrivals envs (state mb))"
proof -
  let ?mb1 = "mb\<lparr>state := st\<rparr>"
  have a: "mb_inv (state mb)" "within_bound mb" "\<not> kill_pending mb" "\<not> wake_pending (state mb)" "length (queue (state mb)) = n"
    "holds_latest k (state mb) = holds_latest k st0" for k
    using assms(6) by (simp_all add: asleep_at_def)
  have h: "holds_latest k st = holds_latest k st0" for k using holds_latest_cong [OF assms(2) a(1) assms(3)] a(6) by simp
  have m1: "mb_inv (state ?mb1)" "within_bound ?mb1" "\<forall>env \<in> set envs. replaces env (state ?mb1)" "\<not> kill_pending ?mb1"
    "\<not> wake_pending (state ?mb1)" "length (queue (state ?mb1)) \<le> n"
    using assms(2-4,7) a h by (simp_all add: within_bound_def replaces_def rest_def)
  obtain mb' parked' where w: "after_wait in_capture (wait_for_message n in_capture (delivering now origin envs) (?mb1, parked)) = (Rescan, mb', parked')"
    and m': "mb_inv (state mb')" "within_bound mb'" "\<not> kill_pending mb'" "\<not> wake_pending (state mb')" "queue (state mb') = queue (arrivals envs st)"
      "next_seq (state mb') = next_seq (arrivals envs st)" "length (queue (state mb')) = length (queue st)"
      "\<And>k. holds_latest k (state mb') = holds_latest k st"
    using wait_replace [OF m1, of in_capture parked now origin] by auto
  have "next_seq st = next_seq (state mb)" using assms(4) by (simp add: rest_def)
  from arrivals_cong [OF assms(2) a(1) assms(3) this, of envs]
  have q: "queue (arrivals envs st) = queue (arrivals envs (state mb))" "next_seq (arrivals envs st) = next_seq (arrivals envs (state mb))" by simp_all
  have "after_no_match (time_left (delivering now origin envs)) in_capture top_level (?mb1, parked) = (Block, ?mb1, parked)"
    using assms(8) by (auto simp: after_no_match_def delivering_def)
  then have "scan_until_answered fuel E in_capture top_level (delivering now origin envs # naps) i w (mb, parked) =
      scan_until_answered fuel E in_capture top_level naps n w (mb', parked')" for naps
    using assms(1,5) w by simp
  moreover have "asleep_at n st0 mb'" using m' a(5) h assms(3) by (simp add: asleep_at_def)
  ultimately show ?thesis using m' q by (intro exI [of _ mb'] exI [of _ parked']) simp
qed

lemma turns_replace:
  assumes "quiet E f" "0 < fuel" "\<not> (in_capture \<and> top_level)" "asleep_at n st0 mb" "\<forall>envs \<in> set sent. \<forall>env \<in> set envs. replaces env st0"
  shows "\<exists>mb' parked'. scan_until_answered fuel E in_capture top_level (map (delivering now origin) sent) n w (mb, parked) =
      Some (Rescanning n, w, mb', parked') \<and> asleep_at n st0 mb' \<and> queue (state mb') = queue (arrivals (concat sent) (state mb))"
  using assms(4,5)
proof (induction sent arbitrary: mb parked)
  case Nil
  then show ?case by (simp add: arrivals_def)
next
  case (Cons envs sent)
  let ?st = "(state mb)\<lparr>scanned := length (queue (state mb))\<rparr>"
  have m: "mb_inv (state mb)" "length (queue (state mb)) = n" using Cons.prems(1) by (simp_all add: asleep_at_def)
  have s: "scan_mailbox fuel E n w (state mb) = Some (NoMatch, w, ?st)" using scan_past_end [OF assms(1) _ assms(2)] m(2) by simp
  have i: "scan_index E n w (state mb) ?st = n" using assms(1) m(2) by (simp add: scan_index_def quiet_def)
  obtain mb1 p1 where t: "\<And>naps. scan_until_answered fuel E in_capture top_level (delivering now origin envs # naps) n w (mb, parked) =
      scan_until_answered fuel E in_capture top_level naps n w (mb1, p1)" "asleep_at n st0 mb1"
    "queue (state mb1) = queue (arrivals envs (state mb))" "next_seq (state mb1) = next_seq (arrivals envs (state mb))"
    using turn_replace [OF s _ _ _ i Cons.prems(1) _ assms(3), of envs now origin parked] Cons.prems(2) m(1) by auto
  obtain mb2 p2 where "scan_until_answered fuel E in_capture top_level (map (delivering now origin) sent) n w (mb1, p1) =
      Some (Rescanning n, w, mb2, p2)" "asleep_at n st0 mb2" "queue (state mb2) = queue (arrivals (concat sent) (state mb1))"
    using Cons.IH [OF t(2), of p1] Cons.prems(2) by auto
  moreover have "mb_inv (state mb1)" "mb_inv (arrivals envs (state mb))"
    using t(2) by (simp_all add: asleep_at_def) (unfold arrivals_def, use m(1) in \<open>induction envs rule: rev_induct; simp add: push_eq\<close>)
  then have "queue (arrivals (concat sent) (state mb1)) = queue (arrivals (concat sent) (arrivals envs (state mb)))"
    using arrivals_cong t(3,4) by blast
  ultimately show ?case using t(1) by (simp add: arrivals_def)
qed

text \<open>
  C26: A receive that blocks its thread carries the index of its scan across its waits. Say it has declined
  every queued message, and while it waits only messages arrive that replace a queued one of their key: then
  the queue never grows past the index, every rescan finds nothing, whatever those messages are, and the
  thread goes back to waiting with all of them queued; a scan from the front would take the first of them
  that the receive wants.
\<close>

theorem blocked_receive_misses_latest:
  assumes "quiet E f" "\<forall>p. payload_rejected (recv_tags E) p \<longrightarrow> f p = None" "qstep\<^sup>*\<^sup>* (new_state, None) (state mb, c)"
    "next_seq (state mb) + 1 \<le> fuel" "find (wants f (recv_mark E)) (queue (state mb)) = None"
    "\<not> (in_capture \<and> top_level)" "within_bound mb" "\<not> kill_pending mb" "\<not> wake_pending (state mb)"
    "\<forall>envs \<in> set sent. \<forall>env \<in> set envs. replaces env (state mb)" "sent \<noteq> []"
  defines "n \<equiv> length (queue (state mb))"
  shows "\<exists>mb' parked'. scan_until_answered fuel E in_capture top_level (map (delivering now origin) sent) 0 w (mb, parked) =
      Some (Rescanning n, w, mb', parked') \<and> queue (state mb') = queue (arrivals (concat sent) (state mb)) \<and>
    fst (begin_wait n in_capture None (mb', parked')) \<and>
    (\<forall>e. find (wants f (recv_mark E)) (queue (state mb')) = Some e \<longrightarrow>
      (\<exists>st. scan_mailbox (next_seq (state mb') + 1) E 0 w (state mb') = Some (Matched (the (f (msg e))) (Some e), w, st)))"
proof -
  note inv = reachable_inv [OF assms(3)]
  obtain envs sent' where sent: "sent = envs # sent'" using assms(11) by (cases sent) auto
  obtain st where s: "scan_mailbox fuel E 0 w (state mb) = Some (NoMatch, w, st)" "queue st = queue (state mb)" "rest st = rest (state mb)"
    "mb_inv st" "scanned st = n"
    using quiet_declines [OF assms(1,2) inv assms(4,5), of w] by (auto simp: n_def)
  have i: "scan_index E 0 w (state mb) st = n" using assms(1) s(5) by (simp add: scan_index_def quiet_def n_def)
  have at: "asleep_at n (state mb) mb" using inv assms(7-9) by (simp add: asleep_at_def n_def)
  obtain mb1 p1 where t: "\<And>naps. scan_until_answered fuel E in_capture top_level (delivering now origin envs # naps) 0 w (mb, parked) =
      scan_until_answered fuel E in_capture top_level naps n w (mb1, p1)" "asleep_at n (state mb) mb1"
    "queue (state mb1) = queue (arrivals envs (state mb))" "next_seq (state mb1) = next_seq (arrivals envs (state mb))"
    using turn_replace [OF s(1,4,2,3) i at _ assms(6), of envs now origin parked] assms(10) sent by auto
  have "0 < fuel" using assms(4) by simp
  from turns_replace [OF assms(1) this assms(6) t(2), of sent' now origin w p1]
  obtain mb' p' where r: "scan_until_answered fuel E in_capture top_level (map (delivering now origin) sent') n w (mb1, p1) =
      Some (Rescanning n, w, mb', p')" "asleep_at n (state mb) mb'" "queue (state mb') = queue (arrivals (concat sent') (state mb1))"
    using assms(10) sent by auto
  have "mb_inv (state mb1)" "mb_inv (arrivals envs (state mb))"
    using t(2) by (simp_all add: asleep_at_def) (unfold arrivals_def, use inv in \<open>induction envs rule: rev_induct; simp add: push_eq\<close>)
  then have "queue (arrivals (concat sent') (state mb1)) = queue (arrivals (concat sent') (arrivals envs (state mb)))"
    using arrivals_cong t(3,4) by blast
  then have q: "queue (state mb') = queue (arrivals (concat sent) (state mb))" using r(3) by (simp add: sent arrivals_def)
  have m': "mb_inv (state mb')" "within_bound mb'" "\<not> kill_pending mb'" "\<not> wake_pending (state mb')" "length (queue (state mb')) \<le> n"
    using r(2) by (simp_all add: asleep_at_def)
  have "fst (begin_wait n in_capture None (mb', p'))"
    using wait_replace [OF m'(1,2) _ m'(3-5), of "[]"] by simp
  moreover have "\<exists>st. scan_mailbox (next_seq (state mb') + 1) E 0 w (state mb') = Some (Matched (the (f (msg e))) (Some e), w, st)"
    if "find (wants f (recv_mark E)) (queue (state mb')) = Some e" for e
    using quiet_search [OF assms(1,2) m'(1) order_refl, of w] that by auto
  ultimately show ?thesis using t(1) r(1) q by (intro exI [of _ mb'] exI [of _ p']) (simp add: sent)
qed

text \<open>A mailbox of one latest message tagged 4, replaced by one tagged 5, which the receive wants.\<close>

abbreviation one_latest :: mailbox where
  "one_latest \<equiv> new_mailbox\<lparr>state := push ((tagged 4)\<lparr>in_lane := Latest [9]\<rparr>) new_state\<rparr>"

lemma blocked_receive_misses_latest_witness:
  "\<exists>mb' parked'. scan_until_answered 2 (quiet_receiver (tag_matcher 5) None [] :: (unit, unit, unit) receiver) True False
      [delivering 0 FromHere [(tagged 5)\<lparr>in_lane := Latest [9]\<rparr>]] 0 () (one_latest, 0) = Some (Rescanning 1, (), mb', parked') \<and>
    map msg (queue (state mb')) = [msg (tagged 5)]"
proof -
  let ?E = "quiet_receiver (tag_matcher 5) None [] :: (unit, unit, unit) receiver"
  let ?new = "(tagged 5)\<lparr>in_lane := Latest [9]\<rparr>"
  have st: "queue (state one_latest) = [(tagged 4)\<lparr>in_lane := Latest [9], seq := 0\<rparr>]" "next_seq (state one_latest) = 1"
    "holds_latest [9] (state one_latest)" "\<not> wake_pending (state one_latest)"
    by (simp_all add: push_def new_state_def tagged_def plain_def note_queued_def drop_superseded_def latest_seq_def holds_latest_def)
  have r: "alias_dropped ?new t = (False, t)" for t
    by (simp add: alias_dropped_def tagged_def plain_def message_alias_def)
  obtain mb' parked' where b: "scan_until_answered 2 ?E True False (map (delivering 0 FromHere) [[?new]]) 0 () (one_latest, 0) =
      Some (Rescanning (length (queue (state one_latest))), (), mb', parked')"
    "queue (state mb') = queue (arrivals (concat [[?new]]) (state one_latest))"
  proof -
    have 1: "\<forall>p. payload_rejected (recv_tags ?E) p \<longrightarrow> tag_matcher 5 p = None"
      by (auto simp: quiet_receiver_def payload_rejected_def tag_rejects_def split: payload.splits)
    have 2: "qstep\<^sup>*\<^sup>* (new_state, None) (state one_latest, None)" by simp (meson pushed r_into_rtranclp)
    have 3: "next_seq (state one_latest) + 1 \<le> 2" unfolding st by simp
    have 4: "find (wants (tag_matcher 5) (recv_mark ?E)) (queue (state one_latest)) = None"
      unfolding st by (simp add: wants_def tag_matcher_def tagged_def plain_def)
    have 5: "\<not> (True \<and> False)" "within_bound one_latest" "\<not> kill_pending one_latest"
      by (simp_all add: within_bound_def new_mailbox_def)
    have 6: "\<forall>envs \<in> set [[?new]]. \<forall>env \<in> set envs. replaces env (state one_latest)" "[[?new]] \<noteq> []"
      using st(3) r by (auto simp: replaces_def)
    from blocked_receive_misses_latest [OF quiet_receiver_quiet 1 2 3 4 5 st(4) 6, of 0 FromHere "()" 0] that
    show ?thesis by blast
  qed
  have v: "map msg (queue (arrivals (concat [[?new]]) (state one_latest))) = [msg (tagged 5)]" "length (queue (state one_latest)) = 1"
    by code_simp+
  show ?thesis
    by (intro exI [of _ mb'] exI [of _ parked'] conjI) (use b(1) v(2) in \<open>simp only: list.map\<close>, use b(2) v(1) in \<open>simp only:\<close>)
qed

end
