(* ===== verification/Monitors.thy ===== *)
theory Monitors
  imports Delivery "HOL-Library.Mapping"
begin

text \<open>
  Monitors (\<open>process/monitor.rs\<close>): the table of watchers, indexed from the watched process and from the
  watcher, and the table of monitors held at other nodes. A hash map is a \<open>mapping\<close>; where the code walks
  one, the walk here is in ascending order of its keys, and nothing below depends on that order.
\<close>

datatype watcher = Local u64 u64 | Remote symbol u64 u64

record monitor_table =
  by_target :: "(u64, watcher list) mapping"
  by_watcher :: "(u64, (u64, u64) mapping) mapping"

definition no_monitors :: monitor_table where
  "no_monitors = \<lparr>by_target = Mapping.empty, by_watcher = Mapping.empty\<rparr>"

definition watch :: "u64 \<Rightarrow> watcher \<Rightarrow> monitor_table \<Rightarrow> monitor_table" where
  "watch target w t =
     (let t = (case w of
          Local pid mref \<Rightarrow>
            t\<lparr>by_watcher := Mapping.update pid
              (Mapping.update mref target (Mapping.lookup_default Mapping.empty (by_watcher t) pid)) (by_watcher t)\<rparr>
        | Remote _ _ _ \<Rightarrow> t)
      in t\<lparr>by_target := Mapping.update target (Mapping.lookup_default [] (by_target t) target @ [w]) (by_target t)\<rparr>)"

definition forget_watch :: "u64 \<Rightarrow> u64 \<Rightarrow> monitor_table \<Rightarrow> monitor_table" where
  "forget_watch pid mref t = (case Mapping.lookup (by_watcher t) pid of
     None \<Rightarrow> t
   | Some m \<Rightarrow>
       (let m = Mapping.delete mref m
        in t\<lparr>by_watcher := (if Mapping.is_empty m then Mapping.delete pid (by_watcher t)
                           else Mapping.update pid m (by_watcher t))\<rparr>))"

definition forget_local :: "watcher \<Rightarrow> monitor_table \<Rightarrow> monitor_table" where
  "forget_local w t = (case w of Local pid mref \<Rightarrow> forget_watch pid mref t | Remote _ _ _ \<Rightarrow> t)"

definition take_target :: "u64 \<Rightarrow> monitor_table \<Rightarrow> watcher list \<times> monitor_table" where
  "take_target target t =
     (let watchers = Mapping.lookup_default [] (by_target t) target
      in (watchers, fold forget_local watchers (t\<lparr>by_target := Mapping.delete target (by_target t)\<rparr>)))"

definition retain_target :: "u64 \<Rightarrow> (watcher \<Rightarrow> bool) \<Rightarrow> monitor_table \<Rightarrow> monitor_table" where
  "retain_target target keep t = (case Mapping.lookup (by_target t) target of
     None \<Rightarrow> t
   | Some ws \<Rightarrow>
       (let ws = filter keep ws
        in t\<lparr>by_target := (if ws = [] then Mapping.delete target (by_target t)
                          else Mapping.update target ws (by_target t))\<rparr>))"

definition remove_local :: "u64 \<Rightarrow> u64 \<Rightarrow> monitor_table \<Rightarrow> bool \<times> monitor_table" where
  "remove_local pid mref t =
     (case Option.bind (Mapping.lookup (by_watcher t) pid) (\<lambda>m. Mapping.lookup m mref) of
        None \<Rightarrow> (False, t)
      | Some target \<Rightarrow> (True, retain_target target (\<lambda>w. w \<noteq> Local pid mref) (forget_watch pid mref t)))"

definition remove_watcher :: "u64 \<Rightarrow> monitor_table \<Rightarrow> monitor_table" where
  "remove_watcher pid t = (case Mapping.lookup (by_watcher t) pid of
     None \<Rightarrow> t
   | Some held \<Rightarrow>
       fold (\<lambda>mref t. case Mapping.lookup held mref of
           Some target \<Rightarrow> retain_target target (\<lambda>w. w \<noteq> Local pid mref) t
         | None \<Rightarrow> t)
         (Mapping.ordered_keys held) (t\<lparr>by_watcher := Mapping.delete pid (by_watcher t)\<rparr>))"

definition watcher_count :: "u64 \<Rightarrow> monitor_table \<Rightarrow> nat" where
  "watcher_count target t = (case Mapping.lookup (by_target t) target of Some ws \<Rightarrow> length ws | None \<Rightarrow> 0)"

text \<open>Removing every watcher that satisfies \<open>p\<close>.\<close>

definition retain_all :: "(watcher \<Rightarrow> bool) \<Rightarrow> monitor_table \<Rightarrow> monitor_table" where
  "retain_all p t =
     (let bt = by_target t;
          dropped = concat (map (\<lambda>target. filter p (Mapping.lookup_default [] bt target)) (Mapping.ordered_keys bt));
          kept = Mapping.filter (\<lambda>_ ws. ws \<noteq> []) (Mapping.map_values (\<lambda>_ ws. filter (\<lambda>w. \<not> p w) ws) bt)
      in fold forget_local dropped (t\<lparr>by_target := kept\<rparr>))"

section \<open>The two indexes agree\<close>

definition watches :: "monitor_table \<Rightarrow> u64 \<Rightarrow> watcher list" where
  "watches t target = Mapping.lookup_default [] (by_target t) target"

definition held :: "monitor_table \<Rightarrow> u64 \<Rightarrow> u64 \<Rightarrow> u64 option" where
  "held t pid mref = Option.bind (Mapping.lookup (by_watcher t) pid) (\<lambda>m. Mapping.lookup m mref)"

text \<open>No key is kept for an empty list or an empty map.\<close>

definition bins_ok :: "monitor_table \<Rightarrow> bool" where
  "bins_ok t \<longleftrightarrow> finite (Mapping.keys (by_target t)) \<and> (\<forall>x. Mapping.lookup (by_target t) x \<noteq> Some []) \<and>
     (\<forall>p m. Mapping.lookup (by_watcher t) p = Some m \<longrightarrow> finite (Mapping.keys m) \<and> \<not> Mapping.is_empty m)"

definition mt_inv :: "monitor_table \<Rightarrow> bool" where
  "mt_inv t \<longleftrightarrow> bins_ok t \<and> (\<forall>p r x. held t p r = Some x \<longleftrightarrow> Local p r \<in> set (watches t x))"

lemma ordered_keys_set: "finite (Mapping.keys m) \<Longrightarrow> set (Mapping.ordered_keys m) = Mapping.keys m"
  by (simp add: Mapping.ordered_keys_def)

lemma keys_lookup: "k \<in> Mapping.keys m \<longleftrightarrow> Mapping.lookup m k \<noteq> None"
  by (auto simp: Mapping.keys_dom_lookup)

lemma watches_lookup: "watches t x = (case Mapping.lookup (by_target t) x of Some ws \<Rightarrow> ws | None \<Rightarrow> [])"
  by (simp add: watches_def Mapping.lookup_default_def)

text \<open>Forgetting a watch touches the watcher index only.\<close>

lemma forget_watch [simp]: "by_target (forget_watch p r t) = by_target t"
  by (simp add: forget_watch_def Let_def split: option.split)

lemma watches_forget [simp]: "watches (forget_watch p r t) = watches t"
  by (simp add: watches_def fun_eq_iff)

lemma held_forget: "held (forget_watch p r t) p' r' = (if p' = p \<and> r' = r then None else held t p' r')"
proof (cases "Mapping.lookup (by_watcher t) p")
  case (Some m)
  have "Mapping.is_empty (Mapping.delete r m) \<Longrightarrow> Mapping.lookup m r' = None \<or> r' = r"
    by (auto simp: Mapping.is_empty_delete Mapping.is_empty_def keys_lookup set_eq_iff)
  then show ?thesis using Some
    by (auto simp: forget_watch_def held_def Let_def Mapping.lookup_update' Mapping.lookup_delete_neq)
qed (auto simp: forget_watch_def held_def)

lemma bins_forget: "bins_ok t \<Longrightarrow> bins_ok (forget_watch p r t)"
  by (cases "Mapping.lookup (by_watcher t) p")
    (auto simp: forget_watch_def bins_ok_def Let_def Mapping.lookup_update' Mapping.lookup_delete_neq split: if_splits,
     metis Mapping.lookup_delete Mapping.lookup_delete_neq option.distinct(1))

lemma forget_locals:
  "by_target (fold forget_local ws t) = by_target t"
  "held (fold forget_local ws t) p r = (if Local p r \<in> set ws then None else held t p r)"
  "bins_ok t \<Longrightarrow> bins_ok (fold forget_local ws t)"
proof (induction ws arbitrary: t)
  case (Cons w ws)
  { case 1 show ?case using Cons(1) by (simp add: forget_local_def split: watcher.split) }
  { case 2 show ?case using Cons(2) by (auto simp: forget_local_def held_forget split: watcher.split) }
  { case 3 then show ?case using Cons(3) by (auto simp: forget_local_def bins_forget split: watcher.split) }
qed simp_all

text \<open>Keeping some watchers of one target touches that target's list only.\<close>

lemma retain_target [simp]: "by_watcher (retain_target x keep t) = by_watcher t"
  by (simp add: retain_target_def Let_def split: option.split)

lemma held_retain [simp]: "held (retain_target x keep t) = held t"
  by (simp add: held_def fun_eq_iff)

lemma watches_retain: "watches (retain_target x keep t) y = (if y = x then filter keep (watches t y) else watches t y)"
  by (cases "Mapping.lookup (by_target t) x")
    (auto simp: retain_target_def watches_lookup Let_def Mapping.lookup_update' Mapping.lookup_delete_neq)

lemma bins_retain: "bins_ok t \<Longrightarrow> bins_ok (retain_target x keep t)"
  by (cases "Mapping.lookup (by_target t) x")
    (auto simp: retain_target_def bins_ok_def Let_def Mapping.lookup_update' split: if_splits,
     metis Mapping.lookup_delete Mapping.lookup_delete_neq option.distinct(1))

section \<open>Each operation is one on the list of watchers\<close>

lemma watch_spec:
  assumes "mt_inv t" "\<And>p r y. w = Local p r \<Longrightarrow> Local p r \<notin> set (watches t y)"
  shows "mt_inv (watch x w t)" "watches (watch x w t) = (watches t)(x := watches t x @ [w])"
proof -
  show W: "watches (watch x w t) = (watches t)(x := watches t x @ [w])"
    by (auto simp: fun_eq_iff watch_def watches_def Let_def Mapping.lookup_default_update' split: watcher.split)
  have H: "held (watch x w t) p r = (if w = Local p r then Some x else held t p r)" for p r
  proof (cases w)
    case (Local p' r')
    then show ?thesis
      by (cases "Mapping.lookup (by_watcher t) p'")
        (auto simp: watch_def held_def Let_def Mapping.lookup_update' Mapping.lookup_default_def)
  qed (simp add: watch_def held_def)
  have "held t p r = None" if "w = Local p r" for p r
    using assms that unfolding mt_inv_def by (metis option.exhaust)
  moreover have "bins_ok (watch x w t)"
    using assms(1) unfolding mt_inv_def bins_ok_def watch_def Let_def
    by (cases w) (auto simp: Mapping.lookup_update' Mapping.lookup_default_def split: option.split)
  ultimately show "mt_inv (watch x w t)"
    using assms unfolding mt_inv_def W H by auto
qed

lemma take_target_spec:
  assumes "mt_inv t"
  shows "mt_inv (snd (take_target x t))" "watches (snd (take_target x t)) = (watches t)(x := [])"
    "fst (take_target x t) = watches t x"
proof -
  let ?t = "t\<lparr>by_target := Mapping.delete x (by_target t)\<rparr>"
  have b: "by_target (snd (take_target x t)) = Mapping.delete x (by_target t)"
    by (simp add: take_target_def Let_def forget_locals)
  show W: "watches (snd (take_target x t)) = (watches t)(x := [])"
    by (auto simp: fun_eq_iff watches_lookup b Mapping.lookup_delete_neq)
  show "fst (take_target x t) = watches t x" by (simp add: take_target_def Let_def watches_def)
  have "bins_ok ?t" using assms unfolding mt_inv_def bins_ok_def
    by (auto, metis Mapping.lookup_delete Mapping.lookup_delete_neq option.distinct(1))
  then have B: "bins_ok (snd (take_target x t))" by (simp add: take_target_def Let_def forget_locals)
  have H: "held (snd (take_target x t)) p r = (if Local p r \<in> set (watches t x) then None else held t p r)" for p r
    by (simp add: take_target_def Let_def forget_locals watches_def) (simp add: held_def)
  have I: "held t p r = Some y \<longleftrightarrow> Local p r \<in> set (watches t y)" for p r y using assms by (simp add: mt_inv_def)
  have "y = x" if "Local p r \<in> set (watches t x)" "Local p r \<in> set (watches t y)" for p r y
    using that by (simp flip: I)
  then show "mt_inv (snd (take_target x t))"
    using B unfolding mt_inv_def H W by (auto simp: I)
qed

lemma remove_local_held: "remove_local p r t = (case held t p r of
    None \<Rightarrow> (False, t)
  | Some x \<Rightarrow> (True, retain_target x (\<lambda>w. w \<noteq> Local p r) (forget_watch p r t)))"
  by (simp add: remove_local_def held_def)

lemma remove_local_spec:
  assumes "mt_inv t"
  shows "mt_inv (snd (remove_local p r t))"
    "watches (snd (remove_local p r t)) = (\<lambda>x. filter (\<lambda>w. w \<noteq> Local p r) (watches t x))"
    "fst (remove_local p r t) \<longleftrightarrow> (\<exists>x. Local p r \<in> set (watches t x))"
proof -
  have I: "held t p r = Some x \<longleftrightarrow> Local p r \<in> set (watches t x)" for x using assms by (simp add: mt_inv_def)
  show "fst (remove_local p r t) \<longleftrightarrow> (\<exists>x. Local p r \<in> set (watches t x))"
    unfolding I [symmetric] by (auto simp: remove_local_held split: option.split)
  have id: "filter (\<lambda>w. w \<noteq> Local p r) (watches t y) = watches t y" if "held t p r \<noteq> Some y" for y
    using that by (auto simp: I filter_id_conv)
  have W: "watches (snd (remove_local p r t)) y = filter (\<lambda>w. w \<noteq> Local p r) (watches t y)" for y
  proof (cases "held t p r")
    case None
    then show ?thesis using id by (simp add: remove_local_held)
  next
    case (Some x)
    then show ?thesis using id [of y] by (auto simp: remove_local_held watches_retain)
  qed
  then show "watches (snd (remove_local p r t)) = (\<lambda>x. filter (\<lambda>w. w \<noteq> Local p r) (watches t x))" by blast
  have H: "held (snd (remove_local p r t)) p' r' = (if p' = p \<and> r' = r then None else held t p' r')" for p' r'
    by (cases "held t p r") (auto simp: remove_local_held held_forget)
  have "bins_ok (snd (remove_local p r t))"
    using assms by (auto simp: remove_local_held mt_inv_def bins_retain bins_forget split: option.split)
  then show "mt_inv (snd (remove_local p r t))"
    using assms unfolding mt_inv_def H W by auto
qed

lemma retain_held_fold:
  assumes "bins_ok t"
  shows "bins_ok (fold (\<lambda>r t. case g r of Some x \<Rightarrow> retain_target x (\<lambda>w. w \<noteq> Local p r) t | None \<Rightarrow> t) rs t)"
    "by_watcher (fold (\<lambda>r t. case g r of Some x \<Rightarrow> retain_target x (\<lambda>w. w \<noteq> Local p r) t | None \<Rightarrow> t) rs t) = by_watcher t"
    "watches (fold (\<lambda>r t. case g r of Some x \<Rightarrow> retain_target x (\<lambda>w. w \<noteq> Local p r) t | None \<Rightarrow> t) rs t) y =
      filter (\<lambda>w. \<not> (\<exists>r \<in> set rs. w = Local p r \<and> g r = Some y)) (watches t y)"
  using assms
proof (induction rs arbitrary: t)
  case (Cons r rs)
  { case 1 then show ?case using Cons(1) by (auto simp: bins_retain split: option.split) }
  { case 2 then show ?case using Cons(2) by (auto simp: bins_retain split: option.split) }
  { case 3 then show ?case using Cons(3)
      by (cases "g r") (auto simp: bins_retain watches_retain intro!: filter_cong) }
qed simp_all

lemma remove_watcher_spec:
  assumes "mt_inv t"
  shows "mt_inv (remove_watcher p t)"
    "watches (remove_watcher p t) = (\<lambda>x. filter (\<lambda>w. \<forall>r. w \<noteq> Local p r) (watches t x))"
proof -
  have I: "held t q r = Some x \<longleftrightarrow> Local q r \<in> set (watches t x)" for q r x using assms by (simp add: mt_inv_def)
  have B: "bins_ok t" using assms by (simp add: mt_inv_def)
  let ?t = "t\<lparr>by_watcher := Mapping.delete p (by_watcher t)\<rparr>"
  have H: "held ?t q r = (if q = p then None else held t q r)" for q r
    by (cases "q = p") (simp_all add: held_def Mapping.lookup_delete_neq)
  have B': "bins_ok ?t" using B unfolding bins_ok_def
    by (auto simp: Mapping.lookup_delete_neq) (metis Mapping.lookup_delete Mapping.lookup_delete_neq option.distinct(1))+
  have W: "watches (remove_watcher p t) x = filter (\<lambda>w. \<forall>r. w \<noteq> Local p r) (watches t x) \<and>
    bins_ok (remove_watcher p t) \<and> held (remove_watcher p t) q r = (if q = p then None else held t q r)" for x q r
  proof (cases "Mapping.lookup (by_watcher t) p")
    case None
    then have n: "held t p r = None" for r by (simp add: held_def)
    then have "Local p r \<notin> set (watches t x)" for r x by (metis I option.distinct(1))
    then have "filter (\<lambda>w. \<forall>r. w \<noteq> Local p r) (watches t x) = watches t x" by (auto simp: filter_id_conv)
    then show ?thesis using None B n by (simp add: remove_watcher_def)
  next
    case (Some m)
    have f: "finite (Mapping.keys m)" using B Some by (auto simp: bins_ok_def)
    have l: "Mapping.lookup m r = held t p r" for r using Some by (simp add: held_def)
    let ?F = "fold (\<lambda>r t. case Mapping.lookup m r of Some x \<Rightarrow> retain_target x (\<lambda>w. w \<noteq> Local p r) t | None \<Rightarrow> t)
      (Mapping.ordered_keys m) ?t"
    note F = retain_held_fold [OF B', where g = "Mapping.lookup m" and p = p and rs = "Mapping.ordered_keys m"]
    have r: "remove_watcher p t = ?F" using Some by (simp add: remove_watcher_def)
    have "watches ?F x = filter (\<lambda>w. \<not> (\<exists>r \<in> Mapping.keys m. w = Local p r \<and> Mapping.lookup m r = Some x)) (watches t x)"
      using F(3) by (simp add: ordered_keys_set [OF f] watches_def)
    also have "\<dots> = filter (\<lambda>w. \<forall>r. w \<noteq> Local p r) (watches t x)"
      by (rule filter_cong [OF refl]) (auto simp: keys_lookup l I)
    finally have "watches ?F x = filter (\<lambda>w. \<forall>r. w \<noteq> Local p r) (watches t x)" .
    moreover have "held ?F q r = held ?t q r" using F(2) by (simp add: held_def)
    ultimately show ?thesis using F(1) H r by simp
  qed
  then show "watches (remove_watcher p t) = (\<lambda>x. filter (\<lambda>w. \<forall>r. w \<noteq> Local p r) (watches t x))" by blast
  show "mt_inv (remove_watcher p t)"
    unfolding mt_inv_def using W I by auto
qed

lemma retain_all_spec:
  assumes "mt_inv t"
  shows "mt_inv (retain_all p t)" "watches (retain_all p t) = (\<lambda>x. filter (\<lambda>w. \<not> p w) (watches t x))"
proof -
  have I: "held t q r = Some x \<longleftrightarrow> Local q r \<in> set (watches t x)" for q r x using assms by (simp add: mt_inv_def)
  have B: "bins_ok t" using assms by (simp add: mt_inv_def)
  let ?k = "Mapping.filter (\<lambda>_ ws. ws \<noteq> []) (Mapping.map_values (\<lambda>_ ws. filter (\<lambda>w. \<not> p w) ws) (by_target t))"
  let ?d = "concat (map (\<lambda>x. filter p (Mapping.lookup_default [] (by_target t) x)) (Mapping.ordered_keys (by_target t)))"
  have r: "retain_all p t = fold forget_local ?d (t\<lparr>by_target := ?k\<rparr>)" by (simp add: retain_all_def Let_def)
  have lk: "Mapping.lookup ?k x = (case Mapping.lookup (by_target t) x of None \<Rightarrow> None
      | Some ws \<Rightarrow> if filter (\<lambda>w. \<not> p w) ws = [] then None else Some (filter (\<lambda>w. \<not> p w) ws))" for x
    by (simp add: Mapping.lookup_filter Mapping.lookup_map_values split: option.split)
  have f: "finite (Mapping.keys (by_target t))" using B by (simp add: bins_ok_def)
  have "w \<in> set ?d \<longleftrightarrow> p w \<and> (\<exists>x. w \<in> set (watches t x))" for w
  proof -
    have "w \<in> set ?d \<longleftrightarrow> p w \<and> (\<exists>x \<in> Mapping.keys (by_target t). w \<in> set (watches t x))"
      by (auto simp: ordered_keys_set [OF f] watches_def)
    moreover have "x \<in> Mapping.keys (by_target t)" if "w \<in> set (watches t x)" for x
      using that by (cases "Mapping.lookup (by_target t) x") (auto simp: keys_lookup watches_lookup)
    ultimately show ?thesis by blast
  qed
  note d = this
  have H: "held (retain_all p t) q r = (if p (Local q r) then None else held t q r)" for q r
  proof (cases "held t q r")
    case None
    then have "held (t\<lparr>by_target := ?k\<rparr>) q r = None" by (simp add: held_def)
    then show ?thesis using None by (simp add: r forget_locals)
  next
    case (Some x)
    then have "\<exists>x. Local q r \<in> set (watches t x)" using I by blast
    then show ?thesis using Some d by (simp add: r forget_locals) (simp add: held_def)
  qed
  show W: "watches (retain_all p t) = (\<lambda>x. filter (\<lambda>w. \<not> p w) (watches t x))"
    by (auto simp: fun_eq_iff r watches_lookup forget_locals lk split: option.split)
  have "finite (Mapping.keys ?k)" using finite_subset [OF Mapping.keys_filter, of "Mapping.map_values (\<lambda>_ ws. filter (\<lambda>w. \<not> p w) ws) (by_target t)"] f
    by simp
  then have "bins_ok (t\<lparr>by_target := ?k\<rparr>)" using B by (auto simp: bins_ok_def lk split: option.splits if_splits)
  then have "bins_ok (retain_all p t)" by (simp add: r forget_locals)
  then show "mt_inv (retain_all p t)" using I unfolding mt_inv_def H W by auto
qed

section \<open>The table refines one list per process\<close>

datatype mt_op = Watch u64 watcher | TakeTarget u64 | RemoveLocal u64 u64 | RemoveWatcher u64 | RetainAll "watcher \<Rightarrow> bool"

datatype mt_out = Took "watcher list" | Removed bool | Done

fun mt_step :: "mt_op \<Rightarrow> monitor_table \<Rightarrow> mt_out \<times> monitor_table" where
  "mt_step (Watch x w) t = (Done, watch x w t)"
| "mt_step (TakeTarget x) t = (case take_target x t of (ws, t) \<Rightarrow> (Took ws, t))"
| "mt_step (RemoveLocal p r) t = (case remove_local p r t of (b, t) \<Rightarrow> (Removed b, t))"
| "mt_step (RemoveWatcher p) t = (Done, remove_watcher p t)"
| "mt_step (RetainAll q) t = (Done, retain_all q t)"

text \<open>The specification keeps, for each process, the list of its watchers in the order they came.\<close>

fun spec_step :: "mt_op \<Rightarrow> (u64 \<Rightarrow> watcher list) \<Rightarrow> mt_out \<times> (u64 \<Rightarrow> watcher list)" where
  "spec_step (Watch x w) S = (Done, S(x := S x @ [w]))"
| "spec_step (TakeTarget x) S = (Took (S x), S(x := []))"
| "spec_step (RemoveLocal p r) S = (Removed (\<exists>x. Local p r \<in> set (S x)), \<lambda>x. filter (\<lambda>w. w \<noteq> Local p r) (S x))"
| "spec_step (RemoveWatcher p) S = (Done, \<lambda>x. filter (\<lambda>w. \<forall>r. w \<noteq> Local p r) (S x))"
| "spec_step (RetainAll q) S = (Done, \<lambda>x. filter (\<lambda>w. \<not> q w) (S x))"

fun mt_run :: "mt_op list \<Rightarrow> monitor_table \<Rightarrow> mt_out list \<times> monitor_table" where
  "mt_run [] t = ([], t)"
| "mt_run (a # as) t = (case mt_step a t of (out, t) \<Rightarrow> (case mt_run as t of (outs, t) \<Rightarrow> (out # outs, t)))"

fun spec_run :: "mt_op list \<Rightarrow> (u64 \<Rightarrow> watcher list) \<Rightarrow> mt_out list \<times> (u64 \<Rightarrow> watcher list)" where
  "spec_run [] S = ([], S)"
| "spec_run (a # as) S = (case spec_step a S of (out, S) \<Rightarrow> (case spec_run as S of (outs, S) \<Rightarrow> (out # outs, S)))"

text \<open>Every local monitor is taken out under a reference no monitor of its watcher carries.\<close>

fun fresh_refs :: "mt_op list \<Rightarrow> (u64 \<Rightarrow> watcher list) \<Rightarrow> bool" where
  "fresh_refs [] S = True"
| "fresh_refs (a # as) S =
     ((case a of Watch x (Local p r) \<Rightarrow> (\<forall>y. Local p r \<notin> set (S y)) | _ \<Rightarrow> True) \<and> fresh_refs as (snd (spec_step a S)))"

lemma mt_step_spec:
  assumes "mt_inv t" "\<And>x p r y. a = Watch x (Local p r) \<Longrightarrow> Local p r \<notin> set (watches t y)"
  shows "mt_inv (snd (mt_step a t)) \<and> fst (mt_step a t) = fst (spec_step a (watches t)) \<and>
    watches (snd (mt_step a t)) = snd (spec_step a (watches t))"
proof (cases a)
  case (Watch x w)
  then show ?thesis using watch_spec [OF assms(1), of w x] assms(2) by simp
next
  case (TakeTarget x)
  then show ?thesis using take_target_spec [OF assms(1), of x] by (simp add: split_beta)
next
  case (RemoveLocal p r)
  then show ?thesis using remove_local_spec [OF assms(1), of p r] by (simp add: split_beta)
next
  case (RemoveWatcher p)
  then show ?thesis using remove_watcher_spec [OF assms(1), of p] by simp
next
  case (RetainAll q)
  then show ?thesis using retain_all_spec [OF assms(1), of q] by simp
qed

lemma mt_run_spec: "mt_inv t \<Longrightarrow> fresh_refs as (watches t) \<Longrightarrow>
  mt_inv (snd (mt_run as t)) \<and> fst (mt_run as t) = fst (spec_run as (watches t)) \<and>
  watches (snd (mt_run as t)) = snd (spec_run as (watches t))"
proof (induction as arbitrary: t)
  case (Cons a as)
  have s: "mt_inv (snd (mt_step a t)) \<and> fst (mt_step a t) = fst (spec_step a (watches t)) \<and>
    watches (snd (mt_step a t)) = snd (spec_step a (watches t))"
    by (rule mt_step_spec [OF Cons.prems(1)]) (use Cons.prems(2) in auto)
  then have "fresh_refs as (watches (snd (mt_step a t)))" using Cons.prems(2) by simp
  from Cons.IH [OF conjunct1 [OF s] this] s show ?case by (simp add: split_beta)
qed simp

lemma mt_inv_empty: "mt_inv no_monitors" "watches no_monitors = (\<lambda>x. [])"
  by (simp_all add: mt_inv_def bins_ok_def no_monitors_def held_def watches_lookup fun_eq_iff)

text \<open>
  C27: However monitors are taken out, dropped by their watchers and retired by deaths on either side and by
  nodes going down, the table with its two indexes behaves as one list of watchers per process: the same
  watchers are told of each death, in the order they came, and it keeps a key for a process exactly while
  it is watched and a key for a watcher exactly while it watches.
\<close>

theorem monitors_refine:
  assumes "fresh_refs ops (\<lambda>x. [])" "mt_run ops no_monitors = (outs, t)" "spec_run ops (\<lambda>x. []) = (outs', S)"
  shows "outs = outs' \<and> (\<forall>x. watches t x = S x) \<and>
    Mapping.keys (by_target t) = {x. S x \<noteq> []} \<and> Mapping.keys (by_watcher t) = {p. \<exists>r x. Local p r \<in> set (S x)}"
proof -
  have R: "mt_inv t \<and> outs = outs' \<and> watches t = S"
    using mt_run_spec [of no_monitors ops] mt_inv_empty assms by simp
  then have B: "bins_ok t" and I: "held t p r = Some x \<longleftrightarrow> Local p r \<in> set (S x)" for p r x by (auto simp: mt_inv_def)
  have "x \<in> Mapping.keys (by_target t) \<longleftrightarrow> S x \<noteq> []" for x
    using B R by (cases "Mapping.lookup (by_target t) x") (auto simp: keys_lookup bins_ok_def watches_lookup)
  moreover have "p \<in> Mapping.keys (by_watcher t) \<longleftrightarrow> (\<exists>r x. held t p r = Some x)" for p
    using B by (cases "Mapping.lookup (by_watcher t) p")
      (auto simp: keys_lookup held_def bins_ok_def Mapping.is_empty_def set_eq_iff)
  ultimately show ?thesis using R I by auto
qed

lemma monitors_refine_witness:
  "\<exists>t. mt_run [Watch 7 (Local 1 40), Watch 7 (Remote 3 2 41), RemoveLocal 1 40, TakeTarget 7] no_monitors =
     ([Done, Done, Removed True, Took [Remote 3 2 41]], t) \<and> Mapping.keys (by_target t) = {}"
proof -
  let ?ops = "[Watch 7 (Local 1 40), Watch 7 (Remote 3 2 41), RemoveLocal 1 40, TakeTarget 7]"
  have f: "fresh_refs ?ops (\<lambda>x. [])" by simp
  obtain outs t where r: "mt_run ?ops no_monitors = (outs, t)" by fastforce
  have "snd (spec_run ?ops (\<lambda>x. [])) = (\<lambda>x. [])" by (simp add: fun_eq_iff)
  moreover have "fst (spec_run ?ops (\<lambda>x. [])) = [Done, Done, Removed True, Took [Remote 3 2 41]]" by auto
  ultimately have S: "spec_run ?ops (\<lambda>x. []) = ([Done, Done, Removed True, Took [Remote 3 2 41]], \<lambda>x. [])"
    by (metis prod.collapse)
  from monitors_refine [OF f r S] r show ?thesis by simp
qed

section \<open>Monitors held at other nodes\<close>

record pending =
  watcher_pid :: u64
  mref :: u64
  target_node :: symbol
  target_pid :: u64

type_synonym pending_table = "(symbol, pending list) mapping"

definition record_pending_remote :: "pending \<Rightarrow> pending_table \<Rightarrow> pending_table" where
  "record_pending_remote p t =
     Mapping.update (target_node p) (Mapping.lookup_default [] t (target_node p) @ [p]) t"

definition take_pending :: "symbol \<Rightarrow> u64 \<Rightarrow> u64 \<Rightarrow> pending_table \<Rightarrow> bool \<times> pending_table" where
  "take_pending node w r t = (case Mapping.lookup t node of
     None \<Rightarrow> (False, t)
   | Some v \<Rightarrow>
       (let v' = filter (\<lambda>p. \<not> (watcher_pid p = w \<and> mref p = r)) v
        in (length v' \<noteq> length v, if v' = [] then Mapping.delete node t else Mapping.update node v' t)))"

text \<open>The watcher \<open>pid\<close> died: its pending monitors go with it.\<close>

definition sweep_pending :: "u64 \<Rightarrow> pending_table \<Rightarrow> pending_table" where
  "sweep_pending pid t =
     Mapping.filter (\<lambda>_ ps. ps \<noteq> []) (Mapping.map_values (\<lambda>_ ps. filter (\<lambda>p. watcher_pid p \<noteq> pid) ps) t)"

text \<open>The nodes a \<open>demonitor\<close> has to tell.\<close>

definition demonitor_peers :: "u64 \<Rightarrow> u64 \<Rightarrow> pending_table \<Rightarrow> symbol list" where
  "demonitor_peers me r t =
     filter (\<lambda>node. \<exists>p \<in> set (Mapping.lookup_default [] t node). watcher_pid p = me \<and> mref p = r) (Mapping.ordered_keys t)"

definition pending_node_down :: "symbol \<Rightarrow> pending_table \<Rightarrow> pending list \<times> pending_table" where
  "pending_node_down node t = (Mapping.lookup_default [] t node, Mapping.delete node t)"

section \<open>One-shot claims\<close>

text \<open>
  Several events race to resolve the same entry, each by removing it: whoever removed it acts on it. The
  interface: an entry can be put, claimed by its ident, and claimed with all others of its node.
\<close>

datatype ('k, 'e, 'n) claim_op = Put 'e | Claim 'k | NodeDown 'n

fun claims :: "('e \<Rightarrow> 't \<Rightarrow> 't) \<Rightarrow> ('k \<Rightarrow> 't \<Rightarrow> bool \<times> 't) \<Rightarrow> ('n \<Rightarrow> 't \<Rightarrow> 'e list \<times> 't) \<Rightarrow> ('e \<Rightarrow> 'k) \<Rightarrow>
    ('k, 'e, 'n) claim_op list \<Rightarrow> 't \<Rightarrow> 'k list \<times> 't" where
  "claims put claim node_down ident [] t = ([], t)"
| "claims put claim node_down ident (Put e # ops) t = claims put claim node_down ident ops (put e t)"
| "claims put claim node_down ident (Claim k # ops) t =
     (case claim k t of (b, t) \<Rightarrow> (case claims put claim node_down ident ops t of (ks, t) \<Rightarrow> (if b then k # ks else ks, t)))"
| "claims put claim node_down ident (NodeDown n # ops) t =
     (case node_down n t of (es, t) \<Rightarrow> (case claims put claim node_down ident ops t of (ks, t) \<Rightarrow> (map ident es @ ks, t)))"

text \<open>No entry is put whose key is still there.\<close>

fun fresh_puts :: "('e \<Rightarrow> 't \<Rightarrow> 't) \<Rightarrow> ('k \<Rightarrow> 't \<Rightarrow> bool \<times> 't) \<Rightarrow> ('n \<Rightarrow> 't \<Rightarrow> 'e list \<times> 't) \<Rightarrow> ('e \<Rightarrow> 'k) \<Rightarrow>
    ('t \<Rightarrow> 'k \<Rightarrow> nat) \<Rightarrow> ('k, 'e, 'n) claim_op list \<Rightarrow> 't \<Rightarrow> bool" where
  "fresh_puts put claim node_down ident cnt [] t = True"
| "fresh_puts put claim node_down ident cnt (Put e # ops) t =
     (cnt t (ident e) = 0 \<and> fresh_puts put claim node_down ident cnt ops (put e t))"
| "fresh_puts put claim node_down ident cnt (Claim k # ops) t =
     fresh_puts put claim node_down ident cnt ops (snd (claim k t))"
| "fresh_puts put claim node_down ident cnt (NodeDown n # ops) t =
     fresh_puts put claim node_down ident cnt ops (snd (node_down n t))"

locale one_shot =
  fixes put :: "'e \<Rightarrow> 't \<Rightarrow> 't" and claim :: "'k \<Rightarrow> 't \<Rightarrow> bool \<times> 't" and node_down :: "'n \<Rightarrow> 't \<Rightarrow> 'e list \<times> 't"
    and ident :: "'e \<Rightarrow> 'k" and inv :: "'t \<Rightarrow> bool" and cnt :: "'t \<Rightarrow> 'k \<Rightarrow> nat"
  assumes put_inv: "inv t \<Longrightarrow> cnt t (ident e) = 0 \<Longrightarrow> inv (put e t)"
    and put_count: "inv t \<Longrightarrow> cnt t (ident e) = 0 \<Longrightarrow> cnt (put e t) k = (if k = ident e then 1 else cnt t k)"
    and claim_inv: "inv t \<Longrightarrow> inv (snd (claim k t))"
    and claim_count: "inv t \<Longrightarrow> fst (claim k t) \<longleftrightarrow> cnt t k \<noteq> 0"
    and claimed: "inv t \<Longrightarrow> cnt (snd (claim k t)) k' = (if k' = k then 0 else cnt t k')"
    and once: "inv t \<Longrightarrow> cnt t k \<le> 1"
    and down_inv: "inv t \<Longrightarrow> inv (snd (node_down n t))"
    and down_count: "inv t \<Longrightarrow> count_list (map ident (fst (node_down n t))) k + cnt (snd (node_down n t)) k = cnt t k"
begin

lemma run_inv: "inv t \<Longrightarrow> fresh_puts put claim node_down ident cnt ops t \<Longrightarrow>
    inv (snd (claims put claim node_down ident ops t))"
proof (induction ops arbitrary: t)
  case (Cons op ops)
  then show ?case by (cases op) (simp_all add: split_beta put_inv claim_inv down_inv)
qed simp

text \<open>Every entry put is claimed once or still there.\<close>

lemma resolved_once:
  "inv t \<Longrightarrow> fresh_puts put claim node_down ident cnt ops t \<Longrightarrow> claims put claim node_down ident ops t = (ks, t') \<Longrightarrow>
   count_list ks k + cnt t' k = cnt t k + length (filter (\<lambda>op. \<exists>e. op = Put e \<and> ident e = k) ops)"
proof (induction ops arbitrary: t ks)
  case (Cons op ops)
  show ?case
  proof (cases op)
    case (Put e)
    then show ?thesis using Cons.IH [of "put e t" ks] Cons.prems put_inv [of t e] put_count [of t e k] by auto
  next
    case (Claim c)
    obtain ks' t1 where r1: "claims put claim node_down ident ops (snd (claim c t)) = (ks', t1)" by fastforce
    then have r: "claims put claim node_down ident ops (snd (claim c t)) = (ks', t')"
      "ks = (if fst (claim c t) then c # ks' else ks')"
      using Cons.prems(3) Claim by (auto simp: split_beta)
    from Cons.IH [OF claim_inv [OF Cons.prems(1)] _ r(1)] Cons.prems(1,2) Claim r(2)
      claim_count [of t c] claimed [of t c k] once [of t c] show ?thesis by auto
  next
    case (NodeDown n)
    obtain ks' t1 where r1: "claims put claim node_down ident ops (snd (node_down n t)) = (ks', t1)" by fastforce
    then have r: "claims put claim node_down ident ops (snd (node_down n t)) = (ks', t')"
      "ks = map ident (fst (node_down n t)) @ ks'"
      using Cons.prems(3) NodeDown by (auto simp: split_beta)
    from Cons.IH [OF down_inv [OF Cons.prems(1)] _ r(1)] Cons.prems(1,2) NodeDown r(2) down_count [of t n k]
    show ?thesis by simp
  qed
qed simp

end

text \<open>Pending monitors, named by node, watcher and reference.\<close>

definition pending_id :: "pending \<Rightarrow> symbol \<times> u64 \<times> u64" where
  "pending_id p = (target_node p, watcher_pid p, mref p)"

definition claim_pending :: "symbol \<times> u64 \<times> u64 \<Rightarrow> pending_table \<Rightarrow> bool \<times> pending_table" where
  "claim_pending k t = take_pending (fst k) (fst (snd k)) (snd (snd k)) t"

definition pending_count :: "pending_table \<Rightarrow> symbol \<times> u64 \<times> u64 \<Rightarrow> nat" where
  "pending_count t k = count_list (map pending_id (Mapping.lookup_default [] t (fst k))) k"

definition pending_inv :: "pending_table \<Rightarrow> bool" where
  "pending_inv t \<longleftrightarrow> (\<forall>n. Mapping.lookup t n \<noteq> Some [] \<and> (\<forall>p \<in> set (Mapping.lookup_default [] t n). target_node p = n)) \<and>
     (\<forall>k. pending_count t k \<le> 1)"

lemma count_list_filter: "(\<And>x. x \<in> set xs \<Longrightarrow> p x \<longleftrightarrow> q (f x)) \<Longrightarrow>
    count_list (map f (filter p xs)) y = (if q y then count_list (map f xs) y else 0)"
  by (induction xs) auto

lemma count_list_pos: "0 < count_list xs x \<longleftrightarrow> x \<in> set xs"
  by (induction xs) auto

lemma filter_shorter: "length (filter p xs) \<noteq> length xs \<longleftrightarrow> (\<exists>x \<in> set xs. \<not> p x)"
  by (induction xs) (auto simp: le_imp_less_Suc [OF length_filter_le] less_imp_neq)

lemma lookup_shrink:
  "Mapping.lookup (if v = [] then Mapping.delete k t else Mapping.update k v t) k' =
    (if k' = k then (if v = [] then None else Some v) else Mapping.lookup t k')"
  by (auto simp: Mapping.lookup_update' Mapping.lookup_delete_neq)

lemma default_shrink:
  "Mapping.lookup_default [] (if v = [] then Mapping.delete k t else Mapping.update k v t) k' =
    (if k' = k then v else Mapping.lookup_default [] t k')"
  by (simp add: Mapping.lookup_default_def lookup_shrink)

lemma take_pending_eq:
  assumes "pending_inv t"
  shows "fst (take_pending n w r t) \<longleftrightarrow> pending_count t (n, w, r) \<noteq> 0"
    "Mapping.lookup_default [] (snd (take_pending n w r t)) n' =
      filter (\<lambda>p. pending_id p \<noteq> (n, w, r)) (Mapping.lookup_default [] t n')"
    "Mapping.lookup (snd (take_pending n w r t)) n' \<noteq> Some []"
proof -
  let ?v = "Mapping.lookup_default [] t n"
  have N: "Mapping.lookup t m \<noteq> Some []" "p \<in> set (Mapping.lookup_default [] t m) \<Longrightarrow> target_node p = m" for m p
    using assms by (simp_all add: pending_inv_def)
  have F: "filter (\<lambda>p. \<not> (watcher_pid p = w \<and> mref p = r)) ?v = filter (\<lambda>p. pending_id p \<noteq> (n, w, r)) ?v"
    by (rule filter_cong [OF refl]) (use N(2) [of _ n] in \<open>auto simp: pending_id_def\<close>)
  have other: "filter (\<lambda>p. pending_id p \<noteq> (n, w, r)) (Mapping.lookup_default [] t m) = Mapping.lookup_default [] t m" if "m \<noteq> n" for m
    using N(2) [of _ m] that by (fastforce simp: filter_id_conv pending_id_def)
  show "fst (take_pending n w r t) \<longleftrightarrow> pending_count t (n, w, r) \<noteq> 0"
  proof (cases "Mapping.lookup t n")
    case (Some v)
    then have "fst (take_pending n w r t) \<longleftrightarrow> length (filter (\<lambda>p. pending_id p \<noteq> (n, w, r)) ?v) \<noteq> length ?v"
      using F by (simp add: take_pending_def Let_def Mapping.lookup_default_def)
    then show ?thesis by (force simp: filter_shorter pending_count_def count_list_pos neq0_conv image_iff)
  qed (simp add: take_pending_def pending_count_def Mapping.lookup_default_def)
  show "Mapping.lookup_default [] (snd (take_pending n w r t)) n' = filter (\<lambda>p. pending_id p \<noteq> (n, w, r)) (Mapping.lookup_default [] t n')"
  proof (cases "Mapping.lookup t n")
    case None
    then show ?thesis using other [of n'] by (cases "n' = n") (simp_all add: take_pending_def Mapping.lookup_default_def)
  next
    case (Some v)
    then have "?v = v" by (simp add: Mapping.lookup_default_def)
    then have "snd (take_pending n w r t) = (let v' = filter (\<lambda>p. pending_id p \<noteq> (n, w, r)) ?v
        in if v' = [] then Mapping.delete n t else Mapping.update n v' t)"
      using F Some by (simp add: take_pending_def Let_def)
    then have "Mapping.lookup_default [] (snd (take_pending n w r t)) n' =
        (if n' = n then filter (\<lambda>p. pending_id p \<noteq> (n, w, r)) ?v else Mapping.lookup_default [] t n')"
      by (simp only: Let_def default_shrink)
    then show ?thesis using other [of n'] by (cases "n' = n") simp_all
  qed
  show "Mapping.lookup (snd (take_pending n w r t)) n' \<noteq> Some []"
    using N(1) [of n'] by (cases "Mapping.lookup t n") (auto simp: take_pending_def Let_def lookup_shrink)
qed

lemma pending_filtered:
  assumes "pending_inv t" "\<And>n. Mapping.lookup t' n \<noteq> Some []"
    "\<And>n. Mapping.lookup_default [] t' n = filter (\<lambda>p. q (pending_id p)) (Mapping.lookup_default [] t n)"
  shows "pending_inv t'" "pending_count t' k = (if q k then pending_count t k else 0)"
proof -
  show c: "pending_count t' k = (if q k then pending_count t k else 0)" for k
    by (simp add: pending_count_def assms(3) count_list_filter [where q = q and f = pending_id])
  show "pending_inv t'" using assms c by (auto simp: pending_inv_def)
qed

interpretation pending_claims: one_shot record_pending_remote claim_pending pending_node_down pending_id pending_inv pending_count
proof unfold_locales
  fix t :: pending_table and e :: pending and k k' :: "symbol \<times> u64 \<times> u64" and n :: symbol
  assume inv: "pending_inv t"
  let ?n = "target_node e"
  have put: "Mapping.lookup_default [] (record_pending_remote e t) m = Mapping.lookup_default [] t m @ (if m = ?n then [e] else [])" for m
    by (simp add: record_pending_remote_def Mapping.lookup_default_update')
  have id: "fst (pending_id p) = target_node p" for p by (simp add: pending_id_def)
  show pc: "pending_count (record_pending_remote e t) k = (if k = pending_id e then 1 else pending_count t k)"
    if "pending_count t (pending_id e) = 0" for k
    using that by (auto simp: pending_count_def put id)
  show "pending_inv (record_pending_remote e t)" if z: "pending_count t (pending_id e) = 0"
    using inv unfolding pending_inv_def
  proof (intro conjI allI)
    show "Mapping.lookup (record_pending_remote e t) m \<noteq> Some []" for m
      using inv by (simp add: record_pending_remote_def Mapping.lookup_update' pending_inv_def)
    show "\<forall>p \<in> set (Mapping.lookup_default [] (record_pending_remote e t) m). target_node p = m" for m
      using inv by (auto simp: put pending_inv_def)
    show "pending_count (record_pending_remote e t) k \<le> 1" for k
      unfolding pc [OF z] using inv unfolding pending_inv_def by (cases "k = pending_id e") (simp_all del: split_paired_All)
  qed
  obtain n' w r where k: "k = (n', w, r)" by (cases k) auto
  note C = take_pending_eq [OF inv, of n' w r]
  note D = pending_filtered [OF inv C(3), of "\<lambda>x. x \<noteq> k", unfolded k, OF C(2)]
  show "pending_inv (snd (claim_pending k t))" "fst (claim_pending k t) \<longleftrightarrow> pending_count t k \<noteq> 0"
    "pending_count (snd (claim_pending k t)) k' = (if k' = k then 0 else pending_count t k')"
    using C(1) D by (simp_all add: claim_pending_def k)
  show "pending_count t k \<le> 1" using inv unfolding pending_inv_def by blast
  have N: "p \<in> set (Mapping.lookup_default [] t m) \<Longrightarrow> target_node p = m" for m p
    using inv by (simp add: pending_inv_def)
  have "Mapping.lookup_default [] (Mapping.delete n t) m = filter (\<lambda>p. fst (pending_id p) \<noteq> n) (Mapping.lookup_default [] t m)" for m
    using N [of _ m] by (cases "m = n") (auto simp: Mapping.lookup_default_def Mapping.lookup_delete_neq id filter_id_conv filter_empty_conv [symmetric] intro!: filter_False [symmetric])
  moreover have "Mapping.lookup (Mapping.delete n t) m \<noteq> Some []" for m
    using inv by (cases "m = n") (simp_all add: pending_inv_def Mapping.lookup_delete_neq)
  ultimately have E: "pending_inv (Mapping.delete n t)"
    "pending_count (Mapping.delete n t) k = (if fst k \<noteq> n then pending_count t k else 0)" for k
    using pending_filtered [OF inv, of "Mapping.delete n t" "\<lambda>x. fst x \<noteq> n"] by blast+
  show "pending_inv (snd (pending_node_down n t))" using E(1) by (simp add: pending_node_down_def)
  have "count_list (map pending_id (Mapping.lookup_default [] t n)) k = (if fst k = n then pending_count t k else 0)"
  proof (cases "fst k = n")
    case False
    then have "k \<notin> pending_id ` set (Mapping.lookup_default [] t n)" using N by (auto simp: id)
    then show ?thesis using False count_list_pos [of "map pending_id (Mapping.lookup_default [] t n)" k] by auto
  qed (simp add: pending_count_def)
  then show "count_list (map pending_id (fst (pending_node_down n t))) k + pending_count (snd (pending_node_down n t)) k = pending_count t k"
    using E(2) by (simp add: pending_node_down_def)
qed

abbreviation pending_fresh :: "(symbol \<times> u64 \<times> u64, pending, symbol) claim_op list \<Rightarrow> pending_table \<Rightarrow> bool" where
  "pending_fresh \<equiv> fresh_puts record_pending_remote claim_pending pending_node_down pending_id pending_count"

abbreviation pending_run :: "(symbol \<times> u64 \<times> u64, pending, symbol) claim_op list \<Rightarrow> pending_table \<Rightarrow>
    (symbol \<times> u64 \<times> u64) list \<times> pending_table" where
  "pending_run \<equiv> claims record_pending_remote claim_pending pending_node_down pending_id"

text \<open>
  A monitor of a remote process is resolved once: whatever order the demonitor, the arriving down, the
  unreachable-peer fallback and the loss of the node come in, exactly one of them removes the entry and may
  act on it, and until one does the entry is there.
\<close>

theorem remote_monitor_once:
  assumes "pending_fresh ops Mapping.empty" "pending_run ops Mapping.empty = (resolved, t)"
  shows "count_list resolved k + pending_count t k = length (filter (\<lambda>op. \<exists>p. op = Put p \<and> pending_id p = k) ops) \<and>
    pending_count t k \<le> 1"
proof -
  have e: "pending_inv Mapping.empty" "pending_count Mapping.empty k = 0"
    by (simp_all add: pending_inv_def pending_count_def Mapping.lookup_default_empty)
  have "pending_inv t \<Longrightarrow> pending_count t k \<le> 1" by (rule pending_claims.once)
  moreover have "pending_inv t" using pending_claims.run_inv [OF e(1) assms(1)] assms(2) by simp
  ultimately show ?thesis using pending_claims.resolved_once [OF e(1) assms, of k] e(2) by simp
qed

lemma remote_monitor_once_witness:
  "let m = \<lparr>watcher_pid = 1, mref = 9, target_node = 3, target_pid = 8\<rparr> in
   count_list (fst (pending_run [Put m, Claim (3, 1, 9), NodeDown 3] Mapping.empty)) (3, 1, 9) \<le> 1"
proof -
  let ?m = "\<lparr>watcher_pid = 1, mref = 9, target_node = 3, target_pid = 8\<rparr>"
  let ?ops = "[Put ?m, Claim (3, 1, 9), NodeDown 3]"
  obtain ks t where r: "pending_run ?ops Mapping.empty = (ks, t)" by fastforce
  have "pending_fresh ?ops Mapping.empty" by (simp add: pending_count_def Mapping.lookup_default_empty)
  from remote_monitor_once [OF this r, of "(3, 1, 9)"] r show ?thesis by (simp add: Let_def pending_id_def)
qed

end
