(* ===== verification/Links.thy ===== *)
theory Links
  imports Monitors
begin

text \<open>
  Links, monitors and death (\<open>process/links.rs\<close>, \<open>process/monitor.rs\<close>, \<open>process/scheduler/lifecycle.rs\<close>):
  the tables of one runtime, the operations on them and the steps in which a process dies. A delivery
  under a table's lock is part of that step. The names a death releases are those of \<open>Names\<close>; sockets and the
  other resources are left out; frames to other nodes are collected in order.
\<close>

text \<open>The interned keywords of the signals, this node's name, and the time and origin of a delivery.\<close>

record setting =
  NOPROC_SYMBOL :: symbol
  EXIT_SYMBOL :: symbol
  DOWN_SYMBOL :: symbol
  NORMAL_SYMBOL :: symbol
  KILL_SYMBOL :: symbol
  KILLED_SYMBOL :: symbol
  NOCONNECTION :: symbol
  NODEDOWN :: symbol
  NONODE :: symbol
  local_node :: symbol
  now :: u64
  delivery_origin :: origin

datatype sent = LinkExit symbol u64 u64 "symbol message" | DownTo symbol u64 u64 u64 "symbol message"

type_synonym remote_peer = "symbol \<times> u64"

record runtime =
  REGISTRY :: registry
  LINKS :: "(u64, u64 set) mapping"
  REMOTE_LINKS :: "(u64, remote_peer list) mapping"
  MONITORS :: monitor_table
  PENDING_REMOTE :: pending_table
  wire :: "sent list"
  woken :: "wake list"

definition fresh_runtime :: runtime where
  "fresh_runtime = \<lparr>REGISTRY = (\<lambda>_. None), LINKS = Mapping.empty, REMOTE_LINKS = Mapping.empty, MONITORS = no_monitors,
     PENDING_REMOTE = Mapping.empty, wire = [], woken = []\<rparr>"

section \<open>Exit signals\<close>

definition deliver :: "setting \<Rightarrow> u64 \<Rightarrow> symbol message \<Rightarrow> runtime \<Rightarrow> runtime" where
  "deliver K pid m rt = (case deliver_envelope (now K) (delivery_origin K) pid (plain m) (REGISTRY rt) of
     (wake, reg) \<Rightarrow> rt\<lparr>REGISTRY := reg, woken := woken rt @ (case wake of Some w \<Rightarrow> [w] | None \<Rightarrow> [])\<rparr>)"

definition local_pid :: "setting \<Rightarrow> u64 \<Rightarrow> symbol message" where
  "local_pid K pid = MPid (local_node K) pid"

definition exit_with :: "u64 \<Rightarrow> symbol message \<Rightarrow> bool \<Rightarrow> runtime \<Rightarrow> runtime" where
  "exit_with pid reason hard rt = (case REGISTRY rt pid of
     None \<Rightarrow> rt
   | Some mb \<Rightarrow>
       (let mb = request_kill reason hard mb
        in case take_wake (state mb) of
          (w, st) \<Rightarrow> rt\<lparr>REGISTRY := (REGISTRY rt)(pid \<mapsto> mb\<lparr>state := st\<rparr>), woken := woken rt @ [w]\<rparr>))"

definition exit_propagate :: "u64 \<Rightarrow> symbol message \<Rightarrow> runtime \<Rightarrow> runtime" where
  "exit_propagate pid reason rt = exit_with pid reason True rt"

definition is_kill_reason :: "setting \<Rightarrow> symbol message \<Rightarrow> bool" where
  "is_kill_reason K reason \<longleftrightarrow> reason = MKeyword (KILL_SYMBOL K)"

definition exit_signal :: "setting \<Rightarrow> u64 \<Rightarrow> symbol message \<Rightarrow> runtime \<Rightarrow> runtime" where
  "exit_signal K pid reason rt =
     (let hard = is_kill_reason K reason;
          reason = (if hard then MKeyword (KILLED_SYMBOL K) else reason)
      in exit_with pid reason hard rt)"

definition traps_exit :: "u64 \<Rightarrow> runtime \<Rightarrow> bool" where
  "traps_exit pid rt = (case REGISTRY rt pid of Some mb \<Rightarrow> trap_exit mb | None \<Rightarrow> False)"

definition is_normal :: "setting \<Rightarrow> symbol message \<Rightarrow> bool" where
  "is_normal K reason \<longleftrightarrow> reason = MKeyword (NORMAL_SYMBOL K)"

definition exit_message :: "setting \<Rightarrow> symbol message \<Rightarrow> symbol message \<Rightarrow> symbol message" where
  "exit_message K dead_msg reason = MVector [MKeyword (EXIT_SYMBOL K), dead_msg, reason]"

definition deliver_exit_to :: "setting \<Rightarrow> u64 \<Rightarrow> symbol message \<Rightarrow> symbol message \<Rightarrow> runtime \<Rightarrow> runtime" where
  "deliver_exit_to K peer dead_msg reason rt =
     (if traps_exit peer rt then deliver K peer (exit_message K dead_msg reason) rt
      else if \<not> is_normal K reason then exit_propagate peer reason rt
      else rt)"

section \<open>Links between processes of this runtime\<close>

definition linked :: "runtime \<Rightarrow> u64 \<Rightarrow> u64 set" where
  "linked rt a = Mapping.lookup_default {} (LINKS rt) a"

definition link :: "setting \<Rightarrow> u64 \<Rightarrow> u64 \<Rightarrow> runtime \<Rightarrow> runtime" where
  "link K a b rt =
     (if a = b then rt
      else if REGISTRY rt b \<noteq> None then
        (let L = Mapping.update a (insert b (Mapping.lookup_default {} (LINKS rt) a)) (LINKS rt)
         in rt\<lparr>LINKS := Mapping.update b (insert a (Mapping.lookup_default {} L b)) L\<rparr>)
      else deliver_exit_to K a (local_pid K b) (MKeyword (NOPROC_SYMBOL K)) rt)"

definition unlink :: "u64 \<Rightarrow> u64 \<Rightarrow> runtime \<Rightarrow> runtime" where
  "unlink a b rt =
     (let L = Mapping.map_entry a (\<lambda>s. s - {b}) (LINKS rt)
      in rt\<lparr>LINKS := Mapping.map_entry b (\<lambda>s. s - {a}) L\<rparr>)"

definition set_trap_exit :: "u64 \<Rightarrow> bool \<Rightarrow> runtime \<Rightarrow> bool \<times> runtime" where
  "set_trap_exit pid on rt = (case REGISTRY rt pid of
     Some mb \<Rightarrow> (trap_exit mb, rt\<lparr>REGISTRY := (REGISTRY rt)(pid \<mapsto> mb\<lparr>trap_exit := on\<rparr>)\<rparr>)
   | None \<Rightarrow> (False, rt))"

definition link_count :: "u64 \<Rightarrow> runtime \<Rightarrow> nat" where
  "link_count pid rt = card (linked rt pid)"

definition notify_peers :: "setting \<Rightarrow> u64 \<Rightarrow> symbol message \<Rightarrow> runtime \<Rightarrow> runtime" where
  "notify_peers K dead reason rt =
     (let peers = sorted_list_of_set (linked rt dead);
          L = fold (\<lambda>q L. Mapping.map_entry q (\<lambda>s. s - {dead}) L) peers (Mapping.delete dead (LINKS rt));
          rt = fold (\<lambda>q rt. deliver_exit_to K q (local_pid K dead) reason rt) peers (rt\<lparr>LINKS := L\<rparr>);
          remote_peers = Mapping.lookup_default [] (REMOTE_LINKS rt) dead
      in rt\<lparr>REMOTE_LINKS := Mapping.delete dead (REMOTE_LINKS rt),
            wire := wire rt @ map (\<lambda>(node, q). LinkExit node q dead reason) remote_peers\<rparr>)"

section \<open>Links across nodes\<close>

text \<open>The table alone; an entry is a process here, the node and the process there.\<close>

type_synonym link_table = "(u64, remote_peer list) mapping"

definition put_link :: "u64 \<times> symbol \<times> u64 \<Rightarrow> link_table \<Rightarrow> link_table" where
  "put_link e t = (case e of (me, node, remote_pid) \<Rightarrow>
     (let v = Mapping.lookup_default [] t me;
          v = (if (node, remote_pid) \<notin> set v then v @ [(node, remote_pid)] else v)
      in Mapping.update me v t))"

definition take_link :: "u64 \<times> symbol \<times> u64 \<Rightarrow> link_table \<Rightarrow> bool \<times> link_table" where
  "take_link e t = (case e of (me, node, remote_pid) \<Rightarrow>
     (case Mapping.lookup t me of
        None \<Rightarrow> (False, t)
      | Some peers \<Rightarrow>
          (let peers' = filter (\<lambda>p. p \<noteq> (node, remote_pid)) peers
           in (length peers' \<noteq> length peers,
               if peers' = [] then Mapping.delete me t else Mapping.update me peers' t))))"

definition record_remote_link :: "u64 \<Rightarrow> symbol \<Rightarrow> u64 \<Rightarrow> runtime \<Rightarrow> bool \<times> runtime" where
  "record_remote_link me node remote_pid rt =
     (if REGISTRY rt me = None then (False, rt)
      else (True, rt\<lparr>REMOTE_LINKS := put_link (me, node, remote_pid) (REMOTE_LINKS rt)\<rparr>))"

definition drop_remote_link :: "u64 \<Rightarrow> symbol \<Rightarrow> u64 \<Rightarrow> runtime \<Rightarrow> bool \<times> runtime" where
  "drop_remote_link me node remote_pid rt =
     (case take_link (me, node, remote_pid) (REMOTE_LINKS rt) of (removed, t) \<Rightarrow> (removed, rt\<lparr>REMOTE_LINKS := t\<rparr>))"

definition deliver_remote_link_exit :: "setting \<Rightarrow> u64 \<Rightarrow> symbol \<Rightarrow> u64 \<Rightarrow> symbol message \<Rightarrow> runtime \<Rightarrow> runtime" where
  "deliver_remote_link_exit K to_pid peer_node from_pid reason rt =
     (case drop_remote_link to_pid peer_node from_pid rt of
        (False, rt) \<Rightarrow> rt
      | (True, rt) \<Rightarrow> deliver_exit_to K to_pid (MPid peer_node from_pid) reason rt)"

text \<open>The links lost with a node, and the table without them.\<close>

definition lost_links :: "symbol \<Rightarrow> link_table \<Rightarrow> (u64 \<times> symbol \<times> u64) list \<times> link_table" where
  "lost_links node t =
     (concat (map (\<lambda>pid. map (Pair pid) (filter (\<lambda>p. fst p = node) (Mapping.lookup_default [] t pid))) (Mapping.ordered_keys t)),
      Mapping.filter (\<lambda>_ peers. peers \<noteq> []) (Mapping.map_values (\<lambda>_ peers. filter (\<lambda>p. fst p \<noteq> node) peers) t))"

definition links_node_down :: "setting \<Rightarrow> symbol \<Rightarrow> runtime \<Rightarrow> runtime" where
  "links_node_down K node rt =
     (case lost_links node (REMOTE_LINKS rt) of
        (affected, t) \<Rightarrow>
          fold (\<lambda>(pid, n, remote) rt. deliver_exit_to K pid (MPid node remote) (MKeyword (NOCONNECTION K)) rt) affected
            (rt\<lparr>REMOTE_LINKS := t\<rparr>))"

section \<open>Monitors and the death of a process\<close>

definition down_message :: "setting \<Rightarrow> symbol message \<Rightarrow> u64 \<Rightarrow> symbol message \<Rightarrow> symbol message" where
  "down_message K pid_msg r reason = MVector [MKeyword (DOWN_SYMBOL K), MRef r, pid_msg, reason]"

definition fire_down :: "setting \<Rightarrow> watcher \<Rightarrow> u64 \<Rightarrow> symbol message \<Rightarrow> runtime \<Rightarrow> runtime" where
  "fire_down K w dying_pid reason rt = (case w of
     Local pid r \<Rightarrow> deliver K pid (down_message K (local_pid K dying_pid) r reason) rt
   | Remote node pid r \<Rightarrow> rt\<lparr>wire := wire rt @ [DownTo node pid r dying_pid reason]\<rparr>)"

definition add_monitor :: "setting \<Rightarrow> u64 \<Rightarrow> watcher \<Rightarrow> runtime \<Rightarrow> runtime" where
  "add_monitor K target w rt =
     (if REGISTRY rt target \<noteq> None then rt\<lparr>MONITORS := watch target w (MONITORS rt)\<rparr>
      else fire_down K w target (MKeyword (NOPROC_SYMBOL K)) rt)"

definition demonitor_for :: "u64 \<Rightarrow> u64 \<Rightarrow> runtime \<Rightarrow> runtime" where
  "demonitor_for me r rt = rt\<lparr>MONITORS := snd (remove_local me r (MONITORS rt))\<rparr>"

definition sweep_dead_watcher :: "u64 \<Rightarrow> runtime \<Rightarrow> runtime" where
  "sweep_dead_watcher pid rt =
     rt\<lparr>MONITORS := remove_watcher pid (MONITORS rt), PENDING_REMOTE := sweep_pending pid (PENDING_REMOTE rt)\<rparr>"

definition is_local :: "watcher \<Rightarrow> bool" where
  "is_local w = (case w of Local _ _ \<Rightarrow> True | Remote _ _ _ \<Rightarrow> False)"

definition fire_downs :: "setting \<Rightarrow> u64 \<Rightarrow> symbol message \<Rightarrow> runtime \<Rightarrow> runtime" where
  "fire_downs K pid reason rt =
     (case take_target pid (MONITORS rt) of
        (ws, mons) \<Rightarrow>
          fold (\<lambda>w rt. fire_down K w pid reason rt) (filter (\<lambda>w. \<not> is_local w) ws)
            (fold (\<lambda>w rt. fire_down K w pid reason rt) (filter is_local ws) (rt\<lparr>MONITORS := mons\<rparr>)))"

definition retire_pid_tail :: "setting \<Rightarrow> u64 \<Rightarrow> symbol message \<Rightarrow> runtime \<Rightarrow> runtime" where
  "retire_pid_tail K pid reason rt =
     (let rt = sweep_dead_watcher pid rt; rt = fire_downs K pid reason rt in notify_peers K pid reason rt)"

definition deregister :: "setting \<Rightarrow> u64 \<Rightarrow> symbol message \<Rightarrow> runtime \<Rightarrow> runtime" where
  "deregister K pid reason rt = retire_pid_tail K pid reason (rt\<lparr>REGISTRY := (REGISTRY rt)(pid := None)\<rparr>)"

definition deliver_remote_down :: "setting \<Rightarrow> symbol \<Rightarrow> u64 \<Rightarrow> u64 \<Rightarrow> u64 \<Rightarrow> symbol message \<Rightarrow> runtime \<Rightarrow> runtime" where
  "deliver_remote_down K peer w r target reason rt =
     (case take_pending peer w r (PENDING_REMOTE rt) of
        (False, t) \<Rightarrow> rt\<lparr>PENDING_REMOTE := t\<rparr>
      | (True, t) \<Rightarrow> deliver K w (down_message K (MPid peer target) r reason) (rt\<lparr>PENDING_REMOTE := t\<rparr>))"

definition noconnection_down :: "setting \<Rightarrow> symbol \<Rightarrow> u64 \<Rightarrow> u64 \<Rightarrow> symbol message" where
  "noconnection_down K node target r = down_message K (MPid node target) r (MKeyword (NOCONNECTION K))"

definition fire_noconnection_if_pending :: "setting \<Rightarrow> symbol \<Rightarrow> u64 \<Rightarrow> u64 \<Rightarrow> u64 \<Rightarrow> runtime \<Rightarrow> runtime" where
  "fire_noconnection_if_pending K node target w r rt =
     (case take_pending node w r (PENDING_REMOTE rt) of
        (False, t) \<Rightarrow> rt\<lparr>PENDING_REMOTE := t\<rparr>
      | (True, t) \<Rightarrow> deliver K w (noconnection_down K node target r) (rt\<lparr>PENDING_REMOTE := t\<rparr>))"

definition monitors_node_down :: "setting \<Rightarrow> symbol \<Rightarrow> runtime \<Rightarrow> runtime" where
  "monitors_node_down K node rt =
     (case pending_node_down node (PENDING_REMOTE rt) of
        (ps, t) \<Rightarrow>
          (let rt = fold (\<lambda>p rt. deliver K (watcher_pid p) (noconnection_down K (target_node p) (target_pid p) (mref p)) rt) ps
                 (rt\<lparr>PENDING_REMOTE := t\<rparr>)
           in rt\<lparr>MONITORS := retain_all (\<lambda>w. case w of Remote n _ _ \<Rightarrow> n = node | Local _ _ \<Rightarrow> False) (MONITORS rt)\<rparr>))"

text \<open>The mailbox of a new process is registered, linked and watched before the process can run.\<close>

definition spawn_registered :: "setting \<Rightarrow> u64 \<Rightarrow> u64 \<Rightarrow> bool \<Rightarrow> u64 option \<Rightarrow> runtime \<Rightarrow> runtime" where
  "spawn_registered K pid spawner link_parent monitor_ref rt =
     (let rt = rt\<lparr>REGISTRY := (REGISTRY rt)(pid \<mapsto> new_mailbox\<lparr>parent := spawner\<rparr>)\<rparr>;
          rt = (if link_parent then link K spawner pid rt else rt)
      in case monitor_ref of Some r \<Rightarrow> add_monitor K pid (Local spawner r) rt | None \<Rightarrow> rt)"

end
