(* ===== verification/Names.thy ===== *)
theory Names
  imports Links
begin

text \<open>
  Registered names (\<open>dist.rs\<close>): the two-way name table, and the operations on it that also read or write
  the registry of processes under the table's lock.
\<close>

section \<open>The name table\<close>

record name_table =
  by_name :: "(symbol, u64) mapping"
  by_pid :: "(u64, symbol list) mapping"

definition no_names :: name_table where
  "no_names = \<lparr>by_name = Mapping.empty, by_pid = Mapping.empty\<rparr>"

definition get_name :: "symbol \<Rightarrow> name_table \<Rightarrow> u64 option" where
  "get_name name t = Mapping.lookup (by_name t) name"

definition forget_name_of :: "u64 \<Rightarrow> symbol \<Rightarrow> name_table \<Rightarrow> name_table" where
  "forget_name_of pid name t = (case Mapping.lookup (by_pid t) pid of
     None \<Rightarrow> t
   | Some names \<Rightarrow>
       (let names = filter (\<lambda>held. held \<noteq> name) names
        in t\<lparr>by_pid := (if names = [] then Mapping.delete pid (by_pid t) else Mapping.update pid names (by_pid t))\<rparr>))"

definition bind_name :: "symbol \<Rightarrow> u64 \<Rightarrow> name_table \<Rightarrow> name_table" where
  "bind_name name pid t =
     (let previous = Mapping.lookup (by_name t) name;
          t = t\<lparr>by_name := Mapping.update name pid (by_name t)\<rparr>
      in if previous = Some pid then t
         else
           (let t = (case previous of Some q \<Rightarrow> forget_name_of q name t | None \<Rightarrow> t)
            in t\<lparr>by_pid := Mapping.update pid (Mapping.lookup_default [] (by_pid t) pid @ [name]) (by_pid t)\<rparr>))"

definition unbind :: "symbol \<Rightarrow> name_table \<Rightarrow> u64 option \<times> name_table" where
  "unbind name t = (case Mapping.lookup (by_name t) name of
     None \<Rightarrow> (None, t)
   | Some pid \<Rightarrow> (Some pid, forget_name_of pid name (t\<lparr>by_name := Mapping.delete name (by_name t)\<rparr>)))"

definition unbind_pid :: "u64 \<Rightarrow> name_table \<Rightarrow> name_table" where
  "unbind_pid pid t =
     (let names = Mapping.lookup_default [] (by_pid t) pid
      in fold (\<lambda>name t. t\<lparr>by_name := Mapping.delete name (by_name t)\<rparr>) names (t\<lparr>by_pid := Mapping.delete pid (by_pid t)\<rparr>))"

definition holds_any :: "u64 \<Rightarrow> name_table \<Rightarrow> bool" where
  "holds_any pid t \<longleftrightarrow> Mapping.lookup (by_pid t) pid \<noteq> None"

definition first_name_of :: "u64 \<Rightarrow> name_table \<Rightarrow> symbol option" where
  "first_name_of pid t =
     Option.bind (Mapping.lookup (by_pid t) pid) (\<lambda>names. if names = [] then None else Some (hd names))"

section \<open>The specification\<close>

text \<open>A list of the bindings in the order they were made, one per name.\<close>

type_synonym bindings = "(symbol \<times> u64) list"

definition names_held :: "u64 \<Rightarrow> bindings \<Rightarrow> symbol list" where
  "names_held pid L = map fst (filter (\<lambda>b. snd b = pid) L)"

definition bound :: "name_table \<Rightarrow> bindings \<Rightarrow> bool" where
  "bound t L \<longleftrightarrow> distinct (map fst L) \<and> Mapping.lookup (by_name t) = map_of L \<and>
     (\<forall>p. Mapping.lookup (by_pid t) p = (if names_held p L = [] then None else Some (names_held p L)))"

datatype name_op = Bind symbol u64 | Unbind symbol | UnbindPid u64 | Get symbol | FirstName u64 | HoldsAny u64

datatype name_out = Nothing | Pids "u64 option" | FoundName "symbol option" | Holds bool

fun name_step :: "name_op \<Rightarrow> name_table \<Rightarrow> name_out \<times> name_table" where
  "name_step (Bind n p) t = (Nothing, bind_name n p t)"
| "name_step (Unbind n) t = (case unbind n t of (r, t) \<Rightarrow> (Pids r, t))"
| "name_step (UnbindPid p) t = (Nothing, unbind_pid p t)"
| "name_step (Get n) t = (Pids (get_name n t), t)"
| "name_step (FirstName p) t = (FoundName (first_name_of p t), t)"
| "name_step (HoldsAny p) t = (Holds (holds_any p t), t)"

fun bound_step :: "name_op \<Rightarrow> bindings \<Rightarrow> name_out \<times> bindings" where
  "bound_step (Bind n p) L = (Nothing, if (n, p) \<in> set L then L else filter (\<lambda>b. fst b \<noteq> n) L @ [(n, p)])"
| "bound_step (Unbind n) L = (Pids (map_of L n), filter (\<lambda>b. fst b \<noteq> n) L)"
| "bound_step (UnbindPid p) L = (Nothing, filter (\<lambda>b. snd b \<noteq> p) L)"
| "bound_step (Get n) L = (Pids (map_of L n), L)"
| "bound_step (FirstName p) L = (FoundName (map_option fst (find (\<lambda>b. snd b = p) L)), L)"
| "bound_step (HoldsAny p) L = (Holds (\<exists>b \<in> set L. snd b = p), L)"

fun name_run :: "name_op list \<Rightarrow> name_table \<Rightarrow> name_out list \<times> name_table" where
  "name_run [] t = ([], t)"
| "name_run (a # as) t = (case name_step a t of (out, t) \<Rightarrow> (case name_run as t of (outs, t) \<Rightarrow> (out # outs, t)))"

fun bound_run :: "name_op list \<Rightarrow> bindings \<Rightarrow> name_out list \<times> bindings" where
  "bound_run [] L = ([], L)"
| "bound_run (a # as) L = (case bound_step a L of (out, L) \<Rightarrow> (case bound_run as L of (outs, L) \<Rightarrow> (out # outs, L)))"

lemma lookup_gone: "Mapping.lookup (Mapping.delete s m) t = (if t = s then None else Mapping.lookup m t)"
  by (cases "t = s") (simp_all add: Mapping.lookup_delete_neq)

lemma held_other: "(n, p) \<notin> set L \<Longrightarrow> names_held p (filter (\<lambda>b. fst b \<noteq> n) L) = names_held p L"
  by (induction L) (auto simp: names_held_def)

lemma held_without: "names_held p (filter (\<lambda>b. fst b \<noteq> n) L) = filter (\<lambda>m. m \<noteq> n) (names_held p L)"
  by (induction L) (auto simp: names_held_def)

lemma held_mem: "n \<in> set (names_held p L) \<longleftrightarrow> (n, p) \<in> set L"
  by (force simp: names_held_def)

lemma map_of_without: "map_of (filter (\<lambda>b. fst b \<noteq> n) L) = (map_of L)(n := None)"
  by (induction L) (auto simp: fun_eq_iff)

lemma bound_lookup: "bound t L \<Longrightarrow> Mapping.lookup_default [] (by_pid t) p = names_held p L"
  by (simp add: bound_def Mapping.lookup_default_def)

lemma forget_by_name [simp]: "by_name (forget_name_of p n t) = by_name t"
  by (simp add: forget_name_of_def Let_def split: option.split)

lemma forget_by_pid:
  assumes "\<forall>q. Mapping.lookup (by_pid t) q = (if names_held q L = [] then None else Some (names_held q L))"
    "map_of L n = Some p" "distinct (map fst L)"
  shows "Mapping.lookup (by_pid (forget_name_of p n t)) q =
    (let ns = names_held q (filter (\<lambda>b. fst b \<noteq> n) L) in if ns = [] then None else Some ns)"
proof (cases "q = p")
  case True
  have "names_held p L \<noteq> []" using assms(2) held_mem [of n p L] map_of_SomeD by fastforce
  then show ?thesis using True assms(1) by (auto simp: forget_name_of_def Let_def held_without)
next
  case False
  then have "(n, q) \<notin> set L" using assms(2,3) by (metis False map_of_is_SomeI option.inject)
  then have "names_held q (filter (\<lambda>b. fst b \<noteq> n) L) = names_held q L" by (rule held_other)
  moreover have "Mapping.lookup (by_pid (forget_name_of p n t)) q = Mapping.lookup (by_pid t) q"
    using False by (simp add: forget_name_of_def Let_def Mapping.lookup_update' Mapping.lookup_delete_neq split: option.split)
  ultimately show ?thesis using assms(1) by (simp add: Let_def)
qed

text \<open>Dropping the binding of a name, wherever it is.\<close>

lemma bound_forget:
  assumes "bound t L" "map_of L n = Some p"
  shows "bound (forget_name_of p n (t\<lparr>by_name := Mapping.delete n (by_name t)\<rparr>)) (filter (\<lambda>b. fst b \<noteq> n) L)"
  using assms forget_by_pid [of "t\<lparr>by_name := Mapping.delete n (by_name t)\<rparr>" L n p]
  by (auto simp: bound_def map_of_without distinct_map_filter Let_def Mapping.lookup_delete fun_eq_iff Mapping.lookup_delete_neq)

lemma bound_append:
  assumes "bound t L" "map_of L n = None"
  shows "bound (t\<lparr>by_name := Mapping.update n p (by_name t),
      by_pid := Mapping.update p (Mapping.lookup_default [] (by_pid t) p @ [n]) (by_pid t)\<rparr>) (L @ [(n, p)])"
proof -
  have "n \<notin> fst ` set L" using assms(2) by (metis map_of_eq_None_iff)
  moreover have "names_held q (L @ [(n, p)]) = names_held q L @ (if q = p then [n] else [])" for q
    by (simp add: names_held_def)
  ultimately show ?thesis using assms bound_lookup [OF assms(1)]
    by (auto simp: bound_def fun_eq_iff Mapping.lookup_update' map_add_def split: option.split)
qed

lemma bind_name_fields:
  assumes "bound t L"
  shows "bound (bind_name n p t) (snd (bound_step (Bind n p) L))"
proof (cases "map_of L n")
  case None
  then have "(n, p) \<notin> set L" "filter (\<lambda>b. fst b \<noteq> n) L = L"
    by (force simp: map_of_eq_None_iff filter_id_conv image_iff)+
  then show ?thesis using bound_append [OF assms None, of p] None assms
    by (simp add: bind_name_def Let_def bound_def [of t])
next
  case (Some q)
  have mem: "(n, p) \<in> set L \<longleftrightarrow> q = p"
  proof
    assume "(n, p) \<in> set L"
    then have "map_of L n = Some p" using assms by (simp add: bound_def map_of_is_SomeI)
    then show "q = p" using Some by simp
  qed (use map_of_SomeD [OF Some] in simp)
  have up: "Mapping.update n p (by_name t) = Mapping.update n p (Mapping.delete n (by_name t))"
    by (intro mapping_eqI) (simp add: Mapping.lookup_update' Mapping.lookup_delete_neq)
  show ?thesis
  proof (cases "q = p")
    case True
    then have "Mapping.update n p (by_name t) = by_name t"
      using Some assms by (intro mapping_eqI) (auto simp: bound_def Mapping.lookup_update')
    then show ?thesis using True Some assms mem by (simp add: bind_name_def bound_def [of t] Let_def)
  next
    case False
    let ?t = "forget_name_of q n (t\<lparr>by_name := Mapping.delete n (by_name t)\<rparr>)"
    have f: "forget_name_of q n (t\<lparr>by_name := b\<rparr>) = (forget_name_of q n t)\<lparr>by_name := b\<rparr>" for b
      by (simp add: forget_name_of_def Let_def split: option.split)
    have "bound ?t (filter (\<lambda>b. fst b \<noteq> n) L)" by (rule bound_forget [OF assms Some])
    from bound_append [OF this, of n p] show ?thesis using False Some mem assms
      by (simp add: bind_name_def bound_def [of t] Let_def map_of_without f up [symmetric])
  qed
qed

lemma fold_delete:
  "by_pid (fold (\<lambda>n t. t\<lparr>by_name := Mapping.delete n (by_name t)\<rparr>) ns t) = by_pid t"
  "Mapping.lookup (by_name (fold (\<lambda>n t. t\<lparr>by_name := Mapping.delete n (by_name t)\<rparr>) ns t)) m =
     (if m \<in> set ns then None else Mapping.lookup (by_name t) m)"
  by (induction ns arbitrary: t) (auto simp: Mapping.lookup_delete_neq)

lemma held_filter: "names_held q (filter (\<lambda>b. snd b \<noteq> p) L) = (if q = p then [] else names_held q L)"
  by (induction L) (auto simp: names_held_def)

lemma map_of_others: "distinct (map fst L) \<Longrightarrow>
  map_of (filter (\<lambda>b. snd b \<noteq> p) L) m = (if (m, p) \<in> set L then None else map_of L m)"
proof (induction L)
  case (Cons b L)
  have "m \<notin> fst ` set L \<Longrightarrow> map_of L m = None" by (simp add: map_of_eq_None_iff)
  moreover have "(m, p) \<in> set L \<Longrightarrow> m \<in> fst ` set L" by force
  ultimately show ?case using Cons by (cases b) auto
qed simp

lemma unbind_pid_bound:
  assumes "bound t L"
  shows "bound (unbind_pid p t) (filter (\<lambda>b. snd b \<noteq> p) L)"
proof -
  have "distinct (map fst L)" using assms by (simp add: bound_def)
  then have "map_of (filter (\<lambda>b. snd b \<noteq> p) L) m = (if (m, p) \<in> set L then None else map_of L m)" for m
    by (rule map_of_others)
  then show ?thesis using assms bound_lookup [OF assms]
    by (auto simp: bound_def unbind_pid_def Let_def fold_delete distinct_map_filter held_filter held_mem fun_eq_iff
        Mapping.lookup_delete_neq)
qed

lemma find_Some_elem: "find P xs = Some x \<Longrightarrow> x \<in> set xs \<and> P x"
  by (auto simp: find_Some_iff)

lemma find_held: "(case names_held p L of [] \<Rightarrow> None | n # ns \<Rightarrow> Some n) = map_option fst (find (\<lambda>b. snd b = p) L)"
  by (induction L) (auto simp: names_held_def)

lemma name_step_bound:
  assumes "bound t L"
  shows "bound (snd (name_step a t)) (snd (bound_step a L)) \<and> fst (name_step a t) = fst (bound_step a L)"
proof (cases a)
  case (Unbind n)
  show ?thesis
  proof (cases "map_of L n")
    case None
    then have "filter (\<lambda>b. fst b \<noteq> n) L = L" by (auto simp: map_of_eq_None_iff filter_id_conv)
    then show ?thesis using Unbind None assms by (simp add: unbind_def bound_def [of t])
  next
    case (Some p)
    then show ?thesis using Unbind assms bound_forget [OF assms Some] by (simp add: unbind_def bound_def [of t])
  qed
next
  case (FirstName p)
  then show ?thesis using assms find_held [of p L]
    by (auto simp: first_name_of_def bound_def split: list.splits)
next
  case (HoldsAny p)
  have "names_held p L = [] \<longleftrightarrow> \<not> (\<exists>b \<in> set L. snd b = p)" by (auto simp: names_held_def filter_empty_conv)
  then show ?thesis using HoldsAny assms by (simp add: holds_any_def bound_def)
qed (use assms bind_name_fields unbind_pid_bound in \<open>auto simp: get_name_def bound_def [of t]\<close>)

lemma bound_empty: "bound no_names []"
  by (simp add: bound_def no_names_def names_held_def fun_eq_iff)

lemma name_run_bound:
  "bound t L \<Longrightarrow> fst (name_run as t) = fst (bound_run as L) \<and> bound (snd (name_run as t)) (snd (bound_run as L))"
proof (induction as arbitrary: t L)
  case (Cons a as)
  then show ?case using Cons.IH [OF conjunct1 [OF name_step_bound [OF Cons.prems, of a]]] name_step_bound [OF Cons.prems, of a]
    by (simp add: split_beta)
qed simp

text \<open>
  the name table is one list of bindings. Through any run of its operations, the two-way table answers
  what a list of name-pid pairs in binding order would, and its two maps stay each other's inverse.
\<close>

theorem names_refine:
  "fst (name_run as no_names) = fst (bound_run as []) \<and> bound (snd (name_run as no_names)) (snd (bound_run as []))"
  by (rule name_run_bound [OF bound_empty])

section \<open>Names, processes and watchers of nodes\<close>

record host =
  procs :: runtime
  NAME_TABLE :: name_table
  NODE_MONITORS :: "(symbol, u64 list) mapping"

definition is_alive :: "u64 \<Rightarrow> 'a host_scheme \<Rightarrow> bool" where
  "is_alive pid h \<longleftrightarrow> REGISTRY (procs h) pid \<noteq> None"

datatype registration = Bound | DeadPid

definition register_name :: "symbol \<Rightarrow> u64 \<Rightarrow> 'a host_scheme \<Rightarrow> registration \<times> 'a host_scheme" where
  "register_name name pid h =
     (if \<not> is_alive pid h then (DeadPid, h) else (Bound, h\<lparr>NAME_TABLE := bind_name name pid (NAME_TABLE h)\<rparr>))"

definition whereis :: "symbol \<Rightarrow> 'a host_scheme \<Rightarrow> u64 option" where
  "whereis name h = get_name name (NAME_TABLE h)"

definition unregister :: "symbol \<Rightarrow> 'a host_scheme \<Rightarrow> bool \<times> 'a host_scheme" where
  "unregister name h = (case unbind name (NAME_TABLE h) of (pid, t) \<Rightarrow> (pid \<noteq> None, h\<lparr>NAME_TABLE := t\<rparr>))"

definition name_for_pid :: "u64 \<Rightarrow> 'a host_scheme \<Rightarrow> symbol option" where
  "name_for_pid pid h = first_name_of pid (NAME_TABLE h)"

definition prune_watcher :: "u64 \<Rightarrow> (symbol, u64 list) mapping \<Rightarrow> (symbol, u64 list) mapping" where
  "prune_watcher pid monitors =
     (if \<exists>node \<in> Mapping.keys monitors. pid \<in> set (Mapping.lookup_default [] monitors node) then
        Mapping.filter (\<lambda>_ ws. ws \<noteq> []) (Mapping.map_values (\<lambda>_ ws. filter (\<lambda>w. w \<noteq> pid) ws) monitors)
      else monitors)"

definition unregister_dead_pid_while :: "u64 \<Rightarrow> (runtime \<Rightarrow> runtime) \<Rightarrow> 'a host_scheme \<Rightarrow> 'a host_scheme" where
  "unregister_dead_pid_while pid retire h =
     (let h = (if holds_any pid (NAME_TABLE h) then
            (let h = h\<lparr>NAME_TABLE := unbind_pid pid (NAME_TABLE h)\<rparr> in h\<lparr>procs := retire (procs h)\<rparr>)
          else h\<lparr>procs := retire (procs h)\<rparr>)
      in h\<lparr>NODE_MONITORS := prune_watcher pid (NODE_MONITORS h)\<rparr>)"

text \<open>\<open>spawner\<close> makes a process or fails, whatever else it does to the processes.\<close>

definition spawn_or_get :: "symbol \<Rightarrow> (runtime \<Rightarrow> ('e + u64) \<times> runtime) \<Rightarrow> 'a host_scheme \<Rightarrow> ('e + u64) \<times> 'a host_scheme" where
  "spawn_or_get name spawner h =
     (let existing = get_name name (NAME_TABLE h) in
      if (case existing of Some pid \<Rightarrow> is_alive pid h | None \<Rightarrow> False) then (Inr (the existing), h)
      else
        (let h = (if existing = None then h else h\<lparr>NAME_TABLE := snd (unbind name (NAME_TABLE h))\<rparr>)
         in case spawner (procs h) of
              (Inl e, rt) \<Rightarrow> (Inl e, h\<lparr>procs := rt\<rparr>)
            | (Inr pid, rt) \<Rightarrow> (Inr pid, h\<lparr>procs := rt, NAME_TABLE := bind_name name pid (NAME_TABLE h)\<rparr>)))"

text \<open>The whole death of a process: its names and its registration go in one step, then what the others see.\<close>

definition retire_process :: "setting \<Rightarrow> u64 \<Rightarrow> symbol message \<Rightarrow> 'a host_scheme \<Rightarrow> 'a host_scheme" where
  "retire_process K pid reason h =
     (let h = unregister_dead_pid_while pid (\<lambda>rt. rt\<lparr>REGISTRY := (REGISTRY rt)(pid := None)\<rparr>) h
      in h\<lparr>procs := retire_pid_tail K pid reason (procs h)\<rparr>)"

definition fresh_host :: host where
  "fresh_host = \<lparr>procs = fresh_runtime, NAME_TABLE = no_names, NODE_MONITORS = Mapping.empty\<rparr>"

section \<open>Names name processes\<close>

text \<open>
  Each operation is one step, since it holds the table's lock throughout; a process is removed from the
  registry in the step that sweeps its names. Anything else may only add processes.
\<close>

definition grows_registry :: "runtime \<Rightarrow> runtime \<Rightarrow> bool" where
  "grows_registry rt rt' \<longleftrightarrow> dom (REGISTRY rt) \<subseteq> dom (REGISTRY rt')"

inductive hstep :: "host \<Rightarrow> host \<Rightarrow> bool" where
  registering: "hstep h (snd (register_name n p h))"
| unregistering: "hstep h (snd (unregister n h))"
| named_spawn: "(\<And>rt. grows_registry rt (snd (spawner rt))) \<Longrightarrow>
    (\<And>rt p. fst (spawner rt) = Inr p \<Longrightarrow> REGISTRY (snd (spawner rt)) p \<noteq> None) \<Longrightarrow>
    hstep h (snd (spawn_or_get n (spawner :: runtime \<Rightarrow> (unit + u64) \<times> runtime) h))"
| retiring: "hstep h (unregister_dead_pid_while p (\<lambda>rt. rt\<lparr>REGISTRY := (REGISTRY rt)(p := None)\<rparr>) h)"
| meanwhile: "grows_registry (procs h) rt \<Longrightarrow> hstep h (h\<lparr>procs := rt, NODE_MONITORS := M\<rparr>)"

definition names_ok :: "'a host_scheme \<Rightarrow> bool" where
  "names_ok h \<longleftrightarrow> (\<exists>L. bound (NAME_TABLE h) L \<and> (\<forall>b \<in> set L. is_alive (snd b) h))"

lemma names_okI: "bound (NAME_TABLE h) L \<Longrightarrow> (\<And>n p. (n, p) \<in> set L \<Longrightarrow> is_alive p h) \<Longrightarrow> names_ok h"
  by (fastforce simp: names_ok_def)

lemma names_okE:
  assumes "names_ok h"
  obtains L where "bound (NAME_TABLE h) L" "\<And>n p. (n, p) \<in> set L \<Longrightarrow> is_alive p h"
  using assms by (fastforce simp: names_ok_def)

lemma alive_fields [simp]:
  "is_alive p (h\<lparr>NAME_TABLE := t\<rparr>) = is_alive p h" "is_alive p (h\<lparr>NODE_MONITORS := M\<rparr>) = is_alive p h"
  "is_alive p (h\<lparr>procs := rt\<rparr>) \<longleftrightarrow> REGISTRY rt p \<noteq> None"
  by (simp_all add: is_alive_def)

lemma bound_bind: "bound t L \<Longrightarrow> bound (bind_name n p t) (snd (bound_step (Bind n p) L))"
  by (rule bind_name_fields)

lemma bound_unbind: "bound t L \<Longrightarrow> bound (snd (unbind n t)) (filter (\<lambda>b. fst b \<noteq> n) L)"
  using name_step_bound [of t L "Unbind n"] by (simp add: split_beta)

lemma holds_any_bound: "bound t L \<Longrightarrow> holds_any p t \<longleftrightarrow> (\<exists>b \<in> set L. snd b = p)"
  using name_step_bound [of t L "HoldsAny p"] by simp

lemma bind_bound:
  assumes "bound (NAME_TABLE h) L" "\<And>n p. (n, p) \<in> set L \<Longrightarrow> is_alive p h" "is_alive p h"
  shows "names_ok (h\<lparr>NAME_TABLE := bind_name n p (NAME_TABLE h)\<rparr>)"
  using bound_bind [OF assms(1), of n p] assms(2,3)
  by (intro names_okI [of _ "snd (bound_step (Bind n p) L)"]) (auto split: if_splits)

lemma names_ok_procs:
  assumes "names_ok h" "grows_registry (procs h) rt"
  shows "names_ok (h\<lparr>procs := rt\<rparr>)"
  using assms by (fastforce simp: names_ok_def grows_registry_def is_alive_def)

lemma names_ok_step: "hstep h h' \<Longrightarrow> names_ok h \<Longrightarrow> names_ok h'"
proof (induction rule: hstep.induct)
  case (registering h n p)
  obtain L where "bound (NAME_TABLE h) L" "\<And>n p. (n, p) \<in> set L \<Longrightarrow> is_alive p h"
    using registering by (rule names_okE) (rule that)
  then show ?case using registering by (auto simp: register_name_def intro: bind_bound)
next
  case (unregistering h n)
  then obtain L where L: "bound (NAME_TABLE h) L" "\<And>n p. (n, p) \<in> set L \<Longrightarrow> is_alive p h"
    by (rule names_okE) (rule that)
  then show ?case using bound_unbind [OF L(1), of n]
    by (intro names_okI [of _ "filter (\<lambda>b. fst b \<noteq> n) L"]) (auto simp: unregister_def split_beta)
next
  case (named_spawn spawner h n)
  obtain L where L: "bound (NAME_TABLE h) L" "\<And>n p. (n, p) \<in> set L \<Longrightarrow> is_alive p h"
    using named_spawn(3) by (rule names_okE) (rule that)
  let ?h = "h\<lparr>NAME_TABLE := snd (unbind n (NAME_TABLE h))\<rparr>"
  have ok: "names_ok ?h" using L bound_unbind [OF L(1), of n]
    by (intro names_okI [of _ "filter (\<lambda>b. fst b \<noteq> n) L"]) auto
  have start: "names_ok (if get_name n (NAME_TABLE h) = None then h else ?h)" using ok named_spawn(3) by simp
  have spawned: "names_ok (g\<lparr>procs := snd (spawner (procs g))\<rparr>) \<and>
      (fst (spawner (procs g)) = Inr q \<longrightarrow> names_ok (g\<lparr>procs := snd (spawner (procs g)), NAME_TABLE := bind_name n q (NAME_TABLE g)\<rparr>))"
    if "names_ok g" for g :: host and q
  proof -
    have a: "names_ok (g\<lparr>procs := snd (spawner (procs g))\<rparr>)" using that named_spawn(1) by (rule names_ok_procs)
    then obtain L where "bound (NAME_TABLE (g\<lparr>procs := snd (spawner (procs g))\<rparr>)) L"
      "\<And>n p. (n, p) \<in> set L \<Longrightarrow> is_alive p (g\<lparr>procs := snd (spawner (procs g))\<rparr>)"
      by (rule names_okE) (rule that)
    then show ?thesis using a named_spawn(2) bind_bound [of "g\<lparr>procs := snd (spawner (procs g))\<rparr>" L q n] by simp
  qed
  show ?case using named_spawn(3) spawned [OF start]
    by (auto simp: spawn_or_get_def Let_def split: option.splits prod.splits sum.splits)
next
  case (retiring h p)
  then obtain L where L: "bound (NAME_TABLE h) L" "\<And>n q. (n, q) \<in> set L \<Longrightarrow> is_alive q h"
    by (rule names_okE) (rule that)
  show ?case
  proof (cases "holds_any p (NAME_TABLE h)")
    case True
    then show ?thesis using L unbind_pid_bound [OF L(1), of p]
      by (intro names_okI [of _ "filter (\<lambda>b. snd b \<noteq> p) L"]) (auto simp: unregister_dead_pid_while_def is_alive_def)
  next
    case False
    then have "\<And>n q. (n, q) \<in> set L \<Longrightarrow> q \<noteq> p" using holds_any_bound [OF L(1)] by auto
    then show ?thesis using L False
      by (intro names_okI [of _ L]) (auto simp: unregister_dead_pid_while_def is_alive_def)
  qed
next
  case (meanwhile h rt M)
  then have "names_ok (h\<lparr>procs := rt\<rparr>)" by (simp add: names_ok_procs)
  then show ?case by (simp add: names_ok_def is_alive_def)
qed

lemma names_ok_fresh: "names_ok fresh_host"
  by (rule names_okI [of _ "[]"]) (simp_all add: fresh_host_def bound_empty)

lemma names_ok_reachable: "hstep\<^sup>*\<^sup>* fresh_host h \<Longrightarrow> names_ok h"
  by (induction rule: rtranclp_induct) (simp_all add: names_ok_fresh names_ok_step)

text \<open>
  C34: a name is never a corpse's. However registrations, unregistrations, named spawns and deaths interleave, a
  registered name belongs to a process that is still registered, a process is registered under the names that
  find it and under no other, a dead process can take no name, and a named spawn that finds a holder makes no
  second process.
\<close>

theorem names_live:
  assumes "hstep\<^sup>*\<^sup>* fresh_host h"
  shows "(whereis n h = Some p \<longrightarrow> is_alive p h) \<and>
    (holds_any p (NAME_TABLE h) \<longleftrightarrow> (\<exists>m. whereis m h = Some p)) \<and>
    (name_for_pid p h = Some n \<longrightarrow> whereis n h = Some p) \<and>
    (if is_alive p h then fst (register_name n p h) = Bound \<and>
         (\<forall>m. whereis m (snd (register_name n p h)) = (if m = n then Some p else whereis m h))
     else register_name n p h = (DeadPid, h)) \<and>
    (whereis n h = Some p \<longrightarrow> spawn_or_get n spawner h = (Inr p, h)) \<and>
    (whereis n h = None \<longrightarrow> fst (spawn_or_get n spawner h) = Inr p \<longrightarrow> whereis n (snd (spawn_or_get n spawner h)) = Some p)"
proof -
  obtain L where L: "bound (NAME_TABLE h) L" "\<And>n p. (n, p) \<in> set L \<Longrightarrow> is_alive p h"
    using names_ok_reachable [OF assms] by (rule names_okE) (rule that)
  have d: "distinct (map fst L)" using L(1) by (simp add: bound_def)
  have W: "whereis m h = Some q \<longleftrightarrow> (m, q) \<in> set L" for m q
    using L(1) d by (simp add: bound_def whereis_def get_name_def)
  have F: "whereis n h = Some p" if "name_for_pid p h = Some n"
    using name_step_bound [OF L(1), of "FirstName p"] that W by (auto simp: name_for_pid_def dest!: find_Some_elem)
  have B: "get_name m (bind_name n p t) = (if m = n then Some p else get_name m t)" for m n p t
    by (simp add: get_name_def bind_name_def Let_def Mapping.lookup_update' split: option.split)
  have alive: "whereis n h = Some p \<Longrightarrow> is_alive p h" using W L(2) by blast
  have H: "holds_any p (NAME_TABLE h) \<longleftrightarrow> (\<exists>m. whereis m h = Some p)"
    using holds_any_bound [OF L(1), of p] W by force
  have S1: "spawn_or_get n spawner h = (Inr p, h)" if "whereis n h = Some p"
    using alive [OF that] that by (simp add: spawn_or_get_def whereis_def)
  have S2: "whereis n (snd (spawn_or_get n spawner h)) = Some p"
    if "whereis n h = None" "fst (spawn_or_get n spawner h) = Inr p"
    using that by (auto simp: spawn_or_get_def whereis_def B split: sum.splits prod.splits)
  have R: "if is_alive p h then fst (register_name n p h) = Bound \<and>
         (\<forall>m. whereis m (snd (register_name n p h)) = (if m = n then Some p else whereis m h))
       else register_name n p h = (DeadPid, h)"
    by (simp add: register_name_def whereis_def B)
  show ?thesis
  proof (intro conjI)
    show "whereis n h = Some p \<longrightarrow> is_alive p h" using alive by simp
    show "name_for_pid p h = Some n \<longrightarrow> whereis n h = Some p" using F by simp
  qed (use H R S1 S2 in simp_all)
qed

text \<open>One process takes a name, a second takes it over and dies.\<close>

abbreviation two_named :: host where
  "two_named \<equiv> snd (register_name 5 2 (snd (register_name 5 1
     (fresh_host\<lparr>procs := fresh_runtime\<lparr>REGISTRY := [1 \<mapsto> new_mailbox, 2 \<mapsto> new_mailbox]\<rparr>, NODE_MONITORS := Mapping.empty\<rparr>))))"

lemma two_named_reachable: "hstep\<^sup>*\<^sup>* fresh_host two_named"
proof -
  have "hstep fresh_host (fresh_host\<lparr>procs := fresh_runtime\<lparr>REGISTRY := [1 \<mapsto> new_mailbox, 2 \<mapsto> new_mailbox]\<rparr>,
      NODE_MONITORS := Mapping.empty\<rparr>)"
    by (rule hstep.meanwhile) (simp add: grows_registry_def fresh_host_def fresh_runtime_def)
  from rtranclp.rtrancl_into_rtrancl [OF rtranclp.rtrancl_into_rtrancl
      [OF r_into_rtranclp [of hstep, OF this] hstep.registering] hstep.registering]
  show ?thesis .
qed

lemma names_live_witness: "whereis 5 two_named = Some 2 \<and> is_alive 2 two_named"
proof -
  have w: "whereis 5 two_named = Some 2"
    by (simp add: register_name_def whereis_def get_name_def bind_name_def Let_def fresh_host_def no_names_def is_alive_def)
  then show ?thesis using names_live [OF two_named_reachable, of 5 2 undefined] by blast
qed

end
