(* ===== verification/Guest.thy ===== *)
theory Guest
  imports Names
begin

text \<open>
  Guest links (\<open>dist/guest.rs\<close>): grants, the standing of one link that authenticated with a grant, the
  filter every frame read from it passes, and the renaming of its pids at the edge. The walks use the
  explicit stacks of the code; the top of a stack is the head of the list.
\<close>

section \<open>Grants\<close>

record grant =
  cookie :: rstring
  names :: "symbol set"
  as_name :: "rstring option"

definition add_grant :: "rstring \<Rightarrow> symbol set \<Rightarrow> rstring option \<Rightarrow> grant list \<Rightarrow> grant list" where
  "add_grant c ns as_n grants =
     filter (\<lambda>existing. cookie existing \<noteq> c) grants @ [\<lparr>cookie = c, names = ns, as_name = as_n\<rparr>]"

definition revoke :: "rstring \<Rightarrow> grant list \<Rightarrow> bool \<times> grant list" where
  "revoke c grants =
     (let before = length grants; grants = filter (\<lambda>existing. cookie existing \<noteq> c) grants
      in (length grants \<noteq> before, grants))"

section \<open>Walking a message\<close>

fun children :: "'s message \<Rightarrow> 's message list" where
  "children (MList items p) = items"
| "children (MDotted items) = items"
| "children (MVector items) = items"
| "children (MSet items) = items"
| "children (MMap pairs) = flat_pairs pairs"
| "children (MFailure pairs) = flat_pairs pairs"
| "children _ = []"

lemma children_subset: "c \<in> set (children m) \<Longrightarrow> c \<in> set (for_each_child m)"
  by (cases m) auto

lemma pending_size_children: "pending_size (rev (children m) @ pending) < pending_size (m # pending)"
proof -
  have "children m = for_each_child m \<or> children m = []" by (cases m) auto
  then show ?thesis using pending_size_pop [of m pending] by (auto simp: pending_size_def)
qed

fun is_code :: "'s message \<Rightarrow> bool" where
  "is_code (MClosure c) = True"
| "is_code (MNative f) = True"
| "is_code (MFnShared h) = True"
| "is_code _ = False"

function carries_code_loop :: "'s message list \<Rightarrow> bool" where
  "carries_code_loop [] = False"
| "carries_code_loop (m # stack) = (if is_code m then True else carries_code_loop (rev (children m) @ stack))"
  by pat_completeness auto
termination by (relation "measure pending_size") (auto intro: pending_size_children)

definition carries_code :: "'s message \<Rightarrow> bool" where
  "carries_code m = carries_code_loop [m]"

text \<open>The pids \<open>for_each_pid\<close> calls its function on, in order.\<close>

fun as_pid :: "'s message \<Rightarrow> ('s \<times> u64) option" where
  "as_pid (MPid node i) = Some (node, i)"
| "as_pid _ = None"

function pids_loop :: "'s message list \<Rightarrow> ('s \<times> u64) list" where
  "pids_loop [] = []"
| "pids_loop (m # stack) = (case as_pid m of
     Some p \<Rightarrow> p # pids_loop stack
   | None \<Rightarrow> pids_loop (rev (children m) @ stack))"
  by pat_completeness auto
termination by (relation "measure pending_size") (auto simp: pending_size_children, simp add: pending_size_def)

definition for_each_pid :: "'s message \<Rightarrow> ('s \<times> u64) list" where
  "for_each_pid m = pids_loop [m]"

section \<open>Renaming\<close>

text \<open>A message with each child replaced: what \<open>for_each_child_mut\<close> lets its visitor do.\<close>

definition map_arm :: "('s message \<Rightarrow> 's message) \<Rightarrow> 's closure_arm_msg \<Rightarrow> 's closure_arm_msg" where
  "map_arm f arm = ClosureArmMsg (am_params arm) (map (\<lambda>(s, m). (s, f m)) (am_optionals arm)) (am_rest arm) (map f (am_body arm))"

definition map_closure_children :: "('s message \<Rightarrow> 's message) \<Rightarrow> 's closure_msg \<Rightarrow> 's closure_msg" where
  "map_closure_children f c = ClosureMsg (cm_name c) (map (map_arm f) (cm_arms c)) (cm_doc c)
     (map (\<lambda>(s, m). (s, f m)) (cm_captured c)) (cm_modules c) (cm_module c) (cm_shared_arms c)"

fun for_each_child_mut :: "('s message \<Rightarrow> 's message) \<Rightarrow> 's message \<Rightarrow> 's message" where
  "for_each_child_mut f (MList items p) = MList (map f items) p"
| "for_each_child_mut f (MDotted items) = MDotted (map f items)"
| "for_each_child_mut f (MVector items) = MVector (map f items)"
| "for_each_child_mut f (MSet items) = MSet (map f items)"
| "for_each_child_mut f (MMap es) = MMap (map (\<lambda>(k, v). (f k, f v)) es)"
| "for_each_child_mut f (MFailure es) = MFailure (map (\<lambda>(k, v). (f k, f v)) es)"
| "for_each_child_mut f (MRecord i es) = MRecord i (map (\<lambda>(k, v). (f k, f v)) es)"
| "for_each_child_mut f (MClosure c) = MClosure (map_closure_children f c)"
| "for_each_child_mut f m = m"

lemma map_arm_cong: "(\<And>c. c \<in> set (arm_children a) \<Longrightarrow> f c = g c) \<Longrightarrow> map_arm f a = map_arm g a"
  by (force simp: map_arm_def arm_children_def)

lemma for_each_child_mut_cong [fundef_cong]:
  assumes "m = m'" "\<And>c. c \<in> set (for_each_child m') \<Longrightarrow> f c = g c"
  shows "for_each_child_mut f m = for_each_child_mut g m'"
proof (cases m')
  case (MClosure c)
  have "map_arm f a = map_arm g a" if "a \<in> set (cm_arms c)" for a
    using assms(2) MClosure that by (intro map_arm_cong) (auto simp: closure_children_def)
  moreover have "f m = g m" if "(s, m) \<in> set (cm_captured c)" for s m
    using assms(2) MClosure that by (force simp: closure_children_def)
  ultimately show ?thesis using assms(1) MClosure by (auto simp: map_closure_children_def)
qed (use assms in \<open>(fastforce simp: set_flat_pairs image_iff)+\<close>)

function rename_pids :: "symbol \<Rightarrow> symbol \<Rightarrow> symbol message \<Rightarrow> symbol message" where
  "rename_pids from to m = (case as_pid m of
     Some (node, i) \<Rightarrow> MPid (if node = from then to else node) i
   | None \<Rightarrow> for_each_child_mut (rename_pids from to) m)"
  by pat_completeness auto
termination by (relation "measure (\<lambda>(from, to, m). size m)") (auto dest: size_child)

declare rename_pids.simps [simp del]

section \<open>The standing of a link\<close>

record guest_link =
  held_grant :: grant
  reachable :: "(symbol \<times> u64) set"
  claimed :: symbol
  link_name :: symbol

text \<open>\<open>guest~\<close>; a minted name is \<open>guest~<serial>.<incarnation, 16 hex digits>~<claim>\<close>.\<close>

definition NAME_PREFIX :: rstring where
  "NAME_PREFIX = [103, 117, 101, 115, 116, 126]"

definition starts_with :: "rstring \<Rightarrow> rstring \<Rightarrow> bool" where
  "starts_with prefix text \<longleftrightarrow> take (length prefix) text = prefix"

definition is_guest_name :: "(symbol \<Rightarrow> rstring) \<Rightarrow> symbol \<Rightarrow> bool" where
  "is_guest_name spelling name \<longleftrightarrow> starts_with NAME_PREFIX (spelling name)"

fun decimal :: "nat \<Rightarrow> rstring" where
  "decimal n = (if n < 10 then [of_nat (48 + n)] else decimal (n div 10) @ [of_nat (48 + n mod 10)])"

declare decimal.simps [simp del]

definition hex_digit :: "nat \<Rightarrow> u8" where
  "hex_digit d = of_nat (if d < 10 then 48 + d else 87 + d)"

definition hex16 :: "u64 \<Rightarrow> rstring" where
  "hex16 w = map (\<lambda>i. hex_digit (unat (drop_bit (4 * i) w) mod 16)) (rev [0..<16])"

definition minted_text :: "u64 \<Rightarrow> u64 \<Rightarrow> rstring \<Rightarrow> rstring" where
  "minted_text serial incarnation text = NAME_PREFIX @ decimal (unat serial) @ [46] @ hex16 incarnation @ [126] @ text"

text \<open>The counter \<open>NEXT_GUEST_NAME\<close> is the first argument and result.\<close>

definition mint_name :: "u64 \<Rightarrow> name_cache \<times> interner \<Rightarrow> symbol \<Rightarrow> u64 \<Rightarrow> (u64 \<times> (name_cache \<times> interner) \<times> symbol) option" where
  "mint_name serial tables claim incarnation =
     (case tables of (cache, I) \<Rightarrow>
       (case symbol_name I claim of
          None \<Rightarrow> None
        | Some text \<Rightarrow> (case intern cache I (minted_text serial incarnation text) of
            (cache, I, name) \<Rightarrow> Some (serial + 1, (cache, I), name))))"

definition new_guest :: "grant \<Rightarrow> symbol \<Rightarrow> symbol \<Rightarrow> guest_link" where
  "new_guest g claim name = \<lparr>held_grant = g, reachable = {}, claimed = claim, link_name = name\<rparr>"

definition is_local_node :: "setting \<Rightarrow> symbol \<Rightarrow> bool" where
  "is_local_node K node \<longleftrightarrow> node = NONODE K \<or> node = local_node K"

definition pid_key :: "setting \<Rightarrow> symbol \<Rightarrow> u64 \<Rightarrow> symbol \<times> u64" where
  "pid_key K node i = ((if is_local_node K node then NONODE K else node), i)"

definition note_outbound :: "setting \<Rightarrow> symbol message \<Rightarrow> guest_link \<Rightarrow> guest_link" where
  "note_outbound K m g =
     g\<lparr>reachable := fold (\<lambda>(node, i). insert (pid_key K node i)) (for_each_pid m) (reachable g)\<rparr>"

definition reaches_pid :: "setting \<Rightarrow> u64 \<Rightarrow> guest_link \<Rightarrow> bool" where
  "reaches_pid K i g \<longleftrightarrow> (NONODE K, i) \<in> reachable g"

definition holds_only_known_pids :: "setting \<Rightarrow> symbol message \<Rightarrow> guest_link \<Rightarrow> bool" where
  "holds_only_known_pids K m g =
     fold (\<lambda>(node, i) known. known \<and> (node = claimed g \<or> pid_key K node i \<in> reachable g)) (for_each_pid m) True"

fun reaches :: "setting \<Rightarrow> guest_link \<Rightarrow> symbol target \<Rightarrow> bool" where
  "reaches K g (Name name) \<longleftrightarrow> name \<in> names (held_grant g)"
| "reaches K g (Pid i) \<longleftrightarrow> reaches_pid K i g"

definition admit :: "setting \<Rightarrow> guest_link option \<Rightarrow> symbol frame \<Rightarrow> bool" where
  "admit K guest frame = (case guest of
     None \<Rightarrow> True
   | Some g \<Rightarrow> (case frame of
       Send target m lane \<Rightarrow> reaches K g target \<and> \<not> carries_code m \<and> holds_only_known_pids K m g
     | Monitor w target r \<Rightarrow> reaches_pid K target g
     | MonitorName w name r \<Rightarrow> name \<in> names (held_grant g)
     | Demonitor w r \<Rightarrow> True
     | Down w r target reason \<Rightarrow> holds_only_known_pids K reason g
     | Ping \<Rightarrow> True
     | Pong \<Rightarrow> True
     | _ \<Rightarrow> False))"

text \<open>The message a frame carries, rewritten.\<close>

fun frame_message_mut :: "('s message \<Rightarrow> 's message) \<Rightarrow> 's frame \<Rightarrow> 's frame" where
  "frame_message_mut f (Send target m lane) = Send target (f m) lane"
| "frame_message_mut f (Down w r target reason) = Down w r target (f reason)"
| "frame_message_mut f (Exit from to reason l) = Exit from to (f reason) l"
| "frame_message_mut f frame = frame"

definition translate_inbound :: "guest_link \<Rightarrow> symbol frame \<Rightarrow> symbol frame" where
  "translate_inbound g = frame_message_mut (rename_pids (claimed g) (link_name g))"

definition translate_outbound :: "guest_link \<Rightarrow> symbol frame \<Rightarrow> symbol frame" where
  "translate_outbound g = frame_message_mut (rename_pids (link_name g) (claimed g))"

end
