(* ===== verification/Nodes.thy ===== *)
theory Nodes
  imports Guest "HOL-Library.List_Lexorder"
begin

text \<open>
  Links between nodes (\<open>dist.rs\<close>, \<open>dist/heartbeat.rs\<close>): the table of connected peers, the writer queue of each
  link, registration and teardown, sending and routing, and what an inbound frame does. A connection is found
  under its peer's name in \<open>NODES\<close>; what it shares with its reader and writer threads (the writer's queue, the
  socket, the guest's standing) is found under its id and outlives its entry. Threads, sockets and ciphers are left out: \<open>shutdown\<close> marks the socket, the writer takes what is
  queued, and an encrypted stream is the frames it carries.
\<close>

section \<open>A link's writer queue\<close>

datatype outbound = OutFrame "u8 list" | OutLatest rstring nat

record writer =
  tx :: "outbound list"
  latest :: "(rstring, nat \<times> u8 list) mapping"
  writer_gone :: bool
  shut :: bool

definition new_writer :: writer where
  "new_writer = \<lparr>tx = [], latest = Mapping.empty, writer_gone = False, shut = False\<rparr>"

definition WRITER_QUEUE_CAP :: nat where "WRITER_QUEUE_CAP = 4096"

definition shutdown :: "writer \<Rightarrow> writer" where
  "shutdown w = w\<lparr>shut := True\<rparr>"

definition try_send :: "outbound \<Rightarrow> writer \<Rightarrow> bool \<times> writer" where
  "try_send item w =
     (if writer_gone w \<or> length (tx w) \<ge> WRITER_QUEUE_CAP then (False, w) else (True, w\<lparr>tx := tx w @ [item]\<rparr>))"

definition enqueue_to :: "u8 list \<Rightarrow> writer \<Rightarrow> bool \<times> writer" where
  "enqueue_to bytes w = (case try_send (OutFrame bytes) w of
     (True, w) \<Rightarrow> (True, w)
   | (False, w) \<Rightarrow> (False, shutdown w))"

text \<open>The first argument is the counter \<open>NEXT_LATEST\<close>.\<close>

definition enqueue_latest :: "nat \<Rightarrow> rstring \<Rightarrow> u8 list \<Rightarrow> writer \<Rightarrow> (nat \<times> bool) \<times> writer" where
  "enqueue_latest gn s payload w =
     (let w = w\<lparr>latest := Mapping.update s (gn, payload) (latest w)\<rparr>
      in case try_send (OutLatest s gn) w of
           (True, w) \<Rightarrow> ((gn + 1, True), w)
         | (False, w) \<Rightarrow> ((gn + 1, False), shutdown w))"

definition claim_outbound :: "outbound \<Rightarrow> writer \<Rightarrow> u8 list option \<times> writer" where
  "claim_outbound item w = (case item of
     OutFrame payload \<Rightarrow> (Some payload, w)
   | OutLatest s gn \<Rightarrow> (case Mapping.lookup (latest w) s of
         None \<Rightarrow> (None, w)
       | Some (newest, payload) \<Rightarrow>
           (if newest = gn then (Some payload, w\<lparr>latest := Mapping.delete s (latest w)\<rparr>) else (None, w))))"

fun latest_slot :: "(symbol \<Rightarrow> rstring) \<Rightarrow> symbol target \<Rightarrow> rstring \<Rightarrow> rstring" where
  "latest_slot text (Pid i) k = [112, 105, 100, 32] @ decimal (unat i) @ [32] @ k"
| "latest_slot text (Name n) k = [110, 97, 109, 101, 32] @ text n @ [32] @ k"

section \<open>The connected peers\<close>

text \<open>\<open>symbol_name\<close>; an id no symbol has, which panics in the code, reads as the empty text.\<close>

definition spelling :: "interner \<Rightarrow> symbol \<Rightarrow> rstring" where
  "spelling I s = (case symbol_name I s of Some t \<Rightarrow> t | None \<Rightarrow> [])"

record conn =
  conn_id :: u64
  connector :: symbol
  incarnation :: u64
  dial_addr :: rstring
  lanes :: bool

text \<open>\<open>ENDS\<close> and \<open>GUESTS\<close> hold what a connection shares with its threads; \<open>last_seen\<close> is in milliseconds.\<close>

record node = host +
  NODES :: "(symbol, conn) mapping"
  ENDS :: "u64 \<Rightarrow> writer"
  GUESTS :: "u64 \<Rightarrow> guest_link option"
  last_seen :: "u64 \<Rightarrow> nat"
  DIAL_ROUTES :: "(rstring, symbol) mapping"
  PENDING_DIALS :: "symbol set"
  under_way :: nat
  held_gossip :: "(symbol, rstring) mapping"
  NEXT_LATEST :: nat
  NEXT_LINK :: u64
  NEXT_GUEST_NAME :: u64
  symbols :: interner

definition guest_of :: "conn \<Rightarrow> node \<Rightarrow> guest_link option" where
  "guest_of c nd = GUESTS nd (conn_id c)"

definition at_end :: "u64 \<Rightarrow> (writer \<Rightarrow> 'a \<times> writer) \<Rightarrow> node \<Rightarrow> 'a \<times> node" where
  "at_end i f nd = (case f (ENDS nd i) of (x, w) \<Rightarrow> (x, nd\<lparr>ENDS := (ENDS nd)(i := w)\<rparr>))"

definition shut_link :: "u64 \<Rightarrow> node \<Rightarrow> node" where
  "shut_link i nd = nd\<lparr>ENDS := (ENDS nd)(i := shutdown (ENDS nd i))\<rparr>"

section \<open>Sending\<close>

definition send_frame :: "symbol \<Rightarrow> symbol frame \<Rightarrow> node \<Rightarrow> bool \<times> node" where
  "send_frame node frame nd = (case Mapping.lookup (NODES nd) node of
     None \<Rightarrow> (False, nd)
   | Some c \<Rightarrow>
       (let frame = (case guest_of c nd of Some g \<Rightarrow> translate_outbound g frame | None \<Rightarrow> frame)
        in case encode_payload (symbols nd) frame of
             Inl e \<Rightarrow> (False, nd)
           | Inr bytes \<Rightarrow> at_end (conn_id c) (enqueue_to bytes) nd))"

fun sent_frame :: "sent \<Rightarrow> symbol \<times> symbol frame" where
  "sent_frame (DownTo node w r dying reason) = (node, Down w r dying reason)"
| "sent_frame (LinkExit node q from reason) = (node, Exit from q reason True)"

text \<open>The frames an operation on the processes sends go out over their links.\<close>

definition with_procs :: "(runtime \<Rightarrow> 'a \<times> runtime) \<Rightarrow> node \<Rightarrow> 'a \<times> node" where
  "with_procs f nd = (case f (procs nd) of
     (x, rt) \<Rightarrow> (x, fold (\<lambda>s nd. snd (send_frame (fst (sent_frame s)) (snd (sent_frame s)) nd)) (wire rt)
        (nd\<lparr>procs := rt\<lparr>wire := []\<rparr>\<rparr>)))"

definition on_procs :: "(runtime \<Rightarrow> runtime) \<Rightarrow> node \<Rightarrow> node" where
  "on_procs f nd = snd (with_procs (\<lambda>rt. ((), f rt)) nd)"

definition monitor_remote :: "setting \<Rightarrow> symbol \<Rightarrow> u64 \<Rightarrow> u64 \<Rightarrow> u64 \<Rightarrow> node \<Rightarrow> node" where
  "monitor_remote K node target w r nd =
     (let nd = on_procs (\<lambda>rt. rt\<lparr>PENDING_REMOTE := record_pending_remote
            \<lparr>watcher_pid = w, mref = r, target_node = node, target_pid = target\<rparr> (PENDING_REMOTE rt)\<rparr>) nd;
          (sent, nd) = send_frame node (Monitor w target r) nd
      in if \<not> sent then on_procs (fire_noconnection_if_pending K node target w r) nd else nd)"

definition monitor_remote_name :: "setting \<Rightarrow> symbol \<Rightarrow> symbol \<Rightarrow> u64 \<Rightarrow> u64 \<Rightarrow> node \<Rightarrow> node" where
  "monitor_remote_name K node name w r nd =
     (let nd = on_procs (\<lambda>rt. rt\<lparr>PENDING_REMOTE := record_pending_remote
            \<lparr>watcher_pid = w, mref = r, target_node = node, target_pid = - 1\<rparr> (PENDING_REMOTE rt)\<rparr>) nd;
          (sent, nd) = send_frame node (MonitorName w name r) nd
      in if \<not> sent then on_procs (fire_noconnection_if_pending K node (- 1) w r) nd else nd)"

definition demonitor_remote :: "symbol \<Rightarrow> u64 \<Rightarrow> u64 \<Rightarrow> node \<Rightarrow> node" where
  "demonitor_remote node w r nd =
     (let nd = on_procs (\<lambda>rt. rt\<lparr>PENDING_REMOTE := snd (take_pending node w r (PENDING_REMOTE rt))\<rparr>) nd
      in snd (send_frame node (Demonitor w r) nd))"

definition link_remote :: "setting \<Rightarrow> symbol \<Rightarrow> u64 \<Rightarrow> u64 \<Rightarrow> node \<Rightarrow> node" where
  "link_remote K node target me nd =
     (let nd = snd (with_procs (record_remote_link me node target) nd);
          (sent, nd) = send_frame node (Link me target) nd
      in if \<not> sent then on_procs (deliver_remote_link_exit K me node target (MKeyword (NOCONNECTION K))) nd else nd)"

definition unlink_remote :: "symbol \<Rightarrow> u64 \<Rightarrow> u64 \<Rightarrow> node \<Rightarrow> node" where
  "unlink_remote node target me nd =
     (let nd = snd (with_procs (drop_remote_link me node target) nd) in snd (send_frame node (Unlink me target) nd))"

definition exit_remote :: "symbol \<Rightarrow> u64 \<Rightarrow> symbol message \<Rightarrow> node \<Rightarrow> node" where
  "exit_remote node target reason nd = snd (send_frame node (Exit 0 target reason False) nd)"

definition deliver_lane :: "setting \<Rightarrow> u64 \<Rightarrow> symbol message \<Rightarrow> lane \<Rightarrow> runtime \<Rightarrow> runtime" where
  "deliver_lane K pid m lane rt = (case deliver_in_lane (now K) (delivery_origin K) pid m lane (REGISTRY rt) of
     (wake, reg) \<Rightarrow> rt\<lparr>REGISTRY := reg, woken := woken rt @ (case wake of Some w \<Rightarrow> [w] | None \<Rightarrow> [])\<rparr>)"

definition resolve :: "symbol target \<Rightarrow> node \<Rightarrow> u64 option" where
  "resolve target nd = (case target of Pid i \<Rightarrow> Some i | Name name \<Rightarrow> get_name name (NAME_TABLE nd))"

definition route_in_lane :: "setting \<Rightarrow> symbol \<Rightarrow> symbol target \<Rightarrow> symbol message \<Rightarrow> lane \<Rightarrow> node \<Rightarrow> bool \<times> node" where
  "route_in_lane K node target m lane nd =
     (if is_local_node K node then
        (case resolve target nd of
           None \<Rightarrow> (True, nd)
         | Some i \<Rightarrow> (True, nd\<lparr>procs := deliver_lane K i m lane (procs nd)\<rparr>))
      else (case Mapping.lookup (NODES nd) node of
          None \<Rightarrow> (False, nd)
        | Some c \<Rightarrow>
            (let ticket = (case lane of Latest k \<Rightarrow> Some (latest_slot (spelling (symbols nd)) target k) | _ \<Rightarrow> None);
                 lane = (if lanes c then lane else Normal)
             in if \<not> lanes c \<and> holds_record m then (True, nd)
                else
                  (let nd = (case guest_of c nd of
                         Some g \<Rightarrow> nd\<lparr>GUESTS := (GUESTS nd)(conn_id c \<mapsto> note_outbound K m g)\<rparr>
                       | None \<Rightarrow> nd);
                       frame = Send target m lane;
                       frame = (case guest_of c nd of Some g \<Rightarrow> translate_outbound g frame | None \<Rightarrow> frame)
                   in case encode_payload (symbols nd) frame of
                        Inl e \<Rightarrow> (True, nd)
                      | Inr bytes \<Rightarrow> (case ticket of
                            Some s \<Rightarrow> (case at_end (conn_id c) (enqueue_latest (NEXT_LATEST nd) s bytes) nd of
                               ((n, ok), nd) \<Rightarrow> (True, nd\<lparr>NEXT_LATEST := n\<rparr>))
                          | None \<Rightarrow> (True, snd (at_end (conn_id c) (enqueue_to bytes) nd)))))))"

section \<open>Node monitors and teardown\<close>

definition nodedown_msg :: "setting \<Rightarrow> symbol \<Rightarrow> symbol message" where
  "nodedown_msg K name = MVector [MKeyword (NODEDOWN K), MKeyword name]"

text \<open>Which of several peers with the same base name is found is not determined by the code.\<close>

definition qualify_node_name :: "symbol \<Rightarrow> node \<Rightarrow> symbol" where
  "qualify_node_name name nd =
     (let s = spelling (symbols nd) name in
      if 64 \<in> set s then name
      else (case find (\<lambda>k. starts_with (s @ [64]) (spelling (symbols nd) k)) (Mapping.ordered_keys (NODES nd)) of
          Some k \<Rightarrow> k | None \<Rightarrow> name))"

definition monitor_node :: "setting \<Rightarrow> symbol \<Rightarrow> u64 \<Rightarrow> node \<Rightarrow> node" where
  "monitor_node K name pid nd =
     (let name = qualify_node_name name nd;
          watchers = Mapping.lookup_default [] (NODE_MONITORS nd) name;
          watchers = (if pid \<notin> set watchers then watchers @ [pid] else watchers);
          nd = nd\<lparr>NODE_MONITORS := Mapping.update name watchers (NODE_MONITORS nd)\<rparr>
      in if \<not> is_local_node K name \<and> Mapping.lookup (NODES nd) name = None
         then nd\<lparr>procs := deliver K pid (nodedown_msg K name) (procs nd)\<rparr> else nd)"

definition demonitor_node :: "symbol \<Rightarrow> u64 \<Rightarrow> node \<Rightarrow> node" where
  "demonitor_node name pid nd =
     (let name = qualify_node_name name nd
      in case Mapping.lookup (NODE_MONITORS nd) name of
           None \<Rightarrow> nd
         | Some watchers \<Rightarrow>
             (let watchers = filter (\<lambda>w. w \<noteq> pid) watchers
              in nd\<lparr>NODE_MONITORS := (if watchers = [] then Mapping.delete name (NODE_MONITORS nd)
                                   else Mapping.update name watchers (NODE_MONITORS nd))\<rparr>))"

definition sever_couplings :: "setting \<Rightarrow> symbol \<Rightarrow> node \<Rightarrow> node" where
  "sever_couplings K peer nd = on_procs (links_node_down K peer) (on_procs (monitors_node_down K peer) nd)"

definition fire_nodedown :: "setting \<Rightarrow> symbol \<Rightarrow> node \<Rightarrow> node" where
  "fire_nodedown K peer nd =
     (let nd = nd\<lparr>procs := fold (\<lambda>w rt. deliver K w (nodedown_msg K peer) rt)
            (Mapping.lookup_default [] (NODE_MONITORS nd) peer) (procs nd)\<rparr>
      in sever_couplings K peer nd)"

definition forget_dial_routes :: "symbol \<Rightarrow> node \<Rightarrow> node" where
  "forget_dial_routes peer nd = nd\<lparr>DIAL_ROUTES := Mapping.filter (\<lambda>_ routed. routed \<noteq> peer) (DIAL_ROUTES nd)\<rparr>"

definition remove_current_link :: "symbol \<Rightarrow> u64 \<Rightarrow> node \<Rightarrow> bool \<times> node" where
  "remove_current_link peer i nd = (case Mapping.lookup (NODES nd) peer of
     Some c \<Rightarrow> if conn_id c = i then (True, nd\<lparr>NODES := Mapping.delete peer (NODES nd)\<rparr>) else (False, nd)
   | None \<Rightarrow> (False, nd))"

definition drop_link :: "setting \<Rightarrow> symbol \<Rightarrow> u64 \<Rightarrow> node \<Rightarrow> node" where
  "drop_link K peer i nd = (case remove_current_link peer i nd of
     (removed, nd) \<Rightarrow> if removed then fire_nodedown K peer (forget_dial_routes peer nd) else nd)"

definition disconnect :: "setting \<Rightarrow> symbol \<Rightarrow> node \<Rightarrow> bool \<times> node" where
  "disconnect K peer nd = (case Mapping.lookup (NODES nd) peer of
     None \<Rightarrow> (False, nd)
   | Some c \<Rightarrow>
       (let (removed, nd) = remove_current_link peer (conn_id c) nd;
            nd = shut_link (conn_id c) nd
        in (True, if removed then fire_nodedown K peer (forget_dial_routes peer nd) else nd)))"

definition retire_previous_incarnation :: "setting \<Rightarrow> symbol \<Rightarrow> conn \<Rightarrow> node \<Rightarrow> node" where
  "retire_previous_incarnation K peer previous nd =
     fire_nodedown K peer (forget_dial_routes peer (shut_link (conn_id previous) nd))"

section \<open>Registration\<close>

text \<open>
  One turn of the registration loop, under the lock: the new link is refused, the link to a previous life of
  the peer is taken out, or the link is registered, evicting the one it replaces.
\<close>

datatype turn = Refused | Restarted conn | Registered bool "conn option"

definition turn_of :: "symbol \<Rightarrow> conn \<Rightarrow> node \<Rightarrow> turn \<times> node" where
  "turn_of peer c nd =
     (if guest_of c nd = None \<and> is_guest_name (spelling (symbols nd)) peer then (Refused, nd)
      else (case Mapping.lookup (NODES nd) peer of
          Some existing \<Rightarrow>
            (if incarnation existing \<noteq> incarnation c then
               (Restarted existing, nd\<lparr>NODES := Mapping.delete peer (NODES nd)\<rparr>)
             else if spelling (symbols nd) (connector c) \<ge> spelling (symbols nd) (connector existing) then (Refused, nd)
             else (Registered False (Some existing), nd\<lparr>NODES := Mapping.update peer c (NODES nd)\<rparr>))
        | None \<Rightarrow> (Registered True None, nd\<lparr>NODES := Mapping.update peer c (NODES nd)\<rparr>)))"

lemma on_procs_fields [simp]:
  "NODES (on_procs f nd) = NODES nd" "GUESTS (on_procs f nd) = GUESTS nd" "symbols (on_procs f nd) = symbols nd"
  "NODE_MONITORS (on_procs f nd) = NODE_MONITORS nd" "NAME_TABLE (on_procs f nd) = NAME_TABLE nd"
  "NEXT_LINK (on_procs f nd) = NEXT_LINK nd" "NEXT_GUEST_NAME (on_procs f nd) = NEXT_GUEST_NAME nd"
proof -
  have s: "NODES (snd (send_frame n fr nd)) = NODES nd" "GUESTS (snd (send_frame n fr nd)) = GUESTS nd"
    "symbols (snd (send_frame n fr nd)) = symbols nd" "NODE_MONITORS (snd (send_frame n fr nd)) = NODE_MONITORS nd"
    "NAME_TABLE (snd (send_frame n fr nd)) = NAME_TABLE nd" "NEXT_LINK (snd (send_frame n fr nd)) = NEXT_LINK nd"
    "NEXT_GUEST_NAME (snd (send_frame n fr nd)) = NEXT_GUEST_NAME nd" for n fr nd
    by (auto simp: send_frame_def at_end_def Let_def split: option.split sum.split prod.split)
  have "NODES (fold (\<lambda>s nd. snd (send_frame (fst (sent_frame s)) (snd (sent_frame s)) nd)) ss nd) = NODES nd \<and>
    GUESTS (fold (\<lambda>s nd. snd (send_frame (fst (sent_frame s)) (snd (sent_frame s)) nd)) ss nd) = GUESTS nd \<and>
    symbols (fold (\<lambda>s nd. snd (send_frame (fst (sent_frame s)) (snd (sent_frame s)) nd)) ss nd) = symbols nd \<and>
    NODE_MONITORS (fold (\<lambda>s nd. snd (send_frame (fst (sent_frame s)) (snd (sent_frame s)) nd)) ss nd) = NODE_MONITORS nd \<and>
    NAME_TABLE (fold (\<lambda>s nd. snd (send_frame (fst (sent_frame s)) (snd (sent_frame s)) nd)) ss nd) = NAME_TABLE nd \<and>
    NEXT_LINK (fold (\<lambda>s nd. snd (send_frame (fst (sent_frame s)) (snd (sent_frame s)) nd)) ss nd) = NEXT_LINK nd \<and>
    NEXT_GUEST_NAME (fold (\<lambda>s nd. snd (send_frame (fst (sent_frame s)) (snd (sent_frame s)) nd)) ss nd) = NEXT_GUEST_NAME nd" for ss nd
    by (induction ss arbitrary: nd) (simp_all add: s)
  then show "NODES (on_procs f nd) = NODES nd" "GUESTS (on_procs f nd) = GUESTS nd" "symbols (on_procs f nd) = symbols nd"
    "NODE_MONITORS (on_procs f nd) = NODE_MONITORS nd" "NAME_TABLE (on_procs f nd) = NAME_TABLE nd"
    "NEXT_LINK (on_procs f nd) = NEXT_LINK nd" "NEXT_GUEST_NAME (on_procs f nd) = NEXT_GUEST_NAME nd"
    by (simp_all add: on_procs_def with_procs_def split: prod.split)
qed

lemma sever_fields [simp]:
  "NODES (fire_nodedown K peer nd) = NODES nd" "GUESTS (fire_nodedown K peer nd) = GUESTS nd"
  "NODES (sever_couplings K peer nd) = NODES nd" "GUESTS (sever_couplings K peer nd) = GUESTS nd"
  "NODES (retire_previous_incarnation K peer c nd) = NODES nd" "GUESTS (retire_previous_incarnation K peer c nd) = GUESTS nd"
  "symbols (fire_nodedown K peer nd) = symbols nd" "symbols (sever_couplings K peer nd) = symbols nd"
  "symbols (retire_previous_incarnation K peer c nd) = symbols nd"
  by (simp_all add: fire_nodedown_def sever_couplings_def retire_previous_incarnation_def forget_dial_routes_def shut_link_def Let_def)

function register_loop :: "setting \<Rightarrow> symbol \<Rightarrow> conn \<Rightarrow> node \<Rightarrow> (bool \<times> conn option) option \<times> node" where
  "register_loop K peer c nd = (case turn_of peer c nd of
     (Refused, nd) \<Rightarrow> (None, nd)
   | (Restarted previous, nd) \<Rightarrow> register_loop K peer c (retire_previous_incarnation K peer previous nd)
   | (Registered was_new evicted, nd) \<Rightarrow> (Some (was_new, evicted), nd))"
  by pat_completeness auto
termination
  by (relation "measure (\<lambda>(K, peer, c, nd). if Mapping.lookup (NODES nd) peer = None then 0 else 1)")
    (auto simp: turn_of_def split: if_splits option.splits)

declare register_loop.simps [simp del]

definition register_link :: "setting \<Rightarrow> symbol \<Rightarrow> conn \<Rightarrow> node \<Rightarrow> bool option \<times> node" where
  "register_link K peer c nd = (case register_loop K peer c nd of
     (None, nd) \<Rightarrow> (None, nd)
   | (Some (was_new, None), nd) \<Rightarrow> (Some was_new, nd)
   | (Some (was_new, Some old), nd) \<Rightarrow> (Some was_new, sever_couplings K peer (shut_link (conn_id old) nd)))"

section \<open>The mesh\<close>

definition broadcast_peer_table :: "node \<Rightarrow> node" where
  "broadcast_peer_table nd =
     (let snaps = filter (\<lambda>(name, c). guest_of c nd = None)
            (map (\<lambda>name. (name, the (Mapping.lookup (NODES nd) name))) (Mapping.ordered_keys (NODES nd)))
      in fold (\<lambda>(name, c) nd.
           (let peers = map (\<lambda>(n, p). (n, dial_addr p)) (filter (\<lambda>(n, p). n \<noteq> name \<and> dial_addr p \<noteq> []) snaps)
            in if peers = [] then nd
               else (case encode_payload (symbols nd) (Peers peers) of
                   Inl e \<Rightarrow> nd
                 | Inr bytes \<Rightarrow> (case at_end (conn_id c) (try_send (OutFrame bytes)) nd of
                       (True, nd) \<Rightarrow> nd
                     | (False, nd) \<Rightarrow> shut_link (conn_id c) nd)))) snaps nd)"

text \<open>The dials a gossip frame starts, each on a thread of its own; the gossip is held while a program dials.\<close>

definition mesh_consider :: "bool \<Rightarrow> setting \<Rightarrow> (symbol \<times> rstring) list \<Rightarrow> node \<Rightarrow> (symbol \<times> rstring) list \<times> node" where
  "mesh_consider mesh_enabled K peers nd =
     (if \<not> mesh_enabled then ([], nd)
      else if under_way nd > 0 then
        ([], nd\<lparr>held_gossip := fold (\<lambda>(name, a). Mapping.update name a) peers (held_gossip nd)\<rparr>)
      else
        (let connected = Mapping.keys (NODES nd);
             (to_dial, pending) = fold (\<lambda>(name, a) (to_dial, pending).
               if name = local_node K \<or> a = [] \<or> is_guest_name (spelling (symbols nd)) name \<or> name \<in> connected \<or> name \<in> pending
               then (to_dial, pending) else (to_dial @ [(name, a)], insert name pending)) peers ([], PENDING_DIALS nd)
         in (to_dial, nd\<lparr>PENDING_DIALS := pending\<rparr>)))"

text \<open>A dial gossip started is over; a program's dial begins and ends.\<close>

definition gossip_dialed :: "symbol \<Rightarrow> node \<Rightarrow> node" where
  "gossip_dialed name nd = nd\<lparr>PENDING_DIALS := PENDING_DIALS nd - {name}\<rparr>"

definition program_dial_begin :: "node \<Rightarrow> node" where
  "program_dial_begin nd = nd\<lparr>under_way := under_way nd + 1\<rparr>"

definition program_dial_end :: "bool \<Rightarrow> setting \<Rightarrow> node \<Rightarrow> (symbol \<times> rstring) list \<times> node" where
  "program_dial_end mesh_enabled K nd =
     (let nd = nd\<lparr>under_way := under_way nd - 1\<rparr>
      in if under_way nd = 0 then
           (let held = map (\<lambda>name. (name, the (Mapping.lookup (held_gossip nd) name))) (Mapping.ordered_keys (held_gossip nd));
                nd = nd\<lparr>held_gossip := Mapping.empty\<rparr>
            in if held \<noteq> [] then mesh_consider mesh_enabled K held nd else ([], nd))
         else ([], nd))"

definition linked_peer_for :: "symbol \<Rightarrow> rstring \<Rightarrow> node \<Rightarrow> symbol option" where
  "linked_peer_for claim a nd =
     (let full = (\<lambda>name. case Mapping.lookup (NODES nd) name of Some c \<Rightarrow> guest_of c nd = None | None \<Rightarrow> False) in
      if full claim then Some claim
      else (case Mapping.lookup (DIAL_ROUTES nd) a of
          Some routed \<Rightarrow> if full routed then Some routed else
            find (\<lambda>name. case Mapping.lookup (NODES nd) name of Some c \<Rightarrow> guest_of c nd = None \<and> dial_addr c \<noteq> [] \<and> dial_addr c = a | None \<Rightarrow> False)
              (Mapping.ordered_keys (NODES nd))
        | None \<Rightarrow>
            find (\<lambda>name. case Mapping.lookup (NODES nd) name of Some c \<Rightarrow> guest_of c nd = None \<and> dial_addr c \<noteq> [] \<and> dial_addr c = a | None \<Rightarrow> False)
              (Mapping.ordered_keys (NODES nd))))"

section \<open>Establishing a link\<close>

datatype role = Initiator | Responder

record authenticated =
  auth_peer :: symbol
  auth_addr :: rstring
  auth_incarnation :: u64
  auth_grant :: "grant option"
  auth_lanes :: bool

definition establish :: "bool \<Rightarrow> setting \<Rightarrow> u64 \<Rightarrow> nat \<Rightarrow> authenticated \<Rightarrow> role \<Rightarrow> node \<Rightarrow> node option" where
  "establish mesh_enabled K own_incarnation now_millis a role nd =
     (let initiator = (case role of Initiator \<Rightarrow> local_node K | Responder \<Rightarrow> auth_peer a);
          i = NEXT_LINK nd;
          nd = nd\<lparr>NEXT_LINK := i + 1, ENDS := (ENDS nd)(i := new_writer), last_seen := (last_seen nd)(i := now_millis)\<rparr>
      in case (case auth_grant a of
             None \<Rightarrow> Some (auth_peer a, nd\<lparr>GUESTS := (GUESTS nd)(i := None)\<rparr>)
           | Some g \<Rightarrow> (case mint_name (NEXT_GUEST_NAME nd) (None, symbols nd) (auth_peer a) own_incarnation of
                 None \<Rightarrow> None
               | Some (serial, (cache, I), name) \<Rightarrow>
                   Some (name, nd\<lparr>NEXT_GUEST_NAME := serial, symbols := I,
                     GUESTS := (GUESTS nd)(i \<mapsto> new_guest g (auth_peer a) name)\<rparr>))) of
           None \<Rightarrow> None
         | Some (peer, nd) \<Rightarrow>
             (case register_link K peer \<lparr>conn_id = i, connector = initiator, incarnation = auth_incarnation a,
                     dial_addr = auth_addr a, lanes = auth_lanes a\<rparr> nd of
                (None, nd) \<Rightarrow> Some (shut_link i nd)
              | (Some was_new, nd) \<Rightarrow>
                  Some (if was_new \<and> auth_grant a = None \<and> mesh_enabled then broadcast_peer_table nd else nd)))"

section \<open>Inbound frames and liveness\<close>

definition deliver_inbound :: "setting \<Rightarrow> symbol target \<Rightarrow> symbol message \<Rightarrow> lane \<Rightarrow> node \<Rightarrow> node" where
  "deliver_inbound K target m lane nd = (case resolve target nd of
     None \<Rightarrow> nd
   | Some i \<Rightarrow> nd\<lparr>procs := deliver_lane K i m lane (procs nd)\<rparr>)"

text \<open>\<open>i\<close> is the link the frame was read from; the result is the dials a gossip frame starts.\<close>

definition handle_inbound_frame :: "bool \<Rightarrow> setting \<Rightarrow> symbol \<Rightarrow> u64 \<Rightarrow> symbol frame \<Rightarrow> node \<Rightarrow> (symbol \<times> rstring) list \<times> node" where
  "handle_inbound_frame mesh_enabled K peer i frame nd =
     (let guest = GUESTS nd i in
      if \<not> admit K guest frame then ([], nd)
      else
        (case (case guest of Some g \<Rightarrow> translate_inbound g frame | None \<Rightarrow> frame) of
           Send target m lane \<Rightarrow> ([], deliver_inbound (K\<lparr>delivery_origin := FromPeer peer (guest \<noteq> None)\<rparr>) target m lane nd)
         | Monitor w target r \<Rightarrow> ([], on_procs (add_monitor K target (Remote peer w r)) nd)
         | MonitorName w name r \<Rightarrow>
             ([], on_procs (add_monitor K (case whereis name nd of Some p \<Rightarrow> p | None \<Rightarrow> - 1) (Remote peer w r)) nd)
         | Demonitor w r \<Rightarrow>
             ([], on_procs (\<lambda>rt. rt\<lparr>MONITORS := retain_all (\<lambda>x. x = Remote peer w r) (MONITORS rt)\<rparr>) nd)
         | Down w r target reason \<Rightarrow> ([], on_procs (deliver_remote_down K peer w r target reason) nd)
         | Link from to \<Rightarrow>
             (case with_procs (record_remote_link to peer from) nd of
                (True, nd) \<Rightarrow> ([], nd)
              | (False, nd) \<Rightarrow> ([], snd (send_frame peer (Exit to from (MKeyword (NOPROC_SYMBOL K)) True) nd)))
         | Unlink from to \<Rightarrow> ([], snd (with_procs (drop_remote_link to peer from) nd))
         | Exit from to reason l \<Rightarrow>
             ([], if l then on_procs (deliver_remote_link_exit K to peer from reason) nd else on_procs (exit_signal K to reason) nd)
         | Peers peers \<Rightarrow> mesh_consider mesh_enabled K peers nd
         | _ \<Rightarrow> ([], nd)))"

text \<open>One turn of the reader: a frame, or the end of the stream.\<close>

definition read_frame_turn :: "bool \<Rightarrow> setting \<Rightarrow> nat \<Rightarrow> u8 list \<Rightarrow> symbol \<Rightarrow> u64 \<Rightarrow> symbol frame option \<Rightarrow> node \<Rightarrow> (symbol \<times> rstring) list \<times> node" where
  "read_frame_turn mesh_enabled K now_millis pong peer i frame nd = (case frame of
     None \<Rightarrow> ([], drop_link K peer i nd)
   | Some f \<Rightarrow>
       (let nd = nd\<lparr>last_seen := (last_seen nd)(i := now_millis)\<rparr>
        in if f = Ping then
             (case at_end i (try_send (OutFrame pong)) nd of
                (True, nd) \<Rightarrow> ([], nd)
              | (False, nd) \<Rightarrow> ([], drop_link K peer i (shut_link i nd)))
           else handle_inbound_frame mesh_enabled K peer i f nd))"

definition HEARTBEAT_INTERVAL :: nat where "HEARTBEAT_INTERVAL = 2000"
definition DOWN_AFTER :: nat where "DOWN_AFTER = 6000"

definition heartbeat_tick :: "nat \<Rightarrow> u8 list \<Rightarrow> node \<Rightarrow> node" where
  "heartbeat_tick now_millis ping nd =
     fold (\<lambda>(i, last) nd.
        (let elapsed = now_millis - last in
         if elapsed \<ge> DOWN_AFTER then shut_link i nd
         else if elapsed > HEARTBEAT_INTERVAL then
           (case at_end i (try_send (OutFrame ping)) nd of
              (True, nd) \<Rightarrow> nd
            | (False, nd) \<Rightarrow> if writer_gone (ENDS nd i) then shut_link i nd else nd)
         else nd))
       (concat (map (\<lambda>name. case Mapping.lookup (NODES nd) name of Some c \<Rightarrow> [(conn_id c, last_seen nd (conn_id c))] | None \<Rightarrow> [])
          (Mapping.ordered_keys (NODES nd)))) nd"

end
