(* ===== verification/Guest_Laws.thy ===== *)
theory Guest_Laws
  imports Guest
begin

text \<open>
  What the guest filter guarantees, and what it does not: the walks find every function and every pid of a
  message that holds no record, and see nothing inside a record; minted names are nobody else's; and the
  renaming of pids at the edge is undone by the renaming of the answer.
\<close>

section \<open>What the walks see\<close>

function visible :: "'s message \<Rightarrow> 's message list" where
  "visible m = m # concat (map visible (children m))"
  by pat_completeness auto
termination by (relation "measure size") (auto dest: children_subset size_child)

declare visible.simps [simp del]

lemma visible_self: "m \<in> set (visible m)"
  by (simp add: visible.simps [of m])

lemma visible_pid: "visible (MPid node i) = [MPid node i]"
  by (simp add: visible.simps)

lemma visible_nested: "set (visible m) \<subseteq> set (submessages m)"
proof (induction m rule: message_induct)
  case (children m)
  then have "c \<in> set (children m) \<Longrightarrow> set (visible c) \<subseteq> set (submessages c)" for c using children_subset by blast
  then show ?case using children_subset [of _ m] by (fastforce simp: visible.simps [of m] submessages.simps [of m])
qed

lemma carries_code_loop_iff: "carries_code_loop stack \<longleftrightarrow> (\<exists>x \<in> set (concat (map visible stack)). is_code x)"
proof (induction stack rule: carries_code_loop.induct)
  case (2 m stack)
  then show ?case by (auto simp: visible.simps [of m])
qed simp

lemma as_pid_iff: "as_pid m = Some (node, i) \<longleftrightarrow> m = MPid node i"
  by (cases m) auto

lemma as_pid_children: "as_pid m = Some p \<Longrightarrow> children m = []"
  by (cases m) auto

lemma pids_loop_set: "(node, i) \<in> set (pids_loop stack) \<longleftrightarrow> MPid node i \<in> set (concat (map visible stack))"
proof (induction stack rule: pids_loop.induct)
  case (2 m stack)
  show ?case
  proof (cases "as_pid m")
    case None
    then have "m \<noteq> MPid node i" by auto
    then show ?thesis using None 2 by (auto simp: visible.simps [of m])
  next
    case (Some p)
    then show ?thesis using 2 as_pid_children [OF Some] as_pid_iff [of m] by (cases p) (auto simp: visible_pid)
  qed
qed simp

lemma carries_code_iff: "carries_code m \<longleftrightarrow> (\<exists>x \<in> set (visible m). is_code x)"
  by (simp add: carries_code_def carries_code_loop_iff)

lemma for_each_pid_set: "(node, i) \<in> set (for_each_pid m) \<longleftrightarrow> MPid node i \<in> set (visible m)"
  unfolding for_each_pid_def pids_loop_set by simp

text \<open>Only a record, or a closure, hides anything from the walks.\<close>

lemma children_all: "\<not> is_record m \<Longrightarrow> \<not> is_code m \<Longrightarrow> children m = for_each_child m"
  by (cases m) auto

lemma visible_all:
  "\<forall>x \<in> set (submessages m). \<not> is_record x \<Longrightarrow> \<forall>x \<in> set (visible m). \<not> is_code x \<Longrightarrow> visible m = submessages m"
proof (induction m rule: message_induct)
  case (children m)
  have same: "children m = for_each_child m"
    using children(2,3) visible_self [of m] by (intro children_all) (auto simp: submessages.simps [of m])
  have "visible c = submessages c" if "c \<in> set (for_each_child m)" for c
    using that children(2,3) same
    by (intro children(1)) (auto simp: submessages.simps [of m] visible.simps [of m])
  then show ?case unfolding visible.simps [of m] submessages.simps [of m] same by (simp cong: map_cong)
qed

lemma fold_insert_map: "fold (\<lambda>x. insert (f x)) xs S = S \<union> f ` set xs"
  by (induction xs arbitrary: S) auto

lemma note_outbound_fields [simp]:
  "held_grant (note_outbound K m g) = held_grant g" "claimed (note_outbound K m g) = claimed g"
  "link_name (note_outbound K m g) = link_name g"
  by (simp_all add: note_outbound_def)

lemma note_outbound_reachable:
  "reachable (note_outbound K m g) = reachable g \<union> {pid_key K node i | node i. MPid node i \<in> set (visible m)}"
proof -
  have "{pid_key K node i | node i. MPid node i \<in> set (visible m)} = (\<lambda>(node, i). pid_key K node i) ` set (for_each_pid m)"
    unfolding for_each_pid_set [symmetric] by force
  then show ?thesis using fold_insert_map [of "\<lambda>(node, i). pid_key K node i" "for_each_pid m" "reachable g"]
    by (simp add: note_outbound_def case_prod_unfold)
qed

lemma fold_all: "fold (\<lambda>x b. b \<and> P x) xs b \<longleftrightarrow> b \<and> (\<forall>x \<in> set xs. P x)"
  by (induction xs arbitrary: b) auto

lemma holds_only_known_iff:
  "holds_only_known_pids K m g \<longleftrightarrow>
   (\<forall>node i. MPid node i \<in> set (visible m) \<longrightarrow> node = claimed g \<or> pid_key K node i \<in> reachable g)"
proof -
  have "(\<lambda>(node, i) known. known \<and> (node = claimed g \<or> pid_key K node i \<in> reachable g)) =
      (\<lambda>x b. b \<and> (case x of (node, i) \<Rightarrow> node = claimed g \<or> pid_key K node i \<in> reachable g))"
    by (simp add: fun_eq_iff)
  then show ?thesis unfolding holds_only_known_pids_def by (fastforce simp: fold_all for_each_pid_set)
qed

section \<open>What a guest can reach\<close>

text \<open>A link's standing after the messages that went out over it.\<close>

definition told :: "setting \<Rightarrow> grant \<Rightarrow> symbol \<Rightarrow> symbol \<Rightarrow> symbol message list \<Rightarrow> guest_link" where
  "told K gr claim name outs = fold (note_outbound K) outs (new_guest gr claim name)"

text \<open>The pid was in a message that went out, in either spelling of this node.\<close>

definition told_pid :: "setting \<Rightarrow> symbol message list \<Rightarrow> symbol \<Rightarrow> u64 \<Rightarrow> bool" where
  "told_pid K outs node i \<longleftrightarrow>
     (\<exists>m \<in> set outs. \<exists>n. MPid n i \<in> set (submessages m) \<and> (n = node \<or> is_local_node K n \<and> is_local_node K node))"

lemma told_fields: "held_grant (told K gr claim name outs) = gr \<and> claimed (told K gr claim name outs) = claim \<and>
  link_name (told K gr claim name outs) = name"
proof -
  have "held_grant (fold (note_outbound K) outs g) = held_grant g \<and> claimed (fold (note_outbound K) outs g) = claimed g \<and>
    link_name (fold (note_outbound K) outs g) = link_name g" for g by (induction outs arbitrary: g) simp_all
  then show ?thesis by (simp add: told_def new_guest_def)
qed

lemma told_reachable:
  "reachable (told K gr claim name outs) = {pid_key K node i | m node i. m \<in> set outs \<and> MPid node i \<in> set (visible m)}"
proof -
  have "reachable (fold (note_outbound K) outs g) =
      reachable g \<union> {pid_key K node i | m node i. m \<in> set outs \<and> MPid node i \<in> set (visible m)}" for g
    by (induction outs arbitrary: g) (auto simp: note_outbound_reachable)
  then show ?thesis by (simp add: told_def new_guest_def)
qed

lemma told_key: "pid_key K node i \<in> reachable (told K gr claim name outs) \<Longrightarrow> told_pid K outs node i"
  using visible_nested by (fastforce simp: told_reachable told_pid_def pid_key_def is_local_node_def split: if_splits)

text \<open>
  C31: the guest filter. Whatever has gone out over a guest link, a message the guest sends is acted on only
  when it is for a granted name or a process of this node the guest was told of, a monitor likewise, and no
  frame that links, kills or gossips is; and a message without records has no function in it at any depth and
  names, at any depth, only processes of the guest's own node and processes it was told of.
\<close>

theorem guest_reach:
  assumes "admit K (Some (told K gr claim name outs)) frame"
  shows "(case frame of
      Send target m lane \<Rightarrow>
        (case target of Name n \<Rightarrow> n \<in> names gr | Pid i \<Rightarrow> told_pid K outs (NONODE K) i) \<and>
        (\<not> holds_record m \<longrightarrow> (\<forall>x \<in> set (submessages m). \<not> is_code x \<and>
           (\<forall>node i. x = MPid node i \<longrightarrow> node = claim \<or> told_pid K outs node i)))
    | Monitor w target r \<Rightarrow> told_pid K outs (NONODE K) target
    | MonitorName w n r \<Rightarrow> n \<in> names gr
    | Demonitor w r \<Rightarrow> True | Down w r target reason \<Rightarrow> True | Ping \<Rightarrow> True | Pong \<Rightarrow> True
    | _ \<Rightarrow> False)"
proof -
  let ?g = "told K gr claim name outs"
  have reach: "reaches_pid K i ?g \<Longrightarrow> told_pid K outs (NONODE K) i" for i
    using told_key [of K "NONODE K" i] by (simp add: reaches_pid_def pid_key_def)
  have inside: "\<not> is_code x \<and> (\<forall>node i. x = MPid node i \<longrightarrow> node = claim \<or> told_pid K outs node i)"
    if "\<not> carries_code m" "holds_only_known_pids K m ?g" "\<not> holds_record m" "x \<in> set (submessages m)" for m x
  proof -
    have "visible m = submessages m"
      using that(1,3) by (intro visible_all) (auto simp: holds_record_iff carries_code_iff)
    then have "\<not> is_code x" "\<And>node i. MPid node i \<in> set (submessages m) \<Longrightarrow> node = claim \<or> pid_key K node i \<in> reachable ?g"
      using that told_fields [of K gr claim name outs] by (auto simp: carries_code_iff holds_only_known_iff)
    then show ?thesis using that(4) told_key by blast
  qed
  show ?thesis
  proof (cases frame)
    case (Send target m lane)
    then have a: "reaches K ?g target" "\<not> carries_code m" "holds_only_known_pids K m ?g" using assms by (simp_all add: admit_def)
    have "case target of Name n \<Rightarrow> n \<in> names gr | Pid i \<Rightarrow> told_pid K outs (NONODE K) i"
      using a(1) reach told_fields [of K gr claim name outs] by (cases target) simp_all
    then show ?thesis using inside a(2,3) Send by simp
  qed (use assms reach told_fields [of K gr claim name outs] in \<open>simp_all add: admit_def\<close>)
qed

text \<open>
  C32: a record carries anything past the filter. A message to a granted name that is a record is admitted
  whatever its fields hold, and so is the end of a monitored process whose reason is a function: the walk over
  a message's children stops at a record, and a reason is not asked whether it is code.
\<close>

theorem guest_record_unchecked:
  "(n \<in> names gr \<longrightarrow> admit K (Some (told K gr claim name outs)) (Send (Name n) (MRecord r es) lane)) \<and>
   admit K (Some (told K gr claim name outs)) (Down w k target (MClosure c))"
proof -
  have "visible (MRecord r es) = [MRecord r es]" "visible (MClosure c) = [MClosure c]" by (simp_all add: visible.simps)
  then show ?thesis using told_fields [of K gr claim name outs]
    by (simp add: admit_def carries_code_iff holds_only_known_iff)
qed

lemma guest_record_unchecked_witness:
  "\<forall>K. admit K (Some (told K \<lparr>cookie = [], names = {7}, as_name = None\<rparr> 1 2 [])) (Send (Name 7) (MRecord 8 [(MKeyword 3, MNative 4)]) Normal)"
  using guest_record_unchecked [of 7 "\<lparr>cookie = [], names = {7}, as_name = None\<rparr>" _ 1 2 "[]" 8 "[(MKeyword 3, MNative 4)]" Normal]
  by simp

lemma guest_reach_witness:
  "\<forall>K. told_pid K [MVector [MPid (NONODE K) 9]] (NONODE K) 9"
proof
  fix K :: setting
  have "visible (MVector [MPid (NONODE K) 9]) = [MVector [MPid (NONODE K) 9], MPid (NONODE K) 9]" by (simp add: visible.simps)
  then have "admit K (Some (told K \<lparr>cookie = [], names = {}, as_name = None\<rparr> 1 2 [MVector [MPid (NONODE K) 9]])) (Monitor 3 9 4)"
    by (simp add: admit_def reaches_pid_def told_reachable pid_key_def is_local_node_def)
  from guest_reach [OF this] show "told_pid K [MVector [MPid (NONODE K) 9]] (NONODE K) 9" by simp
qed

section \<open>Renaming at the edge\<close>

lemma for_each_child_mut_children: "for_each_child (for_each_child_mut f m) = map f (for_each_child m)"
proof -
  have p: "flat_pairs (map (\<lambda>p. (f (fst p), f (snd p))) es) = map f (flat_pairs es)" for es
    by (induction es rule: flat_pairs.induct) auto
  have a: "arm_children (map_arm f a) = map f (arm_children a)" for a
    by (simp add: map_arm_def arm_children_def o_def case_prod_unfold)
  show ?thesis by (cases m) (auto simp: p a closure_children_def map_closure_children_def o_def case_prod_unfold map_concat)
qed

lemma for_each_child_mut_twice: "for_each_child_mut f (for_each_child_mut g m) = for_each_child_mut (\<lambda>x. f (g x)) m"
  by (cases m) (auto simp: map_closure_children_def map_arm_def o_def case_prod_unfold)

lemma map_arm_same: "map_arm (\<lambda>x. x) a = a"
  by (cases a) (simp add: map_arm_def)

lemma for_each_child_mut_same: "for_each_child_mut (\<lambda>x. x) m = m"
proof (cases m)
  case (MClosure c)
  have "map (map_arm (\<lambda>x. x)) as = as" for as :: "'a closure_arm_msg list" by (induction as) (simp_all add: map_arm_same)
  then show ?thesis using MClosure by (cases c) (simp add: map_closure_children_def)
qed simp_all

lemma as_pid_mut: "as_pid m = None \<Longrightarrow> as_pid (for_each_child_mut f m) = None"
  by (cases m) auto

lemma rename_pid: "rename_pids from to (MPid n i) = MPid (if n = from then to else n) i"
  by (simp add: rename_pids.simps)

lemma rename_other: "as_pid m = None \<Longrightarrow> rename_pids from to m = for_each_child_mut (rename_pids from to) m"
  by (simp add: rename_pids.simps)

lemma rename_back:
  assumes "\<And>i. MPid to i \<notin> set (submessages m)"
  shows "rename_pids to from (rename_pids from to m) = m"
  using assms
proof (induction m rule: message_induct)
  case (children m)
  show ?case
  proof (cases "as_pid m")
    case None
    have "rename_pids to from (rename_pids from to c) = c" if "c \<in> set (for_each_child m)" for c
      using that children by (auto simp: submessages.simps [of m])
    then have "for_each_child_mut (\<lambda>c. rename_pids to from (rename_pids from to c)) m = for_each_child_mut (\<lambda>c. c) m"
      by (intro for_each_child_mut_cong) simp_all
    then show ?thesis using None
      by (simp add: rename_other as_pid_mut for_each_child_mut_twice for_each_child_mut_same)
  next
    case (Some p)
    then obtain n i where "m = MPid n i" by (cases p) (auto simp: as_pid_iff)
    moreover have "n \<noteq> to" using children(2) [of i] calculation by (auto simp: submessages.simps)
    ultimately show ?thesis by (simp add: rename_pid)
  qed
qed

lemma rename_pids_in:
  "from \<noteq> to \<Longrightarrow> MPid n i \<in> set (submessages (rename_pids from to m)) \<longleftrightarrow>
     n \<noteq> from \<and> (MPid n i \<in> set (submessages m) \<or> n = to \<and> MPid from i \<in> set (submessages m))"
proof (induction m rule: message_induct)
  case (children m)
  show ?case
  proof (cases "as_pid m")
    case None
    have "as_pid (rename_pids from to m) = None" using None by (simp add: rename_other as_pid_mut)
    then have "MPid n i \<noteq> rename_pids from to m" "\<And>k. MPid k i \<noteq> m" using None by (metis as_pid.simps(1) option.distinct(1))+
    moreover have "set (submessages (rename_pids from to m)) =
        insert (rename_pids from to m) (\<Union>c \<in> set (for_each_child m). set (submessages (rename_pids from to c)))"
      by (subst submessages.simps) (simp add: rename_other [OF None] for_each_child_mut_children)
    ultimately show ?thesis using children by (auto simp: submessages.simps [of m])
  next
    case (Some p)
    then obtain k j where "m = MPid k j" by (cases p) (auto simp: as_pid_iff)
    then show ?thesis using children(2) by (auto simp: rename_pid submessages.simps)
  qed
qed


fun frame_parts :: "'s frame \<Rightarrow> 's message list" where
  "frame_parts (Send target m lane) = submessages m"
| "frame_parts (Down w r target reason) = submessages reason"
| "frame_parts (Exit from to reason l) = submessages reason"
| "frame_parts _ = []"

lemma frame_message_mut_twice:
  "(\<And>m. frame_parts frame = submessages m \<Longrightarrow> f (g m) = m) \<Longrightarrow> frame_message_mut f (frame_message_mut g frame) = frame"
  by (cases frame) auto

text \<open>
  C33: a guest sees its own processes. What goes out and comes back, and what comes in and goes back, names the
  same processes, whatever the messages hold, when the guest does not know the minted name and no other node
  bears the claimed one; and a frame let in names the guest's processes by the minted name only.
\<close>

theorem guest_names_roundtrip:
  assumes "claimed g \<noteq> link_name g"
  shows "((\<forall>i. MPid (link_name g) i \<notin> set (frame_parts frame)) \<longrightarrow> translate_outbound g (translate_inbound g frame) = frame) \<and>
    ((\<forall>i. MPid (claimed g) i \<notin> set (frame_parts frame)) \<longrightarrow> translate_inbound g (translate_outbound g frame) = frame) \<and>
    (MPid n i \<in> set (frame_parts (translate_inbound g frame)) \<longleftrightarrow> n \<noteq> claimed g \<and>
       (MPid n i \<in> set (frame_parts frame) \<or> n = link_name g \<and> MPid (claimed g) i \<in> set (frame_parts frame)))"
proof (intro conjI impI)
  show "translate_outbound g (translate_inbound g frame) = frame" if "\<forall>i. MPid (link_name g) i \<notin> set (frame_parts frame)"
    using that by (auto simp: translate_outbound_def translate_inbound_def intro!: frame_message_mut_twice rename_back)
  show "translate_inbound g (translate_outbound g frame) = frame" if "\<forall>i. MPid (claimed g) i \<notin> set (frame_parts frame)"
    using that by (auto simp: translate_outbound_def translate_inbound_def intro!: frame_message_mut_twice rename_back)
  show "MPid n i \<in> set (frame_parts (translate_inbound g frame)) \<longleftrightarrow> n \<noteq> claimed g \<and>
      (MPid n i \<in> set (frame_parts frame) \<or> n = link_name g \<and> MPid (claimed g) i \<in> set (frame_parts frame))"
    unfolding translate_inbound_def by (cases frame) (simp_all add: rename_pids_in [OF assms])
qed

lemma guest_names_roundtrip_witness:
  "translate_outbound \<lparr>held_grant = \<lparr>cookie = [], names = {5}, as_name = None\<rparr>, reachable = {}, claimed = 1, link_name = 2\<rparr>
     (translate_inbound \<lparr>held_grant = \<lparr>cookie = [], names = {5}, as_name = None\<rparr>, reachable = {}, claimed = 1, link_name = 2\<rparr> (Send (Name 5) (MVector [MPid 1 9, MPid 3 4]) Normal)) =
   Send (Name 5) (MVector [MPid 1 9, MPid 3 4]) Normal"
proof -
  have "MPid 2 i \<notin> set (frame_parts (Send (Name (5 :: symbol)) (MVector [MPid 1 9, MPid 3 4]) Normal))" for i
    by (simp add: submessages.simps)
  then show ?thesis
    using guest_names_roundtrip [of "\<lparr>held_grant = \<lparr>cookie = [], names = {5}, as_name = None\<rparr>, reachable = {}, claimed = 1, link_name = 2\<rparr>"
        "Send (Name 5) (MVector [MPid 1 9, MPid 3 4]) Normal" 0 0] by simp
qed

section \<open>Minted names\<close>

definition digit :: "u8 \<Rightarrow> bool" where
  "digit b \<longleftrightarrow> (\<exists>d < 10. b = of_nat (48 + d))"

lemma of_nat_u8_inj: "a < 256 \<Longrightarrow> b < 256 \<Longrightarrow> (of_nat a :: u8) = of_nat b \<longleftrightarrow> a = b"
  by (simp add: word_of_nat_eq_iff take_bit_eq_mod)

lemma digit_of: "d < 10 \<Longrightarrow> digit (of_nat (48 + d))"
  by (auto simp: digit_def)

lemma decimal_small: "n < 10 \<Longrightarrow> decimal n = [of_nat (48 + n)]"
  and decimal_large: "\<not> n < 10 \<Longrightarrow> decimal n = decimal (n div 10) @ [of_nat (48 + n mod 10)]"
  by (simp_all add: decimal.simps [of n] del: of_nat_add)

lemma decimal_digits: "b \<in> set (decimal n) \<Longrightarrow> digit b"
proof (induction n rule: decimal.induct)
  case (1 n)
  show ?case
  proof (cases "n < 10")
    case True
    then show ?thesis using 1(2) digit_of [of n] by (simp add: decimal_small del: of_nat_add)
  next
    case False
    then show ?thesis using 1 digit_of [of "n mod 10"] by (auto simp: decimal_large simp del: of_nat_add)
  qed
qed

lemma decimal_nonempty: "decimal n \<noteq> []"
  by (subst decimal.simps) simp

lemma decimal_inj: "decimal n = decimal m \<Longrightarrow> n = m"
proof (induction n arbitrary: m rule: decimal.induct)
  case (1 n)
  have d: "a < 10 \<Longrightarrow> b < 10 \<Longrightarrow> (of_nat (48 + a) :: u8) = of_nat (48 + b) \<Longrightarrow> a = b" for a b
    using of_nat_u8_inj [of "48 + a" "48 + b"] by simp
  have e: "xs @ [x] = ys @ [y] \<longleftrightarrow> xs = ys \<and> x = y" for xs ys :: rstring and x y by auto
  show ?case
  proof (cases "n < 10"; cases "m < 10")
    assume "n < 10" "m < 10"
    then show ?thesis using 1(2) d [of n m] by (simp add: decimal_small del: of_nat_add)
  next
    assume "n < 10" "\<not> m < 10"
    then show ?thesis using 1(2) decimal_nonempty [of "m div 10"] by (simp add: decimal_small decimal_large del: of_nat_add)
  next
    assume "\<not> n < 10" "m < 10"
    then show ?thesis using 1(2) decimal_nonempty [of "n div 10"] by (simp add: decimal_small decimal_large del: of_nat_add)
  next
    assume l: "\<not> n < 10" "\<not> m < 10"
    then have "decimal (n div 10) = decimal (m div 10)" "(of_nat (48 + n mod 10) :: u8) = of_nat (48 + m mod 10)"
      using 1(2) by (simp_all add: decimal_large e del: of_nat_add)
    then have "n div 10 = m div 10" "n mod 10 = m mod 10" using 1(1) [OF l(1)] d [of "n mod 10" "m mod 10"] by simp_all
    then show ?thesis by (metis div_mult_mod_eq)
  qed
qed

lemma split_at_first:
  assumes "xs @ c # ys = xs' @ c # ys'" "c \<notin> set xs" "c \<notin> set xs'"
  shows "xs = xs' \<and> ys = ys'"
  using assms
proof (induction xs arbitrary: xs')
  case Nil
  then show ?case by (cases xs') auto
next
  case (Cons x xs)
  then show ?case by (cases xs') auto
qed

lemma hex16_inj: "hex16 v = hex16 w \<Longrightarrow> v = w"
proof -
  assume h: "hex16 v = hex16 w"
  have d: "hex_digit a = hex_digit b \<Longrightarrow> a < 16 \<Longrightarrow> b < 16 \<Longrightarrow> a = b" for a b
    using of_nat_u8_inj [of "if a < 10 then 48 + a else 87 + a" "if b < 10 then 48 + b else 87 + b"]
    by (auto simp: hex_digit_def simp del: of_nat_add split: if_splits)
  have n: "unat (drop_bit (4 * i) v) mod 16 = unat (drop_bit (4 * i) w) mod 16" if "i < 16" for i
    using h that d [of "unat (drop_bit (4 * i) v) mod 16" "unat (drop_bit (4 * i) w) mod 16"] by (simp add: hex16_def)
  have "bit v k = bit w k" if "k < 64" for k
  proof -
    have "bit (unat (drop_bit (4 * (k div 4)) x) mod 16) (k mod 4) = bit x k" for x :: u64
    proof -
      have "unat (drop_bit (4 * (k div 4)) x) mod 16 = take_bit 4 (unat (drop_bit (4 * (k div 4)) x))"
        by (simp add: take_bit_eq_mod)
      then show ?thesis using that by (simp add: bit_take_bit_iff bit_unsigned_iff bit_drop_bit_eq)
    qed
    moreover have "k div 4 < 16" using that by auto
    ultimately show ?thesis using n by metis
  qed
  then show "v = w" by (intro bit_word_eqI) simp
qed

lemma minted_text_inj: "minted_text s i t = minted_text s' i' t' \<Longrightarrow> s = s' \<and> i = i'"
proof -
  assume e: "minted_text s i t = minted_text s' i' t'"
  have "\<not> digit 46"
  proof
    assume "digit 46"
    then obtain d where "d < 10" "(46 :: u8) = of_nat (48 + d)" by (auto simp: digit_def)
    then show False using of_nat_u8_inj [of 46 "48 + d"] by simp
  qed
  then have no_dot: "46 \<notin> set (decimal n)" for n using decimal_digits by blast
  have "decimal (unat s) @ 46 # hex16 i @ 126 # t = decimal (unat s') @ 46 # hex16 i' @ 126 # t'"
    using e by (simp add: minted_text_def)
  then have s: "decimal (unat s) = decimal (unat s')" "hex16 i @ 126 # t = hex16 i' @ 126 # t'"
    using split_at_first [OF _ no_dot no_dot] by simp_all
  have "length (hex16 i) = length (hex16 i')" by (simp add: hex16_def)
  then have "hex16 i = hex16 i'" using s(2) by simp
  from hex16_inj [OF this] show ?thesis using decimal_inj [OF s(1)] word_unat_eq_iff by blast
qed

lemma minted_prefix: "starts_with NAME_PREFIX (minted_text s i t)"
  by (simp add: starts_with_def minted_text_def)

text \<open>
  a guest's name is the host's to give. A minted name is in the guest namespace, is no symbol spelled
  outside it, and is no name minted with another serial or by a node of another incarnation, whatever is
  interned before or after.
\<close>

theorem minted_name_unique:
  assumes "interner_inv I" "cache_inv I C" "length (NAMES I) < 2 ^ 32" "symbol_name I claim = Some text"
  shows "\<exists>C' I' n. mint_name serial (C, I) claim inc = Some (serial + 1, (C', I'), n) \<and> interner_inv I' \<and> grows I I' \<and>
    symbol_name I' n = Some (minted_text serial inc text) \<and>
    (\<forall>J x s. grows I' J \<longrightarrow> symbol_name J x = Some s \<longrightarrow>
       (is_guest_name (\<lambda>y. the (symbol_name J y)) x \<longleftrightarrow> starts_with NAME_PREFIX s) \<and>
       (x = n \<longrightarrow> starts_with NAME_PREFIX s \<and> (\<forall>serial' inc' t. s = minted_text serial' inc' t \<longrightarrow> serial' = serial \<and> inc' = inc)))"
proof -
  obtain C' I' n where i: "intern C I (minted_text serial inc text) = (C', I', n)" by (metis prod_cases3)
  then have I': "I' = fst (intern_global I (minted_text serial inc text))" "n = snd (intern_global I (minted_text serial inc text))"
    using intern_cache [OF assms(2), of "minted_text serial inc text"] by (metis fst_conv snd_conv)+
  note g = intern_global_inv [OF assms(1,3), of "minted_text serial inc text", folded I']
  have "starts_with NAME_PREFIX s \<and> (\<forall>serial' inc' t. s = minted_text serial' inc' t \<longrightarrow> serial' = serial \<and> inc' = inc)"
    if "grows I' J" "symbol_name J n = Some s" for J s
  proof -
    have "s = minted_text serial inc text" using symbol_name_grows [OF that(1) g(3)] that(2) by simp
    then show ?thesis using minted_prefix minted_text_inj by metis
  qed
  then show ?thesis using i assms(4) g
    by (intro exI [of _ C'] exI [of _ I'] exI [of _ n]) (simp add: mint_name_def is_guest_name_def)
qed

lemma minted_name_unique_witness:
  "\<exists>C' I' n. mint_name 0 (None, fst (intern_global empty_interner [97])) (snd (intern_global empty_interner [97])) 0 = Some (1, (C', I'), n) \<and>
     symbol_name I' n = Some (minted_text 0 0 [97])"
proof -
  let ?I = "fst (intern_global empty_interner [97])"
  have e: "length (NAMES empty_interner) < 2 ^ 32" by (simp add: empty_interner_def)
  note g = intern_global_inv [OF interner_inv_empty e, of "[97]"]
  have "length (NAMES ?I) < 2 ^ 32" "cache_inv ?I None" using g(4) by (simp_all add: empty_interner_def cache_inv_def cache_find_def)
  from minted_name_unique [OF g(1) this(2,1) g(3), of 0 0] show ?thesis by auto
qed

end
