(* ===== verification/Link_Table.thy ===== *)
theory Link_Table
  imports Nodes Guest_Laws
begin

text \<open>
  The table of connected peers: which of two links to one peer is kept, whose names the links are under, and
  which of the other operations leave the table alone.
\<close>

section \<open>Registering a link\<close>

lemma turn_fields [simp]:
  "GUESTS (snd (turn_of peer c nd)) = GUESTS nd" "symbols (snd (turn_of peer c nd)) = symbols nd"
  by (auto simp: turn_of_def split: option.split)

lemma guest_of_cong: "GUESTS nd' = GUESTS nd \<Longrightarrow> guest_of c nd' = guest_of c nd"
  by (simp add: guest_of_def)

lemma register_loop_fields:
  "GUESTS (snd (register_loop K peer c nd)) = GUESTS nd \<and> symbols (snd (register_loop K peer c nd)) = symbols nd"
proof (induction K peer c nd rule: register_loop.induct)
  case (1 K peer c nd)
  obtain t nd1 where t: "turn_of peer c nd = (t, nd1)" by fastforce
  then have f: "GUESTS nd1 = GUESTS nd" "symbols nd1 = symbols nd" by (metis turn_fields snd_conv)+
  show ?case
  proof (cases t)
    case (Restarted previous)
    then show ?thesis using 1 [OF t [symmetric]] t f by (subst (1 2) register_loop.simps) simp
  qed (subst (1 2) register_loop.simps, simp add: t f)+
qed

lemma shut_link_fields [simp]:
  "NODES (shut_link i nd) = NODES nd" "GUESTS (shut_link i nd) = GUESTS nd" "symbols (shut_link i nd) = symbols nd"
  "shut (ENDS (shut_link i nd) j) \<longleftrightarrow> j = i \<or> shut (ENDS nd j)"
  by (auto simp: shut_link_def shutdown_def)

lemma register_link_fields [simp]:
  "GUESTS (snd (register_link K peer c nd)) = GUESTS nd" "symbols (snd (register_link K peer c nd)) = symbols nd"
  using register_loop_fields [of K peer c nd]
  by (auto simp: register_link_def split: prod.splits option.splits)

text \<open>A socket that was shut down stays shut.\<close>

lemma send_shut: "shut (ENDS nd j) \<Longrightarrow> shut (ENDS (snd (send_frame n fr nd)) j)"
  by (auto simp: send_frame_def at_end_def enqueue_to_def try_send_def shutdown_def Let_def split: option.split sum.split prod.split)

lemma on_procs_shut: "shut (ENDS nd j) \<Longrightarrow> shut (ENDS (on_procs f nd) j)"
proof -
  have "shut (ENDS nd j) \<Longrightarrow> shut (ENDS (fold (\<lambda>s nd. snd (send_frame (fst (sent_frame s)) (snd (sent_frame s)) nd)) ss nd) j)" for ss nd
    by (induction ss arbitrary: nd) (simp_all add: send_shut)
  then show "shut (ENDS nd j) \<Longrightarrow> shut (ENDS (on_procs f nd) j)" by (simp add: on_procs_def with_procs_def split: prod.split)
qed

lemma sever_shut: "shut (ENDS nd j) \<Longrightarrow> shut (ENDS (sever_couplings K peer nd) j)"
  by (simp add: sever_couplings_def on_procs_shut)

lemma nodedown_shut: "shut (ENDS nd j) \<Longrightarrow> shut (ENDS (fire_nodedown K peer nd) j)"
  by (simp add: fire_nodedown_def sever_shut)

text \<open>The four things that can happen to a new link.\<close>

definition may_register :: "symbol \<Rightarrow> conn \<Rightarrow> node \<Rightarrow> bool" where
  "may_register peer c nd \<longleftrightarrow> guest_of c nd \<noteq> None \<or> \<not> is_guest_name (spelling (symbols nd)) peer"

lemma register_refused: "\<not> may_register peer c nd \<Longrightarrow> register_link K peer c nd = (None, nd)"
  by (simp add: register_link_def register_loop.simps turn_of_def may_register_def)

lemma register_new:
  "may_register peer c nd \<Longrightarrow> Mapping.lookup (NODES nd) peer = None \<Longrightarrow>
   register_link K peer c nd = (Some True, nd\<lparr>NODES := Mapping.update peer c (NODES nd)\<rparr>)"
  by (simp add: register_link_def register_loop.simps turn_of_def may_register_def)

lemma register_loses:
  "may_register peer c nd \<Longrightarrow> Mapping.lookup (NODES nd) peer = Some d \<Longrightarrow> incarnation d = incarnation c \<Longrightarrow>
   spelling (symbols nd) (connector d) \<le> spelling (symbols nd) (connector c) \<Longrightarrow> register_link K peer c nd = (None, nd)"
  by (simp add: register_link_def register_loop.simps turn_of_def may_register_def)

lemma register_wins:
  "may_register peer c nd \<Longrightarrow> Mapping.lookup (NODES nd) peer = Some d \<Longrightarrow> incarnation d = incarnation c \<Longrightarrow>
   \<not> spelling (symbols nd) (connector d) \<le> spelling (symbols nd) (connector c) \<Longrightarrow>
   register_link K peer c nd = (Some False,
     sever_couplings K peer (shut_link (conn_id d) (nd\<lparr>NODES := Mapping.update peer c (NODES nd)\<rparr>)))"
  by (simp add: register_link_def register_loop.simps turn_of_def may_register_def)

lemma register_restart:
  assumes "may_register peer c nd" "Mapping.lookup (NODES nd) peer = Some d" "incarnation d \<noteq> incarnation c"
  shows "register_link K peer c nd = (Some True,
    (let nd1 = retire_previous_incarnation K peer d (nd\<lparr>NODES := Mapping.delete peer (NODES nd)\<rparr>)
     in nd1\<lparr>NODES := Mapping.update peer c (NODES nd1)\<rparr>))"
proof -
  let ?nd = "retire_previous_incarnation K peer d (nd\<lparr>NODES := Mapping.delete peer (NODES nd)\<rparr>)"
  have g: "guest_of c ?nd = guest_of c nd" by (rule guest_of_cong) simp
  have "turn_of peer c nd = (Restarted d, nd\<lparr>NODES := Mapping.delete peer (NODES nd)\<rparr>)"
    using assms by (simp add: turn_of_def may_register_def)
  moreover have "turn_of peer c ?nd = (Registered True None, ?nd\<lparr>NODES := Mapping.update peer c (NODES ?nd)\<rparr>)"
    using assms(1) g by (simp add: turn_of_def may_register_def)
  ultimately show ?thesis by (simp add: register_link_def register_loop.simps [of K peer c nd] register_loop.simps [of K peer c ?nd])
qed

text \<open>
  C37: two links, one kept. When two nodes dial each other at once, each registers the two links in an order of
  its own, and both keep the one dialled by the node whose name sorts first and close the other; of two links
  dialled by one node the first stays; a link to another life of the peer replaces the old one, whoever dialled
  it; and a full link is never registered under a guest's name.
\<close>

theorem crossing_dials_agree:
  fixes nd :: node and a b :: conn
  defines "text \<equiv> spelling (symbols nd)"
  assumes "may_register peer a nd" "may_register peer b nd" "Mapping.lookup (NODES nd) peer = None"
  shows "(incarnation a = incarnation b \<longrightarrow> text (connector a) < text (connector b) \<longrightarrow>
      (let ab = register_link K peer b (snd (register_link K peer a nd)); ba = register_link K peer a (snd (register_link K peer b nd))
       in fst ab = None \<and> Mapping.lookup (NODES (snd ab)) peer = Some a \<and>
          fst ba = Some False \<and> Mapping.lookup (NODES (snd ba)) peer = Some a \<and> shut (ENDS (snd ba) (conn_id b)))) \<and>
    (incarnation a = incarnation b \<longrightarrow> text (connector a) = text (connector b) \<longrightarrow>
      (let ab = register_link K peer b (snd (register_link K peer a nd)) in fst ab = None \<and> Mapping.lookup (NODES (snd ab)) peer = Some a)) \<and>
    (incarnation a \<noteq> incarnation b \<longrightarrow>
      (let ab = register_link K peer b (snd (register_link K peer a nd))
       in fst ab = Some True \<and> Mapping.lookup (NODES (snd ab)) peer = Some b \<and> shut (ENDS (snd ab) (conn_id a)))) \<and>
    (\<not> may_register peer c nd \<longrightarrow> register_link K peer c nd = (None, nd))"
proof -
  let ?with = "\<lambda>c. nd\<lparr>NODES := Mapping.update peer c (NODES nd)\<rparr>"
  have r: "register_link K peer a nd = (Some True, ?with a)" "register_link K peer b nd = (Some True, ?with b)"
    using assms by (simp_all add: register_new)
  have m: "may_register peer b (?with a)" "may_register peer a (?with b)"
    using assms by (simp_all add: may_register_def guest_of_def)
  have s: "shut (ENDS (sever_couplings K peer (shut_link i nd')) i)" for i nd' by (simp add: sever_shut)
  have t: "shut (ENDS (retire_previous_incarnation K peer d nd') (conn_id d))" for d nd'
    by (simp add: retire_previous_incarnation_def nodedown_shut forget_dial_routes_def shut_link_def shutdown_def)
  have "register_link K peer b (?with a) = (None, ?with a)"
    if "incarnation a = incarnation b" "text (connector a) \<le> text (connector b)"
    using register_loses [OF m(1), of a] that by (simp add: text_def)
  moreover have "\<not> text (connector b) \<le> text (connector a)" if "text (connector a) < text (connector b)" using that by simp
  ultimately show ?thesis
    using register_wins [OF m(2), of b K] register_restart [OF m(1), of a K] register_refused [of peer c nd K] s t
    by (auto simp: r Let_def text_def)
qed

text \<open>A node of its own; symbols 0 and 1 are spelled \<open>a\<close> and \<open>b\<close>.\<close>

definition fresh_node :: "interner \<Rightarrow> node" where
  "fresh_node I = \<lparr>procs = fresh_runtime, NAME_TABLE = no_names, NODE_MONITORS = Mapping.empty, NODES = Mapping.empty,
     ENDS = (\<lambda>_. new_writer), GUESTS = (\<lambda>_. None), last_seen = (\<lambda>_. 0), DIAL_ROUTES = Mapping.empty, PENDING_DIALS = {},
     under_way = 0, held_gossip = Mapping.empty, NEXT_LATEST = 0, NEXT_LINK = 0, NEXT_GUEST_NAME = 0, symbols = I\<rparr>"

abbreviation ab_names :: interner where
  "ab_names \<equiv> fst (intern_global (fst (intern_global empty_interner [97])) [98])"

abbreviation dialled :: "u64 \<Rightarrow> symbol \<Rightarrow> conn" where
  "dialled i s \<equiv> \<lparr>conn_id = i, connector = s, incarnation = 5, dial_addr = [], lanes = True\<rparr>"

lemma ab_spelling: "spelling ab_names 0 = [97]" "spelling ab_names 1 = [98]"
  by (simp_all add: spelling_def symbol_name_def vec_get_def intern_global_def empty_interner_def Let_def)

lemma crossing_dials_agree_witness:
  "\<forall>K. Mapping.lookup (NODES (snd (register_link K 1 (dialled 3 1) (snd (register_link K 1 (dialled 2 0) (fresh_node ab_names)))))) 1 = Some (dialled 2 0) \<and>
   Mapping.lookup (NODES (snd (register_link K 1 (dialled 2 0) (snd (register_link K 1 (dialled 3 1) (fresh_node ab_names)))))) 1 = Some (dialled 2 0)"
proof -
  have s: "symbols (fresh_node ab_names) = ab_names" by (simp add: fresh_node_def)
  have "may_register 1 c (fresh_node ab_names)" "Mapping.lookup (NODES (fresh_node ab_names)) 1 = None" for c
    unfolding may_register_def is_guest_name_def s ab_spelling by (simp_all add: starts_with_def NAME_PREFIX_def fresh_node_def)
  from crossing_dials_agree [OF this(1,1,2), of "dialled 2 0" "dialled 3 1"] show ?thesis
    unfolding s by (simp add: ab_spelling Let_def)
qed

section \<open>Under which names links are\<close>

text \<open>A minted name is spelled with a serial already used.\<close>

definition minted_name :: "symbol \<Rightarrow> node \<Rightarrow> bool" where
  "minted_name p nd \<longleftrightarrow> (\<exists>s inc t. symbol_name (symbols nd) p = Some (minted_text s inc t) \<and> s < NEXT_GUEST_NAME nd)"

definition table_ok :: "node \<Rightarrow> bool" where
  "table_ok nd \<longleftrightarrow> interner_inv (symbols nd) \<and>
     (\<forall>p c. Mapping.lookup (NODES nd) p = Some c \<longrightarrow> conn_id c < NEXT_LINK nd \<and> symbol_name (symbols nd) p \<noteq> None \<and>
        (GUESTS nd (conn_id c) = None \<longrightarrow> \<not> is_guest_name (spelling (symbols nd)) p) \<and>
        (\<forall>g. GUESTS nd (conn_id c) = Some g \<longrightarrow> link_name g = p \<and> minted_name p nd)) \<and>
     (\<forall>p q c d. Mapping.lookup (NODES nd) p = Some c \<longrightarrow> Mapping.lookup (NODES nd) q = Some d \<longrightarrow> conn_id c = conn_id d \<longrightarrow> p = q)"

text \<open>
  What changes the table: a link established, ended or disconnected. Everything else keeps it, the names the
  guests are known by, and the spelling of symbols. Neither counter has gone round.
\<close>

definition same_links :: "node \<Rightarrow> node \<Rightarrow> bool" where
  "same_links nd nd' \<longleftrightarrow> NODES nd' = NODES nd \<and> NEXT_LINK nd' = NEXT_LINK nd \<and> NEXT_GUEST_NAME nd' = NEXT_GUEST_NAME nd \<and>
     grows (symbols nd) (symbols nd') \<and> interner_inv (symbols nd') \<and>
     (\<forall>i. map_option link_name (GUESTS nd' i) = map_option link_name (GUESTS nd i))"

inductive nstep :: "setting \<Rightarrow> u64 \<Rightarrow> bool \<Rightarrow> node \<Rightarrow> node \<Rightarrow> bool" for K inc mesh where
  establishing: "establish mesh K inc ms a role nd = Some nd' \<Longrightarrow> symbol_name (symbols nd) (auth_peer a) \<noteq> None \<Longrightarrow>
    NEXT_LINK nd \<noteq> - 1 \<Longrightarrow> NEXT_GUEST_NAME nd \<noteq> - 1 \<Longrightarrow> length (NAMES (symbols nd)) < 2 ^ 32 \<Longrightarrow> nstep K inc mesh nd nd'"
| dropping: "nstep K inc mesh nd (drop_link K peer i nd)"
| disconnecting: "nstep K inc mesh nd (snd (disconnect K peer nd))"
| meanwhile: "same_links nd nd' \<Longrightarrow> nstep K inc mesh nd nd'"

lemma table_okI:
  assumes "interner_inv (symbols nd)"
    "\<And>p c. Mapping.lookup (NODES nd) p = Some c \<Longrightarrow> conn_id c < NEXT_LINK nd"
    "\<And>p c. Mapping.lookup (NODES nd) p = Some c \<Longrightarrow> symbol_name (symbols nd) p \<noteq> None"
    "\<And>p c. Mapping.lookup (NODES nd) p = Some c \<Longrightarrow> GUESTS nd (conn_id c) = None \<Longrightarrow> \<not> is_guest_name (spelling (symbols nd)) p"
    "\<And>p c g. Mapping.lookup (NODES nd) p = Some c \<Longrightarrow> GUESTS nd (conn_id c) = Some g \<Longrightarrow> link_name g = p \<and> minted_name p nd"
    "\<And>p q c d. Mapping.lookup (NODES nd) p = Some c \<Longrightarrow> Mapping.lookup (NODES nd) q = Some d \<Longrightarrow> conn_id c = conn_id d \<Longrightarrow> p = q"
  shows "table_ok nd"
  using assms unfolding table_ok_def by blast

lemma table_okD:
  assumes "table_ok nd"
  shows "interner_inv (symbols nd)"
    "Mapping.lookup (NODES nd) p = Some c \<Longrightarrow> conn_id c < NEXT_LINK nd"
    "Mapping.lookup (NODES nd) p = Some c \<Longrightarrow> symbol_name (symbols nd) p \<noteq> None"
    "Mapping.lookup (NODES nd) p = Some c \<Longrightarrow> GUESTS nd (conn_id c) = None \<Longrightarrow> \<not> is_guest_name (spelling (symbols nd)) p"
    "Mapping.lookup (NODES nd) p = Some c \<Longrightarrow> GUESTS nd (conn_id c) = Some g \<Longrightarrow> link_name g = p \<and> minted_name p nd"
    "Mapping.lookup (NODES nd) p = Some c \<Longrightarrow> Mapping.lookup (NODES nd) q = Some d \<Longrightarrow> conn_id c = conn_id d \<Longrightarrow> p = q"
  using assms unfolding table_ok_def by blast+

lemma spelling_grows: "grows I I' \<Longrightarrow> symbol_name I p \<noteq> None \<Longrightarrow> spelling I' p = spelling I p"
  by (auto simp: spelling_def symbol_name_grows)

lemma minted_grows: "minted_name p nd \<Longrightarrow> grows (symbols nd) (symbols nd') \<Longrightarrow> NEXT_GUEST_NAME nd \<le> NEXT_GUEST_NAME nd' \<Longrightarrow> minted_name p nd'"
  unfolding minted_name_def by (meson symbol_name_grows order_less_le_trans)

text \<open>Dropping entries, spelling more symbols and counting on keep the invariant.\<close>

lemma table_ok_fewer:
  assumes "table_ok nd" "\<And>p c. Mapping.lookup (NODES nd') p = Some c \<Longrightarrow> Mapping.lookup (NODES nd) p = Some c"
    "NEXT_LINK nd \<le> NEXT_LINK nd'" "NEXT_GUEST_NAME nd \<le> NEXT_GUEST_NAME nd'" "grows (symbols nd) (symbols nd')" "interner_inv (symbols nd')"
    "\<And>p c. Mapping.lookup (NODES nd') p = Some c \<Longrightarrow> map_option link_name (GUESTS nd' (conn_id c)) = map_option link_name (GUESTS nd (conn_id c))"
  shows "table_ok nd'"
proof (rule table_okI)
  note D = table_okD [OF assms(1)]
  fix p c assume "Mapping.lookup (NODES nd') p = Some c"
  note c = assms(2) [OF this] and g = assms(7) [OF this]
  show "conn_id c < NEXT_LINK nd'" using D(2) [OF c] assms(3) by simp
  show "symbol_name (symbols nd') p \<noteq> None" using D(3) [OF c] symbol_name_grows [OF assms(5)] by fastforce
  show "\<not> is_guest_name (spelling (symbols nd')) p" if "GUESTS nd' (conn_id c) = None"
    using D(4) [OF c] that g spelling_grows [OF assms(5) D(3) [OF c]] by (simp add: is_guest_name_def)
  show "link_name h = p \<and> minted_name p nd'" if "GUESTS nd' (conn_id c) = Some h" for h
  proof -
    note h = that
    obtain g' where g': "GUESTS nd (conn_id c) = Some g'" "link_name g' = link_name h"
      using h g by (cases "GUESTS nd (conn_id c)") auto
    then show ?thesis using D(5) [OF c g'(1)] minted_grows [OF _ assms(5,4)] by simp
  qed
next
  fix p q c d assume "Mapping.lookup (NODES nd') p = Some c" "Mapping.lookup (NODES nd') q = Some d" "conn_id c = conn_id d"
  then show "p = q" using table_okD(6) [OF assms(1)] assms(2) by blast
qed (rule assms(6))

text \<open>A new entry under a name that may be used.\<close>

lemma table_ok_update:
  assumes "table_ok nd" "conn_id c < NEXT_LINK nd" "symbol_name (symbols nd) p \<noteq> None"
    "GUESTS nd (conn_id c) = None \<Longrightarrow> \<not> is_guest_name (spelling (symbols nd)) p"
    "\<And>g. GUESTS nd (conn_id c) = Some g \<Longrightarrow> link_name g = p \<and> minted_name p nd"
    "\<And>q d. Mapping.lookup (NODES nd) q = Some d \<Longrightarrow> conn_id d \<noteq> conn_id c"
  shows "table_ok (nd\<lparr>NODES := Mapping.update p c (NODES nd)\<rparr>)"
proof (rule table_okI)
  note D = table_okD [OF assms(1)]
  have m: "minted_name q (nd\<lparr>NODES := Mapping.update p c (NODES nd)\<rparr>) = minted_name q nd" for q by (simp add: minted_name_def)
  fix q d assume "Mapping.lookup (NODES (nd\<lparr>NODES := Mapping.update p c (NODES nd)\<rparr>)) q = Some d"
  then have q: "(if q = p then Some c else Mapping.lookup (NODES nd) q) = Some d" by (auto simp: Mapping.lookup_update' split: if_splits)
  show "conn_id d < NEXT_LINK (nd\<lparr>NODES := Mapping.update p c (NODES nd)\<rparr>)" using q assms(2) D(2) by (auto split: if_splits)
  show "symbol_name (symbols (nd\<lparr>NODES := Mapping.update p c (NODES nd)\<rparr>)) q \<noteq> None" using q assms(3) D(3) by (auto split: if_splits)
  show "\<not> is_guest_name (spelling (symbols (nd\<lparr>NODES := Mapping.update p c (NODES nd)\<rparr>))) q"
    if "GUESTS (nd\<lparr>NODES := Mapping.update p c (NODES nd)\<rparr>) (conn_id d) = None"
    using q that assms(4) D(4) by (auto split: if_splits)
  show "link_name g = q \<and> minted_name q (nd\<lparr>NODES := Mapping.update p c (NODES nd)\<rparr>)"
    if "GUESTS (nd\<lparr>NODES := Mapping.update p c (NODES nd)\<rparr>) (conn_id d) = Some g" for g
    using q that assms(5) D(5) by (auto simp: m split: if_splits)
next
  fix q r d e
  assume "Mapping.lookup (NODES (nd\<lparr>NODES := Mapping.update p c (NODES nd)\<rparr>)) q = Some d"
    "Mapping.lookup (NODES (nd\<lparr>NODES := Mapping.update p c (NODES nd)\<rparr>)) r = Some e" "conn_id d = conn_id e"
  then show "q = r" using table_okD(6) [OF assms(1), of q d r e] assms(6) [of q d] assms(6) [of r e]
    by (auto simp: Mapping.lookup_update' split: if_splits)
qed (use table_okD(1) [OF assms(1)] in simp)

lemma drop_fields:
  "NEXT_LINK (fire_nodedown K peer nd) = NEXT_LINK nd" "NEXT_GUEST_NAME (fire_nodedown K peer nd) = NEXT_GUEST_NAME nd"
  by (simp_all add: fire_nodedown_def sever_couplings_def Let_def)

lemma table_ok_fire: "table_ok nd \<Longrightarrow> table_ok (fire_nodedown K peer nd)"
  by (rule table_ok_fewer [of nd]) (simp_all add: drop_fields table_okD(1))

lemma table_ok_forget: "table_ok nd \<Longrightarrow> table_ok (forget_dial_routes peer nd)"
  by (rule table_ok_fewer [of nd]) (simp_all add: forget_dial_routes_def table_okD(1))

lemma table_ok_shut: "table_ok nd \<Longrightarrow> table_ok (shut_link i nd)"
  by (rule table_ok_fewer [of nd]) (simp_all add: shut_link_def table_okD(1))

lemma table_ok_delete: "table_ok nd \<Longrightarrow> table_ok (nd\<lparr>NODES := Mapping.delete peer (NODES nd)\<rparr>)"
  by (rule table_ok_fewer [of nd]) (auto simp: lookup_gone table_okD(1) split: if_splits)

lemma table_ok_remove: "table_ok nd \<Longrightarrow> table_ok (snd (remove_current_link peer i nd))"
  by (simp add: remove_current_link_def table_ok_delete split: option.split)

lemma table_ok_drop: "table_ok nd \<Longrightarrow> table_ok (drop_link K peer i nd)"
  using table_ok_remove [of nd peer i] by (auto simp: drop_link_def table_ok_fire table_ok_forget split: prod.split)

lemma table_ok_disconnect: "table_ok nd \<Longrightarrow> table_ok (snd (disconnect K peer nd))"
proof (cases "Mapping.lookup (NODES nd) peer")
  case (Some c)
  assume "table_ok nd"
  then show ?thesis using Some table_ok_remove [of nd peer "conn_id c"]
    by (auto simp: disconnect_def table_ok_fire table_ok_forget table_ok_shut Let_def split: prod.split)
qed (simp add: disconnect_def)

text \<open>Registering a link whose id no registered link has.\<close>

lemma table_ok_sever: "table_ok nd \<Longrightarrow> table_ok (sever_couplings K peer nd)"
  by (rule table_ok_fewer [of nd]) (simp_all add: sever_couplings_def table_okD(1))

lemma table_ok_retire: "table_ok nd \<Longrightarrow> table_ok (retire_previous_incarnation K peer c nd)"
  by (simp add: retire_previous_incarnation_def table_ok_fire table_ok_forget table_ok_shut)

lemma retire_next:
  "NEXT_LINK (retire_previous_incarnation K peer c nd) = NEXT_LINK nd"
  "NEXT_GUEST_NAME (retire_previous_incarnation K peer c nd) = NEXT_GUEST_NAME nd"
  by (simp_all add: retire_previous_incarnation_def drop_fields forget_dial_routes_def shut_link_def)

lemma table_ok_register:
  assumes "table_ok nd" "conn_id c < NEXT_LINK nd" "symbol_name (symbols nd) p \<noteq> None"
    "\<And>g. GUESTS nd (conn_id c) = Some g \<Longrightarrow> link_name g = p \<and> minted_name p nd"
    "\<And>q d. Mapping.lookup (NODES nd) q = Some d \<Longrightarrow> conn_id d \<noteq> conn_id c"
  shows "table_ok (snd (register_link K p c nd))"
proof (cases "may_register p c nd")
  case True
  then have full: "GUESTS nd (conn_id c) = None \<Longrightarrow> \<not> is_guest_name (spelling (symbols nd)) p"
    by (simp add: may_register_def guest_of_def)
  note up = table_ok_update [OF assms(1-3) full assms(4,5)]
  show ?thesis
  proof (cases "Mapping.lookup (NODES nd) p")
    case None
    then show ?thesis using up True by (simp add: register_new)
  next
    case (Some d)
    let ?nd = "retire_previous_incarnation K p d (nd\<lparr>NODES := Mapping.delete p (NODES nd)\<rparr>)"
    have ok: "table_ok ?nd" by (intro table_ok_retire table_ok_delete assms(1))
    have m: "minted_name p ?nd = minted_name p nd" by (simp add: minted_name_def retire_next)
    have "table_ok (?nd\<lparr>NODES := Mapping.update p c (NODES ?nd)\<rparr>)"
      by (rule table_ok_update [OF ok]) (use assms full in \<open>auto simp: m retire_next lookup_gone split: if_splits\<close>)
    moreover have "table_ok (sever_couplings K p (shut_link (conn_id d) (nd\<lparr>NODES := Mapping.update p c (NODES nd)\<rparr>)))"
      by (intro table_ok_sever table_ok_shut up) simp_all
    ultimately show ?thesis
      using register_restart [OF True Some, of K] register_wins [OF True Some, of K] register_loses [OF True Some, of K] assms(1)
      by (cases "incarnation d = incarnation c"; cases "spelling (symbols nd) (connector d) \<le> spelling (symbols nd) (connector c)")
        (auto simp: Let_def)
  qed
qed (simp add: register_refused assms(1))

text \<open>Establishing a link: a full one under its peer's own name, a guest under the name minted for it.\<close>

lemma at_end_ends: "\<exists>e. snd (at_end i f nd) = nd\<lparr>ENDS := e\<rparr>"
  by (auto simp: at_end_def split: prod.split)

lemma fold_ends:
  assumes "\<And>x nd. \<exists>e. f x nd = nd\<lparr>ENDS := e\<rparr>"
  shows "\<exists>e. fold f xs nd = (nd :: node)\<lparr>ENDS := e\<rparr>"
proof (induction xs arbitrary: nd)
  case Nil
  show ?case by (rule exI [of _ "ENDS nd"]) simp
next
  case (Cons x xs)
  obtain e where "f x nd = nd\<lparr>ENDS := e\<rparr>" using assms by blast
  moreover obtain e' where "fold f xs (nd\<lparr>ENDS := e\<rparr>) = nd\<lparr>ENDS := e, ENDS := e'\<rparr>" using Cons.IH by blast
  ultimately show ?case by auto
qed

lemma send_or_shut_ends:
  "\<exists>e. (case at_end i f nd of (True, nd) \<Rightarrow> nd | (False, nd) \<Rightarrow> shut_link j nd) = nd\<lparr>ENDS := e\<rparr>"
  using at_end_ends [of i f nd] by (auto simp: shut_link_def split: prod.split bool.split)

lemma broadcast_ends: "\<exists>e. broadcast_peer_table nd = nd\<lparr>ENDS := e\<rparr>"
  unfolding broadcast_peer_table_def Let_def
proof (rule fold_ends, goal_cases)
  case (1 x m)
  have same: "\<exists>e. m = m\<lparr>ENDS := e\<rparr>" by (rule exI [of _ "ENDS m"]) simp
  show ?case using same send_or_shut_ends by (cases x) (auto split: sum.split)
qed

lemma table_ok_ends: "table_ok nd \<Longrightarrow> table_ok (nd\<lparr>ENDS := e\<rparr>)"
  by (rule table_ok_fewer [of nd]) (simp_all add: table_okD(1))

lemma table_ok_broadcast: "table_ok nd \<Longrightarrow> table_ok (broadcast_peer_table nd)"
  using broadcast_ends [of nd] table_ok_ends by auto

lemma intern_None: "intern None I name = (None, intern_global I name)"
  by (simp add: intern_def cache_find_def split: prod.split)

lemma next_word: "i \<noteq> - 1 \<Longrightarrow> i < i + (1 :: u64)"
proof -
  assume "i \<noteq> - 1"
  then have "1 + i \<noteq> 0" by (metis add_eq_0_iff minus_minus)
  from unatSuc [OF this] show "i < i + 1" by (simp add: word_less_nat_alt add.commute)
qed

lemma table_ok_establish:
  assumes "table_ok nd" "establish mesh K inc ms a role nd = Some nd'" "symbol_name (symbols nd) (auth_peer a) \<noteq> None"
    "NEXT_LINK nd \<noteq> - 1" "NEXT_GUEST_NAME nd \<noteq> - 1" "length (NAMES (symbols nd)) < 2 ^ 32"
  shows "table_ok nd'"
proof -
  note D = table_okD [OF assms(1)]
  let ?i = "NEXT_LINK nd"
  let ?nd = "nd\<lparr>NEXT_LINK := ?i + 1, ENDS := (ENDS nd)(?i := new_writer), last_seen := (last_seen nd)(?i := ms)\<rparr>"
  let ?c = "\<lparr>conn_id = ?i, connector = (case role of Initiator \<Rightarrow> local_node K | Responder \<Rightarrow> auth_peer a),
     incarnation = auth_incarnation a, dial_addr = auth_addr a, lanes = auth_lanes a\<rparr>"
  have i: "?i < ?i + 1" using next_word assms(4) by blast
  show ?thesis
  proof (cases "auth_grant a")
    case None
    let ?nd2 = "?nd\<lparr>GUESTS := (GUESTS nd)(?i := None)\<rparr>"
    have "table_ok ?nd2"
      by (rule table_ok_fewer [OF assms(1)]) (use i D(1,2) in \<open>auto dest: D(2)\<close>)
    then have ok: "table_ok (snd (register_link K (auth_peer a) ?c ?nd2))"
      by (rule table_ok_register) (use i assms(3) in \<open>auto dest: D(2)\<close>)
    obtain r nd3 where R: "register_link K (auth_peer a) ?c ?nd2 = (r, nd3)" by fastforce
    have "nd' = (case r of None \<Rightarrow> shut_link ?i nd3 | Some was_new \<Rightarrow> if was_new \<and> mesh then broadcast_peer_table nd3 else nd3)"
      using assms(2) None R by (cases r) (auto simp: establish_def Let_def)
    then show ?thesis using ok R by (auto simp: table_ok_shut table_ok_broadcast split: option.split)
  next
    case (Some g)
    obtain cl where t: "symbol_name (symbols nd) (auth_peer a) = Some cl" using assms(3) by blast
    obtain I name where m: "intern_global (symbols nd) (minted_text (NEXT_GUEST_NAME nd) inc cl) = (I, name)" by fastforce
    note gl = intern_global_inv [OF D(1) assms(6), of "minted_text (NEXT_GUEST_NAME nd) inc cl", unfolded m fst_conv snd_conv]
    let ?nd2 = "?nd\<lparr>NEXT_GUEST_NAME := NEXT_GUEST_NAME nd + 1, symbols := I, GUESTS := (GUESTS nd)(?i \<mapsto> new_guest g (auth_peer a) name)\<rparr>"
    have s: "NEXT_GUEST_NAME nd < NEXT_GUEST_NAME nd + 1" using next_word assms(5) by blast
    have "table_ok ?nd2"
      by (rule table_ok_fewer [OF assms(1)]) (use i s gl D(2) in \<open>auto dest: D(2)\<close>)
    then have ok: "table_ok (snd (register_link K name ?c ?nd2))"
      by (rule table_ok_register) (use i s gl(3) in \<open>auto simp: new_guest_def minted_name_def dest: D(2)\<close>)
    obtain r nd3 where R: "register_link K name ?c ?nd2 = (r, nd3)" by fastforce
    have "nd' = (case r of None \<Rightarrow> shut_link ?i nd3 | Some was_new \<Rightarrow> nd3)"
      using assms(2) Some t m R by (cases r) (auto simp: establish_def mint_name_def intern_None Let_def)
    then show ?thesis using ok R by (auto simp: table_ok_shut split: option.split)
  qed
qed

lemma table_ok_same: "table_ok nd \<Longrightarrow> same_links nd nd' \<Longrightarrow> table_ok nd'"
  by (rule table_ok_fewer [of nd]) (simp_all add: same_links_def)

lemma table_ok_step: "nstep K inc mesh nd nd' \<Longrightarrow> table_ok nd \<Longrightarrow> table_ok nd'"
proof (induction rule: nstep.induct)
  case (establishing ms a role nd nd')
  then show ?case by (blast intro: table_ok_establish)
qed (simp_all add: table_ok_drop table_ok_disconnect table_ok_same)

lemma table_ok_fresh: "interner_inv I \<Longrightarrow> table_ok (fresh_node I)"
  by (rule table_okI) (simp_all add: fresh_node_def)

lemma table_ok_reachable: "(nstep K inc mesh)\<^sup>*\<^sup>* (fresh_node I) nd \<Longrightarrow> interner_inv I \<Longrightarrow> table_ok nd"
  by (induction rule: rtranclp_induct) (auto intro: table_ok_fresh table_ok_step)

section \<open>What leaves the table alone\<close>

lemma send_fields [simp]:
  "NODES (snd (send_frame n fr nd)) = NODES nd" "GUESTS (snd (send_frame n fr nd)) = GUESTS nd"
  "symbols (snd (send_frame n fr nd)) = symbols nd" "NEXT_LINK (snd (send_frame n fr nd)) = NEXT_LINK nd"
  "NEXT_GUEST_NAME (snd (send_frame n fr nd)) = NEXT_GUEST_NAME nd" "procs (snd (send_frame n fr nd)) = procs nd"
  "NAME_TABLE (snd (send_frame n fr nd)) = NAME_TABLE nd" "NODE_MONITORS (snd (send_frame n fr nd)) = NODE_MONITORS nd"
  by (auto simp: send_frame_def at_end_def Let_def split: option.split sum.split prod.split)

lemma with_procs_on: "snd (with_procs f nd) = on_procs (snd \<circ> f) nd"
  by (simp add: on_procs_def with_procs_def split: prod.split)

lemma sent_procs: "procs (fold (\<lambda>s nd. snd (send_frame (fst (sent_frame s)) (snd (sent_frame s)) nd)) ss nd) = procs nd"
  by (induction ss arbitrary: nd) simp_all

lemma on_procs_procs: "procs (on_procs f nd) = (f (procs nd))\<lparr>wire := []\<rparr>"
  by (simp add: on_procs_def with_procs_def sent_procs split: prod.split)

lemma mesh_fields:
  "\<exists>P H. snd (mesh_consider mesh K ps nd) = nd\<lparr>PENDING_DIALS := P, held_gossip := H\<rparr>"
proof (cases "mesh \<and> under_way nd = 0")
  case True
  then show ?thesis by (intro exI [of _ "PENDING_DIALS (snd (mesh_consider mesh K ps nd))"] exI [of _ "held_gossip nd"])
    (simp add: mesh_consider_def Let_def split: prod.split)
next
  case False
  then show ?thesis
    by (intro exI [of _ "PENDING_DIALS nd"] exI [of _ "held_gossip (snd (mesh_consider mesh K ps nd))"])
      (auto simp: mesh_consider_def Let_def)
qed

definition core :: "node \<Rightarrow> (symbol, conn) mapping \<times> (u64 \<Rightarrow> guest_link option) \<times> interner \<times> u64 \<times> u64" where
  "core nd = (NODES nd, GUESTS nd, symbols nd, NEXT_LINK nd, NEXT_GUEST_NAME nd)"

lemma core_on_procs: "core (on_procs f nd) = core nd" "core (snd (with_procs f' nd)) = core nd" "core (snd (send_frame n fr nd)) = core nd"
  by (simp_all add: core_def with_procs_on)

lemma core_record_link:
  "core (snd (case with_procs f nd of (True, nd) \<Rightarrow> (xs, nd) | (False, nd) \<Rightarrow> (xs, snd (send_frame peer fr nd)))) = core nd"
proof -
  obtain b nd1 where w: "with_procs f nd = (b, nd1)" by fastforce
  have "core nd1 = core nd" using core_on_procs(2) [of f nd] by (simp add: w)
  then show ?thesis by (cases b) (simp_all add: w core_on_procs)
qed

lemma inbound_core: "core (snd (handle_inbound_frame mesh K peer i fr nd)) = core nd"
proof -
  define act where "act = (case GUESTS nd i of Some g \<Rightarrow> translate_inbound g fr | None \<Rightarrow> fr)"
  show ?thesis
  proof (cases "admit K (GUESTS nd i) fr")
    case True
    have m: "core (snd (mesh_consider mesh K ps nd)) = core nd" for ps
      using mesh_fields [of mesh K ps nd] by (auto simp: core_def)
    show ?thesis unfolding handle_inbound_frame_def Let_def act_def [symmetric]
      using True m by (cases act)
        (simp_all add: deliver_inbound_def core_on_procs core_record_link, simp_all add: core_def split: option.split)
  qed (simp add: handle_inbound_frame_def)
qed

lemma route_same:
  assumes "interner_inv (symbols nd)"
  shows "same_links nd (snd (route_in_lane K node target m lane nd))"
proof -
  have refl: "same_links nd nd" using assms by (simp add: same_links_def)
  show ?thesis
  proof (cases "is_local_node K node \<or> Mapping.lookup (NODES nd) node = None")
    case True
    then show ?thesis using refl by (auto simp: route_in_lane_def same_links_def split: option.split)
  next
    case False
    then obtain c where c: "\<not> is_local_node K node" "Mapping.lookup (NODES nd) node = Some c" by auto
    have 1: "same_links nd (nd\<lparr>GUESTS := (GUESTS nd)(conn_id c \<mapsto> note_outbound K m g)\<rparr>)" if "guest_of c nd = Some g" for g
      using refl that by (simp add: same_links_def guest_of_def)
    have e: "same_links nd (snd (at_end i (enqueue_to b) nd1))" if "same_links nd nd1" for i b nd1
      using that by (simp add: same_links_def at_end_def split: prod.split)
    have l: "same_links nd (snd (case at_end i (enqueue_latest k s b) nd1 of ((n, ok), nd) \<Rightarrow> (True, nd\<lparr>NEXT_LATEST := n\<rparr>)))"
      if "same_links nd nd1" for i k s b nd1
      using that by (simp add: same_links_def at_end_def split: prod.split)
    show ?thesis unfolding route_in_lane_def Let_def using c refl 1 e l
      by (simp split: sum.split option.split)
  qed
qed

text \<open>
  C36: who a link is with. However links are established, dropped, disconnected and evicted and frames read and
  sent in between, a link is under a guest's name exactly when it is a guest's, and then under the one minted
  for it; no connection is under two names; the next name to be minted is nobody's; and a reader that ends
  after its link was replaced changes nothing.
\<close>

theorem links_under_names:
  assumes "(nstep K inc mesh)\<^sup>*\<^sup>* (fresh_node I) nd" "interner_inv I" "Mapping.lookup (NODES nd) p = Some c"
  shows "(guest_of c nd \<noteq> None \<longleftrightarrow> is_guest_name (spelling (symbols nd)) p) \<and>
    (\<forall>g. guest_of c nd = Some g \<longrightarrow> link_name g = p) \<and>
    (\<forall>q d. Mapping.lookup (NODES nd) q = Some d \<longrightarrow> conn_id d = conn_id c \<longrightarrow> q = p) \<and>
    symbol_name (symbols nd) p \<noteq> Some (minted_text (NEXT_GUEST_NAME nd) inc' claim) \<and>
    (\<forall>i. i \<noteq> conn_id c \<longrightarrow> drop_link K p i nd = nd) \<and>
    (\<forall>i fr. nstep K inc mesh nd (snd (handle_inbound_frame mesh K q i fr nd))) \<and>
    nstep K inc mesh nd (snd (route_in_lane K node target m lane nd))"
proof -
  have ok: "table_ok nd" by (rule table_ok_reachable [OF assms(1,2)])
  note D = table_okD [OF ok]
  have g: "link_name g = p \<and> minted_name p nd" if "guest_of c nd = Some g" for g
    using D(5) [OF assms(3)] that by (simp add: guest_of_def)
  have s: "minted_name p nd \<Longrightarrow> is_guest_name (spelling (symbols nd)) p"
    by (auto simp: minted_name_def is_guest_name_def spelling_def minted_prefix)
  have mint: "symbol_name (symbols nd) p \<noteq> Some (minted_text (NEXT_GUEST_NAME nd) inc' claim)"
  proof
    assume n: "symbol_name (symbols nd) p = Some (minted_text (NEXT_GUEST_NAME nd) inc' claim)"
    then have "is_guest_name (spelling (symbols nd)) p" by (simp add: is_guest_name_def spelling_def minted_prefix)
    then obtain h where "guest_of c nd = Some h" using D(4) [OF assms(3)] by (auto simp: guest_of_def)
    then obtain serial i t where "symbol_name (symbols nd) p = Some (minted_text serial i t)" "serial < NEXT_GUEST_NAME nd"
      using g by (auto simp: minted_name_def)
    moreover from this(1) n have "minted_text serial i t = minted_text (NEXT_GUEST_NAME nd) inc' claim" by simp
    note minted_text_inj [OF this]
    ultimately show False by simp
  qed
  have "nstep K inc mesh nd (snd (handle_inbound_frame mesh K q i fr nd))" for i fr
    using inbound_core [of mesh K q i fr nd] D(1) by (intro nstep.meanwhile) (simp add: same_links_def core_def)
  moreover have "drop_link K p i nd = nd" if "i \<noteq> conn_id c" for i
    using assms(3) that by (simp add: drop_link_def remove_current_link_def)
  moreover have "guest_of c nd \<noteq> None \<longleftrightarrow> is_guest_name (spelling (symbols nd)) p"
    using g s D(4) [OF assms(3)] by (auto simp: guest_of_def)
  moreover have "nstep K inc mesh nd (snd (route_in_lane K node target m lane nd))"
    by (rule nstep.meanwhile) (rule route_same [OF D(1)])
  ultimately show ?thesis using g mint D(6) [OF _ assms(3)] by blast
qed

lemma links_under_names_witness:
  "\<forall>K. \<exists>nd c. (nstep K 0 False)\<^sup>*\<^sup>* (fresh_node ab_names) nd \<and> Mapping.lookup (NODES nd) 1 = Some c \<and>
     guest_of c nd = None \<and> \<not> is_guest_name (spelling (symbols nd)) 1"
proof
  fix K :: setting
  let ?a = "\<lparr>auth_peer = 1, auth_addr = [], auth_incarnation = 5, auth_grant = None, auth_lanes = True\<rparr>"
  let ?c = "\<lparr>conn_id = 0, connector = 1, incarnation = 5, dial_addr = [], lanes = True\<rparr>"
  let ?nd = "(fresh_node ab_names)\<lparr>NEXT_LINK := 1, ENDS := (ENDS (fresh_node ab_names))(0 := new_writer),
    last_seen := (last_seen (fresh_node ab_names))(0 := 0), GUESTS := (GUESTS (fresh_node ab_names))(0 := None)\<rparr>"
  let ?nd' = "?nd\<lparr>NODES := Mapping.update 1 ?c (NODES ?nd)\<rparr>"
  have sp: "spelling (symbols ?nd) 1 = [98]" using ab_spelling(2) by (simp add: fresh_node_def)
  have "may_register 1 ?c ?nd" unfolding may_register_def is_guest_name_def sp by (simp add: starts_with_def NAME_PREFIX_def)
  from register_new [OF this, of K] have "register_link K 1 ?c ?nd = (Some True, ?nd')" by (simp add: fresh_node_def)
  then have est: "establish False K 0 0 ?a Responder (fresh_node ab_names) = Some ?nd'"
    by (simp add: establish_def Let_def) (simp add: fresh_node_def)
  have "symbol_name (symbols (fresh_node ab_names)) (auth_peer ?a) \<noteq> None"
    by (simp add: fresh_node_def symbol_name_def vec_get_def intern_global_def empty_interner_def Let_def)
  moreover have "length (NAMES (symbols (fresh_node ab_names))) < 2 ^ 32"
    by (simp add: fresh_node_def intern_global_def empty_interner_def Let_def)
  ultimately have "nstep K 0 False (fresh_node ab_names) ?nd'"
    using est by (intro nstep.establishing [of False K 0 0 ?a Responder]) (simp_all add: fresh_node_def)
  then have r: "(nstep K 0 False)\<^sup>*\<^sup>* (fresh_node ab_names) ?nd'" by blast
  have i: "interner_inv ab_names"
    using intern_global_inv(1) [OF intern_global_inv(1) [OF interner_inv_empty, of "[97]"], of "[98]"]
    by (simp add: intern_global_def empty_interner_def Let_def)
  have l: "Mapping.lookup (NODES ?nd') 1 = Some ?c" by simp
  have "guest_of ?c ?nd' = None" by (simp add: guest_of_def)
  with links_under_names [OF r i l] r l show "\<exists>nd c. (nstep K 0 False)\<^sup>*\<^sup>* (fresh_node ab_names) nd \<and>
      Mapping.lookup (NODES nd) 1 = Some c \<and> guest_of c nd = None \<and> \<not> is_guest_name (spelling (symbols nd)) 1" by blast
qed

end
