(* ===== verification/Deaths.thy ===== *)
theory Deaths
  imports Links
begin

text \<open>
  What the death of a process means to the others: each linked or watching process is told once, in its own
  mailbox, in a known order, and when the death is complete nothing in the tables mentions the process.
\<close>

section \<open>What one process sees\<close>

text \<open>A message received, an exit signal and a kill, as changes of one mailbox.\<close>

definition received :: "setting \<Rightarrow> symbol message \<Rightarrow> mailbox \<Rightarrow> mailbox" where
  "received K m mb = snd (push_and_wake (now K) (delivery_origin K) (plain m) mb)"

definition killed_by :: "symbol message \<Rightarrow> bool \<Rightarrow> mailbox \<Rightarrow> mailbox" where
  "killed_by reason hard mb = (let mb = request_kill reason hard mb in mb\<lparr>state := snd (take_wake (state mb))\<rparr>)"

definition signalled :: "setting \<Rightarrow> symbol message \<Rightarrow> symbol message \<Rightarrow> mailbox \<Rightarrow> mailbox" where
  "signalled K dead_msg reason mb =
     (if trap_exit mb then received K (exit_message K dead_msg reason) mb
      else if is_normal K reason then mb
      else killed_by reason True mb)"

text \<open>The tables, which no delivery touches.\<close>

definition tables :: "runtime \<Rightarrow> (u64, u64 set) mapping \<times> (u64, remote_peer list) mapping \<times> monitor_table \<times> pending_table \<times> sent list" where
  "tables rt = (LINKS rt, REMOTE_LINKS rt, MONITORS rt, PENDING_REMOTE rt, wire rt)"

lemma tables_fields:
  "tables rt' = tables rt \<Longrightarrow> LINKS rt' = LINKS rt" "tables rt' = tables rt \<Longrightarrow> REMOTE_LINKS rt' = REMOTE_LINKS rt"
  "tables rt' = tables rt \<Longrightarrow> MONITORS rt' = MONITORS rt" "tables rt' = tables rt \<Longrightarrow> PENDING_REMOTE rt' = PENDING_REMOTE rt"
  "tables rt' = tables rt \<Longrightarrow> wire rt' = wire rt"
  by (simp_all add: tables_def)

lemma deliver_eq:
  "REGISTRY (deliver K p m rt) q = (if q = p then map_option (received K m) (REGISTRY rt q) else REGISTRY rt q)"
  "tables (deliver K p m rt) = tables rt"
  by (auto simp: deliver_def deliver_envelope_def received_def tables_def split: option.split prod.split)

lemma exit_with_eq:
  "REGISTRY (exit_with p reason hard rt) q = (if q = p then map_option (killed_by reason hard) (REGISTRY rt q) else REGISTRY rt q)"
  "tables (exit_with p reason hard rt) = tables rt"
  by (auto simp: exit_with_def killed_by_def tables_def Let_def split: option.split prod.split)

lemma deliver_exit_eq:
  "REGISTRY (deliver_exit_to K p dm reason rt) q =
    (if q = p then map_option (signalled K dm reason) (REGISTRY rt q) else REGISTRY rt q)"
  "tables (deliver_exit_to K p dm reason rt) = tables rt"
  by (auto simp: deliver_exit_to_def traps_exit_def signalled_def exit_propagate_def deliver_eq exit_with_eq split: option.splits)

text \<open>Signals to several distinct processes: each gets its own, whatever the order.\<close>

lemma deliver_exits:
  "distinct qs \<Longrightarrow> REGISTRY (fold (\<lambda>q rt. deliver_exit_to K q dm reason rt) qs rt) q =
    (if q \<in> set qs then map_option (signalled K dm reason) (REGISTRY rt q) else REGISTRY rt q)"
  "tables (fold (\<lambda>q rt. deliver_exit_to K q dm reason rt) qs rt) = tables rt"
  by (induction qs arbitrary: rt) (auto simp: deliver_exit_eq)

text \<open>The downs a process gets from a list of watchers.\<close>

definition downs_for :: "setting \<Rightarrow> u64 \<Rightarrow> u64 \<Rightarrow> symbol message \<Rightarrow> watcher list \<Rightarrow> symbol message list" where
  "downs_for K q dead reason ws =
     concat (map (\<lambda>w. case w of Local p r \<Rightarrow> if p = q then [down_message K (local_pid K dead) r reason] else []
       | Remote _ _ _ \<Rightarrow> []) ws)"

lemma fire_local:
  "\<forall>w \<in> set ws. is_local w \<Longrightarrow> tables (fold (\<lambda>w rt. fire_down K w dead reason rt) ws rt) = tables rt \<and>
    REGISTRY (fold (\<lambda>w rt. fire_down K w dead reason rt) ws rt) q =
      map_option (fold (received K) (downs_for K q dead reason ws)) (REGISTRY rt q)"
  by (induction ws arbitrary: rt)
    (auto simp: fire_down_def is_local_def downs_for_def deliver_eq option.map_comp comp_def option.map_ident option.map_id split: watcher.splits)

lemma fire_remote:
  "\<forall>w \<in> set ws. \<not> is_local w \<Longrightarrow>
    fold (\<lambda>w rt. fire_down K w dead reason rt) ws rt =
      rt\<lparr>wire := wire rt @ map (\<lambda>w. case w of Remote n p r \<Rightarrow> DownTo n p r dead reason | Local p r \<Rightarrow> undefined) ws\<rparr>"
  by (induction ws arbitrary: rt) (auto simp: fire_down_def is_local_def split: watcher.splits)

lemma downs_local: "downs_for K q dead reason (filter is_local ws) = downs_for K q dead reason ws"
  by (induction ws) (auto simp: downs_for_def is_local_def split: watcher.splits)

lemma fire_downs_eq:
  "REGISTRY (fire_downs K dead reason rt) q =
    map_option (fold (received K) (downs_for K q dead reason (watches (MONITORS rt) dead))) (REGISTRY rt q)"
  "MONITORS (fire_downs K dead reason rt) = snd (take_target dead (MONITORS rt))"
  "LINKS (fire_downs K dead reason rt) = LINKS rt" "REMOTE_LINKS (fire_downs K dead reason rt) = REMOTE_LINKS rt"
  "PENDING_REMOTE (fire_downs K dead reason rt) = PENDING_REMOTE rt"
  "wire (fire_downs K dead reason rt) = wire rt @
    concat (map (\<lambda>w. case w of Remote n p r \<Rightarrow> [DownTo n p r dead reason] | Local p r \<Rightarrow> []) (watches (MONITORS rt) dead))"
proof -
  let ?ws = "watches (MONITORS rt) dead" let ?rt = "rt\<lparr>MONITORS := snd (take_target dead (MONITORS rt))\<rparr>"
  let ?rl = "fold (\<lambda>w rt. fire_down K w dead reason rt) (filter is_local ?ws) ?rt"
  have ws: "fst (take_target dead (MONITORS rt)) = ?ws" by (simp add: take_target_def Let_def watches_def)
  have L: "tables ?rl = tables ?rt" "REGISTRY ?rl q = map_option (fold (received K) (downs_for K q dead reason ?ws)) (REGISTRY rt q)" for q
    using fire_local [of "filter is_local ?ws" K dead reason ?rt q] by (simp_all add: downs_local)
  have F: "fire_downs K dead reason rt = ?rl\<lparr>wire := wire ?rl @ map (\<lambda>w. case w of Remote n p r \<Rightarrow> DownTo n p r dead reason
      | Local p r \<Rightarrow> undefined) (filter (\<lambda>w. \<not> is_local w) ?ws)\<rparr>"
    by (simp add: fire_downs_def split_beta ws fire_remote)
  have W: "map (\<lambda>w. case w of Remote n p r \<Rightarrow> DownTo n p r dead reason | Local p r \<Rightarrow> undefined) (filter (\<lambda>w. \<not> is_local w) ws) =
    concat (map (\<lambda>w. case w of Remote n p r \<Rightarrow> [DownTo n p r dead reason] | Local p r \<Rightarrow> []) ws)" for ws
    by (induction ws) (auto simp: is_local_def split: watcher.split)
  note T = tables_fields [OF L(1)]
  show "REGISTRY (fire_downs K dead reason rt) q =
      map_option (fold (received K) (downs_for K q dead reason (watches (MONITORS rt) dead))) (REGISTRY rt q)"
    by (simp add: F L(2))
  show "MONITORS (fire_downs K dead reason rt) = snd (take_target dead (MONITORS rt))"
    "LINKS (fire_downs K dead reason rt) = LINKS rt" "REMOTE_LINKS (fire_downs K dead reason rt) = REMOTE_LINKS rt"
    "PENDING_REMOTE (fire_downs K dead reason rt) = PENDING_REMOTE rt"
    by (simp_all add: F T)
  show "wire (fire_downs K dead reason rt) = wire rt @
    concat (map (\<lambda>w. case w of Remote n p r \<Rightarrow> [DownTo n p r dead reason] | Local p r \<Rightarrow> []) (watches (MONITORS rt) dead))"
    by (simp add: F T W)
qed

section \<open>The links of a dead process\<close>

lemma default_delete: "Mapping.lookup_default d (Mapping.delete k m) k' = (if k' = k then d else Mapping.lookup_default d m k')"
  by (cases "k' = k") (simp_all add: Mapping.lookup_default_def Mapping.lookup_delete_neq)

lemma map_entry_default:
  "Mapping.lookup_default {} (Mapping.map_entry k (\<lambda>s. s - X) L) k' = (if k' = k then Mapping.lookup_default {} L k' - X else Mapping.lookup_default {} L k')"
  by (auto simp: Mapping.lookup_default_def Mapping.lookup_map_entry' split: option.split)

lemma drop_edges:
  "Mapping.lookup_default {} (fold (\<lambda>q L. Mapping.map_entry q (\<lambda>s. s - X) L) qs L) k =
    (if k \<in> set qs then Mapping.lookup_default {} L k - X else Mapping.lookup_default {} L k)"
  by (induction qs arbitrary: L) (auto simp: map_entry_default)

lemma notify_peers_eq:
  assumes "finite (linked rt dead)"
  shows "REGISTRY (notify_peers K dead reason rt) q =
      (if q \<in> linked rt dead then map_option (signalled K (local_pid K dead) reason) (REGISTRY rt q) else REGISTRY rt q)"
    "linked (notify_peers K dead reason rt) q = (if q = dead then {} else if q \<in> linked rt dead then linked rt q - {dead} else linked rt q)"
    "MONITORS (notify_peers K dead reason rt) = MONITORS rt" "PENDING_REMOTE (notify_peers K dead reason rt) = PENDING_REMOTE rt"
    "REMOTE_LINKS (notify_peers K dead reason rt) = Mapping.delete dead (REMOTE_LINKS rt)"
    "wire (notify_peers K dead reason rt) = wire rt @
      map (\<lambda>(node, q). LinkExit node q dead reason) (Mapping.lookup_default [] (REMOTE_LINKS rt) dead)"
proof -
  let ?qs = "sorted_list_of_set (linked rt dead)"
  let ?L = "fold (\<lambda>q L. Mapping.map_entry q (\<lambda>s. s - {dead}) L) ?qs (Mapping.delete dead (LINKS rt))"
  let ?rt = "fold (\<lambda>q rt. deliver_exit_to K q (local_pid K dead) reason rt) ?qs (rt\<lparr>LINKS := ?L\<rparr>)"
  have T: "tables ?rt = tables (rt\<lparr>LINKS := ?L\<rparr>)" by (rule deliver_exits)
  note T = tables_fields [OF T]
  have N: "notify_peers K dead reason rt = ?rt\<lparr>REMOTE_LINKS := Mapping.delete dead (REMOTE_LINKS rt),
      wire := wire rt @ map (\<lambda>(node, q). LinkExit node q dead reason) (Mapping.lookup_default [] (REMOTE_LINKS rt) dead)\<rparr>"
    by (simp add: notify_peers_def Let_def T)
  show "REGISTRY (notify_peers K dead reason rt) q =
      (if q \<in> linked rt dead then map_option (signalled K (local_pid K dead) reason) (REGISTRY rt q) else REGISTRY rt q)"
    using assms by (simp add: N deliver_exits(1))
  have lk: "LINKS (notify_peers K dead reason rt) = ?L" by (simp add: N T)
  have "Mapping.lookup_default {} ?L q = (if q = dead then {} else if q \<in> linked rt dead then linked rt q - {dead} else linked rt q)"
    using assms by (simp add: linked_def drop_edges default_delete)
  then show "linked (notify_peers K dead reason rt) q = (if q = dead then {} else if q \<in> linked rt dead then linked rt q - {dead} else linked rt q)"
    using lk by (simp only: linked_def [of "notify_peers K dead reason rt"])
  show "MONITORS (notify_peers K dead reason rt) = MONITORS rt" "PENDING_REMOTE (notify_peers K dead reason rt) = PENDING_REMOTE rt"
    "REMOTE_LINKS (notify_peers K dead reason rt) = Mapping.delete dead (REMOTE_LINKS rt)"
    "wire (notify_peers K dead reason rt) = wire rt @
      map (\<lambda>(node, q). LinkExit node q dead reason) (Mapping.lookup_default [] (REMOTE_LINKS rt) dead)"
    by (simp_all add: N T)
qed

section \<open>The steps of a runtime\<close>

text \<open>
  A process dies in four steps, between which any other process may act: it leaves the registry (1), its own
  watches are dropped (2), its watchers are told (3), its linked processes are told (4). The second component
  counts them for every process. Pids are never used again.
\<close>

type_synonym system = "runtime \<times> (u64 \<Rightarrow> nat)"

inductive rstep :: "setting \<Rightarrow> system \<Rightarrow> system \<Rightarrow> bool" for K where
  linking: "REGISTRY rt a \<noteq> None \<Longrightarrow> rstep K (rt, ph) (link K a b rt, ph)"
| unlinking: "rstep K (rt, ph) (unlink a b rt, ph)"
| trapping: "rstep K (rt, ph) (snd (set_trap_exit a on rt), ph)"
| monitoring: "REGISTRY rt p \<noteq> None \<Longrightarrow> \<forall>x. Local p r \<notin> set (watches (MONITORS rt) x) \<Longrightarrow>
    rstep K (rt, ph) (add_monitor K x (Local p r) rt, ph)"
| monitored_from: "rstep K (rt, ph) (add_monitor K x (Remote n p r) rt, ph)"
| demonitoring: "rstep K (rt, ph) (demonitor_for p r rt, ph)"
| spawning: "ph c = 0 \<Longrightarrow> REGISTRY rt c = None \<Longrightarrow> REGISTRY rt p \<noteq> None \<Longrightarrow> c \<noteq> p \<Longrightarrow>
    (\<forall>r x. mr = Some r \<longrightarrow> Local p r \<notin> set (watches (MONITORS rt) x)) \<Longrightarrow>
    rstep K (rt, ph) (spawn_registered K c p l mr rt, ph)"
| arriving: "ph c = 0 \<Longrightarrow> REGISTRY rt c = None \<Longrightarrow> rstep K (rt, ph) (rt\<lparr>REGISTRY := (REGISTRY rt)(c \<mapsto> new_mailbox)\<rparr>, ph)"
| signalling: "rstep K (rt, ph) (exit_signal K a reason rt, ph)"
| sending: "rstep K (rt, ph) (deliver K a m rt, ph)"
| remote_exit: "rstep K (rt, ph) (deliver_remote_link_exit K a n b reason rt, ph)"
| links_lost: "rstep K (rt, ph) (links_node_down K n rt, ph)"
| monitors_lost: "rstep K (rt, ph) (monitors_node_down K n rt, ph)"
| dying: "REGISTRY rt p \<noteq> None \<Longrightarrow> rstep K (rt, ph) (rt\<lparr>REGISTRY := (REGISTRY rt)(p := None)\<rparr>, ph(p := 1))"
| sweeping: "ph p = 1 \<Longrightarrow> rstep K (rt, ph) (sweep_dead_watcher p rt, ph(p := 2))"
| telling_watchers: "ph p = 2 \<Longrightarrow> rstep K (rt, ph) (fire_downs K p reason rt, ph(p := 3))"
| telling_links: "ph p = 3 \<Longrightarrow> rstep K (rt, ph) (notify_peers K p reason rt, ph(p := 4))"
| elsewhere: "dom (REGISTRY rt') = dom (REGISTRY rt) \<Longrightarrow> LINKS rt' = LINKS rt \<Longrightarrow> MONITORS rt' = MONITORS rt \<Longrightarrow>
    rstep K (rt, ph) (rt', ph)"

definition present :: "system \<Rightarrow> u64 \<Rightarrow> bool" where
  "present s p \<longleftrightarrow> REGISTRY (fst s) p \<noteq> None \<or> 0 < snd s p"

definition links_ok :: "system \<Rightarrow> bool" where
  "links_ok s \<longleftrightarrow> (\<forall>a. finite (linked (fst s) a) \<and> a \<notin> linked (fst s) a) \<and>
     (\<forall>a b. b \<in> linked (fst s) a \<longrightarrow> a \<in> linked (fst s) b \<and> present s b \<and> snd s b < 4)"

definition monitors_ok :: "system \<Rightarrow> bool" where
  "monitors_ok s \<longleftrightarrow> mt_inv (MONITORS (fst s)) \<and>
     (\<forall>x w. w \<in> set (watches (MONITORS (fst s)) x) \<longrightarrow> present s x \<and> snd s x < 3 \<and>
       (\<forall>p r. w = Local p r \<longrightarrow> present s p \<and> snd s p < 2))"

definition sys_inv :: "system \<Rightarrow> bool" where
  "sys_inv s \<longleftrightarrow> (\<forall>p. REGISTRY (fst s) p \<noteq> None \<longrightarrow> snd s p = 0) \<and> links_ok s \<and> monitors_ok s"

lemma sys_invI:
  assumes "\<And>p. REGISTRY rt p \<noteq> None \<Longrightarrow> ph p = 0"
    "\<And>a. finite (linked rt a)" "\<And>a. a \<notin> linked rt a" "\<And>a b. b \<in> linked rt a \<Longrightarrow> a \<in> linked rt b"
    "\<And>a b. b \<in> linked rt a \<Longrightarrow> present (rt, ph) b" "\<And>a b. b \<in> linked rt a \<Longrightarrow> ph b < 4" "mt_inv (MONITORS rt)"
    "\<And>x w. w \<in> set (watches (MONITORS rt) x) \<Longrightarrow> present (rt, ph) x"
    "\<And>x w. w \<in> set (watches (MONITORS rt) x) \<Longrightarrow> ph x < 3"
    "\<And>x p r. Local p r \<in> set (watches (MONITORS rt) x) \<Longrightarrow> present (rt, ph) p"
    "\<And>x p r. Local p r \<in> set (watches (MONITORS rt) x) \<Longrightarrow> ph p < 2"
  shows "sys_inv (rt, ph)"
  using assms by (fastforce simp: sys_inv_def links_ok_def monitors_ok_def)

lemma sys_invD:
  assumes "sys_inv (rt, ph)"
  shows "REGISTRY rt p \<noteq> None \<Longrightarrow> ph p = 0" "finite (linked rt a)" "a \<notin> linked rt a"
    "b \<in> linked rt a \<Longrightarrow> a \<in> linked rt b" "b \<in> linked rt a \<Longrightarrow> present (rt, ph) b" "b \<in> linked rt a \<Longrightarrow> ph b < 4"
    "mt_inv (MONITORS rt)" "w \<in> set (watches (MONITORS rt) x) \<Longrightarrow> present (rt, ph) x" "w \<in> set (watches (MONITORS rt) x) \<Longrightarrow> ph x < 3"
    "Local p r \<in> set (watches (MONITORS rt) x) \<Longrightarrow> present (rt, ph) p"
    "Local p r \<in> set (watches (MONITORS rt) x) \<Longrightarrow> ph p < 2"
  using assms by (auto simp: sys_inv_def links_ok_def monitors_ok_def)

text \<open>Only what the tables say and who is registered matters.\<close>

lemma sys_inv_cong:
  "dom (REGISTRY rt') = dom (REGISTRY rt) \<Longrightarrow> LINKS rt' = LINKS rt \<Longrightarrow> MONITORS rt' = MONITORS rt \<Longrightarrow>
   sys_inv (rt', ph) = sys_inv (rt, ph)"
proof -
  assume a: "dom (REGISTRY rt') = dom (REGISTRY rt)" "LINKS rt' = LINKS rt" "MONITORS rt' = MONITORS rt"
  have r: "REGISTRY rt' p \<noteq> None \<longleftrightarrow> REGISTRY rt p \<noteq> None" for p using a(1) by (metis domIff)
  have "present (rt', ph) = present (rt, ph)" "linked rt' = linked rt"
    using a(2) by (auto simp: present_def linked_def fun_eq_iff simp del: not_None_eq simp: r)
  then show ?thesis using a(3) unfolding sys_inv_def links_ok_def monitors_ok_def fst_conv snd_conv r by simp
qed

lemma dom_by: "(\<And>q. (m' q = None) = (m q = None)) \<Longrightarrow> dom m' = dom m"
  by (auto simp: dom_def)

lemma inv_deliver: "sys_inv (rt, ph) \<Longrightarrow> sys_inv (deliver K p m rt, ph)"
  by (subst sys_inv_cong [of _ rt]) (auto simp: deliver_eq tables_fields [OF deliver_eq(2)] split: if_splits intro!: dom_by)

lemma inv_exit_with: "sys_inv (rt, ph) \<Longrightarrow> sys_inv (exit_with p reason hard rt, ph)"
  by (subst sys_inv_cong [of _ rt]) (auto simp: exit_with_eq tables_fields [OF exit_with_eq(2)] split: if_splits intro!: dom_by)

lemma inv_deliver_exit: "sys_inv (rt, ph) \<Longrightarrow> sys_inv (deliver_exit_to K p dm reason rt, ph)"
  by (subst sys_inv_cong [of _ rt]) (auto simp: deliver_exit_eq tables_fields [OF deliver_exit_eq(2)] split: if_splits intro!: dom_by)

lemma inv_same: "sys_inv (rt, ph) \<Longrightarrow> REGISTRY rt' = REGISTRY rt \<Longrightarrow> LINKS rt' = LINKS rt \<Longrightarrow> MONITORS rt' = MONITORS rt \<Longrightarrow> sys_inv (rt', ph)"
  by (subst sys_inv_cong [of _ rt]) auto

lemma inv_fold: "(\<And>x rt. sys_inv (rt, ph) \<Longrightarrow> sys_inv (f x rt, ph)) \<Longrightarrow> sys_inv (rt, ph) \<Longrightarrow> sys_inv (fold f xs rt, ph)"
  by (induction xs arbitrary: rt) auto

lemma inv_link:
  assumes "sys_inv (rt, ph)" "REGISTRY rt a \<noteq> None"
  shows "sys_inv (link K a b rt, ph)"
proof (cases "a \<noteq> b \<and> REGISTRY rt b \<noteq> None")
  case True
  have l: "linked (link K a b rt) x = (if x = a then insert b (linked rt a) else if x = b then insert a (linked rt b) else linked rt x)" for x
    using True by (auto simp: link_def linked_def Let_def Mapping.lookup_default_update')
  have o: "REGISTRY (link K a b rt) = REGISTRY rt" "MONITORS (link K a b rt) = MONITORS rt" using True by (auto simp: link_def Let_def)
  note D = sys_invD [OF assms(1)]
  have pr: "present (link K a b rt, ph) = present (rt, ph)" by (simp add: present_def fun_eq_iff o)
  have new: "present (rt, ph) a" "present (rt, ph) b" "ph a = 0" "ph b = 0"
    using assms(2) True D(1) by (auto simp: present_def)
  show ?thesis
  proof (rule sys_invI, unfold l o pr)
    fix x y assume y: "y \<in> (if x = a then insert b (linked rt a) else if x = b then insert a (linked rt b) else linked rt x)"
    then have "y \<in> linked rt x \<or> y = a \<or> y = b" by (auto split: if_splits)
    then show "present (rt, ph) y" "ph y < 4" using D(5,6) new by auto
    show "x \<in> (if y = a then insert b (linked rt a) else if y = b then insert a (linked rt b) else linked rt y)"
      using y D(4) by (auto split: if_splits)
  qed (use D True in \<open>auto split: if_splits\<close>)
next
  case False
  then show ?thesis using assms(1) by (auto simp: link_def inv_deliver_exit)
qed

lemma inv_shrink:
  assumes "sys_inv (rt, ph)" "REGISTRY rt' = REGISTRY rt" "MONITORS rt' = MONITORS rt" "\<And>x. linked rt' x \<subseteq> linked rt x"
    "\<And>x y. y \<in> linked rt' x \<Longrightarrow> x \<in> linked rt' y"
  shows "sys_inv (rt', ph)"
proof -
  note D = sys_invD [OF assms(1)]
  have pr: "present (rt', ph) = present (rt, ph)" by (simp add: present_def fun_eq_iff assms(2))
  show ?thesis
  proof (rule sys_invI, unfold assms(2,3) pr)
    show "finite (linked rt' a)" for a using finite_subset [OF assms(4) D(2)] .
    show "a \<notin> linked rt' a" for a using D(3) [of a] assms(4) [of a] by blast
    show "a \<in> linked rt' b" if "b \<in> linked rt' a" for a b using assms(5) that .
    show "present (rt, ph) b" "ph b < 4" if "b \<in> linked rt' a" for a b using D(5,6) [of b a] assms(4) [of a] that by blast+
  qed (use D in blast)+
qed

lemma inv_unlink: "sys_inv (rt, ph) \<Longrightarrow> sys_inv (unlink a b rt, ph)"
proof -
  assume inv: "sys_inv (rt, ph)"
  have l: "linked (unlink a b rt) x = linked rt x - (if x = a then {b} else {}) - (if x = b then {a} else {})" for x
    by (auto simp: unlink_def linked_def Let_def map_entry_default)
  have o: "REGISTRY (unlink a b rt) = REGISTRY rt" "MONITORS (unlink a b rt) = MONITORS rt" by (auto simp: unlink_def Let_def)
  show ?thesis
    by (rule inv_shrink [OF inv o]) (use sys_invD(4) [OF inv] in \<open>auto simp: l split: if_splits\<close>)
qed

lemma inv_monitors:
  assumes "sys_inv (rt, ph)" "REGISTRY rt' = REGISTRY rt" "LINKS rt' = LINKS rt" "mt_inv (MONITORS rt')"
    "\<And>x w. w \<in> set (watches (MONITORS rt') x) \<Longrightarrow> w \<in> set (watches (MONITORS rt) x) \<or>
      REGISTRY rt x \<noteq> None \<and> (\<forall>p r. w = Local p r \<longrightarrow> REGISTRY rt p \<noteq> None)"
  shows "sys_inv (rt', ph)"
proof -
  note D = sys_invD [OF assms(1)]
  have l: "linked rt' = linked rt" using assms(3) by (simp add: linked_def fun_eq_iff)
  have pr: "present (rt', ph) = present (rt, ph)" by (simp add: present_def fun_eq_iff assms(2))
  have new: "present (rt, ph) p \<and> ph p = 0" if "REGISTRY rt p \<noteq> None" for p using that D(1) by (auto simp: present_def)
  show ?thesis
  proof (rule sys_invI, unfold assms(2) l pr)
    fix x w assume w: "w \<in> set (watches (MONITORS rt') x)"
    show "present (rt, ph) x" "ph x < 3" using assms(5) [OF w] D(8,9) new by fastforce+
  next
    fix x p r assume w: "Local p r \<in> set (watches (MONITORS rt') x)"
    show "present (rt, ph) p" "ph p < 2" using assms(5) [OF w] D(10,11) new by fastforce+
  qed (use D assms(4) in blast)+
qed

text \<open>A monitor of a live process enters the table; of a dead one it is answered at once.\<close>

lemma inv_add_monitor:
  assumes "sys_inv (rt, ph)" "\<And>p r y. w = Local p r \<Longrightarrow> REGISTRY rt p \<noteq> None \<and> Local p r \<notin> set (watches (MONITORS rt) y)"
  shows "sys_inv (add_monitor K x w rt, ph)"
proof (cases "REGISTRY rt x = None")
  case True
  then show ?thesis using assms(1)
    by (auto simp: add_monitor_def fire_down_def inv_deliver intro: inv_same split: watcher.split)
next
  case False
  have W: "mt_inv (watch x w (MONITORS rt))"
    "watches (watch x w (MONITORS rt)) = (watches (MONITORS rt))(x := watches (MONITORS rt) x @ [w])"
    using watch_spec [OF sys_invD(7) [OF assms(1)], of w x] assms(2) by blast+
  have o: "add_monitor K x w rt = rt\<lparr>MONITORS := watch x w (MONITORS rt)\<rparr>" using False by (simp add: add_monitor_def)
  show ?thesis unfolding o
    by (rule inv_monitors [OF assms(1)]) (use W False assms(2) in \<open>auto split: if_splits\<close>)
qed

lemma inv_arrive:
  assumes "sys_inv (rt, ph)" "ph c = 0"
  shows "sys_inv (rt\<lparr>REGISTRY := (REGISTRY rt)(c \<mapsto> mb)\<rparr>, ph)"
proof -
  have "linked (rt\<lparr>REGISTRY := (REGISTRY rt)(c \<mapsto> mb)\<rparr>) = linked rt" by (simp add: linked_def fun_eq_iff)
  then show ?thesis
    by (intro sys_invI) (use sys_invD [OF assms(1)] assms(2) in \<open>auto simp: present_def split: if_splits\<close>)
qed

lemma inv_spawn:
  assumes "sys_inv (rt, ph)" "ph c = 0" "REGISTRY rt c = None" "REGISTRY rt p \<noteq> None" "c \<noteq> p"
    "\<forall>r x. mr = Some r \<longrightarrow> Local p r \<notin> set (watches (MONITORS rt) x)"
  shows "sys_inv (spawn_registered K c p l mr rt, ph)"
proof -
  let ?rt1 = "rt\<lparr>REGISTRY := (REGISTRY rt)(c \<mapsto> new_mailbox\<lparr>parent := p\<rparr>)\<rparr>"
  let ?rt2 = "if l then link K p c ?rt1 else ?rt1"
  have 1: "sys_inv (?rt1, ph)" by (rule inv_arrive [OF assms(1,2)])
  have p: "REGISTRY ?rt1 p \<noteq> None" using assms(4,5) by simp
  have 2: "sys_inv (?rt2, ph)" using 1 inv_link [OF 1 p] by simp
  have "MONITORS ?rt2 = MONITORS rt" "REGISTRY ?rt2 p \<noteq> None" using assms(4,5) by (auto simp: link_def Let_def)
  then have "sys_inv (add_monitor K c (Local p r) ?rt2, ph)" if "mr = Some r" for r
    by (intro inv_add_monitor [OF 2]) (use assms(6) that in auto)
  then show ?thesis using 2 by (auto simp: spawn_registered_def Let_def split: option.split)
qed

text \<open>The four steps of a death.\<close>

lemma inv_dying:
  assumes "sys_inv (rt, ph)" "REGISTRY rt p \<noteq> None"
  shows "sys_inv (rt\<lparr>REGISTRY := (REGISTRY rt)(p := None)\<rparr>, ph(p := 1))"
proof -
  have "linked (rt\<lparr>REGISTRY := (REGISTRY rt)(p := None)\<rparr>) = linked rt" by (simp add: linked_def fun_eq_iff)
  then show ?thesis
    by (intro sys_invI) (use sys_invD [OF assms(1)] in \<open>auto simp: present_def split: if_splits\<close>)
qed

lemma inv_phase:
  assumes "sys_inv (rt, ph)" "0 < ph p" "ph p < n"
    "n = 2 \<Longrightarrow> \<forall>r x. Local p r \<notin> set (watches (MONITORS rt) x)" "n = 3 \<Longrightarrow> watches (MONITORS rt) p = []"
    "n = 4 \<Longrightarrow> \<forall>x. p \<notin> linked rt x" "n \<le> 4" "n = Suc (ph p)"
  shows "sys_inv (rt, ph(p := n))"
proof -
  note D = sys_invD [OF assms(1)]
  have r: "REGISTRY rt p = None" using D(1) [of p] assms(2) by (cases "REGISTRY rt p") auto
  have n: "n = 2 \<or> n = 3 \<or> n = 4" using assms(2,3,7,8) by linarith
  have pr: "present (rt, ph(p := n)) = present (rt, ph)" using assms(2,3) by (auto simp: present_def fun_eq_iff)
  show ?thesis
  proof (rule sys_invI, unfold pr)
    show "(ph(p := n)) q = 0" if "REGISTRY rt q \<noteq> None" for q using D(1) [OF that] that r by (cases "q = p") auto
    show "(ph(p := n)) x < 3" if "w \<in> set (watches (MONITORS rt) x)" for x w
      using D(9) [OF that] n assms(5,8) that by (cases "x = p") auto
    show "(ph(p := n)) q < 2" if "Local q r \<in> set (watches (MONITORS rt) x)" for q r x
      using D(11) [OF that] n assms(4,8) that by (cases "q = p") auto
    show "(ph(p := n)) b < 4" if "b \<in> linked rt a" for a b
      using D(6) [OF that] n assms(6,8) that by (cases "b = p") auto
  qed (use D in blast)+
qed

lemma inv_step: "rstep K s s' \<Longrightarrow> sys_inv s \<Longrightarrow> sys_inv s'"
proof (induction rule: rstep.induct)
  case (linking rt a ph b)
  then show ?case by (simp add: inv_link)
next
  case (unlinking rt ph a b)
  then show ?case by (simp add: inv_unlink)
next
  case (trapping rt ph a on)
  then show ?case
    by (subst sys_inv_cong [of _ rt]) (auto simp: set_trap_exit_def split: option.split)
next
  case (monitoring rt p r ph x)
  then show ?case by (intro inv_add_monitor) auto
next
  case (monitored_from rt ph x n p r)
  then show ?case by (intro inv_add_monitor) auto
next
  case (demonitoring rt ph p r)
  then show ?case using remove_local_spec [OF sys_invD(7) [OF demonitoring], of p r]
    by (intro inv_monitors [OF demonitoring]) (auto simp: demonitor_for_def)
next
  case (spawning ph c rt p mr l)
  then show ?case by (intro inv_spawn)
next
  case (arriving ph c rt)
  then show ?case by (simp add: inv_arrive)
next
  case (signalling rt ph a reason)
  then show ?case by (simp add: exit_signal_def Let_def inv_exit_with)
next
  case (sending rt ph a m)
  then show ?case by (simp add: inv_deliver)
next
  case (remote_exit rt ph a n b reason)
  have "sys_inv (snd (drop_remote_link a n b rt), ph)"
    by (rule inv_same [OF remote_exit]) (auto simp: drop_remote_link_def split: prod.split)
  then show ?case by (auto simp: deliver_remote_link_exit_def inv_deliver_exit split: prod.split bool.split)
next
  case (links_lost rt ph n)
  have "sys_inv (rt\<lparr>REMOTE_LINKS := t\<rparr>, ph)" for t by (rule inv_same [OF links_lost]) auto
  then show ?case by (auto simp: links_node_down_def split_beta intro!: inv_fold inv_deliver_exit)
next
  case (monitors_lost rt ph n)
  let ?d = "\<lambda>p rt. deliver K (watcher_pid p) (noconnection_down K (target_node p) (target_pid p) (mref p)) rt"
  have 1: "sys_inv (rt\<lparr>PENDING_REMOTE := t\<rparr>, ph)" for t by (rule inv_same [OF monitors_lost]) auto
  have 2: "sys_inv (fold ?d ps (rt\<lparr>PENDING_REMOTE := t\<rparr>), ph)" for ps t by (intro inv_fold inv_deliver 1)
  have 3: "sys_inv (rt'\<lparr>MONITORS := retain_all q (MONITORS rt')\<rparr>, ph)" if "sys_inv (rt', ph)" for rt' q
    using retain_all_spec [OF sys_invD(7) [OF that], of q] by (intro inv_monitors [OF that]) auto
  show ?case using 3 [OF 2] by (simp add: monitors_node_down_def split_beta Let_def)
next
  case (dying rt p ph)
  then show ?case by (intro inv_dying)
next
  case (sweeping ph p rt)
  note S = remove_watcher_spec [OF sys_invD(7) [OF sweeping(2)], of p]
  have "sys_inv (sweep_dead_watcher p rt, ph)"
    by (rule inv_monitors [OF sweeping(2)]) (use S in \<open>auto simp: sweep_dead_watcher_def\<close>)
  then show ?case using sweeping(1) S(2) by (intro inv_phase) (auto simp: sweep_dead_watcher_def)
next
  case (telling_watchers ph p rt reason)
  note T = take_target_spec [OF sys_invD(7) [OF telling_watchers(2)], of p]
  have "sys_inv (rt\<lparr>MONITORS := snd (take_target p (MONITORS rt))\<rparr>, ph)"
    by (rule inv_monitors [OF telling_watchers(2)]) (use T in \<open>auto split: if_splits\<close>)
  then have "sys_inv (fire_downs K p reason rt, ph)"
    by (subst sys_inv_cong [of _ "rt\<lparr>MONITORS := snd (take_target p (MONITORS rt))\<rparr>"]) (auto simp: fire_downs_eq intro!: dom_by)
  then show ?case using telling_watchers(1) T(2) by (intro inv_phase) (auto simp: fire_downs_eq)
next
  case (telling_links ph p rt reason)
  note D = sys_invD [OF telling_links(2)]
  note N = notify_peers_eq [OF D(2) [of p], of K reason]
  let ?rt = "notify_peers K p reason rt"
  have l: "linked ?rt x = linked rt x - {p}" if "x \<noteq> p" for x using D(4) [of p x] that by (auto simp: N(2))
  have "sys_inv (rt\<lparr>LINKS := LINKS ?rt\<rparr>, ph)"
  proof (rule inv_shrink [OF telling_links(2)])
    have e: "linked (rt\<lparr>LINKS := LINKS ?rt\<rparr>) x = (if x = p then {} else linked rt x - {p})" for x
      using l N(2) by (simp add: linked_def)
    show "linked (rt\<lparr>LINKS := LINKS ?rt\<rparr>) x \<subseteq> linked rt x" for x by (auto simp: e)
    show "x \<in> linked (rt\<lparr>LINKS := LINKS ?rt\<rparr>) y" if "y \<in> linked (rt\<lparr>LINKS := LINKS ?rt\<rparr>) x" for x y
      using that D(4) by (auto simp: e split: if_splits)
  qed auto
  then have "sys_inv (?rt, ph)"
    by (subst sys_inv_cong [of _ "rt\<lparr>LINKS := LINKS ?rt\<rparr>"]) (auto simp: N split: if_splits intro!: dom_by)
  then show ?case using telling_links(1) l N(2) by (intro inv_phase) (auto split: if_splits)
next
  case (elsewhere rt' rt ph)
  then show ?case using sys_inv_cong by blast
qed

lemma sys_inv_reachable: "(rstep K)\<^sup>*\<^sup>* (fresh_runtime, \<lambda>p. 0) s \<Longrightarrow> sys_inv s"
proof (induction rule: rtranclp_induct)
  case base
  show ?case by (rule sys_invI) (simp_all add: fresh_runtime_def linked_def mt_inv_empty Mapping.lookup_default_empty)
next
  case (step s s')
  then show ?case by (blast intro: inv_step)
qed

section \<open>The tables shared with other nodes\<close>

text \<open>
  The steps again, with what they do to the links and monitors across nodes: a link is recorded for a
  registered process only, a monitor by its holder while it runs; every other step takes entries away.
\<close>

inductive cstep :: "setting \<Rightarrow> system \<Rightarrow> system \<Rightarrow> bool" for K where
  here: "rstep K (rt, ph) (rt', ph') \<Longrightarrow> REMOTE_LINKS rt' = REMOTE_LINKS rt \<Longrightarrow> PENDING_REMOTE rt' = PENDING_REMOTE rt \<Longrightarrow>
    cstep K (rt, ph) (rt', ph')"
| sweeping_remote: "ph p = 1 \<Longrightarrow> cstep K (rt, ph) (sweep_dead_watcher p rt, ph(p := 2))"
| telling_remote_links: "ph p = 3 \<Longrightarrow> cstep K (rt, ph) (notify_peers K p reason rt, ph(p := 4))"
| remote_linking: "cstep K (rt, ph) (snd (record_remote_link a n b rt), ph)"
| remote_unlinking: "cstep K (rt, ph) (snd (drop_remote_link a n b rt), ph)"
| remote_monitoring: "REGISTRY rt (watcher_pid e) \<noteq> None \<Longrightarrow>
    cstep K (rt, ph) (rt\<lparr>PENDING_REMOTE := record_pending_remote e (PENDING_REMOTE rt)\<rparr>, ph)"
| remote_demonitoring: "cstep K (rt, ph) (rt\<lparr>PENDING_REMOTE := snd (take_pending n p r (PENDING_REMOTE rt))\<rparr>, ph)"
| exit_from_peer: "cstep K (rt, ph) (deliver_remote_link_exit K a n b reason rt, ph)"
| down_from_peer: "cstep K (rt, ph) (deliver_remote_down K n p r target reason rt, ph)"
| unreachable_peer: "cstep K (rt, ph) (fire_noconnection_if_pending K n target p r rt, ph)"
| peer_links_lost: "cstep K (rt, ph) (links_node_down K n rt, ph)"
| peer_monitors_lost: "cstep K (rt, ph) (monitors_node_down K n rt, ph)"

lemma dom_deliver: "dom (REGISTRY (deliver K p m rt)) = dom (REGISTRY rt)"
  by (rule dom_by) (simp add: deliver_eq)

lemma cstep_rstep: "cstep K s s' \<Longrightarrow> rstep K s s'"
proof (induction rule: cstep.induct)
  case (remote_linking rt ph a n b)
  show ?case by (rule elsewhere) (simp_all add: record_remote_link_def)
next
  case (remote_unlinking rt ph a n b)
  show ?case by (rule elsewhere) (simp_all add: drop_remote_link_def split: prod.split)
next
  case (down_from_peer rt ph n p r target reason)
  show ?case by (rule elsewhere)
    (auto simp: deliver_remote_down_def dom_deliver tables_fields [OF deliver_eq(2)] split: prod.split bool.split)
next
  case (unreachable_peer rt ph n target p r)
  show ?case by (rule elsewhere)
    (auto simp: fire_noconnection_if_pending_def dom_deliver tables_fields [OF deliver_eq(2)] split: prod.split bool.split)
qed (auto intro: rstep.intros)

definition remote_ok :: "system \<Rightarrow> bool" where
  "remote_ok s \<longleftrightarrow> (\<forall>a. Mapping.lookup_default [] (REMOTE_LINKS (fst s)) a \<noteq> [] \<longrightarrow> present s a \<and> snd s a < 4) \<and>
     (\<forall>n. \<forall>e \<in> set (Mapping.lookup_default [] (PENDING_REMOTE (fst s)) n). present s (watcher_pid e) \<and> snd s (watcher_pid e) < 2)"

text \<open>No operation but a death takes a process out of the registry.\<close>

named_theorems dom_simps \<open>operations that keep who is registered\<close>

lemma dom_fold: "(\<And>x rt. dom (REGISTRY (f x rt)) = dom (REGISTRY rt)) \<Longrightarrow> dom (REGISTRY (fold f xs rt)) = dom (REGISTRY rt)"
  by (induction xs arbitrary: rt) simp_all

lemma dom_exit_with [dom_simps]: "dom (REGISTRY (exit_with p reason hard rt)) = dom (REGISTRY rt)"
  by (rule dom_by) (simp add: exit_with_eq)

lemma dom_deliver_exit [dom_simps]: "dom (REGISTRY (deliver_exit_to K p dm reason rt)) = dom (REGISTRY rt)"
  by (rule dom_by) (simp add: deliver_exit_eq)

lemma dom_link [dom_simps]: "dom (REGISTRY (link K a b rt)) = dom (REGISTRY rt)"
  by (simp add: link_def Let_def dom_deliver_exit)

lemma dom_fire_down [dom_simps]: "dom (REGISTRY (fire_down K w p reason rt)) = dom (REGISTRY rt)"
  by (simp add: fire_down_def dom_deliver split: watcher.split)

lemma dom_add_monitor [dom_simps]: "dom (REGISTRY (add_monitor K p w rt)) = dom (REGISTRY rt)"
  by (simp add: add_monitor_def dom_fire_down)

lemma dom_set_trap [dom_simps]: "dom (REGISTRY (snd (set_trap_exit p on rt))) = dom (REGISTRY rt)"
  by (auto simp: set_trap_exit_def split: option.split)

lemma dom_remote_exit [dom_simps]: "dom (REGISTRY (deliver_remote_link_exit K a n b reason rt)) = dom (REGISTRY rt)"
  by (auto simp: deliver_remote_link_exit_def drop_remote_link_def dom_deliver_exit split: prod.split bool.split)

lemma dom_links_lost [dom_simps]: "dom (REGISTRY (links_node_down K n rt)) = dom (REGISTRY rt)"
  by (auto simp: links_node_down_def dom_deliver_exit dom_fold split: prod.split)

lemma dom_monitors_lost [dom_simps]: "dom (REGISTRY (monitors_node_down K n rt)) = dom (REGISTRY rt)"
  by (simp add: monitors_node_down_def dom_deliver dom_fold Let_def split: prod.split)

lemma dom_fire_downs [dom_simps]: "dom (REGISTRY (fire_downs K p reason rt)) = dom (REGISTRY rt)"
  by (rule dom_by) (simp add: fire_downs_eq)

lemma dom_notify [dom_simps]: "dom (REGISTRY (notify_peers K p reason rt)) = dom (REGISTRY rt)"
  by (simp add: notify_peers_def dom_deliver_exit dom_fold Let_def)

lemma dom_spawn: "dom (REGISTRY rt) \<subseteq> dom (REGISTRY (spawn_registered K c p l mr rt))"
  by (auto simp: spawn_registered_def dom_simps Let_def split: option.split)

lemma rstep_registered:
  assumes "rstep K (rt, ph) (rt', ph')" "a \<in> dom (REGISTRY rt)"
  shows "a \<in> dom (REGISTRY rt') \<or> 0 < ph' a"
  using assms(1)
proof (cases rule: rstep.cases)
  case (spawning c p mr l)
  then show ?thesis using dom_spawn [of rt K c p l mr] assms(2) by blast
qed (use assms(2) in \<open>simp_all add: dom_simps dom_deliver unlink_def demonitor_for_def exit_signal_def sweep_dead_watcher_def Let_def\<close>)

lemma rstep_counts:
  assumes "rstep K (rt, ph) (rt', ph')"
  shows "0 < ph a \<Longrightarrow> 0 < ph' a"
    "ph a < 2 \<Longrightarrow> 2 \<le> ph' a \<Longrightarrow> PENDING_REMOTE rt' = sweep_pending a (PENDING_REMOTE rt)"
    "ph a < 4 \<Longrightarrow> 4 \<le> ph' a \<Longrightarrow> REMOTE_LINKS rt' = Mapping.delete a (REMOTE_LINKS rt)"
proof -
  have n: "REMOTE_LINKS (notify_peers K p reason rt) = Mapping.delete p (REMOTE_LINKS rt)" for p reason
    using tables_fields(2) [OF deliver_exits(2)] by (simp add: notify_peers_def Let_def)
  show "0 < ph a \<Longrightarrow> 0 < ph' a" using assms by (cases rule: rstep.cases) auto
  show "ph a < 2 \<Longrightarrow> 2 \<le> ph' a \<Longrightarrow> PENDING_REMOTE rt' = sweep_pending a (PENDING_REMOTE rt)"
    using assms by (cases rule: rstep.cases) (auto simp: sweep_dead_watcher_def split: if_splits)
  show "ph a < 4 \<Longrightarrow> 4 \<le> ph' a \<Longrightarrow> REMOTE_LINKS rt' = Mapping.delete a (REMOTE_LINKS rt)"
    using assms by (cases rule: rstep.cases) (auto simp: n split: if_splits)
qed

lemma rstep_present: "rstep K (rt, ph) (rt', ph') \<Longrightarrow> present (rt, ph) a \<Longrightarrow> present (rt', ph') a"
  using rstep_registered [of K rt ph rt' ph' a] rstep_counts(1) [of K rt ph rt' ph' a] by (auto simp: present_def dom_def)

text \<open>A step that adds no entry but for a registered process keeps the invariant, whoever it takes a step of death for.\<close>

lemma remote_step:
  assumes "rstep K (rt, ph) (rt', ph')" "remote_ok (rt, ph)"
    "\<And>a. Mapping.lookup_default [] (REMOTE_LINKS rt') a \<noteq> [] \<Longrightarrow>
      Mapping.lookup_default [] (REMOTE_LINKS rt) a \<noteq> [] \<or> REGISTRY rt a \<noteq> None \<and> ph' = ph \<and> ph a = 0"
    "\<And>n e. e \<in> set (Mapping.lookup_default [] (PENDING_REMOTE rt') n) \<Longrightarrow>
      e \<in> set (Mapping.lookup_default [] (PENDING_REMOTE rt) n) \<or> REGISTRY rt (watcher_pid e) \<noteq> None \<and> ph' = ph \<and> ph (watcher_pid e) = 0"
  shows "remote_ok (rt', ph')"
proof -
  note P = rstep_present [OF assms(1)] and C = rstep_counts [OF assms(1)]
  have R: "present (rt, ph) a \<and> ph a < 4" if "Mapping.lookup_default [] (REMOTE_LINKS rt') a \<noteq> []" for a
    using assms(2) assms(3) [OF that] by (auto simp: remote_ok_def present_def)
  have R': "ph' a < 4" if "Mapping.lookup_default [] (REMOTE_LINKS rt') a \<noteq> []" for a
    using R [OF that] C(3) [of a] that by (cases "4 \<le> ph' a") (auto simp: default_delete)
  have Q: "present (rt, ph) (watcher_pid e) \<and> ph (watcher_pid e) < 2" if "e \<in> set (Mapping.lookup_default [] (PENDING_REMOTE rt') n)" for e n
    using assms(4) [OF that]
  proof
    assume "e \<in> set (Mapping.lookup_default [] (PENDING_REMOTE rt) n)"
    then show ?thesis using assms(2) by (simp add: remote_ok_def)
  qed (simp add: present_def)
  have swept: "e \<notin> set (Mapping.lookup_default [] (sweep_pending (watcher_pid e) t) n)" for e t n
    by (auto simp: sweep_pending_def Mapping.lookup_default_def Mapping.lookup_filter Mapping.lookup_map_values split: option.splits if_splits)
  have Q': "ph' (watcher_pid e) < 2" if "e \<in> set (Mapping.lookup_default [] (PENDING_REMOTE rt') n)" for e n
    using Q [OF that] C(2) [of "watcher_pid e"] that swept by (cases "2 \<le> ph' (watcher_pid e)") auto
  show ?thesis using R R' Q Q' P by (auto simp: remote_ok_def)
qed

lemma tables_fold: "(\<And>x rt. tables (f x rt) = tables rt) \<Longrightarrow> tables (fold f xs rt) = tables rt"
  by (induction xs arbitrary: rt) simp_all

lemma lost_tables:
  "REMOTE_LINKS (links_node_down K n rt) = snd (lost_links n (REMOTE_LINKS rt))" "PENDING_REMOTE (links_node_down K n rt) = PENDING_REMOTE rt"
  "PENDING_REMOTE (monitors_node_down K n rt) = Mapping.delete n (PENDING_REMOTE rt)" "REMOTE_LINKS (monitors_node_down K n rt) = REMOTE_LINKS rt"
proof -
  obtain es t where l: "lost_links n (REMOTE_LINKS rt) = (es, t)" by fastforce
  have "tables (links_node_down K n rt) = tables (rt\<lparr>REMOTE_LINKS := t\<rparr>)"
    by (simp add: links_node_down_def l case_prod_unfold tables_fold deliver_exit_eq)
  from tables_fields(2,4) [OF this] show "REMOTE_LINKS (links_node_down K n rt) = snd (lost_links n (REMOTE_LINKS rt))"
    "PENDING_REMOTE (links_node_down K n rt) = PENDING_REMOTE rt" by (simp_all add: l)
  let ?f = "fold (\<lambda>p rt. deliver K (watcher_pid p) (noconnection_down K (target_node p) (target_pid p) (mref p)) rt)
    (Mapping.lookup_default [] (PENDING_REMOTE rt) n) (rt\<lparr>PENDING_REMOTE := Mapping.delete n (PENDING_REMOTE rt)\<rparr>)"
  have "tables ?f = tables (rt\<lparr>PENDING_REMOTE := Mapping.delete n (PENDING_REMOTE rt)\<rparr>)" by (simp add: tables_fold deliver_eq)
  from tables_fields(2,4) [OF this] show "PENDING_REMOTE (monitors_node_down K n rt) = Mapping.delete n (PENDING_REMOTE rt)"
    "REMOTE_LINKS (monitors_node_down K n rt) = REMOTE_LINKS rt"
    by (simp_all add: monitors_node_down_def pending_node_down_def Let_def)
qed

lemma take_link_fewer: "Mapping.lookup_default [] (snd (take_link e t)) a \<noteq> [] \<Longrightarrow> Mapping.lookup_default [] t a \<noteq> []"
proof -
  assume ne: "Mapping.lookup_default [] (snd (take_link e t)) a \<noteq> []"
  obtain l p where e: "e = (l, p)" by (cases e)
  show ?thesis
  proof (cases "Mapping.lookup t l")
    case None
    then show ?thesis using ne by (simp add: take_link_def e case_prod_unfold)
  next
    case (Some v)
    let ?v = "filter (\<lambda>q. q \<noteq> p) v"
    have "snd (take_link e t) = (if ?v = [] then Mapping.delete l t else Mapping.update l ?v t)"
      using Some by (simp add: take_link_def e Let_def case_prod_unfold)
    then have "Mapping.lookup_default [] (snd (take_link e t)) a = (if a = l then ?v else Mapping.lookup_default [] t a)"
      by (simp only: default_shrink)
    then show ?thesis using ne Some by (cases v) (auto simp: Mapping.lookup_default_def split: if_splits)
  qed
qed

lemma lost_links_fewer: "Mapping.lookup_default [] (snd (lost_links n t)) a \<noteq> [] \<Longrightarrow> Mapping.lookup_default [] t a \<noteq> []"
  by (auto simp: lost_links_def Mapping.lookup_default_def Mapping.lookup_filter Mapping.lookup_map_values split: option.splits if_splits)

lemma take_pending_fewer: "e \<in> set (Mapping.lookup_default [] (snd (take_pending m w r t)) n) \<Longrightarrow> e \<in> set (Mapping.lookup_default [] t n)"
proof (cases "Mapping.lookup t m")
  case None
  then show "e \<in> set (Mapping.lookup_default [] (snd (take_pending m w r t)) n) \<Longrightarrow> ?thesis" by (simp add: take_pending_def)
next
  case (Some v)
  let ?v = "filter (\<lambda>p. \<not> (watcher_pid p = w \<and> mref p = r)) v"
  have "snd (take_pending m w r t) = (if ?v = [] then Mapping.delete m t else Mapping.update m ?v t)"
    using Some by (simp add: take_pending_def Let_def)
  then have d: "Mapping.lookup_default [] (snd (take_pending m w r t)) n = (if n = m then ?v else Mapping.lookup_default [] t n)"
    by (simp only: default_shrink)
  have "Mapping.lookup_default [] t m = v" using Some by (simp add: Mapping.lookup_default_def)
  then show "e \<in> set (Mapping.lookup_default [] (snd (take_pending m w r t)) n) \<Longrightarrow> ?thesis"
    unfolding d by (auto split: if_splits)
qed

lemma sweep_pending_fewer: "e \<in> set (Mapping.lookup_default [] (sweep_pending p t) n) \<Longrightarrow> e \<in> set (Mapping.lookup_default [] t n)"
  by (auto simp: sweep_pending_def Mapping.lookup_default_def Mapping.lookup_filter Mapping.lookup_map_values split: option.splits if_splits)

lemma remote_fields:
  "REMOTE_LINKS (deliver K p m rt) = REMOTE_LINKS rt" "PENDING_REMOTE (deliver K p m rt) = PENDING_REMOTE rt"
  "REMOTE_LINKS (deliver_exit_to K p dm reason rt) = REMOTE_LINKS rt" "PENDING_REMOTE (deliver_exit_to K p dm reason rt) = PENDING_REMOTE rt"
  "PENDING_REMOTE (notify_peers K p reason rt) = PENDING_REMOTE rt"
  "REMOTE_LINKS (notify_peers K p reason rt) = Mapping.delete p (REMOTE_LINKS rt)"
  using tables_fields(2,4) [OF deliver_eq(2)] tables_fields(2,4) [OF deliver_exit_eq(2)] tables_fields(2,4) [OF deliver_exits(2)]
  by (simp_all add: notify_peers_def Let_def)

lemma remote_inv_step: "cstep K s s' \<Longrightarrow> sys_inv s \<Longrightarrow> remote_ok s \<Longrightarrow> remote_ok s'"
proof -
  assume c: "cstep K s s'" and inv: "sys_inv s" "remote_ok s"
  obtain rt ph rt' ph' where ss: "s = (rt, ph)" "s' = (rt', ph')" by fastforce
  have alive: "REGISTRY rt a \<noteq> None \<Longrightarrow> ph a = 0" for a using sys_invD(1) inv(1) ss by blast
  have link_fewer: "take_link e t = (b, t') \<Longrightarrow> Mapping.lookup_default [] t' a \<noteq> [] \<Longrightarrow> Mapping.lookup_default [] t a \<noteq> []" for e t b t' a
    using take_link_fewer [of e t a] by simp
  have pending_fewer: "take_pending m w r t = (b, t') \<Longrightarrow> e \<in> set (Mapping.lookup_default [] t' n) \<Longrightarrow> e \<in> set (Mapping.lookup_default [] t n)"
    for m w r t b t' e n using take_pending_fewer [of e m w r t n] by simp
  have links: "Mapping.lookup_default [] (REMOTE_LINKS rt) a \<noteq> [] \<or> REGISTRY rt a \<noteq> None \<and> ph' = ph"
    if "Mapping.lookup_default [] (REMOTE_LINKS rt') a \<noteq> []" for a
    using c that unfolding ss
    by (cases rule: cstep.cases)
      (auto simp: sweep_dead_watcher_def remote_fields default_delete record_remote_link_def put_link_def drop_remote_link_def
        deliver_remote_link_exit_def deliver_remote_down_def fire_noconnection_if_pending_def lost_tables Mapping.lookup_default_update'
        Let_def split: prod.splits bool.splits if_splits dest: link_fewer lost_links_fewer)
  have pend: "e \<in> set (Mapping.lookup_default [] (PENDING_REMOTE rt) n) \<or> REGISTRY rt (watcher_pid e) \<noteq> None \<and> ph' = ph"
    if "e \<in> set (Mapping.lookup_default [] (PENDING_REMOTE rt') n)" for n e
    using c that unfolding ss
    by (cases rule: cstep.cases)
      (auto simp: sweep_dead_watcher_def remote_fields default_delete record_remote_link_def drop_remote_link_def record_pending_remote_def
        deliver_remote_link_exit_def deliver_remote_down_def fire_noconnection_if_pending_def lost_tables Mapping.lookup_default_update'
        Let_def split: prod.splits bool.splits if_splits dest: take_pending_fewer pending_fewer sweep_pending_fewer)
  show ?thesis unfolding ss
    by (rule remote_step [OF cstep_rstep [OF c [unfolded ss]] inv(2) [unfolded ss]]) (use links pend alive in blast)+
qed

lemma cross_reachable: "(cstep K)\<^sup>*\<^sup>* (fresh_runtime, \<lambda>p. 0) s \<Longrightarrow> sys_inv s \<and> remote_ok s"
proof (induction rule: rtranclp_induct)
  case base
  show ?case using sys_inv_reachable [OF rtranclp.rtrancl_refl]
    by (simp add: remote_ok_def fresh_runtime_def Mapping.lookup_default_empty)
next
  case (step s s')
  then show ?case using inv_step [OF cstep_rstep] remote_inv_step by blast
qed

section \<open>What a death means\<close>

text \<open>
  C28: Whatever processes here link, monitor, spawn, signal and die in between, and whatever links and monitors
  across nodes are made, resolved and lost, links go both ways and never to oneself and the two indexes of the
  monitors agree. A process that has left the registry and dropped its watches watches nobody, here or at
  another node, when its watchers are told, so its death is seen only when it holds nothing; once they are told
  nobody watches it; and when the death is complete no process is linked to it, it holds no link to another
  node, and no later link or monitor of it enters the tables.
\<close>

theorem death_is_complete:
  assumes "(cstep K)\<^sup>*\<^sup>* (fresh_runtime, \<lambda>p. 0) (rt, ph)"
  shows "(\<forall>a b. b \<in> linked rt a \<longrightarrow> a \<in> linked rt b \<and> a \<noteq> b) \<and>
    (\<forall>q r x. held (MONITORS rt) q r = Some x \<longleftrightarrow> Local q r \<in> set (watches (MONITORS rt) x)) \<and>
    (2 \<le> ph p \<longrightarrow> (\<forall>r x. Local p r \<notin> set (watches (MONITORS rt) x) \<and> held (MONITORS rt) p r = None) \<and>
       (\<forall>n. \<forall>e \<in> set (Mapping.lookup_default [] (PENDING_REMOTE rt) n). watcher_pid e \<noteq> p)) \<and>
    (3 \<le> ph p \<longrightarrow> watches (MONITORS rt) p = []) \<and>
    (4 \<le> ph p \<longrightarrow> linked rt p = {} \<and> (\<forall>q. p \<notin> linked rt q) \<and> Mapping.lookup_default [] (REMOTE_LINKS rt) p = []) \<and>
    (0 < ph p \<longrightarrow> LINKS (link K a p rt) = LINKS rt \<and> MONITORS (add_monitor K p w rt) = MONITORS rt \<and>
       REMOTE_LINKS (snd (record_remote_link p n q rt)) = REMOTE_LINKS rt)"
proof -
  have inv: "sys_inv (rt, ph)" "remote_ok (rt, ph)" using cross_reachable [OF assms] by simp_all
  note D = sys_invD [OF inv(1)]
  have 1: "\<forall>a b. b \<in> linked rt a \<longrightarrow> a \<in> linked rt b \<and> a \<noteq> b" using D(3,4) by metis
  have m: "\<forall>q r x. held (MONITORS rt) q r = Some x \<longleftrightarrow> Local q r \<in> set (watches (MONITORS rt) x)"
    using D(7) by (simp add: mt_inv_def)
  have 2: "Local p r \<notin> set (watches (MONITORS rt) x)" if "2 \<le> ph p" for r x using D(11) [of p r x] that by auto
  then have h: "held (MONITORS rt) p r = None" if "2 \<le> ph p" for r using m that by (cases "held (MONITORS rt) p r") auto
  have 3: "watches (MONITORS rt) p = []" if "3 \<le> ph p"
    using D(9) [of _ p] that by (cases "watches (MONITORS rt) p") auto
  have 4: "p \<notin> linked rt q" if "4 \<le> ph p" for q using D(6) [of p q] that by auto
  then have 5: "linked rt p = {}" if "4 \<le> ph p" using that 1 by blast
  have c: "watcher_pid e \<noteq> p" if "2 \<le> ph p" "e \<in> set (Mapping.lookup_default [] (PENDING_REMOTE rt) n)" for e n
    using inv(2) that unfolding remote_ok_def fst_conv snd_conv by fastforce
  have d: "Mapping.lookup_default [] (REMOTE_LINKS rt) p = []" if "4 \<le> ph p" using inv(2) that by (auto simp: remote_ok_def)
  have r: "REGISTRY rt p = None" if "0 < ph p" using D(1) [of p] that by (cases "REGISTRY rt p") auto
  have 6: "LINKS (link K a p rt) = LINKS rt" if "0 < ph p"
    using r [OF that] tables_fields(1) [OF deliver_exit_eq(2)] by (simp add: link_def)
  have 7: "MONITORS (add_monitor K p w rt) = MONITORS rt" if "0 < ph p"
    using r [OF that] tables_fields(3) [OF deliver_eq(2)] by (simp add: add_monitor_def fire_down_def split: watcher.split)
  have 8: "REMOTE_LINKS (snd (record_remote_link p n q rt)) = REMOTE_LINKS rt" if "0 < ph p"
    using r [OF that] by (simp add: record_remote_link_def)
  show ?thesis using 1 m 2 h 3 4 5 6 7 8 c d by blast
qed

abbreviation example_setting :: setting where
  "example_setting \<equiv> \<lparr>NOPROC_SYMBOL = 1, EXIT_SYMBOL = 2, DOWN_SYMBOL = 3, NORMAL_SYMBOL = 4, KILL_SYMBOL = 5,
     KILLED_SYMBOL = 6, NOCONNECTION = 7, NODEDOWN = 9, NONODE = 0, local_node = 8, now = 0, delivery_origin = FromHere\<rparr>"

abbreviation arrive :: "u64 \<Rightarrow> runtime \<Rightarrow> runtime" where
  "arrive c rt \<equiv> rt\<lparr>REGISTRY := (REGISTRY rt)(c \<mapsto> new_mailbox)\<rparr>"

text \<open>Processes 1 and 2, linked, and 1 watching 2 under the reference 9.\<close>

abbreviation family :: runtime where
  "family \<equiv> add_monitor example_setting 2 (Local 1 9) (link example_setting 1 2 (arrive 2 (arrive 1 fresh_runtime)))"

lemma family_reachable: "(rstep example_setting)\<^sup>*\<^sup>* (fresh_runtime, \<lambda>p. 0) (family, \<lambda>p. 0)"
proof -
  let ?K = example_setting and ?z = "\<lambda>p::u64. 0::nat"
  have 1: "rstep ?K (fresh_runtime, ?z) (arrive 1 fresh_runtime, ?z)"
    by (rule arriving) (simp_all add: fresh_runtime_def)
  have 2: "rstep ?K (arrive 1 fresh_runtime, ?z) (arrive 2 (arrive 1 fresh_runtime), ?z)"
    by (rule arriving) (simp_all add: fresh_runtime_def)
  let ?rt = "link ?K 1 2 (arrive 2 (arrive 1 fresh_runtime))"
  have 3: "rstep ?K (arrive 2 (arrive 1 fresh_runtime), ?z) (?rt, ?z)" by (rule linking) simp
  have "REGISTRY ?rt 1 \<noteq> None" "watches (MONITORS ?rt) = (\<lambda>x. [])"
    by (simp_all add: link_def Let_def fresh_runtime_def mt_inv_empty)
  then have 4: "rstep ?K (?rt, ?z) (family, ?z)" by (intro monitoring) auto
  from 1 2 3 4 show ?thesis by (meson rtranclp.rtrancl_refl rtranclp.rtrancl_into_rtrancl)
qed

lemma family_crossing: "(cstep example_setting)\<^sup>*\<^sup>* (fresh_runtime, \<lambda>p. 0) (family, \<lambda>p. 0)"
proof -
  let ?K = example_setting and ?z = "\<lambda>p::u64. 0::nat"
  let ?rt = "link ?K 1 2 (arrive 2 (arrive 1 fresh_runtime))"
  have 1: "cstep ?K (fresh_runtime, ?z) (arrive 1 fresh_runtime, ?z)"
    by (rule here, rule arriving) (simp_all add: fresh_runtime_def)
  have 2: "cstep ?K (arrive 1 fresh_runtime, ?z) (arrive 2 (arrive 1 fresh_runtime), ?z)"
    by (rule here, rule arriving) (simp_all add: fresh_runtime_def)
  have 3: "cstep ?K (arrive 2 (arrive 1 fresh_runtime), ?z) (?rt, ?z)"
    by (rule here, rule linking) (simp_all add: link_def Let_def)
  have "REGISTRY ?rt 1 \<noteq> None" "watches (MONITORS ?rt) = (\<lambda>x. [])"
    by (simp_all add: link_def Let_def fresh_runtime_def mt_inv_empty)
  then have 4: "cstep ?K (?rt, ?z) (family, ?z)"
    by (intro here monitoring) (auto simp: add_monitor_def fire_down_def link_def Let_def)
  from 1 2 3 4 show ?thesis by (meson rtranclp.rtrancl_refl rtranclp.rtrancl_into_rtrancl)
qed

text \<open>
  The death of 2, which is linked to 7 at the node 5 and holds a monitor there as well.
\<close>

lemma death_is_complete_witness:
  "let fam = snd (record_remote_link 2 5 7 family);
       fam = fam\<lparr>PENDING_REMOTE := record_pending_remote \<lparr>watcher_pid = 2, mref = 3, target_node = 5, target_pid = 8\<rparr> (PENDING_REMOTE fam)\<rparr>;
       rt = notify_peers example_setting 2 (MKeyword 4) (fire_downs example_setting 2 (MKeyword 4)
         (sweep_dead_watcher 2 (fam\<lparr>REGISTRY := (REGISTRY fam)(2 := None)\<rparr>)))
   in linked rt 2 = {} \<and> watches (MONITORS rt) 2 = [] \<and> 2 \<notin> linked rt 1 \<and> Mapping.lookup_default [] (REMOTE_LINKS rt) 2 = [] \<and>
     (\<forall>e \<in> set (Mapping.lookup_default [] (PENDING_REMOTE rt) 5). watcher_pid e \<noteq> 2)"
proof -
  let ?K = example_setting and ?z = "\<lambda>p::u64. 0::nat" and ?m = "MKeyword 4"
  let ?e = "\<lparr>watcher_pid = 2, mref = 3, target_node = 5, target_pid = 8\<rparr>"
  let ?f1 = "snd (record_remote_link 2 5 7 family)"
  let ?f2 = "?f1\<lparr>PENDING_REMOTE := record_pending_remote ?e (PENDING_REMOTE ?f1)\<rparr>"
  let ?r1 = "?f2\<lparr>REGISTRY := (REGISTRY ?f2)(2 := None)\<rparr>"
  let ?r2 = "sweep_dead_watcher 2 ?r1" let ?r3 = "fire_downs ?K 2 ?m ?r2" let ?r4 = "notify_peers ?K 2 ?m ?r3"
  have reg: "REGISTRY family 2 \<noteq> None" by (simp add: add_monitor_def fire_down_def link_def Let_def)
  have keep: "REGISTRY (snd (record_remote_link me n q rt)) = REGISTRY rt" for me n q rt by (simp add: record_remote_link_def)
  have reg2: "REGISTRY ?f1 2 \<noteq> None" "REGISTRY ?f2 2 \<noteq> None" using reg by (simp_all add: keep del: not_None_eq)
  have a: "cstep ?K (family, ?z) (?f1, ?z)" by (rule remote_linking)
  have b: "cstep ?K (?f1, ?z) (?f2, ?z)" by (rule remote_monitoring) (use reg2(1) in \<open>simp del: not_None_eq\<close>)
  have 1: "cstep ?K (?f2, ?z) (?r1, ?z(2 := 1))"
    by (rule here, rule dying) (rule reg2, simp_all)
  have 2: "cstep ?K (?r1, ?z(2 := 1)) (?r2, ?z(2 := 1, 2 := 2))" by (rule sweeping_remote) simp
  have 3: "cstep ?K (?r2, ?z(2 := 1, 2 := 2)) (?r3, ?z(2 := 1, 2 := 2, 2 := 3))"
    by (rule here, rule telling_watchers) (simp_all add: fire_downs_eq)
  have 4: "cstep ?K (?r3, ?z(2 := 1, 2 := 2, 2 := 3)) (?r4, ?z(2 := 1, 2 := 2, 2 := 3, 2 := 4))"
    by (rule telling_remote_links) simp
  have "(cstep ?K)\<^sup>*\<^sup>* (fresh_runtime, \<lambda>p. 0) (?r4, ?z(2 := 1, 2 := 2, 2 := 3, 2 := 4))"
    using family_crossing a b 1 2 3 4 by (meson rtranclp.rtrancl_into_rtrancl)
  from death_is_complete [OF this, of 2] show ?thesis by (simp add: Let_def)
qed

end
