(* ===== verification/Exits.thy ===== *)
theory Exits
  imports Deaths
begin

text \<open>
  What each process learns of a death (\<open>process/links.rs\<close>, \<open>process/monitor.rs\<close>), and that a link to a process at another
  node is resolved once.
\<close>

section \<open>The signals of one death\<close>

lemma downs_for_others:
  "q \<noteq> p \<Longrightarrow> downs_for K q dead reason (filter (\<lambda>w. \<forall>r. w \<noteq> Local p r) ws) = downs_for K q dead reason ws"
  by (induction ws) (auto simp: downs_for_def split: watcher.splits)

lemma remote_others:
  "concat (map (\<lambda>w. case w of Remote n p r \<Rightarrow> [DownTo n p r dead reason] | Local p r \<Rightarrow> []) (filter (\<lambda>w. \<forall>r. w \<noteq> Local q r) ws)) =
   concat (map (\<lambda>w. case w of Remote n p r \<Rightarrow> [DownTo n p r dead reason] | Local p r \<Rightarrow> []) ws)"
  by (induction ws) (auto split: watcher.split)

lemma retire_eq:
  assumes "mt_inv (MONITORS rt)" "finite (linked rt p)" "q \<noteq> p"
  shows "REGISTRY (retire_pid_tail K p reason rt) q =
      map_option ((if q \<in> linked rt p then signalled K (local_pid K p) reason else id) \<circ>
        fold (received K) (downs_for K q p reason (watches (MONITORS rt) p))) (REGISTRY rt q)"
    "wire (retire_pid_tail K p reason rt) = wire rt @
      concat (map (\<lambda>w. case w of Remote n x r \<Rightarrow> [DownTo n x r p reason] | Local x r \<Rightarrow> []) (watches (MONITORS rt) p)) @
      map (\<lambda>(node, x). LinkExit node x p reason) (Mapping.lookup_default [] (REMOTE_LINKS rt) p)"
    "REGISTRY rt p = None \<Longrightarrow> REGISTRY (retire_pid_tail K p reason rt) p = None"
proof -
  let ?rt = "sweep_dead_watcher p rt" let ?rf = "fire_downs K p reason ?rt"
  have W: "watches (MONITORS ?rt) p = filter (\<lambda>w. \<forall>r. w \<noteq> Local p r) (watches (MONITORS rt) p)"
    using remove_watcher_spec(2) [OF assms(1), of p] by (simp add: sweep_dead_watcher_def)
  have o: "REGISTRY ?rt = REGISTRY rt" "LINKS ?rt = LINKS rt" "REMOTE_LINKS ?rt = REMOTE_LINKS rt" "wire ?rt = wire rt"
    by (simp_all add: sweep_dead_watcher_def)
  have l: "linked ?rf = linked rt" using o by (simp add: linked_def fun_eq_iff fire_downs_eq)
  note N = notify_peers_eq [of ?rf p, unfolded l, OF assms(2)]
  note F = fire_downs_eq(1) [of K p reason ?rt q, unfolded W o] fire_downs_eq(6) [of K p reason ?rt, unfolded W o remote_others]
  have r: "retire_pid_tail K p reason rt = notify_peers K p reason ?rf" by (simp add: retire_pid_tail_def Let_def)
  show "REGISTRY (retire_pid_tail K p reason rt) q =
      map_option ((if q \<in> linked rt p then signalled K (local_pid K p) reason else id) \<circ>
        fold (received K) (downs_for K q p reason (watches (MONITORS rt) p))) (REGISTRY rt q)"
    unfolding r N(1) F(1) downs_for_others [OF assms(3)] by (simp add: option.map_comp comp_def)
  show "wire (retire_pid_tail K p reason rt) = wire rt @
      concat (map (\<lambda>w. case w of Remote n x r \<Rightarrow> [DownTo n x r p reason] | Local x r \<Rightarrow> []) (watches (MONITORS rt) p)) @
      map (\<lambda>(node, x). LinkExit node x p reason) (Mapping.lookup_default [] (REMOTE_LINKS rt) p)"
    unfolding r N(6) F(2) by (simp add: fire_downs_eq o)
  show "REGISTRY rt p = None \<Longrightarrow> REGISTRY (retire_pid_tail K p reason rt) p = None"
    unfolding r N(1) fire_downs_eq(1) o by simp
qed

text \<open>
  C29: When a process dies, every other process is told exactly what concerns it: a down for each of its
  monitors of the dead process, in the order it took them out, and then, if it is linked, one exit signal.
  Processes that neither watch nor are linked are untouched. Watchers and linked processes at other nodes
  get one frame each.
\<close>

theorem death_tells_each_once:
  assumes "(rstep K)\<^sup>*\<^sup>* (fresh_runtime, \<lambda>p. 0) (rt, ph)" "q \<noteq> p"
  shows "REGISTRY (deregister K p reason rt) q =
      map_option ((if q \<in> linked rt p then signalled K (local_pid K p) reason else id) \<circ>
        fold (received K) (downs_for K q p reason (watches (MONITORS rt) p))) (REGISTRY rt q) \<and>
    REGISTRY (deregister K p reason rt) p = None \<and>
    wire (deregister K p reason rt) = wire rt @
      concat (map (\<lambda>w. case w of Remote n x r \<Rightarrow> [DownTo n x r p reason] | Local x r \<Rightarrow> []) (watches (MONITORS rt) p)) @
      map (\<lambda>(node, x). LinkExit node x p reason) (Mapping.lookup_default [] (REMOTE_LINKS rt) p)"
proof -
  note D = sys_invD [OF sys_inv_reachable [OF assms(1)]]
  let ?rt = "rt\<lparr>REGISTRY := (REGISTRY rt)(p := None)\<rparr>"
  have l: "linked ?rt = linked rt" by (simp add: linked_def fun_eq_iff)
  have R: "mt_inv (MONITORS ?rt)" "finite (linked ?rt p)" using D(2,7) by (simp_all add: l)
  show ?thesis using retire_eq [OF R assms(2), of K reason] assms(2) unfolding deregister_def l by simp
qed

lemma death_tells_each_once_witness:
  "REGISTRY (deregister example_setting 2 (MKeyword 9) family) 1 =
     Some (signalled example_setting (local_pid example_setting 2) (MKeyword 9)
       (received example_setting (down_message example_setting (local_pid example_setting 2) 9 (MKeyword 9)) new_mailbox))"
proof -
  have "linked family 2 = {1}" "REGISTRY family 1 = Some new_mailbox" "watches (MONITORS family) 2 = [Local 1 9]"
    by (simp_all add: linked_def add_monitor_def link_def Let_def fresh_runtime_def Mapping.lookup_default_update' Mapping.lookup_default_empty
      watches_def watch_def no_monitors_def)
  then show ?thesis using death_tells_each_once [OF family_reachable, of 1 2 "MKeyword 9"]
    by (simp add: downs_for_def)
qed

section \<open>What a signal does\<close>

lemma request_kill_fields:
  "kill_pending (request_kill reason hard mb)"
  "waiter (state (request_kill reason hard mb)) = waiter (state mb)"
  "kill (state (request_kill reason hard mb)) = (if kill (state mb) \<noteq> None \<and> kill_hard (state mb) then kill (state mb) else Some reason)"
  "kill_hard (state (request_kill reason hard mb)) = (if kill (state mb) \<noteq> None \<and> kill_hard (state mb) then True else hard)"
  by (auto simp: request_kill_def Let_def)

lemma take_wake_fields [simp]:
  "kill (snd (take_wake st)) = kill st" "kill_hard (snd (take_wake st)) = kill_hard st" "waiter (snd (take_wake st)) = None"
  by (simp_all add: take_wake_def wake_with_def Let_def)

text \<open>
  The exit of a linked process never goes unanswered: a process that traps exits is neither killed nor
  asked to die; one that does not, for an abnormal reason, has a hard exit pending, with that reason unless
  a hard exit was already latched, and is taken out of its wait to die; a normal exit leaves it as it was.
\<close>

theorem linked_exit_answered:
  assumes "REGISTRY rt q = Some mb" "\<not> trap_exit mb"
  shows "if is_normal K reason then deliver_exit_to K q dead reason rt = rt
    else \<exists>mb'. REGISTRY (deliver_exit_to K q dead reason rt) q = Some mb' \<and> pending_hard_kill mb' \<and> waiter (state mb') = None \<and>
      kill (state mb') = (if pending_hard_kill mb \<or> kill (state mb) \<noteq> None \<and> kill_hard (state mb) then kill (state mb) else Some reason) \<and>
      queue (state mb') = queue (state mb)"
proof (cases "is_normal K reason")
  case True
  then show ?thesis using assms by (simp add: deliver_exit_to_def traps_exit_def)
next
  case False
  have "queue (state (killed_by reason True mb)) = queue (state mb)"
    by (simp add: killed_by_def Let_def request_kill_def take_wake_def wake_with_def)
  moreover have "REGISTRY (deliver_exit_to K q dead reason rt) q = Some (killed_by reason True mb)"
    using assms False by (simp add: deliver_exit_eq signalled_def)
  ultimately show ?thesis using False
    by (auto simp: killed_by_def Let_def request_kill_fields pending_hard_kill_def)
qed

lemma linked_exit_answered_witness:
  "\<exists>mb'. REGISTRY (deliver_exit_to example_setting 1 (MPid 8 2) (MKeyword 1) (arrive 1 fresh_runtime)) 1 = Some mb' \<and> pending_hard_kill mb'"
  using linked_exit_answered [of "arrive 1 fresh_runtime" 1 new_mailbox example_setting "MKeyword 1" "MPid 8 2"]
  by (auto simp: new_mailbox_def is_normal_def)

section \<open>Links across nodes\<close>

definition link_count_of :: "link_table \<Rightarrow> u64 \<times> symbol \<times> u64 \<Rightarrow> nat" where
  "link_count_of t k = count_list (Mapping.lookup_default [] t (fst k)) (snd k)"

definition link_table_inv :: "link_table \<Rightarrow> bool" where
  "link_table_inv t \<longleftrightarrow> finite (Mapping.keys t) \<and> (\<forall>l. Mapping.lookup t l \<noteq> Some []) \<and> (\<forall>k. link_count_of t k \<le> 1)"

lemma count_filter: "count_list (filter p xs) x = (if p x then count_list xs x else 0)"
  by (induction xs) auto

lemma take_link_eq:
  assumes "link_table_inv t"
  shows "fst (take_link (l, p) t) \<longleftrightarrow> link_count_of t (l, p) \<noteq> 0"
    "link_count_of (snd (take_link (l, p) t)) k = (if k = (l, p) then 0 else link_count_of t k)"
    "link_table_inv (snd (take_link (l, p) t))"
proof -
  obtain n r where p: "p = (n, r)" by (cases p) auto
  let ?v = "Mapping.lookup_default [] t l"
  show "fst (take_link (l, p) t) \<longleftrightarrow> link_count_of t (l, p) \<noteq> 0"
    by (cases "Mapping.lookup t l")
      (auto simp: take_link_def p Let_def link_count_of_def Mapping.lookup_default_def filter_shorter count_list_pos)
  have d: "Mapping.lookup_default [] (snd (take_link (l, p) t)) m = (if m = l then filter (\<lambda>x. x \<noteq> p) ?v else Mapping.lookup_default [] t m)" for m
  proof (cases "Mapping.lookup t l")
    case None
    then show ?thesis by (auto simp: take_link_def p Mapping.lookup_default_def)
  next
    case (Some v)
    then have "snd (take_link (l, p) t) = (let v' = filter (\<lambda>x. x \<noteq> p) ?v in if v' = [] then Mapping.delete l t else Mapping.update l v' t)"
      by (simp add: take_link_def p Let_def Mapping.lookup_default_def)
    then show ?thesis by (simp only: Let_def default_shrink)
  qed
  show c: "link_count_of (snd (take_link (l, p) t)) k = (if k = (l, p) then 0 else link_count_of t k)" for k
    by (cases k) (auto simp: link_count_of_def d count_filter)
  have "Mapping.lookup (snd (take_link (l, p) t)) m \<noteq> Some []" for m
    using assms by (cases "Mapping.lookup t l") (auto simp: take_link_def p Let_def lookup_shrink link_table_inv_def)
  moreover have "finite (Mapping.keys (snd (take_link (l, p) t)))"
    using assms by (cases "Mapping.lookup t l") (auto simp: take_link_def p Let_def link_table_inv_def)
  ultimately show "link_table_inv (snd (take_link (l, p) t))" using assms c unfolding link_table_inv_def by auto
qed

lemma lost_links_eq:
  assumes "link_table_inv t"
  shows "link_count_of (snd (lost_links n t)) k = (if fst (snd k) = n then 0 else link_count_of t k)"
    "count_list (fst (lost_links n t)) k = (if fst (snd k) = n then link_count_of t k else 0)"
    "link_table_inv (snd (lost_links n t))"
proof -
  let ?t = "snd (lost_links n t)"
  have f: "finite (Mapping.keys t)" using assms by (simp add: link_table_inv_def)
  have lk: "Mapping.lookup ?t l = (case Mapping.lookup t l of None \<Rightarrow> None
      | Some v \<Rightarrow> if filter (\<lambda>p. fst p \<noteq> n) v = [] then None else Some (filter (\<lambda>p. fst p \<noteq> n) v))" for l
    by (simp add: lost_links_def Mapping.lookup_filter Mapping.lookup_map_values split: option.split)
  have d: "Mapping.lookup_default [] ?t l = filter (\<lambda>p. fst p \<noteq> n) (Mapping.lookup_default [] t l)" for l
    by (simp add: Mapping.lookup_default_def lk split: option.split)
  show c: "link_count_of ?t k = (if fst (snd k) = n then 0 else link_count_of t k)" for k
    by (simp add: link_count_of_def d count_filter)
  have "finite (Mapping.keys ?t)"
    using finite_subset [OF Mapping.keys_filter, of "Mapping.map_values (\<lambda>_ peers. filter (\<lambda>p. fst p \<noteq> n) peers) t"] f
    by (simp add: lost_links_def)
  moreover have "Mapping.lookup ?t l \<noteq> Some []" for l by (simp add: lk split: option.split)
  ultimately show "link_table_inv ?t" using assms c unfolding link_table_inv_def by auto
  obtain l p where k: "k = (l, p)" by (cases k) auto
  have cm: "count_list (map (Pair m) xs) (l, p) = (if m = l then count_list xs p else 0)" for m xs by (induction xs) auto
  have cc: "distinct ms \<Longrightarrow> count_list (concat (map (\<lambda>m. map (Pair m) (g m)) ms)) (l, p) = (if l \<in> set ms then count_list (g l) p else 0)" for ms g
    by (induction ms) (auto simp: cm)
  have ds: "distinct (Mapping.ordered_keys t)" by (simp add: Mapping.ordered_keys_def)
  have "count_list (fst (lost_links n t)) k =
      (if l \<in> Mapping.keys t then count_list (filter (\<lambda>p. fst p = n) (Mapping.lookup_default [] t l)) p else 0)"
    unfolding lost_links_def fst_conv k cc [OF ds] ordered_keys_set [OF f] ..
  moreover have "Mapping.lookup_default [] t l = []" if "l \<notin> Mapping.keys t"
    using that by (simp add: keys_lookup Mapping.lookup_default_def)
  ultimately show "count_list (fst (lost_links n t)) k = (if fst (snd k) = n then link_count_of t k else 0)"
    by (auto simp: k link_count_of_def count_filter)
qed

interpretation remote_link_claims: one_shot put_link take_link lost_links id link_table_inv link_count_of
proof unfold_locales
  fix t :: link_table and e k k' :: "u64 \<times> symbol \<times> u64" and n :: symbol
  assume inv: "link_table_inv t"
  obtain l p where e: "e = (l, p)" by (cases e) auto
  obtain l' p' where k: "k = (l', p')" by (cases k) auto
  have put: "Mapping.lookup_default [] (put_link e t) m = Mapping.lookup_default [] t m @ (if m = l then [p] else [])"
    if "link_count_of t e = 0" for m
    using that by (cases p) (auto simp: put_link_def e Let_def link_count_of_def Mapping.lookup_default_update' count_list_0_iff)
  show pc: "link_count_of (put_link e t) k = (if k = id e then 1 else link_count_of t k)" if "link_count_of t (id e) = 0" for k
    using that put by (cases k) (auto simp: link_count_of_def e)
  show "link_table_inv (put_link e t)" if z: "link_count_of t (id e) = 0"
    unfolding link_table_inv_def
  proof (intro conjI allI)
    show "finite (Mapping.keys (put_link e t))" using inv by (cases p) (simp add: put_link_def e Let_def link_table_inv_def)
    show "Mapping.lookup (put_link e t) m \<noteq> Some []" for m
      using inv by (cases p) (auto simp: put_link_def e Let_def link_table_inv_def Mapping.lookup_update')
    show "link_count_of (put_link e t) k \<le> 1" for k
      unfolding pc [OF z] using inv unfolding link_table_inv_def by (cases "k = id e") (simp_all del: split_paired_All)
  qed
  show "link_table_inv (snd (take_link k t))" "fst (take_link k t) \<longleftrightarrow> link_count_of t k \<noteq> 0"
    "link_count_of (snd (take_link k t)) k' = (if k' = k then 0 else link_count_of t k')"
    unfolding k by (rule take_link_eq [OF inv])+
  show "link_count_of t k \<le> 1" using inv unfolding link_table_inv_def by blast
  show "link_table_inv (snd (lost_links n t))" by (rule lost_links_eq [OF inv])
  show "count_list (map id (fst (lost_links n t))) k + link_count_of (snd (lost_links n t)) k = link_count_of t k"
    using lost_links_eq(1,2) [OF inv, of n k] by simp
qed

text \<open>
  A link to a process at another node is resolved once: of an unlink, the peer's exit, the loss of the
  node and the fallback for an unreachable node exactly one removes the entry and may act on it, however
  they race, and until one does the entry is there.
\<close>

theorem remote_link_once:
  assumes "fresh_puts put_link take_link lost_links id link_count_of ops Mapping.empty"
    "claims put_link take_link lost_links id ops Mapping.empty = (resolved, t)"
  shows "count_list resolved k + link_count_of t k = length (filter (\<lambda>op. op = Put k) ops) \<and> link_count_of t k \<le> 1"
proof -
  have e: "link_table_inv Mapping.empty" "link_count_of Mapping.empty k = 0"
    by (simp_all add: link_table_inv_def link_count_of_def Mapping.lookup_default_empty)
  have "link_table_inv t" using remote_link_claims.run_inv [OF e(1) assms(1)] assms(2) by simp
  then have "link_count_of t k \<le> 1" by (rule remote_link_claims.once)
  moreover have m: "(\<lambda>op. \<exists>e. op = Put e \<and> id e = k) = (\<lambda>op. op = Put k)" by (simp del: split_paired_Ex)
  ultimately show ?thesis using remote_link_claims.resolved_once [OF e(1) assms, of k, unfolded m] e(2) by simp
qed

lemma remote_link_once_witness:
  "count_list (fst (claims put_link take_link lost_links id [Put (1, 3, 9), NodeDown 3, Claim (1, 3, 9)] Mapping.empty)) (1, 3, 9) \<le> 1"
proof -
  let ?ops = "[Put (1, 3, 9), NodeDown 3, Claim (1, 3, 9)]"
  obtain ks t where r: "claims put_link take_link lost_links id ?ops Mapping.empty = (ks, t)" by fastforce
  have "fresh_puts put_link take_link lost_links id link_count_of ?ops Mapping.empty"
    by (simp add: link_count_of_def Mapping.lookup_default_empty)
  from remote_link_once [OF this r, of "(1, 3, 9)"] r show ?thesis by simp
qed

end
