(* ===== verification/Node_Laws.thy ===== *)
theory Node_Laws
  imports Link_Table Exits
begin

text \<open>
  What links do to processes: the loss of a node, the set-up of a monitor or a link at another node, what a
  frame from a guest can touch, and the dials a gossip frame starts.
\<close>

section \<open>Signals in a row\<close>

lemma fold_received:
  "REGISTRY (fold (\<lambda>x rt. deliver K (to x) (m x) rt) xs rt) q =
     map_option (fold (\<lambda>x. received K (m x)) (filter (\<lambda>x. to x = q) xs)) (REGISTRY rt q)"
  "tables (fold (\<lambda>x rt. deliver K (to x) (m x) rt) xs rt) = tables rt"
  by (induction xs arbitrary: rt) (auto simp: deliver_eq option.map_comp comp_def option.map_ident option.map_id)

lemma fold_signalled:
  "REGISTRY (fold (\<lambda>x rt. deliver_exit_to K (to x) (from x) reason rt) xs rt) q =
     map_option (fold (\<lambda>x. signalled K (from x) reason) (filter (\<lambda>x. to x = q) xs)) (REGISTRY rt q)"
  "tables (fold (\<lambda>x rt. deliver_exit_to K (to x) (from x) reason rt) xs rt) = tables rt"
  by (induction xs arbitrary: rt) (auto simp: deliver_exit_eq option.map_comp comp_def option.map_ident option.map_id)

lemma concat_of_one:
  assumes "distinct ks" "q \<notin> set ks \<Longrightarrow> f q = []"
  shows "filter (\<lambda>e. fst e = q) (concat (map (\<lambda>k. map (Pair k) (f k)) ks)) = map (Pair q) (f q)"
proof -
  have none: "filter (\<lambda>e. fst e = q) (concat (map (\<lambda>k. map (Pair k) (f k)) ks)) = []" if "q \<notin> set ks" for ks
    using that by (induction ks) (auto simp: filter_empty_conv)
  have "filter (\<lambda>e. fst e = q) (map (Pair k) (f k)) = (if k = q then map (Pair q) (f q) else [])" for k
    by (auto simp: filter_empty_conv filter_id_conv)
  with assms none show ?thesis by (induction ks) auto
qed

lemma lost_links_of:
  assumes "finite (Mapping.keys t)"
  shows "filter (\<lambda>e. fst e = q) (fst (lost_links node t)) = map (Pair q) (filter (\<lambda>p. fst p = node) (Mapping.lookup_default [] t q))"
  unfolding lost_links_def fst_conv using assms
  by (intro concat_of_one) (auto simp: Mapping.ordered_keys_def keys_lookup Mapping.lookup_default_def)

lemma lost_links_rest:
  "Mapping.lookup_default [] (snd (lost_links node t)) q = filter (\<lambda>p. fst p \<noteq> node) (Mapping.lookup_default [] t q)"
  by (simp add: lost_links_def Mapping.lookup_default_def Mapping.lookup_filter Mapping.lookup_map_values split: option.split)

section \<open>The loss of a node\<close>

lemma links_node_down_eq:
  assumes "finite (Mapping.keys (REMOTE_LINKS rt))"
  shows "REGISTRY (links_node_down K node rt) q = map_option (fold (\<lambda>p. signalled K (MPid node (snd p)) (MKeyword (NOCONNECTION K)))
      (filter (\<lambda>p. fst p = node) (Mapping.lookup_default [] (REMOTE_LINKS rt) q))) (REGISTRY rt q)"
    "REMOTE_LINKS (links_node_down K node rt) = snd (lost_links node (REMOTE_LINKS rt))" "LINKS (links_node_down K node rt) = LINKS rt"
    "MONITORS (links_node_down K node rt) = MONITORS rt" "PENDING_REMOTE (links_node_down K node rt) = PENDING_REMOTE rt"
    "wire (links_node_down K node rt) = wire rt"
proof -
  obtain es t where l: "lost_links node (REMOTE_LINKS rt) = (es, t)" by fastforce
  let ?f = "fold (\<lambda>x rt. deliver_exit_to K (fst x) (MPid node (snd (snd x))) (MKeyword (NOCONNECTION K)) rt) es (rt\<lparr>REMOTE_LINKS := t\<rparr>)"
  have d: "links_node_down K node rt = ?f" by (simp add: links_node_down_def l case_prod_unfold)
  have "fold f (map (Pair q) xs) = fold (\<lambda>p. f (q, p)) xs" for f :: "u64 \<times> symbol \<times> u64 \<Rightarrow> mailbox \<Rightarrow> mailbox" and xs
    by (induction xs) auto
  then show "REGISTRY (links_node_down K node rt) q = map_option (fold (\<lambda>p. signalled K (MPid node (snd p)) (MKeyword (NOCONNECTION K)))
      (filter (\<lambda>p. fst p = node) (Mapping.lookup_default [] (REMOTE_LINKS rt) q))) (REGISTRY rt q)"
    using lost_links_of [OF assms, of q node] by (simp add: d fold_signalled(1) l)
  have "tables ?f = tables (rt\<lparr>REMOTE_LINKS := t\<rparr>)" by (rule fold_signalled(2))
  from tables_fields [OF this] show "REMOTE_LINKS (links_node_down K node rt) = snd (lost_links node (REMOTE_LINKS rt))"
    "LINKS (links_node_down K node rt) = LINKS rt" "MONITORS (links_node_down K node rt) = MONITORS rt"
    "PENDING_REMOTE (links_node_down K node rt) = PENDING_REMOTE rt" "wire (links_node_down K node rt) = wire rt"
    by (simp_all add: d l)
qed

abbreviation held_at :: "symbol \<Rightarrow> watcher \<Rightarrow> bool" where
  "held_at node w \<equiv> (case w of Remote n _ _ \<Rightarrow> n = node | Local _ _ \<Rightarrow> False)"

lemma monitors_node_down_eq:
  "REGISTRY (monitors_node_down K node rt) q = map_option (fold (\<lambda>p. received K (noconnection_down K (target_node p) (target_pid p) (mref p)))
      (filter (\<lambda>p. watcher_pid p = q) (Mapping.lookup_default [] (PENDING_REMOTE rt) node))) (REGISTRY rt q)"
  "PENDING_REMOTE (monitors_node_down K node rt) = Mapping.delete node (PENDING_REMOTE rt)"
  "MONITORS (monitors_node_down K node rt) = retain_all (held_at node) (MONITORS rt)"
  "LINKS (monitors_node_down K node rt) = LINKS rt" "REMOTE_LINKS (monitors_node_down K node rt) = REMOTE_LINKS rt"
  "wire (monitors_node_down K node rt) = wire rt"
proof -
  let ?f = "fold (\<lambda>p rt. deliver K (watcher_pid p) (noconnection_down K (target_node p) (target_pid p) (mref p)) rt)
    (Mapping.lookup_default [] (PENDING_REMOTE rt) node) (rt\<lparr>PENDING_REMOTE := Mapping.delete node (PENDING_REMOTE rt)\<rparr>)"
  have d: "monitors_node_down K node rt = ?f\<lparr>MONITORS := retain_all (held_at node) (MONITORS ?f)\<rparr>"
    by (simp add: monitors_node_down_def pending_node_down_def Let_def)
  have t: "tables ?f = tables (rt\<lparr>PENDING_REMOTE := Mapping.delete node (PENDING_REMOTE rt)\<rparr>)" by (rule fold_received(2))
  show "REGISTRY (monitors_node_down K node rt) q = map_option (fold (\<lambda>p. received K (noconnection_down K (target_node p) (target_pid p) (mref p)))
      (filter (\<lambda>p. watcher_pid p = q) (Mapping.lookup_default [] (PENDING_REMOTE rt) node))) (REGISTRY rt q)"
    by (simp add: d fold_received(1))
  show "PENDING_REMOTE (monitors_node_down K node rt) = Mapping.delete node (PENDING_REMOTE rt)"
    "MONITORS (monitors_node_down K node rt) = retain_all (held_at node) (MONITORS rt)"
    "LINKS (monitors_node_down K node rt) = LINKS rt" "REMOTE_LINKS (monitors_node_down K node rt) = REMOTE_LINKS rt"
    "wire (monitors_node_down K node rt) = wire rt"
    using tables_fields [OF t] by (simp_all add: d)
qed

lemma fire_nodedown_registry:
  fixes nd :: node
  assumes "finite (Mapping.keys (REMOTE_LINKS (procs nd)))"
  shows "REGISTRY (procs (fire_nodedown K peer nd)) q = map_option
       (fold (\<lambda>p. signalled K (MPid peer (snd p)) (MKeyword (NOCONNECTION K)))
          (filter (\<lambda>p. fst p = peer) (Mapping.lookup_default [] (REMOTE_LINKS (procs nd)) q)) \<circ>
        fold (\<lambda>p. received K (noconnection_down K (target_node p) (target_pid p) (mref p)))
          (filter (\<lambda>p. watcher_pid p = q) (Mapping.lookup_default [] (PENDING_REMOTE (procs nd)) peer)) \<circ>
        received K (nodedown_msg K peer) ^^ count_list (Mapping.lookup_default [] (NODE_MONITORS nd) peer) q) (REGISTRY (procs nd) q)"
proof -
  let ?rt1 = "fold (\<lambda>w rt. deliver K w (nodedown_msg K peer) rt) (Mapping.lookup_default [] (NODE_MONITORS nd) peer) (procs nd)"
  let ?rt2 = "(monitors_node_down K peer ?rt1)\<lparr>wire := []\<rparr>"
  have e: "procs (fire_nodedown K peer nd) = (links_node_down K peer ?rt2)\<lparr>wire := []\<rparr>"
    by (simp add: fire_nodedown_def sever_couplings_def on_procs_procs Let_def)
  have t: "tables ?rt1 = tables (procs nd)" by (rule fold_received(2))
  note T = tables_fields [OF t]
  have f: "finite (Mapping.keys (REMOTE_LINKS ?rt2))" using assms by (simp add: monitors_node_down_eq T)
  have pow: "fold (\<lambda>x. h) xs = h ^^ length xs" for h :: "mailbox \<Rightarrow> mailbox" and xs :: "u64 list"
    by (induction xs) (auto simp: funpow_swap1 fun_eq_iff)
  have "length (filter (\<lambda>x. x = q) xs) = count_list xs q" for xs by (induction xs) auto
  then have "REGISTRY ?rt1 q = map_option (received K (nodedown_msg K peer) ^^ count_list (Mapping.lookup_default [] (NODE_MONITORS nd) peer) q) (REGISTRY (procs nd) q)"
    by (simp add: fold_received(1) pow)
  then show ?thesis
    by (simp add: e links_node_down_eq [OF f] monitors_node_down_eq T option.map_comp comp_def)
qed

text \<open>
  C38: the loss of a node. When a link goes down, every process here gets, in this order and nothing else, one
  \<open>[:nodedown]\<close> per watch of that node, one \<open>:noconnection\<close> down for each monitor it held there, and one
  \<open>:noconnection\<close> exit for each of its links there; and afterwards nothing here refers to a process of that
  node, and whatever refers to another node is as it was.
\<close>

theorem node_down_tells:
  fixes K :: setting and peer :: symbol and nd :: node
  defines "rt \<equiv> procs nd" and "rt' \<equiv> procs (fire_nodedown K peer nd)"
  assumes "finite (Mapping.keys (REMOTE_LINKS rt))" "mt_inv (MONITORS rt)"
  shows "REGISTRY rt' q = map_option
       (fold (\<lambda>p. signalled K (MPid peer (snd p)) (MKeyword (NOCONNECTION K))) (filter (\<lambda>p. fst p = peer) (Mapping.lookup_default [] (REMOTE_LINKS rt) q)) \<circ>
        fold (\<lambda>p. received K (noconnection_down K (target_node p) (target_pid p) (mref p)))
          (filter (\<lambda>p. watcher_pid p = q) (Mapping.lookup_default [] (PENDING_REMOTE rt) peer)) \<circ>
        received K (nodedown_msg K peer) ^^ count_list (Mapping.lookup_default [] (NODE_MONITORS nd) peer) q) (REGISTRY rt q) \<and>
     Mapping.lookup_default [] (PENDING_REMOTE rt') n = (if n = peer then [] else Mapping.lookup_default [] (PENDING_REMOTE rt) n) \<and>
     Mapping.lookup_default [] (REMOTE_LINKS rt') q = filter (\<lambda>p. fst p \<noteq> peer) (Mapping.lookup_default [] (REMOTE_LINKS rt) q) \<and>
     watches (MONITORS rt') q = filter (\<lambda>w. \<not> held_at peer w) (watches (MONITORS rt) q) \<and> linked rt' q = linked rt q"
proof -
  let ?rt1 = "fold (\<lambda>w rt. deliver K w (nodedown_msg K peer) rt) (Mapping.lookup_default [] (NODE_MONITORS nd) peer) rt"
  let ?rt2 = "(monitors_node_down K peer ?rt1)\<lparr>wire := []\<rparr>"
  have e: "rt' = (links_node_down K peer ?rt2)\<lparr>wire := []\<rparr>"
    by (simp add: rt'_def rt_def fire_nodedown_def sever_couplings_def on_procs_procs Let_def)
  have t: "tables ?rt1 = tables rt" by (rule fold_received(2))
  note T = tables_fields [OF t]
  have f: "finite (Mapping.keys (REMOTE_LINKS ?rt2))" using assms(3) by (simp add: monitors_node_down_eq T)
  show ?thesis
    using fire_nodedown_registry [of nd K peer q] assms(3)
    by (simp add: rt_def rt'_def) (simp add: e [unfolded rt_def rt'_def] links_node_down_eq [OF f [unfolded rt_def]] monitors_node_down_eq
        T [unfolded rt_def] lost_links_rest retain_all_spec(2) [OF assms(4) [unfolded rt_def]] linked_def default_delete)
qed

lemma node_down_tells_witness:
  "REGISTRY (procs (fire_nodedown example_setting 1 ((fresh_node ab_names)
      \<lparr>procs := snd (record_remote_link 1 1 7 (arrive 1 fresh_runtime)), NODE_MONITORS := Mapping.update 1 [1] Mapping.empty\<rparr>))) 1 =
   Some (signalled example_setting (MPid 1 7) (MKeyword 7) (received example_setting (nodedown_msg example_setting 1) new_mailbox))"
proof -
  let ?rt = "snd (record_remote_link 1 1 7 (arrive 1 fresh_runtime))"
  let ?nd = "(fresh_node ab_names)\<lparr>procs := ?rt, NODE_MONITORS := Mapping.update 1 [1] Mapping.empty\<rparr>"
  have rt: "REMOTE_LINKS ?rt = Mapping.update 1 [(1, 7)] Mapping.empty" "MONITORS ?rt = no_monitors"
    "PENDING_REMOTE ?rt = Mapping.empty" "REGISTRY ?rt 1 = Some new_mailbox"
    by (simp_all add: record_remote_link_def put_link_def fresh_runtime_def Let_def Mapping.lookup_default_empty)
  have h: "finite (Mapping.keys (REMOTE_LINKS (procs ?nd)))" "mt_inv (MONITORS (procs ?nd))" by (simp_all add: rt mt_inv_empty)
  from node_down_tells [OF h, of example_setting 1 1 0] show ?thesis
    by (simp add: rt Mapping.lookup_default_update' Mapping.lookup_default_empty)
qed

section \<open>What a guest's frame can touch\<close>

text \<open>A mailbox that may have received messages, and nothing else has happened to it.\<close>

definition spared :: "mailbox option \<Rightarrow> mailbox option \<Rightarrow> bool" where
  "spared old new \<longleftrightarrow> (case (old, new) of
     (Some mb, Some mb') \<Rightarrow> kill (state mb') = kill (state mb) \<and> kill_hard (state mb') = kill_hard (state mb) \<and>
       kill_pending mb' = kill_pending mb \<and> trap_exit mb' = trap_exit mb
   | (None, None) \<Rightarrow> True | _ \<Rightarrow> False)"

lemma spared_same [simp]: "spared m m"
  by (simp add: spared_def split: option.split)

lemma note_unqueued_kill [simp]:
  "kill (note_unqueued e st) = kill st" "kill_hard (note_unqueued e st) = kill_hard st"
  "kill (note_queued e st) = kill st" "kill_hard (note_queued e st) = kill_hard st"
  by (auto simp: note_unqueued_def note_queued_def split: lane.split option.split)

lemma push_kill [simp]: "kill (push e st) = kill st" "kill_hard (push e st) = kill_hard st"
proof -
  have r: "kill st' = kill st \<and> kill_hard st' = kill_hard st" if "remove_at i st = Some (x, st')" for i x st st'
    using that by (auto simp: remove_at_def vec_remove_def split: bind_splits if_splits)
  have d: "kill (drop_superseded k st) = kill st \<and> kill_hard (drop_superseded k st) = kill_hard st" for k st
    by (auto simp: drop_superseded_def Let_def r split: option.split prod.split)
  show "kill (push e st) = kill st" "kill_hard (push e st) = kill_hard st"
    using d by (auto simp: push_def Let_def split: lane.split)
qed

lemma delivery_spares: "spared (Some mb) (Some (snd (push_and_wake t og env mb)))"
  by (auto simp: spared_def push_and_wake_def alias_dropped_def Let_def note_mailbox_bound_def take_wake_def wake_with_def
      split: prod.split option.split payload.split)

lemma envelope_spares:
  "REGISTRY (deliver_lane K p m l rt) q = (if q = p then map_option (\<lambda>mb. snd (push_and_wake (now K) (delivery_origin K)
      ((plain m)\<lparr>in_lane := l\<rparr>) mb)) (REGISTRY rt q) else REGISTRY rt q)"
  "tables (deliver_lane K p m l rt) = tables rt"
  by (auto simp: deliver_lane_def deliver_in_lane_def deliver_envelope_def tables_def split: option.split prod.split)

lemma add_remote_monitor:
  "REGISTRY (add_monitor K x (Remote n p r) rt) = REGISTRY rt" "LINKS (add_monitor K x (Remote n p r) rt) = LINKS rt"
  "REMOTE_LINKS (add_monitor K x (Remote n p r) rt) = REMOTE_LINKS rt"
  by (simp_all add: add_monitor_def fire_down_def)

lemma remote_down_eq:
  "REGISTRY (deliver_remote_down K peer w r target reason rt) q =
     (if q = w \<and> fst (take_pending peer w r (PENDING_REMOTE rt))
      then map_option (received K (down_message K (MPid peer target) r reason)) (REGISTRY rt q) else REGISTRY rt q)"
  "LINKS (deliver_remote_down K peer w r target reason rt) = LINKS rt"
  "REMOTE_LINKS (deliver_remote_down K peer w r target reason rt) = REMOTE_LINKS rt"
  by (auto simp: deliver_remote_down_def deliver_eq tables_fields [OF deliver_eq(2)] split: prod.split bool.split)

text \<open>
  C30: a guest's frame touches what it may. Whatever a guest sends, it starts no dial and changes no link, name
  or node watch; it kills, asks to die and links no process; and the mailbox of a process changes only when the
  frame is a message to it, a process the guest was told of or one registered under a granted name, or the
  answer to a monitor it holds on that link.
\<close>

theorem guest_isolated:
  assumes "GUESTS nd i = Some (told K gr claim name outs)" "handle_inbound_frame mesh K peer i fr nd = (dials, nd')"
  shows "dials = [] \<and> NODES nd' = NODES nd \<and> GUESTS nd' = GUESTS nd \<and> NAME_TABLE nd' = NAME_TABLE nd \<and> NODE_MONITORS nd' = NODE_MONITORS nd \<and>
    LINKS (procs nd') = LINKS (procs nd) \<and> REMOTE_LINKS (procs nd') = REMOTE_LINKS (procs nd) \<and>
    spared (REGISTRY (procs nd) q) (REGISTRY (procs nd') q) \<and>
    (REGISTRY (procs nd') q \<noteq> REGISTRY (procs nd) q \<longrightarrow>
      (\<exists>m lane. fr = Send (Pid q) m lane \<and> told_pid K outs (NONODE K) q) \<or>
      (\<exists>n m lane. fr = Send (Name n) m lane \<and> n \<in> names gr \<and> get_name n (NAME_TABLE nd) = Some q) \<or>
      (\<exists>r target reason. fr = Down q r target reason \<and> fst (take_pending peer q r (PENDING_REMOTE (procs nd)))))"
proof (cases "admit K (GUESTS nd i) fr")
  case False
  then show ?thesis using assms by (simp add: handle_inbound_frame_def)
next
  case True
  let ?g = "told K gr claim name outs"
  have told: "reaches_pid K p ?g \<Longrightarrow> told_pid K outs (NONODE K) p" for p
    using told_key [of K "NONODE K" p] by (simp add: reaches_pid_def pid_key_def)
  note fields = told_fields [of K gr claim name outs]
  have down: "spared (REGISTRY rt q) (REGISTRY (deliver_remote_down K peer w r target reason rt) q)" for rt w r target reason
    using delivery_spares [of _ "now K" "delivery_origin K"] by (cases "REGISTRY rt q") (auto simp: remote_down_eq(1) received_def)
  show ?thesis
  proof (cases fr)
    case (Send t m l)
    have a: "reaches K ?g t" using True assms(1) Send by (simp add: admit_def)
    let ?K = "K\<lparr>delivery_origin := FromPeer peer True\<rparr>" and ?m = "rename_pids (claimed ?g) (link_name ?g) m"
    have e: "dials = []" "nd' = deliver_inbound ?K t ?m l nd"
      using assms True Send by (simp_all add: handle_inbound_frame_def translate_inbound_def)
    show ?thesis
    proof (cases "resolve t nd")
      case None
      then show ?thesis using e by (simp add: deliver_inbound_def)
    next
      case (Some p)
      have n: "nd' = nd\<lparr>procs := deliver_lane ?K p ?m l (procs nd)\<rparr>" using e Some by (simp add: deliver_inbound_def)
      have "spared (REGISTRY (procs nd) q) (REGISTRY (procs nd') q)"
        using delivery_spares by (cases "REGISTRY (procs nd) q") (auto simp: n envelope_spares)
      moreover have "REGISTRY (procs nd') q \<noteq> REGISTRY (procs nd) q \<Longrightarrow> q = p" by (auto simp: n envelope_spares split: if_splits)
      ultimately show ?thesis using e(1) n a Some told fields Send tables_fields [OF envelope_spares(2), of ?K p ?m l "procs nd"]
        by (cases t) (auto simp: resolve_def)
    qed
  qed (use assms True down in \<open>auto simp: handle_inbound_frame_def translate_inbound_def admit_def on_procs_procs add_remote_monitor remote_down_eq(2,3)\<close>,
       use assms True in \<open>auto simp: remote_down_eq split: if_splits\<close>)
qed

text \<open>A guest's standing, and what its processes are, in one small node: link 5 is a guest's, told of process 1.\<close>

abbreviation host_of_guest :: node where
  "host_of_guest \<equiv> (fresh_node ab_names)\<lparr>procs := arrive 2 (arrive 1 fresh_runtime),
     GUESTS := (\<lambda>_. None)(5 \<mapsto> told example_setting \<lparr>cookie = [], names = {4}, as_name = None\<rparr> 1 2 [MPid 0 1])\<rparr>"

lemma guest_isolated_witness:
  "fst (handle_inbound_frame True example_setting 2 5 (Send (Pid 1) MNil Normal) host_of_guest) = [] \<and>
   REGISTRY (procs (snd (handle_inbound_frame True example_setting 2 5 (Send (Pid 1) MNil Normal) host_of_guest))) 2 = Some new_mailbox"
proof -
  let ?fr = "Send (Pid 1) MNil Normal"
  have g: "GUESTS host_of_guest 5 = Some (told example_setting \<lparr>cookie = [], names = {4}, as_name = None\<rparr> 1 2 [MPid 0 1])" by simp
  obtain dials nd' where h: "handle_inbound_frame True example_setting 2 5 ?fr host_of_guest = (dials, nd')" by fastforce
  from guest_isolated [OF g h, of 2] h show ?thesis by auto
qed

section \<open>A coupling is made or answered\<close>

lemma send_frame_True:
  assumes "send_frame node fr nd = (True, nd')" "\<And>f. frame_message_mut f fr = fr"
  shows "\<exists>c bytes. Mapping.lookup (NODES nd) node = Some c \<and> encode_payload (symbols nd) fr = Inr bytes \<and>
    nd' = nd\<lparr>ENDS := (ENDS nd)(conn_id c := (ENDS nd (conn_id c))\<lparr>tx := tx (ENDS nd (conn_id c)) @ [OutFrame bytes]\<rparr>)\<rparr>"
  using assms(1)
  by (auto simp: send_frame_def at_end_def enqueue_to_def try_send_def translate_outbound_def assms(2) Let_def
      split: option.splits sum.splits if_splits)

lemma on_procs_silent: "wire (f (procs nd)) = [] \<Longrightarrow> on_procs f nd = nd\<lparr>procs := f (procs nd)\<rparr>"
  by (simp add: on_procs_def with_procs_def split: prod.split)

text \<open>
  C39: a monitor of a process at another node is made or answered. Either its frame is the last of that link's
  queue and the monitor is on record, so that the peer's answer or the loss of the node will resolve it, and no
  process has been told anything; or it is not on record and its holder alone has got one \<open>:noconnection\<close> down.
\<close>

theorem monitor_answered:
  fixes K :: setting and node :: symbol and w r target :: u64 and nd :: node
  assumes "pending_inv (PENDING_REMOTE (procs nd))" "pending_count (PENDING_REMOTE (procs nd)) (node, w, r) = 0" "wire (procs nd) = []"
  defines "nd' \<equiv> monitor_remote K node target w r nd"
  shows "(\<exists>c bytes. Mapping.lookup (NODES nd) node = Some c \<and> encode_payload (symbols nd) (Monitor w target r) = Inr bytes \<and>
        tx (ENDS nd' (conn_id c)) = tx (ENDS nd (conn_id c)) @ [OutFrame bytes] \<and>
        pending_count (PENDING_REMOTE (procs nd')) (node, w, r) = 1 \<and> REGISTRY (procs nd') = REGISTRY (procs nd)) \<or>
    pending_count (PENDING_REMOTE (procs nd')) (node, w, r) = 0 \<and>
      REGISTRY (procs nd') q = (if q = w then map_option (received K (noconnection_down K node target r)) (REGISTRY (procs nd) q)
        else REGISTRY (procs nd) q)"
proof -
  let ?e = "\<lparr>watcher_pid = w, mref = r, target_node = node, target_pid = target\<rparr>"
  let ?t = "record_pending_remote ?e (PENDING_REMOTE (procs nd))"
  let ?nd = "nd\<lparr>procs := (procs nd)\<lparr>PENDING_REMOTE := ?t\<rparr>\<rparr>"
  have id: "pending_id ?e = (node, w, r)" by (simp add: pending_id_def)
  have t: "pending_inv ?t" "pending_count ?t (node, w, r) = 1"
    using pending_claims.put_inv [of "PENDING_REMOTE (procs nd)" ?e] pending_claims.put_count [of "PENDING_REMOTE (procs nd)" ?e "(node, w, r)"]
      assms(1,2) by (simp_all add: id)
  have d: "fst (take_pending node w r ?t)" "pending_count (snd (take_pending node w r ?t)) (node, w, r) = 0"
    using pending_claims.claim_count [OF t(1), of "(node, w, r)"] pending_claims.claimed [OF t(1), of "(node, w, r)" "(node, w, r)"] t(2)
    by (simp_all add: claim_pending_def)
  have on: "on_procs (\<lambda>rt. rt\<lparr>PENDING_REMOTE := record_pending_remote ?e (PENDING_REMOTE rt)\<rparr>) nd = ?nd"
    using assms(3) by (simp add: on_procs_silent)
  obtain sent nd1 where s: "send_frame node (Monitor w target r) ?nd = (sent, nd1)" by fastforce
  have n: "nd' = (if sent then nd1 else on_procs (fire_noconnection_if_pending K node target w r) nd1)"
    by (simp add: nd'_def monitor_remote_def on s)
  show ?thesis
  proof (cases sent)
    case True
    then have "send_frame node (Monitor w target r) ?nd = (True, nd1)" using s by simp
    from send_frame_True [OF this] obtain c bytes where c: "Mapping.lookup (NODES nd) node = Some c"
      "encode_payload (symbols nd) (Monitor w target r) = Inr bytes"
      "nd1 = ?nd\<lparr>ENDS := (ENDS nd)(conn_id c := (ENDS nd (conn_id c))\<lparr>tx := tx (ENDS nd (conn_id c)) @ [OutFrame bytes]\<rparr>)\<rparr>"
      by auto
    then show ?thesis using n True t(2) by auto
  next
    case False
    have "procs nd1 = procs ?nd" using send_fields(6) [of node "Monitor w target r" ?nd] s by simp
    moreover obtain t' where "take_pending node w r ?t = (True, t')" using d(1) by (metis prod.collapse)
    ultimately show ?thesis
      using n False d(2) by (simp add: on_procs_procs fire_noconnection_if_pending_def deliver_eq tables_fields [OF deliver_eq(2)])
  qed
qed

lemma monitor_answered_witness:
  "REGISTRY (procs (monitor_remote example_setting 1 7 1 9 ((fresh_node ab_names)\<lparr>procs := arrive 1 fresh_runtime\<rparr>))) 1 =
     Some (received example_setting (noconnection_down example_setting 1 7 9) new_mailbox)"
proof -
  let ?nd = "(fresh_node ab_names)\<lparr>procs := arrive 1 fresh_runtime\<rparr>"
  have "pending_inv (PENDING_REMOTE (procs ?nd))" "pending_count (PENDING_REMOTE (procs ?nd)) (1, 1, 9) = 0" "wire (procs ?nd) = []"
    by (simp_all add: fresh_runtime_def pending_inv_def pending_count_def Mapping.lookup_default_empty)
  from monitor_answered [OF this, of 7 example_setting 1] show ?thesis by (simp add: fresh_node_def)
qed

section \<open>Watching a node\<close>











end
