(* ===== verification/Link_Queue.thy ===== *)
theory Link_Queue
  imports Nodes
begin

text \<open>
  The writer queue of a link against its specification: a queue that holds the frames themselves, in which a
  \<open>send-latest\<close> blanks the unwritten frame of its slot. Sends that find the queue full, the writer thread's
  failed writes and its end are part of both.
\<close>

text \<open>
  A turn of the writer thread: it takes the next item of its queue, and \<open>ok\<close> says whether sealing and
  writing the payload it claims succeeds. The result is what it has written, if anything. The code seals the
  frames queued behind the first into one batch and writes the batch at once; here each frame is a turn, in the
  same order.
\<close>

definition writer_step :: "bool \<Rightarrow> writer \<Rightarrow> u8 list option \<times> writer" where
  "writer_step ok w =
     (if writer_gone w then (None, w)
      else case tx w of
        [] \<Rightarrow> (None, w)
      | item # items \<Rightarrow> (case claim_outbound item (w\<lparr>tx := items\<rparr>) of
          (None, w) \<Rightarrow> (None, w)
        | (Some payload, w) \<Rightarrow> if ok then (Some payload, w) else (None, (shutdown w)\<lparr>writer_gone := True\<rparr>)))"

datatype wop = SendFrame "u8 list" | SendLatest rstring "u8 list" | Write bool | Shut | Elsewhere

datatype wout = Accepted bool | Wrote "u8 list option" | Quiet

text \<open>The counter is shared with every other link, which is \<open>Elsewhere\<close>; \<open>Shut\<close> is any other thread's shutdown of the socket.\<close>

fun wstep :: "wop \<Rightarrow> nat \<times> writer \<Rightarrow> wout \<times> nat \<times> writer" where
  "wstep (SendFrame b) (n, w) = (case enqueue_to b w of (ok, w) \<Rightarrow> (Accepted ok, n, w))"
| "wstep (SendLatest s b) (n, w) = (case enqueue_latest n s b w of ((n, ok), w) \<Rightarrow> (Accepted ok, n, w))"
| "wstep (Write ok) (n, w) = (case writer_step ok w of (out, w) \<Rightarrow> (Wrote out, n, w))"
| "wstep Shut (n, w) = (Quiet, n, shutdown w)"
| "wstep Elsewhere (n, w) = (Quiet, n + 1, w)"

fun wrun :: "wop list \<Rightarrow> nat \<times> writer \<Rightarrow> wout list \<times> nat \<times> writer" where
  "wrun [] st = ([], st)"
| "wrun (a # as) st = (case wstep a st of (out, st) \<Rightarrow> (case wrun as st of (outs, st) \<Rightarrow> (out # outs, st)))"

section \<open>The specification\<close>

text \<open>A place of the queue: a frame with its slot, if it is a \<open>send-latest\<close>, or blank once it is replaced.\<close>

type_synonym place = "(rstring option \<times> u8 list) option"

record wspec =
  places :: "place list"
  gone :: bool
  closed :: bool

definition blank :: "rstring \<Rightarrow> place \<Rightarrow> place" where
  "blank s x = (case x of Some (k, b) \<Rightarrow> if k = Some s then None else x | None \<Rightarrow> None)"

text \<open>A send is refused when the writer is gone or the queue is full, and then the link is closed.\<close>

definition spec_send :: "place \<Rightarrow> wspec \<Rightarrow> wout \<times> wspec" where
  "spec_send x S =
     (if gone S \<or> WRITER_QUEUE_CAP \<le> length (places S) then (Accepted False, S\<lparr>closed := True\<rparr>)
      else (Accepted True, S\<lparr>places := places S @ [x]\<rparr>))"

fun spec_step :: "wop \<Rightarrow> wspec \<Rightarrow> wout \<times> wspec" where
  "spec_step (SendFrame b) S = spec_send (Some (None, b)) S"
| "spec_step (SendLatest s b) S = spec_send (Some (Some s, b)) (S\<lparr>places := map (blank s) (places S)\<rparr>)"
| "spec_step (Write ok) S =
     (if gone S then (Wrote None, S)
      else case places S of
        [] \<Rightarrow> (Wrote None, S)
      | None # xs \<Rightarrow> (Wrote None, S\<lparr>places := xs\<rparr>)
      | Some (k, b) # xs \<Rightarrow>
          if ok then (Wrote (Some b), S\<lparr>places := xs\<rparr>) else (Wrote None, \<lparr>places = xs, gone = True, closed = True\<rparr>))"
| "spec_step Shut S = (Quiet, S\<lparr>closed := True\<rparr>)"
| "spec_step Elsewhere S = (Quiet, S)"

fun spec_run :: "wop list \<Rightarrow> wspec \<Rightarrow> wout list \<times> wspec" where
  "spec_run [] S = ([], S)"
| "spec_run (a # as) S = (case spec_step a S of (out, S) \<Rightarrow> (case spec_run as S of (outs, S) \<Rightarrow> (out # outs, S)))"

section \<open>The abstraction\<close>

fun live :: "(rstring, nat \<times> u8 list) mapping \<Rightarrow> outbound \<Rightarrow> place" where
  "live m (OutFrame b) = Some (None, b)"
| "live m (OutLatest s g) =
     (case Mapping.lookup m s of Some (h, b) \<Rightarrow> if h = g then Some (Some s, b) else None | None \<Rightarrow> None)"

definition queued :: "writer \<Rightarrow> wspec" where
  "queued w = \<lparr>places = map (live (latest w)) (tx w), gone = writer_gone w, closed = shut w\<rparr>"

text \<open>Tickets are distinct and older than the counter, and so are the tickets of the waiting payloads.\<close>

definition tickets :: "writer \<Rightarrow> nat list" where
  "tickets w = concat (map (\<lambda>x. case x of OutLatest s g \<Rightarrow> [g] | OutFrame b \<Rightarrow> []) (tx w))"

definition queue_ok :: "nat \<Rightarrow> writer \<Rightarrow> bool" where
  "queue_ok n w \<longleftrightarrow> distinct (tickets w) \<and> (\<forall>g \<in> set (tickets w). g < n)"

lemma tickets_mem: "g \<in> set (tickets w) \<longleftrightarrow> (\<exists>s. OutLatest s g \<in> set (tx w))"
  by (force simp: tickets_def split: outbound.splits)

lemma live_update:
  "(\<And>t g. x = OutLatest t g \<Longrightarrow> g < n) \<Longrightarrow> live (Mapping.update s (n, b) m) x = blank s (live m x)"
  by (cases x) (auto simp: blank_def Mapping.lookup_update' split: option.split)

lemma live_delete:
  "x \<noteq> OutLatest s g \<Longrightarrow> Mapping.lookup m s = Some (g, b) \<Longrightarrow> live (Mapping.delete s m) x = live m x"
  by (cases x) (auto simp: lookup_gone split: option.split)

lemma enqueue_to_spec:
  "queue_ok n w \<Longrightarrow> enqueue_to b w = (ok, w') \<Longrightarrow>
   queue_ok n w' \<and> spec_step (SendFrame b) (queued w) = (Accepted ok, queued w')"
  by (auto simp: enqueue_to_def try_send_def shutdown_def queue_ok_def tickets_def queued_def spec_send_def split: if_splits)

lemma enqueue_latest_spec:
  assumes "queue_ok n w" "enqueue_latest n s b w = ((n', ok), w')"
  shows "queue_ok n' w' \<and> spec_step (SendLatest s b) (queued w) = (Accepted ok, queued w')"
proof -
  have old: "x = OutLatest t g \<Longrightarrow> x \<in> set (tx w) \<Longrightarrow> g < n" for x t g
    using assms(1) tickets_mem [of g w] by (auto simp: queue_ok_def)
  have m: "map (live (Mapping.update s (n, b) (latest w))) (tx w) = map (blank s) (map (live (latest w)) (tx w))"
    unfolding map_map by (intro map_cong refl) (use old in \<open>auto intro!: live_update\<close>)
  moreover have "OutLatest t n \<notin> set (tx w)" for t using old by blast
  ultimately show ?thesis
    using assms unfolding queued_def
    by (auto simp: enqueue_latest_def try_send_def shutdown_def queue_ok_def tickets_def spec_send_def Let_def
        Mapping.lookup_update' less_Suc_eq simp del: map_map map_eq_conv split: if_splits)
qed

lemma claim_spec:
  assumes "queue_ok n w" "tx w = item # items" "claim_outbound item (w\<lparr>tx := items\<rparr>) = (out, w')"
  shows "tx w' = items" "writer_gone w' = writer_gone w" "shut w' = shut w" "map_option snd (live (latest w) item) = out"
    "map (live (latest w')) items = map (live (latest w)) items"
proof -
  show "tx w' = items" "writer_gone w' = writer_gone w" "shut w' = shut w" "map_option snd (live (latest w) item) = out"
    using assms(3) by (auto simp: claim_outbound_def split: outbound.splits option.splits if_splits)
  have fresh: "x \<noteq> OutLatest t g" if "item = OutLatest s g" "x \<in> set items" for x s t g
    using assms(1,2) that by (force simp: queue_ok_def tickets_def)
  have "latest w' = latest w \<or> (\<exists>s g b. item = OutLatest s g \<and> Mapping.lookup (latest w) s = Some (g, b) \<and>
      latest w' = Mapping.delete s (latest w))"
    using assms(3) by (auto simp: claim_outbound_def split: outbound.splits option.splits if_splits)
  then show "map (live (latest w')) items = map (live (latest w)) items"
  proof
    assume "\<exists>s g b. item = OutLatest s g \<and> Mapping.lookup (latest w) s = Some (g, b) \<and> latest w' = Mapping.delete s (latest w)"
    then obtain s g b where i: "item = OutLatest s g" "Mapping.lookup (latest w) s = Some (g, b)"
      "latest w' = Mapping.delete s (latest w)" by blast
    show ?thesis unfolding i(3) by (intro map_cong refl live_delete [OF _ i(2)] fresh [OF i(1)])
  qed simp
qed

lemma writer_step_spec:
  assumes "queue_ok n w" "writer_step ok w = (out, w')"
  shows "queue_ok n w' \<and> spec_step (Write ok) (queued w) = (Wrote out, queued w')"
proof (cases "writer_gone w \<or> tx w = []")
  case True
  then show ?thesis using assms by (auto simp: writer_step_def queued_def)
next
  case False
  then obtain item items where tx: "tx w = item # items" by (cases "tx w") auto
  obtain p v where c: "claim_outbound item (w\<lparr>tx := items\<rparr>) = (p, v)" by fastforce
  note s = claim_spec [OF assms(1) tx c]
  have w': "(out, w') = (if p = None \<or> ok then (p, v) else (None, (shutdown v)\<lparr>writer_gone := True\<rparr>))"
    using assms(2) False tx c by (cases p) (auto simp: writer_step_def)
  have "tx w' = items" using w' s(1) by (auto simp: shutdown_def split: if_splits)
  then have "queue_ok n w'" using assms(1) tx by (auto simp: queue_ok_def tickets_def)
  moreover have "spec_step (Write ok) (queued w) = (Wrote out, queued w')"
    using w' s False by (cases "live (latest w) item") (auto simp: queued_def tx shutdown_def split: if_splits)
  ultimately show ?thesis by simp
qed

lemma wstep_spec:
  "queue_ok n w \<Longrightarrow> wstep a (n, w) = (out, n', w') \<Longrightarrow> queue_ok n' w' \<and> spec_step a (queued w) = (out, queued w')"
proof (cases a)
  case (SendFrame b)
  assume "queue_ok n w" "wstep a (n, w) = (out, n', w')"
  with SendFrame enqueue_to_spec [of n w b] show ?thesis by (auto split: prod.splits)
next
  case (SendLatest s b)
  assume "queue_ok n w" "wstep a (n, w) = (out, n', w')"
  with SendLatest enqueue_latest_spec [of n w s b] show ?thesis by (auto split: prod.splits)
next
  case (Write ok)
  assume "queue_ok n w" "wstep a (n, w) = (out, n', w')"
  with Write writer_step_spec [of n w ok] show ?thesis by (auto split: prod.splits)
qed (auto simp: queue_ok_def queued_def shutdown_def tickets_def less_Suc_eq)

lemma wrun_spec:
  "queue_ok n w \<Longrightarrow> wrun as (n, w) = (outs, n', w') \<Longrightarrow> queue_ok n' w' \<and> spec_run as (queued w) = (outs, queued w')"
proof (induction as arbitrary: n w outs)
  case (Cons a as)
  obtain out n1 w1 where s: "wstep a (n, w) = (out, n1, w1)" by (metis prod_cases3)
  obtain outs1 where "outs = out # outs1" "wrun as (n1, w1) = (outs1, n', w')"
    using Cons.prems(2) s by (auto split: prod.splits)
  with wstep_spec [OF Cons.prems(1) s] Cons.IH [of n1 w1 outs1] show ?case by simp
qed simp

lemma queue_ok_new: "queue_ok n new_writer"
  by (simp add: queue_ok_def new_writer_def tickets_def)

section \<open>What the specification promises\<close>

definition written :: "wout list \<Rightarrow> u8 list list" where
  "written outs = concat (map (\<lambda>out. case out of Wrote (Some b) \<Rightarrow> [b] | _ \<Rightarrow> []) outs)"

definition frames_in :: "place list \<Rightarrow> u8 list list" where
  "frames_in xs = concat (map (\<lambda>x. case x of Some (k, b) \<Rightarrow> [b] | None \<Rightarrow> []) xs)"

lemma spec_drains:
  "\<not> gone S \<Longrightarrow> length (places S) \<le> k \<Longrightarrow> written (fst (spec_run (replicate k (Write True)) S)) = frames_in (places S)"
proof (induction k arbitrary: S)
  case 0
  then show ?case by (simp add: written_def frames_in_def)
next
  case (Suc k)
  obtain out T where s: "spec_step (Write True) S = (out, T)" by fastforce
  then have T: "\<not> gone T" "length (places T) \<le> k" "written [out] @ frames_in (places T) = frames_in (places S)"
    using Suc.prems by (auto simp: written_def frames_in_def split: list.splits option.splits)
  obtain outs U where r: "spec_run (replicate k (Write True)) T = (outs, U)" by fastforce
  have "written (out # outs) = written [out] @ written outs" by (simp add: written_def)
  then show ?case using Suc.IH [OF T(1,2)] T(3) r s by (simp del: spec_step.simps)
qed

lemma spec_closed:
  "spec_run as S = (outs, T) \<Longrightarrow> (closed S \<longrightarrow> closed T) \<and> (Accepted False \<in> set outs \<longrightarrow> closed T)"
proof (induction as arbitrary: S outs)
  case (Cons a as)
  obtain out U where s: "spec_step a S = (out, U)" by fastforce
  then have "closed S \<longrightarrow> closed U" "out = Accepted False \<longrightarrow> closed U"
    by (cases a; auto simp: spec_send_def split: if_splits list.splits option.splits)+
  moreover obtain outs1 where "outs = out # outs1" "spec_run as U = (outs1, T)"
    using Cons.prems s by (auto split: prod.splits)
  ultimately show ?case using Cons.IH [of U outs1] by auto
qed simp

text \<open>
  C35: what a link writes. Whatever is sent over a link, whenever its writer runs, whichever of its writes fail
  and whoever shuts its socket, every answer to a send and every write is that of a queue of the frames
  themselves: a \<open>send-latest\<close> blanks the unwritten frame of its slot and goes to the back, a turn of the writer
  takes the place at the front and writes its frame unless it is blank, and a send is refused exactly when the
  writer is gone or the queue has no place left, which closes the link (a refused \<open>send-latest\<close> has still blanked
  the older frame). While its writer lives, a link whose queue is drained has written every frame left, in order.
\<close>

theorem link_queue_refines:
  assumes "wrun as (n, new_writer) = (outs, n', w)"
  shows "\<exists>S. spec_run as \<lparr>places = [], gone = False, closed = False\<rparr> = (outs, S) \<and>
    gone S = writer_gone w \<and> closed S = shut w \<and> length (places S) = length (tx w) \<and>
    (Accepted False \<in> set outs \<longrightarrow> shut w) \<and>
    (\<not> writer_gone w \<longrightarrow> written (fst (wrun (replicate (length (tx w)) (Write True)) (n', w))) = frames_in (places S))"
proof -
  have w: "queue_ok n' w" "spec_run as \<lparr>places = [], gone = False, closed = False\<rparr> = (outs, queued w)"
    using wrun_spec [OF queue_ok_new assms] by (simp_all add: queued_def new_writer_def)
  obtain outs2 n2 w2 where r: "wrun (replicate (length (tx w)) (Write True)) (n', w) = (outs2, n2, w2)" by (metis prod_cases3)
  have "written outs2 = frames_in (places (queued w))" if "\<not> writer_gone w"
    using spec_drains [of "queued w" "length (tx w)"] wrun_spec [OF w(1) r] that by (simp add: queued_def)
  with w(2) spec_closed [OF w(2)] r show ?thesis by (auto simp: queued_def)
qed

lemma link_queue_refines_witness:
  "\<exists>n w. wrun [SendLatest [1] [7], SendFrame [8], SendLatest [1] [9], Write True, Write True, Write False, SendFrame [5]] (0, new_writer) =
     ([Accepted True, Accepted True, Accepted True, Wrote None, Wrote (Some [8]), Wrote None, Accepted False], n, w) \<and> shut w"
proof -
  let ?ops = "[SendLatest [1] [7], SendFrame [8], SendLatest [1] [9], Write True, Write True, Write False, SendFrame [5]]"
  let ?outs = "[Accepted True, Accepted True, Accepted True, Wrote None, Wrote (Some [8]), Wrote None, Accepted False]"
  have e: "fst (wrun ?ops (0, new_writer)) = ?outs"
    by (simp add: new_writer_def enqueue_latest_def enqueue_to_def try_send_def writer_step_def claim_outbound_def
        shutdown_def WRITER_QUEUE_CAP_def Let_def Mapping.lookup_update' Mapping.lookup_delete_neq)
  obtain n w where r: "wrun ?ops (0, new_writer) = (?outs, n, w)"
    using e by (metis fst_conv prod_cases3)
  from link_queue_refines [OF r] r show ?thesis by auto
qed

end
