(* ===== verification/Spec2Isabelle.thy ===== *)
theory Spec2Isabelle
  imports Value_Maps Number_Order Read_Forms Wire_Safety Selective_Receive Node_Laws Link_Queue
begin

text \<open>
  Brood is a Lisp implemented in Rust: a reader and printer, a heap of tagged values per process, a compiler and
  virtual machine, light processes with mailboxes, links and monitors, and nodes that talk over framed links.
  This development models the core of the runtime under \<open>src/crates/lisp/src\<close> and proves what the rest of the
  system relies on. Every definition is a translation of the Rust item its theory names.

  How the parts interact. Text becomes values through the reader and values text through the printer. Values are
  words whose payload is a handle into the slabs of a heap; names are interned once per runtime. Maps and sets
  are CHAMP tries over those slabs, keyed by the runtime's equality and hash. A process owns a mailbox: senders
  push envelopes, the process scans them with its matcher. Links and monitors tell processes of each other's
  deaths by envelopes, and by frames when the other is at another node. A node keeps a table of peers, each with
  a writer queue; frames are encoded to bytes, decoded at the peer, filtered there when the peer is a guest, and
  delivered.

  Theories, in the order the code is layered, with the file each models:

  \<^item> \<open>Brood_Prelude\<close>: word types, panics as \<open>None\<close>, \<open>Vec\<close> operations, packed slot arrays.
  \<^item> \<open>Handles\<close>, \<open>Interner\<close> (\<open>core/value.rs\<close>): the bit layout of a handle and its equality; the interner's
    global tables, per-thread caches and hashes of spellings.
  \<^item> \<open>Champ_Trie\<close>: the abstract trie. \<open>Champ_Heap\<close> (\<open>core/map_champ.rs\<close>, \<open>core/heap/map_ops.rs\<close>): the operations
    on nodes in slabs. \<open>Champ_Refine\<close>, \<open>Champ_Assoc\<close>, \<open>Champ_Dissoc\<close>, \<open>Champ_Map\<close>, \<open>Champ_Equal\<close>: those operations
    refine the abstract ones, with which handles they leave alone. \<open>Champ_Keys\<close>: the interface \<open>key_laws\<close> a key
    type owes the maps.
  \<^item> \<open>Values\<close>, \<open>Value_Laws\<close>, \<open>Value_Maps\<close> (\<open>core/heap/equality.rs\<close>, \<open>core/heap.rs\<close>): values, ranges, equality and
    hashing; that they meet \<open>key_laws\<close>, so the maps' laws hold of the runtime's maps. \<open>Number_Order\<close>: the order of
    integers, floats, decimals and ratios, against the exact values they denote.
  \<^item> \<open>Scanner\<close>, \<open>Atom\<close>, \<open>Reader\<close>, \<open>Printer\<close> (\<open>syntax/scanner.rs\<close>, \<open>atom.rs\<close>, \<open>reader.rs\<close>, \<open>printer.rs\<close>): text to forms and
    back. \<open>Read_Tokens\<close>, \<open>Read_Print\<close>, \<open>Read_Laws\<close>, \<open>Read_Forms\<close>: tokens and nested forms read back, reading ends,
    unfinished input, what the reader can return.
  \<^item> \<open>Message\<close> (\<open>process/message.rs\<close>): messages and the walks over them. \<open>Wire_Codec\<close> (\<open>dist/wire.rs\<close>): frames and messages
    to bytes and back. \<open>Wire_Roundtrip\<close>, \<open>Wire_Frames\<close>, \<open>Wire_Safety\<close>: the round trip, and what is accepted of
    bytes nobody vouches for.
  \<^item> \<open>Interrupt\<close> (\<open>process/interrupt.rs\<close>): windows, ceilings and requests as one atomic step each.
  \<^item> \<open>Mailbox\<close>, \<open>Mailbox_Laws\<close>, \<open>Delivery\<close> (\<open>process/mailbox.rs\<close>): the queue with its lanes, aliases, exits and wakes.
    \<open>Receive\<close>, \<open>Receive_Laws\<close>, \<open>Selective_Receive\<close>: the scan of a selective receive, interleaved with whatever other
    threads do between its locks, and the loop that waits and scans on (\<open>scan_until_answered\<close>).
  \<^item> \<open>Monitors\<close> (\<open>process/monitor.rs\<close>), \<open>Links\<close> (\<open>process/links.rs\<close>, \<open>process/scheduler/lifecycle.rs\<close>), \<open>Deaths\<close>, \<open>Exits\<close>: the tables
    and the steps of a death, and what every other process learns of it. \<open>Names\<close> (\<open>dist.rs\<close>): registered names.
  \<^item> \<open>Guest\<close>, \<open>Guest_Laws\<close> (\<open>dist/guest.rs\<close>): grants, the filter of a guest's frames, minted names, renaming at the edge.
    \<open>Nodes\<close> (\<open>dist.rs\<close>, \<open>dist/heartbeat.rs\<close>): the table of peers, registration and teardown, the writer queue, routing and
    inbound frames. \<open>Link_Queue\<close>, \<open>Link_Table\<close>, \<open>Node_Laws\<close>: the writer thread (\<open>spawn_link_writer\<close>) and its queue, with
    full queues and failed writes, against their specification, the invariant of the table, and what links do to
    processes.

  State and steps. A structure of the code is a record with the code's field names; a table under one lock is a
  map in a record and an operation under that lock a function on it. Where threads interleave, an inductive step
  relation has one rule per critical section, and invariants hold in every state it reaches: \<open>qstep\<close> of a mailbox,
  \<open>istep\<close> of interrupts, \<open>rstep\<close> of links and deaths, with \<open>cstep\<close> for the tables shared with other nodes, \<open>hstep\<close> of
  names, \<open>nstep\<close> of the peers. What may happen between two moments a theorem speaks of is a relation too: \<open>kept_open\<close>
  between a request and the check that answers it, \<open>others_step\<close> between a watch of a node and its loss. A loop of
  compare-exchange on an atomic is one step. The matcher of a receive is an argument that may change the mailbox as it runs.

  Interfaces. \<open>key_equality\<close> and \<open>key_laws\<close> state what a trie asks of its keys and are interpreted on values;
  \<open>one_shot\<close> states a record that the first of several claimants takes and is interpreted on pending remote monitors and
  on remote links. Libraries the code calls and does not contain are arguments: the parsers and printers of numbers of
  the reader (\<open>library\<close>, with \<open>library_ok\<close> and \<open>library_reads\<close> for their documented behaviour), the hasher of
  structural keys, the clock.

  Bounds and fuel. Machine words are words and wrap where the code's do. The reader's loops take the length of the input
  plus one of fuel: each round takes a character, and \<open>reader_ends\<close> shows fuel never runs out. A nested form takes one
  of \<open>READER_MAX_DEPTH\<close> levels, as in the code. Lookup, insertion and removal in a trie
  recurse on the depth, which a hash's width bounds, and panic past it as the code does; walks of a whole trie take
  \<open>MAX_DEPTH\<close> plus one levels of fuel, enough for any well-formed trie (\<open>collect_entries_refines\<close>). Decoding recurses
  on the nesting up to \<open>MAX_DECODE_DEPTH\<close>. A receive's loop takes as fuel the candidates it may look at; \<open>receive_ends\<close>
  shows that one per message that ever arrives is enough. Allocation of trie nodes assumes room in the slab for one path; a full slab is
  the panic of the code.

  What the groups of lemmas show. C1 to C5: equality and hash are lawful and maps behave as maps, with one limit of the
  hash. C6 to C8: the wire. C9 to C12: the reader and printer. C13 to C17: names, handles and numbers. C18 to C26:
  receives, mailboxes and interrupts. C27 to C29: monitors, links and deaths. C30 to C34: guests and names. C35 to C40:
  links between nodes. Six state a limit the code has rather than a promise it keeps: C5, C14, C17, C26, C32 and C40. C12 says
  of each way a text can be cut short whether more input is asked for, C6 what a frame over the limits of its receiver
  comes to, and C16 names the comparisons that are not exact: a ratio with a NaN, and a ratio with a decimal of a
  scale of \<open>2 ^ 32\<close> or more where one of the integers takes more than \<open>2 ^ 32\<close> bits.

  Not modelled. The compiler and virtual machine: one large mutually recursive evaluator over bytecode it generates, whose
  meaning the source gives in prose. The gradual type checker. Garbage collection and copying of messages between heaps,
  beyond the watermark and epoch of a handle. The scheduler's worker threads, run queues and timer wheel: a wake is a
  value here. Sockets, listeners, dialing and the wait of one dial for another, the handshake's cryptography and the
  session ciphers. Terminal, graphical and operating-system hosts. Source positions and hints in errors, the tolerant
  syntax tree of editors, lazy ranges and opaque values in the printer. The cache of collection hashes, the fused
  counter update of maps, the fast path of delivery within one machine. A death's release of sockets, tables and
  subprocesses.
\<close>

end
